(* ===== verification/Prelude.thy ===== *)
theory Prelude
  imports "HOL-Library.Word"
begin

text \<open>
  What every component of the development shares: the collections of rewrite rules the
  component proofs pass to the simplifier, the two interfaces for stateful code (an
  inductive invariant of a step relation; a refinement between two labelled step relations
  that preserves traces), and generic facts on lists, options and machine words.
\<close>

named_theorems state_simps \<open>unfoldings of the state-changing operations of a component\<close>
named_theorems word_bounds \<open>arithmetic of machine words that do not wrap\<close>

type_synonym u8 = "8 word"
type_synonym u16 = "16 word"
type_synonym u32 = "32 word"
type_synonym u64 = "64 word"
type_synonym u128 = "128 word"

subsection \<open>Invariants of step relations\<close>

text \<open>
  A component whose operations interleave is a step relation on its states. The interface
  below is what an invariant proof has to provide; its client is every safety property that
  holds of all the states an execution can reach.
\<close>

locale inductive_invariant =
  fixes start :: "'s \<Rightarrow> bool"
    and step :: "'s \<Rightarrow> 's \<Rightarrow> bool"
    and inv :: "'s \<Rightarrow> bool"
  assumes start_inv: "start s \<Longrightarrow> inv s"
    and step_inv: "inv s \<Longrightarrow> step s t \<Longrightarrow> inv t"
begin

lemma steps_inv: "step\<^sup>*\<^sup>* s t \<Longrightarrow> inv s \<Longrightarrow> inv t"
  by (induction rule: rtranclp_induct) (auto intro: step_inv)

lemma reachable_inv: "start s \<Longrightarrow> step\<^sup>*\<^sup>* s t \<Longrightarrow> inv t"
  by (blast intro: steps_inv start_inv)

lemma reachable_step_inv: "start s \<Longrightarrow> step\<^sup>*\<^sup>* s t \<Longrightarrow> step t u \<Longrightarrow> inv u"
  by (blast intro: reachable_inv step_inv)

end

subsection \<open>Labelled steps and traces\<close>

text \<open>
  A step of a labelled machine carries the actions its environment sees: none for an internal
  step. A run concatenates them to the trace.
\<close>

inductive run :: "('s \<Rightarrow> 'l list \<Rightarrow> 's \<Rightarrow> bool) \<Rightarrow> 's \<Rightarrow> 'l list \<Rightarrow> 's \<Rightarrow> bool"
  for step :: "'s \<Rightarrow> 'l list \<Rightarrow> 's \<Rightarrow> bool" where
  run_nil: "run step s [] s"
| run_step: "run step s tr t \<Longrightarrow> step t l u \<Longrightarrow> run step s (tr @ l) u"

lemma run_single: "step s l t \<Longrightarrow> run step s l t"
  using run_step [OF run_nil] by fastforce

lemma run_append:
  assumes "run step s tr t" "run step t tr' u"
  shows "run step s (tr @ tr') u"
  using assms(2,1) by (induction rule: run.induct) (auto simp flip: append_assoc intro: run_step)

lemma run_steps: "run step s tr t \<Longrightarrow> (\<lambda>s t. \<exists>l. step s l t)\<^sup>*\<^sup>* s t"
  by (induction rule: run.induct) (auto intro: rtranclp.rtrancl_into_rtrancl)

lemma steps_run:
  assumes "step\<^sup>*\<^sup>* s t" and "\<And>s t. step s t \<Longrightarrow> \<exists>l. lstep s l t"
  shows "\<exists>tr. run lstep s tr t"
  using assms(1) by (induction rule: rtranclp_induct) (use assms(2) in \<open>blast intro: run_nil run_step\<close>)+

text \<open>
  A refinement maps the states of the detailed machine to those of an abstract one that has
  the same traces: each detailed step is a run of the abstract machine with the same label.
\<close>

locale trace_refinement =
  fixes inv :: "'s \<Rightarrow> bool"
    and lstep :: "'s \<Rightarrow> 'l list \<Rightarrow> 's \<Rightarrow> bool"
    and astep :: "'a \<Rightarrow> 'l list \<Rightarrow> 'a \<Rightarrow> bool"
    and abs :: "'s \<Rightarrow> 'a"
  assumes lstep_inv: "inv s \<Longrightarrow> lstep s l t \<Longrightarrow> inv t"
    and lstep_abs: "inv s \<Longrightarrow> lstep s l t \<Longrightarrow> run astep (abs s) l (abs t)"
begin

lemma run_inv: "run lstep s tr t \<Longrightarrow> inv s \<Longrightarrow> inv t"
  by (induction rule: run.induct) (auto intro: lstep_inv)

lemma run_abs: "run lstep s tr t \<Longrightarrow> inv s \<Longrightarrow> run astep (abs s) tr (abs t)"
proof (induction rule: run.induct)
  case (run_nil s)
  show ?case by (rule run.run_nil)
next
  case (run_step s tr t l u)
  have "inv t" using run_inv [OF run_step.hyps(1) run_step.prems] .
  from run_append [OF run_step.IH [OF run_step.prems] lstep_abs [OF this run_step.hyps(2)]]
  show ?case .
qed

end

subsection \<open>Lists and options\<close>

lemma nth_list_update_set:
  "i < length xs \<Longrightarrow> (xs[i := x]) ! j = (if i = j then x else xs ! j)"
  by (cases "j < length xs") (auto simp: nth_list_update)

lemma map_nth_upt_Suc:
  "map f [0..<Suc n] = map f [0..<n] @ [f n]"
  by simp

lemma map_upt_Suc_shift:
  "map f [0..<Suc n] = f 0 # map (\<lambda>i. f (Suc i)) [0..<n]"
  by (simp add: upt_conv_Cons map_Suc_upt [symmetric] o_def del: upt_Suc)

subsection \<open>Machine words that do not wrap\<close>

lemma of_nat_eq_small [word_bounds]:
  "a < 2 ^ LENGTH('w::len) \<Longrightarrow> b < 2 ^ LENGTH('w) \<Longrightarrow>
   (word_of_nat a :: 'w word) = word_of_nat b \<longleftrightarrow> a = b"
  by (metis of_nat_inverse)

lemma unat_of_nat_small [word_bounds]:
  "a < 2 ^ LENGTH('w::len) \<Longrightarrow> unat (word_of_nat a :: 'w word) = a"
  by (rule of_nat_inverse [OF refl])

lemma sint_small_u32 [word_bounds]:
  "- (2 ^ 31) \<le> k \<Longrightarrow> k < 2 ^ 31 \<Longrightarrow> sint (word_of_int k :: u32) = k"
  by (simp add: signed_of_int signed_take_bit_int_eq_self)

lemma unat_scast_u64 [word_bounds]:
  "0 \<le> sint (x :: u32) \<Longrightarrow> unat (scast x :: u64) = nat (sint x)"
proof -
  assume nonneg: "0 \<le> sint x"
  have "sint x < 2 ^ 31" using sint_lt [of x] by simp
  then have t: "take_bit 64 (sint x) = sint x"
    using nonneg by (intro take_bit_int_eq_self) auto
  have "uint (scast x :: u64) = take_bit LENGTH(64) (sint x)"
    unfolding scast_eq by (rule uint_word_of_int_eq)
  then have "uint (scast x :: u64) = sint x"
    using t by simp
  then show ?thesis by (metis nat_uint_eq)
qed

lemma even_word_unat: "even (s :: 'w::len word) \<longleftrightarrow> even (unat s)"
  using bit_unsigned_iff [where 'a = nat and w = s and n = 0] by (simp add: bit_0 possible_bit_def)

end
