(* ===== verification/Ring_Buffer.thy ===== *)
theory Ring_Buffer
  imports Prelude
begin

text \<open>
  Arithmetic shared by the ring buffers of the repository: a ring of \<open>n\<close> slots with a write
  position \<open>h\<close> and a read position \<open>t\<close> holds the slots \<open>t, t + 1, \<dots>, h - 1\<close>
  (modulo \<open>n\<close>); one slot stays free, so that \<open>h = t\<close> means empty. The interface
  \<open>bounded_fifo\<close> states what a bounded queue promises.
\<close>

subsection \<open>Occupied slots\<close>

definition occ :: "nat \<Rightarrow> nat \<Rightarrow> nat \<Rightarrow> nat" where
  "occ n h t = (if t \<le> h then h - t else h + n - t)"

definition contents :: "nat \<Rightarrow> 'a list \<Rightarrow> nat \<Rightarrow> nat \<Rightarrow> 'a list" where
  "contents n r h t = map (\<lambda>i. r ! ((t + i) mod n)) [0..<occ n h t]"

lemma Suc_mod_ring: "h < n \<Longrightarrow> Suc h mod n = (if Suc h = n then 0 else Suc h)"
  by auto

lemma occ_less: "h < n \<Longrightarrow> t < n \<Longrightarrow> occ n h t < n"
  by (auto simp: occ_def)

lemma occ_eq_0: "h < n \<Longrightarrow> t < n \<Longrightarrow> occ n h t = 0 \<longleftrightarrow> h = t"
  by (auto simp: occ_def)

lemma occ_refl [simp]: "occ n h h = 0"
  by (simp add: occ_def)

lemma occ_full: "h < n \<Longrightarrow> t < n \<Longrightarrow> Suc (occ n h t) = n \<longleftrightarrow> Suc h mod n = t"
  by (auto simp: occ_def Suc_mod_ring)

lemma occ_push:
  "h < n \<Longrightarrow> t < n \<Longrightarrow> Suc h mod n \<noteq> t \<Longrightarrow> occ n (Suc h mod n) t = Suc (occ n h t)"
  by (auto simp: occ_def Suc_mod_ring split: if_splits)

lemma occ_pop:
  "h < n \<Longrightarrow> t < n \<Longrightarrow> h \<noteq> t \<Longrightarrow> occ n h t = Suc (occ n h (Suc t mod n))"
  by (auto simp: occ_def Suc_mod_ring split: if_splits)

lemma occ_at_head: "h < n \<Longrightarrow> t < n \<Longrightarrow> (t + occ n h t) mod n = h"
  by (auto simp: occ_def)

lemma slot_neq_head:
  "h < n \<Longrightarrow> t < n \<Longrightarrow> i < occ n h t \<Longrightarrow> (t + i) mod n \<noteq> h"
  by (cases "t + i < n") (auto simp: occ_def mod_if [of "t + i" n] split: if_splits)

lemma slot_inj:
  fixes t i j n :: nat
  assumes "t < n" "i < n" "j < n" "(t + i) mod n = (t + j) mod n"
  shows "i = j"
  using assms mod_if [of "t + i" n] mod_if [of "t + j" n]
  by (simp add: split: if_splits)

lemma length_contents [simp]: "length (contents n r h t) = occ n h t"
  by (simp add: contents_def)

lemma contents_empty [simp]: "contents n r h h = []"
  by (simp add: contents_def)

lemma contents_write:
  assumes "h < n" "t < n" "length r = n"
  shows "contents n (r[h := v]) h t = contents n r h t"
proof -
  have "(r[h := v]) ! ((t + i) mod n) = r ! ((t + i) mod n)" if "i < occ n h t" for i
    using slot_neq_head [OF assms(1,2) that] by simp
  then show ?thesis by (simp add: contents_def)
qed

lemma contents_push:
  assumes "h < n" "t < n" "Suc h mod n \<noteq> t"
  shows "contents n r (Suc h mod n) t = contents n r h t @ [r ! h]"
  by (simp add: contents_def occ_push [OF assms] occ_at_head [OF assms(1,2)])

lemma contents_pop:
  assumes "h < n" "t < n" "h \<noteq> t"
  shows "contents n r h t = r ! t # contents n r h (Suc t mod n)"
proof -
  have "(Suc t mod n + i) mod n = (t + Suc i) mod n" for i
    by (simp add: mod_add_left_eq)
  then show ?thesis
    using assms(2)
    by (simp add: contents_def occ_pop [OF assms] map_upt_Suc_shift del: upt_Suc)
qed

lemma contents_not_Nil: "h < n \<Longrightarrow> t < n \<Longrightarrow> contents n r h t \<noteq> [] \<longleftrightarrow> h \<noteq> t"
  by (metis length_contents length_0_conv occ_eq_0)

subsection \<open>What a bounded queue promises\<close>

text \<open>
  \<open>push\<close> answers whether the value was stored; \<open>pop\<close> answers the oldest value. A queue that
  is full keeps its contents on \<open>push\<close>, an empty one on \<open>pop\<close>.
\<close>

primrec push_all :: "('a \<Rightarrow> 'q \<Rightarrow> bool \<times> 'q) \<Rightarrow> 'a list \<Rightarrow> 'q \<Rightarrow> 'q" where
  "push_all push [] q = q"
| "push_all push (x # xs) q = push_all push xs (snd (push x q))"

primrec pop_n :: "('q \<Rightarrow> 'a option \<times> 'q) \<Rightarrow> nat \<Rightarrow> 'q \<Rightarrow> 'a list \<times> 'q" where
  "pop_n pop 0 q = ([], q)"
| "pop_n pop (Suc k) q = (case pop q of (None, q') \<Rightarrow> ([], q')
     | (Some x, q') \<Rightarrow> (case pop_n pop k q' of (xs, q'') \<Rightarrow> (x # xs, q'')))"

locale bounded_fifo =
  fixes elems :: "'q \<Rightarrow> 'a list"
    and inv :: "'q \<Rightarrow> bool"
    and cap :: "'q \<Rightarrow> nat"
    and push :: "'a \<Rightarrow> 'q \<Rightarrow> bool \<times> 'q"
    and pop :: "'q \<Rightarrow> 'a option \<times> 'q"
  assumes push_inv: "inv q \<Longrightarrow> push x q = (b, q') \<Longrightarrow> inv q' \<and> cap q' = cap q"
    and push_elems: "inv q \<Longrightarrow> push x q = (b, q') \<Longrightarrow>
      b = (length (elems q) < cap q) \<and> elems q' = (if b then elems q @ [x] else elems q)"
    and pop_inv: "inv q \<Longrightarrow> pop q = (r, q') \<Longrightarrow> inv q' \<and> cap q' = cap q"
    and pop_elems: "inv q \<Longrightarrow> pop q = (r, q') \<Longrightarrow>
      (case elems q of [] \<Rightarrow> r = None \<and> elems q' = [] | x # xs \<Rightarrow> r = Some x \<and> elems q' = xs)"
    and elems_cap: "inv q \<Longrightarrow> length (elems q) \<le> cap q"
begin

lemma push_all_elems:
  "inv q \<Longrightarrow> length (elems q) + length xs \<le> cap q \<Longrightarrow>
   inv (push_all push xs q) \<and> elems (push_all push xs q) = elems q @ xs"
proof (induction xs arbitrary: q)
  case Nil
  then show ?case by simp
next
  case (Cons x xs)
  obtain b q' where p: "push x q = (b, q')" by (cases "push x q")
  with Cons.prems have "inv q'" "cap q' = cap q" "elems q' = elems q @ [x]"
    using push_inv [OF _ p] push_elems [OF _ p] by auto
  with Cons.IH [of q'] Cons.prems p show ?case by simp
qed

lemma pop_n_elems:
  "inv q \<Longrightarrow> inv (snd (pop_n pop k q)) \<and> fst (pop_n pop k q) = take k (elems q)
     \<and> elems (snd (pop_n pop k q)) = drop k (elems q)"
proof (induction k arbitrary: q)
  case 0
  then show ?case by simp
next
  case (Suc k)
  obtain r q' where p: "pop q = (r, q')" by (cases "pop q")
  have "inv q'" using pop_inv [OF Suc.prems p] by simp
  show ?case
  proof (cases "elems q")
    case Nil
    then have "r = None" "elems q' = []" using pop_elems [OF Suc.prems p] by auto
    then show ?thesis using Nil p \<open>inv q'\<close> by simp
  next
    case (Cons x xs)
    then have "r = Some x" "elems q' = xs" using pop_elems [OF Suc.prems p] by auto
    then show ?thesis
      using Cons p Suc.IH [OF \<open>inv q'\<close>] by (auto split: prod.splits)
  qed
qed

lemma fifo_roundtrip:
  "inv q \<Longrightarrow> elems q = [] \<Longrightarrow> length xs \<le> cap q \<Longrightarrow> fst (pop_n pop (length xs) (push_all push xs q)) = xs"
  using push_all_elems [of q xs] pop_n_elems [of "push_all push xs q" "length xs"] by simp

lemma drain_empties:
  "inv q \<Longrightarrow> cap q \<le> k \<Longrightarrow> fst (pop_n pop k q) = elems q \<and> elems (snd (pop_n pop k q)) = []"
  using pop_n_elems [of q k] elems_cap [of q] by simp

end

end
