(* ===== verification/Atomic_Queue.thy ===== *)
theory Atomic_Queue
  imports Prelude
begin

text \<open>
  What a queue shared by several threads promises: a bounded list on which every operation
  takes effect atomically, at one moment between its call and its return. The machine below
  makes that moment an internal step of its own; its traces are the calls and the returns. A
  queue whose traces are all traces of this machine is linearizable.
\<close>

datatype 'd operation = Push 'd | Pop | Peek | Pop_if

datatype 'd answer = Pushed | Full | Popped 'd | Empty | Peeked 'd | Refused 'd

text \<open>
  \<open>Exchanged old new\<close>: an element has been replaced in place. A thread is \<open>Resting\<close>, or its
  call has been made and has not taken effect, or it has and has its answer.
\<close>

datatype 'd action = Call nat "'d operation" | Return nat "'d answer" | Exchanged 'd 'd

datatype 'd phase = Resting | Called "'d operation" | Done "'d answer"

record 'd atomic_queue =
  capacity :: nat
  elements :: "'d list"
  phase :: "nat \<Rightarrow> 'd phase"

definition empty_queue :: "nat \<Rightarrow> 'd atomic_queue" where
  "empty_queue n = \<lparr>capacity = n, elements = [], phase = (\<lambda>i. Resting)\<rparr>"

text \<open>What an operation answers and leaves behind, on a queue of capacity \<open>c\<close> that holds \<open>xs\<close>.\<close>

inductive applies :: "nat \<Rightarrow> 'd operation \<Rightarrow> 'd list \<Rightarrow> 'd answer \<Rightarrow> 'd list \<Rightarrow> bool" where
  push_room: "length xs < c \<Longrightarrow> applies c (Push d) xs Pushed (xs @ [d])"
| push_full: "length xs = c \<Longrightarrow> applies c (Push d) xs Full xs"
| pop_head: "applies c Pop (d # xs) (Popped d) xs"
| pop_none: "applies c Pop [] Empty []"
| peek_head: "applies c Peek (d # xs) (Peeked d) (d # xs)"
| peek_none: "applies c Peek [] Empty []"
| pop_if_head: "applies c Pop_if (d # xs) (Popped d) xs"
| pop_if_refused: "applies c Pop_if (d # xs) (Refused d) (d # xs)"
| pop_if_none: "applies c Pop_if [] Empty []"

inductive aq_step :: "'d atomic_queue \<Rightarrow> 'd action list \<Rightarrow> 'd atomic_queue \<Rightarrow> bool" where
  call: "phase a i = Resting \<Longrightarrow>
    aq_step a [Call i op] (a\<lparr>phase := (phase a)(i := Called op)\<rparr>)"
| effect: "phase a i = Called op \<Longrightarrow> applies (capacity a) op (elements a) r xs \<Longrightarrow>
    aq_step a [] (a\<lparr>elements := xs, phase := (phase a)(i := Done r)\<rparr>)"
| return: "phase a i = Done r \<Longrightarrow>
    aq_step a [Return i r] (a\<lparr>phase := (phase a)(i := Resting)\<rparr>)"
| exchange: "j < length (elements a) \<Longrightarrow>
    aq_step a [Exchanged (elements a ! j) new] (a\<lparr>elements := (elements a)[j := new]\<rparr>)"

text \<open>An effect that is followed at once by the return.\<close>

lemma aq_answer:
  assumes "phase a i = Called op" "applies (capacity a) op (elements a) r xs"
  shows "run aq_step a [Return i r] (a\<lparr>elements := xs, phase := (phase a)(i := Resting)\<rparr>)"
proof -
  let ?b = "a\<lparr>elements := xs, phase := (phase a)(i := Done r)\<rparr>"
  have "run aq_step a [] ?b" by (rule run_single) (rule aq_step.effect [OF assms])
  moreover have "aq_step ?b [Return i r] (a\<lparr>elements := xs, phase := (phase a)(i := Resting)\<rparr>)"
    using aq_step.return [of ?b i r] by simp
  ultimately show ?thesis using run_step [of aq_step a "[]" ?b] by simp
qed

text \<open>The atomic queue never holds more than its capacity and answers its own elements.\<close>

lemma aq_step_capacity:
  "aq_step a l b \<Longrightarrow> length (elements a) \<le> capacity a \<Longrightarrow>
   capacity b = capacity a \<and> length (elements b) \<le> capacity b"
  by (induction rule: aq_step.induct) (auto elim: applies.cases)

lemma aq_run_capacity:
  "run aq_step a tr b \<Longrightarrow> length (elements a) \<le> capacity a \<Longrightarrow>
   capacity b = capacity a \<and> length (elements b) \<le> capacity b"
  by (induction rule: run.induct) (auto dest: aq_step_capacity)

end
