(* ===== verification/Spsc_Queue.thy ===== *)
theory Spsc_Queue
  imports Ring_Buffer Atomic_Queue
begin

text \<open>
  The one-producer one-consumer queues: \<open>OneReaderOneWriterQueue\<close>
  (multiThread/OneReaderOneWriterQueue.cpp) and \<open>ProducerConsumerQueue\<close>
  (multiThread/OneReaderOneWriterQueue3.cpp). Each queue is modelled twice: as functions
  that run a whole operation, and as a step relation in which the producer and the consumer
  interleave at every access to a shared location. Indices stay below the number of slots,
  so they are natural numbers; \<open>sizeGuess\<close>, which subtracts them, keeps their width.
  Release stores and acquire loads are modelled as accesses to one memory.
\<close>

subsection \<open>OneReaderOneWriterQueue: the operations\<close>

record 'a spsc =
  Size :: nat
  ring :: "'a list"
  head :: nat
  tail :: nat

definition next_index :: "nat \<Rightarrow> nat \<Rightarrow> nat" where
  "next_index sz current = (current + 1) mod sz"

definition spsc_push :: "'a \<Rightarrow> 'a spsc \<Rightarrow> bool \<times> 'a spsc" where
  "spsc_push value q =
     (let hd0 = head q; next_head = next_index (Size q) hd0 in
      if next_head = tail q then (False, q)
      else (True, q\<lparr>ring := (ring q)[hd0 := value], head := next_head\<rparr>))"

definition spsc_pop :: "'a spsc \<Rightarrow> 'a option \<times> 'a spsc" where
  "spsc_pop q =
     (let tl0 = tail q in
      if tl0 = head q then (None, q)
      else (Some (ring q ! tl0), q\<lparr>tail := next_index (Size q) tl0\<rparr>))"

definition spsc_wf :: "'a spsc \<Rightarrow> bool" where
  "spsc_wf q \<longleftrightarrow> length (ring q) = Size q \<and> head q < Size q \<and> tail q < Size q"

definition spsc_elems :: "'a spsc \<Rightarrow> 'a list" where
  "spsc_elems q = contents (Size q) (ring q) (head q) (tail q)"

subsection \<open>Phases of the two threads\<close>

text \<open>
  \<open>PHead x h\<close>: the producer of \<open>x\<close> has loaded the write position. \<open>PRoom x h nh\<close>: it has
  found a free slot. \<open>PWritten x nh\<close>: it has filled the slot and not yet published it. The
  consumer: \<open>CTail t\<close> has loaded the read position, \<open>CSome t\<close> has found a value, \<open>CRead t x\<close>
  has copied it and not yet released the slot. \<open>PGo\<close> and \<open>CGo\<close> are the points after the
  test of the stop flag, in the queue that has one.
\<close>

datatype 'a producer = PIdle | PGo 'a | PHead 'a nat | PRoom 'a nat nat | PWritten 'a nat

datatype 'a consumer = CIdle | CGo | CTail nat | CSome nat | CRead nat 'a

text \<open>What the two threads and the ring agree on, between any two steps.\<close>

fun producer_ok :: "nat \<Rightarrow> 'a list \<Rightarrow> nat \<Rightarrow> nat \<Rightarrow> 'a producer \<Rightarrow> bool" where
  "producer_ok n r h t (PHead x h') = (h' = h)"
| "producer_ok n r h t (PRoom x h' nh) = (h' = h \<and> nh = Suc h mod n \<and> nh \<noteq> t)"
| "producer_ok n r h t (PWritten x nh) = (nh = Suc h mod n \<and> nh \<noteq> t \<and> r ! h = x)"
| "producer_ok n r h t _ = True"

fun consumer_ok :: "'a list \<Rightarrow> nat \<Rightarrow> nat \<Rightarrow> 'a consumer \<Rightarrow> bool" where
  "consumer_ok r h t (CTail t') = (t' = t)"
| "consumer_ok r h t (CSome t') = (t' = t \<and> t \<noteq> h)"
| "consumer_ok r h t (CRead t' x) = (t' = t \<and> t \<noteq> h \<and> x = r ! t)"
| "consumer_ok r h t _ = True"

definition spsc_agree ::
  "nat \<Rightarrow> 'a list \<Rightarrow> nat \<Rightarrow> nat \<Rightarrow> 'a producer \<Rightarrow> 'a consumer \<Rightarrow> 'a list \<Rightarrow> 'a list \<Rightarrow> bool" where
  "spsc_agree n r h t p c pushed popped \<longleftrightarrow>
     length r = n \<and> h < n \<and> t < n \<and> producer_ok n r h t p \<and> consumer_ok r h t c \<and>
     popped @ contents n r h t = pushed"

lemma Suc_mod_inj: "h < n \<Longrightarrow> t < n \<Longrightarrow> h \<noteq> t \<Longrightarrow> Suc h mod n \<noteq> Suc t mod n"
  by (auto simp: Suc_mod_ring)

lemma agree_write:
  assumes "spsc_agree n r h t (PRoom x h' nh) c pushed popped"
  shows "spsc_agree n (r[h' := x]) h t (PWritten x nh) c pushed popped"
  using assms by (cases c) (auto simp: spsc_agree_def contents_write)

lemma agree_publish:
  assumes "spsc_agree n r h t (PWritten x nh) c pushed popped"
  shows "spsc_agree n r nh t PIdle c (pushed @ [x]) popped"
  using assms by (cases c) (auto simp: spsc_agree_def contents_push)

lemma agree_release:
  assumes "spsc_agree n r h t p (CRead t' x) pushed popped"
  shows "spsc_agree n r h (Suc t' mod n) p CIdle pushed (popped @ [x])"
  using assms Suc_mod_inj [of h n t]
  by (cases p) (auto simp: spsc_agree_def contents_pop)

text \<open>The producer and the consumer never touch the same slot at the same time.\<close>

lemma agree_no_race:
  "spsc_agree n r h t (PRoom x h' nh) (CSome t') pushed popped \<Longrightarrow> h' \<noteq> t'"
  by (auto simp: spsc_agree_def)

subsection \<open>OneReaderOneWriterQueue: the interleavings\<close>

record 'a spsc_sys =
  queue :: "'a spsc"
  prod :: "'a producer"
  cons :: "'a consumer"
  pushed :: "'a list"
  popped :: "'a list"

inductive spsc_push_step :: "'a spsc_sys \<Rightarrow> 'a spsc_sys \<Rightarrow> bool" where
  load_head: "prod s = PIdle \<Longrightarrow> spsc_push_step s (s\<lparr>prod := PHead x (head (queue s))\<rparr>)"
| full: "prod s = PHead x h \<Longrightarrow> next_index (Size (queue s)) h = tail (queue s) \<Longrightarrow>
    spsc_push_step s (s\<lparr>prod := PIdle\<rparr>)"
| room: "prod s = PHead x h \<Longrightarrow> next_index (Size (queue s)) h \<noteq> tail (queue s) \<Longrightarrow>
    spsc_push_step s (s\<lparr>prod := PRoom x h (next_index (Size (queue s)) h)\<rparr>)"
| write_slot: "prod s = PRoom x h nh \<Longrightarrow>
    spsc_push_step s (s\<lparr>queue := (queue s)\<lparr>ring := (ring (queue s))[h := x]\<rparr>, prod := PWritten x nh\<rparr>)"
| store_head: "prod s = PWritten x nh \<Longrightarrow>
    spsc_push_step s (s\<lparr>queue := (queue s)\<lparr>head := nh\<rparr>, prod := PIdle, pushed := pushed s @ [x]\<rparr>)"

inductive spsc_pop_step :: "'a spsc_sys \<Rightarrow> 'a spsc_sys \<Rightarrow> bool" where
  load_tail: "cons s = CIdle \<Longrightarrow> spsc_pop_step s (s\<lparr>cons := CTail (tail (queue s))\<rparr>)"
| empty: "cons s = CTail t \<Longrightarrow> t = head (queue s) \<Longrightarrow> spsc_pop_step s (s\<lparr>cons := CIdle\<rparr>)"
| some: "cons s = CTail t \<Longrightarrow> t \<noteq> head (queue s) \<Longrightarrow> spsc_pop_step s (s\<lparr>cons := CSome t\<rparr>)"
| read_slot: "cons s = CSome t \<Longrightarrow> spsc_pop_step s (s\<lparr>cons := CRead t (ring (queue s) ! t)\<rparr>)"
| store_tail: "cons s = CRead t x \<Longrightarrow>
    spsc_pop_step s (s\<lparr>queue := (queue s)\<lparr>tail := next_index (Size (queue s)) t\<rparr>, cons := CIdle,
      popped := popped s @ [x]\<rparr>)"

definition spsc_step :: "'a spsc_sys \<Rightarrow> 'a spsc_sys \<Rightarrow> bool" where
  "spsc_step s t \<longleftrightarrow> spsc_push_step s t \<or> spsc_pop_step s t"

definition spsc_start :: "'a spsc_sys \<Rightarrow> bool" where
  "spsc_start s \<longleftrightarrow> 0 < Size (queue s) \<and> length (ring (queue s)) = Size (queue s) \<and>
     head (queue s) = 0 \<and> tail (queue s) = 0 \<and> prod s = PIdle \<and> cons s = CIdle \<and>
     pushed s = [] \<and> popped s = []"

definition spsc_inv :: "'a spsc_sys \<Rightarrow> bool" where
  "spsc_inv s \<longleftrightarrow> spsc_agree (Size (queue s)) (ring (queue s)) (head (queue s)) (tail (queue s))
     (prod s) (cons s) (pushed s) (popped s)"

lemma spsc_push_step_inv: "spsc_push_step s t \<Longrightarrow> spsc_inv s \<Longrightarrow> spsc_inv t"
proof (induction rule: spsc_push_step.induct)
  case (write_slot s x h nh)
  then show ?case by (simp add: spsc_inv_def agree_write)
next
  case (store_head s x nh)
  then show ?case by (simp add: spsc_inv_def agree_publish)
qed (auto simp: spsc_inv_def spsc_agree_def next_index_def)

lemma spsc_pop_step_inv: "spsc_pop_step s t \<Longrightarrow> spsc_inv s \<Longrightarrow> spsc_inv t"
proof (induction rule: spsc_pop_step.induct)
  case (store_tail s t x)
  then show ?case by (auto simp: spsc_inv_def next_index_def intro: agree_release)
qed (auto simp: spsc_inv_def spsc_agree_def)

interpretation spsc: inductive_invariant spsc_start spsc_step spsc_inv
proof
  show "spsc_inv s" if "spsc_start s" for s :: "'a spsc_sys"
    using that by (auto simp: spsc_start_def spsc_inv_def spsc_agree_def)
  show "spsc_inv t" if "spsc_inv s" "spsc_step s t" for s t :: "'a spsc_sys"
    using that spsc_push_step_inv spsc_pop_step_inv by (auto simp: spsc_step_def)
qed

subsection \<open>OneReaderOneWriterQueue: calls and returns\<close>

text \<open>
  The producer is thread 0 and the consumer thread 1. A step that leaves or enters the idle
  point is a call or a return; the answer of \<open>pop\<close> is the value the consumer has copied.
\<close>

fun push_label :: "'a producer \<Rightarrow> 'a producer \<Rightarrow> 'a action list" where
  "push_label PIdle (PHead x h) = [Call 0 (Push x)]"
| "push_label (PHead x h) PIdle = [Return 0 Full]"
| "push_label (PWritten x nh) PIdle = [Return 0 Pushed]"
| "push_label _ _ = []"

fun pop_label :: "'a consumer \<Rightarrow> 'a consumer \<Rightarrow> 'a action list" where
  "pop_label CIdle (CTail t) = [Call 1 Pop]"
| "pop_label (CTail t) CIdle = [Return 1 Empty]"
| "pop_label (CRead t x) CIdle = [Return 1 (Popped x)]"
| "pop_label _ _ = []"

lemma label_same [simp]: "push_label p p = []" "pop_label c c = []"
  by (cases p; simp) (cases c; simp)

definition spsc_label :: "'a spsc_sys \<Rightarrow> 'a spsc_sys \<Rightarrow> 'a action list" where
  "spsc_label s t = push_label (prod s) (prod t) @ pop_label (cons s) (cons t)"

definition spsc_lstep :: "'a spsc_sys \<Rightarrow> 'a action list \<Rightarrow> 'a spsc_sys \<Rightarrow> bool" where
  "spsc_lstep s l t \<longleftrightarrow> spsc_step s t \<and> l = spsc_label s t"

fun producer_phase :: "'a producer \<Rightarrow> 'a phase" where
  "producer_phase (PHead x h) = Called (Push x)"
| "producer_phase (PRoom x h nh) = Called (Push x)"
| "producer_phase (PWritten x nh) = Called (Push x)"
| "producer_phase _ = Resting"

fun consumer_phase :: "'a consumer \<Rightarrow> 'a phase" where
  "consumer_phase (CTail t) = Called Pop"
| "consumer_phase (CSome t) = Called Pop"
| "consumer_phase (CRead t x) = Called Pop"
| "consumer_phase _ = Resting"

definition two_phases :: "'a phase \<Rightarrow> 'a phase \<Rightarrow> nat \<Rightarrow> 'a phase" where
  "two_phases p c = (\<lambda>i. if i = 0 then p else if i = 1 then c else Resting)"

lemma two_phases [simp]:
  "two_phases p c 0 = p" "two_phases p c (Suc 0) = c"
  "(two_phases p c)(0 := p') = two_phases p' c" "(two_phases p c)(Suc 0 := c') = two_phases p c'"
  by (auto simp: two_phases_def)

definition spsc_abs :: "'a spsc_sys \<Rightarrow> 'a atomic_queue" where
  "spsc_abs s = \<lparr>capacity = Size (queue s) - 1, elements = spsc_elems (queue s),
     phase = two_phases (producer_phase (prod s)) (consumer_phase (cons s))\<rparr>"

text \<open>What the three steps that decide an operation find in the ring.\<close>

lemma agree_publish_elems:
  assumes "spsc_agree n r h t (PWritten x nh) c ps qs"
  shows "length (contents n r h t) < n - 1 \<and> contents n r nh t = contents n r h t @ [x]"
  using assms occ_full [of h n t] occ_less [of h n t]
  by (auto simp: spsc_agree_def contents_push less_Suc_eq)

lemma agree_full_elems:
  "spsc_agree n r h t (PHead x h') c ps qs \<Longrightarrow> next_index n h' = t \<Longrightarrow> length (contents n r h t) = n - 1"
  using occ_full [of h n t] by (auto simp: spsc_agree_def next_index_def)

lemma agree_release_elems:
  "spsc_agree n r h t p (CRead t' x) ps qs \<Longrightarrow> contents n r h t = x # contents n r h (next_index n t')"
  by (auto simp: spsc_agree_def contents_pop next_index_def)

lemma spsc_push_step_abs:
  "spsc_push_step s t \<Longrightarrow> spsc_inv s \<Longrightarrow> run aq_step (spsc_abs s) (spsc_label s t) (spsc_abs t)"
proof (induction rule: spsc_push_step.induct)
  case (load_head s x)
  then show ?case
    using run_single [where step = aq_step, OF aq_step.call [of "spsc_abs s" 0 "Push x"]]
    by (simp add: spsc_abs_def spsc_label_def)
next
  case (full s x h)
  then have "length (spsc_elems (queue s)) = Size (queue s) - 1"
    by (auto simp: spsc_inv_def spsc_elems_def dest: agree_full_elems)
  then show ?case
    using aq_answer [of "spsc_abs s" 0 "Push x" Full "spsc_elems (queue s)"] full
    by (simp add: spsc_abs_def spsc_label_def applies.push_full)
next
  case (room s x h)
  then show ?case by (simp add: spsc_abs_def spsc_label_def run_nil)
next
  case (write_slot s x h nh)
  then have "spsc_elems ((queue s)\<lparr>ring := (ring (queue s))[h := x]\<rparr>) = spsc_elems (queue s)"
    by (auto simp: spsc_inv_def spsc_agree_def spsc_elems_def contents_write)
  then show ?case using write_slot
    by (simp add: spsc_abs_def spsc_label_def run_nil)
next
  case (store_head s x nh)
  let ?es = "spsc_elems (queue s)"
  have es: "length ?es < Size (queue s) - 1" "spsc_elems ((queue s)\<lparr>head := nh\<rparr>) = ?es @ [x]"
    using store_head by (auto simp: spsc_inv_def spsc_elems_def dest: agree_publish_elems)
  then show ?case
    using aq_answer [of "spsc_abs s" 0 "Push x" Pushed "?es @ [x]"] store_head(1)
    by (simp add: spsc_abs_def spsc_label_def applies.push_room)
qed

lemma spsc_pop_step_abs:
  "spsc_pop_step s t \<Longrightarrow> spsc_inv s \<Longrightarrow> run aq_step (spsc_abs s) (spsc_label s t) (spsc_abs t)"
proof (induction rule: spsc_pop_step.induct)
  case (load_tail s)
  then show ?case
    using run_single [where step = aq_step, OF aq_step.call [of "spsc_abs s" 1 Pop]]
    by (simp add: spsc_abs_def spsc_label_def)
next
  case (empty s t)
  then have "spsc_elems (queue s) = []"
    by (auto simp: spsc_inv_def spsc_agree_def spsc_elems_def)
  then show ?case
    using aq_answer [of "spsc_abs s" 1 Pop Empty "[]"] empty
    by (simp add: spsc_abs_def spsc_label_def applies.pop_none)
next
  case (store_tail s t x)
  let ?es = "spsc_elems ((queue s)\<lparr>tail := next_index (Size (queue s)) t\<rparr>)"
  have "spsc_elems (queue s) = x # ?es"
    using store_tail by (auto simp: spsc_inv_def spsc_elems_def dest: agree_release_elems)
  then show ?case
    using aq_answer [of "spsc_abs s" 1 Pop "Popped x" ?es] store_tail(1)
    by (simp add: spsc_abs_def spsc_label_def applies.pop_head)
qed (simp_all add: spsc_abs_def spsc_label_def run_nil)

interpretation spsc_trace: trace_refinement spsc_inv spsc_lstep aq_step spsc_abs
proof
  show "spsc_inv t" if "spsc_inv s" "spsc_lstep s l t" for s t :: "'a spsc_sys" and l
    using that spsc.step_inv by (auto simp: spsc_lstep_def)
  show "run aq_step (spsc_abs s) l (spsc_abs t)" if "spsc_inv s" "spsc_lstep s l t"
    for s t :: "'a spsc_sys" and l
    using that spsc_push_step_abs spsc_pop_step_abs by (auto simp: spsc_lstep_def spsc_step_def)
qed

lemma spsc_start_abs: "spsc_start s \<Longrightarrow> spsc_abs s = empty_queue (Size (queue s) - 1)"
  by (simp add: spsc_start_def spsc_abs_def spsc_elems_def empty_queue_def two_phases_def fun_eq_iff)

text \<open>Every interleaving has a trace.\<close>

lemma spsc_steps_trace: "spsc_step\<^sup>*\<^sup>* s t \<Longrightarrow> \<exists>tr. run spsc_lstep s tr t"
  by (rule steps_run [where step = spsc_step]) (auto simp: spsc_lstep_def)

subsection \<open>OneReaderOneWriterQueue: whole operations implement a bounded queue\<close>

definition spsc_capacity :: "'a spsc \<Rightarrow> nat" where
  "spsc_capacity q = Size q - 1"

lemma spsc_has_room:
  assumes "spsc_wf q"
  shows "next_index (Size q) (head q) \<noteq> tail q \<longleftrightarrow> length (spsc_elems q) < spsc_capacity q"
  using assms occ_full [of "head q" "Size q" "tail q"] occ_less [of "head q" "Size q" "tail q"]
  by (auto simp: spsc_wf_def spsc_elems_def spsc_capacity_def next_index_def)

lemma spsc_push_wf: "spsc_wf q \<Longrightarrow> spsc_push x q = (b, q') \<Longrightarrow>
    spsc_wf q' \<and> spsc_capacity q' = spsc_capacity q"
  by (auto simp: spsc_push_def spsc_wf_def spsc_capacity_def next_index_def Let_def split: if_splits)

lemma spsc_pop_wf: "spsc_wf q \<Longrightarrow> spsc_pop q = (r, q') \<Longrightarrow>
    spsc_wf q' \<and> spsc_capacity q' = spsc_capacity q"
  by (auto simp: spsc_pop_def spsc_wf_def spsc_capacity_def next_index_def Let_def split: if_splits)

lemma spsc_push_elems:
  assumes "spsc_wf q" "spsc_push x q = (b, q')"
  shows "b = (length (spsc_elems q) < spsc_capacity q) \<and>
    spsc_elems q' = (if b then spsc_elems q @ [x] else spsc_elems q)"
  using assms spsc_has_room [OF assms(1)]
  by (auto simp: spsc_push_def spsc_wf_def spsc_elems_def next_index_def Let_def
      contents_push contents_write split: if_splits)

lemma spsc_pop_elems:
  assumes "spsc_wf q" "spsc_pop q = (r, q')"
  shows "case spsc_elems q of [] \<Rightarrow> r = None \<and> spsc_elems q' = []
    | x # xs \<Rightarrow> r = Some x \<and> spsc_elems q' = xs"
  using assms
  by (auto simp: spsc_pop_def spsc_wf_def spsc_elems_def next_index_def Let_def
      contents_pop split: if_splits)

lemma spsc_elems_capacity: "spsc_wf q \<Longrightarrow> length (spsc_elems q) \<le> spsc_capacity q"
  using occ_less [of "head q" "Size q" "tail q"]
  by (auto simp: spsc_wf_def spsc_elems_def spsc_capacity_def)

interpretation spsc_fifo: bounded_fifo spsc_elems spsc_wf spsc_capacity spsc_push spsc_pop
  by (rule bounded_fifo.intro)
    (fact spsc_push_wf spsc_push_elems spsc_pop_wf spsc_pop_elems spsc_elems_capacity)+

subsection \<open>The whole operations are runs of the two threads\<close>

lemma spsc_push_run:
  assumes "prod s = PIdle" "spsc_push x (queue s) = (True, q')"
  shows "spsc_step\<^sup>*\<^sup>* s (s\<lparr>queue := q', pushed := pushed s @ [x]\<rparr>)"
proof -
  define h where "h = head (queue s)"
  define nh where "nh = next_index (Size (queue s)) h"
  let ?s1 = "s\<lparr>prod := PHead x h\<rparr>" and ?s2 = "s\<lparr>prod := PRoom x h nh\<rparr>"
  let ?q3 = "(queue s)\<lparr>ring := (ring (queue s))[h := x]\<rparr>"
  let ?s3 = "s\<lparr>queue := ?q3, prod := PWritten x nh\<rparr>"
  have room: "nh \<noteq> tail (queue s)" and q': "q' = ?q3\<lparr>head := nh\<rparr>"
    using assms(2) by (auto simp: spsc_push_def Let_def nh_def h_def split: if_splits)
  have "spsc_push_step s ?s1"
    using spsc_push_step.load_head [OF assms(1)] by (simp add: h_def)
  moreover have "spsc_push_step ?s1 ?s2"
    using spsc_push_step.room [of ?s1 x h] room by (simp add: nh_def)
  moreover have "spsc_push_step ?s2 ?s3"
    using spsc_push_step.write_slot [of ?s2 x h nh] by simp
  moreover have "spsc_push_step ?s3 (s\<lparr>queue := q', pushed := pushed s @ [x]\<rparr>)"
    using spsc_push_step.store_head [of ?s3 x nh] assms(1) q' by (cases s) simp
  ultimately show ?thesis
    by (blast intro: spsc_step_def [THEN iffD2] converse_rtranclp_into_rtranclp)
qed

lemma spsc_pop_run:
  assumes "cons s = CIdle" "spsc_pop (queue s) = (Some x, q')"
  shows "spsc_step\<^sup>*\<^sup>* s (s\<lparr>queue := q', popped := popped s @ [x]\<rparr>)"
proof -
  define t where "t = tail (queue s)"
  let ?s1 = "s\<lparr>cons := CTail t\<rparr>" and ?s2 = "s\<lparr>cons := CSome t\<rparr>" and ?s3 = "s\<lparr>cons := CRead t x\<rparr>"
  have some: "t \<noteq> head (queue s)" and x: "x = ring (queue s) ! t"
    and q': "q' = (queue s)\<lparr>tail := next_index (Size (queue s)) t\<rparr>"
    using assms(2) by (auto simp: spsc_pop_def Let_def t_def split: if_splits)
  have "spsc_pop_step s ?s1"
    using spsc_pop_step.load_tail [OF assms(1)] by (simp add: t_def)
  moreover have "spsc_pop_step ?s1 ?s2"
    using spsc_pop_step.some [of ?s1 t] some by simp
  moreover have "spsc_pop_step ?s2 ?s3"
    using spsc_pop_step.read_slot [of ?s2 t] x by simp
  moreover have "spsc_pop_step ?s3 (s\<lparr>queue := q', popped := popped s @ [x]\<rparr>)"
    using spsc_pop_step.store_tail [of ?s3 t x] assms(1) q' by (cases s) simp
  ultimately show ?thesis
    by (blast intro: spsc_step_def [THEN iffD2] converse_rtranclp_into_rtranclp)
qed

text \<open>A ring of three slots, before and after one value has gone through.\<close>

definition spsc_ex0 :: "nat spsc_sys" where
  "spsc_ex0 = \<lparr>queue = \<lparr>Size = 3, ring = [0, 0, 0], head = 0, tail = 0\<rparr>,
     prod = PIdle, cons = CIdle, pushed = [], popped = []\<rparr>"

definition spsc_ex1 :: "nat spsc_sys" where
  "spsc_ex1 = \<lparr>queue = \<lparr>Size = 3, ring = [7, 0, 0], head = 1, tail = 0\<rparr>,
     prod = PIdle, cons = CIdle, pushed = [7], popped = []\<rparr>"

lemma spsc_ex0_start: "spsc_start spsc_ex0"
  by (simp add: spsc_ex0_def spsc_start_def)

lemma spsc_ex1_reachable: "spsc_step\<^sup>*\<^sup>* spsc_ex0 spsc_ex1"
  using spsc_push_run [of spsc_ex0 7 "queue spsc_ex1"]
  by (simp add: spsc_ex0_def spsc_ex1_def spsc_push_def next_index_def)

lemma spsc_ex1_both: "spsc_step\<^sup>*\<^sup>* spsc_ex0 (spsc_ex1\<lparr>prod := PRoom 8 1 2, cons := CSome 0\<rparr>)"
proof -
  have "spsc_push_step spsc_ex1 (spsc_ex1\<lparr>prod := PHead 8 1\<rparr>)"
    using spsc_push_step.load_head [of spsc_ex1 8] by (simp add: spsc_ex1_def)
  moreover have "spsc_push_step (spsc_ex1\<lparr>prod := PHead 8 1\<rparr>) (spsc_ex1\<lparr>prod := PRoom 8 1 2\<rparr>)"
    using spsc_push_step.room [of "spsc_ex1\<lparr>prod := PHead 8 1\<rparr>" 8 1]
    by (simp add: spsc_ex1_def next_index_def numeral_2_eq_2)
  moreover have "spsc_pop_step (spsc_ex1\<lparr>prod := PRoom 8 1 2\<rparr>)
      (spsc_ex1\<lparr>prod := PRoom 8 1 2, cons := CTail 0\<rparr>)"
    using spsc_pop_step.load_tail [of "spsc_ex1\<lparr>prod := PRoom 8 1 2\<rparr>"] by (simp add: spsc_ex1_def)
  moreover have "spsc_pop_step (spsc_ex1\<lparr>prod := PRoom 8 1 2, cons := CTail 0\<rparr>)
      (spsc_ex1\<lparr>prod := PRoom 8 1 2, cons := CSome 0\<rparr>)"
    using spsc_pop_step.some [of "spsc_ex1\<lparr>prod := PRoom 8 1 2, cons := CTail 0\<rparr>" 0]
    by (simp add: spsc_ex1_def)
  ultimately have "spsc_step\<^sup>*\<^sup>* spsc_ex1 (spsc_ex1\<lparr>prod := PRoom 8 1 2, cons := CSome 0\<rparr>)"
    by (blast intro: spsc_step_def [THEN iffD2] converse_rtranclp_into_rtranclp)
  then show ?thesis by (rule rtranclp_trans [OF spsc_ex1_reachable])
qed

text \<open>
  Both threads at once: a \<open>pop\<close> that finds nothing and a \<open>push\<close> that finds the ring full.
  \<open>spsc_at r h t p c ps qs\<close> is a state of the ring of three slots.
\<close>

definition spsc_at ::
  "nat list \<Rightarrow> nat \<Rightarrow> nat \<Rightarrow> nat producer \<Rightarrow> nat consumer \<Rightarrow> nat list \<Rightarrow> nat list \<Rightarrow> nat spsc_sys" where
  "spsc_at r h t p c ps qs = \<lparr>queue = \<lparr>Size = 3, ring = r, head = h, tail = t\<rparr>,
     prod = p, cons = c, pushed = ps, popped = qs\<rparr>"

definition spsc_ex2 :: "nat spsc_sys" where
  "spsc_ex2 = spsc_at [7, 8, 0] 2 1 PIdle CIdle [7, 8] [7]"

fun spsc_runs :: "nat spsc_sys \<Rightarrow> nat spsc_sys list \<Rightarrow> bool" where
  "spsc_runs s [] = True"
| "spsc_runs s (t # ts) = (spsc_step s t \<and> spsc_runs t ts)"

fun spsc_trace_of :: "nat spsc_sys \<Rightarrow> nat spsc_sys list \<Rightarrow> nat action list" where
  "spsc_trace_of s [] = []"
| "spsc_trace_of s (t # ts) = spsc_label s t @ spsc_trace_of t ts"

lemma spsc_runs_run: "spsc_runs s ts \<Longrightarrow> run spsc_lstep s (spsc_trace_of s ts) (last (s # ts))"
proof (induction ts arbitrary: s)
  case (Cons t ts)
  then have "run spsc_lstep s (spsc_label s t) t" by (simp add: run_single spsc_lstep_def)
  from run_append [OF this Cons.IH] Cons.prems show ?case by simp
qed (simp add: run_nil)

definition spsc_schedule :: "nat spsc_sys list" where
  "spsc_schedule =
    [spsc_at [0, 0, 0] 0 0 (PHead 7 0) CIdle [] [],
     spsc_at [0, 0, 0] 0 0 (PRoom 7 0 1) CIdle [] [],
     spsc_at [7, 0, 0] 0 0 (PWritten 7 1) CIdle [] [],
     spsc_at [7, 0, 0] 0 0 (PWritten 7 1) (CTail 0) [] [],
     spsc_at [7, 0, 0] 0 0 (PWritten 7 1) CIdle [] [],
     spsc_at [7, 0, 0] 1 0 PIdle CIdle [7] [],
     spsc_at [7, 0, 0] 1 0 PIdle (CTail 0) [7] [],
     spsc_at [7, 0, 0] 1 0 PIdle (CSome 0) [7] [],
     spsc_at [7, 0, 0] 1 0 (PHead 8 1) (CSome 0) [7] [],
     spsc_at [7, 0, 0] 1 0 (PRoom 8 1 2) (CSome 0) [7] [],
     spsc_at [7, 0, 0] 1 0 (PRoom 8 1 2) (CRead 0 7) [7] [],
     spsc_at [7, 8, 0] 1 0 (PWritten 8 2) (CRead 0 7) [7] [],
     spsc_at [7, 8, 0] 2 0 PIdle (CRead 0 7) [7, 8] [],
     spsc_at [7, 8, 0] 2 0 (PHead 9 2) (CRead 0 7) [7, 8] [],
     spsc_at [7, 8, 0] 2 0 PIdle (CRead 0 7) [7, 8] [],
     spsc_ex2]"

inductive_simps spsc_push_step_iff: "spsc_push_step s t"

inductive_simps spsc_pop_step_iff: "spsc_pop_step s t"

lemma spsc_ex2_run:
  "run spsc_lstep spsc_ex0
     [Call 0 (Push 7), Call 1 Pop, Return 1 Empty, Return 0 Pushed, Call 1 Pop, Call 0 (Push 8),
      Return 0 Pushed, Call 0 (Push 9), Return 0 Full, Return 1 (Popped 7)] spsc_ex2"
proof -
  have "spsc_runs spsc_ex0 spsc_schedule"
    by (simp add: spsc_schedule_def spsc_ex0_def spsc_ex2_def spsc_at_def spsc_step_def
        spsc_push_step_iff spsc_pop_step_iff next_index_def)
  from spsc_runs_run [OF this] show ?thesis
    by (simp add: spsc_schedule_def spsc_ex0_def spsc_ex2_def spsc_at_def spsc_label_def)
qed

text \<open>
  Property C6: in every interleaving of the producer and the consumer, the values the consumer
  has taken, followed by those still in the ring, are exactly the values the producer has
  published, in that order: nothing is lost, duplicated or reordered.
\<close>

theorem spsc_fifo_order:
  assumes "spsc_start s" "spsc_step\<^sup>*\<^sup>* s t"
  shows "popped t @ spsc_elems (queue t) = pushed t"
  using spsc.reachable_inv [OF assms] by (simp add: spsc_inv_def spsc_agree_def spsc_elems_def)

theorem spsc_fifo_order_witness:
  "popped spsc_ex1 @ spsc_elems (queue spsc_ex1) = [7]"
  using spsc_fifo_order [OF spsc_ex0_start spsc_ex1_reachable] by (simp add: spsc_ex1_def)

text \<open>
  The two threads never access the same ring slot at the same time, so the
  unsynchronised accesses to \<open>_ring\<close> are free of data races.
\<close>

theorem spsc_race_free:
  assumes "spsc_start s" "spsc_step\<^sup>*\<^sup>* s t"
    and "prod t = PRoom x h nh" "cons t = CSome tl0"
  shows "h \<noteq> tl0"
  using spsc.reachable_inv [OF assms(1,2)] assms(3,4)
  by (auto simp: spsc_inv_def dest: agree_no_race)

theorem spsc_race_free_witness:
  "spsc_step\<^sup>*\<^sup>* spsc_ex0 (spsc_ex1\<lparr>prod := PRoom 8 1 2, cons := CSome 0\<rparr>) \<and> (1::nat) \<noteq> 0"
  using spsc_race_free [OF spsc_ex0_start spsc_ex1_both, of 8 1 2 0] spsc_ex1_both by simp

text \<open>
  Property C7: \<open>OneReaderOneWriterQueue\<close> is linearizable: the calls and returns of every
  interleaving of its two threads are those of a list of at most \<open>Size - 1\<close> elements on which
  each operation takes effect at one moment between its call and its return. \<open>push\<close> answers
  true exactly when it appends its value and false only when the list is full at that moment;
  \<open>pop\<close> answers the first element, and false only when the list is empty at that moment.
\<close>

theorem spsc_refines_fifo:
  assumes "spsc_start s" "run spsc_lstep s tr t"
  shows "run aq_step (empty_queue (Size (queue s) - 1)) tr (spsc_abs t)"
  using spsc_trace.run_abs [OF assms(2) spsc.start_inv [OF assms(1)]]
  by (simp add: spsc_start_abs assms(1))

text \<open>
  The consumer finds the ring empty while the producer fills a slot; then it takes the value
  while the producer fills the second slot; the third value does not fit.
\<close>

theorem spsc_refines_fifo_witness:
  "run aq_step (empty_queue 2)
     [Call 0 (Push 7), Call 1 Pop, Return 1 Empty, Return 0 Pushed, Call 1 Pop, Call 0 (Push 8),
      Return 0 Pushed, Call 0 (Push 9), Return 0 Full, Return 1 (Popped 7)]
     (spsc_abs spsc_ex2)"
  using spsc_refines_fifo [OF spsc_ex0_start spsc_ex2_run] by (simp add: spsc_ex0_def)

text \<open>
  Run one after the other, whole \<open>push\<close> and \<open>pop\<close> calls return what was pushed, in
  order, for every sequence of values that fits into \<open>Size - 1\<close> slots.
\<close>

theorem spsc_roundtrip:
  assumes "spsc_wf q" "head q = tail q" "length xs \<le> Size q - 1"
  shows "fst (pop_n spsc_pop (length xs) (push_all spsc_push xs q)) = xs"
  using assms by (intro spsc_fifo.fifo_roundtrip) (auto simp: spsc_elems_def spsc_capacity_def)

theorem spsc_roundtrip_witness:
  "fst (pop_n spsc_pop 2 (push_all spsc_push [5, 6] (queue spsc_ex0))) = [5, 6]"
  using spsc_roundtrip [of "queue spsc_ex0" "[5, 6]"]
  by (simp add: spsc_ex0_def spsc_wf_def numeral_2_eq_2 del: pop_n.simps push_all.simps)

end
