(* ===== verification/Pc_Queue.thy ===== *)
theory Pc_Queue
  imports Spsc_Queue
begin

text \<open>
  \<open>ProducerConsumerQueue\<close> (multiThread/OneReaderOneWriterQueue3.cpp): the same ring with a
  compare-and-reset successor, a stop flag that both operations test first, access in place
  (\<open>frontPtr\<close>, \<open>popFront\<close>), a size estimate on machine integers, and a destructor that walks
  the occupied slots. A failed \<open>assert\<close> is \<open>None\<close>.
\<close>

record 'a pcq =
  slots :: nat
  records :: "'a list"
  readIndex :: nat
  writeIndex :: nat
  stopped :: bool

definition next_record :: "nat \<Rightarrow> nat \<Rightarrow> nat" where
  "next_record sz current = (let nextRecord = current + 1 in if nextRecord = sz then 0 else nextRecord)"

definition pcq_new :: "'a \<Rightarrow> nat \<Rightarrow> 'a pcq option" where
  "pcq_new dflt sz =
     (if 2 \<le> sz then Some \<lparr>slots = sz, records = replicate sz dflt, readIndex = 0,
        writeIndex = 0, stopped = False\<rparr>
      else None)"

definition pcq_write :: "'a \<Rightarrow> 'a pcq \<Rightarrow> bool \<times> 'a pcq" where
  "pcq_write x q =
     (if stopped q then (False, q)
      else let currentWrite = writeIndex q; nextRecord = next_record (slots q) currentWrite in
        if nextRecord \<noteq> readIndex q
        then (True, q\<lparr>records := (records q)[currentWrite := x], writeIndex := nextRecord\<rparr>)
        else (False, q))"

definition pcq_read :: "'a pcq \<Rightarrow> 'a option \<times> 'a pcq" where
  "pcq_read q =
     (if stopped q then (None, q)
      else let currentRead = readIndex q in
        if currentRead = writeIndex q then (None, q)
        else (Some (records q ! currentRead), q\<lparr>readIndex := next_record (slots q) currentRead\<rparr>))"

definition pcq_frontPtr :: "'a pcq \<Rightarrow> nat option" where
  "pcq_frontPtr q =
     (let currentRead = readIndex q in
      if currentRead = writeIndex q then None else Some currentRead)"

definition pcq_stop :: "'a pcq \<Rightarrow> 'a pcq" where
  "pcq_stop q = q\<lparr>stopped := True\<rparr>"

definition pcq_popFront :: "'a pcq \<Rightarrow> 'a pcq option" where
  "pcq_popFront q =
     (let currentRead = readIndex q in
      if currentRead \<noteq> writeIndex q
      then Some (q\<lparr>readIndex := next_record (slots q) currentRead\<rparr>)
      else None)"

definition pcq_isEmpty :: "'a pcq \<Rightarrow> bool" where
  "pcq_isEmpty q \<longleftrightarrow> readIndex q = writeIndex q"

definition pcq_isFull :: "'a pcq \<Rightarrow> bool" where
  "pcq_isFull q \<longleftrightarrow> \<not> (next_record (slots q) (writeIndex q) \<noteq> readIndex q)"

text \<open>
  \<open>sizeGuess\<close>: the difference of two 32-bit unsigned indices is stored in an \<open>int\<close>; the
  addition of \<open>slots\<close> is unsigned; the result is sign-extended to \<open>size_t\<close>.
\<close>

definition pcq_sizeGuess :: "'a pcq \<Rightarrow> u64" where
  "pcq_sizeGuess q =
     (let ret = (word_of_nat (writeIndex q) - word_of_nat (readIndex q) :: u32);
          ret' = (if sint ret < 0 then ret + word_of_nat (slots q) else ret)
      in scast ret')"

definition pcq_capacity :: "'a pcq \<Rightarrow> nat" where
  "pcq_capacity q = slots q - 1"

text \<open>
  The destructor's loop, for a type with a destructor: the slots it destroys, in order.
  It does not return when the read index never meets the write index.
\<close>

partial_function (option) destroy_slots :: "nat \<Rightarrow> nat \<Rightarrow> nat \<Rightarrow> nat list \<Rightarrow> nat list option" where
  "destroy_slots sz rd endIndex destroyed =
     (if rd \<noteq> endIndex
      then destroy_slots sz (next_record sz rd) endIndex (destroyed @ [rd])
      else Some destroyed)"

definition pcq_destroy :: "'a pcq \<Rightarrow> nat list option" where
  "pcq_destroy q = destroy_slots (slots q) (readIndex q) (writeIndex q) []"

subsection \<open>Whole operations\<close>

definition pcq_wf :: "'a pcq \<Rightarrow> bool" where
  "pcq_wf q \<longleftrightarrow> length (records q) = slots q \<and> readIndex q < slots q \<and> writeIndex q < slots q"

definition pcq_elems :: "'a pcq \<Rightarrow> 'a list" where
  "pcq_elems q = contents (slots q) (records q) (writeIndex q) (readIndex q)"

definition pcq_live :: "'a pcq \<Rightarrow> bool" where
  "pcq_live q \<longleftrightarrow> pcq_wf q \<and> \<not> stopped q"

lemma next_record_mod: "i < n \<Longrightarrow> next_record n i = Suc i mod n"
  by (simp add: next_record_def Suc_mod_ring)

lemma next_record_less: "i < n \<Longrightarrow> next_record n i < n"
  by (simp add: next_record_mod)

lemma pcq_new_wf: "pcq_new d n = Some q \<Longrightarrow> pcq_live q \<and> pcq_elems q = []"
  by (auto simp: pcq_new_def pcq_live_def pcq_wf_def pcq_elems_def split: if_splits)

lemma pcq_isFull_iff:
  assumes "pcq_wf q"
  shows "pcq_isFull q \<longleftrightarrow> length (pcq_elems q) = pcq_capacity q"
  using assms occ_full [of "writeIndex q" "slots q" "readIndex q"]
    occ_less [of "writeIndex q" "slots q" "readIndex q"]
  by (auto simp: pcq_wf_def pcq_elems_def pcq_capacity_def pcq_isFull_def next_record_mod)

lemma pcq_isEmpty_iff: "pcq_wf q \<Longrightarrow> pcq_isEmpty q \<longleftrightarrow> pcq_elems q = []"
  using contents_not_Nil [of "writeIndex q" "slots q" "readIndex q" "records q"]
  by (auto simp: pcq_wf_def pcq_elems_def pcq_isEmpty_def)

lemma pcq_elems_capacity: "pcq_wf q \<Longrightarrow> length (pcq_elems q) \<le> pcq_capacity q"
  using occ_less [of "writeIndex q" "slots q" "readIndex q"]
  by (auto simp: pcq_wf_def pcq_elems_def pcq_capacity_def)

lemma pcq_has_room:
  assumes "pcq_wf q"
  shows "next_record (slots q) (writeIndex q) \<noteq> readIndex q
    \<longleftrightarrow> length (pcq_elems q) < pcq_capacity q"
  using pcq_isFull_iff [OF assms] pcq_elems_capacity [OF assms] by (auto simp: pcq_isFull_def)

lemma pcq_write_live: "pcq_live q \<Longrightarrow> pcq_write x q = (b, q') \<Longrightarrow>
    pcq_live q' \<and> pcq_capacity q' = pcq_capacity q"
  by (auto simp: pcq_write_def pcq_live_def pcq_wf_def pcq_capacity_def Let_def next_record_less
      split: if_splits)

lemma pcq_read_live: "pcq_live q \<Longrightarrow> pcq_read q = (r, q') \<Longrightarrow>
    pcq_live q' \<and> pcq_capacity q' = pcq_capacity q"
  by (auto simp: pcq_read_def pcq_live_def pcq_wf_def pcq_capacity_def Let_def next_record_less
      split: if_splits)

lemma pcq_write_elems:
  assumes "pcq_live q" "pcq_write x q = (b, q')"
  shows "b = (length (pcq_elems q) < pcq_capacity q) \<and>
    pcq_elems q' = (if b then pcq_elems q @ [x] else pcq_elems q)"
  using assms pcq_has_room [of q]
  by (auto simp: pcq_write_def pcq_live_def pcq_wf_def pcq_elems_def next_record_mod Let_def
      contents_push contents_write split: if_splits)

lemma pcq_read_elems:
  assumes "pcq_live q" "pcq_read q = (r, q')"
  shows "case pcq_elems q of [] \<Rightarrow> r = None \<and> pcq_elems q' = []
    | x # xs \<Rightarrow> r = Some x \<and> pcq_elems q' = xs"
  using assms
  by (auto simp: pcq_read_def pcq_live_def pcq_wf_def pcq_elems_def next_record_mod Let_def
      contents_pop split: if_splits)

interpretation pcq_fifo: bounded_fifo pcq_elems pcq_live pcq_capacity pcq_write pcq_read
  by (rule bounded_fifo.intro)
    (fact pcq_write_live pcq_write_elems pcq_read_live pcq_read_elems
       pcq_elems_capacity [OF conjunct1 [OF pcq_live_def [THEN iffD1]]])+

lemma destroy_slots_contents:
  assumes "t < n" "h < n"
  shows "destroy_slots n t h acc = Some (acc @ map (\<lambda>i. (t + i) mod n) [0..<occ n h t])"
  using assms
proof (induction "occ n h t" arbitrary: t acc)
  case 0
  then have "h = t" using occ_eq_0 [of h n t] by simp
  then show ?case by (simp add: destroy_slots.simps)
next
  case (Suc k)
  then have ne: "t \<noteq> h" by auto
  let ?t' = "Suc t mod n"
  have k: "occ n h t = Suc (occ n h ?t')" "?t' < n"
    using occ_pop [of h n t] Suc.prems ne by auto
  have "(Suc t mod n + i) mod n = (t + Suc i) mod n" for i
    by (simp add: mod_add_left_eq)
  then have "map (\<lambda>i. (t + i) mod n) [0..<occ n h t] =
      t # map (\<lambda>i. (?t' + i) mod n) [0..<occ n h ?t']"
    using Suc.prems k by (simp add: map_upt_Suc_shift del: upt_Suc)
  moreover have "destroy_slots n ?t' h (acc @ [t]) =
      Some ((acc @ [t]) @ map (\<lambda>i. (?t' + i) mod n) [0..<occ n h ?t'])"
    using Suc.hyps k Suc.prems by simp
  ultimately show ?case
    using ne Suc.prems(1) by (subst destroy_slots.simps) (simp add: next_record_mod)
qed


subsection \<open>The interleavings\<close>

text \<open>
  The producer runs \<open>write\<close>, the consumer \<open>read\<close>, and any thread may call \<open>stop\<close>. The stop
  flag is read once, before the indices, so that an operation that has passed the test runs
  to its end.
\<close>

record 'a pcq_sys =
  pcq :: "'a pcq"
  writer :: "'a producer"
  reader :: "'a consumer"
  written :: "'a list"
  taken :: "'a list"

inductive pcq_write_step :: "'a pcq_sys \<Rightarrow> 'a pcq_sys \<Rightarrow> bool" where
  w_stopped: "writer s = PIdle \<Longrightarrow> stopped (pcq s) \<Longrightarrow> pcq_write_step s s"
| w_go: "writer s = PIdle \<Longrightarrow> \<not> stopped (pcq s) \<Longrightarrow> pcq_write_step s (s\<lparr>writer := PGo x\<rparr>)"
| w_load: "writer s = PGo x \<Longrightarrow> pcq_write_step s (s\<lparr>writer := PHead x (writeIndex (pcq s))\<rparr>)"
| w_full: "writer s = PHead x h \<Longrightarrow> next_record (slots (pcq s)) h = readIndex (pcq s) \<Longrightarrow>
    pcq_write_step s (s\<lparr>writer := PIdle\<rparr>)"
| w_room: "writer s = PHead x h \<Longrightarrow> next_record (slots (pcq s)) h \<noteq> readIndex (pcq s) \<Longrightarrow>
    pcq_write_step s (s\<lparr>writer := PRoom x h (next_record (slots (pcq s)) h)\<rparr>)"
| w_slot: "writer s = PRoom x h nh \<Longrightarrow>
    pcq_write_step s (s\<lparr>pcq := (pcq s)\<lparr>records := (records (pcq s))[h := x]\<rparr>, writer := PWritten x nh\<rparr>)"
| w_store: "writer s = PWritten x nh \<Longrightarrow>
    pcq_write_step s (s\<lparr>pcq := (pcq s)\<lparr>writeIndex := nh\<rparr>, writer := PIdle, written := written s @ [x]\<rparr>)"

inductive pcq_read_step :: "'a pcq_sys \<Rightarrow> 'a pcq_sys \<Rightarrow> bool" where
  r_stopped: "reader s = CIdle \<Longrightarrow> stopped (pcq s) \<Longrightarrow> pcq_read_step s s"
| r_go: "reader s = CIdle \<Longrightarrow> \<not> stopped (pcq s) \<Longrightarrow> pcq_read_step s (s\<lparr>reader := CGo\<rparr>)"
| r_load: "reader s = CGo \<Longrightarrow> pcq_read_step s (s\<lparr>reader := CTail (readIndex (pcq s))\<rparr>)"
| r_empty: "reader s = CTail t \<Longrightarrow> t = writeIndex (pcq s) \<Longrightarrow> pcq_read_step s (s\<lparr>reader := CIdle\<rparr>)"
| r_some: "reader s = CTail t \<Longrightarrow> t \<noteq> writeIndex (pcq s) \<Longrightarrow> pcq_read_step s (s\<lparr>reader := CSome t\<rparr>)"
| r_slot: "reader s = CSome t \<Longrightarrow> pcq_read_step s (s\<lparr>reader := CRead t (records (pcq s) ! t)\<rparr>)"
| r_store: "reader s = CRead t x \<Longrightarrow>
    pcq_read_step s (s\<lparr>pcq := (pcq s)\<lparr>readIndex := next_record (slots (pcq s)) t\<rparr>, reader := CIdle,
      taken := taken s @ [x]\<rparr>)"

inductive pcq_step :: "'a pcq_sys \<Rightarrow> 'a pcq_sys \<Rightarrow> bool" where
  writer: "pcq_write_step s t \<Longrightarrow> pcq_step s t"
| reader: "pcq_read_step s t \<Longrightarrow> pcq_step s t"
| stop: "pcq_step s (s\<lparr>pcq := pcq_stop (pcq s)\<rparr>)"

definition pcq_start :: "'a pcq_sys \<Rightarrow> bool" where
  "pcq_start s \<longleftrightarrow> (\<exists>d sz. pcq_new d sz = Some (pcq s)) \<and> writer s = PIdle \<and> reader s = CIdle \<and>
     written s = [] \<and> taken s = []"

definition pcq_inv :: "'a pcq_sys \<Rightarrow> bool" where
  "pcq_inv s \<longleftrightarrow> spsc_agree (slots (pcq s)) (records (pcq s)) (writeIndex (pcq s))
     (readIndex (pcq s)) (writer s) (reader s) (written s) (taken s)"

lemma pcq_write_step_inv: "pcq_write_step s t \<Longrightarrow> pcq_inv s \<Longrightarrow> pcq_inv t"
proof (induction rule: pcq_write_step.induct)
  case (w_slot s x h nh)
  then show ?case by (simp add: pcq_inv_def agree_write)
next
  case (w_store s x nh)
  then show ?case by (simp add: pcq_inv_def agree_publish)
qed (auto simp: pcq_inv_def spsc_agree_def next_record_mod)

lemma pcq_read_step_inv: "pcq_read_step s t \<Longrightarrow> pcq_inv s \<Longrightarrow> pcq_inv t"
proof (induction rule: pcq_read_step.induct)
  case (r_store s t x)
  then have "t < slots (pcq s)" by (simp add: pcq_inv_def spsc_agree_def)
  then show ?case
    using r_store agree_release by (fastforce simp: pcq_inv_def next_record_mod)
qed (auto simp: pcq_inv_def spsc_agree_def)

lemma pcq_step_inv: "pcq_step s t \<Longrightarrow> pcq_inv s \<Longrightarrow> pcq_inv t"
  by (induction rule: pcq_step.induct)
    (blast intro: pcq_write_step_inv, blast intro: pcq_read_step_inv,
      simp add: pcq_inv_def pcq_stop_def)

lemma pcq_start_inv: "pcq_start s \<Longrightarrow> pcq_inv s"
  using pcq_new_wf [of _ _ "pcq s"]
  by (fastforce simp: pcq_start_def pcq_inv_def spsc_agree_def pcq_live_def pcq_wf_def pcq_elems_def)

interpretation pcqs: inductive_invariant pcq_start pcq_step pcq_inv
  by unfold_locales (fact pcq_start_inv, rule pcq_step_inv)

text \<open>Once the flag is set and both threads are between two calls, nothing moves any more.\<close>

definition pcq_halted :: "'a pcq \<Rightarrow> 'a list \<Rightarrow> 'a list \<Rightarrow> 'a pcq_sys \<Rightarrow> bool" where
  "pcq_halted q ws ts s \<longleftrightarrow> pcq s = q \<and> stopped q \<and> writer s = PIdle \<and> reader s = CIdle \<and>
     written s = ws \<and> taken s = ts"

lemma pcq_halted_step: "pcq_step s t \<Longrightarrow> pcq_halted q ws ts s \<Longrightarrow> pcq_halted q ws ts t"
  by (induction rule: pcq_step.induct)
    (auto simp: pcq_halted_def pcq_stop_def elim!: pcq_write_step.cases pcq_read_step.cases)

interpretation pcq_halt: inductive_invariant "pcq_halted q ws ts" pcq_step "pcq_halted q ws ts"
  for q :: "'a pcq" and ws ts
  by unfold_locales (assumption, rule pcq_halted_step)

text \<open>A whole \<open>write\<close> is one of the runs of the writer.\<close>

lemma pcq_write_run:
  assumes "writer s = PIdle" "pcq_write x (pcq s) = (True, q')"
  shows "pcq_step\<^sup>*\<^sup>* s (s\<lparr>pcq := q', written := written s @ [x]\<rparr>)"
proof -
  define h where "h = writeIndex (pcq s)"
  define nh where "nh = next_record (slots (pcq s)) h"
  let ?s0 = "s\<lparr>writer := PGo x\<rparr>"
  let ?s1 = "s\<lparr>writer := PHead x h\<rparr>" and ?s2 = "s\<lparr>writer := PRoom x h nh\<rparr>"
  let ?q3 = "(pcq s)\<lparr>records := (records (pcq s))[h := x]\<rparr>"
  let ?s3 = "s\<lparr>pcq := ?q3, writer := PWritten x nh\<rparr>"
  have room: "nh \<noteq> readIndex (pcq s)" "\<not> stopped (pcq s)" and q': "q' = ?q3\<lparr>writeIndex := nh\<rparr>"
    using assms(2) by (auto simp: pcq_write_def Let_def nh_def h_def split: if_splits)
  have "pcq_write_step s ?s0"
    using pcq_write_step.w_go [OF assms(1) room(2)] by simp
  moreover have "pcq_write_step ?s0 ?s1"
    using pcq_write_step.w_load [of ?s0 x] by (simp add: h_def)
  moreover have "pcq_write_step ?s1 ?s2"
    using pcq_write_step.w_room [of ?s1 x h] room by (simp add: nh_def)
  moreover have "pcq_write_step ?s2 ?s3"
    using pcq_write_step.w_slot [of ?s2 x h nh] by simp
  moreover have "pcq_write_step ?s3 (s\<lparr>pcq := q', written := written s @ [x]\<rparr>)"
    using pcq_write_step.w_store [of ?s3 x nh] assms(1) q' by (cases s) simp
  ultimately show ?thesis
    by (blast intro: pcq_step.writer converse_rtranclp_into_rtranclp)
qed

definition pcq_ex0 :: "nat pcq_sys" where
  "pcq_ex0 = \<lparr>pcq = \<lparr>slots = 3, records = [0, 0, 0], readIndex = 0, writeIndex = 0, stopped = False\<rparr>,
     writer = PIdle, reader = CIdle, written = [], taken = []\<rparr>"

definition pcq_ex1 :: "nat pcq_sys" where
  "pcq_ex1 = \<lparr>pcq = \<lparr>slots = 3, records = [4, 0, 0], readIndex = 0, writeIndex = 1, stopped = False\<rparr>,
     writer = PIdle, reader = CIdle, written = [4], taken = []\<rparr>"

lemma pcq_ex0_start: "pcq_start pcq_ex0"
  unfolding pcq_start_def by (rule conjI, rule exI [of _ 0], rule exI [of _ 3])
    (simp_all add: pcq_ex0_def pcq_new_def numeral_3_eq_3)

lemma pcq_ex1_reachable: "pcq_step\<^sup>*\<^sup>* pcq_ex0 pcq_ex1"
  using pcq_write_run [of pcq_ex0 4 "pcq pcq_ex1"]
  by (simp add: pcq_ex0_def pcq_ex1_def pcq_write_def next_record_def)

subsection \<open>The size estimate\<close>

lemma pcq_sizeGuess_occ:
  assumes "h < n" "t < n" "n \<le> 2 ^ 31"
  shows "unat (pcq_sizeGuess \<lparr>slots = n, records = r, readIndex = t, writeIndex = h, stopped = b\<rparr>)
    = occ n h t"
proof -
  have diff: "(word_of_nat h - word_of_nat t :: u32) = word_of_int (int h - int t)"
    by simp
  have sdiff: "sint (word_of_int (int h - int t) :: u32) = int h - int t"
    using assms by (intro sint_small_u32) auto
  have add: "(word_of_int (int h - int t) + word_of_nat n :: u32) = word_of_int (int h - int t + int n)"
    by simp
  have sadd: "sint (word_of_int (int h - int t + int n) :: u32) = int h - int t + int n" if "h < t"
    using assms that by (intro sint_small_u32) auto
  show ?thesis
    using assms sdiff sadd
    by (cases "h < t") (simp_all add: pcq_sizeGuess_def diff add occ_def unat_scast_u64 Let_def
        del: of_int_add of_int_diff)
qed

text \<open>
  Property C8: in every interleaving of one writer, one reader and calls of \<open>stop\<close>, what the
  reader has taken followed by what the queue holds is what the writer has published.
\<close>

theorem pcq_fifo_order:
  assumes "pcq_start s" "pcq_step\<^sup>*\<^sup>* s t"
  shows "taken t @ pcq_elems (pcq t) = written t"
  using pcqs.reachable_inv [OF assms] by (simp add: pcq_inv_def spsc_agree_def pcq_elems_def)

theorem pcq_fifo_order_witness: "taken pcq_ex1 @ pcq_elems (pcq pcq_ex1) = [4]"
  using pcq_fifo_order [OF pcq_ex0_start pcq_ex1_reachable] by (simp add: pcq_ex1_def)

text \<open>
  After \<open>stop\<close>, once the operations in flight have returned, no interleaving
  changes the queue, publishes a value or takes one.
\<close>

theorem pcq_stop_quiesces:
  assumes "stopped (pcq s)" "writer s = PIdle" "reader s = CIdle" "pcq_step\<^sup>*\<^sup>* s t"
  shows "pcq t = pcq s \<and> written t = written s \<and> taken t = taken s"
  using pcq_halt.steps_inv [OF assms(4), of "pcq s" "written s" "taken s"] assms(1-3)
  by (simp add: pcq_halted_def)

theorem pcq_stop_quiesces_witness:
  "pcq (pcq_ex1\<lparr>pcq := pcq_stop (pcq_stop (pcq pcq_ex1))\<rparr>) = pcq_stop (pcq pcq_ex1)"
proof -
  let ?s = "pcq_ex1\<lparr>pcq := pcq_stop (pcq pcq_ex1)\<rparr>"
  have "pcq_step\<^sup>*\<^sup>* ?s (?s\<lparr>pcq := pcq_stop (pcq ?s)\<rparr>)"
    by (rule r_into_rtranclp) (rule pcq_step.stop)
  then show ?thesis
    using pcq_stop_quiesces [of ?s "?s\<lparr>pcq := pcq_stop (pcq ?s)\<rparr>"]
    by (simp add: pcq_ex1_def pcq_stop_def)
qed

text \<open>
  \<open>sizeGuess\<close>, computed on wrapping 32-bit integers, is the number of elements
  for every queue of at most \<open>2 ^ 31\<close> slots.
\<close>

theorem pcq_sizeGuess_exact:
  assumes "pcq_wf q" "slots q \<le> 2 ^ 31"
  shows "unat (pcq_sizeGuess q) = length (pcq_elems q)"
  using assms pcq_sizeGuess_occ [of "writeIndex q" "slots q" "readIndex q" "records q" "stopped q"]
  by (cases q) (simp add: pcq_wf_def pcq_elems_def)

theorem pcq_sizeGuess_exact_witness:
  "unat (pcq_sizeGuess (\<lparr>slots = 3, records = [7, 8, 9], readIndex = 2, writeIndex = 1,
     stopped = False\<rparr> :: nat pcq)) = 2"
  using pcq_sizeGuess_exact [of "\<lparr>slots = 3, records = [7, 8, 9], readIndex = 2, writeIndex = 1,
     stopped = False\<rparr> :: nat pcq"]
  by (simp add: pcq_wf_def pcq_elems_def occ_def)

text \<open>
  The destructor returns, and destroys exactly the slots of the elements still in
  the queue, from the oldest to the newest, each once.
\<close>

theorem pcq_destroy_exact:
  assumes "pcq_wf q"
  shows "\<exists>is. pcq_destroy q = Some is \<and> map (\<lambda>i. records q ! i) is = pcq_elems q \<and> distinct is"
proof -
  let ?n = "slots q" and ?t = "readIndex q" and ?k = "occ (slots q) (writeIndex q) (readIndex q)"
  have k: "?k < ?n" using assms occ_less by (simp add: pcq_wf_def)
  have "inj_on (\<lambda>i. (?t + i) mod ?n) {..<?k}"
  proof (rule inj_onI)
    fix i j assume "i \<in> {..<?k}" "j \<in> {..<?k}" "(?t + i) mod ?n = (?t + j) mod ?n"
    then show "i = j" using k assms slot_inj [of ?t ?n i j] by (simp add: pcq_wf_def)
  qed
  then have "distinct (map (\<lambda>i. (?t + i) mod ?n) [0..<?k])"
    by (simp add: distinct_map atLeast0LessThan)
  then show ?thesis
    using assms destroy_slots_contents [of ?t ?n "writeIndex q" "[]"]
    by (auto simp: pcq_destroy_def pcq_wf_def pcq_elems_def contents_def)
qed

definition pcq_ex2 :: "nat pcq" where
  "pcq_ex2 = \<lparr>slots = 3, records = [7, 8, 9], readIndex = 2, writeIndex = 1, stopped = False\<rparr>"

lemma pcq_ex2_elems: "pcq_wf pcq_ex2 \<and> pcq_elems pcq_ex2 = [9, 7]"
  by code_simp

theorem pcq_destroy_exact_witness:
  "\<exists>is. pcq_destroy pcq_ex2 = Some is \<and> map (\<lambda>i. records pcq_ex2 ! i) is = [9, 7] \<and> distinct is"
  using pcq_destroy_exact [of pcq_ex2] pcq_ex2_elems by simp

end
