(* ===== verification/Mpmc_Queue.thy ===== *)
theory Mpmc_Queue
  imports Ring_Buffer
begin

text \<open>
  The lock-free queue for many producers and many consumers
  (multiThread/erez-strauss/lockfree_mpmc_queue/lockfree_mpmc_queue/mpmc_queue.h). Each slot
  holds a value and a sequence number; ticket \<open>i\<close> of the queue finds its slot with sequence
  number \<open>2 * i\<close> when it is free for ticket \<open>i\<close> and \<open>2 * i + 1\<close> when it holds the value of
  ticket \<open>i\<close>. The operations are written as the accesses to shared memory one thread makes,
  each an atomic step; the threads interleave freely. Indices are \<open>'w word\<close>, for the width of
  \<open>IndexT\<close>, and wrap around.
\<close>

unbundle bit_operations_syntax

subsection \<open>Entries and the array\<close>

record ('d, 'i) entry =
  data :: 'd
  seq :: 'i

text \<open>\<open>clear\<close> zeroes the whole entry before the fields are set.\<close>

definition entry_seq :: "'w::len word \<Rightarrow> ('d::zero, 'w word) entry" where
  "entry_seq s = \<lparr>data = 0, seq = s\<rparr>"

definition entry_set :: "'w::len word \<Rightarrow> 'd::zero \<Rightarrow> ('d, 'w word) entry" where
  "entry_set s d = \<lparr>data = d, seq = s\<rparr>"

definition is_empty_entry :: "('d, 'w::len word) entry \<Rightarrow> bool" where
  "is_empty_entry e \<longleftrightarrow> seq e AND 1 = 0"

definition is_full_entry :: "('d, 'w::len word) entry \<Rightarrow> bool" where
  "is_full_entry e \<longleftrightarrow> \<not> is_empty_entry e"

text \<open>\<open>array_inplace\<close>: an access at \<open>index\<close> goes to slot \<open>index & (N - 1)\<close>.\<close>

definition slot_of :: "nat \<Rightarrow> 'w::len word \<Rightarrow> nat" where
  "slot_of n index = unat index AND (n - 1)"

definition array_get :: "'e list \<Rightarrow> 'w::len word \<Rightarrow> 'e" where
  "array_get a index = a ! slot_of (length a) index"

definition array_set :: "'e list \<Rightarrow> 'w::len word \<Rightarrow> 'e \<Rightarrow> 'e list" where
  "array_set a index e = a[slot_of (length a) index := e]"

text \<open>
  \<open>bits_for_value\<close>: the loop that shifts \<open>n\<close> right until it is zero. The parameter is an
  \<open>unsigned\<close>, so that callers pass their 64-bit sizes modulo \<open>2 ^ 32\<close>.
\<close>

function bits_for_value :: "nat \<Rightarrow> nat" where
  "bits_for_value n = (if n \<noteq> 0 then Suc (bits_for_value (drop_bit 1 n)) else 0)"
  by pat_completeness auto
termination
  by (relation "measure id") (auto simp: drop_bit_Suc)

declare bits_for_value.simps [simp del]

subsection \<open>The queue\<close>

record ('d, 'i) mpmc =
  lazy_push :: bool
  lazy_pop :: bool
  write_index :: 'i
  read_index :: 'i
  array :: "('d, 'i) entry list"

abbreviation qsize :: "('d, 'w::len word) mpmc \<Rightarrow> nat" where
  "qsize q \<equiv> length (array q)"

text \<open>
  The constructor for a run-time size; \<open>None\<close> is \<open>std::invalid_argument\<close>. The loop that
  initialises the slots counts in \<open>index_type\<close>; it reaches every size below \<open>2 ^ LENGTH('w)\<close>.
\<close>

definition mpmc_new :: "bool \<Rightarrow> bool \<Rightarrow> nat \<Rightarrow> ('d::zero, 'w::len word) mpmc option" where
  "mpmc_new lpush lpop n =
     (if n AND (n - 1) \<noteq> 0 \<or> LENGTH('w) \<le> bits_for_value (n mod 2 ^ 32) then None
      else Some \<lparr>lazy_push = lpush, lazy_pop = lpop, write_index = 0, read_index = 0,
        array = map (\<lambda>i. entry_seq (push_bit 1 (word_of_nat i))) [0..<n]\<rparr>)"

definition empty_seq :: "'w::len word \<Rightarrow> 'w word" where
  "empty_seq i = push_bit 1 i"

definition full_seq :: "'w::len word \<Rightarrow> 'w word" where
  "full_seq i = push_bit 1 i OR 1"

definition cas_write_index :: "'w::len word \<Rightarrow> ('d, 'w word) mpmc \<Rightarrow> ('d, 'w word) mpmc" where
  "cas_write_index wr q = (if write_index q = wr then q\<lparr>write_index := wr + 1\<rparr> else q)"

definition cas_read_index :: "'w::len word \<Rightarrow> ('d, 'w word) mpmc \<Rightarrow> ('d, 'w word) mpmc" where
  "cas_read_index rd q = (if read_index q = rd then q\<lparr>read_index := rd + 1\<rparr> else q)"

subsection \<open>The steps of a thread\<close>

text \<open>
  Where a thread stands. \<open>PushSeq d wr\<close>: \<open>wr_index\<close> is loaded, the slot's sequence number is
  not; \<open>PushCas d wr\<close>: about to exchange the entry; \<open>PushAdv wr\<close>: the entry is in, about to
  advance \<open>_write_index\<close>; \<open>PushHelp d wr\<close>: about to advance \<open>_write_index\<close> for another thread
  and start over. The pop side is the same, with the entry read whole.
\<close>

datatype ('d, 'i) result = PushOk 'i | PushFull | PopOk 'd 'i | PopEmpty | PopRefused | PeekOk 'd 'i

datatype ('d, 'i) pc =
    Idle
  | PushLoad 'd | PushSeq 'd 'i | PushCas 'd 'i | PushAdv 'i | PushHelp 'd 'i
  | PopLoad | PopEntry 'i | PopCas 'i "('d, 'i) entry" | PopAdv 'd 'i | PopHelp 'i
  | PeekLoad | PeekEntry 'i | PeekHelp 'i
  | PopIfLoad | PopIfEntry 'i | PopIfCas 'i "('d, 'i) entry" | PopIfHelp 'i
  | Returned "('d, 'i) result"

text \<open>What a step does to the abstract queue.\<close>

datatype 'd event = Tau | Enq 'd | Deq 'd | FullSeen | EmptySeen

fun push_step :: "('d::zero, 'w::len word) mpmc \<Rightarrow> ('d, 'w word) pc \<Rightarrow> ('d, 'w word) mpmc \<times> ('d, 'w word) pc \<times> 'd event" where
  "push_step q (PushLoad d) = (q, PushSeq d (write_index q), Tau)"
| "push_step q (PushSeq d wr) =
     (let s = seq (array_get (array q) wr); n = word_of_nat (qsize q) in
      if s = empty_seq wr then (q, PushCas d wr, Tau)
      else if s = full_seq wr \<or> s = empty_seq (wr + n) then (q, PushHelp d wr, Tau)
      else if s + push_bit 1 n = full_seq wr then (q, Returned PushFull, FullSeen)
      else (q, PushLoad d, Tau))"
| "push_step q (PushCas d wr) =
     (if array_get (array q) wr = entry_seq (empty_seq wr)
      then (q\<lparr>array := array_set (array q) wr (entry_set (full_seq wr) d)\<rparr>,
            if lazy_push q then Returned (PushOk wr) else PushAdv wr, Enq d)
      else (q, PushLoad d, Tau))"
| "push_step q (PushAdv wr) = (cas_write_index wr q, Returned (PushOk wr), Tau)"
| "push_step q (PushHelp d wr) = (cas_write_index wr q, PushLoad d, Tau)"
| "push_step q p = (q, p, Tau)"

fun pop_step :: "('d::zero, 'w::len word) mpmc \<Rightarrow> ('d, 'w word) pc \<Rightarrow> ('d, 'w word) mpmc \<times> ('d, 'w word) pc \<times> 'd event" where
  "pop_step q PopLoad = (q, PopEntry (read_index q), Tau)"
| "pop_step q (PopEntry rd) =
     (let e = array_get (array q) rd; n = word_of_nat (qsize q) in
      if seq e = full_seq rd then (q, PopCas rd e, Tau)
      else if seq e OR 1 = full_seq (rd + n) then (q, PopHelp rd, Tau)
      else if seq e = empty_seq rd then (q, Returned PopEmpty, EmptySeen)
      else (q, PopLoad, Tau))"
| "pop_step q (PopCas rd e) =
     (if array_get (array q) rd = e
      then (q\<lparr>array := array_set (array q) rd (entry_seq (empty_seq (rd + word_of_nat (qsize q))))\<rparr>,
            if lazy_pop q then Returned (PopOk (data e) rd) else PopAdv (data e) rd, Deq (data e))
      else (q, PopLoad, Tau))"
| "pop_step q (PopAdv d rd) = (cas_read_index rd q, Returned (PopOk d rd), Tau)"
| "pop_step q (PopHelp rd) = (cas_read_index rd q, PopLoad, Tau)"
| "pop_step q p = (q, p, Tau)"

fun peek_step :: "('d::zero, 'w::len word) mpmc \<Rightarrow> ('d, 'w word) pc \<Rightarrow> ('d, 'w word) mpmc \<times> ('d, 'w word) pc \<times> 'd event" where
  "peek_step q PeekLoad = (q, PeekEntry (read_index q), Tau)"
| "peek_step q (PeekEntry rd) =
     (let e = array_get (array q) rd; n = word_of_nat (qsize q) in
      if seq e = empty_seq rd then (q, Returned PopEmpty, EmptySeen)
      else if seq e = full_seq rd then (q, Returned (PeekOk (data e) (seq e)), Tau)
      else if drop_bit 1 (seq e) = rd + n then (q, PeekHelp rd, Tau)
      else (q, PeekLoad, Tau))"
| "peek_step q (PeekHelp rd) = (cas_read_index rd q, PeekLoad, Tau)"
| "peek_step q p = (q, p, Tau)"

fun pop_if_step :: "('d \<Rightarrow> 'w word \<Rightarrow> bool) \<Rightarrow> ('d::zero, 'w::len word) mpmc \<Rightarrow> ('d, 'w word) pc \<Rightarrow>
    ('d, 'w word) mpmc \<times> ('d, 'w word) pc \<times> 'd event" where
  "pop_if_step f q PopIfLoad = (q, PopIfEntry (read_index q), Tau)"
| "pop_if_step f q (PopIfEntry rd) =
     (let e = array_get (array q) rd; n = word_of_nat (qsize q) in
      if seq e = empty_seq rd then (q, Returned PopEmpty, EmptySeen)
      else if seq e = full_seq rd
        then (if \<not> f (data e) (seq e) then (q, Returned PopRefused, Tau) else (q, PopIfCas rd e, Tau))
      else if drop_bit 1 (seq e) = rd + n then (q, PopIfHelp rd, Tau)
      else (q, PopIfLoad, Tau))"
| "pop_if_step f q (PopIfCas rd e) =
     (if array_get (array q) rd = e
      then (q\<lparr>array := array_set (array q) rd (entry_seq (empty_seq (rd + word_of_nat (qsize q))))\<rparr>,
            if lazy_pop q then Returned (PopOk (data e) rd) else PopAdv (data e) rd, Deq (data e))
      else (q, PopIfLoad, Tau))"
| "pop_if_step f q (PopIfHelp rd) = (cas_read_index rd q, PopIfLoad, Tau)"
| "pop_if_step f q p = (q, p, Tau)"

text \<open>\<open>exchange\<close> replaces the value of a ticket in one atomic step.\<close>

definition mpmc_exchange ::
  "'w::len word \<Rightarrow> 'd \<Rightarrow> 'd \<Rightarrow> ('d::zero, 'w word) mpmc \<Rightarrow> bool \<times> ('d, 'w word) mpmc" where
  "mpmc_exchange i old_value new_value q =
     (if array_get (array q) i = entry_set (full_seq i) old_value
      then (True, q\<lparr>array := array_set (array q) i (entry_set (full_seq i) new_value)\<rparr>)
      else (False, q))"

text \<open>\<open>empty\<close> and \<open>size\<close>, run without interference; \<open>size\<close> computes in 64-bit \<open>size_t\<close>.\<close>

definition mpmc_empty :: "('d, 'w::len word) mpmc \<Rightarrow> bool" where
  "mpmc_empty q \<longleftrightarrow> seq (array_get (array q) (read_index q)) = empty_seq (read_index q)"

definition mpmc_size :: "('d, 'w::len word) mpmc \<Rightarrow> u64" where
  "mpmc_size q =
     (if mpmc_empty q then 0
      else if read_index q \<le> write_index q then ucast (write_index q - read_index q)
      else ucast (write_index q) + word_of_nat (qsize q) - ucast (read_index q))"

subsection \<open>Sequence numbers as tickets\<close>

lemma half_le: "2 * 2 ^ (LENGTH('w::len) - 1) = (2::nat) ^ LENGTH('w)"
  by (metis One_nat_def Suc_pred len_gt_0 power_Suc)

lemma unat_empty_seq [word_bounds]:
  fixes x :: "'w::len word"
  assumes "unat x < 2 ^ (LENGTH('w) - 1)"
  shows "unat (empty_seq x) = 2 * unat x"
proof -
  have "2 * unat x < 2 ^ LENGTH('w)" using assms half_le [where 'w = 'w] by linarith
  moreover have "empty_seq x = x + x" by (simp add: empty_seq_def push_bit_eq_mult)
  ultimately show ?thesis using unat_add_lem [of x x] by simp
qed

lemma unat_full_seq [word_bounds]:
  fixes x :: "'w::len word"
  assumes "unat x < 2 ^ (LENGTH('w) - 1)"
  shows "unat (full_seq x) = 2 * unat x + 1"
proof -
  have lt: "2 * unat x + 1 < 2 ^ LENGTH('w)" using assms half_le [where 'w = 'w] by linarith
  have "even (push_bit 1 x)" by simp
  then have "full_seq x = empty_seq x + 1"
    by (simp add: full_seq_def empty_seq_def or_one_eq)
  then show ?thesis
    using lt unat_empty_seq [OF assms] by (simp add: unat_word_ariths)
qed

lemma unat_add_small [word_bounds]:
  fixes x :: "'w::len word"
  assumes "unat x + n < 2 ^ LENGTH('w)"
  shows "unat (x + word_of_nat n) = unat x + n"
  using assms by (simp add: unat_word_ariths unat_of_nat mod_add_right_eq)

lemma unat_push_bit_small [word_bounds]:
  "2 * n < 2 ^ LENGTH('w::len) \<Longrightarrow> unat (push_bit 1 (word_of_nat n :: 'w word)) = 2 * n"
  using unat_empty_seq [of "word_of_nat n :: 'w word"] half_le [where 'w = 'w]
  by (simp add: empty_seq_def of_nat_inverse [OF refl])

lemma seq_or_1 [word_bounds]:
  fixes s :: "'w::len word"
  shows "unat (s OR 1) = (if even (unat s) then unat s + 1 else unat s)"
proof -
  have e: "even s \<longleftrightarrow> even (unat s)" by (rule even_word_unat)
  show ?thesis
  proof (cases "even s")
    case True
    have "unat s + 1 < 2 ^ LENGTH('w)"
    proof -
      have "unat s < 2 ^ LENGTH('w)" by (rule unsigned_less)
      moreover have "even ((2::nat) ^ LENGTH('w))" by simp
      ultimately show ?thesis using True e by (metis Suc_eq_plus1 Suc_lessI even_Suc)
    qed
    then show ?thesis using True e by (simp add: or_one_eq unat_word_ariths)
  next
    case False
    then show ?thesis using e by (simp add: or_one_eq)
  qed
qed

lemma slot_of_pow2: "slot_of (2 ^ m) x = unat x mod 2 ^ m"
proof -
  have "(2::nat) ^ m - 1 = mask m" by (simp add: mask_eq_exp_minus_1)
  then show ?thesis by (simp add: slot_of_def take_bit_eq_mask [symmetric] take_bit_eq_mod)
qed

end
