(* ===== verification/Mpmc_Safety.thy ===== *)
theory Mpmc_Safety
  imports Mpmc_Queue
begin

text \<open>
  Any number of threads on one \<open>mpmc_queue\<close>, interleaved at every access to shared memory:
  the invariant of slots, indices and threads, and the first-in first-out order it gives. The
  ghost state is the list of all values ever enqueued (\<open>hist\<close>) and of all values dequeued
  (\<open>outs\<close>), in the order in which the entries were exchanged.
\<close>

subsection \<open>The system\<close>

record ('d, 'i) mpmc_sys =
  mq :: "('d, 'i) mpmc"
  threads :: "nat \<Rightarrow> ('d, 'i) pc"
  hist :: "'d list"
  outs :: "'d list"

fun record_event :: "'d event \<Rightarrow> ('d, 'i) mpmc_sys \<Rightarrow> ('d, 'i) mpmc_sys" where
  "record_event (Enq d) s = s\<lparr>hist := hist s @ [d]\<rparr>"
| "record_event (Deq d) s = s\<lparr>outs := outs s @ [d]\<rparr>"
| "record_event _ s = s"

text \<open>A call may begin when the thread has no call in progress.\<close>

fun at_rest :: "('d, 'i) pc \<Rightarrow> bool" where
  "at_rest Idle = True"
| "at_rest (Returned r) = True"
| "at_rest _ = False"

fun is_call :: "('d, 'i) pc \<Rightarrow> bool" where
  "is_call (PushLoad d) = True"
| "is_call PopLoad = True"
| "is_call PeekLoad = True"
| "is_call PopIfLoad = True"
| "is_call _ = False"

definition commit ::
  "nat \<Rightarrow> ('d, 'i) mpmc \<times> ('d, 'i) pc \<times> 'd event \<Rightarrow> ('d, 'i) mpmc_sys \<Rightarrow> ('d, 'i) mpmc_sys" where
  "commit i r s = (case r of (q, p, ev) \<Rightarrow>
     (record_event ev s)\<lparr>mq := q, threads := (threads s)(i := p)\<rparr>)"

inductive mpmc_step ::
  "('d::zero, 'w::len word) mpmc_sys \<Rightarrow> ('d, 'w word) mpmc_sys \<Rightarrow> bool" where
  call: "at_rest (threads s i) \<Longrightarrow> is_call p \<Longrightarrow> mpmc_step s (s\<lparr>threads := (threads s)(i := p)\<rparr>)"
| push: "mpmc_step s (commit i (push_step (mq s) (threads s i)) s)"
| pop: "mpmc_step s (commit i (pop_step (mq s) (threads s i)) s)"
| peek: "mpmc_step s (commit i (peek_step (mq s) (threads s i)) s)"
| pop_if: "mpmc_step s (commit i (pop_if_step f (mq s) (threads s i)) s)"
| exchange: "mpmc_exchange k old new (mq s) = (True, q) \<Longrightarrow>
    mpmc_step s (s\<lparr>mq := q, hist := (hist s)[unat (full_seq k) div 2 := new]\<rparr>)"

definition mpmc_start :: "('d::zero, 'w::len word) mpmc_sys \<Rightarrow> bool" where
  "mpmc_start s \<longleftrightarrow> (\<exists>lpush lpop n. 0 < n \<and> mpmc_new lpush lpop n = Some (mq s)) \<and>
     (\<forall>i. threads s i = Idle) \<and> hist s = [] \<and> outs s = []"

subsection \<open>The invariant\<close>

text \<open>
  Of the tickets, those below \<open>t\<close> are dequeued, those from \<open>t\<close> to \<open>h\<close> are in their slots, and
  the slots of \<open>h\<close> to \<open>t + n\<close> are free and wait for exactly that ticket.
\<close>

definition slots_ok :: "('d::zero, 'w::len word) entry list \<Rightarrow> 'd list \<Rightarrow> nat \<Rightarrow> bool" where
  "slots_ok a xs t \<longleftrightarrow>
     (\<forall>j. t \<le> j \<and> j < length xs \<longrightarrow>
        data (a ! (j mod length a)) = xs ! j \<and> unat (seq (a ! (j mod length a))) = 2 * j + 1) \<and>
     (\<forall>j. length xs \<le> j \<and> j < t + length a \<longrightarrow>
        data (a ! (j mod length a)) = 0 \<and> unat (seq (a ! (j mod length a))) = 2 * j)"

fun pc_ok :: "nat \<Rightarrow> nat \<Rightarrow> nat \<Rightarrow> nat \<Rightarrow> ('d, 'w::len word) pc \<Rightarrow> bool" where
  "pc_ok wi ri h t (PushSeq d wr) = (unat wr \<le> wi)"
| "pc_ok wi ri h t (PushCas d wr) = (unat wr \<le> wi)"
| "pc_ok wi ri h t (PushAdv wr) = (unat wr < h)"
| "pc_ok wi ri h t (PushHelp d wr) = (unat wr < h)"
| "pc_ok wi ri h t (PopEntry rd) = (unat rd \<le> ri)"
| "pc_ok wi ri h t (PopCas rd e) = (unat rd \<le> ri \<and> unat (seq e) = 2 * unat rd + 1)"
| "pc_ok wi ri h t (PopAdv d rd) = (unat rd < t)"
| "pc_ok wi ri h t (PopHelp rd) = (unat rd < t)"
| "pc_ok wi ri h t (PeekEntry rd) = (unat rd \<le> ri)"
| "pc_ok wi ri h t (PeekHelp rd) = (unat rd < t)"
| "pc_ok wi ri h t (PopIfEntry rd) = (unat rd \<le> ri)"
| "pc_ok wi ri h t (PopIfCas rd e) = (unat rd \<le> ri \<and> unat (seq e) = 2 * unat rd + 1)"
| "pc_ok wi ri h t (PopIfHelp rd) = (unat rd < t)"
| "pc_ok wi ri h t _ = True"

definition queue_ok :: "('d::zero, 'w::len word) mpmc \<Rightarrow> 'd list \<Rightarrow> 'd list \<Rightarrow> bool" where
  "queue_ok q xs ys \<longleftrightarrow>
     (\<exists>m. qsize q = 2 ^ m) \<and> length ys \<le> length xs \<and> length xs \<le> length ys + qsize q \<and>
     take (length ys) xs = ys \<and> slots_ok (array q) xs (length ys) \<and>
     unat (write_index q) \<le> length xs \<and> unat (read_index q) \<le> length ys \<and>
     length xs \<le> Suc (unat (write_index q)) \<and> length ys \<le> Suc (unat (read_index q))"

text \<open>No ticket has yet reached the top bit of the index, which the sequence numbers drop.\<close>

definition within :: "'w::len itself \<Rightarrow> nat \<Rightarrow> nat \<Rightarrow> bool" where
  "within w h n \<longleftrightarrow> h + 2 * n \<le> 2 ^ (LENGTH('w) - 1)"

definition mpmc_good :: "('d::zero, 'w::len word) mpmc_sys \<Rightarrow> bool" where
  "mpmc_good s \<longleftrightarrow> queue_ok (mq s) (hist s) (outs s) \<and>
     (\<forall>i. pc_ok (unat (write_index (mq s))) (unat (read_index (mq s)))
        (length (hist s)) (length (outs s)) (threads s i))"

definition mpmc_inv :: "('d::zero, 'w::len word) mpmc_sys \<Rightarrow> bool" where
  "mpmc_inv s \<longleftrightarrow> (within TYPE('w) (length (hist s)) (qsize (mq s)) \<longrightarrow> mpmc_good s)"

subsection \<open>What a thread learns from a slot\<close>

lemma ticket_exists:
  fixes t n x :: nat
  assumes "0 < n"
  shows "\<exists>j. t \<le> j \<and> j < t + n \<and> j mod n = x mod n"
proof (intro exI conjI)
  let ?j = "t + (x + (n - t mod n)) mod n"
  show "t \<le> ?j" "?j < t + n" using assms by auto
  have "?j mod n = (t mod n + (x + (n - t mod n))) mod n"
    by (simp add: mod_simps)
  also have "\<dots> = (x + n) mod n"
  proof -
    have "t mod n + (x + (n - t mod n)) = x + n"
      using mod_less_divisor [OF assms, of t] by linarith
    then show ?thesis by simp
  qed
  finally show "?j mod n = x mod n" by simp
qed

lemma array_get_ticket:
  assumes "length a = 2 ^ m"
  shows "array_get a x = a ! (unat x mod length a)"
  using assms by (simp add: array_get_def slot_of_pow2)

lemma slot_view:
  assumes "queue_ok q xs ys"
  obtains j where "length ys \<le> j" "j < length ys + qsize q"
    "j mod qsize q = unat x mod qsize q"
    "array_get (array q) x = array q ! (j mod qsize q)"
    "j < length xs \<Longrightarrow> data (array_get (array q) x) = xs ! j \<and>
       unat (seq (array_get (array q) x)) = 2 * j + 1"
    "length xs \<le> j \<Longrightarrow> data (array_get (array q) x) = 0 \<and>
       unat (seq (array_get (array q) x)) = 2 * j"
proof -
  obtain m where m: "qsize q = 2 ^ m" using assms by (auto simp: queue_ok_def)
  obtain j where j: "length ys \<le> j" "j < length ys + qsize q" "j mod qsize q = unat x mod qsize q"
    using ticket_exists [of "qsize q" "length ys" "unat x"] m by auto
  have g: "array_get (array q) x = array q ! (j mod qsize q)"
    using array_get_ticket [OF m] j(3) by simp
  show thesis
    by (rule that [of j]) (use assms j g in \<open>auto simp: queue_ok_def slots_ok_def\<close>)
qed

lemma slot_seq_view:
  assumes "queue_ok q xs ys"
  obtains j where "length ys \<le> j" "j < length ys + qsize q"
    "unat (seq (array_get (array q) x)) = (if j < length xs then 2 * j + 1 else 2 * j)"
  using slot_view [OF assms, of x] by (metis not_le_imp_less)

definition step_ok ::
  "('d::zero, 'w::len word) mpmc \<Rightarrow> 'd list \<Rightarrow> 'd list \<Rightarrow>
   ('d, 'w word) mpmc \<times> ('d, 'w word) pc \<times> 'd event \<Rightarrow> bool" where
  "step_ok q xs ys r \<longleftrightarrow> (case r of (q', p', ev) \<Rightarrow>
     let xs' = (case ev of Enq d \<Rightarrow> xs @ [d] | _ \<Rightarrow> xs);
         ys' = (case ev of Deq d \<Rightarrow> ys @ [d] | _ \<Rightarrow> ys)
     in queue_ok q' xs' ys' \<and> qsize q' = qsize q \<and>
        unat (write_index q) \<le> unat (write_index q') \<and> unat (read_index q) \<le> unat (read_index q') \<and>
        pc_ok (unat (write_index q')) (unat (read_index q')) (length xs') (length ys') p' \<and>
        (case ev of Enq d \<Rightarrow> length xs < length ys + qsize q
         | Deq d \<Rightarrow> length ys < length xs
         | FullSeen \<Rightarrow> length xs = length ys + qsize q
         | EmptySeen \<Rightarrow> xs = ys
         | Tau \<Rightarrow> True))"

lemma step_ok_Tau:
  "queue_ok q xs ys \<Longrightarrow> pc_ok (unat (write_index q)) (unat (read_index q)) (length xs) (length ys) p \<Longrightarrow>
   step_ok q xs ys (q, p, Tau)"
  by (simp add: step_ok_def)

lemma bound_words:
  fixes q :: "('d::zero, 'w::len word) mpmc"
  assumes "within TYPE('w) (length xs) (qsize q)" "queue_ok q xs ys" "unat (x :: 'w word) \<le> length xs"
  shows "unat x < 2 ^ (LENGTH('w) - 1)"
    and "unat x + qsize q < 2 ^ (LENGTH('w) - 1)"
    and "unat (x + word_of_nat (qsize q)) = unat x + qsize q"
    and "2 * qsize q < 2 ^ LENGTH('w)"
proof -
  have n: "0 < qsize q" using assms(2) by (auto simp: queue_ok_def)
  show b: "unat x + qsize q < 2 ^ (LENGTH('w) - 1)"
    using assms(1,3) n unfolding within_def by linarith
  then show "unat x < 2 ^ (LENGTH('w) - 1)" by linarith
  have "unat x + qsize q < 2 ^ LENGTH('w)" using b half_le [where 'w = 'w] by linarith
  then show "unat (x + word_of_nat (qsize q)) = unat x + qsize q" by (rule unat_add_small)
  show "2 * qsize q < 2 ^ LENGTH('w)" using b half_le [where 'w = 'w] by linarith
qed

lemma push_seq_ok:
  fixes q :: "('d::zero, 'w::len word) mpmc"
  assumes ok: "queue_ok q xs ys" and w: "within TYPE('w) (length xs) (qsize q)"
    and wr: "unat wr \<le> unat (write_index q)"
  shows "step_ok q xs ys (push_step q (PushSeq d wr))"
proof -
  define s where "s = seq (array_get (array q) wr)"
  obtain j where j: "length ys \<le> j" "j < length ys + qsize q"
    and s: "unat s = (if j < length xs then 2 * j + 1 else 2 * j)"
    using slot_seq_view [OF ok] unfolding s_def by metis
  have lens: "length xs \<le> length ys + qsize q" "length ys \<le> length xs"
    and wrh: "unat wr \<le> length xs" using ok wr by (auto simp: queue_ok_def)
  note b = bound_words [OF w ok wrh]
  have e: "unat (empty_seq wr) = 2 * unat wr" "unat (full_seq wr) = 2 * unat wr + 1"
    "unat (empty_seq (wr + word_of_nat (qsize q))) = 2 * (unat wr + qsize q)"
    using b unat_empty_seq [of wr] unat_full_seq [of wr] unat_empty_seq [of "wr + word_of_nat (qsize q)"]
    by simp_all
  have helped: "unat wr < length xs"
    if "s = full_seq wr \<or> s = empty_seq (wr + word_of_nat (qsize q))"
  proof -
    from that have "unat s = 2 * unat wr + 1 \<or> unat s = 2 * (unat wr + qsize q)" using e by auto
    then show ?thesis using s j lens by (auto split: if_splits) presburger+
  qed
  have full: "length xs = length ys + qsize q"
    if "s + push_bit 1 (word_of_nat (qsize q)) = full_seq wr"
  proof -
    have "j + qsize q < 2 ^ (LENGTH('w) - 1)"
      using j lens w unfolding within_def by linarith
    then have "unat s + 2 * qsize q < 2 ^ LENGTH('w)"
      using s half_le [where 'w = 'w] by (auto split: if_splits)
    moreover have "unat (push_bit 1 (word_of_nat (qsize q)) :: 'w word) = 2 * qsize q"
      using b(4) by (rule unat_push_bit_small)
    ultimately have "unat (s + push_bit 1 (word_of_nat (qsize q))) = unat s + 2 * qsize q"
      using unat_add_lem [of s "push_bit 1 (word_of_nat (qsize q))"] by simp
    then have "unat s + 2 * qsize q = 2 * unat wr + 1" using that e by simp
    then show ?thesis using s j lens wrh by (auto split: if_splits)
  qed
  show ?thesis
    using ok wr helped full
    by (auto simp: Let_def s_def [symmetric] step_ok_def)
qed

lemma ticket_inj:
  fixes t j k n :: nat
  assumes "t \<le> j" "j < t + n" "t \<le> k" "k < t + n" "j mod n = k mod n"
  shows "j = k"
proof (rule ccontr)
  assume "j \<noteq> k"
  have "n dvd j - k" "n dvd k - j"
    using assms(5) by (metis mod_eq_dvd_iff_nat nat_le_linear dvd_0_right diff_is_0_eq)+
  moreover have "j - k < n" "k - j < n" using assms by auto
  ultimately have "j - k = 0" "k - j = 0" by (auto dest: nat_dvd_not_less intro: gr0I)
  then show False using \<open>j \<noteq> k\<close> by simp
qed

lemma slots_ok_enq:
  assumes ok: "slots_ok a xs t" and len: "t \<le> length xs" "length xs < t + length a"
    and e: "data e = d" "unat (seq e) = 2 * length xs + 1"
  shows "slots_ok (a[length xs mod length a := e]) (xs @ [d]) t"
proof -
  have n: "length xs mod length a < length a" using len by (intro mod_less_divisor) auto
  have ne: "j mod length a \<noteq> length xs mod length a"
    if "t \<le> j" "j < t + length a" "j \<noteq> length xs" for j
    using ticket_inj [of t j "length a" "length xs"] that len by auto
  show ?thesis unfolding slots_ok_def length_list_update
  proof (intro conjI allI impI, goal_cases)
    case (1 j)
    then show ?case using ok ne [of j] n e len
      by (cases "j = length xs") (auto simp: slots_ok_def nth_append)
  next
    case (2 j)
    then show ?case using ok ne [of j] n e len
      by (cases "j = length xs") (auto simp: slots_ok_def nth_append)
  next
    case (3 j)
    then show ?case using ok ne [of j] len by (auto simp: slots_ok_def)
  next
    case (4 j)
    then show ?case using ok ne [of j] len by (auto simp: slots_ok_def)
  qed
qed

lemma slots_ok_deq:
  assumes ok: "slots_ok a xs t" and len: "t < length xs" "length xs \<le> t + length a"
    and e: "data e = 0" "unat (seq e) = 2 * (t + length a)"
  shows "slots_ok (a[t mod length a := e]) xs (Suc t)"
proof -
  have n: "t mod length a < length a" using len by (intro mod_less_divisor) auto
  have ne: "j mod length a \<noteq> t mod length a" if "t < j" "j < t + length a" for j
    using ticket_inj [of t j "length a" t] that len by (cases "a = []") auto
  have last: "(t + length a) mod length a = t mod length a" by simp
  show ?thesis unfolding slots_ok_def length_list_update
  proof (intro conjI allI impI, goal_cases)
    case (1 j)
    then show ?case using ok ne [of j] len by (auto simp: slots_ok_def)
  next
    case (2 j)
    then show ?case using ok ne [of j] len by (auto simp: slots_ok_def)
  next
    case (3 j)
    then show ?case using ok ne [of j] n e len last
      by (cases "j = t + length a") (auto simp: slots_ok_def)
  next
    case (4 j)
    then show ?case using ok ne [of j] n e len last
      by (cases "j = t + length a") (auto simp: slots_ok_def)
  qed
qed

lemma slots_ok_exchange:
  assumes ok: "slots_ok a xs t" and j: "t \<le> j" "j < length xs" and len: "length xs \<le> t + length a"
    and e: "data e = d" "unat (seq e) = 2 * j + 1"
  shows "slots_ok (a[j mod length a := e]) (xs[j := d]) t"
proof -
  have n: "j mod length a < length a" using j len by (intro mod_less_divisor) auto
  have ne: "k mod length a \<noteq> j mod length a" if "t \<le> k" "k < t + length a" "k \<noteq> j" for k
    using ticket_inj [of t k "length a" j] that j len by auto
  show ?thesis unfolding slots_ok_def length_list_update
  proof (intro conjI allI impI, goal_cases)
    case (1 k)
    then show ?case using ok ne [of k] n e j len by (cases "k = j") (auto simp: slots_ok_def)
  next
    case (2 k)
    then show ?case using ok ne [of k] n e j len by (cases "k = j") (auto simp: slots_ok_def)
  next
    case (3 k)
    then show ?case using ok ne [of k] j len by (auto simp: slots_ok_def)
  next
    case (4 k)
    then show ?case using ok ne [of k] j len by (auto simp: slots_ok_def)
  qed
qed

lemma array_set_ticket:
  fixes x :: "'w::len word"
  assumes "queue_ok q xs ys" "unat x mod qsize q = j mod qsize q"
  shows "array_set (array q) x e = (array q)[j mod qsize q := e]"
  using assms by (auto simp: array_set_def slot_of_pow2 queue_ok_def)

lemma push_cas_ok:
  fixes q :: "('d::zero, 'w::len word) mpmc"
  assumes ok: "queue_ok q xs ys" and w: "within TYPE('w) (length xs) (qsize q)"
    and wr: "unat wr \<le> unat (write_index q)"
  shows "step_ok q xs ys (push_step q (PushCas d wr))"
proof (cases "array_get (array q) wr = entry_seq (empty_seq wr)")
  case False
  then show ?thesis using ok by (simp add: step_ok_def)
next
  case True
  have lens: "length xs \<le> length ys + qsize q" "length ys \<le> length xs"
    and wrh: "unat wr \<le> length xs" using ok wr by (auto simp: queue_ok_def)
  note b = bound_words [OF w ok wrh]
  obtain j where j: "length ys \<le> j" "j < length ys + qsize q"
    and s: "unat (seq (array_get (array q) wr)) = (if j < length xs then 2 * j + 1 else 2 * j)"
    using slot_seq_view [OF ok] by metis
  have "unat (seq (array_get (array q) wr)) = 2 * unat wr"
    using True unat_empty_seq [OF b(1)] by (simp add: entry_seq_def)
  then have jj: "j = unat wr \<and> \<not> j < length xs"
    using s by (cases "j < length xs") (simp, presburger, simp)
  then have h: "unat wr = length xs" and room: "length xs < length ys + qsize q"
    using j wrh by auto
  have "slots_ok (array_set (array q) wr (entry_set (full_seq wr) d)) (xs @ [d]) (length ys)"
    using ok lens room h unat_full_seq [OF b(1)]
      array_set_ticket [OF ok, of wr "length xs" "entry_set (full_seq wr) d"]
    by (auto simp: queue_ok_def entry_set_def intro!: slots_ok_enq)
  then show ?thesis
    using True ok wr room h lens
    by (auto simp: step_ok_def queue_ok_def array_set_def Let_def)
qed

lemma cas_write_index_ok:
  fixes q :: "('d::zero, 'w::len word) mpmc"
  assumes ok: "queue_ok q xs ys" and w: "within TYPE('w) (length xs) (qsize q)"
    and wr: "unat wr < length xs"
    and p: "pc_ok (unat (write_index (cas_write_index wr q))) (unat (read_index q)) (length xs) (length ys) p"
  shows "step_ok q xs ys (cas_write_index wr q, p, Tau)"
proof -
  have "unat (wr + 1) = unat wr + 1"
    using bound_words(1) [OF w ok, of wr] wr half_le [where 'w = 'w] unat_add_small [of wr 1] by simp
  then show ?thesis
    using ok p wr by (auto simp: step_ok_def cas_write_index_def queue_ok_def)
qed

lemma cas_read_index_ok:
  fixes q :: "('d::zero, 'w::len word) mpmc"
  assumes ok: "queue_ok q xs ys" and w: "within TYPE('w) (length xs) (qsize q)"
    and rd: "unat rd < length ys"
    and p: "pc_ok (unat (write_index q)) (unat (read_index (cas_read_index rd q))) (length xs) (length ys) p"
  shows "step_ok q xs ys (cas_read_index rd q, p, Tau)"
proof -
  have "length ys \<le> length xs" using ok by (simp add: queue_ok_def)
  then have "unat (rd + 1) = unat rd + 1"
    using bound_words(1) [OF w ok, of rd] rd half_le [where 'w = 'w] unat_add_small [of rd 1] by simp
  then show ?thesis
    using ok p rd by (auto simp: step_ok_def cas_read_index_def queue_ok_def)
qed

lemma push_step_ok:
  fixes q :: "('d::zero, 'w::len word) mpmc"
  assumes "queue_ok q xs ys" "within TYPE('w) (length xs) (qsize q)"
    and "pc_ok (unat (write_index q)) (unat (read_index q)) (length xs) (length ys) p"
  shows "step_ok q xs ys (push_step q p)"
proof (cases p)
  case (PushSeq d wr)
  then show ?thesis using assms push_seq_ok by simp
next
  case (PushCas d wr)
  then show ?thesis using assms push_cas_ok by (metis pc_ok.simps(2))
qed (use assms in \<open>auto intro: step_ok_Tau cas_write_index_ok\<close>)

text \<open>What the entry read by a consumer says.\<close>

lemma read_view:
  fixes q :: "('d::zero, 'w::len word) mpmc"
  assumes ok: "queue_ok q xs ys" and w: "within TYPE('w) (length xs) (qsize q)"
    and rd: "unat rd \<le> unat (read_index q)" and s: "s = seq (array_get (array q) rd)"
  shows "s = full_seq rd \<Longrightarrow> unat s = 2 * unat rd + 1"
    and "s OR 1 = full_seq (rd + word_of_nat (qsize q)) \<Longrightarrow> unat rd < length ys"
    and "drop_bit 1 s = rd + word_of_nat (qsize q) \<Longrightarrow> unat rd < length ys"
    and "s = empty_seq rd \<Longrightarrow> xs = ys"
proof -
  have lens: "length xs \<le> length ys + qsize q" "length ys \<le> length xs" "take (length ys) xs = ys"
    and rdh: "unat rd \<le> length xs" and rdt: "unat rd \<le> length ys"
    using ok rd by (auto simp: queue_ok_def)
  note b = bound_words [OF w ok rdh]
  obtain j where j: "length ys \<le> j" "j < length ys + qsize q"
    and sj: "unat s = (if j < length xs then 2 * j + 1 else 2 * j)"
    using slot_seq_view [OF ok] unfolding s by metis
  have e: "unat (empty_seq rd) = 2 * unat rd" "unat (full_seq rd) = 2 * unat rd + 1"
    "unat (full_seq (rd + word_of_nat (qsize q))) = 2 * (unat rd + qsize q) + 1"
    using b unat_empty_seq [of rd] unat_full_seq [of rd] unat_full_seq [of "rd + word_of_nat (qsize q)"]
    by simp_all
  show "unat s = 2 * unat rd + 1" if "s = full_seq rd" using that e by simp
  show "unat rd < length ys" if "s OR 1 = full_seq (rd + word_of_nat (qsize q))"
  proof -
    have "unat (s OR 1) = 2 * (unat rd + qsize q) + 1" using that e by simp
    then have "j = unat rd + qsize q" using seq_or_1 [of s] sj by (auto split: if_splits)
    then show ?thesis using j by linarith
  qed
  show "unat rd < length ys" if "drop_bit 1 s = rd + word_of_nat (qsize q)"
  proof -
    have "unat (drop_bit 1 s) = unat rd + qsize q" using that b by simp
    moreover have "unat (drop_bit 1 s) = unat s div 2"
      using trans [OF unat_drop_bit_eq [of 1 s] drop_bit_eq_div [of 1 "unat s"]] by simp
    ultimately have "j = unat rd + qsize q" using sj by (auto split: if_splits)
    then show ?thesis using j by linarith
  qed
  show "xs = ys" if "s = empty_seq rd"
  proof -
    have "unat s = 2 * unat rd" using that e by simp
    then have "\<not> j < length xs \<and> j = unat rd" using sj by (cases "j < length xs") (simp, presburger, simp)
    then have "length xs \<le> length ys" using rdt by auto
    then show ?thesis using lens by auto
  qed
qed

lemma deq_ok:
  fixes q :: "('d::zero, 'w::len word) mpmc"
  assumes ok: "queue_ok q xs ys" and w: "within TYPE('w) (length xs) (qsize q)"
    and rd: "unat rd \<le> unat (read_index q)" and e: "array_get (array q) rd = e"
    and s: "unat (seq e) = 2 * unat rd + 1"
    and p: "p = Returned r \<or> p = PopAdv d rd"
  shows "step_ok q xs ys
    (q\<lparr>array := array_set (array q) rd (entry_seq (empty_seq (rd + word_of_nat (qsize q))))\<rparr>, p, Deq (data e))"
proof -
  have lens: "length xs \<le> length ys + qsize q" "length ys \<le> length xs" "take (length ys) xs = ys"
    and rdh: "unat rd \<le> length xs" and rdt: "unat rd \<le> length ys"
    using ok rd by (auto simp: queue_ok_def)
  note b = bound_words [OF w ok rdh]
  obtain j where j: "length ys \<le> j" "j < length ys + qsize q"
    and full: "j < length xs \<Longrightarrow> data e = xs ! j \<and> unat (seq e) = 2 * j + 1"
    and free: "length xs \<le> j \<Longrightarrow> unat (seq e) = 2 * j"
    using slot_view [OF ok, of rd] unfolding e by metis
  have jl: "j < length xs" using free s by (cases "j < length xs") (simp, presburger)
  then have "unat rd = length ys" and dt: "data e = xs ! length ys" and lt: "length ys < length xs"
    using full s j rdt by auto
  let ?e = "entry_seq (empty_seq (rd + word_of_nat (qsize q))) :: ('d, 'w word) entry"
  have es: "data ?e = 0" "unat (seq ?e) = 2 * (length ys + qsize q)"
    using unat_empty_seq [of "rd + word_of_nat (qsize q)"] b \<open>unat rd = length ys\<close>
    by (simp_all add: entry_seq_def)
  have "slots_ok (array_set (array q) rd ?e) xs (Suc (length ys))"
    using slots_ok_deq [of "array q" xs "length ys" ?e] es lt lens ok
      array_set_ticket [OF ok, of rd "length ys" ?e] \<open>unat rd = length ys\<close>
    by (simp add: queue_ok_def)
  moreover have "take (Suc (length ys)) xs = ys @ [data e]"
    using lens(3) dt lt by (simp add: take_Suc_conv_app_nth)
  ultimately show ?thesis
    using ok p lt lens rd \<open>unat rd = length ys\<close>
    by (auto simp: step_ok_def queue_ok_def array_set_def Let_def)
qed

lemma pop_step_ok:
  fixes q :: "('d::zero, 'w::len word) mpmc"
  assumes "queue_ok q xs ys" "within TYPE('w) (length xs) (qsize q)"
    and "pc_ok (unat (write_index q)) (unat (read_index q)) (length xs) (length ys) p"
  shows "step_ok q xs ys (pop_step q p)"
proof (cases p)
  case (PopEntry rd)
  then show ?thesis using assms read_view [OF assms(1,2), of rd, OF _ refl]
    by (auto simp: Let_def intro: step_ok_Tau) (auto simp: step_ok_def)
next
  case (PopCas rd e)
  then show ?thesis using assms deq_ok [OF assms(1,2), of rd e]
    by (auto intro: step_ok_Tau)
qed (use assms in \<open>auto intro: step_ok_Tau cas_read_index_ok\<close>)

lemma peek_step_ok:
  fixes q :: "('d::zero, 'w::len word) mpmc"
  assumes "queue_ok q xs ys" "within TYPE('w) (length xs) (qsize q)"
    and "pc_ok (unat (write_index q)) (unat (read_index q)) (length xs) (length ys) p"
  shows "step_ok q xs ys (peek_step q p)"
proof (cases p)
  case (PeekEntry rd)
  then show ?thesis using assms read_view [OF assms(1,2), of rd, OF _ refl]
    by (auto simp: Let_def intro: step_ok_Tau) (auto simp: step_ok_def)
qed (use assms in \<open>auto intro: step_ok_Tau cas_read_index_ok\<close>)

lemma pop_if_step_ok:
  fixes q :: "('d::zero, 'w::len word) mpmc"
  assumes "queue_ok q xs ys" "within TYPE('w) (length xs) (qsize q)"
    and "pc_ok (unat (write_index q)) (unat (read_index q)) (length xs) (length ys) p"
  shows "step_ok q xs ys (pop_if_step f q p)"
proof (cases p)
  case (PopIfEntry rd)
  then show ?thesis using assms read_view [OF assms(1,2), of rd, OF _ refl]
    by (auto simp: Let_def intro: step_ok_Tau) (auto simp: step_ok_def)
next
  case (PopIfCas rd e)
  then show ?thesis using assms deq_ok [OF assms(1,2), of rd e]
    by (auto intro: step_ok_Tau)
qed (use assms in \<open>auto intro: step_ok_Tau cas_read_index_ok\<close>)

subsection \<open>The invariant of the system\<close>

lemma pc_ok_mono:
  "pc_ok wi ri h t p \<Longrightarrow> wi \<le> wi' \<Longrightarrow> ri \<le> ri' \<Longrightarrow> h \<le> h' \<Longrightarrow> t \<le> t' \<Longrightarrow> pc_ok wi' ri' h' t' p"
  by (cases p) auto

lemma commit_good:
  assumes good: "mpmc_good s" and ok: "step_ok (mq s) (hist s) (outs s) r"
  shows "mpmc_good (commit i r s)"
proof -
  obtain q p ev where r: "r = (q, p, ev)" by (cases r)
  have "mq (commit i r s) = q" by (simp add: commit_def r)
  moreover have "hist (commit i r s) = (case ev of Enq d \<Rightarrow> hist s @ [d] | _ \<Rightarrow> hist s)"
    "outs (commit i r s) = (case ev of Deq d \<Rightarrow> outs s @ [d] | _ \<Rightarrow> outs s)"
    "threads (commit i r s) = (threads s)(i := p)"
    by (cases ev; simp add: commit_def r)+
  moreover have "length (hist s) \<le> length (hist (commit i r s))" "length (outs s) \<le> length (outs (commit i r s))"
    by (cases ev; simp add: commit_def r)+
  ultimately show ?thesis
    using good ok unfolding mpmc_good_def step_ok_def r
    by (auto simp: Let_def intro: pc_ok_mono)
qed

lemma commit_hist_grows:
  "length (hist s) \<le> length (hist (commit i r s))"
  by (cases r; cases "snd (snd r)") (auto simp: commit_def)

lemma step_size:
  "qsize (fst (push_step q p)) = qsize q" "qsize (fst (pop_step q p)) = qsize q"
  "qsize (fst (peek_step q p)) = qsize q" "qsize (fst (pop_if_step f q p)) = qsize q"
  by (cases p; auto simp: Let_def array_set_def cas_write_index_def cas_read_index_def)+

lemma commit_size: "qsize (mq (commit i r s)) = qsize (fst r)"
  by (cases r) (simp add: commit_def)

lemma odd_full_seq: "odd (unat (full_seq (k :: 'w::len word)))"
proof -
  have "odd (full_seq k)" unfolding full_seq_def by (simp add: even_or_iff)
  then show ?thesis by (simp add: even_word_unat)
qed

lemma exchange_queue_ok:
  fixes q :: "('d::zero, 'w::len word) mpmc"
  assumes ok: "queue_ok q xs ys" and x: "mpmc_exchange k old new q = (True, q')"
  shows "queue_ok q' (xs[unat (full_seq k) div 2 := new]) ys \<and> unat (full_seq k) div 2 < length xs \<and>
    length ys \<le> unat (full_seq k) div 2 \<and> xs ! (unat (full_seq k) div 2) = old"
proof -
  have g: "array_get (array q) k = entry_set (full_seq k) old"
    and q': "q' = q\<lparr>array := array_set (array q) k (entry_set (full_seq k) new)\<rparr>"
    using x by (auto simp: mpmc_exchange_def split: if_splits)
  have gs: "data (array_get (array q) k) = old" "seq (array_get (array q) k) = full_seq k"
    using g by (simp_all add: entry_set_def)
  obtain j where j: "length ys \<le> j" "j < length ys + qsize q" "j mod qsize q = unat k mod qsize q"
    and full: "j < length xs \<Longrightarrow> old = xs ! j \<and> unat (full_seq k) = 2 * j + 1"
    and free: "length xs \<le> j \<Longrightarrow> unat (full_seq k) = 2 * j"
    using slot_view [OF ok, of k] unfolding gs by metis
  have jl: "j < length xs" using free odd_full_seq [of k] by (cases "j < length xs") auto
  then have jk: "unat (full_seq k) div 2 = j" "unat (full_seq k) = 2 * j + 1" "xs ! j = old"
    using full by auto
  have "slots_ok (array_set (array q) k (entry_set (full_seq k) new)) (xs[j := new]) (length ys)"
    using slots_ok_exchange [of "array q" xs "length ys" j "entry_set (full_seq k) new"] ok j jl jk
      array_set_ticket [OF ok, of k j "entry_set (full_seq k) new"]
    by (simp add: queue_ok_def entry_set_def)
  then show ?thesis
    using ok j jl jk unfolding q' by (auto simp: queue_ok_def array_set_def)
qed

lemma step_hist_grows: "mpmc_step s s' \<Longrightarrow> length (hist s) \<le> length (hist s') \<and> qsize (mq s') = qsize (mq s)"
  by (induction rule: mpmc_step.induct)
    (auto simp: commit_hist_grows commit_size step_size mpmc_exchange_def array_set_def split: if_splits)

lemma mpmc_goodD:
  "mpmc_good s \<Longrightarrow> queue_ok (mq s) (hist s) (outs s)"
  "mpmc_good s \<Longrightarrow> pc_ok (unat (write_index (mq s))) (unat (read_index (mq s)))
     (length (hist s)) (length (outs s)) (threads s i)"
  by (simp_all add: mpmc_good_def)

lemma step_good:
  fixes s :: "('d::zero, 'w::len word) mpmc_sys"
  assumes "mpmc_step s s'" "mpmc_good s" "within TYPE('w) (length (hist s)) (qsize (mq s))"
  shows "mpmc_good s'"
  using assms(1)
proof cases
  case (call i p)
  then show ?thesis using assms(2) by (cases p) (auto simp: mpmc_good_def)
next
  case (push i)
  then show ?thesis using assms mpmc_goodD [OF assms(2)] by (simp add: commit_good push_step_ok)
next
  case (pop i)
  then show ?thesis using assms mpmc_goodD [OF assms(2)] by (simp add: commit_good pop_step_ok)
next
  case (peek i)
  then show ?thesis using assms mpmc_goodD [OF assms(2)] by (simp add: commit_good peek_step_ok)
next
  case (pop_if i f)
  then show ?thesis using assms mpmc_goodD [OF assms(2)] by (simp add: commit_good pop_if_step_ok)
next
  case (exchange k old new q)
  have "write_index q = write_index (mq s)" "read_index q = read_index (mq s)"
    using exchange(2) by (auto simp: mpmc_exchange_def split: if_splits)
  then show ?thesis
    using exchange(1) assms(2) exchange_queue_ok [OF mpmc_goodD(1) [OF assms(2)] exchange(2)]
    by (simp add: mpmc_good_def)
qed

lemma mpmc_inv_step: "mpmc_inv s \<Longrightarrow> mpmc_step s s' \<Longrightarrow> mpmc_inv s'"
  unfolding mpmc_inv_def
proof
  assume i: "within TYPE('b) (length (hist s)) (qsize (mq s)) \<longrightarrow> mpmc_good s"
    and st: "mpmc_step s s'" and w: "within TYPE('b) (length (hist s')) (qsize (mq s'))"
  have "within TYPE('b) (length (hist s)) (qsize (mq s))"
    using w step_hist_grows [OF st] by (auto simp: within_def)
  then show "mpmc_good s'" using i st step_good by blast
qed

end
