(* ===== verification/Mpmc_Traces.thy ===== *)
theory Mpmc_Traces
  imports Mpmc_Safety Atomic_Queue
begin

text \<open>
  The calls and returns of the threads on an \<open>mpmc_queue\<close>, and the simulation that makes every
  trace of them one of the atomic queue: \<open>push\<close> takes effect when it exchanges the entry or
  reads the slot that proves the queue full, \<open>pop\<close>, \<open>pop_if\<close> and \<open>peek\<close> when they exchange or
  read the entry.
\<close>

subsection \<open>Labels\<close>

text \<open>
  Where a thread stands between its call and its return. \<open>PushAdv\<close> and \<open>PopAdv\<close> come after the
  exchange of the entry: the operation has taken effect and its answer is known.
\<close>

fun phase_of :: "('d, 'i) pc \<Rightarrow> 'd phase" where
  "phase_of (PushLoad d) = Called (Push d)"
| "phase_of (PushSeq d wr) = Called (Push d)"
| "phase_of (PushCas d wr) = Called (Push d)"
| "phase_of (PushHelp d wr) = Called (Push d)"
| "phase_of (PushAdv wr) = Done Pushed"
| "phase_of PopLoad = Called Pop"
| "phase_of (PopEntry rd) = Called Pop"
| "phase_of (PopCas rd e) = Called Pop"
| "phase_of (PopHelp rd) = Called Pop"
| "phase_of (PopAdv d rd) = Done (Popped d)"
| "phase_of PeekLoad = Called Peek"
| "phase_of (PeekEntry rd) = Called Peek"
| "phase_of (PeekHelp rd) = Called Peek"
| "phase_of PopIfLoad = Called Pop_if"
| "phase_of (PopIfEntry rd) = Called Pop_if"
| "phase_of (PopIfCas rd e) = Called Pop_if"
| "phase_of (PopIfHelp rd) = Called Pop_if"
| "phase_of Idle = Resting"
| "phase_of (Returned r) = Resting"

text \<open>The answer of a result; a \<open>pop_if\<close> that refuses has shown the predicate the value it read.\<close>

fun answer_of :: "('d, 'w::len word) mpmc \<Rightarrow> ('d::zero, 'w word) pc \<Rightarrow> ('d, 'w word) result \<Rightarrow> 'd answer" where
  "answer_of q p (PushOk i) = Pushed"
| "answer_of q p PushFull = Full"
| "answer_of q p (PopOk d i) = Popped d"
| "answer_of q p PopEmpty = Empty"
| "answer_of q p (PeekOk d s) = Peeked d"
| "answer_of q (PopIfEntry rd) PopRefused = Refused (data (array_get (array q) rd))"
| "answer_of q p PopRefused = Refused 0"

text \<open>A step that takes a thread from inside an operation to its result is the return.\<close>

fun return_label :: "nat \<Rightarrow> ('d, 'w::len word) mpmc \<Rightarrow> ('d::zero, 'w word) pc \<Rightarrow> ('d, 'w word) pc \<Rightarrow> 'd action list" where
  "return_label i q p (Returned r) = (if at_rest p then [] else [Return i (answer_of q p r)])"
| "return_label i q p _ = []"

definition step_label ::
  "nat \<Rightarrow> ('d::zero, 'w::len word) mpmc \<times> ('d, 'w word) pc \<times> 'd event \<Rightarrow> ('d, 'w word) mpmc_sys \<Rightarrow> 'd action list" where
  "step_label i r s = return_label i (mq s) (threads s i) (fst (snd r))"

inductive mpmc_lstep ::
  "('d::zero, 'w::len word) mpmc_sys \<Rightarrow> 'd action list \<Rightarrow> ('d, 'w word) mpmc_sys \<Rightarrow> bool" where
  call: "at_rest (threads s i) \<Longrightarrow> is_call p \<Longrightarrow> phase_of p = Called op \<Longrightarrow>
    mpmc_lstep s [Call i op] (s\<lparr>threads := (threads s)(i := p)\<rparr>)"
| push: "r = push_step (mq s) (threads s i) \<Longrightarrow> mpmc_lstep s (step_label i r s) (commit i r s)"
| pop: "r = pop_step (mq s) (threads s i) \<Longrightarrow> mpmc_lstep s (step_label i r s) (commit i r s)"
| peek: "r = peek_step (mq s) (threads s i) \<Longrightarrow> mpmc_lstep s (step_label i r s) (commit i r s)"
| pop_if: "r = pop_if_step f (mq s) (threads s i) \<Longrightarrow> mpmc_lstep s (step_label i r s) (commit i r s)"
| exchange: "mpmc_exchange k old new (mq s) = (True, q) \<Longrightarrow>
    mpmc_lstep s [Exchanged old new]
      (s\<lparr>mq := q, hist := (hist s)[unat (full_seq k) div 2 := new]\<rparr>)"

text \<open>The labelled steps are the steps.\<close>

lemma lstep_step: "mpmc_lstep s l s' \<Longrightarrow> mpmc_step s s'"
  by (induction rule: mpmc_lstep.induct) (auto intro: mpmc_step.intros)

lemma is_call_phase: "is_call p \<Longrightarrow> \<exists>op. phase_of p = Called op"
  by (cases p) auto

lemma step_lstep: "mpmc_step s s' \<Longrightarrow> \<exists>l. mpmc_lstep s l s'"
proof (induction rule: mpmc_step.induct)
  case (call s i p)
  then show ?case using is_call_phase by (blast intro: mpmc_lstep.call)
qed (blast intro: mpmc_lstep.intros)+

lemma mpmc_steps_trace: "mpmc_step\<^sup>*\<^sup>* s s' \<Longrightarrow> \<exists>tr. run mpmc_lstep s tr s'"
  by (rule steps_run [where step = mpmc_step]) (auto intro: step_lstep)

lemma mpmc_run_steps: "run mpmc_lstep s tr s' \<Longrightarrow> mpmc_step\<^sup>*\<^sup>* s s'"
  by (induction rule: run.induct) (auto intro: lstep_step rtranclp.rtrancl_into_rtrancl)

subsection \<open>What a step of an operation is to the atomic queue\<close>

definition mpmc_abs :: "('d::zero, 'w::len word) mpmc_sys \<Rightarrow> 'd atomic_queue" where
  "mpmc_abs s = \<lparr>capacity = qsize (mq s), elements = drop (length (outs s)) (hist s),
     phase = (\<lambda>i. phase_of (threads s i))\<rparr>"

text \<open>
  A step from \<open>p\<close> to \<open>p'\<close> with label \<open>l\<close> that takes the elements from \<open>xs\<close> to \<open>xs'\<close> is silent,
  an effect, an effect and its return, or a return.
\<close>

inductive matches :: "nat \<Rightarrow> nat \<Rightarrow> 'd phase \<Rightarrow> 'd list \<Rightarrow> 'd action list \<Rightarrow> 'd phase \<Rightarrow> 'd list \<Rightarrow> bool" where
  silent: "matches c i p xs [] p xs"
| takes_effect: "applies c op xs r xs' \<Longrightarrow> matches c i (Called op) xs [] (Done r) xs'"
| answers: "applies c op xs r xs' \<Longrightarrow> matches c i (Called op) xs [Return i r] Resting xs'"
| returns: "matches c i (Done r) xs [Return i r] Resting xs"

lemma matches_run:
  assumes "matches (capacity a) i (phase a i) (elements a) l p xs"
  shows "run aq_step a l (a\<lparr>elements := xs, phase := (phase a)(i := p)\<rparr>)"
  using assms
proof cases
  case silent
  then show ?thesis by (simp add: run_nil)
next
  case (takes_effect op r)
  then show ?thesis using aq_step.effect [of a i op r xs] by (auto intro: run_single)
next
  case (answers op r)
  then show ?thesis using aq_answer [of a i op r xs] by auto
next
  case (returns r)
  then show ?thesis using aq_step.return [of a i r] by (auto intro: run_single)
qed

text \<open>The list of the elements before and after a step.\<close>

fun after_event :: "'d event \<Rightarrow> 'd list \<Rightarrow> 'd list" where
  "after_event (Enq d) xs = xs @ [d]"
| "after_event (Deq d) xs = tl xs"
| "after_event _ xs = xs"

lemma commit_abs:
  assumes "queue_ok (mq s) (hist s) (outs s)" and ok: "step_ok (mq s) (hist s) (outs s) (q, p, ev)"
  shows "mpmc_abs (commit i (q, p, ev) s) = (mpmc_abs s)
    \<lparr>elements := after_event ev (elements (mpmc_abs s)), phase := (phase (mpmc_abs s))(i := phase_of p)\<rparr>"
proof -
  have "qsize q = qsize (mq s)" "length (outs s) \<le> length (hist s)"
    using assms by (auto simp: step_ok_def queue_ok_def Let_def)
  then show ?thesis
    by (cases ev) (auto simp: commit_def mpmc_abs_def drop_Suc tl_drop)
qed

definition step_matches ::
  "nat \<Rightarrow> ('d::zero, 'w::len word) mpmc \<Rightarrow> 'd list \<Rightarrow> ('d, 'w word) pc \<Rightarrow>
   ('d, 'w word) mpmc \<times> ('d, 'w word) pc \<times> 'd event \<Rightarrow> bool" where
  "step_matches i q es p r \<longleftrightarrow> (case r of (q', p', ev) \<Rightarrow>
     matches (qsize q) i (phase_of p) es (return_label i q p p') (phase_of p') (after_event ev es))"

lemma step_matches_Tau:
  "phase_of p' = phase_of p \<Longrightarrow> (\<And>r. p' \<noteq> Returned r) \<Longrightarrow> step_matches i q es p (q', p', Tau)"
  using matches.silent by (cases p') (auto simp: step_matches_def)

lemma commit_run:
  assumes ok: "queue_ok (mq s) (hist s) (outs s)" "step_ok (mq s) (hist s) (outs s) r"
    and m: "step_matches i (mq s) (drop (length (outs s)) (hist s)) (threads s i) r"
  shows "run aq_step (mpmc_abs s) (step_label i r s) (mpmc_abs (commit i r s))"
proof -
  obtain q p ev where r: "r = (q, p, ev)" by (cases r)
  show ?thesis
    using matches_run [of "mpmc_abs s" i "step_label i r s" "phase_of p"
        "after_event ev (elements (mpmc_abs s))"] m commit_abs [OF ok(1), of q p ev i] ok(2)
    by (simp add: r step_matches_def step_label_def mpmc_abs_def)
qed

subsection \<open>The operations\<close>

lemma step_matches_same: "step_matches i q es p (q', p, Tau)"
  using matches.silent by (cases p) (auto simp: step_matches_def)

text \<open>A slot that answers with its ticket's full sequence number holds the oldest value.\<close>

lemma full_view:
  fixes q :: "('d::zero, 'w::len word) mpmc"
  assumes ok: "queue_ok q xs ys"
    and rd: "unat rd \<le> unat (read_index q)"
    and s: "unat (seq (array_get (array q) rd)) = 2 * unat rd + 1"
  shows "drop (length ys) xs = data (array_get (array q) rd) # drop (Suc (length ys)) xs"
proof -
  obtain j where j: "length ys \<le> j" "j < length ys + qsize q"
    and full: "j < length xs \<Longrightarrow> data (array_get (array q) rd) = xs ! j \<and>
      unat (seq (array_get (array q) rd)) = 2 * j + 1"
    and free: "length xs \<le> j \<Longrightarrow> unat (seq (array_get (array q) rd)) = 2 * j"
    using slot_view [OF ok, of rd] by metis
  have "unat rd \<le> length ys" using ok rd by (auto simp: queue_ok_def)
  moreover have "j < length xs" using free s by (cases "j < length xs") (simp, presburger)
  ultimately have "j = length ys" "length ys < length xs" using full s j by auto
  then show ?thesis using full by (simp add: Cons_nth_drop_Suc)
qed

lemmas applies_matches = matches.takes_effect matches.answers

lemma push_matches:
  fixes q :: "('d::zero, 'w::len word) mpmc"
  assumes ok: "queue_ok q xs ys" and w: "within TYPE('w) (length xs) (qsize q)"
    and p: "pc_ok (unat (write_index q)) (unat (read_index q)) (length xs) (length ys) p"
  shows "step_matches i q (drop (length ys) xs) p (push_step q p)"
proof -
  note st = push_step_ok [OF assms]
  have len: "length ys \<le> length xs" using ok by (simp add: queue_ok_def)
  show ?thesis
  proof (cases p)
    case (PushSeq d wr)
    have "applies (qsize q) (Push d) (drop (length ys) xs) Full (drop (length ys) xs)"
      if "snd (snd (push_step q p)) = FullSeen"
      using st that len by (auto simp: step_ok_def Let_def split: prod.splits intro: applies.push_full)
    then show ?thesis using PushSeq
      by (auto simp: Let_def step_matches_Tau) (auto simp: step_matches_def intro: matches.answers)
  next
    case (PushCas d wr)
    have "applies (qsize q) (Push d) (drop (length ys) xs) Pushed (drop (length ys) xs @ [d])"
      if "snd (snd (push_step q p)) = Enq d"
      using st that len by (auto simp: step_ok_def Let_def split: prod.splits intro: applies.push_room)
    then show ?thesis using PushCas
      by (auto simp: step_matches_Tau) (auto simp: step_matches_def intro: applies_matches)
  next
    case (PushAdv wr)
    then show ?thesis by (simp add: step_matches_def matches.returns)
  qed (simp_all add: step_matches_Tau step_matches_same)
qed

lemma seen_empty:
  assumes "step_ok q xs ys r" "snd (snd r) = EmptySeen"
  shows "drop (length ys) xs = []"
  using assms by (auto simp: step_ok_def Let_def split: prod.splits)

lemma pop_matches:
  fixes q :: "('d::zero, 'w::len word) mpmc"
  assumes ok: "queue_ok q xs ys" and w: "within TYPE('w) (length xs) (qsize q)"
    and p: "pc_ok (unat (write_index q)) (unat (read_index q)) (length xs) (length ys) p"
  shows "step_matches i q (drop (length ys) xs) p (pop_step q p)"
proof (cases p)
  case (PopEntry rd)
  then show ?thesis using seen_empty [OF pop_step_ok [OF assms]]
    by (auto simp: Let_def step_matches_Tau) (auto simp: step_matches_def intro: matches.answers applies.pop_none)
next
  case (PopCas rd e)
  have "applies (qsize q) Pop (drop (length ys) xs) (Popped (data e)) (tl (drop (length ys) xs))"
    if "array_get (array q) rd = e"
    using full_view [OF ok, of rd] p that PopCas by (auto intro: applies.pop_head)
  then show ?thesis using PopCas
    by (auto simp: step_matches_Tau) (auto simp: step_matches_def intro: applies_matches)
next
  case (PopAdv d rd)
  then show ?thesis by (simp add: step_matches_def matches.returns)
qed (simp_all add: step_matches_Tau step_matches_same)

lemma peek_matches:
  fixes q :: "('d::zero, 'w::len word) mpmc"
  assumes ok: "queue_ok q xs ys" and w: "within TYPE('w) (length xs) (qsize q)"
    and p: "pc_ok (unat (write_index q)) (unat (read_index q)) (length xs) (length ys) p"
  shows "step_matches i q (drop (length ys) xs) p (peek_step q p)"
proof (cases p)
  case (PeekEntry rd)
  have "applies (qsize q) Peek (drop (length ys) xs) (Peeked (data (array_get (array q) rd))) (drop (length ys) xs)"
    if "seq (array_get (array q) rd) = full_seq rd"
    using full_view [OF ok, of rd] read_view(1) [OF ok w, of rd, OF _ refl] p that PeekEntry
    by (auto intro: applies.peek_head)
  then show ?thesis using PeekEntry seen_empty [OF peek_step_ok [OF assms]]
    by (auto simp: Let_def step_matches_Tau) (auto simp: step_matches_def intro: matches.answers applies.peek_none)
qed (simp_all add: step_matches_Tau step_matches_same)

lemma pop_if_matches:
  fixes q :: "('d::zero, 'w::len word) mpmc"
  assumes ok: "queue_ok q xs ys" and w: "within TYPE('w) (length xs) (qsize q)"
    and p: "pc_ok (unat (write_index q)) (unat (read_index q)) (length xs) (length ys) p"
  shows "step_matches i q (drop (length ys) xs) p (pop_if_step f q p)"
proof (cases p)
  case (PopIfEntry rd)
  have "applies (qsize q) Pop_if (drop (length ys) xs) (Refused (data (array_get (array q) rd))) (drop (length ys) xs)"
    if "seq (array_get (array q) rd) = full_seq rd"
    using full_view [OF ok, of rd] read_view(1) [OF ok w, of rd, OF _ refl] p that PopIfEntry
    by (auto intro: applies.pop_if_refused)
  then show ?thesis using PopIfEntry seen_empty [OF pop_if_step_ok [OF assms, of f]]
    by (auto simp: Let_def step_matches_Tau) (auto simp: step_matches_def intro: matches.answers applies.pop_if_none)
next
  case (PopIfCas rd e)
  have "applies (qsize q) Pop_if (drop (length ys) xs) (Popped (data e)) (tl (drop (length ys) xs))"
    if "array_get (array q) rd = e"
    using full_view [OF ok, of rd] p that PopIfCas by (auto intro: applies.pop_if_head)
  then show ?thesis using PopIfCas
    by (auto simp: step_matches_Tau) (auto simp: step_matches_def intro: applies_matches)
qed (simp_all add: step_matches_Tau step_matches_same)

subsection \<open>The simulation\<close>

text \<open>The steps from states whose tickets are below the top bit of the index.\<close>

definition mpmc_bstep ::
  "('d::zero, 'w::len word) mpmc_sys \<Rightarrow> 'd action list \<Rightarrow> ('d, 'w word) mpmc_sys \<Rightarrow> bool" where
  "mpmc_bstep s l s' \<longleftrightarrow> mpmc_lstep s l s' \<and> within TYPE('w) (length (hist s)) (qsize (mq s))"

lemma bstep_abs:
  fixes s :: "('d::zero, 'w::len word) mpmc_sys"
  assumes good: "mpmc_good s" and st: "mpmc_bstep s l s'"
  shows "run aq_step (mpmc_abs s) l (mpmc_abs s')"
proof -
  have w: "within TYPE('w) (length (hist s)) (qsize (mq s))" and step: "mpmc_lstep s l s'"
    using st by (auto simp: mpmc_bstep_def)
  note g = mpmc_goodD [OF good]
  from step show ?thesis
  proof cases
    case (call i p op)
    have "phase_of (threads s i) = Resting" using call(3) by (cases "threads s i") auto
    then show ?thesis using aq_step.call [of "mpmc_abs s" i op] call
      by (auto simp: mpmc_abs_def fun_upd_def if_distrib cong: if_cong intro: run_single)
  next
    case (push r i)
    then show ?thesis using commit_run push_step_ok push_matches g w by metis
  next
    case (pop r i)
    then show ?thesis using commit_run pop_step_ok pop_matches g w by metis
  next
    case (peek r i)
    then show ?thesis using commit_run peek_step_ok peek_matches g w by metis
  next
    case (pop_if r f i)
    then show ?thesis using commit_run pop_if_step_ok pop_if_matches g w by metis
  next
    case (exchange k old new q)
    define j where "j = unat (full_seq k) div 2 - length (outs s)"
    have j: "j < length (elements (mpmc_abs s))" "elements (mpmc_abs s) ! j = old"
      "unat (full_seq k) div 2 = length (outs s) + j"
      using exchange_queue_ok [OF g(1) exchange(3)] by (auto simp: j_def mpmc_abs_def)
    have "qsize q = qsize (mq s)"
      using exchange(3) by (auto simp: mpmc_exchange_def array_set_def split: if_splits)
    then have "mpmc_abs s' = (mpmc_abs s)\<lparr>elements := (elements (mpmc_abs s))[j := new]\<rparr>"
      using exchange(2) j(3) by (simp add: mpmc_abs_def drop_update_swap)
    then show ?thesis using aq_step.exchange [OF j(1), of new] exchange(1) j(2)
      by (simp add: run_single)
  qed
qed

interpretation mpmc_trace: trace_refinement mpmc_good mpmc_bstep aq_step mpmc_abs
proof
  show "\<And>s l t. mpmc_good s \<Longrightarrow> mpmc_bstep s l t \<Longrightarrow> mpmc_good t"
    by (auto simp: mpmc_bstep_def intro: step_good lstep_step)
qed (rule bstep_abs)

text \<open>The tickets grow, so that a run that ends within the bound has been within it all along.\<close>

lemma lrun_within:
  fixes s :: "('d::zero, 'w::len word) mpmc_sys"
  shows "run mpmc_lstep s tr s' \<Longrightarrow> within TYPE('w) (length (hist s')) (qsize (mq s')) \<Longrightarrow>
    run mpmc_bstep s tr s' \<and> within TYPE('w) (length (hist s)) (qsize (mq s))"
proof (induction rule: run.induct)
  case (run_nil s)
  then show ?case by (simp add: run.run_nil)
next
  case (run_step s tr t l u)
  have "within TYPE('w) (length (hist t)) (qsize (mq t))"
    using step_hist_grows [OF lstep_step [OF run_step.hyps(2)]] run_step.prems
    by (auto simp: within_def)
  then show ?case using run_step by (auto simp: mpmc_bstep_def intro: run.run_step)
qed

end
