(* ===== verification/Mpmc_Theorems.thy ===== *)
theory Mpmc_Theorems
  imports Mpmc_Traces
begin

text \<open>
  What the invariant of \<open>Mpmc_Safety\<close> gives: the order of the values and the traces of the
  atomic queue for all interleavings, and the total correctness of each
  operation that runs alone, with the operations composed of them (\<open>push_keep_n\<close>,
  \<open>consume\<close>, the destructor).
\<close>

subsection \<open>The initial state\<close>

lemma power_of_two_mask:
  fixes n :: nat
  assumes "n AND (n - 1) = 0" "0 < n"
  shows "\<exists>m. n = 2 ^ m"
  using assms
proof (induction n rule: less_induct)
  case (less n)
  have r: "n AND (n - 1) = of_bool (odd n \<and> odd (n - 1)) + 2 * ((n div 2) AND ((n - 1) div 2))"
    by (rule and_rec)
  show ?case
  proof (cases "even n")
    case True
    then obtain k where k: "n = 2 * k" by blast
    then have "0 < k" "(n - 1) div 2 = k - 1" using less.prems(2) by auto
    with less.prems r k have "k AND (k - 1) = 0" by simp
    with less.IH [of k] k \<open>0 < k\<close> obtain m where "k = 2 ^ m" by auto
    then have "n = 2 ^ Suc m" using k by simp
    then show ?thesis by blast
  next
    case False
    then have d: "(n - 1) div 2 = n div 2" by (elim oddE) simp
    with less.prems r have "n div 2 = 0" by simp
    with False have "n = 2 ^ 0" using less.prems(2) by (elim oddE) simp
    then show ?thesis by blast
  qed
qed

lemma start_good:
  fixes s :: "('d::zero, 'w::len word) mpmc_sys"
  assumes st: "mpmc_start s" and w: "within TYPE('w) (length (hist s)) (qsize (mq s))"
  shows "mpmc_good s"
proof -
  obtain lpush lpop n where n: "0 < n" and new: "mpmc_new lpush lpop n = Some (mq s)"
    and rest: "\<And>i. threads s i = Idle" "hist s = []" "outs s = []"
    using st by (auto simp: mpmc_start_def)
  have q: "mq s = \<lparr>lazy_push = lpush, lazy_pop = lpop, write_index = 0, read_index = 0,
      array = map (\<lambda>i. entry_seq (push_bit 1 (word_of_nat i))) [0..<n]\<rparr>"
    and a: "n AND (n - 1) = 0"
    using new by (auto simp: mpmc_new_def split: if_splits)
  obtain m where m: "n = 2 ^ m" using power_of_two_mask [OF a n] by blast
  have "unat (push_bit 1 (word_of_nat j) :: 'w word) = 2 * j" if "j < n" for j
  proof -
    have "2 * j < 2 ^ LENGTH('w)"
      using w that half_le [where 'w = 'w] rest q by (simp add: within_def)
    then show ?thesis by (rule unat_push_bit_small)
  qed
  then have "slots_ok (array (mq s)) [] 0"
    by (simp add: slots_ok_def q entry_seq_def)
  then show ?thesis using q m rest by (simp add: mpmc_good_def queue_ok_def)
qed

interpretation mpmc: inductive_invariant mpmc_start mpmc_step mpmc_inv
proof
  show "\<And>s. mpmc_start s \<Longrightarrow> mpmc_inv s" by (simp add: mpmc_inv_def start_good)
qed (rule mpmc_inv_step)

text \<open>Every interleaving from the constructor has the trace of an atomic queue.\<close>

lemma start_abs: "mpmc_start s \<Longrightarrow> mpmc_abs s = empty_queue (qsize (mq s))"
  by (auto simp: mpmc_start_def mpmc_abs_def empty_queue_def)

lemma start_run_abs:
  fixes s s' :: "('d::zero, 'w::len word) mpmc_sys"
  assumes st: "mpmc_start s" and r: "run mpmc_lstep s tr s'"
    and w: "within TYPE('w) (length (hist s')) (qsize (mq s'))"
  shows "run aq_step (empty_queue (qsize (mq s))) tr (mpmc_abs s')"
proof -
  have "run mpmc_bstep s tr s'" "mpmc_good s" using lrun_within [OF r w] start_good [OF st] by auto
  then show ?thesis using mpmc_trace.run_abs by (metis start_abs [OF st])
qed

subsection \<open>One thread that runs alone\<close>

text \<open>
  \<open>solo st k q p\<close> runs the steps \<open>st\<close> of one call from \<open>p\<close> until it returns, at most \<open>k\<close> of
  them. Seven are enough for \<open>push\<close> and \<open>pop\<close>: one round of load, read and help, one round of
  load, read, exchange and advance.
\<close>

fun solo :: "(('d::zero, 'w::len word) mpmc \<Rightarrow> ('d, 'w word) pc \<Rightarrow> ('d, 'w word) mpmc \<times> ('d, 'w word) pc \<times> 'd event) \<Rightarrow>
    nat \<Rightarrow> ('d, 'w word) mpmc \<Rightarrow> ('d, 'w word) pc \<Rightarrow> (('d, 'w word) result \<times> ('d, 'w word) mpmc) option" where
  "solo st 0 q p = None"
| "solo st (Suc k) q p = (case st q p of
     (q', p', ev) \<Rightarrow> (case p' of Returned r \<Rightarrow> Some (r, q') | _ \<Rightarrow> solo st k q' p'))"

definition mpmc_push :: "'d \<Rightarrow> ('d::zero, 'w::len word) mpmc \<Rightarrow> (('d, 'w word) result \<times> ('d, 'w word) mpmc) option" where
  "mpmc_push d q = solo push_step 7 q (PushLoad d)"

definition mpmc_pop :: "('d::zero, 'w::len word) mpmc \<Rightarrow> (('d, 'w word) result \<times> ('d, 'w word) mpmc) option" where
  "mpmc_pop q = solo pop_step 7 q PopLoad"

text \<open>\<open>push_keep_n\<close> drops the oldest values until the new one fits; two rounds are enough.\<close>

fun push_keep_n :: "nat \<Rightarrow> 'd \<Rightarrow> ('d::zero, 'w::len word) mpmc \<Rightarrow> (('d, 'w word) result \<times> ('d, 'w word) mpmc) option" where
  "push_keep_n 0 d q = None"
| "push_keep_n (Suc k) d q = (case mpmc_push d q of
     Some (PushOk i, q') \<Rightarrow> Some (PushOk i, q')
   | Some (_, q') \<Rightarrow> (case mpmc_pop q' of Some (_, q'') \<Rightarrow> push_keep_n k d q'' | None \<Rightarrow> None)
   | None \<Rightarrow> None)"

text \<open>
  \<open>consume\<close>: pop and hand each value to the callback until it answers true or the queue is
  empty; the answer counts the values popped. The callback's effects are its accumulator. The
  destructor is \<open>consume\<close> with a callback that never answers true.
\<close>

fun mpmc_consume :: "('d \<Rightarrow> 'w word \<Rightarrow> 'c \<Rightarrow> bool \<times> 'c) \<Rightarrow> nat \<Rightarrow> 'c \<Rightarrow> ('d::zero, 'w::len word) mpmc \<Rightarrow>
    (nat \<times> 'c \<times> ('d, 'w word) mpmc) option" where
  "mpmc_consume f 0 c q = None"
| "mpmc_consume f (Suc k) c q = (case mpmc_pop q of
     Some (PopOk v i, q') \<Rightarrow> (case f v i c of (stop, c') \<Rightarrow>
        if stop then Some (1, c', q')
        else map_option (\<lambda>(r, c'', q''). (Suc r, c'', q'')) (mpmc_consume f k c' q'))
   | Some (_, q') \<Rightarrow> Some (0, c, q')
   | None \<Rightarrow> None)"

definition mpmc_destroy :: "nat \<Rightarrow> ('d::zero, 'w::len word) mpmc \<Rightarrow> (nat \<times> unit \<times> ('d, 'w word) mpmc) option" where
  "mpmc_destroy k q = mpmc_consume (\<lambda>v i c. (False, c)) k () q"

lemma mpmc_entry_eqI:
  "data (e :: ('d, 'i) entry) = data e' \<Longrightarrow> seq e = seq e' \<Longrightarrow> e = e'"
  by simp

text \<open>What the slot at the write index and at the read index holds.\<close>

lemma index_views:
  fixes q :: "('d::zero, 'w::len word) mpmc"
  assumes ok: "queue_ok q xs ys" and w: "within TYPE('w) (length xs) (qsize q)"
    and x: "unat x \<le> length xs" "length ys \<le> Suc (unat x)"
  shows "length ys \<le> unat x \<Longrightarrow> unat x < length xs \<Longrightarrow>
      seq (array_get (array q) x) = full_seq x \<and> data (array_get (array q) x) = xs ! unat x"
    and "unat x = length xs \<Longrightarrow> length xs < length ys + qsize q \<Longrightarrow>
      array_get (array q) x = entry_seq (empty_seq x)"
    and "unat x = length xs \<Longrightarrow> length xs = length ys + qsize q \<Longrightarrow>
      seq (array_get (array q) x) + push_bit 1 (word_of_nat (qsize q)) = full_seq x
      \<and> unat (seq (array_get (array q) x)) = 2 * length ys + 1"
    and "Suc (unat x) = length ys \<Longrightarrow>
      seq (array_get (array q) x) = empty_seq (x + word_of_nat (qsize q)) \<or>
      seq (array_get (array q) x) = full_seq (x + word_of_nat (qsize q))"
proof -
  have lens: "length xs \<le> length ys + qsize q" "length ys \<le> length xs" and n: "0 < qsize q"
    using ok by (auto simp: queue_ok_def)
  note b = bound_words [OF w ok x(1)]
  obtain j where j: "length ys \<le> j" "j < length ys + qsize q" "j mod qsize q = unat x mod qsize q"
    and full: "j < length xs \<Longrightarrow> data (array_get (array q) x) = xs ! j \<and>
       unat (seq (array_get (array q) x)) = 2 * j + 1"
    and free: "length xs \<le> j \<Longrightarrow> data (array_get (array q) x) = 0 \<and>
       unat (seq (array_get (array q) x)) = 2 * j"
    using slot_view [OF ok, of x] by metis
  have e: "unat (empty_seq x) = 2 * unat x" "unat (full_seq x) = 2 * unat x + 1"
    "unat (empty_seq (x + word_of_nat (qsize q))) = 2 * (unat x + qsize q)"
    "unat (full_seq (x + word_of_nat (qsize q))) = 2 * (unat x + qsize q) + 1"
    using b unat_empty_seq [of x] unat_full_seq [of x] unat_empty_seq [of "x + word_of_nat (qsize q)"]
      unat_full_seq [of "x + word_of_nat (qsize q)"]
    by simp_all
  have same: "j = unat x" if "length ys \<le> unat x" "unat x < length ys + qsize q"
    using ticket_inj [OF j(1,2) that j(3)] .
  show "seq (array_get (array q) x) = full_seq x \<and> data (array_get (array q) x) = xs ! unat x"
    if "length ys \<le> unat x" "unat x < length xs"
    using same that lens full e by (auto simp: word_unat_eq_iff)
  show "array_get (array q) x = entry_seq (empty_seq x)"
    if "unat x = length xs" "length xs < length ys + qsize q"
    using same that lens free e
    by (auto simp: entry_seq_def word_unat_eq_iff intro!: mpmc_entry_eqI)
  show "seq (array_get (array q) x) + push_bit 1 (word_of_nat (qsize q)) = full_seq x
      \<and> unat (seq (array_get (array q) x)) = 2 * length ys + 1"
    if "unat x = length xs" "length xs = length ys + qsize q"
  proof -
    have "length ys mod qsize q = unat x mod qsize q" using that by simp
    then have "j = length ys"
      using ticket_inj [OF j(1,2), of "length ys"] j(3) n by simp
    then have s: "unat (seq (array_get (array q) x)) = 2 * length ys + 1" using full that n by simp
    have "unat (push_bit 1 (word_of_nat (qsize q)) :: 'w word) = 2 * qsize q"
      using b(4) by (rule unat_push_bit_small)
    moreover have "2 * length ys + 1 + 2 * qsize q < 2 ^ LENGTH('w)"
      using w that half_le [where 'w = 'w] n unfolding within_def by linarith
    ultimately have "unat (seq (array_get (array q) x) + push_bit 1 (word_of_nat (qsize q))) =
        2 * unat x + 1"
      using s that unat_add_lem [of "seq (array_get (array q) x)" "push_bit 1 (word_of_nat (qsize q))"]
      by simp
    then show ?thesis using s e by (simp add: word_unat_eq_iff)
  qed
  show "seq (array_get (array q) x) = empty_seq (x + word_of_nat (qsize q)) \<or>
      seq (array_get (array q) x) = full_seq (x + word_of_nat (qsize q))"
    if "Suc (unat x) = length ys"
  proof -
    have "(unat x + qsize q) mod qsize q = unat x mod qsize q" by simp
    then have "j = unat x + qsize q"
      using ticket_inj [OF j(1,2), of "unat x + qsize q"] j(3) that n by simp
    then show ?thesis using full free e by (cases "j < length xs") (simp_all add: word_unat_eq_iff)
  qed
qed

lemma within_less: "within TYPE('w::len) (Suc h) n \<Longrightarrow> within TYPE('w) h n"
  by (simp add: within_def)

lemma step_okD:
  assumes "step_ok q xs ys (q', p, ev)"
  shows "queue_ok q' (case ev of Enq d \<Rightarrow> xs @ [d] | _ \<Rightarrow> xs) (case ev of Deq d \<Rightarrow> ys @ [d] | _ \<Rightarrow> ys)"
    and "qsize q' = qsize q"
  using assms by (simp_all add: step_ok_def Let_def split: event.splits)

lemma push_behind:
  fixes q :: "('d::zero, 'w::len word) mpmc"
  assumes ok: "queue_ok q xs ys" and w: "within TYPE('w) (length xs) (qsize q)"
    and wi: "Suc (unat (write_index q)) = length xs"
  shows "push_step q (PushSeq d (write_index q)) = (q, PushHelp d (write_index q), Tau)"
    and "unat (write_index (cas_write_index (write_index q) q)) = length xs"
    and "queue_ok (cas_write_index (write_index q) q) xs ys"
proof -
  let ?wr = "write_index q"
  have lens: "length ys \<le> length xs" "unat ?wr \<le> length xs" "length ys \<le> Suc (unat ?wr)" and n: "0 < qsize q"
    using ok wi by (auto simp: queue_ok_def)
  note b = bound_words [OF w ok lens(2)]
  have e: "unat (empty_seq ?wr) = 2 * unat ?wr" "unat (full_seq ?wr) = 2 * unat ?wr + 1"
    "unat (empty_seq (?wr + word_of_nat (qsize q))) = 2 * (unat ?wr + qsize q)"
    using b unat_empty_seq [of ?wr] unat_full_seq [of ?wr] unat_empty_seq [of "?wr + word_of_nat (qsize q)"]
    by simp_all
  have "seq (array_get (array q) ?wr) = full_seq ?wr \<or>
      seq (array_get (array q) ?wr) = empty_seq (?wr + word_of_nat (qsize q))"
  proof (cases "length ys \<le> unat ?wr")
    case True
    then show ?thesis using index_views(1) [OF ok w lens(2,3)] wi by simp
  next
    case False
    then have "Suc (unat ?wr) = length ys" "xs = ys" using lens wi ok by (auto simp: queue_ok_def)
    obtain j where "length ys \<le> j"
      "unat (seq (array_get (array q) ?wr)) = (if j < length xs then 2 * j + 1 else 2 * j)"
      using slot_seq_view [OF ok] by metis
    then have "even (unat (seq (array_get (array q) ?wr)))" using \<open>xs = ys\<close> by simp
    then have "seq (array_get (array q) ?wr) \<noteq> full_seq (?wr + word_of_nat (qsize q))"
      using odd_full_seq [of "?wr + word_of_nat (qsize q)"] by auto
    then show ?thesis using index_views(4) [OF ok w lens(2,3)] \<open>Suc (unat ?wr) = length ys\<close> by blast
  qed
  moreover have "empty_seq ?wr \<noteq> full_seq ?wr" "empty_seq ?wr \<noteq> empty_seq (?wr + word_of_nat (qsize q))"
    using e n by (auto dest: arg_cong [of _ _ unat])
  ultimately show "push_step q (PushSeq d ?wr) = (q, PushHelp d ?wr, Tau)"
    by (auto simp: Let_def)
  have "unat (?wr + 1) = unat ?wr + 1"
    using b half_le [where 'w = 'w] unat_add_small [of ?wr 1] by simp
  then show "unat (write_index (cas_write_index ?wr q)) = length xs"
    "queue_ok (cas_write_index ?wr q) xs ys"
    using wi ok by (simp_all add: cas_write_index_def queue_ok_def)
qed

lemma four_steps: "4 \<le> k \<longleftrightarrow> (\<exists>i. k = Suc (Suc (Suc (Suc i))))"
  by (auto simp: numeral_eq_Suc nat_le_iff_add)

lemma push_at_head:
  fixes q :: "('d::zero, 'w::len word) mpmc"
  assumes ok: "queue_ok q xs ys" and w: "within TYPE('w) (Suc (length xs)) (qsize q)"
    and wi: "unat (write_index q) = length xs"
  shows "length xs < length ys + qsize q \<Longrightarrow>
      \<exists>q'. (\<forall>k\<ge>4. solo push_step k q (PushLoad d) = Some (PushOk (write_index q), q')) \<and>
        queue_ok q' (xs @ [d]) ys \<and> qsize q' = qsize q"
    and "length xs = length ys + qsize q \<Longrightarrow> 2 \<le> k \<Longrightarrow>
      solo push_step k q (PushLoad d) = Some (PushFull, q)"
proof -
  let ?wr = "write_index q"
  note w' = within_less [OF w]
  have lens: "length ys \<le> length xs" "unat ?wr \<le> length xs" "length ys \<le> Suc (unat ?wr)" and n: "0 < qsize q"
    using ok wi by (auto simp: queue_ok_def)
  note b = bound_words [OF w' ok lens(2)]
  have e: "unat (empty_seq ?wr) = 2 * unat ?wr" "unat (full_seq ?wr) = 2 * unat ?wr + 1"
    "unat (empty_seq (?wr + word_of_nat (qsize q))) = 2 * (unat ?wr + qsize q)"
    using b unat_empty_seq [of ?wr] unat_full_seq [of ?wr] unat_empty_seq [of "?wr + word_of_nat (qsize q)"]
    by simp_all
  show "\<exists>q'. (\<forall>k\<ge>4. solo push_step k q (PushLoad d) = Some (PushOk ?wr, q')) \<and>
      queue_ok q' (xs @ [d]) ys \<and> qsize q' = qsize q" if room: "length xs < length ys + qsize q"
  proof -
    have v: "array_get (array q) ?wr = entry_seq (empty_seq ?wr)"
      using index_views(2) [OF ok w' lens(2,3) wi room] .
    define q1 where "q1 = q\<lparr>array := array_set (array q) ?wr (entry_set (full_seq ?wr) d)\<rparr>"
    have "step_ok q xs ys (push_step q (PushCas d ?wr))"
      using push_cas_ok [OF ok w', of ?wr] by simp
    then have s: "step_ok q xs ys (q1, (if lazy_push q then Returned (PushOk ?wr) else PushAdv ?wr), Enq d)"
      using v by (simp add: q1_def)
    have ok1: "queue_ok q1 (xs @ [d]) ys" "qsize q1 = qsize q"
      using step_okD [OF s] by simp_all
    have "step_ok q1 (xs @ [d]) ys (cas_write_index ?wr q1, Returned (PushOk ?wr), Tau)"
      using cas_write_index_ok [OF ok1(1), of ?wr] w wi ok1(2) by simp
    then have ok2: "queue_ok (cas_write_index ?wr q1) (xs @ [d]) ys" "qsize (cas_write_index ?wr q1) = qsize q"
      using step_okD ok1 by fastforce+
    have l: "lazy_push q1 = lazy_push q" by (simp add: q1_def)
    show ?thesis
      using ok1 ok2 v
      by (intro exI [of _ "if lazy_push q then q1 else cas_write_index ?wr q1"])
        (auto simp: Let_def q1_def entry_seq_def four_steps)
  qed
  show "solo push_step k q (PushLoad d) = Some (PushFull, q)"
    if full: "length xs = length ys + qsize q" "2 \<le> k"
  proof -
    let ?s = "seq (array_get (array q) ?wr)"
    have s: "?s + push_bit 1 (word_of_nat (qsize q)) = full_seq ?wr" "unat ?s = 2 * length ys + 1"
      using index_views(3) [OF ok w' lens(2,3) wi full(1)] by simp_all
    have "?s \<noteq> empty_seq ?wr" "?s \<noteq> empty_seq (?wr + word_of_nat (qsize q))"
    proof -
      have "odd (unat ?s)" using s by simp
      then show "?s \<noteq> empty_seq ?wr" "?s \<noteq> empty_seq (?wr + word_of_nat (qsize q))"
        using e by auto
    qed
    moreover have "?s \<noteq> full_seq ?wr" using s(2) e wi full(1) n by auto
    moreover obtain i where "k = Suc (Suc i)" using full(2) by (metis add_2_eq_Suc le_Suc_ex)
    ultimately show ?thesis using s(1) by (simp add: Let_def)
  qed
qed

lemma queue_ok_empty: "queue_ok q xs ys \<Longrightarrow> \<not> length ys < length xs \<Longrightarrow> xs = ys"
  unfolding queue_ok_def by (metis not_le_imp_less take_all)

lemma pop_behind:
  fixes q :: "('d::zero, 'w::len word) mpmc"
  assumes ok: "queue_ok q xs ys" and w: "within TYPE('w) (length xs) (qsize q)"
    and ri: "Suc (unat (read_index q)) = length ys"
  shows "pop_step q (PopEntry (read_index q)) = (q, PopHelp (read_index q), Tau)"
    and "unat (read_index (cas_read_index (read_index q) q)) = length ys"
    and "queue_ok (cas_read_index (read_index q) q) xs ys"
proof -
  let ?rd = "read_index q" and ?s = "seq (array_get (array q) (read_index q))"
  have lens: "unat ?rd \<le> length xs" "length ys \<le> Suc (unat ?rd)" and n: "0 < qsize q"
    using ok ri by (auto simp: queue_ok_def)
  note b = bound_words [OF w ok lens(1)]
  have e: "unat (empty_seq ?rd) = 2 * unat ?rd" "unat (full_seq ?rd) = 2 * unat ?rd + 1"
    "unat (empty_seq (?rd + word_of_nat (qsize q))) = 2 * (unat ?rd + qsize q)"
    "unat (full_seq (?rd + word_of_nat (qsize q))) = 2 * (unat ?rd + qsize q) + 1"
    using b unat_empty_seq [of ?rd] unat_full_seq [of ?rd] unat_empty_seq [of "?rd + word_of_nat (qsize q)"]
      unat_full_seq [of "?rd + word_of_nat (qsize q)"]
    by simp_all
  have c: "?s = empty_seq (?rd + word_of_nat (qsize q)) \<or> ?s = full_seq (?rd + word_of_nat (qsize q))"
    using index_views(4) [OF ok w lens ri] .
  then have "?s \<noteq> full_seq ?rd" using e n by (auto dest: arg_cong [of _ _ unat])
  moreover have "?s OR 1 = full_seq (?rd + word_of_nat (qsize q))"
    using c e seq_or_1 [of ?s] by (auto simp: word_unat_eq_iff)
  ultimately show "pop_step q (PopEntry ?rd) = (q, PopHelp ?rd, Tau)"
    by (simp add: Let_def)
  have "unat (?rd + 1) = unat ?rd + 1"
    using b half_le [where 'w = 'w] unat_add_small [of ?rd 1] by simp
  then show "unat (read_index (cas_read_index ?rd q)) = length ys"
    "queue_ok (cas_read_index ?rd q) xs ys"
    using ri ok by (simp_all add: cas_read_index_def queue_ok_def)
qed

lemma pop_at_tail:
  fixes q :: "('d::zero, 'w::len word) mpmc"
  assumes ok: "queue_ok q xs ys" and w: "within TYPE('w) (length xs) (qsize q)"
    and ri: "unat (read_index q) = length ys"
  shows "length ys < length xs \<Longrightarrow>
      \<exists>q'. (\<forall>k\<ge>4. solo pop_step k q PopLoad = Some (PopOk (xs ! length ys) (read_index q), q')) \<and>
        queue_ok q' xs (ys @ [xs ! length ys]) \<and> qsize q' = qsize q"
    and "xs = ys \<Longrightarrow> 2 \<le> k \<Longrightarrow> solo pop_step k q PopLoad = Some (PopEmpty, q)"
proof -
  let ?rd = "read_index q"
  define e where "e = array_get (array q) ?rd"
  have lens: "unat ?rd \<le> length xs" "length ys \<le> Suc (unat ?rd)" and n: "0 < qsize q"
    using ok ri by (auto simp: queue_ok_def)
  note b = bound_words [OF w ok lens(1)]
  have u: "unat (empty_seq ?rd) = 2 * unat ?rd" "unat (full_seq ?rd) = 2 * unat ?rd + 1"
    "unat (full_seq (?rd + word_of_nat (qsize q))) = 2 * (unat ?rd + qsize q) + 1"
    using b unat_empty_seq [of ?rd] unat_full_seq [of ?rd] unat_full_seq [of "?rd + word_of_nat (qsize q)"]
    by simp_all
  show "\<exists>q'. (\<forall>k\<ge>4. solo pop_step k q PopLoad = Some (PopOk (xs ! length ys) ?rd, q')) \<and>
      queue_ok q' xs (ys @ [xs ! length ys]) \<and> qsize q' = qsize q" if some: "length ys < length xs"
  proof -
    have v: "seq e = full_seq ?rd" "data e = xs ! length ys"
      using index_views(1) [OF ok w lens] ri some by (simp_all add: e_def)
    define q1 where "q1 = q\<lparr>array := array_set (array q) ?rd (entry_seq (empty_seq (?rd + word_of_nat (qsize q))))\<rparr>"
    have "step_ok q xs ys (pop_step q (PopCas ?rd e))"
      using pop_step_ok [OF ok w, of "PopCas ?rd e"] v u by simp
    then have s: "step_ok q xs ys (q1, (if lazy_pop q then Returned (PopOk (data e) ?rd) else PopAdv (data e) ?rd), Deq (data e))"
      by (simp add: q1_def e_def cong: if_cong split del: if_split)
    have ok1: "queue_ok q1 xs (ys @ [xs ! length ys])" "qsize q1 = qsize q"
      using step_okD [OF s] v by simp_all
    have "step_ok q1 xs (ys @ [xs ! length ys]) (cas_read_index ?rd q1, Returned (PopOk (data e) ?rd), Tau)"
      using cas_read_index_ok [OF ok1(1), of ?rd] w ri ok1(2) by simp
    then have ok2: "queue_ok (cas_read_index ?rd q1) xs (ys @ [xs ! length ys])" "qsize (cas_read_index ?rd q1) = qsize q"
      using step_okD ok1 by fastforce+
    show ?thesis
      using ok1 ok2 v
      by (intro exI [of _ "if lazy_pop q then q1 else cas_read_index ?rd q1"])
        (auto simp: Let_def q1_def e_def four_steps)
  qed
  show "solo pop_step k q PopLoad = Some (PopEmpty, q)" if emp: "xs = ys" and k2: "2 \<le> k"
  proof -
    have "e = entry_seq (empty_seq ?rd)"
      using index_views(2) [OF ok w lens] ri emp n by (simp add: e_def)
    then have s: "seq e = empty_seq ?rd" by (simp add: entry_seq_def)
    moreover have "empty_seq ?rd \<noteq> full_seq ?rd" using u by (auto dest: arg_cong [of _ _ unat])
    moreover have "empty_seq ?rd OR 1 \<noteq> full_seq (?rd + word_of_nat (qsize q))"
      using u seq_or_1 [of "empty_seq ?rd"] n by (auto dest: arg_cong [of _ _ unat])
    moreover obtain i where "k = Suc (Suc i)" using k2 by (metis add_2_eq_Suc le_Suc_ex)
    ultimately show ?thesis by (simp add: Let_def e_def)
  qed
qed

text \<open>
  A \<open>push\<close> that runs alone returns within seven steps: true, with the value
  behind those stored, when there is room, and false, with the queue unchanged up to the
  helped write index, when there is none.
\<close>

lemma push_alone:
  fixes q :: "('d::zero, 'w::len word) mpmc"
  assumes ok: "queue_ok q xs ys" and w: "within TYPE('w) (Suc (length xs)) (qsize q)"
  shows "\<exists>q'. qsize q' = qsize q \<and>
    (if length xs < length ys + qsize q
     then mpmc_push d q = Some (PushOk (word_of_nat (length xs)), q') \<and> queue_ok q' (xs @ [d]) ys
     else mpmc_push d q = Some (PushFull, q') \<and> queue_ok q' xs ys)"
proof -
  have settled: "\<exists>q'. qsize q' = qsize p \<and>
      (if length xs < length ys + qsize p
       then solo push_step k p (PushLoad d) = Some (PushOk (word_of_nat (length xs)), q') \<and> queue_ok q' (xs @ [d]) ys
       else solo push_step k p (PushLoad d) = Some (PushFull, q') \<and> queue_ok q' xs ys)"
    if p: "queue_ok p xs ys" "qsize p = qsize q" "unat (write_index p) = length xs" "4 \<le> k" for p :: "('d, 'w word) mpmc" and k
  proof (cases "length xs < length ys + qsize p")
    case True
    have "write_index p = word_of_nat (length xs)" by (simp flip: p(3))
    with True show ?thesis using push_at_head(1) [OF p(1) _ p(3), of d] p(2,4) w by auto
  next
    case False
    then have "length xs = length ys + qsize p" using p(1) by (auto simp: queue_ok_def)
    with False show ?thesis using push_at_head(2) [OF p(1) _ p(3), of k] p w by simp
  qed
  show ?thesis
  proof (cases "unat (write_index q) = length xs")
    case True
    then show ?thesis using settled [OF ok refl, of 7] by (simp add: mpmc_push_def cong: if_cong split del: if_split)
  next
    case False
    then have b: "Suc (unat (write_index q)) = length xs" using ok by (auto simp: queue_ok_def)
    let ?p = "cas_write_index (write_index q) q"
    note h = push_behind [OF ok within_less [OF w] b]
    have "mpmc_push d q = solo push_step 4 ?p (PushLoad d)"
      using h(1) [of d] unfolding mpmc_push_def by (simp add: eval_nat_numeral del: push_step.simps(2))
    moreover have "qsize ?p = qsize q" by (simp add: cas_write_index_def)
    ultimately show ?thesis using settled [OF h(3) _ h(2), of 4] by (simp cong: if_cong split del: if_split)
  qed
qed

text \<open>
  A \<open>pop\<close> that runs alone returns within seven steps: the oldest value stored
  when there is one, and false when the queue is empty.
\<close>

lemma pop_alone:
  fixes q :: "('d::zero, 'w::len word) mpmc"
  assumes ok: "queue_ok q xs ys" and w: "within TYPE('w) (length xs) (qsize q)"
  shows "\<exists>q'. qsize q' = qsize q \<and>
    (if length ys < length xs
     then mpmc_pop q = Some (PopOk (xs ! length ys) (word_of_nat (length ys)), q') \<and>
       queue_ok q' xs (ys @ [xs ! length ys])
     else mpmc_pop q = Some (PopEmpty, q') \<and> queue_ok q' xs ys)"
proof -
  have settled: "\<exists>q'. qsize q' = qsize p \<and>
      (if length ys < length xs
       then solo pop_step k p PopLoad = Some (PopOk (xs ! length ys) (word_of_nat (length ys)), q') \<and>
         queue_ok q' xs (ys @ [xs ! length ys])
       else solo pop_step k p PopLoad = Some (PopEmpty, q') \<and> queue_ok q' xs ys)"
    if p: "queue_ok p xs ys" "qsize p = qsize q" "unat (read_index p) = length ys" "4 \<le> k" for p :: "('d, 'w word) mpmc" and k
  proof (cases "length ys < length xs")
    case True
    have "read_index p = word_of_nat (length ys)" by (simp flip: p(3))
    from True obtain q' where "\<forall>k\<ge>4. solo pop_step k p PopLoad = Some (PopOk (xs ! length ys) (read_index p), q')"
      "queue_ok q' xs (ys @ [xs ! length ys])" "qsize q' = qsize p"
      using pop_at_tail(1) [OF p(1) _ p(3)] p(2) w by auto
    then show ?thesis using True p(4) \<open>read_index p = word_of_nat (length ys)\<close> by (intro exI [of _ q']) simp
  next
    case False
    then have "xs = ys" using queue_ok_empty [OF p(1)] by simp
    then have "solo pop_step k p PopLoad = Some (PopEmpty, p)"
      using pop_at_tail(2) [OF p(1) _ p(3) _ , of k] p(2,4) w by simp
    then show ?thesis using False p(1) by (intro exI [of _ p]) simp
  qed
  show ?thesis
  proof (cases "unat (read_index q) = length ys")
    case True
    then show ?thesis using settled [OF ok refl, of 7] by (simp add: mpmc_pop_def cong: if_cong split del: if_split)
  next
    case False
    then have b: "Suc (unat (read_index q)) = length ys" using ok by (auto simp: queue_ok_def)
    let ?p = "cas_read_index (read_index q) q"
    note h = pop_behind [OF ok w b]
    have "mpmc_pop q = solo pop_step 4 ?p PopLoad"
      using h(1) unfolding mpmc_pop_def by (simp add: eval_nat_numeral del: pop_step.simps(2))
    moreover have "qsize ?p = qsize q" by (simp add: cas_read_index_def)
    ultimately show ?thesis using settled [OF h(3) _ h(2), of 4] by (simp cong: if_cong split del: if_split)
  qed
qed

text \<open>\<open>consume\<close> and the destructor hand over every value, oldest first.\<close>

definition collect :: "'d \<Rightarrow> 'w word \<Rightarrow> 'd list \<Rightarrow> bool \<times> 'd list" where
  "collect v i c = (False, c @ [v])"

lemma pop_alone_some:
  fixes q :: "('d::zero, 'w::len word) mpmc"
  assumes "queue_ok q xs ys" "within TYPE('w) (length xs) (qsize q)" "length ys < length xs"
  obtains q' where "mpmc_pop q = Some (PopOk (xs ! length ys) (word_of_nat (length ys)), q')"
    "queue_ok q' xs (ys @ [xs ! length ys])" "qsize q' = qsize q"
  using pop_alone [OF assms(1,2)] assms(3) by auto

lemma pop_alone_none:
  fixes q :: "('d::zero, 'w::len word) mpmc"
  assumes "queue_ok q xs ys" "within TYPE('w) (length xs) (qsize q)" "\<not> length ys < length xs"
  obtains q' where "mpmc_pop q = Some (PopEmpty, q')" "queue_ok q' xs ys" "qsize q' = qsize q"
  using pop_alone [OF assms(1,2)] assms(3) by auto

lemma consume_run:
  fixes q :: "('d::zero, 'w::len word) mpmc"
  assumes "queue_ok q xs ys" "within TYPE('w) (length xs) (qsize q)"
    and "length xs - length ys < k"
  shows "\<exists>q'. mpmc_consume (\<lambda>v i c. (False, g v c)) k c q =
      Some (length xs - length ys, fold g (drop (length ys) xs) c, q') \<and> queue_ok q' xs xs"
  using assms(1-3)
proof (induction k arbitrary: q ys c)
  case 0
  then show ?case by simp
next
  case (Suc k)
  show ?case
  proof (cases "length ys < length xs")
    case True
    obtain q' where q': "mpmc_pop q = Some (PopOk (xs ! length ys) (word_of_nat (length ys)), q')"
      "queue_ok q' xs (ys @ [xs ! length ys])" "qsize q' = qsize q"
      using pop_alone_some [OF Suc.prems(1,2) True] .
    have "\<exists>q''. mpmc_consume (\<lambda>v i c. (False, g v c)) k (g (xs ! length ys) c) q' =
        Some (length xs - Suc (length ys), fold g (drop (Suc (length ys)) xs) (g (xs ! length ys) c), q'') \<and>
        queue_ok q'' xs xs"
      using Suc.IH [OF q'(2), of "g (xs ! length ys) c"] Suc.prems q'(3) True by simp
    then obtain q'' where "mpmc_consume (\<lambda>v i c. (False, g v c)) k (g (xs ! length ys) c) q' =
        Some (length xs - Suc (length ys), fold g (drop (Suc (length ys)) xs) (g (xs ! length ys) c), q'')"
      "queue_ok q'' xs xs" by blast
    moreover have "drop (length ys) xs = xs ! length ys # drop (Suc (length ys)) xs"
      using True by (simp add: Cons_nth_drop_Suc)
    ultimately show ?thesis using q'(1) True by (intro exI [of _ q'']) simp
  next
    case False
    obtain q' where q': "mpmc_pop q = Some (PopEmpty, q')" "queue_ok q' xs ys"
      using pop_alone_none [OF Suc.prems(1,2) False] by blast
    have e: "ys = xs" using queue_ok_empty [OF Suc.prems(1) False] by simp
    then show ?thesis using q'(2) by (intro exI [of _ q']) (simp add: q'(1))
  qed
qed

lemma keep_n_run:
  fixes q :: "('d::zero, 'w::len word) mpmc"
  assumes ok: "queue_ok q xs ys" and w: "within TYPE('w) (Suc (length xs)) (qsize q)"
  shows "\<exists>q' ys'. push_keep_n 2 d q = Some (PushOk (word_of_nat (length xs)), q') \<and>
    queue_ok q' (xs @ [d]) ys' \<and> qsize q' = qsize q \<and>
    ys' = (if length xs < length ys + qsize q then ys else ys @ [xs ! length ys])"
proof (cases "length xs < length ys + qsize q")
  case True
  then show ?thesis using push_alone [OF ok w, of d] by (auto simp: eval_nat_numeral)
next
  case False
  have n: "0 < qsize q" using ok by (auto simp: queue_ok_def)
  obtain p where p: "mpmc_push d q = Some (PushFull, p)" "queue_ok p xs ys" "qsize p = qsize q"
    using push_alone [OF ok w, of d] False by auto
  have some: "length ys < length xs" using False n by linarith
  obtain p' where p': "mpmc_pop p = Some (PopOk (xs ! length ys) (word_of_nat (length ys)), p')"
      "queue_ok p' xs (ys @ [xs ! length ys])" "qsize p' = qsize p"
    using pop_alone_some [OF p(2) _ some] within_less [OF w] p(3) by metis
  have "length xs \<le> length ys + qsize q" using ok by (simp add: queue_ok_def)
  then have "length xs < length (ys @ [xs ! length ys]) + qsize p'" using p p' by simp
  then obtain r where "mpmc_push d p' = Some (PushOk (word_of_nat (length xs)), r)"
      "queue_ok r (xs @ [d]) (ys @ [xs ! length ys])" "qsize r = qsize p'"
    using push_alone [OF p'(2), of d] w p(3) p'(3) by auto
  then show ?thesis using p p' False by (auto simp: eval_nat_numeral)
qed

subsection \<open>The size reported\<close>

lemma size_bound:
  fixes q :: "('d::zero, 'w::len word) mpmc"
  assumes ok: "queue_ok q xs ys" and w: "within TYPE('w) (length xs) (qsize q)" and l: "LENGTH('w) \<le> 64"
  shows "unat (mpmc_size q) \<le> Suc (length xs - length ys) \<and> length xs - length ys \<le> Suc (unat (mpmc_size q))
    \<and> (unat (write_index q) = length xs \<and> unat (read_index q) = length ys
       \<longrightarrow> unat (mpmc_size q) = length xs - length ys)"
proof -
  let ?wi = "write_index q" and ?ri = "read_index q"
  have lens: "unat ?ri \<le> length xs" "length ys \<le> Suc (unat ?ri)" and n: "0 < qsize q"
    and wi: "unat ?wi \<le> length xs" "length xs \<le> Suc (unat ?wi)"
    and ri: "unat ?ri \<le> length ys" "length ys \<le> length xs"
    using ok by (auto simp: queue_ok_def)
  note b = bound_words [OF w ok lens(1)]
  have e: "unat (empty_seq ?ri) = 2 * unat ?ri" "unat (full_seq ?ri) = 2 * unat ?ri + 1"
    "unat (empty_seq (?ri + word_of_nat (qsize q))) = 2 * (unat ?ri + qsize q)"
    "unat (full_seq (?ri + word_of_nat (qsize q))) = 2 * (unat ?ri + qsize q) + 1"
    using b unat_empty_seq [of ?ri] unat_full_seq [of ?ri] unat_empty_seq [of "?ri + word_of_nat (qsize q)"]
      unat_full_seq [of "?ri + word_of_nat (qsize q)"]
    by simp_all
  have empty: "mpmc_empty q \<longleftrightarrow> unat ?ri = length xs"
  proof (cases "unat ?ri = length ys")
    case True
    show ?thesis
    proof (cases "length ys < length xs")
      case some: True
      have "seq (array_get (array q) ?ri) = full_seq ?ri"
        using index_views(1) [OF ok w lens] True some by simp
      moreover have "full_seq ?ri \<noteq> empty_seq ?ri" using e by (auto dest: arg_cong [of _ _ unat])
      ultimately show ?thesis using some True by (simp add: mpmc_empty_def)
    next
      case False
      then have "length xs = length ys" using ri by simp
      then have "array_get (array q) ?ri = entry_seq (empty_seq ?ri)"
        using index_views(2) [OF ok w lens] True n by simp
      then show ?thesis using True \<open>length xs = length ys\<close> by (simp add: mpmc_empty_def entry_seq_def)
    qed
  next
    case False
    then have s: "Suc (unat ?ri) = length ys" using lens ri by simp
    have "seq (array_get (array q) ?ri) \<noteq> empty_seq ?ri"
      using index_views(4) [OF ok w lens s] e n by (auto dest: arg_cong [of _ _ unat])
    then show ?thesis using s ri by (simp add: mpmc_empty_def)
  qed
  show ?thesis
  proof (cases "unat ?ri = length xs")
    case True
    then show ?thesis using empty ri by (simp add: mpmc_size_def)
  next
    case False
    then have le: "unat ?ri \<le> unat ?wi" using wi lens by simp
    have "unat (ucast (?wi - ?ri) :: u64) = unat ?wi - unat ?ri"
    proof -
      have "unat (?wi - ?ri) = unat ?wi - unat ?ri"
        using le by (simp add: unat_sub word_le_nat_alt)
      moreover have "unat (?wi - ?ri) < 2 ^ 64"
        using unsigned_less [of "?wi - ?ri"] l power_increasing [of "LENGTH('w)" 64 "2 :: nat"]
        by (metis (no_types, lifting) one_le_numeral order_less_le_trans)
      ultimately show ?thesis by (simp add: unsigned_ucast_eq take_bit_nat_eq_self)
    qed
    then have "unat (mpmc_size q) = unat ?wi - unat ?ri"
      using empty False le by (simp add: mpmc_size_def word_le_nat_alt)
    then show ?thesis using wi lens ri le False by auto
  qed
qed

lemma reachable_good:
  fixes s s' :: "('d::zero, 'w::len word) mpmc_sys"
  assumes "mpmc_start s" "mpmc_step\<^sup>*\<^sup>* s s'" "within TYPE('w) (length (hist s')) (qsize (mq s'))"
  shows "mpmc_good s'"
  using mpmc.reachable_inv [OF assms(1,2)] assms(3) by (simp add: mpmc_inv_def)

lemmas reachable_queue_ok = mpmc_goodD(1) [OF reachable_good]

subsection \<open>An example execution\<close>

text \<open>A queue of two slots; thread 0 pushes 7, thread 1 pops, thread 0 pushes 8.\<close>

definition thread_steps ::
  "(('d, 'i) mpmc \<Rightarrow> ('d, 'i) pc \<Rightarrow> ('d, 'i) mpmc \<times> ('d, 'i) pc \<times> 'd event) \<Rightarrow>
    nat \<Rightarrow> nat \<Rightarrow> ('d, 'i) mpmc_sys \<Rightarrow> ('d, 'i) mpmc_sys" where
  "thread_steps st i k s = ((\<lambda>s. commit i (st (mq s) (threads s i)) s) ^^ k) s"

definition begin_call :: "nat \<Rightarrow> ('d, 'i) pc \<Rightarrow> ('d, 'i) mpmc_sys \<Rightarrow> ('d, 'i) mpmc_sys" where
  "begin_call i p s = s\<lparr>threads := (threads s)(i := p)\<rparr>"

definition demo0 :: "(u32, u32) mpmc_sys" where
  "demo0 = \<lparr>mq = \<lparr>lazy_push = False, lazy_pop = False, write_index = 0, read_index = 0,
     array = [entry_seq 0, entry_seq 2]\<rparr>, threads = (\<lambda>i. Idle), hist = [], outs = []\<rparr>"

definition demo1 :: "(u32, u32) mpmc_sys" where
  "demo1 = thread_steps push_step 0 4 (begin_call 0 (PushLoad 7) demo0)"

definition demo2 :: "(u32, u32) mpmc_sys" where
  "demo2 = thread_steps push_step 0 3 (begin_call 0 (PushLoad 8) (thread_steps pop_step 1 4 (begin_call 1 PopLoad demo1)))"

lemma steps_push: "mpmc_step\<^sup>*\<^sup>* s (thread_steps push_step i k s)"
proof (induction k)
  case (Suc k)
  then show ?case using mpmc_step.push [of "thread_steps push_step i k s" i]
    by (simp add: thread_steps_def)
qed (simp add: thread_steps_def)

lemma steps_pop: "mpmc_step\<^sup>*\<^sup>* s (thread_steps pop_step i k s)"
proof (induction k)
  case (Suc k)
  then show ?case using mpmc_step.pop [of "thread_steps pop_step i k s" i]
    by (simp add: thread_steps_def)
qed (simp add: thread_steps_def)

lemma steps_call: "at_rest (threads s i) \<Longrightarrow> is_call p \<Longrightarrow> mpmc_step\<^sup>*\<^sup>* s (begin_call i p s)"
  by (simp add: begin_call_def mpmc_step.call r_into_rtranclp)

lemma demo0_start: "mpmc_start demo0"
proof -
  have "mpmc_new False False 2 = Some (mq demo0)"
    by (simp add: mpmc_new_def demo0_def bits_for_value.simps upt_rec)
  then show ?thesis unfolding mpmc_start_def
    by (intro conjI exI [of _ False] exI [of _ 2]) (simp_all add: demo0_def)
qed

lemma commit_other: "j \<noteq> i \<Longrightarrow> threads (commit i r s) j = threads s j"
  by (cases r; cases "snd (snd r)") (simp_all add: commit_def)

lemma other_thread: "j \<noteq> i \<Longrightarrow> threads (thread_steps st i k s) j = threads s j"
proof (induction k)
  case (Suc k)
  then show ?case by (simp add: thread_steps_def commit_other)
qed (simp add: thread_steps_def)

lemma demo_returned: "at_rest (threads demo1 0)"
  by code_simp

lemma demo_calls: "at_rest (threads demo0 0)" "at_rest (threads demo1 1)"
  "at_rest (threads (thread_steps pop_step 1 4 (begin_call 1 PopLoad demo1)) 0)"
  using demo_returned by (simp_all add: other_thread begin_call_def demo0_def demo1_def)

lemma demo1_steps: "mpmc_step\<^sup>*\<^sup>* demo0 demo1"
  unfolding demo1_def by (rule rtranclp_trans [OF steps_call steps_push]) (simp_all add: demo_calls)

lemma demo2_steps: "mpmc_step\<^sup>*\<^sup>* demo0 demo2"
  unfolding demo2_def
  by (rule rtranclp_trans [OF demo1_steps rtranclp_trans [OF steps_call rtranclp_trans [OF steps_pop
      rtranclp_trans [OF steps_call steps_push]]]]) (rule demo_calls, simp)+

text \<open>The same execution with its calls and returns.\<close>

definition thread_trace ::
  "(('d::zero, 'w::len word) mpmc \<Rightarrow> ('d, 'w word) pc \<Rightarrow> ('d, 'w word) mpmc \<times> ('d, 'w word) pc \<times> 'd event) \<Rightarrow>
    nat \<Rightarrow> nat \<Rightarrow> ('d, 'w word) mpmc_sys \<Rightarrow> 'd action list" where
  "thread_trace st i k s = concat (map (\<lambda>j. let s' = thread_steps st i j s in
     step_label i (st (mq s') (threads s' i)) s') [0..<k])"

lemma thread_steps_Suc:
  "thread_steps st i (Suc k) s =
    (let s' = thread_steps st i k s in commit i (st (mq s') (threads s' i)) s')"
  by (simp add: thread_steps_def Let_def)

lemma thread_run:
  assumes "\<And>s. mpmc_lstep s (step_label i (st (mq s) (threads s i)) s) (commit i (st (mq s) (threads s i)) s)"
  shows "run mpmc_lstep s (thread_trace st i k s) (thread_steps st i k s)"
proof (induction k)
  case (Suc k)
  then show ?case using run_step [OF Suc assms]
    by (simp add: thread_trace_def thread_steps_Suc Let_def)
qed (simp add: thread_trace_def thread_steps_def run_nil)

lemma call_run:
  "at_rest (threads s i) \<Longrightarrow> is_call p \<Longrightarrow> phase_of p = Called op \<Longrightarrow>
   run mpmc_lstep s [Call i op] (begin_call i p s)"
  by (simp add: begin_call_def mpmc_lstep.call run_single)

lemma demo2_run:
  "run mpmc_lstep demo0
     [Call 0 (Push 7), Return 0 Pushed, Call 1 Pop, Return 1 (Popped 7), Call 0 (Push 8)] demo2"
proof -
  let ?a = "begin_call 0 (PushLoad 7) demo0" and ?b = "begin_call 1 PopLoad demo1"
  let ?c = "thread_steps pop_step 1 4 ?b"
  let ?d = "begin_call 0 (PushLoad 8) ?c"
  have tr: "thread_trace push_step 0 4 ?a = [Return 0 Pushed]"
    "thread_trace pop_step 1 4 ?b = [Return 1 (Popped 7)]" "thread_trace push_step 0 3 ?d = []"
    by code_simp+
  have r1: "run mpmc_lstep demo0 [Call 0 (Push 7)] ?a" by (rule call_run [OF demo_calls(1)]) simp_all
  have r2: "run mpmc_lstep ?a [Return 0 Pushed] demo1"
    using thread_run [of 0 push_step ?a 4] mpmc_lstep.push [OF refl] unfolding tr demo1_def by blast
  have r3: "run mpmc_lstep demo1 [Call 1 Pop] ?b" by (rule call_run [OF demo_calls(2)]) simp_all
  have r4: "run mpmc_lstep ?b [Return 1 (Popped 7)] ?c"
    using thread_run [of 1 pop_step ?b 4] mpmc_lstep.pop [OF refl] unfolding tr by blast
  have r5: "run mpmc_lstep ?c [Call 0 (Push 8)] ?d" by (rule call_run [OF demo_calls(3)]) simp_all
  have r6: "run mpmc_lstep ?d [] demo2"
    using thread_run [of 0 push_step ?d 3] mpmc_lstep.push [OF refl] unfolding tr demo2_def by blast
  from run_append [OF run_append [OF run_append [OF r1 r2] run_append [OF r3 r4]] run_append [OF r5 r6]]
  show ?thesis by simp
qed

lemma demo2_hist: "hist demo2 = [7, 8]" "outs demo2 = [7]" "qsize (mq demo2) = 2"
  by code_simp+

lemma demo2_within: "within TYPE(32) (length (hist demo2)) (qsize (mq demo2))"
  by (simp add: within_def demo2_hist)

subsection \<open>Properties\<close>

text \<open>
  The properties below hold while the tickets stay below the top bit of the index, which the
  sequence numbers drop: \<open>within\<close> asks that the number of values enqueued since construction
  plus twice the capacity is at most \<open>2 ^ (w - 1)\<close>, where \<open>w\<close> is the width of \<open>IndexT\<close>: less than
  \<open>2 ^ 31\<close> values for the default \<open>uint32_t\<close>.

  Property C1: In every interleaving of any number of threads on an \<open>mpmc_queue\<close> in which at
  most \<open>2 ^ (w - 1) - 2 * capacity\<close> values are enqueued (\<open>w\<close> the width of the index; \<open>2 ^ 31 - 2 * capacity\<close> for the default \<open>uint32_t\<close>), the values
  dequeued are the first of those enqueued, in the order of enqueueing, and at most \<open>capacity\<close>
  values are between the two.
\<close>

theorem mpmc_fifo_order:
  fixes s s' :: "('d::zero, 'w::len word) mpmc_sys"
  assumes "mpmc_start s" "mpmc_step\<^sup>*\<^sup>* s s'" "within TYPE('w) (length (hist s')) (qsize (mq s'))"
  shows "outs s' = take (length (outs s')) (hist s') \<and> length (hist s') \<le> length (outs s') + qsize (mq s')"
  using reachable_queue_ok [OF assms] by (simp add: queue_ok_def)

theorem mpmc_fifo_order_witness:
  "outs demo2 = take 1 [7, 8] \<and> length (hist demo2) \<le> length (outs demo2) + 2"
  using mpmc_fifo_order [OF demo0_start demo2_steps demo2_within] by (simp add: demo2_hist)

text \<open>
  Property C2: \<open>mpmc_queue\<close> is linearizable as long as at most \<open>2 ^ (w - 1) - 2 * capacity\<close> values
  are enqueued (\<open>w\<close> the width of the index; \<open>2 ^ 31 - 2 * capacity\<close> for the default \<open>uint32_t\<close>): the calls and returns of every interleaving of
  \<open>push\<close>, \<open>pop\<close>, \<open>peek\<close>, \<open>pop_if\<close> and \<open>exchange\<close> are those of a list of at most \<open>capacity\<close>
  elements on which each operation takes effect at one moment between its call and its return.
  \<open>push\<close> answers true exactly when it appends its value and false only when the list is full
  at that moment; \<open>pop\<close>, \<open>peek\<close> and \<open>pop_if\<close> answer the first element, \<open>pop_if\<close> asks its predicate
  about the first element, they find nothing only when the list is empty at that moment, and
  \<open>exchange\<close> replaces an element that equals the old value.
\<close>

theorem mpmc_refines_fifo:
  fixes s s' :: "('d::zero, 'w::len word) mpmc_sys"
  assumes "mpmc_start s" "run mpmc_lstep s tr s'" "within TYPE('w) (length (hist s')) (qsize (mq s'))"
  shows "run aq_step (empty_queue (qsize (mq s))) tr (mpmc_abs s')"
  by (rule start_run_abs [OF assms])

theorem mpmc_refines_fifo_witness:
  "run aq_step (empty_queue 2)
     [Call 0 (Push 7), Return 0 Pushed, Call 1 Pop, Return 1 (Popped 7), Call 0 (Push 8)]
     (mpmc_abs demo2)"
  using mpmc_refines_fifo [OF demo0_start demo2_run demo2_within] by (simp add: demo0_def numeral_2_eq_2)

text \<open>
  Property C3: A \<open>push\<close> that answers false read a slot that proves the queue full at that
  moment, a \<open>pop\<close> that answers false one that proves it empty, and a \<open>pop\<close> that succeeds
  takes the oldest value, whatever the other threads did in between, as long as at most
  \<open>2 ^ (w - 1) - 2 * capacity\<close> values have been enqueued by then (\<open>w\<close> the width of the index; \<open>2 ^ 31 - 2 * capacity\<close> for the default \<open>uint32_t\<close>).
\<close>

theorem mpmc_answers:
  fixes s s' :: "('d::zero, 'w::len word) mpmc_sys"
  assumes "mpmc_start s" "mpmc_step\<^sup>*\<^sup>* s s'" "within TYPE('w) (length (hist s')) (qsize (mq s'))"
  shows "(snd (snd (push_step (mq s') (threads s' i))) = FullSeen \<longrightarrow>
      length (hist s') = length (outs s') + qsize (mq s'))
    \<and> (snd (snd (pop_step (mq s') (threads s' i))) = EmptySeen \<longrightarrow> hist s' = outs s')
    \<and> (snd (snd (pop_step (mq s') (threads s' i))) = Deq d \<longrightarrow>
      length (outs s') < length (hist s') \<and> d = hist s' ! length (outs s'))"
proof -
  note g = mpmc_goodD [OF reachable_good [OF assms]]
  note ps = push_step_ok [OF g(1) assms(3) g(2) [of i]] pop_step_ok [OF g(1) assms(3) g(2) [of i]]
  have "d = hist s' ! length (outs s')"
    if "snd (snd (pop_step (mq s') (threads s' i))) = Deq d"
    using ps(2) that unfolding step_ok_def queue_ok_def
    by (auto simp: Let_def split: prod.splits)
      (metis length_append_singleton lessI nth_append_length nth_take)
  then show ?thesis using ps by (auto simp: step_ok_def Let_def split: prod.splits)
qed

definition demo3 :: "(u32, u32) mpmc_sys" where
  "demo3 = thread_steps pop_step 1 2 (begin_call 1 PopLoad demo2)"

lemma demo2_returned: "at_rest (threads demo2 1)"
  by code_simp

lemma demo3_steps: "mpmc_step\<^sup>*\<^sup>* demo0 demo3"
  unfolding demo3_def
  by (rule rtranclp_trans [OF demo2_steps rtranclp_trans [OF steps_call steps_pop]])
    (rule demo2_returned, simp)

lemma demo3_hist: "hist demo3 = [7, 8]" "outs demo3 = [7]" "qsize (mq demo3) = 2"
  "snd (snd (pop_step (mq demo3) (threads demo3 1))) = Deq 8"
  by code_simp+

theorem mpmc_answers_witness:
  "length (outs demo3) < length (hist demo3) \<and> 8 = hist demo3 ! length (outs demo3)"
proof -
  have "within TYPE(32) (length (hist demo3)) (qsize (mq demo3))"
    by (simp add: within_def demo3_hist)
  from mpmc_answers [OF demo0_start demo3_steps this, of 1 8] demo3_hist(4) show ?thesis by blast
qed

text \<open>
  Property C4: Whatever state the other threads have left the queue in, even suspended in the
  middle of an operation, a \<open>push\<close> or a \<open>pop\<close> that then runs alone returns within seven steps
  with the right answer and the right effect, as long as fewer than
  \<open>2 ^ (w - 1) - 2 * capacity\<close> values have been enqueued (\<open>w\<close> the width of the index; \<open>2 ^ 31 - 2 * capacity\<close> for the default \<open>uint32_t\<close>).
\<close>

theorem mpmc_obstruction_free:
  fixes s s' :: "('d::zero, 'w::len word) mpmc_sys"
  assumes "mpmc_start s" "mpmc_step\<^sup>*\<^sup>* s s'" "within TYPE('w) (Suc (length (hist s'))) (qsize (mq s'))"
  shows "(\<exists>q. if length (hist s') < length (outs s') + qsize (mq s')
       then mpmc_push d (mq s') = Some (PushOk (word_of_nat (length (hist s'))), q) \<and> queue_ok q (hist s' @ [d]) (outs s')
       else mpmc_push d (mq s') = Some (PushFull, q) \<and> queue_ok q (hist s') (outs s'))
    \<and> (\<exists>q. if length (outs s') < length (hist s')
       then mpmc_pop (mq s') = Some (PopOk (hist s' ! length (outs s')) (word_of_nat (length (outs s'))), q) \<and>
         queue_ok q (hist s') (outs s' @ [hist s' ! length (outs s')])
       else mpmc_pop (mq s') = Some (PopEmpty, q) \<and> queue_ok q (hist s') (outs s'))"
proof -
  note ok = reachable_queue_ok [OF assms(1,2) within_less [OF assms(3)]]
  show ?thesis
    using push_alone [OF ok assms(3), of d] pop_alone [OF ok within_less [OF assms(3)]]
    by (intro conjI) blast+
qed

theorem mpmc_obstruction_free_witness:
  "\<exists>q. mpmc_pop (mq demo2) = Some (PopOk 8 1, q) \<and> queue_ok q [7, 8] [7, 8]"
  using mpmc_obstruction_free [OF demo0_start demo2_steps, of 9]
  by (simp add: demo2_hist within_def)

text \<open>
  \<open>consume\<close> with a callback that never stops ends, hands over every stored value
  in order, answers their number and leaves the queue empty; the destructor does the same.
\<close>

theorem mpmc_consume_drains:
  fixes s s' :: "('d::zero, 'w::len word) mpmc_sys"
  assumes "mpmc_start s" "mpmc_step\<^sup>*\<^sup>* s s'" "within TYPE('w) (length (hist s')) (qsize (mq s'))"
    and "length (hist s') - length (outs s') < k"
  shows "(\<exists>q. mpmc_consume collect k [] (mq s') =
      Some (length (hist s') - length (outs s'), drop (length (outs s')) (hist s'), q)
      \<and> queue_ok q (hist s') (hist s'))
    \<and> (\<exists>q. mpmc_destroy k (mq s') = Some (length (hist s') - length (outs s'), (), q)
      \<and> queue_ok q (hist s') (hist s'))"
proof (rule conjI)
  note run = consume_run [OF reachable_queue_ok [OF assms(1-3)] assms(3,4)]
  have c: "collect = (\<lambda>v i c. (False, c @ [v]))" by (intro ext) (simp add: collect_def)
  have f: "fold (\<lambda>v c. c @ [v]) vs c = c @ vs" for vs c :: "'d list" by (induction vs arbitrary: c) auto
  show "\<exists>q. mpmc_consume collect k [] (mq s') =
      Some (length (hist s') - length (outs s'), drop (length (outs s')) (hist s'), q)
      \<and> queue_ok q (hist s') (hist s')"
    using run [of "\<lambda>v c. c @ [v]" "[]"] by (simp add: c f)
  show "\<exists>q. mpmc_destroy k (mq s') = Some (length (hist s') - length (outs s'), (), q)
      \<and> queue_ok q (hist s') (hist s')"
    using run [of "\<lambda>v c. c" "()"] by (simp add: mpmc_destroy_def)
qed

theorem mpmc_consume_drains_witness:
  "\<exists>q. mpmc_consume collect 2 [] (mq demo2) = Some (1, [8], q) \<and> queue_ok q [7, 8] [7, 8]"
  using mpmc_consume_drains [OF demo0_start demo2_steps demo2_within, of 2]
  by (simp add: demo2_hist)

text \<open>
  \<open>push_keep_n\<close> always stores its value, within two rounds; when the queue is
  full it drops exactly the oldest one.
\<close>

theorem mpmc_push_keep_n:
  fixes s s' :: "('d::zero, 'w::len word) mpmc_sys"
  assumes "mpmc_start s" "mpmc_step\<^sup>*\<^sup>* s s'" "within TYPE('w) (Suc (length (hist s'))) (qsize (mq s'))"
  shows "\<exists>q ys. push_keep_n 2 d (mq s') = Some (PushOk (word_of_nat (length (hist s'))), q) \<and>
    queue_ok q (hist s' @ [d]) ys \<and>
    ys = (if length (hist s') < length (outs s') + qsize (mq s') then outs s'
          else outs s' @ [hist s' ! length (outs s')])"
  using keep_n_run [OF reachable_queue_ok [OF assms(1,2) within_less [OF assms(3)]] assms(3), of d]
  by blast

theorem mpmc_push_keep_n_witness:
  "\<exists>q. push_keep_n 2 9 (mq demo2) = Some (PushOk 2, q) \<and> queue_ok q [7, 8, 9] [7]"
  using mpmc_push_keep_n [OF demo0_start demo2_steps, of 9]
  by (simp add: demo2_hist within_def)

text \<open>
  \<open>size\<close>, called while no index has wrapped around, is within one of the number
  of values stored, and exact once both indices have been advanced.
\<close>

theorem mpmc_size_bound:
  fixes s s' :: "('d::zero, 'w::len word) mpmc_sys"
  assumes "mpmc_start s" "mpmc_step\<^sup>*\<^sup>* s s'" "within TYPE('w) (length (hist s')) (qsize (mq s'))"
    and "LENGTH('w) \<le> 64"
  shows "unat (mpmc_size (mq s')) \<le> Suc (length (hist s') - length (outs s'))
    \<and> length (hist s') - length (outs s') \<le> Suc (unat (mpmc_size (mq s')))
    \<and> (unat (write_index (mq s')) = length (hist s') \<and> unat (read_index (mq s')) = length (outs s')
       \<longrightarrow> unat (mpmc_size (mq s')) = length (hist s') - length (outs s'))"
  using size_bound [OF reachable_queue_ok [OF assms(1-3)] assms(3,4)] .

theorem mpmc_size_bound_witness:
  "length (hist demo2) - length (outs demo2) \<le> Suc (unat (mpmc_size (mq demo2)))"
  using mpmc_size_bound [OF demo0_start demo2_steps demo2_within] by simp

end
