(* ===== verification/Mpmc_Wrap.thy ===== *)
theory Mpmc_Wrap
  imports Mpmc_Theorems "HOL-Library.Sublist"
begin

text \<open>
  What happens to an \<open>mpmc_queue\<close> past the bound of its order: the sequence number of a ticket
  drops the top bit of the index, so that ticket \<open>2 ^ (w - 1)\<close> has the sequence numbers of
  ticket 0, and a producer that has slept since then puts its value into a slot whose turn has
  not come.
\<close>

subsection \<open>A queue of two slots that is emptied after every push\<close>

definition ring2 :: "'w::len word \<Rightarrow> (nat, 'w word) mpmc" where
  "ring2 t = \<lparr>lazy_push = False, lazy_pop = False, write_index = t, read_index = t,
     array = (if even t then [entry_seq (empty_seq t), entry_seq (empty_seq (t + 1))]
              else [entry_seq (empty_seq (t + 1)), entry_seq (empty_seq t)])\<rparr>"

definition wrap_sys :: "(nat, 'w word) mpmc \<Rightarrow> (nat, 'w::len word) pc \<Rightarrow> (nat, 'w word) pc \<Rightarrow>
    nat list \<Rightarrow> nat list \<Rightarrow> (nat, 'w word) mpmc_sys" where
  "wrap_sys q p p' xs ys = \<lparr>mq = q, threads = (\<lambda>i. Idle)(0 := p, 1 := p'), hist = xs, outs = ys\<rparr>"

lemma slot_of_2: "slot_of (Suc (Suc 0)) (x :: 'w::len word) = (if even x then 0 else 1)"
  by (simp add: slot_of_def and_one_eq even_word_unat mod2_eq_if)

lemma seq_successors: "full_seq (t :: 'w::len word) \<noteq> empty_seq t"
proof
  assume "full_seq t = empty_seq t"
  then have "even (full_seq t)" by (simp add: empty_seq_def)
  then show False by (simp add: full_seq_def even_or_iff)
qed

definition full2 :: "nat \<Rightarrow> 'w::len word \<Rightarrow> (nat, 'w word) mpmc" where
  "full2 v t = (ring2 t)\<lparr>write_index := t + 1,
     array := array_set (array (ring2 t)) t (entry_set (full_seq t) v)\<rparr>"

lemmas wrap_state = wrap_sys_def ring2_def full2_def begin_call_def commit_def array_get_def
  array_set_def slot_of_2 entry_seq_def entry_set_def cas_write_index_def cas_read_index_def

lemmas wrap_steps = thread_steps_Suc thread_trace_def Let_def step_label_def

lemma push_ring2:
  "thread_steps push_step 1 4 (wrap_sys (ring2 t) p (PushLoad v) xs ys) =
     wrap_sys (full2 v t) p (Returned (PushOk t)) (xs @ [v]) ys \<and>
   thread_trace push_step 1 4 (wrap_sys (ring2 t) p (PushLoad v) xs ys) = [Return 1 Pushed]"
  by (simp add: wrap_steps wrap_state eval_nat_numeral thread_steps_def)

lemma pop_full2:
  "thread_steps pop_step 1 4 (wrap_sys (full2 v t) p PopLoad xs ys) =
     wrap_sys (ring2 (t + 1)) p (Returned (PopOk v t)) xs (ys @ [v]) \<and>
   thread_trace pop_step 1 4 (wrap_sys (full2 v t) p PopLoad xs ys) = [Return 1 (Popped v)]"
  by (simp add: wrap_steps wrap_state eval_nat_numeral thread_steps_def add.assoc)

lemma wrap_call:
  "at_rest p' \<Longrightarrow> is_call c \<Longrightarrow> phase_of c = Called op \<Longrightarrow>
   run mpmc_lstep (wrap_sys q p p' xs ys) [Call 1 op] (wrap_sys q p c xs ys)"
  using call_run [of "wrap_sys q p p' xs ys" 1 c op] by (simp add: wrap_sys_def begin_call_def)

lemma wrap_calls:
  "at_rest p' \<Longrightarrow> is_call c \<Longrightarrow> phase_of c = Called op \<Longrightarrow>
   run mpmc_lstep (wrap_sys q p c xs ys) l s' \<Longrightarrow>
   run mpmc_lstep (wrap_sys q p p' xs ys) (Call 1 op # l) s'"
  using run_append [OF wrap_call] by fastforce

lemmas push_run = thread_run [of _ push_step, OF mpmc_lstep.push [OF refl]]
  and pop_run = thread_run [of _ pop_step, OF mpmc_lstep.pop [OF refl]]

abbreviation pair_trace :: "'d \<Rightarrow> 'd action list" where
  "pair_trace v \<equiv> [Call 1 (Push v), Return 1 Pushed, Call 1 Pop, Return 1 (Popped v)]"

lemma ring2_pair:
  assumes "at_rest p'"
  shows "run mpmc_lstep (wrap_sys (ring2 t) p p' xs ys) (pair_trace v)
    (wrap_sys (ring2 (t + 1)) p (Returned (PopOk v t)) (xs @ [v]) (ys @ [v]))"
proof -
  let ?r = "Returned (PushOk t)"
  have a: "run mpmc_lstep (wrap_sys (ring2 t) p p' xs ys) [Call 1 (Push v)]
      (wrap_sys (ring2 t) p (PushLoad v) xs ys)"
    using assms by (rule wrap_call) simp_all
  have b: "run mpmc_lstep (wrap_sys (ring2 t) p (PushLoad v) xs ys) [Return 1 Pushed]
      (wrap_sys (full2 v t) p ?r (xs @ [v]) ys)"
    using push_run [of "wrap_sys (ring2 t) p (PushLoad v) xs ys" 1 4] by (simp only: push_ring2)
  have c: "run mpmc_lstep (wrap_sys (full2 v t) p ?r (xs @ [v]) ys) [Call 1 Pop]
      (wrap_sys (full2 v t) p PopLoad (xs @ [v]) ys)"
    by (rule wrap_call) simp_all
  have d: "run mpmc_lstep (wrap_sys (full2 v t) p PopLoad (xs @ [v]) ys) [Return 1 (Popped v)]
      (wrap_sys (ring2 (t + 1)) p (Returned (PopOk v t)) (xs @ [v]) (ys @ [v]))"
    using pop_run [of "wrap_sys (full2 v t) p PopLoad (xs @ [v]) ys" 1 4] by (simp only: pop_full2)
  from run_append [OF run_append [OF a b] run_append [OF c d]] show ?thesis by simp
qed

lemma ring2_pairs:
  assumes "at_rest p'"
  shows "\<exists>r. at_rest r \<and> run mpmc_lstep (wrap_sys (ring2 0) p p' [] [])
    (concat (replicate k (pair_trace 0)))
    (wrap_sys (ring2 (word_of_nat k)) p r (replicate k 0) (replicate k 0))"
proof (induction k)
  case 0
  then show ?case using assms by (auto intro: run_nil)
next
  case (Suc k)
  then obtain r where r: "at_rest r" "run mpmc_lstep (wrap_sys (ring2 0) p p' [] [])
    (concat (replicate k (pair_trace 0)))
    (wrap_sys (ring2 (word_of_nat k)) p r (replicate k 0) (replicate k 0))" by blast
  have "concat (replicate (Suc k) (pair_trace 0)) = concat (replicate k (pair_trace 0)) @ pair_trace (0 :: nat)"
    by (simp flip: replicate_append_same)
  with run_append [OF r(2) ring2_pair [OF r(1), of "word_of_nat k" p "replicate k 0" "replicate k 0" 0]]
  show ?case
    by (intro exI [of _ "Returned (PopOk 0 (word_of_nat k))"])
      (simp add: replicate_append_same add.commute [of 1])
qed

subsection \<open>The ticket that comes back\<close>

definition last_ticket :: "'w::len word" where
  "last_ticket = word_of_nat (2 ^ (LENGTH('w) - 1) - 1)"

lemma push_bit_top: "push_bit 1 (2 ^ (LENGTH('w) - 1) :: 'w::len word) = 0"
proof -
  have "push_bit 1 (2 ^ (LENGTH('w) - 1) :: 'w word) = 2 ^ LENGTH('w)"
    by (metis One_nat_def Suc_pred len_gt_0 mult.commute power_Suc push_bit_eq_mult power_one_right)
  then show ?thesis by simp
qed

lemma last_ticket:
  assumes "3 \<le> LENGTH('w::len)"
  shows "odd (last_ticket :: 'w word)" "(last_ticket :: 'w word) \<noteq> 0"
    "empty_seq (last_ticket + 1 :: 'w word) = 0" "full_seq (last_ticket + 1 :: 'w word) = 1"
    "full_seq (last_ticket :: 'w word) \<noteq> full_seq (last_ticket + 2)"
proof -
  let ?t = "last_ticket :: 'w word"
  have s: "?t + 1 = 2 ^ (LENGTH('w) - 1)"
    by (simp add: last_ticket_def of_nat_diff)
  have z: "push_bit 1 (?t + 1) = 0" unfolding s by (rule push_bit_top)
  show "empty_seq (?t + 1) = 0" "full_seq (?t + 1) = 1"
    unfolding empty_seq_def full_seq_def z by simp_all
  have "even (?t + 1)" using assms by (simp add: s)
  then show "odd ?t" by simp
  then show "?t \<noteq> 0" by auto
  have f: "full_seq x = 2 * x + 1" for x :: "'w word"
    by (simp add: full_seq_def or_one_eq push_bit_eq_mult mult.commute)
  have "(4 :: nat) < 2 ^ LENGTH('w)"
    using power_increasing [OF assms, of "2 :: nat"] by simp
  then have "unat (4 :: 'w word) = 4" using unat_of_nat_small [of 4, where 'w = 'w] by simp
  then have "(4 :: 'w word) \<noteq> 0" by (metis unat_0 zero_neq_numeral)
  then show "full_seq ?t \<noteq> full_seq (?t + 2)" by (simp add: f distrib_left)
qed

definition stolen :: "'w::len word \<Rightarrow> (nat, 'w word) mpmc" where
  "stolen t = \<lparr>lazy_push = False, lazy_pop = False, write_index = t, read_index = t,
     array = [entry_set 1 9, entry_seq (empty_seq t)]\<rparr>"

text \<open>The producer that has slept since ticket 0 puts 9 into the slot and returns.\<close>

lemma sleeper_returns:
  assumes "3 \<le> LENGTH('w::len)"
  defines "t \<equiv> last_ticket :: 'w word"
  shows "run mpmc_lstep (wrap_sys (ring2 t) (PushCas 9 0) r xs ys) [Return 0 Pushed]
    (wrap_sys (stolen t) (Returned (PushOk 0)) r (xs @ [9]) ys)"
proof -
  let ?s = "wrap_sys (ring2 t) (PushCas 9 0) r xs ys"
  note l = last_ticket [OF assms(1), folded t_def]
  have "empty_seq (0 :: 'w word) = 0" "full_seq (0 :: 'w word) = 1"
    by (simp_all add: empty_seq_def full_seq_def)
  then have "thread_steps push_step 0 2 ?s = wrap_sys (stolen t) (Returned (PushOk 0)) r (xs @ [9]) ys"
    "thread_trace push_step 0 2 ?s = [Return 0 Pushed]"
    using l by (simp_all add: wrap_steps wrap_state stolen_def eval_nat_numeral thread_steps_def fun_upd_twist)
  then show ?thesis using push_run [of ?s 0 2] by simp
qed

text \<open>The consumer finds the queue empty, and then takes what is pushed afterwards first.\<close>

definition overtaken :: "'w::len word \<Rightarrow> (nat, 'w word) mpmc" where
  "overtaken t = \<lparr>lazy_push = False, lazy_pop = False, write_index = t + 1, read_index = t,
     array = [entry_set 1 9, entry_set (full_seq t) 8]\<rparr>"

definition overtaken' :: "'w::len word \<Rightarrow> (nat, 'w word) mpmc" where
  "overtaken' t = \<lparr>lazy_push = False, lazy_pop = False, write_index = t + 1, read_index = t + 1,
     array = [entry_set 1 9, entry_seq (empty_seq (t + 2))]\<rparr>"

definition overtaken'' :: "'w::len word \<Rightarrow> (nat, 'w word) mpmc" where
  "overtaken'' t = \<lparr>lazy_push = False, lazy_pop = False, write_index = t + 1, read_index = t + 2,
     array = [entry_seq (empty_seq (t + 3)), entry_seq (empty_seq (t + 2))]\<rparr>"

lemmas wrap_run = wrap_steps wrap_state stolen_def overtaken_def overtaken'_def overtaken''_def
  eval_nat_numeral thread_steps_def

lemma empty_or_1: "empty_seq t OR 1 = full_seq t"
  by (simp add: empty_seq_def full_seq_def)

lemma overtaken_runs:
  assumes "3 \<le> LENGTH('w::len)"
  defines "t \<equiv> last_ticket :: 'w word"
  shows "run mpmc_lstep (wrap_sys (stolen t) p PopLoad xs ys) [Return 1 Empty]
      (wrap_sys (stolen t) p (Returned PopEmpty) xs ys)"
    and "run mpmc_lstep (wrap_sys (stolen t) p (PushLoad 8) xs ys) [Return 1 Pushed]
      (wrap_sys (overtaken t) p (Returned (PushOk t)) (xs @ [8]) ys)"
    and "run mpmc_lstep (wrap_sys (overtaken t) p PopLoad xs ys) [Return 1 (Popped 8)]
      (wrap_sys (overtaken' t) p (Returned (PopOk 8 t)) xs (ys @ [8]))"
    and "run mpmc_lstep (wrap_sys (overtaken' t) p PopLoad xs ys) [Return 1 (Popped 9)]
      (wrap_sys (overtaken'' t) p (Returned (PopOk 9 (t + 1))) xs (ys @ [9]))"
proof -
  note l = last_ticket [OF assms(1), folded t_def]
  let ?a = "wrap_sys (stolen t) p PopLoad xs ys" and ?b = "wrap_sys (stolen t) p (PushLoad 8) xs ys"
  let ?c = "wrap_sys (overtaken t) p PopLoad xs ys" and ?d = "wrap_sys (overtaken' t) p PopLoad xs ys"
  have "thread_trace pop_step 1 2 ?a = [Return 1 Empty]"
    "thread_steps pop_step 1 2 ?a = wrap_sys (stolen t) p (Returned PopEmpty) xs ys"
    using l seq_successors [of t] seq_successors [of t, symmetric]
    by (simp_all add: wrap_run empty_or_1)
  then show "run mpmc_lstep ?a [Return 1 Empty] (wrap_sys (stolen t) p (Returned PopEmpty) xs ys)"
    using pop_run [of ?a 1 2] by simp
  have "thread_trace push_step 1 4 ?b = [Return 1 Pushed]"
    "thread_steps push_step 1 4 ?b = wrap_sys (overtaken t) p (Returned (PushOk t)) (xs @ [8]) ys"
    using l by (simp_all add: wrap_run)
  then show "run mpmc_lstep ?b [Return 1 Pushed]
      (wrap_sys (overtaken t) p (Returned (PushOk t)) (xs @ [8]) ys)"
    using push_run [of ?b 1 4] by simp
  have "thread_trace pop_step 1 4 ?c = [Return 1 (Popped 8)]"
    "thread_steps pop_step 1 4 ?c = wrap_sys (overtaken' t) p (Returned (PopOk 8 t)) xs (ys @ [8])"
    using l by (simp_all add: wrap_run)
  then show "run mpmc_lstep ?c [Return 1 (Popped 8)]
      (wrap_sys (overtaken' t) p (Returned (PopOk 8 t)) xs (ys @ [8]))"
    using pop_run [of ?c 1 4] by simp
  have "thread_trace pop_step 1 4 ?d = [Return 1 (Popped 9)]"
    "thread_steps pop_step 1 4 ?d = wrap_sys (overtaken'' t) p (Returned (PopOk 9 (t + 1))) xs (ys @ [9])"
    using l by (simp_all add: wrap_run add.assoc)
  then show "run mpmc_lstep ?d [Return 1 (Popped 9)]
      (wrap_sys (overtaken'' t) p (Returned (PopOk 9 (t + 1))) xs (ys @ [9]))"
    using pop_run [of ?d 1 4] by simp
qed

lemma wrap_start: "3 \<le> LENGTH('w::len) \<Longrightarrow> mpmc_start (wrap_sys (ring2 (0 :: 'w word)) Idle Idle [] [])"
proof -
  assume w: "3 \<le> LENGTH('w)"
  have "mpmc_new False False 2 = Some (ring2 (0 :: 'w word))"
    using w by (simp add: mpmc_new_def ring2_def bits_for_value.simps upt_rec empty_seq_def)
  then show ?thesis unfolding mpmc_start_def
    by (intro conjI exI [of _ False] exI [of _ 2]) (simp_all add: wrap_sys_def)
qed

definition overtaking_trace :: "nat \<Rightarrow> nat action list" where
  "overtaking_trace k = [Call 0 (Push 9)] @ concat (replicate k (pair_trace 0)) @
     [Return 0 Pushed, Call 1 Pop, Return 1 Empty, Call 1 (Push 8), Return 1 Pushed,
      Call 1 Pop, Return 1 (Popped 8), Call 1 Pop, Return 1 (Popped 9)]"

lemma sleeper_calls:
  "run mpmc_lstep (wrap_sys (ring2 0) Idle Idle [] []) [Call 0 (Push 9)]
     (wrap_sys (ring2 (0 :: 'w::len word)) (PushCas 9 0) Idle [] [])"
proof -
  let ?s = "wrap_sys (ring2 (0 :: 'w word)) (PushLoad 9) Idle [] []"
  have "run mpmc_lstep (wrap_sys (ring2 0) Idle Idle [] []) [Call 0 (Push 9)] ?s"
    using call_run [of "wrap_sys (ring2 (0 :: 'w word)) Idle Idle [] []" 0 "PushLoad 9" "Push 9"]
    by (simp add: wrap_sys_def begin_call_def fun_upd_twist)
  moreover have "thread_trace push_step 0 2 ?s = []"
    "thread_steps push_step 0 2 ?s = wrap_sys (ring2 0) (PushCas 9 0) Idle [] []"
    by (simp_all add: wrap_run fun_upd_twist)
  ultimately show ?thesis using push_run [of ?s 0 2] run_append by fastforce
qed

lemma overtaking_run:
  assumes "3 \<le> LENGTH('w::len)"
  defines "k \<equiv> 2 ^ (LENGTH('w) - 1) - 1"
  shows "\<exists>s'. run mpmc_lstep (wrap_sys (ring2 (0 :: 'w word)) Idle Idle [] []) (overtaking_trace k) s' \<and>
    hist s' = replicate k 0 @ [9, 8] \<and> outs s' = replicate k 0 @ [8, 9]"
proof -
  let ?t = "last_ticket :: 'w word"
  let ?z = "replicate k (0 :: nat)"
  note o = overtaken_runs [OF assms(1)]
  obtain r where r: "at_rest r" "run mpmc_lstep (wrap_sys (ring2 (0 :: 'w word)) (PushCas 9 0) Idle [] [])
      (concat (replicate k (pair_trace 0))) (wrap_sys (ring2 ?t) (PushCas 9 0) r ?z ?z)"
    using ring2_pairs [of Idle "PushCas 9 (0 :: 'w word)" k] by (auto simp: last_ticket_def k_def)
  let ?p = "Returned (PushOk 0)"
  have a: "run mpmc_lstep (wrap_sys (ring2 ?t) (PushCas 9 0) r ?z ?z) [Return 0 Pushed, Call 1 Pop, Return 1 Empty]
      (wrap_sys (stolen ?t) ?p (Returned PopEmpty) (?z @ [9]) ?z)"
    using run_append [OF sleeper_returns [OF assms(1)] wrap_calls [OF r(1) _ _ o(1)]] by simp
  have b: "run mpmc_lstep (wrap_sys (stolen ?t) ?p (Returned PopEmpty) (?z @ [9]) ?z)
      [Call 1 (Push 8), Return 1 Pushed]
      (wrap_sys (overtaken ?t) ?p (Returned (PushOk ?t)) (?z @ [9, 8]) ?z)"
    using o(2) [of ?p "?z @ [9]" ?z] by (intro wrap_calls [where c = "PushLoad 8"]) simp_all
  have c: "run mpmc_lstep (wrap_sys (overtaken ?t) ?p (Returned (PushOk ?t)) (?z @ [9, 8]) ?z)
      [Call 1 Pop, Return 1 (Popped 8)]
      (wrap_sys (overtaken' ?t) ?p (Returned (PopOk 8 ?t)) (?z @ [9, 8]) (?z @ [8]))"
    using o(3) [of ?p "?z @ [9, 8]" ?z] by (intro wrap_calls [where c = PopLoad]) simp_all
  have d: "run mpmc_lstep (wrap_sys (overtaken' ?t) ?p (Returned (PopOk 8 ?t)) (?z @ [9, 8]) (?z @ [8]))
      [Call 1 Pop, Return 1 (Popped 9)]
      (wrap_sys (overtaken'' ?t) ?p (Returned (PopOk 9 (?t + 1))) (?z @ [9, 8]) (?z @ [8, 9]))"
    using o(4) [of ?p "?z @ [9, 8]" "?z @ [8]"] by (intro wrap_calls [where c = PopLoad]) simp_all
  from run_append [OF run_append [OF sleeper_calls r(2)] run_append [OF run_append [OF a b] run_append [OF c d]]]
  show ?thesis
    by (intro exI [of _ "wrap_sys (overtaken'' ?t) ?p (Returned (PopOk 9 (?t + 1))) (?z @ [9, 8]) (?z @ [8, 9])"])
      (simp add: overtaking_trace_def, simp add: wrap_sys_def)
qed

subsection \<open>No atomic queue answers like this\<close>

lemma run_split:
  assumes "run step s tr u" "tr = xs @ ys" and "\<And>s l t. step s l t \<Longrightarrow> length l \<le> 1"
  shows "\<exists>t. run step s xs t \<and> run step t ys u"
  using assms(1,2)
proof (induction arbitrary: ys rule: run.induct)
  case (run_nil s)
  then show ?case by (auto intro: run.run_nil)
next
  case (run_step s tr t l u)
  show ?case
  proof (cases "ys = []")
    case True
    then show ?thesis using run_step run.run_step by (fastforce intro: run.run_nil)
  next
    case False
    then obtain zs where zs: "ys = zs @ l" "tr = xs @ zs"
      using assms(3) [OF run_step.hyps(2)] run_step.prems
      by (cases l; cases ys rule: rev_cases) (auto simp: le_Suc_eq)
    then show ?thesis using run_step by (blast intro: run.run_step)
  qed
qed

lemma aq_label: "aq_step a l b \<Longrightarrow> length l \<le> 1"
  by (induction rule: aq_step.induct) auto

lemma aq_run_split:
  "run aq_step s (xs @ ys) u \<Longrightarrow> \<exists>t. run aq_step s xs t \<and> run aq_step t ys u"
  by (erule run_split [OF _ refl]) (rule aq_label)

text \<open>
  While thread 0 only pushes 9, only thread 1 does anything else and nobody has been answered
  9: once the push has taken effect, the 9 is in the queue or on its way to thread 1.
\<close>

definition harmless :: "nat action \<Rightarrow> bool" where
  "harmless l = (case l of
       Call i op \<Rightarrow> i = 0 \<and> op = Push 9 \<or> i = 1
     | Return i r \<Rightarrow> r \<noteq> Popped 9
     | Exchanged x y \<Rightarrow> False)"

definition nine_kept :: "nat action list \<Rightarrow> nat atomic_queue \<Rightarrow> bool" where
  "nine_kept tr a \<longleftrightarrow>
     (\<forall>i. 1 < i \<longrightarrow> phase a i = Resting) \<and>
     phase a 0 \<in> {Resting, Called (Push 9), Done Pushed, Done Full} \<and>
     (phase a 0 = Done Pushed \<or> Return 0 Pushed \<in> set tr \<longrightarrow>
        9 \<in> set (elements a) \<or> phase a 1 = Done (Popped 9))"

lemma nine_kept_step:
  assumes "aq_step a l b" "nine_kept tr a" "list_all harmless l"
  shows "nine_kept (tr @ l) b"
  using assms
proof (induction rule: aq_step.induct)
  case (call a i op)
  then show ?case by (cases "i = 0"; cases "i = 1") (auto simp: nine_kept_def harmless_def)
next
  case (effect a i op r xs)
  have i: "i = 0 \<or> i = 1" using effect by (cases "1 < i") (auto simp: nine_kept_def)
  have "9 \<in> set xs \<or> r = Popped 9 \<and> i = 1" if "9 \<in> set (elements a)"
    using effect(2,1,3) that i by (cases rule: applies.cases) (auto simp: nine_kept_def)
  moreover have "9 \<in> set xs \<and> r = Pushed \<or> r = Full" if "i = 0"
    using effect(2,1,3) that by (cases rule: applies.cases) (auto simp: nine_kept_def)
  ultimately show ?case using effect(1,3) i by (auto simp: nine_kept_def)
next
  case (return a i r)
  then show ?case by (cases "i = 0"; cases "i = 1") (auto simp: nine_kept_def harmless_def)
next
  case (exchange j a new)
  then show ?case by (simp add: harmless_def)
qed

lemma nine_kept_run:
  "run aq_step s tr a \<Longrightarrow> nine_kept [] s \<Longrightarrow> list_all harmless tr \<Longrightarrow> nine_kept tr a"
  by (induction rule: run.induct) (auto intro: nine_kept_step)

text \<open>A \<open>pop\<close> called after that finds the 9 or something before it.\<close>

definition nine_found :: "nat action list \<Rightarrow> nat atomic_queue \<Rightarrow> bool" where
  "nine_found tr a \<longleftrightarrow> nine_kept [Return 0 Pushed] a \<and>
     (tr = [] \<or> tr = [Call 1 Pop] \<and> (phase a 1 = Called Pop \<or> (\<exists>d. phase a 1 = Done (Popped d))))"

lemma nine_found_step:
  assumes "aq_step a l b" "nine_found tr a" "prefix (tr @ l) [Call 1 Pop, Return 1 Empty]"
  shows "nine_found (tr @ l) b"
proof -
  have "list_all harmless [Call 1 Pop, Return 1 Empty]" by (simp add: harmless_def)
  then have "list_all harmless (tr @ l)" using assms(3) by (metis list_all_append prefix_def)
  then have "nine_kept ([Return 0 Pushed] @ l) b"
    using assms(2) by (intro nine_kept_step [OF assms(1)]) (simp_all add: nine_found_def)
  then have "nine_kept [Return 0 Pushed] b" by (auto simp: nine_kept_def)
  moreover have "tr @ l = [] \<or> tr @ l = [Call 1 Pop] \<and>
      (phase b 1 = Called Pop \<or> (\<exists>d. phase b 1 = Done (Popped d)))"
    using assms
  proof (induction rule: aq_step.induct)
    case (effect a i op r xs)
    have "\<exists>d. r = Popped d" if "i = 1" "op = Pop" "phase a 1 = Called Pop"
      using effect(2,3) that by (cases rule: applies.cases) (auto simp: nine_found_def nine_kept_def)
    then show ?case using effect by (auto simp: nine_found_def)
  qed (auto simp: nine_found_def prefix_def append_eq_Cons_conv)
  ultimately show ?thesis by (simp add: nine_found_def)
qed

lemma nine_found_run:
  "run aq_step s tr a \<Longrightarrow> nine_found [] s \<Longrightarrow> prefix tr [Call 1 Pop, Return 1 Empty] \<Longrightarrow> nine_found tr a"
proof (induction rule: run.induct)
  case (run_step s tr t l u)
  then show ?case using nine_found_step append_prefixD by metis
qed

lemma overtaking_not_atomic: "\<not> run aq_step (empty_queue n) (overtaking_trace k) a"
proof
  let ?pre = "[Call 0 (Push 9)] @ concat (replicate k (pair_trace 0)) @ [Return 0 Pushed]"
  let ?post = "[Call 1 (Push 8), Return 1 Pushed, Call 1 Pop, Return 1 (Popped 8), Call 1 Pop,
    Return 1 (Popped 9)]"
  assume "run aq_step (empty_queue n) (overtaking_trace k) a"
  then have "run aq_step (empty_queue n) (?pre @ [Call 1 Pop, Return 1 Empty] @ ?post) a"
    by (simp add: overtaking_trace_def)
  from aq_run_split [OF this] obtain b where b: "run aq_step (empty_queue n) ?pre b"
    and r: "run aq_step b ([Call 1 Pop, Return 1 Empty] @ ?post) a" by blast
  from aq_run_split [OF r] obtain c where
    c: "run aq_step b [Call 1 Pop, Return 1 Empty] c" by blast
  have "list_all harmless ?pre" by (induction k) (simp_all add: harmless_def)
  then have "nine_kept ?pre b"
    by (intro nine_kept_run [OF b]) (simp_all add: nine_kept_def empty_queue_def)
  then have "nine_found [] b" by (simp add: nine_found_def nine_kept_def)
  from nine_found_run [OF c this] show False by (simp add: nine_found_def)
qed

subsection \<open>The bound is needed\<close>

text \<open>
  Property C5: For every width \<open>w\<close> of the index (3 or more, as the constructor asks for two
  slots), the order of an \<open>mpmc_queue\<close> of two slots is lost after \<open>2 ^ (w - 1) - 1\<close> values, with
  one consumer and two producers: a producer that has read its slot as free for ticket 0 and
  sleeps until ticket \<open>2 ^ (w - 1)\<close> is near finds the same sequence number again, stores its
  value in a slot whose turn has not come and returns true; the next \<open>pop\<close> answers that the
  queue is empty, and a value pushed later is taken first. The values do not come out in the
  order in which they were stored, and no queue with atomic operations, of any capacity, gives
  these answers. For \<open>uint32_t\<close> this takes \<open>2 ^ 31 - 1\<close> values.
\<close>

theorem mpmc_order_lost:
  assumes "3 \<le> LENGTH('w::len)"
  shows "\<exists>s s' :: (nat, 'w word) mpmc_sys. mpmc_start s \<and> qsize (mq s) = 2 \<and>
    run mpmc_lstep s (overtaking_trace (2 ^ (LENGTH('w) - 1) - 1)) s' \<and>
    outs s' \<noteq> take (length (outs s')) (hist s') \<and>
    \<not> (\<exists>n a. run aq_step (empty_queue n) (overtaking_trace (2 ^ (LENGTH('w) - 1) - 1)) a)"
proof -
  let ?s = "wrap_sys (ring2 (0 :: 'w word)) Idle Idle [] []"
  obtain s' where "run mpmc_lstep ?s (overtaking_trace (2 ^ (LENGTH('w) - 1) - 1)) s'"
    and o: "outs s' \<noteq> take (length (outs s')) (hist s')"
    using overtaking_run [OF assms] by auto
  moreover have "qsize (mq ?s) = 2" by (simp add: wrap_sys_def ring2_def)
  ultimately show ?thesis using wrap_start [OF assms] overtaking_not_atomic by blast
qed

theorem mpmc_order_lost_witness:
  "\<exists>s s' :: (nat, u32) mpmc_sys. mpmc_start s \<and>
    run mpmc_lstep s (overtaking_trace (2 ^ (LENGTH(32) - 1) - 1)) s' \<and>
    outs s' \<noteq> take (length (outs s')) (hist s')"
proof -
  have "3 \<le> LENGTH(32)" by simp
  from mpmc_order_lost [OF this] show ?thesis by blast
qed

end
