(* ===== verification/Mpmc_Pack.thy ===== *)
theory Mpmc_Pack
  imports Mpmc_Theorems "HOL-Library.Multiset"
begin

text \<open>
  The queues built from \<open>mpmc_queue\<close>: the pack of \<open>G\<close> queues with its producers and consumers
  (mpmc_queue_pack.h) and the queue of owning pointers (pointer_mpmc_queue.h). Both are
  templates over the queue, whose \<open>push\<close> and \<open>pop\<close> are arguments here; what they rely on is the
  interface \<open>pop_source\<close>, which \<open>mpmc_pop\<close> provides.
\<close>

subsection \<open>The pack\<close>

record 'q pack =
  writers_count :: u64
  readers_count :: u64
  queues :: "'q list"

record producer =
  queue_index :: nat

record consumer =
  read_queue_index :: nat
  pop_count :: u32

text \<open>\<open>mk\<close> is what \<open>std::make_unique<Q>(qsz)\<close> gives, \<open>None\<close> when the constructor throws.\<close>

definition pack_new :: "nat \<Rightarrow> 'q option \<Rightarrow> 'q pack option" where
  "pack_new G mk = map_option (\<lambda>q. \<lparr>writers_count = 0, readers_count = 0, queues = replicate G q\<rparr>) mk"

definition producer_new :: "'q pack \<Rightarrow> producer \<times> 'q pack" where
  "producer_new p =
     (\<lparr>queue_index = unat (writers_count p) mod length (queues p)\<rparr>,
      p\<lparr>writers_count := writers_count p + 1\<rparr>)"

definition producer_push :: "('d \<Rightarrow> 'q \<Rightarrow> 'r \<times> 'q) \<Rightarrow> 'd \<Rightarrow> producer \<Rightarrow> 'q pack \<Rightarrow> 'r \<times> 'q pack" where
  "producer_push qpush d pr p = (case qpush d (queues p ! queue_index pr) of
     (r, q') \<Rightarrow> (r, p\<lparr>queues := (queues p)[queue_index pr := q']\<rparr>))"

definition consumer_new :: "'q pack \<Rightarrow> consumer \<times> 'q pack" where
  "consumer_new p =
     (\<lparr>read_queue_index = unat (readers_count p) mod length (queues p), pop_count = 0\<rparr>,
      p\<lparr>readers_count := readers_count p + 1\<rparr>)"

text \<open>The loop over the other queues, \<open>k\<close> of them still to try after queue \<open>i\<close>.\<close>

fun pack_scan :: "('q \<Rightarrow> 'd option \<times> 'q) \<Rightarrow> nat \<Rightarrow> nat \<Rightarrow> 'q list \<Rightarrow> 'd option \<times> nat \<times> 'q list" where
  "pack_scan qpop 0 i qs = (None, i, qs)"
| "pack_scan qpop (Suc k) i qs =
     (let i' = (i + 1) mod length qs in
      case qpop (qs ! i') of
        (Some d, q') \<Rightarrow> (Some d, i', qs[i' := q'])
      | (None, q') \<Rightarrow> pack_scan qpop k i' (qs[i' := q']))"

definition consumer_pop ::
  "('q \<Rightarrow> 'd option \<times> 'q) \<Rightarrow> nat \<Rightarrow> consumer \<Rightarrow> 'q pack \<Rightarrow> 'd option \<times> consumer \<times> 'q pack" where
  "consumer_pop qpop K c p =
     (let G = length (queues p); i = read_queue_index c in
      case qpop (queues p ! i) of
        (Some d, q') \<Rightarrow>
          (let n = pop_count c + 1;
               c' = (if K \<le> unat n then c\<lparr>pop_count := 0, read_queue_index := (i + 1) mod G\<rparr>
                     else c\<lparr>pop_count := n\<rparr>)
           in (Some d, c', p\<lparr>queues := (queues p)[i := q']\<rparr>))
      | (None, q') \<Rightarrow>
          (case pack_scan qpop (G - 1) i ((queues p)[i := q']) of
             (r, i', qs) \<Rightarrow> (r, c\<lparr>pop_count := 0, read_queue_index := i'\<rparr>, p\<lparr>queues := qs\<rparr>)))"

subsection \<open>The interface of the queues\<close>

locale pop_source =
  fixes qpop :: "'q \<Rightarrow> 'd option \<times> 'q"
    and holds :: "'q \<Rightarrow> 'd list \<Rightarrow> bool"
  assumes pop_some: "holds q (x # xs) \<Longrightarrow> \<exists>q'. qpop q = (Some x, q') \<and> holds q' xs"
    and pop_none: "holds q [] \<Longrightarrow> \<exists>q'. qpop q = (None, q') \<and> holds q' []"
begin

lemma scan_spec:
  assumes "list_all2 holds qs xss" "i < length qs"
    and "pack_scan qpop k i qs = (r, i', qs')"
  shows "i' < length qs \<and>
    (case r of
      None \<Rightarrow> list_all2 holds qs' xss \<and> (\<forall>m. 0 < m \<and> m \<le> k \<longrightarrow> xss ! ((i + m) mod length qs) = [])
    | Some d \<Rightarrow> \<exists>xs. xss ! i' = d # xs \<and> list_all2 holds qs' (xss[i' := xs]))"
  using assms
proof (induction k arbitrary: i qs)
  case 0
  then show ?case by auto
next
  case (Suc k)
  let ?i = "(i + 1) mod length qs"
  have i: "?i < length qs" using Suc.prems(2) by (intro mod_less_divisor) auto
  have h: "holds (qs ! ?i) (xss ! ?i)" using Suc.prems(1) i by (simp add: list_all2_conv_all_nth)
  show ?case
  proof (cases "xss ! ?i")
    case Nil
    then obtain q' where q': "qpop (qs ! ?i) = (None, q')" "holds q' []" using pop_none h by metis
    have all: "list_all2 holds (qs[?i := q']) xss"
      using Suc.prems(1) q'(2) Nil i by (simp add: list_all2_conv_all_nth nth_list_update)
    have step: "pack_scan qpop k ?i (qs[?i := q']) = (r, i', qs')"
      using Suc.prems(3) q'(1) by (simp add: Let_def)
    have shift: "(?i + m) mod length qs = (i + Suc m) mod length qs" for m
      by (simp add: mod_simps)
    have later: "xss ! ((i + m) mod length qs) = []"
      if pos: "0 < m" and up: "m \<le> Suc k" and z: "\<forall>m. 0 < m \<and> m \<le> k \<longrightarrow> xss ! ((?i + m) mod length qs) = []" for m
    proof (cases "m = 1")
      case True
      then show ?thesis using Nil by simp
    next
      case False
      then obtain m' where "m = Suc m'" "0 < m'" using pos False by (cases m) auto
      then show ?thesis using z up shift [of m'] by auto
    qed
    show ?thesis
      using Suc.IH [OF all _ step] i later by (cases r) auto
  next
    case (Cons x xs)
    then obtain q' where q': "qpop (qs ! ?i) = (Some x, q')" "holds q' xs" using pop_some h by metis
    then have "r = Some x" "i' = ?i" "qs' = qs[?i := q']"
      using Suc.prems(3) by (auto simp: Let_def)
    then show ?thesis
      using Suc.prems(1) q'(2) Cons i by (auto simp: list_all2_conv_all_nth nth_list_update)
  qed
qed

lemma all_slots:
  fixes i n j :: nat
  assumes "i < n" "\<forall>m. 0 < m \<and> m \<le> n - 1 \<longrightarrow> P ((i + m) mod n)" "P i" "j < n"
  shows "P j"
proof (cases "j = i")
  case False
  define m where "m = (j + n - i) mod n"
  have "(i + m) mod n = (i + (j + n - i)) mod n"
    unfolding m_def by (rule mod_add_right_eq)
  then have e: "(i + m) mod n = j" using assms(1,4) by simp
  have "m \<noteq> 0"
  proof
    assume "m = 0"
    then have "j = i" using e assms(1) by simp
    then show False using False by simp
  qed
  moreover have "m < n" unfolding m_def using assms(1) by (intro mod_less_divisor) auto
  ultimately have "P ((i + m) mod n)" using assms(2) by simp
  then show ?thesis using e by simp
qed (simp add: assms)

lemma consumer_pop_spec:
  assumes h: "list_all2 holds (queues p) xss" and c: "read_queue_index c < length (queues p)"
    and r: "consumer_pop qpop K c p = (r, c', p')"
  shows "read_queue_index c' < length (queues p') \<and> length (queues p') = length (queues p) \<and>
    (case r of
      None \<Rightarrow> (\<forall>xs\<in>set xss. xs = []) \<and> list_all2 holds (queues p') xss
    | Some d \<Rightarrow> \<exists>j xs. j < length xss \<and> xss ! j = d # xs \<and> list_all2 holds (queues p') (xss[j := xs]))"
proof -
  let ?i = "read_queue_index c" and ?G = "length (queues p)"
  have len: "length xss = ?G" using h by (simp add: list_all2_lengthD)
  have i: "(?i + 1) mod ?G < ?G" using c by (intro mod_less_divisor) auto
  have hi: "holds (queues p ! ?i) (xss ! ?i)" using h c by (simp add: list_all2_conv_all_nth)
  show ?thesis
  proof (cases "xss ! ?i")
    case (Cons x xs)
    then obtain q' where q': "qpop (queues p ! ?i) = (Some x, q')" "holds q' xs" using pop_some hi by metis
    have "list_all2 holds ((queues p)[?i := q']) (xss[?i := xs])"
      using h q'(2) by (simp add: list_all2_update_cong)
    then have E: "\<exists>j xs. j < length xss \<and> xss ! j = x # xs \<and> list_all2 holds ((queues p)[?i := q']) (xss[j := xs])"
      using Cons c len by (intro exI [of _ ?i] exI [of _ xs]) simp
    have "r = Some x" "queues p' = (queues p)[?i := q']" "read_queue_index c' < ?G"
      using r q'(1) c i by (auto simp: consumer_pop_def Let_def)
    then show ?thesis using E by simp
  next
    case Nil
    then obtain q' where q': "qpop (queues p ! ?i) = (None, q')" "holds q' []" using pop_none hi by metis
    have all: "list_all2 holds ((queues p)[?i := q']) xss"
      using h q'(2) Nil c by (simp add: list_all2_conv_all_nth nth_list_update)
    obtain i' qs where s: "pack_scan qpop (?G - 1) ?i ((queues p)[?i := q']) = (r, i', qs)"
      and c': "c' = c\<lparr>pop_count := 0, read_queue_index := i'\<rparr>" and p': "p' = p\<lparr>queues := qs\<rparr>"
      using r q'(1) by (auto simp: consumer_pop_def Let_def split: prod.splits)
    have spec: "i' < ?G \<and>
      (case r of
        None \<Rightarrow> list_all2 holds qs xss \<and> (\<forall>m. 0 < m \<and> m \<le> ?G - 1 \<longrightarrow> xss ! ((?i + m) mod ?G) = [])
      | Some d \<Rightarrow> \<exists>xs. xss ! i' = d # xs \<and> list_all2 holds qs (xss[i' := xs]))"
      using scan_spec [OF all _ s, unfolded length_list_update] c by simp
    show ?thesis
    proof (cases r)
      case None
      then have "xss ! j = []" if "j < ?G" for j
        using all_slots [of ?i ?G "\<lambda>k. xss ! k = []" j] c Nil that spec by simp
      then have "\<forall>xs\<in>set xss. xs = []" using len by (auto simp: in_set_conv_nth)
      then show ?thesis using None spec c' p' by (auto simp: list_all2_lengthD len)
    next
      case (Some d)
      then obtain xs where xs: "xss ! i' = d # xs" "list_all2 holds qs (xss[i' := xs])" using spec by auto
      then have "length qs = ?G" using len by (auto dest: list_all2_lengthD)
      then show ?thesis using Some spec c' p' len xs by auto
    qed
  qed
qed

end

text \<open>\<open>mpmc_queue::pop\<close>, run alone, provides the interface.\<close>

definition mpmc_qpop :: "('d::zero, 'w::len word) mpmc \<Rightarrow> 'd option \<times> ('d, 'w word) mpmc" where
  "mpmc_qpop q = (case mpmc_pop q of
     Some (PopOk d i, q') \<Rightarrow> (Some d, q') | Some (_, q') \<Rightarrow> (None, q') | None \<Rightarrow> (None, q))"

definition mpmc_holds :: "('d::zero, 'w::len word) mpmc \<Rightarrow> 'd list \<Rightarrow> bool" where
  "mpmc_holds q zs \<longleftrightarrow> (\<exists>xs ys. queue_ok q xs ys \<and> within TYPE('w) (length xs) (qsize q) \<and>
     zs = drop (length ys) xs)"

interpretation mpmc_src: pop_source mpmc_qpop mpmc_holds
proof
  fix q :: "('d::zero, 'w::len word) mpmc" and x xs
  assume "mpmc_holds q (x # xs)"
  then obtain h t where h: "queue_ok q h t" "within TYPE('w) (length h) (qsize q)" "x # xs = drop (length t) h"
    by (auto simp: mpmc_holds_def)
  have lt: "length t < length h" using h(3) by (metis drop_eq_Nil list.distinct(1) not_le_imp_less)
  then have d: "x = h ! length t" "xs = drop (Suc (length t)) h"
    using h(3) by (auto simp: Cons_nth_drop_Suc [symmetric])
  obtain q' where "mpmc_pop q = Some (PopOk (h ! length t) (word_of_nat (length t)), q')"
    "queue_ok q' h (t @ [h ! length t])" "qsize q' = qsize q"
    using pop_alone_some [OF h(1,2) lt] .
  moreover from this have "mpmc_holds q' xs"
    unfolding mpmc_holds_def using h(2) d
    by (intro exI [of _ h] exI [of _ "t @ [h ! length t]"]) simp
  ultimately show "\<exists>q'. mpmc_qpop q = (Some x, q') \<and> mpmc_holds q' xs"
    using d by (simp add: mpmc_qpop_def)
next
  fix q :: "('d::zero, 'w::len word) mpmc"
  assume "mpmc_holds q []"
  then obtain h t where h: "queue_ok q h t" "within TYPE('w) (length h) (qsize q)" "drop (length t) h = []"
    by (auto simp: mpmc_holds_def)
  then have "\<not> length t < length h" by simp
  from pop_alone_none [OF h(1,2) this] obtain q' where
    "mpmc_pop q = Some (PopEmpty, q')" "queue_ok q' h t" "qsize q' = qsize q" .
  moreover from this have "mpmc_holds q' []"
    unfolding mpmc_holds_def using h(2,3) by (intro exI [of _ h] exI [of _ t]) simp
  ultimately show "\<exists>q'. mpmc_qpop q = (None, q') \<and> mpmc_holds q' []"
    by (simp add: mpmc_qpop_def)
qed

subsection \<open>The queue of owning pointers\<close>

text \<open>
  A pointer is a number, 0 the null pointer. The state is the inner queue (its values, oldest
  first, and its capacity) and the pointers freed so far. \<open>push\<close> takes the caller's unique
  pointer by reference and releases it only when the queue took it; \<open>pop\<close> resets the caller's
  unique pointer, which frees what it held.
\<close>

record pointer_queue =
  pq_elems :: "nat list"
  pq_cap :: nat
  pq_freed :: "nat list"

definition free_ptr :: "nat \<Rightarrow> pointer_queue \<Rightarrow> pointer_queue" where
  "free_ptr v s = (if v = 0 then s else s\<lparr>pq_freed := pq_freed s @ [v]\<rparr>)"

definition ptr_push :: "nat \<Rightarrow> pointer_queue \<Rightarrow> bool \<times> nat \<times> pointer_queue" where
  "ptr_push v s = (if length (pq_elems s) < pq_cap s
     then (True, 0, s\<lparr>pq_elems := pq_elems s @ [v]\<rparr>) else (False, v, s))"

definition ptr_pop :: "nat \<Rightarrow> pointer_queue \<Rightarrow> bool \<times> nat \<times> pointer_queue" where
  "ptr_pop v s = (case pq_elems s of
     [] \<Rightarrow> (False, v, s)
   | nv # rest \<Rightarrow> (True, nv, free_ptr v (s\<lparr>pq_elems := rest\<rparr>)))"

definition ptr_destroy :: "pointer_queue \<Rightarrow> pointer_queue" where
  "ptr_destroy s = fold free_ptr (pq_elems s) (s\<lparr>pq_elems := []\<rparr>)"

text \<open>The non-null pointers someone owns: the queue, the freed ones, and the caller's variable.\<close>

definition accounted :: "nat \<Rightarrow> pointer_queue \<Rightarrow> nat multiset" where
  "accounted v s = filter_mset (\<lambda>x. x \<noteq> 0) ({#v#} + mset (pq_elems s) + mset (pq_freed s))"

lemma free_ptr_simps:
  "pq_elems (free_ptr v s) = pq_elems s" "pq_freed (free_ptr v s) = pq_freed s @ (if v = 0 then [] else [v])"
  by (simp_all add: free_ptr_def)

lemma fold_free:
  "pq_elems (fold free_ptr vs s) = pq_elems s"
  "pq_freed (fold free_ptr vs s) = pq_freed s @ filter (\<lambda>x. x \<noteq> 0) vs"
  by (induction vs arbitrary: s) (simp_all add: free_ptr_simps)

subsection \<open>Properties\<close>

text \<open>
  A consumer of a pack whose queues hold the lists \<open>xss\<close> answers false only when
  every one of them is empty, wherever its scan starts; otherwise it takes the oldest value of
  one queue and leaves the others as they are.
\<close>

theorem pack_pop_complete:
  fixes p :: "(('d::zero, 'w::len word) mpmc) pack"
  assumes "list_all2 mpmc_holds (queues p) xss" "read_queue_index c < length (queues p)"
    and "consumer_pop mpmc_qpop K c p = (r, c', p')"
  shows "read_queue_index c' < length (queues p') \<and> length (queues p') = length (queues p) \<and>
    (case r of
      None \<Rightarrow> (\<forall>xs\<in>set xss. xs = []) \<and> list_all2 mpmc_holds (queues p') xss
    | Some d \<Rightarrow> \<exists>j xs. j < length xss \<and> xss ! j = d # xs \<and> list_all2 mpmc_holds (queues p') (xss[j := xs]))"
  using mpmc_src.consumer_pop_spec [OF assms] .

definition two_queues :: "((u32, u32) mpmc) pack" where
  "two_queues = \<lparr>writers_count = 0, readers_count = 1, queues = [mq demo0, mq demo2]\<rparr>"

theorem pack_pop_complete_witness:
  "fst (consumer_pop mpmc_qpop 3 \<lparr>read_queue_index = 0, pop_count = 0\<rparr> two_queues) = Some 8"
proof -
  let ?c = "\<lparr>read_queue_index = 0, pop_count = 0\<rparr>"
  obtain r c' p' where r: "consumer_pop mpmc_qpop 3 ?c two_queues = (r, c', p')"
    by (cases "consumer_pop mpmc_qpop 3 ?c two_queues")
  have w: "within TYPE(32) (length (hist demo0)) (qsize (mq demo0))" by (simp add: within_def demo0_def)
  have "mpmc_holds (mq demo0) []"
    unfolding mpmc_holds_def using reachable_queue_ok [OF demo0_start rtranclp.rtrancl_refl w] w
    by (intro exI [of _ "[]"]) (simp add: demo0_def)
  moreover have "mpmc_holds (mq demo2) [8]"
    unfolding mpmc_holds_def using reachable_queue_ok [OF demo0_start demo2_steps demo2_within] demo2_within
    by (intro exI [of _ "[7, 8]"] exI [of _ "[7]"]) (simp add: demo2_hist)
  ultimately have "list_all2 mpmc_holds (queues two_queues) [[], [8]]"
    by (simp add: two_queues_def)
  from pack_pop_complete [OF this _ r] have "r = Some 8"
    by (cases r) (auto simp: two_queues_def less_Suc_eq)
  then show ?thesis using r by simp
qed

text \<open>
  The queue of owning pointers neither leaks nor frees twice: \<open>push\<close>, taken or
  refused, \<open>pop\<close>, into a variable that may own something, and the destructor keep the
  multiset of the pointers owned by the caller, queued or freed; the destructor leaves nothing
  queued.
\<close>

theorem ptr_ownership:
  "(case ptr_push v s of (b, v', s') \<Rightarrow> accounted v' s' = accounted v s) \<and>
   (case ptr_pop v s of (b, v', s') \<Rightarrow> accounted v' s' = accounted v s) \<and>
   accounted v (ptr_destroy s) = accounted v s \<and> pq_elems (ptr_destroy s) = []"
  by (auto simp: ptr_push_def ptr_pop_def ptr_destroy_def accounted_def free_ptr_simps fold_free multiset_eq_iff
      split: list.splits)

end
