(* ===== verification/Fix_Types.thy ===== *)
theory Fix_Types
  imports Prelude
begin

text \<open>
  The FIX adapter (diff/cpp_play/FixAdapter): the field types and field identifiers of the
  trading system's wire protocol (protocol/include/msh_field_type.h, ext_property.h,
  msg_header.h, common/include/fix_consts.h). The numeric codes (espdI.h), the byte order of
  the wire integers (endian_wrapper.h) and the capacity of a buffer (buffer.h) are not part of
  the repository: they are the fields of the record \<open>espd\<close>, an argument of every definition
  that uses them, and \<open>espd_ok\<close> says what the code relies on.
\<close>

subsection \<open>Field types\<close>

datatype ftype =
    CFETI_FIELDTYPE_INT8 | CFETI_FIELDTYPE_BYTE | CFETI_FIELDTYPE_INT16 | CFETI_FIELDTYPE_UINT16
  | CFETI_FIELDTYPE_INT32 | CFETI_FIELDTYPE_UINT32 | CFETI_FIELDTYPE_DATETIME
  | CFETI_FIELDTYPE_DECIMAL | CFETI_FIELDTYPE_STRING | CFETI_FIELDTYPE_BUFFER
  | CFETI_FIELDTYPE_BYTESTREAM | CFETI_FIELDTYPE_EMPTY

datatype native = Int8 | Uint8 | Int16 | Uint16 | Int32 | Uint32 | Double | Std_string | Void

text \<open>The specialisations of \<open>MsgFieldT\<close>: \<open>fixed_size\<close>, \<open>value\<close> and \<open>native_type\<close>.\<close>

fun fixed_size :: "ftype \<Rightarrow> bool" where
  "fixed_size CFETI_FIELDTYPE_STRING = False"
| "fixed_size CFETI_FIELDTYPE_BUFFER = False"
| "fixed_size CFETI_FIELDTYPE_BYTESTREAM = False"
| "fixed_size _ = True"

fun field_value :: "ftype \<Rightarrow> ftype" where
  "field_value CFETI_FIELDTYPE_DATETIME = CFETI_FIELDTYPE_UINT32"
| "field_value t = t"

fun native_type :: "ftype \<Rightarrow> native" where
  "native_type CFETI_FIELDTYPE_INT8 = Int8"
| "native_type CFETI_FIELDTYPE_BYTE = Uint8"
| "native_type CFETI_FIELDTYPE_INT16 = Int16"
| "native_type CFETI_FIELDTYPE_UINT16 = Uint16"
| "native_type CFETI_FIELDTYPE_INT32 = Int32"
| "native_type CFETI_FIELDTYPE_UINT32 = Uint32"
| "native_type CFETI_FIELDTYPE_DATETIME = Uint32"
| "native_type CFETI_FIELDTYPE_DECIMAL = Double"
| "native_type CFETI_FIELDTYPE_STRING = Std_string"
| "native_type CFETI_FIELDTYPE_BUFFER = Std_string"
| "native_type CFETI_FIELDTYPE_BYTESTREAM = Std_string"
| "native_type CFETI_FIELDTYPE_EMPTY = Void"

fun native_size :: "native \<Rightarrow> nat" where
  "native_size Int8 = 1"
| "native_size Uint8 = 1"
| "native_size Int16 = 2"
| "native_size Uint16 = 2"
| "native_size Int32 = 4"
| "native_size Uint32 = 4"
| "native_size Double = 8"
| "native_size Std_string = 0"
| "native_size Void = 0"

subsection \<open>Field identifiers\<close>

datatype fid =
    CFETP_FIELD_ORIG_CLIENT_ORDER_ID | CFETP_FIELD_SESSIONID | CFETP_FIELD_TS_ID
  | CFETP_FIELD_TS_PREF | CFETP_FIELD_PASSWORD | CFETP_FIELD_USERNAME | CFETP_FIELD_GMT_DELTA
  | CFETP_FIELD_IDENT_COMPANY | CFETP_FIELD_IDENT_APPLICATION | CFETP_FIELD_IDENT_VERSION
  | CFETP_FIELD_COMPONENT_TYPE | CFETP_FIELD_IDENT_USER_OS | CFETP_FIELD_IDENT_SDK_VERSION_ID
  | CFETP_FIELD_EXT_TS_SESSIONID | CFETP_FIELD_SOURCE_ID | CFETP_FIELD_INSTNAME
  | CFETP_FIELD_NUM_PREFERENCES | CFETP_FIELD_CLIENT_ORDER_ID | CFETP_FIELD_PRICE
  | CFETP_FIELD_SIZE | CFETP_FIELD_INDICATOR | CFETP_FIELD_PREFERENCE_ID
  | CFETP_FIELD_PREFERENCE_TYPE | CFETP_FIELD_ORDER_INFO_TYPE | CFETP_FIELD_CMDPREF
  | CFETP_FIELD_TRADE_PREF2 | CFETP_FIELD_MSGTYPE | CFETP_FIELD_REQUEST_ID
  | CFETP_FIELD_STATUSTEXT | CFETP_FIELD_CMD | CFETP_FIELD_PREFERENCE_VALUE | CFETP_FIELD_ID

text \<open>\<open>IdType<id>::type\<close>, \<open>None\<close> for the identifiers without a specialisation.\<close>

fun id_type :: "fid \<Rightarrow> ftype option" where
  "id_type CFETP_FIELD_ORIG_CLIENT_ORDER_ID = Some CFETI_FIELDTYPE_STRING"
| "id_type CFETP_FIELD_SESSIONID = Some CFETI_FIELDTYPE_STRING"
| "id_type CFETP_FIELD_TS_ID = Some CFETI_FIELDTYPE_UINT32"
| "id_type CFETP_FIELD_TS_PREF = Some CFETI_FIELDTYPE_UINT32"
| "id_type CFETP_FIELD_PASSWORD = Some CFETI_FIELDTYPE_STRING"
| "id_type CFETP_FIELD_USERNAME = Some CFETI_FIELDTYPE_STRING"
| "id_type CFETP_FIELD_GMT_DELTA = Some CFETI_FIELDTYPE_INT32"
| "id_type CFETP_FIELD_IDENT_COMPANY = Some CFETI_FIELDTYPE_STRING"
| "id_type CFETP_FIELD_IDENT_APPLICATION = Some CFETI_FIELDTYPE_STRING"
| "id_type CFETP_FIELD_IDENT_VERSION = Some CFETI_FIELDTYPE_STRING"
| "id_type CFETP_FIELD_COMPONENT_TYPE = Some CFETI_FIELDTYPE_UINT32"
| "id_type CFETP_FIELD_IDENT_USER_OS = Some CFETI_FIELDTYPE_STRING"
| "id_type CFETP_FIELD_IDENT_SDK_VERSION_ID = Some CFETI_FIELDTYPE_UINT32"
| "id_type CFETP_FIELD_EXT_TS_SESSIONID = Some CFETI_FIELDTYPE_UINT32"
| "id_type CFETP_FIELD_SOURCE_ID = Some CFETI_FIELDTYPE_STRING"
| "id_type CFETP_FIELD_INSTNAME = Some CFETI_FIELDTYPE_STRING"
| "id_type CFETP_FIELD_NUM_PREFERENCES = Some CFETI_FIELDTYPE_UINT32"
| "id_type CFETP_FIELD_CLIENT_ORDER_ID = Some CFETI_FIELDTYPE_STRING"
| "id_type CFETP_FIELD_PRICE = Some CFETI_FIELDTYPE_DECIMAL"
| "id_type CFETP_FIELD_SIZE = Some CFETI_FIELDTYPE_DECIMAL"
| "id_type CFETP_FIELD_INDICATOR = Some CFETI_FIELDTYPE_BYTE"
| "id_type CFETP_FIELD_PREFERENCE_ID = Some CFETI_FIELDTYPE_UINT32"
| "id_type CFETP_FIELD_PREFERENCE_TYPE = Some CFETI_FIELDTYPE_UINT32"
| "id_type CFETP_FIELD_ORDER_INFO_TYPE = Some CFETI_FIELDTYPE_UINT32"
| "id_type CFETP_FIELD_CMDPREF = Some CFETI_FIELDTYPE_UINT32"
| "id_type CFETP_FIELD_TRADE_PREF2 = Some CFETI_FIELDTYPE_UINT32"
| "id_type _ = None"

subsection \<open>The wire\<close>

datatype msg_type =
    CFETP_NOTIFY | CFETP_RATIFY | CFETP_ROUNDTRIP | CFETP_CONNECT_REPLY | CFETP_TRADING_SESSION
  | CFETP_COMPONENT | CFETP_SYSTEM_REPLY | CFETP_CONNECT | CFETP_POST_MESSAGE | CFETP_UNDEFINED

record espd =
  field_code :: "fid \<Rightarrow> u16"
  type_code :: "ftype \<Rightarrow> u8"
  msg_code :: "msg_type \<Rightarrow> u16"
  enc16 :: "u16 \<Rightarrow> u8 list"
  dec16 :: "u8 list \<Rightarrow> u16"
  enc32 :: "u32 \<Rightarrow> u8 list"
  dec32 :: "u8 list \<Rightarrow> u32"
  enc64 :: "u64 \<Rightarrow> u8 list"
  dec64 :: "u8 list \<Rightarrow> u64"
  CFETP_ID :: u16
  CFETP_VERSION :: u16
  MAX_DATA_SIZE :: nat

text \<open>
  What the code relies on: the codes are distinct, the wire integers have their own width and
  are read back as they were written, and a buffer fits the 16-bit lengths of the header.
\<close>

definition espd_ok :: "espd \<Rightarrow> bool" where
  "espd_ok E \<longleftrightarrow> inj (field_code E) \<and> inj (type_code E) \<and> inj (msg_code E) \<and>
     (\<forall>x. length (enc16 E x) = 2 \<and> dec16 E (enc16 E x) = x) \<and>
     (\<forall>x. length (enc32 E x) = 4 \<and> dec32 E (enc32 E x) = x) \<and>
     (\<forall>x. length (enc64 E x) = 8 \<and> dec64 E (enc64 E x) = x) \<and>
     MAX_DATA_SIZE E < 2 ^ 16"

lemma espd_okD:
  assumes "espd_ok E"
  shows "inj (field_code E)" "inj (type_code E)" "inj (msg_code E)"
    "length (enc16 E a) = 2" "dec16 E (enc16 E a) = a"
    "length (enc32 E b) = 4" "dec32 E (enc32 E b) = b"
    "length (enc64 E c) = 8" "dec64 E (enc64 E c) = c"
    "MAX_DATA_SIZE E < 2 ^ 16"
  using assms by (simp_all add: espd_ok_def)

text \<open>\<open>MsgHeader\<close>: the bytes of the header and the three members the parser reads.\<close>

record msg_header =
  sequenceNo :: u32
  messageType :: u16
  messageFlags :: u8
  numFields :: u16
  bodyLength :: u16

definition msg_header_new :: "u32 \<Rightarrow> u16 \<Rightarrow> u16 \<Rightarrow> u16 \<Rightarrow> u16 \<Rightarrow> msg_header" where
  "msg_header_new s t f n l =
     \<lparr>sequenceNo = s, messageType = t, messageFlags = ucast f, numFields = n, bodyLength = l\<rparr>"

definition header_bytes :: "espd \<Rightarrow> msg_header \<Rightarrow> u8 list" where
  "header_bytes E h = enc16 E (CFETP_ID E) @ enc16 E (CFETP_VERSION E) @ enc32 E (sequenceNo h) @
     enc16 E (messageType h) @ [messageFlags h] @ enc16 E (numFields h) @ enc16 E (bodyLength h)"

definition HDR :: nat where "HDR = 15"

definition bytes_at :: "u8 list \<Rightarrow> nat \<Rightarrow> nat \<Rightarrow> u8 list" where
  "bytes_at m p n = take n (drop p m)"

definition get_messageType :: "espd \<Rightarrow> u8 list \<Rightarrow> u16" where
  "get_messageType E m = dec16 E (bytes_at m 8 2)"

definition get_numFields :: "espd \<Rightarrow> u8 list \<Rightarrow> u16" where
  "get_numFields E m = dec16 E (bytes_at m 11 2)"

definition get_length :: "espd \<Rightarrow> u8 list \<Rightarrow> u16" where
  "get_length E m = dec16 E (bytes_at m 13 2)"

text \<open>\<open>FldHdr\<close>: two bytes of identifier, one of type.\<close>

definition FLD_HDR :: nat where "FLD_HDR = 3"

definition fld_hdr_bytes :: "espd \<Rightarrow> fid \<Rightarrow> ftype \<Rightarrow> u8 list" where
  "fld_hdr_bytes E i t = enc16 E (field_code E i) @ [type_code E t]"

definition fld_id_at :: "espd \<Rightarrow> u8 list \<Rightarrow> nat \<Rightarrow> u16" where
  "fld_id_at E m p = dec16 E (bytes_at m p 2)"

definition fld_type_at :: "u8 list \<Rightarrow> nat \<Rightarrow> u8" where
  "fld_type_at m p = m ! (p + 2)"

text \<open>The data of a field: numbers at their width, a double as its 64 bits, strings as bytes.\<close>

datatype fval = V8 u8 | V16 u16 | V32 u32 | V64 u64 | VStr "u8 list"

fun val_bytes :: "espd \<Rightarrow> fval \<Rightarrow> u8 list" where
  "val_bytes E (V8 x) = [x]"
| "val_bytes E (V16 x) = enc16 E x"
| "val_bytes E (V32 x) = enc32 E x"
| "val_bytes E (V64 x) = enc64 E x"
| "val_bytes E (VStr s) = s @ [0]"

fun val_fits :: "native \<Rightarrow> fval \<Rightarrow> bool" where
  "val_fits Int8 (V8 x) = True"
| "val_fits Uint8 (V8 x) = True"
| "val_fits Int16 (V16 x) = True"
| "val_fits Uint16 (V16 x) = True"
| "val_fits Int32 (V32 x) = True"
| "val_fits Uint32 (V32 x) = True"
| "val_fits Double (V64 x) = True"
| "val_fits Std_string (VStr s) = (0 \<notin> set s)"
| "val_fits _ _ = False"

text \<open>\<open>MsgField<T>::get_data\<close> at a position.\<close>

fun get_data :: "espd \<Rightarrow> ftype \<Rightarrow> u8 list \<Rightarrow> nat \<Rightarrow> fval" where
  "get_data E t m p = (case native_type t of
     Int8 \<Rightarrow> V8 (m ! (p + FLD_HDR))
   | Uint8 \<Rightarrow> V8 (m ! (p + FLD_HDR))
   | Int16 \<Rightarrow> V16 (dec16 E (bytes_at m (p + FLD_HDR) 2))
   | Uint16 \<Rightarrow> V16 (dec16 E (bytes_at m (p + FLD_HDR) 2))
   | Int32 \<Rightarrow> V32 (dec32 E (bytes_at m (p + FLD_HDR) 4))
   | Uint32 \<Rightarrow> V32 (dec32 E (bytes_at m (p + FLD_HDR) 4))
   | Double \<Rightarrow> V64 (dec64 E (bytes_at m (p + FLD_HDR) 8))
   | Std_string \<Rightarrow> VStr (takeWhile (\<lambda>b. b \<noteq> 0) (drop (p + FLD_HDR) m))
   | Void \<Rightarrow> VStr [])"

declare get_data.simps [simp del]

text \<open>\<open>ReturnT()\<close>: the default value of a native type.\<close>

fun default_val :: "native \<Rightarrow> fval" where
  "default_val Int8 = V8 0"
| "default_val Uint8 = V8 0"
| "default_val Int16 = V16 0"
| "default_val Uint16 = V16 0"
| "default_val Int32 = V32 0"
| "default_val Uint32 = V32 0"
| "default_val Double = V64 0"
| "default_val Std_string = VStr []"
| "default_val Void = VStr []"

definition FieldFixedSize :: "ftype \<Rightarrow> nat" where
  "FieldFixedSize t = FLD_HDR + native_size (native_type t)"

text \<open>
  \<open>strFldSize\<close>: \<open>memchr\<close> searches \<open>maxSize\<close> bytes from the data on, although the data starts
  after the field header. \<open>None\<close> is \<open>INVALID_FLD_SZ\<close>.
\<close>

definition memchr0 :: "u8 list \<Rightarrow> nat \<Rightarrow> nat \<Rightarrow> nat option" where
  "memchr0 m p n = (let s = takeWhile (\<lambda>b. b \<noteq> 0) (bytes_at m p n)
     in if length s < length (bytes_at m p n) then Some (p + length s) else None)"

definition strFldSize :: "u8 list \<Rightarrow> nat \<Rightarrow> nat \<Rightarrow> nat option" where
  "strFldSize m p maxSize =
     (if maxSize \<le> FLD_HDR then None
      else case memchr0 m (p + FLD_HDR) maxSize of
        None \<Rightarrow> None | Some end_pos \<Rightarrow> Some (end_pos - p + 1))"

subsection \<open>Lemmas on the wire\<close>

lemma length_header_bytes: "espd_ok E \<Longrightarrow> length (header_bytes E h) = HDR"
  by (simp add: header_bytes_def HDR_def espd_okD)

lemma length_fld_hdr_bytes: "espd_ok E \<Longrightarrow> length (fld_hdr_bytes E i t) = FLD_HDR"
  by (simp add: fld_hdr_bytes_def FLD_HDR_def espd_okD)

lemma length_val_bytes:
  "espd_ok E \<Longrightarrow> val_fits (native_type t) v \<Longrightarrow> native_type t \<noteq> Std_string \<Longrightarrow>
   length (val_bytes E v) = native_size (native_type t)"
  by (cases "native_type t"; cases v) (simp_all add: espd_okD)

lemma bytes_at_append:
  "length a = p \<Longrightarrow> length b = n \<Longrightarrow> bytes_at (a @ b @ c) p n = b"
  by (simp add: bytes_at_def)

lemma header_reads:
  assumes "espd_ok E"
  shows "get_messageType E (header_bytes E h @ rest) = messageType h"
    "get_numFields E (header_bytes E h @ rest) = numFields h"
    "get_length E (header_bytes E h @ rest) = bodyLength h"
  using assms
  by (simp_all add: get_messageType_def get_numFields_def get_length_def header_bytes_def
      bytes_at_def espd_okD)

lemma takeWhile_nonzero: "0 \<notin> set (s :: u8 list) \<Longrightarrow> takeWhile (\<lambda>b. b \<noteq> 0) (s @ 0 # r) = s"
  by (induction s) auto

end
