(* ===== verification/Fix_Codec.thy ===== *)
theory Fix_Codec
  imports Fix_Types
begin

text \<open>
  The encoder of messages to the trading system (protocol/include/msg_encoder.h) and the parser
  of messages from it (protocol/include/msg_from_ts_parser.h), with the round trip between
  them. A buffer is the memory \<open>get_buf()\<close> points to and the offset that \<open>get_offset\<close>,
  \<open>set_offset\<close> and \<open>add_offset\<close> read and write.
\<close>

subsection \<open>FieldEncoder\<close>

datatype fix_error =
    FIXError string | RejectError string | ESPDError string | ESPDMsgError string
  | FieldNotFound | Bad_numeric_cast | Bad_lexical_cast

record encoder =
  mem :: "u8 list"
  offset :: nat
  field_count :: u16

definition too_small :: "fix_error + 'a" where
  "too_small = Inl (FIXError ''Cannot append to the buffer. Buffer is too small. '')"

definition put :: "u8 list \<Rightarrow> encoder \<Rightarrow> encoder" where
  "put bs st = st\<lparr>mem := take (offset st) (mem st) @ bs @ drop (offset st + length bs) (mem st),
     offset := offset st + length bs\<rparr>"

definition append_bytes :: "espd \<Rightarrow> u8 list \<Rightarrow> encoder \<Rightarrow> fix_error + encoder" where
  "append_bytes E bs st =
     (if length bs = 0 then Inr st
      else if MAX_DATA_SIZE E < offset st + length bs then too_small
      else Inr (put bs st))"

text \<open>\<open>appendObj\<close> and the \<open>append<T>\<close> overloads: \<open>testAppend\<close>, then the object is built in place.\<close>

definition append_obj :: "espd \<Rightarrow> u8 list \<Rightarrow> encoder \<Rightarrow> fix_error + encoder" where
  "append_obj E bs st =
     (if MAX_DATA_SIZE E < offset st + length bs then too_small else Inr (put bs st))"

definition append_str :: "espd \<Rightarrow> u8 list \<Rightarrow> encoder \<Rightarrow> fix_error + encoder" where
  "append_str E s st =
     (let len = length s; off = offset st + len + 1 in
      if off \<le> MAX_DATA_SIZE E then Inr (put (s @ [0]) st) else too_small)"

text \<open>The overload for \<open>char *\<close>: \<open>s\<close> is the memory from the pointer on.\<close>

definition append_cstr :: "espd \<Rightarrow> u8 list \<Rightarrow> encoder \<Rightarrow> fix_error + encoder" where
  "append_cstr E s st = (case memchr0 s 0 (MAX_DATA_SIZE E - offset st) of
     None \<Rightarrow> too_small
   | Some len \<Rightarrow> Inr (put (take (len + 1) s) st))"

subsection \<open>MsgEncoder\<close>

definition encoder_reset :: "u8 list \<Rightarrow> encoder" where
  "encoder_reset m = \<lparr>mem = m, offset = 0, field_count = 0\<rparr>"

definition enc_append_obj :: "espd \<Rightarrow> u8 list \<Rightarrow> nat \<Rightarrow> encoder \<Rightarrow> fix_error + encoder" where
  "enc_append_obj E bs fldNum st = (case append_obj E bs st of
     Inl e \<Rightarrow> Inl e | Inr st' \<Rightarrow> Inr (st'\<lparr>field_count := field_count st' + word_of_nat fldNum\<rparr>))"

definition enc_append_buffer :: "espd \<Rightarrow> u8 list \<Rightarrow> u16 \<Rightarrow> encoder \<Rightarrow> fix_error + encoder" where
  "enc_append_buffer E bs fldNum st = (case append_bytes E bs st of
     Inl e \<Rightarrow> Inl e | Inr st' \<Rightarrow> Inr (st'\<lparr>field_count := field_count st' + fldNum\<rparr>))"

text \<open>
  The three \<open>appendField<id>\<close>: the field header, then the data through \<open>append<espd_type>\<close>,
  \<open>append(const std::string&)\<close> or \<open>append(char*)\<close>.
\<close>

fun append_val :: "espd \<Rightarrow> fval \<Rightarrow> encoder \<Rightarrow> fix_error + encoder" where
  "append_val E (VStr s) st = append_str E s st"
| "append_val E v st = append_obj E (val_bytes E v) st"

definition append_field :: "espd \<Rightarrow> fid \<Rightarrow> fval \<Rightarrow> encoder \<Rightarrow> fix_error + encoder" where
  "append_field E i v st =
     (case append_obj E (fld_hdr_bytes E i (field_value (the (id_type i)))) st of
        Inl e \<Rightarrow> Inl e
      | Inr st1 \<Rightarrow> (case append_val E v st1 of
          Inl e \<Rightarrow> Inl e
        | Inr st2 \<Rightarrow> Inr (st2\<lparr>field_count := field_count st2 + 1\<rparr>)))"

definition append_field_cstr :: "espd \<Rightarrow> fid \<Rightarrow> u8 list \<Rightarrow> encoder \<Rightarrow> fix_error + encoder" where
  "append_field_cstr E i s st = (case append_obj E (enc16 E (field_code E i)) st of
     Inl e \<Rightarrow> Inl e
   | Inr st1 \<Rightarrow> (case append_obj E [type_code E (field_value (the (id_type i)))] st1 of
       Inl e \<Rightarrow> Inl e
     | Inr st2 \<Rightarrow> (case append_cstr E s st2 of
         Inl e \<Rightarrow> Inl e
       | Inr st3 \<Rightarrow> Inr (st3\<lparr>field_count := field_count st3 + 1\<rparr>))))"

text \<open>
  \<open>insertHdr\<close>: the offset is kept in 16 bits; \<open>numeric_cast\<close> throws when the data length does
  not fit 16 bits.
\<close>

definition insert_hdr :: "espd \<Rightarrow> u32 \<Rightarrow> u16 \<Rightarrow> u16 \<Rightarrow> encoder \<Rightarrow> fix_error + encoder" where
  "insert_hdr E seqno mtype flags st =
     (let off = offset st mod 2 ^ 16; len = int off - int HDR in
      if len < 0 \<or> 2 ^ 16 \<le> len then Inl Bad_numeric_cast
      else case append_obj E
          (header_bytes E (msg_header_new seqno mtype flags (field_count st) (word_of_int len)))
          (st\<lparr>offset := 0\<rparr>) of
        Inl e \<Rightarrow> Inl e
      | Inr st' \<Rightarrow> Inr (st'\<lparr>offset := off\<rparr>))"

subsection \<open>MsgFromTSParser\<close>

record parser =
  buf :: "u8 list"
  pos :: nat
  bodySize :: nat
  p_numFields :: u16
  msgType :: u16
  currentNumFields :: u16
  flds :: "nat list"

definition parser_reset :: "espd \<Rightarrow> u8 list \<Rightarrow> parser \<Rightarrow> parser" where
  "parser_reset E b st = st\<lparr>buf := b, flds := [], bodySize := 0, p_numFields := 0,
     msgType := msg_code E CFETP_UNDEFINED\<rparr>"

definition setHeader :: "espd \<Rightarrow> parser \<Rightarrow> parser" where
  "setHeader E st = st\<lparr>bodySize := unat (get_length E (buf st)),
     p_numFields := get_numFields E (buf st), msgType := get_messageType E (buf st)\<rparr>"

definition nextFldSize :: "espd \<Rightarrow> parser \<Rightarrow> nat \<Rightarrow> nat option" where
  "nextFldSize E st maxSize =
     (let ty = fld_type_at (buf st) (pos st); is = (\<lambda>t. ty = type_code E t) in
      if is CFETI_FIELDTYPE_UINT32 \<or> is CFETI_FIELDTYPE_INT32 \<or> is CFETI_FIELDTYPE_DATETIME
        then Some (FieldFixedSize CFETI_FIELDTYPE_INT32)
      else if is CFETI_FIELDTYPE_DECIMAL then Some (FieldFixedSize CFETI_FIELDTYPE_DECIMAL)
      else if is CFETI_FIELDTYPE_STRING then strFldSize (buf st) (pos st) maxSize
      else if is CFETI_FIELDTYPE_BYTE \<or> is CFETI_FIELDTYPE_INT8
        then Some (FieldFixedSize CFETI_FIELDTYPE_INT8)
      else if is CFETI_FIELDTYPE_UINT16 \<or> is CFETI_FIELDTYPE_INT16
        then Some (FieldFixedSize CFETI_FIELDTYPE_INT16)
      else None)"

definition firstFld :: "parser \<Rightarrow> nat \<times> parser" where
  "firstFld st = (HDR, st\<lparr>pos := HDR, currentNumFields := 0\<rparr>)"

text \<open>\<open>None\<close> is the null pointer; the warnings of the code are not part of the answer.\<close>

definition nextFld :: "espd \<Rightarrow> parser \<Rightarrow> nat option \<times> parser" where
  "nextFld E st =
     (let max_size = int (bodySize st) + int HDR - int (pos st) in
      if max_size \<le> int FLD_HDR then (None, st)
      else case nextFldSize E st (nat max_size) of
        None \<Rightarrow> (None, st)
      | Some sz \<Rightarrow>
          if int sz < max_size
          then (Some (pos st + sz), st\<lparr>currentNumFields := currentNumFields st + 1, pos := pos st + sz\<rparr>)
          else if int sz = max_size then (None, st\<lparr>currentNumFields := currentNumFields st + 1\<rparr>)
          else (None, st))"

lemma nextFldSize_pos: "nextFldSize E st n = Some sz \<Longrightarrow> FLD_HDR < sz"
  by (auto simp: nextFldSize_def Let_def FieldFixedSize_def strFldSize_def memchr0_def FLD_HDR_def
      split: if_splits option.splits)

lemma nextFld_progress:
  assumes "nextFld E st = (Some p, st')"
  shows "pos st' = p \<and> pos st < p \<and> p < bodySize st + HDR \<and> bodySize st' = bodySize st \<and>
    buf st' = buf st \<and> flds st' = flds st"
proof -
  obtain sz where sz: "nextFldSize E st (nat (int (bodySize st) + int HDR - int (pos st))) = Some sz"
    "int sz < int (bodySize st) + int HDR - int (pos st)" "p = pos st + sz"
    "st' = st\<lparr>currentNumFields := currentNumFields st + 1, pos := pos st + sz\<rparr>"
    using assms by (auto simp: nextFld_def Let_def split: if_splits option.splits)
  have "0 < sz" using nextFldSize_pos [OF sz(1)] by simp
  then show ?thesis using sz by simp
qed

text \<open>\<open>parseBody\<close>: the loop over \<open>nextFld\<close>; every step moves on towards the end of the body.\<close>

function parse_loop :: "espd \<Rightarrow> parser \<Rightarrow> parser" where
  "parse_loop E st = (case nextFld E st of
     (Some p, st') \<Rightarrow> parse_loop E (st'\<lparr>flds := flds st' @ [p]\<rparr>)
   | (None, st') \<Rightarrow> st')"
  by pat_completeness auto
termination
  by (relation "measure (\<lambda>(E, st). bodySize st + HDR - pos st)")
    (auto dest!: nextFld_progress [OF sym])

declare parse_loop.simps [simp del]

definition parseBody :: "espd \<Rightarrow> parser \<Rightarrow> parser" where
  "parseBody E st = (case firstFld st of (p, st') \<Rightarrow> parse_loop E (st'\<lparr>flds := flds st' @ [p]\<rparr>))"

definition parseBuffer :: "espd \<Rightarrow> parser \<Rightarrow> parser" where
  "parseBuffer E st = parseBody E (setHeader E st)"

definition findFieldData :: "espd \<Rightarrow> ftype \<Rightarrow> fid \<Rightarrow> parser \<Rightarrow> fval" where
  "findFieldData E t i st = (case find (\<lambda>p. fld_id_at E (buf st) p = field_code E i) (flds st) of
     Some p \<Rightarrow> get_data E t (buf st) p | None \<Rightarrow> default_val (native_type t))"

subsection \<open>What the encoder writes\<close>

definition written :: "encoder \<Rightarrow> u8 list" where
  "written st = take (offset st) (mem st)"

definition enc_ok :: "espd \<Rightarrow> encoder \<Rightarrow> bool" where
  "enc_ok E st \<longleftrightarrow> length (mem st) = MAX_DATA_SIZE E \<and> offset st \<le> MAX_DATA_SIZE E"

lemma put_ok:
  assumes "enc_ok E st" "offset st + length bs \<le> MAX_DATA_SIZE E"
  shows "enc_ok E (put bs st)" "written (put bs st) = written st @ bs"
    "offset (put bs st) = offset st + length bs" "field_count (put bs st) = field_count st"
  using assms by (auto simp: enc_ok_def put_def written_def)

text \<open>A field of a message: identifier, type and data. \<open>typed\<close> is the field \<open>appendField<id>\<close> writes.\<close>

type_synonym field = "fid \<times> ftype \<times> fval"

definition typed :: "fid \<times> fval \<Rightarrow> field" where
  "typed f = (fst f, the (id_type (fst f)), snd f)"

definition fld_bytes :: "espd \<Rightarrow> field \<Rightarrow> u8 list" where
  "fld_bytes E f = fld_hdr_bytes E (fst f) (field_value (fst (snd f))) @ val_bytes E (snd (snd f))"

definition fld_wf :: "field \<Rightarrow> bool" where
  "fld_wf f \<longleftrightarrow> fst (snd f) \<notin> {CFETI_FIELDTYPE_BUFFER, CFETI_FIELDTYPE_BYTESTREAM, CFETI_FIELDTYPE_EMPTY} \<and>
     val_fits (native_type (fst (snd f))) (snd (snd f))"

lemma append_field_spec:
  assumes "espd_ok E" "enc_ok E st"
  shows "append_field E i v st =
    (if offset st + length (fld_bytes E (typed (i, v))) \<le> MAX_DATA_SIZE E
     then Inr ((put (val_bytes E v) (put (fld_hdr_bytes E i (field_value (the (id_type i)))) st))
       \<lparr>field_count := field_count st + 1\<rparr>)
     else too_small)"
  using assms
  by (cases v) (auto simp: append_field_def append_obj_def append_str_def Let_def too_small_def
      fld_bytes_def typed_def put_def split: if_splits)

lemma append_field_ok:
  assumes "espd_ok E" "enc_ok E st" "append_field E i v st = Inr st'"
  shows "enc_ok E st' \<and> written st' = written st @ fld_bytes E (typed (i, v)) \<and>
    offset st' = offset st + length (fld_bytes E (typed (i, v))) \<and> field_count st' = field_count st + 1"
proof -
  let ?h = "fld_hdr_bytes E i (field_value (the (id_type i)))"
  have le: "offset st + length (fld_bytes E (typed (i, v))) \<le> MAX_DATA_SIZE E"
    and st': "st' = (put (val_bytes E v) (put ?h st))\<lparr>field_count := field_count st + 1\<rparr>"
    using assms(3) unfolding append_field_spec [OF assms(1,2)]
    by (auto simp: too_small_def split: if_splits)
  have h: "enc_ok E (put ?h st)" "written (put ?h st) = written st @ ?h" "offset (put ?h st) = offset st + length ?h"
    using put_ok [OF assms(2), of ?h] le by (auto simp: fld_bytes_def typed_def)
  have "enc_ok E (put (val_bytes E v) (put ?h st))"
    "written (put (val_bytes E v) (put ?h st)) = written st @ ?h @ val_bytes E v"
    "offset (put (val_bytes E v) (put ?h st)) = offset st + length ?h + length (val_bytes E v)"
    using put_ok [OF h(1), of "val_bytes E v"] le h by (auto simp: fld_bytes_def typed_def)
  then show ?thesis unfolding st' by (simp add: enc_ok_def written_def fld_bytes_def typed_def)
qed

fun append_fields :: "espd \<Rightarrow> (fid \<times> fval) list \<Rightarrow> encoder \<Rightarrow> fix_error + encoder" where
  "append_fields E [] st = Inr st"
| "append_fields E (f # fs) st = (case append_field E (fst f) (snd f) st of
     Inl e \<Rightarrow> Inl e | Inr st' \<Rightarrow> append_fields E fs st')"

definition body_bytes :: "espd \<Rightarrow> field list \<Rightarrow> u8 list" where
  "body_bytes E fs = concat (map (fld_bytes E) fs)"

lemma append_fields_ok:
  "espd_ok E \<Longrightarrow> enc_ok E st \<Longrightarrow> append_fields E fs st = Inr st' \<Longrightarrow>
   enc_ok E st' \<and> written st' = written st @ body_bytes E (map typed fs) \<and>
   offset st' = offset st + length (body_bytes E (map typed fs)) \<and>
   field_count st' = field_count st + word_of_nat (length fs)"
proof (induction fs arbitrary: st)
  case Nil
  then show ?case by (simp add: body_bytes_def)
next
  case (Cons f fs)
  obtain st1 where st1: "append_field E (fst f) (snd f) st = Inr st1" "append_fields E fs st1 = Inr st'"
    using Cons.prems(3) by (auto split: sum.splits)
  note a = append_field_ok [OF Cons.prems(1,2) st1(1)]
  with Cons.IH [OF Cons.prems(1) _ st1(2)] show ?case
    by (simp add: body_bytes_def algebra_simps)
qed

lemma append_fields_fits:
  "espd_ok E \<Longrightarrow> enc_ok E st \<Longrightarrow> offset st + length (body_bytes E (map typed fs)) \<le> MAX_DATA_SIZE E \<Longrightarrow>
   \<exists>st'. append_fields E fs st = Inr st'"
proof (induction fs arbitrary: st)
  case (Cons f fs)
  have "offset st + length (fld_bytes E (typed f)) \<le> MAX_DATA_SIZE E"
    using Cons.prems(3) by (simp add: body_bytes_def)
  then obtain st1 where st1: "append_field E (fst f) (snd f) st = Inr st1"
    using append_field_spec [OF Cons.prems(1,2), of "fst f" "snd f"] by auto
  have a: "enc_ok E st1" "offset st1 = offset st + length (fld_bytes E (typed f))"
    using append_field_ok [OF Cons.prems(1,2) st1] by simp_all
  then obtain st' where "append_fields E fs st1 = Inr st'"
    using Cons.IH [OF Cons.prems(1) a(1)] Cons.prems(3) by (auto simp: body_bytes_def)
  then show ?case using st1 by simp
qed simp

lemma append_fields_overflow:
  "espd_ok E \<Longrightarrow> enc_ok E st \<Longrightarrow> MAX_DATA_SIZE E < offset st + length (body_bytes E (map typed fs)) \<Longrightarrow>
   append_fields E fs st = too_small"
proof (induction fs arbitrary: st)
  case Nil
  then show ?case by (simp add: body_bytes_def enc_ok_def)
next
  case (Cons f fs)
  show ?case
  proof (cases "offset st + length (fld_bytes E (typed f)) \<le> MAX_DATA_SIZE E")
    case True
    then obtain st1 where st1: "append_field E (fst f) (snd f) st = Inr st1"
      using append_field_spec [OF Cons.prems(1,2), of "fst f" "snd f"] by auto
    have a: "enc_ok E st1" "offset st1 = offset st + length (fld_bytes E (typed f))"
      using append_field_ok [OF Cons.prems(1,2) st1] by simp_all
    then show ?thesis using Cons.IH [OF Cons.prems(1) a(1)] Cons.prems(3) st1 by (simp add: body_bytes_def)
  next
    case False
    then show ?thesis
      using append_field_spec [OF Cons.prems(1,2), of "fst f" "snd f"] by (simp add: too_small_def)
  qed
qed

subsection \<open>What the parser finds\<close>

primrec starts :: "espd \<Rightarrow> nat \<Rightarrow> field list \<Rightarrow> nat list" where
  "starts E p [] = []"
| "starts E p (f # fs) = p # starts E (p + length (fld_bytes E f)) fs"

lemma drop_past: "drop p m = a @ b \<Longrightarrow> drop (p + length a) m = b"
  by (metis append_eq_conv_conj drop_drop add.commute)

lemma fld_bytes_pos: "espd_ok E \<Longrightarrow> FLD_HDR \<le> length (fld_bytes E f)"
  by (simp add: fld_bytes_def length_fld_hdr_bytes)

lemma memchr0_string:
  assumes "drop p m = s @ 0 # r" "0 \<notin> set s" "length s < n"
  shows "memchr0 m p n = Some (p + length s)"
proof -
  obtain k where k: "n = Suc (length s + k)" using assms(3) by (auto dest: less_imp_Suc_add)
  have "bytes_at m p n = s @ 0 # take k r"
    using assms(1) k by (simp add: bytes_at_def take_Suc_conv_app_nth)
  then show ?thesis using takeWhile_nonzero [OF assms(2)] by (simp add: memchr0_def Let_def)
qed

lemma nth_of_drop: "drop p m = xs @ x # ys \<Longrightarrow> m ! (p + length xs) = x"
  by (metis drop_eq_Nil linorder_not_less list.distinct(1) append_is_Nil_conv less_or_eq_imp_le nth_append_length nth_drop)

lemma type_at:
  assumes "espd_ok E" "drop p m = fld_bytes E f @ r" "fst (snd f) = t"
  shows "fld_type_at m p = type_code E (field_value t)"
proof -
  have "drop p m = enc16 E (field_code E (fst f)) @ type_code E (field_value t) # (val_bytes E (snd (snd f)) @ r)"
    using assms(2,3) by (simp add: fld_bytes_def fld_hdr_bytes_def)
  from nth_of_drop [OF this] show ?thesis by (simp add: fld_type_at_def espd_okD [OF assms(1)])
qed

lemma id_at:
  assumes "espd_ok E" "drop p m = fld_bytes E f @ r"
  shows "fld_id_at E m p = field_code E (fst f)"
  using assms by (simp add: fld_id_at_def bytes_at_def fld_bytes_def fld_hdr_bytes_def espd_okD)

lemma type_code_eq: "espd_ok E \<Longrightarrow> type_code E a = type_code E b \<longleftrightarrow> a = b"
  using espd_okD(2) [of E] by (auto dest: injD)

lemma nextFldSize_field:
  assumes E: "espd_ok E" and d: "drop (pos st) (buf st) = fld_bytes E f @ r" and w: "fld_wf f"
    and n: "length (fld_bytes E f) \<le> n"
  shows "nextFldSize E st n = Some (length (fld_bytes E f))"
proof -
  obtain t where t: "fst (snd f) = t" "val_fits (native_type t) (snd (snd f))"
    using w by (auto simp: fld_wf_def)
  note ty = type_at [OF E d t(1)]
  have len: "length (fld_bytes E f) = FLD_HDR + length (val_bytes E (snd (snd f)))"
    by (simp add: fld_bytes_def length_fld_hdr_bytes [OF E])
  have "t \<in> {CFETI_FIELDTYPE_UINT32, CFETI_FIELDTYPE_INT32, CFETI_FIELDTYPE_DATETIME,
      CFETI_FIELDTYPE_DECIMAL, CFETI_FIELDTYPE_STRING, CFETI_FIELDTYPE_BYTE, CFETI_FIELDTYPE_INT8,
      CFETI_FIELDTYPE_UINT16, CFETI_FIELDTYPE_INT16}"
    using t(1) w by (cases t) (simp_all add: fld_wf_def)
  moreover have ?thesis if str: "t = CFETI_FIELDTYPE_STRING"
  proof -
    obtain s where s: "snd (snd f) = VStr s" "0 \<notin> set s" using t(2) str by (cases "snd (snd f)") auto
    have "drop (pos st + FLD_HDR) (buf st) = s @ 0 # r"
      using drop_past [of "pos st" "buf st" "fld_hdr_bytes E (fst f) (field_value (fst (snd f)))"] d s
      by (simp add: fld_bytes_def length_fld_hdr_bytes [OF E])
    then have "memchr0 (buf st) (pos st + FLD_HDR) n = Some (pos st + FLD_HDR + length s)"
      using s n len by (intro memchr0_string) simp_all
    then show ?thesis
      using ty str n len s by (simp add: nextFldSize_def Let_def type_code_eq [OF E] strFldSize_def)
  qed
  ultimately show ?thesis
    using ty len length_val_bytes [OF E t(2)]
    by (auto simp: nextFldSize_def Let_def type_code_eq [OF E] FieldFixedSize_def)
qed

lemma parse_loop_fields:
  "espd_ok E \<Longrightarrow> drop (pos st) (buf st) = body_bytes E (f # fs) @ r \<Longrightarrow> list_all fld_wf (f # fs) \<Longrightarrow>
   bodySize st + HDR = pos st + length (body_bytes E (f # fs)) \<Longrightarrow>
   flds (parse_loop E st) = flds st @ starts E (pos st + length (fld_bytes E f)) fs \<and>
   buf (parse_loop E st) = buf st \<and>
   currentNumFields (parse_loop E st) = currentNumFields st + word_of_nat (length (f # fs)) \<and>
   p_numFields (parse_loop E st) = p_numFields st \<and> msgType (parse_loop E st) = msgType st"
proof (induction fs arbitrary: f st)
  case Nil
  have max: "int (bodySize st) + int HDR - int (pos st) = int (length (fld_bytes E f))"
    using Nil.prems(4) by (simp add: body_bytes_def)
  have "nextFldSize E st (length (fld_bytes E f)) = Some (length (fld_bytes E f))"
    using Nil.prems by (intro nextFldSize_field) (auto simp: body_bytes_def)
  moreover from this have "FLD_HDR < length (fld_bytes E f)" by (rule nextFldSize_pos)
  ultimately have "nextFld E st = (None, st\<lparr>currentNumFields := currentNumFields st + 1\<rparr>)"
    unfolding nextFld_def Let_def max by simp
  then show ?case by (simp add: parse_loop.simps [of E st])
next
  case (Cons g fs)
  let ?n = "length (fld_bytes E f)"
  have max: "int (bodySize st) + int HDR - int (pos st) = int (?n + length (body_bytes E (g # fs)))"
    using Cons.prems(4) by (simp add: body_bytes_def)
  have size: "nextFldSize E st (?n + length (body_bytes E (g # fs))) = Some ?n"
    using Cons.prems by (intro nextFldSize_field) (auto simp: body_bytes_def)
  have pos: "0 < length (body_bytes E (g # fs))" "FLD_HDR < ?n"
    using fld_bytes_pos [OF Cons.prems(1), of g] nextFldSize_pos [OF size]
    by (auto simp: body_bytes_def FLD_HDR_def)
  let ?st = "st\<lparr>currentNumFields := currentNumFields st + 1, pos := pos st + ?n\<rparr>"
  have step: "nextFld E st = (Some (pos st + ?n), ?st)"
    using size pos unfolding nextFld_def Let_def max nat_int by (simp del: of_nat_add)
  let ?st' = "?st\<lparr>flds := flds ?st @ [pos st + ?n]\<rparr>"
  have "drop (pos ?st') (buf ?st') = body_bytes E (g # fs) @ r"
    using drop_past [of "pos st" "buf st" "fld_bytes E f"] Cons.prems(2) by (simp add: body_bytes_def)
  moreover have "bodySize ?st' + HDR = pos ?st' + length (body_bytes E (g # fs))"
    using Cons.prems(4) by (simp add: body_bytes_def)
  ultimately have "flds (parse_loop E ?st') = flds ?st' @ starts E (pos ?st' + length (fld_bytes E g)) fs \<and>
      buf (parse_loop E ?st') = buf ?st' \<and>
      currentNumFields (parse_loop E ?st') = currentNumFields ?st' + word_of_nat (length (g # fs)) \<and>
      p_numFields (parse_loop E ?st') = p_numFields ?st' \<and> msgType (parse_loop E ?st') = msgType ?st'"
    using Cons.IH [OF Cons.prems(1), of ?st' g] Cons.prems(3) by simp
  then show ?case
    by (simp add: parse_loop.simps [of E st] step algebra_simps)
qed

lemma get_data_field:
  assumes E: "espd_ok E" and d: "drop p m = fld_bytes E f @ r"
    and t: "val_fits (native_type t) (snd (snd f))"
  shows "get_data E t m p = snd (snd f)"
proof -
  have v: "drop (p + FLD_HDR) m = val_bytes E (snd (snd f)) @ r"
    using drop_past [of p m "fld_hdr_bytes E (fst f) (field_value (fst (snd f)))"] d
    by (simp add: fld_bytes_def length_fld_hdr_bytes [OF E])
  have b: "bytes_at m (p + FLD_HDR) (length (val_bytes E (snd (snd f)))) = val_bytes E (snd (snd f))"
    using v by (simp add: bytes_at_def)
  have m: "m ! (p + FLD_HDR) = x" if "val_bytes E (snd (snd f)) = [x]" for x
    using nth_of_drop [of "p + FLD_HDR" m "[]" x r] v that by simp
  show ?thesis
    using t b m v
    by (cases "native_type t"; cases "snd (snd f)")
      (simp_all add: get_data.simps espd_okD [OF E] takeWhile_nonzero)
qed

lemma find_in_message:
  "espd_ok E \<Longrightarrow> drop p m = body_bytes E fs @ r \<Longrightarrow>
   find (\<lambda>p. fld_id_at E m p = field_code E i) (starts E p fs) = Some q \<Longrightarrow>
   \<exists>f r'. find (\<lambda>f. fst f = i) fs = Some f \<and> drop q m = fld_bytes E f @ r'"
proof (induction fs arbitrary: p)
  case (Cons f fs)
  have d: "drop p m = fld_bytes E f @ body_bytes E fs @ r" using Cons.prems(2) by (simp add: body_bytes_def)
  have i: "fld_id_at E m p = field_code E (fst f)" by (rule id_at [OF Cons.prems(1) d])
  show ?case
  proof (cases "fst f = i")
    case True
    then show ?thesis using Cons.prems(3) i d by auto
  next
    case False
    then have "field_code E (fst f) \<noteq> field_code E i" using espd_okD(1) [OF Cons.prems(1)] by (auto dest: injD)
    moreover have "drop (p + length (fld_bytes E f)) m = body_bytes E fs @ r"
      by (rule drop_past [OF d])
    ultimately show ?thesis using Cons i False by simp
  qed
qed simp

lemma find_missing:
  "espd_ok E \<Longrightarrow> drop p m = body_bytes E fs @ r \<Longrightarrow>
   find (\<lambda>p. fld_id_at E m p = field_code E i) (starts E p fs) = None \<Longrightarrow> find (\<lambda>f. fst f = i) fs = None"
proof (induction fs arbitrary: p)
  case (Cons f fs)
  have d: "drop p m = fld_bytes E f @ body_bytes E fs @ r" using Cons.prems(2) by (simp add: body_bytes_def)
  have i: "fld_id_at E m p = field_code E (fst f)" by (rule id_at [OF Cons.prems(1) d])
  have "drop (p + length (fld_bytes E f)) m = body_bytes E fs @ r" by (rule drop_past [OF d])
  then show ?case using Cons i by (auto split: if_splits)
qed simp

end
