(* ===== verification/Fix_Codec_Props.thy ===== *)
theory Fix_Codec_Props
  imports Fix_Codec
begin

text \<open>
  The properties of the codec: the round trip of a message through the encoder and the parser,
  the capacity check of the encoder, and the safety of the parser on arbitrary bytes; and a
  concrete wire format (big-endian) on which the hypotheses hold.
\<close>

subsection \<open>The header\<close>

lemma insert_hdr_spec:
  assumes E: "espd_ok E" and ok: "enc_ok E st" and off: "HDR \<le> offset st"
  shows "insert_hdr E seqno mtype flags st = Inr (st\<lparr>
    mem := header_bytes E (msg_header_new seqno mtype flags (field_count st) (word_of_nat (offset st - HDR)))
      @ drop HDR (mem st)\<rparr>)"
proof -
  have m: "offset st < 2 ^ 16" "length (mem st) = MAX_DATA_SIZE E" "offset st \<le> MAX_DATA_SIZE E"
    using ok espd_okD(10) [OF E] by (auto simp: enc_ok_def)
  have "int (offset st) - int HDR = int (offset st - HDR)" using off by simp
  then show ?thesis
    using m off length_header_bytes [OF E]
    by (simp add: insert_hdr_def append_obj_def put_def Let_def)
qed

lemma written_header:
  assumes E: "espd_ok E" and ok: "enc_ok E st" and off: "HDR \<le> offset st"
    and "insert_hdr E seqno mtype flags st = Inr st'"
  shows "mem st' = header_bytes E (msg_header_new seqno mtype flags (field_count st) (word_of_nat (offset st - HDR)))
      @ drop HDR (written st) @ drop (offset st) (mem st)"
    and "offset st' = offset st"
proof -
  have "mem st' = header_bytes E (msg_header_new seqno mtype flags (field_count st) (word_of_nat (offset st - HDR)))
      @ drop HDR (mem st)" "offset st' = offset st"
    using assms(4) insert_hdr_spec [OF E ok off] by auto
  moreover have "drop HDR (mem st) = drop HDR (written st) @ drop (offset st) (mem st)"
    using off ok by (metis append_take_drop_id written_def drop_append diff_is_0_eq drop_0 enc_ok_def
        length_take min.absorb2)
  ultimately show "mem st' = header_bytes E (msg_header_new seqno mtype flags (field_count st)
      (word_of_nat (offset st - HDR))) @ drop HDR (written st) @ drop (offset st) (mem st)"
    "offset st' = offset st" by simp_all
qed

definition new_message :: "u8 list \<Rightarrow> encoder" where
  "new_message m = (encoder_reset m)\<lparr>offset := HDR\<rparr>"

lemma new_message_ok:
  "length m = MAX_DATA_SIZE E \<Longrightarrow> HDR \<le> MAX_DATA_SIZE E \<Longrightarrow> enc_ok E (new_message m)"
  by (simp add: enc_ok_def new_message_def encoder_reset_def)

definition encode_message ::
  "espd \<Rightarrow> u8 list \<Rightarrow> u32 \<Rightarrow> u16 \<Rightarrow> u16 \<Rightarrow> (fid \<times> fval) list \<Rightarrow> fix_error + encoder" where
  "encode_message E m seqno mtype flags fs = (case append_fields E fs (new_message m) of
     Inl e \<Rightarrow> Inl e | Inr st \<Rightarrow> insert_hdr E seqno mtype flags st)"

lemma encode_message_ok:
  assumes E: "espd_ok E" and m: "length m = MAX_DATA_SIZE E" "HDR \<le> MAX_DATA_SIZE E"
    and enc: "encode_message E m seqno mtype flags fs = Inr st"
  shows "\<exists>r. mem st = header_bytes E (msg_header_new seqno mtype flags (word_of_nat (length fs))
      (word_of_nat (length (body_bytes E (map typed fs))))) @ body_bytes E (map typed fs) @ r"
    and "length (body_bytes E (map typed fs)) < 2 ^ 16" "length fs < 2 ^ 16"
proof -
  obtain st1 where st1: "append_fields E fs (new_message m) = Inr st1"
    "insert_hdr E seqno mtype flags st1 = Inr st"
    using enc by (auto simp: encode_message_def split: sum.splits)
  note a = append_fields_ok [OF E new_message_ok [OF m] st1(1)]
  have o: "offset st1 = HDR + length (body_bytes E (map typed fs))" "field_count st1 = word_of_nat (length fs)"
    "written st1 = take HDR m @ body_bytes E (map typed fs)"
    using conjunct2 [OF a] by (simp_all add: new_message_def encoder_reset_def written_def [of "\<lparr>mem = m, offset = HDR, field_count = 0\<rparr>"])
  then have o': "drop HDR (written st1) = body_bytes E (map typed fs)" using m by simp
  have "HDR \<le> offset st1" using o(1) by simp
  from written_header [OF E conjunct1 [OF a] this st1(2)] o(1,2) o'
  show "\<exists>r. mem st = header_bytes E (msg_header_new seqno mtype flags (word_of_nat (length fs))
      (word_of_nat (length (body_bytes E (map typed fs))))) @ body_bytes E (map typed fs) @ r" by simp
  show b: "length (body_bytes E (map typed fs)) < 2 ^ 16"
    using a o(1) espd_okD(10) [OF E] by (simp add: enc_ok_def)
  have "length fs \<le> length (body_bytes E (map typed fs))"
  proof -
    have "1 \<le> length (fld_bytes E (typed f))" for f using fld_bytes_pos [OF E, of "typed f"] by (simp add: FLD_HDR_def)
    then have "length fs \<le> length (concat (map (fld_bytes E) (map typed fs)))"
    proof (induction fs)
      case (Cons f fs)
      have "Suc (length fs) \<le> length (fld_bytes E (typed f)) + length (concat (map (fld_bytes E) (map typed fs)))"
        using Cons.prems [of f] Cons.IH [OF Cons.prems] by linarith
      then show ?case by simp
    qed simp
    then show ?thesis by (simp add: body_bytes_def)
  qed
  then show "length fs < 2 ^ 16" using b by simp
qed

lemma parse_encoded:
  assumes E: "espd_ok E" and fs: "fs \<noteq> []" "list_all fld_wf fs"
    and h: "m = header_bytes E h @ body_bytes E fs @ r"
    and l: "bodyLength h = word_of_nat (length (body_bytes E fs))" "length (body_bytes E fs) < 2 ^ 16"
  shows "flds (parseBuffer E (parser_reset E m p)) = starts E HDR fs"
    "buf (parseBuffer E (parser_reset E m p)) = m"
    "currentNumFields (parseBuffer E (parser_reset E m p)) = word_of_nat (length fs)"
    "p_numFields (parseBuffer E (parser_reset E m p)) = numFields h"
    "msgType (parseBuffer E (parser_reset E m p)) = messageType h"
proof -
  obtain f gs where f: "fs = f # gs" using fs(1) by (cases fs) auto
  let ?s0 = "setHeader E (parser_reset E m p)"
  let ?st = "?s0\<lparr>pos := HDR, currentNumFields := 0, flds := flds ?s0 @ [HDR]\<rparr>"
  have hd: "bodySize ?s0 = length (body_bytes E fs)" "p_numFields ?s0 = numFields h" "msgType ?s0 = messageType h"
    "buf ?s0 = m" "flds ?s0 = []"
    using header_reads [OF E, of h "body_bytes E fs @ r"] l
    by (simp_all add: setHeader_def parser_reset_def h unat_of_nat_small)
  have d: "drop (pos ?st) (buf ?st) = body_bytes E (f # gs) @ r"
    using hd length_header_bytes [OF E, of h] by (simp add: h f)
  have b: "bodySize ?st + HDR = pos ?st + length (body_bytes E (f # gs))" using hd f by simp
  have e: "parseBuffer E (parser_reset E m p) = parse_loop E ?st"
    by (simp add: parseBuffer_def parseBody_def firstFld_def)
  note run = parse_loop_fields [OF E d _ b]
  show "flds (parseBuffer E (parser_reset E m p)) = starts E HDR fs"
    "buf (parseBuffer E (parser_reset E m p)) = m"
    "currentNumFields (parseBuffer E (parser_reset E m p)) = word_of_nat (length fs)"
    "p_numFields (parseBuffer E (parser_reset E m p)) = numFields h"
    "msgType (parseBuffer E (parser_reset E m p)) = messageType h"
    using run fs(2) hd unfolding e by (simp_all add: f)
qed

subsection \<open>A concrete wire\<close>

definition be16 :: "u16 \<Rightarrow> u8 list" where
  "be16 x = [ucast (drop_bit 8 x), ucast x]"

definition un16 :: "u8 list \<Rightarrow> u16" where
  "un16 bs = push_bit 8 (ucast (bs ! 0)) + ucast (bs ! 1)"

definition be32 :: "u32 \<Rightarrow> u8 list" where
  "be32 x = be16 (ucast (drop_bit 16 x)) @ be16 (ucast x)"

definition un32 :: "u8 list \<Rightarrow> u32" where
  "un32 bs = push_bit 16 (ucast (un16 (take 2 bs))) + ucast (un16 (drop 2 bs))"

definition be64 :: "u64 \<Rightarrow> u8 list" where
  "be64 x = be32 (ucast (drop_bit 32 x)) @ be32 (ucast x)"

definition un64 :: "u8 list \<Rightarrow> u64" where
  "un64 bs = push_bit 32 (ucast (un32 (take 4 bs))) + ucast (un32 (drop 4 bs))"

lemma split_word:
  fixes x :: "'a::len word"
  assumes "n \<le> LENGTH('a)" "LENGTH('b::len) = n" "LENGTH('a) \<le> LENGTH('c::len) + n"
  shows "push_bit n (ucast (ucast (drop_bit n x) :: 'c word)) + ucast (ucast x :: 'b word) = x"
proof -
  have l: "ucast (ucast x :: 'b word) = take_bit n x"
    using assms(1,2) by (intro bit_word_eqI) (auto simp: bit_simps)
  have h: "push_bit n (ucast (ucast (drop_bit n x) :: 'c word)) = push_bit n (drop_bit n x)"
  proof (rule bit_word_eqI)
    fix k assume "k < LENGTH('a)"
    then have "k - n < LENGTH('c)" if "n \<le> k" using assms(3) that by linarith
    then show "bit (push_bit n (ucast (ucast (drop_bit n x) :: 'c word) :: 'a word)) k =
        bit (push_bit n (drop_bit n x)) k"
      by (auto simp: bit_push_bit_iff bit_unsigned_iff)
  qed
  show ?thesis unfolding l h by (rule bits_ident)
qed

lemma be16_un16: "length (be16 x) = 2 \<and> un16 (be16 x) = x"
  using split_word [where 'b = 8 and 'c = 8 and n = 8 and x = x] by (simp add: be16_def un16_def)

lemma be32_un32: "length (be32 x) = 4 \<and> un32 (be32 x) = x"
  using split_word [where 'b = 16 and 'c = 16 and n = 16 and x = x]
  by (simp add: be32_def un32_def be16_un16)

lemma be64_un64: "length (be64 x) = 8 \<and> un64 (be64 x) = x"
  using split_word [where 'b = 32 and 'c = 32 and n = 32 and x = x]
  by (simp add: be64_def un64_def be32_un32)

primrec position_of :: "'a list \<Rightarrow> 'a \<Rightarrow> nat" where
  "position_of [] y = 0"
| "position_of (x # xs) y = (if x = y then 0 else Suc (position_of xs y))"

lemma position_of_nth: "y \<in> set xs \<Longrightarrow> position_of xs y < length xs \<and> xs ! position_of xs y = y"
  by (induction xs) auto

lemma position_code_inj:
  assumes "\<And>y. y \<in> set xs" "length xs < 2 ^ LENGTH('w::len)"
  shows "inj (\<lambda>y. word_of_nat (position_of xs y) :: 'w word)"
proof (rule injI)
  fix y z
  assume e: "(word_of_nat (position_of xs y) :: 'w word) = word_of_nat (position_of xs z)"
  note py = position_of_nth [OF assms(1) [of y]] and pz = position_of_nth [OF assms(1) [of z]]
  have "position_of xs y < 2 ^ LENGTH('w)" "position_of xs z < 2 ^ LENGTH('w)"
    by (rule less_trans [OF conjunct1 [OF py] assms(2)], rule less_trans [OF conjunct1 [OF pz] assms(2)])
  from iffD1 [OF of_nat_eq_small [OF this] e] have "position_of xs y = position_of xs z" .
  then show "y = z" using conjunct2 [OF py] conjunct2 [OF pz] by metis
qed

definition all_fids :: "fid list" where
  "all_fids = [CFETP_FIELD_ORIG_CLIENT_ORDER_ID, CFETP_FIELD_SESSIONID, CFETP_FIELD_TS_ID,
     CFETP_FIELD_TS_PREF, CFETP_FIELD_PASSWORD, CFETP_FIELD_USERNAME, CFETP_FIELD_GMT_DELTA,
     CFETP_FIELD_IDENT_COMPANY, CFETP_FIELD_IDENT_APPLICATION, CFETP_FIELD_IDENT_VERSION,
     CFETP_FIELD_COMPONENT_TYPE, CFETP_FIELD_IDENT_USER_OS, CFETP_FIELD_IDENT_SDK_VERSION_ID,
     CFETP_FIELD_EXT_TS_SESSIONID, CFETP_FIELD_SOURCE_ID, CFETP_FIELD_INSTNAME,
     CFETP_FIELD_NUM_PREFERENCES, CFETP_FIELD_CLIENT_ORDER_ID, CFETP_FIELD_PRICE,
     CFETP_FIELD_SIZE, CFETP_FIELD_INDICATOR, CFETP_FIELD_PREFERENCE_ID,
     CFETP_FIELD_PREFERENCE_TYPE, CFETP_FIELD_ORDER_INFO_TYPE, CFETP_FIELD_CMDPREF,
     CFETP_FIELD_TRADE_PREF2, CFETP_FIELD_MSGTYPE, CFETP_FIELD_REQUEST_ID,
     CFETP_FIELD_STATUSTEXT, CFETP_FIELD_CMD, CFETP_FIELD_PREFERENCE_VALUE, CFETP_FIELD_ID]"

definition all_ftypes :: "ftype list" where
  "all_ftypes = [CFETI_FIELDTYPE_INT8, CFETI_FIELDTYPE_BYTE, CFETI_FIELDTYPE_INT16,
     CFETI_FIELDTYPE_UINT16, CFETI_FIELDTYPE_INT32, CFETI_FIELDTYPE_UINT32,
     CFETI_FIELDTYPE_DATETIME, CFETI_FIELDTYPE_DECIMAL, CFETI_FIELDTYPE_STRING,
     CFETI_FIELDTYPE_BUFFER, CFETI_FIELDTYPE_BYTESTREAM, CFETI_FIELDTYPE_EMPTY]"

definition all_msgs :: "msg_type list" where
  "all_msgs = [CFETP_NOTIFY, CFETP_RATIFY, CFETP_ROUNDTRIP, CFETP_CONNECT_REPLY,
     CFETP_TRADING_SESSION, CFETP_COMPONENT, CFETP_SYSTEM_REPLY, CFETP_CONNECT,
     CFETP_POST_MESSAGE, CFETP_UNDEFINED]"

definition big_endian :: espd where
  "big_endian = \<lparr>field_code = \<lambda>i. word_of_nat (position_of all_fids i),
     type_code = \<lambda>t. word_of_nat (position_of all_ftypes t),
     msg_code = \<lambda>t. word_of_nat (position_of all_msgs t),
     enc16 = be16, dec16 = un16, enc32 = be32, dec32 = un32, enc64 = be64, dec64 = un64,
     CFETP_ID = 1, CFETP_VERSION = 2, MAX_DATA_SIZE = 1024\<rparr>"

lemma big_endian_ok: "espd_ok big_endian"
proof -
  have "inj (field_code big_endian)" unfolding big_endian_def espd.simps
  proof (rule position_code_inj)
    show "y \<in> set all_fids" for y by (cases y) (simp_all add: all_fids_def)
  qed (simp add: all_fids_def)
  moreover have "inj (type_code big_endian)" unfolding big_endian_def espd.simps
  proof (rule position_code_inj)
    show "y \<in> set all_ftypes" for y by (cases y) (simp_all add: all_ftypes_def)
  qed (simp add: all_ftypes_def)
  moreover have "inj (msg_code big_endian)" unfolding big_endian_def espd.simps
  proof (rule position_code_inj)
    show "y \<in> set all_msgs" for y by (cases y) (simp_all add: all_msgs_def)
  qed (simp add: all_msgs_def)
  ultimately show ?thesis
    unfolding espd_ok_def by (simp add: big_endian_def be16_un16 be32_un32 be64_un64)
qed

lemma find_typed: "find (\<lambda>f. fst f = i) (map typed fs) = map_option typed (find (\<lambda>f. fst f = i) fs)"
  by (induction fs) (auto simp: typed_def)

subsection \<open>Safety of the parser\<close>

lemma sorted_le_last: "sorted_wrt (<) (xs :: nat list) \<Longrightarrow> q \<in> set xs \<Longrightarrow> q \<le> last xs"
proof (induction xs)
  case (Cons x xs)
  then show ?case by (cases xs) (auto intro: less_imp_le)
qed simp

lemma parse_loop_safe:
  "sorted_wrt (<) (flds st) \<Longrightarrow> flds st \<noteq> [] \<Longrightarrow> last (flds st) = pos st \<Longrightarrow>
   \<forall>q \<in> set (tl (flds st)). q < bodySize st + HDR \<Longrightarrow>
   sorted_wrt (<) (flds (parse_loop E st)) \<and> hd (flds (parse_loop E st)) = hd (flds st) \<and>
   (\<forall>q \<in> set (tl (flds (parse_loop E st))). q < bodySize st + HDR)"
proof (induction E st rule: parse_loop.induct)
  case (1 E st)
  show ?case
  proof (cases "nextFld E st")
    case (Pair r st')
    show ?thesis
    proof (cases r)
      case None
      then have "flds st' = flds st"
        using Pair by (auto simp: nextFld_def Let_def split: if_splits option.splits)
      then show ?thesis using 1 Pair None by (simp add: parse_loop.simps [of E st])
    next
      case (Some p)
      note pr = nextFld_progress [OF Pair [unfolded Some]]
      let ?st' = "st'\<lparr>flds := flds st' @ [p]\<rparr>"
      have tl: "tl (flds st @ [p]) = tl (flds st) @ [p]" using 1(3) by (cases "flds st") auto
      have "q \<le> pos st" if "q \<in> set (flds st)" for q
        using sorted_le_last [OF 1(2) that] 1(4) by simp
      then have sorted: "sorted_wrt (<) (flds st @ [p])"
        using 1(2) pr by (fastforce simp: sorted_wrt_append)
      have "\<forall>q \<in> set (tl (flds ?st')). q < bodySize ?st' + HDR"
        using 1(5) pr tl by auto
      with 1(1) [OF Pair [symmetric] Some] sorted pr 1(3)
      have "sorted_wrt (<) (flds (parse_loop E ?st')) \<and> hd (flds (parse_loop E ?st')) = hd (flds ?st') \<and>
          (\<forall>q \<in> set (tl (flds (parse_loop E ?st'))). q < bodySize ?st' + HDR)"
        by simp
      then show ?thesis using Pair Some pr 1(3) by (simp add: parse_loop.simps [of E st])
    qed
  qed
qed

subsection \<open>Properties\<close>

text \<open>
  Property C10: A message written by the encoder, header last, is parsed back: the parser finds
  every field at its place and in its order, agrees on their number and on the message type,
  and \<open>findFieldData\<close> returns the data of the first field with the identifier asked for and the
  default value when there is none.
\<close>

theorem fix_codec_roundtrip:
  assumes E: "espd_ok E" and m: "length m = MAX_DATA_SIZE E" "HDR \<le> MAX_DATA_SIZE E"
    and fs: "fs \<noteq> []" "list_all fld_wf (map typed fs)"
    and enc: "encode_message E m seqno mtype flags fs = Inr st"
    and p: "p = parseBuffer E (parser_reset E (mem st) p0)"
  shows "flds p = starts E HDR (map typed fs) \<and> msgType p = mtype \<and> unat (p_numFields p) = length fs \<and>
    currentNumFields p = p_numFields p \<and>
    (\<forall>i t. id_type i = Some t \<longrightarrow> findFieldData E t i p =
       (case find (\<lambda>f. fst f = i) fs of Some f \<Rightarrow> snd f | None \<Rightarrow> default_val (native_type t)))"
proof -
  let ?h = "msg_header_new seqno mtype flags (word_of_nat (length fs)) (word_of_nat (length (body_bytes E (map typed fs))))"
  obtain r where r: "mem st = header_bytes E ?h @ body_bytes E (map typed fs) @ r"
    using encode_message_ok(1) [OF E m enc] by blast
  note bounds = encode_message_ok(2,3) [OF E m enc]
  have l: "bodyLength ?h = word_of_nat (length (body_bytes E (map typed fs)))" by (simp add: msg_header_new_def)
  have ne: "map typed fs \<noteq> []" using fs(1) by simp
  note parsed = parse_encoded [OF E ne fs(2) r l bounds(1), of p0, folded p]
  have n: "unat (word_of_nat (length fs) :: u16) = length fs"
    using bounds(2) by (simp add: unat_of_nat_small)
  have d: "drop HDR (mem st) = body_bytes E (map typed fs) @ r"
    using length_header_bytes [OF E, of ?h] by (simp add: r)
  have "findFieldData E t i p =
      (case find (\<lambda>f. fst f = i) fs of Some f \<Rightarrow> snd f | None \<Rightarrow> default_val (native_type t))"
    if t: "id_type i = Some t" for i t
  proof (cases "find (\<lambda>q. fld_id_at E (mem st) q = field_code E i) (starts E HDR (map typed fs))")
    case None
    then show ?thesis
      using find_missing [OF E d None] parsed by (simp add: findFieldData_def find_typed)
  next
    case (Some q)
    obtain f r' where f: "find (\<lambda>f. fst f = i) fs = Some f" "drop q (mem st) = fld_bytes E (typed f) @ r'"
      using find_in_message [OF E d Some] by (auto simp: find_typed)
    have "fst f = i" "f \<in> set fs" using f(1) by (auto simp: find_Some_iff)
    then have "val_fits (native_type t) (snd f)" using fs(2) t by (auto simp: list_all_iff fld_wf_def typed_def)
    then have "get_data E t (mem st) q = snd f"
      using get_data_field [OF E f(2)] by (simp add: typed_def)
    then show ?thesis using Some f parsed by (simp add: findFieldData_def)
  qed
  then show ?thesis using parsed n by (simp add: msg_header_new_def)
qed

definition sample_fields :: "(fid \<times> fval) list" where
  "sample_fields = [(CFETP_FIELD_SESSIONID, VStr [70, 73, 88]), (CFETP_FIELD_TS_ID, V32 7)]"

theorem fix_codec_roundtrip_witness:
  "\<exists>st. encode_message big_endian (replicate 1024 0) 5 8 32 sample_fields = Inr st \<and>
    findFieldData big_endian CFETI_FIELDTYPE_UINT32 CFETP_FIELD_TS_ID
      (parseBuffer big_endian (parser_reset big_endian (mem st) \<lparr>buf = [], pos = 0, bodySize = 0,
         p_numFields = 0, msgType = 0, currentNumFields = 0, flds = []\<rparr>)) = V32 7"
proof -
  have max: "MAX_DATA_SIZE big_endian = 1024" by (simp add: big_endian_def)
  have m: "length (replicate 1024 (0 :: u8)) = MAX_DATA_SIZE big_endian" "HDR \<le> MAX_DATA_SIZE big_endian"
    by (simp_all add: max HDR_def)
  have wf: "list_all fld_wf (map typed sample_fields)" by (simp add: sample_fields_def fld_wf_def typed_def)
  have "length (body_bytes big_endian (map typed sample_fields)) = 14"
    using espd_okD [OF big_endian_ok]
    by (simp add: body_bytes_def sample_fields_def fld_bytes_def fld_hdr_bytes_def typed_def)
  then obtain st1 where st1: "append_fields big_endian sample_fields (new_message (replicate 1024 0)) = Inr st1"
    using append_fields_fits [OF big_endian_ok new_message_ok [OF m], of sample_fields]
    by (auto simp: max new_message_def encoder_reset_def HDR_def)
  have "HDR \<le> offset st1"
    using append_fields_ok [OF big_endian_ok new_message_ok [OF m] st1] by (simp add: new_message_def)
  then obtain st where st: "encode_message big_endian (replicate 1024 0) 5 8 32 sample_fields = Inr st"
    using insert_hdr_spec [OF big_endian_ok, of st1 5 8 32]
      append_fields_ok [OF big_endian_ok new_message_ok [OF m] st1] st1
    by (auto simp: encode_message_def)
  have "sample_fields \<noteq> []" by (simp add: sample_fields_def)
  from fix_codec_roundtrip [OF big_endian_ok m this wf st refl] st show ?thesis
    by (auto simp: sample_fields_def)
qed

text \<open>
  Property C12: The encoder appends fields exactly when they fit behind the header in the
  buffer; otherwise it throws \<open>FIXError\<close>, and it never writes beyond \<open>MAX_DATA_SIZE\<close>.
\<close>

theorem fix_encoder_capacity:
  assumes "espd_ok E" "length m = MAX_DATA_SIZE E" "HDR \<le> MAX_DATA_SIZE E"
  shows "if HDR + length (body_bytes E (map typed fs)) \<le> MAX_DATA_SIZE E
    then \<exists>st. append_fields E fs (new_message m) = Inr st \<and> length (mem st) = MAX_DATA_SIZE E \<and>
      offset st = HDR + length (body_bytes E (map typed fs))
    else append_fields E fs (new_message m) = too_small"
proof -
  have ok: "enc_ok E (new_message m)" "offset (new_message m) = HDR"
    using new_message_ok [OF assms(2,3)] by (simp_all add: new_message_def)
  show ?thesis
    using append_fields_fits [OF assms(1) ok(1), of fs] append_fields_overflow [OF assms(1) ok(1), of fs]
      append_fields_ok [OF assms(1) ok(1), of fs] ok(2)
    by (fastforce simp: enc_ok_def)
qed

theorem fix_encoder_capacity_witness:
  "append_fields big_endian [(CFETP_FIELD_USERNAME, VStr (replicate 1010 65))]
     (new_message (replicate 1024 0)) = too_small"
proof -
  have "espd_ok big_endian" "length (replicate 1024 (0 :: u8)) = MAX_DATA_SIZE big_endian"
    "HDR \<le> MAX_DATA_SIZE big_endian" and max: "MAX_DATA_SIZE big_endian = 1024"
    using big_endian_ok by (simp_all add: big_endian_def HDR_def)
  from fix_encoder_capacity [OF this(1-3), of "[(CFETP_FIELD_USERNAME, VStr (replicate 1010 65))]"]
  show ?thesis
    using espd_okD [OF big_endian_ok]
    by (simp add: max HDR_def body_bytes_def fld_bytes_def fld_hdr_bytes_def typed_def)
qed

text \<open>
  Property C13: On any bytes at all the parser ends and the positions it records are strictly
  increasing from the end of the header and lie inside the body whose length the header
  states, the first one excepted, which is recorded even when the body is empty.
\<close>

theorem fix_parser_safe:
  "sorted_wrt (<) (flds (parseBuffer E (parser_reset E b p))) \<and>
   hd (flds (parseBuffer E (parser_reset E b p))) = HDR \<and>
   list_all (\<lambda>q. q < unat (get_length E b) + HDR) (tl (flds (parseBuffer E (parser_reset E b p)))) \<and>
   (get_length E b = 0 \<longrightarrow> flds (parseBuffer E (parser_reset E b p)) = [HDR])"
proof -
  let ?s0 = "setHeader E (parser_reset E b p)"
  let ?st = "?s0\<lparr>pos := HDR, currentNumFields := 0, flds := flds ?s0 @ [HDR]\<rparr>"
  have e: "parseBuffer E (parser_reset E b p) = parse_loop E ?st"
    by (simp add: parseBuffer_def parseBody_def firstFld_def)
  have s: "flds ?st = [HDR]" "pos ?st = HDR" "bodySize ?st = unat (get_length E b)"
    by (simp_all add: setHeader_def parser_reset_def)
  have "flds (parse_loop E ?st) = [HDR]" if "get_length E b = 0"
  proof -
    have "bodySize ?st = 0" using s(3) that by simp
    then have "nextFld E ?st = (None, ?st)" using s(2) by (simp add: nextFld_def Let_def)
    then have "parse_loop E ?st = ?st" by (subst parse_loop.simps) simp
    then show ?thesis using s(1) by simp
  qed
  then show ?thesis
    using parse_loop_safe [of ?st E] s unfolding e by (simp add: list_all_iff)
qed

theorem fix_parser_safe_witness:
  "flds (parseBuffer big_endian (parser_reset big_endian (replicate 15 0) \<lparr>buf = [], pos = 0, bodySize = 0,
     p_numFields = 0, msgType = 0, currentNumFields = 0, flds = []\<rparr>)) = [HDR]"
proof -
  have "get_length big_endian (replicate 15 0) = 0"
    by (simp add: get_length_def big_endian_def un16_def bytes_at_def)
  then show ?thesis using fix_parser_safe [of big_endian "replicate 15 0"] by blast
qed

end
