(* ===== verification/Fix_Values.thy ===== *)
theory Fix_Values
  imports Fix_Codec_Props
begin

text \<open>
  The translation of order attributes between FIX and the trading system:
  \<open>EspdFixBiMap\<close> (common/include/fix_espd_maper.h) and the table of extended properties
  (protocol/include/ext_property.h). The FIX values are the symbolic constants of QuickFIX;
  the codes of the trading system (espdI.h) are the record \<open>codes\<close>.
\<close>

subsection \<open>Constants\<close>

datatype fix_side = Side_BUY | Side_SELL | Side_INVALID | Side_other u8

datatype fix_ordtype =
    OrdType_MARKET | OrdType_LIMIT | OrdType_STOP | OrdType_STOP_LIMIT | OrdType_MARKET_IF_TOUCHED
  | OrdType_MARKET_WITH_LEFTOVER_AS_LIMIT | OrdType_MARKET_IF_TOUCHED_LIMIT | OrdType_INLALID
  | OrdType_other u8

datatype fix_tif =
    TimeInForce_DAY | TimeInForce_GOOD_TILL_CANCEL | TimeInForce_AT_THE_OPENING
  | TimeInForce_IMMEDIATE_OR_CANCEL | TimeInForce_FILL_OR_KILL | TimeInForce_GOOD_TILL_DATE
  | TimeInForce_INVALID | TimeInForce_other u8

datatype espd_side = CFETI_ORDER_BUY | CFETI_ORDER_SELL

datatype espd_ordtype =
    CFETI_EXT_PROPERTY_MARKETORDER | CFETI_EXT_PROPERTY_LIMITORDER | CFETI_EXT_PROPERTY_STOPORDER
  | CFETI_EXT_PROPERTY_STOPLIMITORDER | CFETI_EXT_PROPERTY_MARKETIFTOUCHEDORDER
  | CFETI_EXT_PROPERTY_MARKETLIMITORDER | CFETI_EXT_PROPERTY_MARKETONOPENORDER
  | CFETI_EXT_PROPERTY_MITLIMITORDER

datatype espd_tif =
    CFETI_EXT_PROPERTY_ORDER_GOOD_TILL_DATE | CFETI_EXT_PROPERTY_ORDER_GOOD_FOR_DAY
  | CFETI_EXT_PROPERTY_ORDER_GOOD_TILL_CANCEL | CFETI_EXT_PROPERTY_ORDER_IMMEDIATE_OR_CANCEL
  | CFETI_EXT_PROPERTY_ORDER_FILL_OR_KILL

datatype espd_property =
    CFETI_EXT_PROPERTY_GIVEUP_MEMBER_CLEARING_CODE | CFETI_EXT_PROPERTY_ACCOUNT_CODE
  | CFETI_EXT_PROPERTY_LABEL | CFETI_EXT_PROPERTY_CUSTOMER_ACCOUNT
  | CFETI_EXT_PROPERTY_EXCHANGE_ACCOUNT_NAME | CFETI_EXT_PROPERTY_ROUTING_DELAY
  | CFETI_EXT_PROPERTY_SLED_PRICING_METHOD | CFETI_EXT_PROPERTY_ORDER_TYPE
  | CFETI_EXT_PROPERTY_ORDER_TIME_TYPE | CFETI_EXT_PROPERTY_ORDER_RESTRICTION
  | CFETI_EXT_PROPERTY_ORDER_OPENPOSITION | CFETI_EXT_PROPERTY_CTI_CODE
  | CFETI_EXT_PROPERTY_ORDER_ORIGIN | CFETI_EXT_PROPERTY_MINIMUM_VOLUME
  | CFETI_EXT_PROPERTY_CLIP_SIZE

record codes =
  side_code :: "espd_side \<Rightarrow> u8"
  ordtype_code :: "espd_ordtype \<Rightarrow> u32"
  tif_code :: "espd_tif \<Rightarrow> u32"
  property_code :: "espd_property \<Rightarrow> u32"

text \<open>What the code relies on: the codes within one group are distinct and none is the invalid 0.\<close>

definition codes_ok :: "codes \<Rightarrow> bool" where
  "codes_ok K \<longleftrightarrow> inj (side_code K) \<and> inj (ordtype_code K) \<and> inj (tif_code K) \<and>
     (\<forall>x. side_code K x \<noteq> 0) \<and> (\<forall>x. ordtype_code K x \<noteq> 0) \<and> (\<forall>x. tif_code K x \<noteq> 0)"

subsection \<open>Two-way maps\<close>

text \<open>
  \<open>boost::bimap\<close> with sets on both sides, as documented: \<open>insert\<close> adds the pair and answers true
  only when neither its left nor its right value is there already.
\<close>

type_synonym ('a, 'b) bimap = "('a \<times> 'b) list"

definition bimap_insert :: "'a \<times> 'b \<Rightarrow> ('a, 'b) bimap \<Rightarrow> bool \<times> ('a, 'b) bimap" where
  "bimap_insert x m = (if fst x \<in> fst ` set m \<or> snd x \<in> snd ` set m then (False, m) else (True, m @ [x]))"

definition left_find :: "'a \<Rightarrow> ('a, 'b) bimap \<Rightarrow> 'b option" where
  "left_find a m = map_of m a"

definition right_find :: "'b \<Rightarrow> ('a, 'b) bimap \<Rightarrow> 'a option" where
  "right_find b m = map_option fst (find (\<lambda>x. snd x = b) m)"

definition bimap_ok :: "('a, 'b) bimap \<Rightarrow> bool" where
  "bimap_ok m \<longleftrightarrow> distinct (map fst m) \<and> distinct (map snd m)"

lemma bimap_insert_ok: "bimap_ok m \<Longrightarrow> bimap_ok (snd (bimap_insert x m))"
  by (auto simp: bimap_ok_def bimap_insert_def)

lemma right_find_some: "bimap_ok m \<Longrightarrow> right_find b m = Some a \<longleftrightarrow> (a, b) \<in> set m"
proof (induction m)
  case Nil
  then show ?case by (simp add: right_find_def)
next
  case (Cons x m)
  have ok: "bimap_ok m" "snd x \<notin> snd ` set m" using Cons.prems by (auto simp: bimap_ok_def)
  show ?case
  proof (cases "snd x = b")
    case True
    then have "(a, b) \<notin> set m" using ok(2) by (metis image_eqI snd_conv)
    then show ?thesis using True by (cases x) (auto simp: right_find_def)
  next
    case False
    then show ?thesis using Cons.IH [OF ok(1)] by (cases x) (auto simp: right_find_def)
  qed
qed

lemma bimap_inverse:
  "bimap_ok m \<Longrightarrow> left_find a m = Some b \<longleftrightarrow> right_find b m = Some a"
  by (simp add: right_find_some left_find_def bimap_ok_def)

lemma right_find_append:
  "right_find b (m @ [x]) =
    (case right_find b m of None \<Rightarrow> if snd x = b then Some (fst x) else None | Some a \<Rightarrow> Some a)"
  by (induction m) (auto simp: right_find_def)

lemma bimap_insert_find:
  assumes "bimap_ok m" "bimap_insert (a, b) m = (True, m')"
  shows "left_find a m' = Some b" "right_find b m' = Some a"
    "a' \<noteq> a \<Longrightarrow> left_find a' m' = left_find a' m" "b' \<noteq> b \<Longrightarrow> right_find b' m' = right_find b' m"
proof -
  have m': "m' = m @ [(a, b)]" and new: "a \<notin> fst ` set m" "b \<notin> snd ` set m"
    using assms(2) by (auto simp: bimap_insert_def split: if_splits)
  have ok: "bimap_ok m'" using bimap_insert_ok [OF assms(1), of "(a, b)"] assms(2) by simp
  have n: "map_of m a = None" using new(1) by (simp add: map_of_eq_None_iff)
  show l: "left_find a m' = Some b" using n by (simp add: left_find_def m' map_add_def)
  show "right_find b m' = Some a" using l bimap_inverse [OF ok] by metis
  show "a' \<noteq> a \<Longrightarrow> left_find a' m' = left_find a' m"
    by (simp add: left_find_def m' map_add_def split: option.splits)
  show "b' \<noteq> b \<Longrightarrow> right_find b' m' = right_find b' m"
    by (simp add: m' right_find_append split: option.splits)
qed

subsection \<open>EspdFixBiMap\<close>

definition insert_all :: "('a \<times> 'b) list \<Rightarrow> ('a, 'b) bimap" where
  "insert_all xs = fold (\<lambda>x m. snd (bimap_insert x m)) xs []"

record espd_fix_map =
  m_side_indicator :: "(fix_side, u8) bimap"
  m_ordType :: "(fix_ordtype, u32) bimap"
  m_timeInForce :: "(fix_tif, u32) bimap"

definition espd_fix_map_new :: "codes \<Rightarrow> espd_fix_map" where
  "espd_fix_map_new K = \<lparr>
     m_side_indicator = insert_all
       [(Side_BUY, side_code K CFETI_ORDER_BUY),
        (Side_SELL, side_code K CFETI_ORDER_SELL)],
     m_ordType = insert_all
       [(OrdType_MARKET, ordtype_code K CFETI_EXT_PROPERTY_MARKETORDER),
        (OrdType_LIMIT, ordtype_code K CFETI_EXT_PROPERTY_LIMITORDER),
        (OrdType_STOP, ordtype_code K CFETI_EXT_PROPERTY_STOPORDER),
        (OrdType_STOP_LIMIT, ordtype_code K CFETI_EXT_PROPERTY_STOPLIMITORDER),
        (OrdType_MARKET_IF_TOUCHED, ordtype_code K CFETI_EXT_PROPERTY_MARKETIFTOUCHEDORDER),
        (OrdType_MARKET_WITH_LEFTOVER_AS_LIMIT, ordtype_code K CFETI_EXT_PROPERTY_MARKETLIMITORDER)],
     m_timeInForce = insert_all
       [(TimeInForce_GOOD_TILL_DATE, tif_code K CFETI_EXT_PROPERTY_ORDER_GOOD_TILL_DATE),
        (TimeInForce_DAY, tif_code K CFETI_EXT_PROPERTY_ORDER_GOOD_FOR_DAY),
        (TimeInForce_GOOD_TILL_CANCEL, tif_code K CFETI_EXT_PROPERTY_ORDER_GOOD_TILL_CANCEL),
        (TimeInForce_IMMEDIATE_OR_CANCEL, tif_code K CFETI_EXT_PROPERTY_ORDER_IMMEDIATE_OR_CANCEL),
        (TimeInForce_FILL_OR_KILL, tif_code K CFETI_EXT_PROPERTY_ORDER_FILL_OR_KILL)]\<rparr>"

text \<open>The invalid values are the character \<open>'\0'\<close>, which converts to 0.\<close>

definition getIndicator :: "espd_fix_map \<Rightarrow> fix_side \<Rightarrow> u8" where
  "getIndicator M s = (case left_find s (m_side_indicator M) of Some c \<Rightarrow> c | None \<Rightarrow> 0)"

definition getSide :: "espd_fix_map \<Rightarrow> u8 \<Rightarrow> fix_side" where
  "getSide M c = (case right_find c (m_side_indicator M) of Some s \<Rightarrow> s | None \<Rightarrow> Side_INVALID)"

definition getOrderType :: "espd_fix_map \<Rightarrow> fix_ordtype \<Rightarrow> u32" where
  "getOrderType M t = (case left_find t (m_ordType M) of Some c \<Rightarrow> c | None \<Rightarrow> 0)"

definition getTimeInForce :: "espd_fix_map \<Rightarrow> fix_tif \<Rightarrow> u32" where
  "getTimeInForce M t = (case left_find t (m_timeInForce M) of Some c \<Rightarrow> c | None \<Rightarrow> 0)"

lemma code_eqs:
  assumes "codes_ok K"
  shows "side_code K a = side_code K b \<longleftrightarrow> a = b" "ordtype_code K c = ordtype_code K d \<longleftrightarrow> c = d"
    "tif_code K e = tif_code K f \<longleftrightarrow> e = f"
    "side_code K a \<noteq> 0" "ordtype_code K c \<noteq> 0" "tif_code K e \<noteq> 0"
  using assms by (auto simp: codes_ok_def dest: injD)

lemma insert_all_distinct:
  assumes "distinct (map fst xs)" "distinct (map snd xs)"
  shows "insert_all xs = xs"
proof -
  have "fold (\<lambda>x m. snd (bimap_insert x m)) xs m = m @ xs"
    if "distinct (map fst (m @ xs))" "distinct (map snd (m @ xs))" for m
    using that by (induction xs arbitrary: m) (auto simp: bimap_insert_def)
  from this [of "[]"] show ?thesis using assms by (simp add: insert_all_def)
qed

lemma espd_fix_map_tables:
  assumes "codes_ok K"
  shows "m_side_indicator (espd_fix_map_new K) =
      [(Side_BUY, side_code K CFETI_ORDER_BUY), (Side_SELL, side_code K CFETI_ORDER_SELL)]"
    "m_ordType (espd_fix_map_new K) =
      [(OrdType_MARKET, ordtype_code K CFETI_EXT_PROPERTY_MARKETORDER),
        (OrdType_LIMIT, ordtype_code K CFETI_EXT_PROPERTY_LIMITORDER),
        (OrdType_STOP, ordtype_code K CFETI_EXT_PROPERTY_STOPORDER),
        (OrdType_STOP_LIMIT, ordtype_code K CFETI_EXT_PROPERTY_STOPLIMITORDER),
        (OrdType_MARKET_IF_TOUCHED, ordtype_code K CFETI_EXT_PROPERTY_MARKETIFTOUCHEDORDER),
        (OrdType_MARKET_WITH_LEFTOVER_AS_LIMIT, ordtype_code K CFETI_EXT_PROPERTY_MARKETLIMITORDER)]"
    "m_timeInForce (espd_fix_map_new K) =
      [(TimeInForce_GOOD_TILL_DATE, tif_code K CFETI_EXT_PROPERTY_ORDER_GOOD_TILL_DATE),
        (TimeInForce_DAY, tif_code K CFETI_EXT_PROPERTY_ORDER_GOOD_FOR_DAY),
        (TimeInForce_GOOD_TILL_CANCEL, tif_code K CFETI_EXT_PROPERTY_ORDER_GOOD_TILL_CANCEL),
        (TimeInForce_IMMEDIATE_OR_CANCEL, tif_code K CFETI_EXT_PROPERTY_ORDER_IMMEDIATE_OR_CANCEL),
        (TimeInForce_FILL_OR_KILL, tif_code K CFETI_EXT_PROPERTY_ORDER_FILL_OR_KILL)]"
  using assms by (simp_all add: espd_fix_map_new_def insert_all_distinct code_eqs)

subsection \<open>Extended properties\<close>

text \<open>\<open>PrType<id>::type\<close>.\<close>

fun property_type :: "espd_property \<Rightarrow> ftype" where
  "property_type CFETI_EXT_PROPERTY_GIVEUP_MEMBER_CLEARING_CODE = CFETI_FIELDTYPE_STRING"
| "property_type CFETI_EXT_PROPERTY_ACCOUNT_CODE = CFETI_FIELDTYPE_STRING"
| "property_type CFETI_EXT_PROPERTY_LABEL = CFETI_FIELDTYPE_STRING"
| "property_type CFETI_EXT_PROPERTY_CUSTOMER_ACCOUNT = CFETI_FIELDTYPE_STRING"
| "property_type CFETI_EXT_PROPERTY_EXCHANGE_ACCOUNT_NAME = CFETI_FIELDTYPE_STRING"
| "property_type CFETI_EXT_PROPERTY_ROUTING_DELAY = CFETI_FIELDTYPE_STRING"
| "property_type CFETI_EXT_PROPERTY_SLED_PRICING_METHOD = CFETI_FIELDTYPE_BYTE"
| "property_type CFETI_EXT_PROPERTY_ORDER_TYPE = CFETI_FIELDTYPE_UINT32"
| "property_type CFETI_EXT_PROPERTY_ORDER_TIME_TYPE = CFETI_FIELDTYPE_UINT32"
| "property_type CFETI_EXT_PROPERTY_ORDER_RESTRICTION = CFETI_FIELDTYPE_UINT32"
| "property_type CFETI_EXT_PROPERTY_ORDER_OPENPOSITION = CFETI_FIELDTYPE_UINT32"
| "property_type CFETI_EXT_PROPERTY_CTI_CODE = CFETI_FIELDTYPE_UINT32"
| "property_type CFETI_EXT_PROPERTY_ORDER_ORIGIN = CFETI_FIELDTYPE_UINT32"
| "property_type CFETI_EXT_PROPERTY_MINIMUM_VOLUME = CFETI_FIELDTYPE_DECIMAL"
| "property_type CFETI_EXT_PROPERTY_CLIP_SIZE = CFETI_FIELDTYPE_DECIMAL"

text \<open>\<open>FixedSzProperty\<close>: value, identifier and type, each a field of the wire.\<close>

record fixed_property =
  p_value :: u32
  p_id :: u32
  p_type :: u32

definition fixed_property :: "espd \<Rightarrow> codes \<Rightarrow> u32 \<Rightarrow> espd_property \<Rightarrow> fixed_property" where
  "fixed_property E K v i = \<lparr>p_value = v, p_id = property_code K i,
     p_type = ucast (type_code E CFETI_FIELDTYPE_UINT32)\<rparr>"

definition property_bytes :: "espd \<Rightarrow> fixed_property \<Rightarrow> u8 list" where
  "property_bytes E p =
     fld_hdr_bytes E CFETP_FIELD_PREFERENCE_VALUE CFETI_FIELDTYPE_UINT32 @ enc32 E (p_value p) @
     fld_hdr_bytes E CFETP_FIELD_PREFERENCE_ID CFETI_FIELDTYPE_UINT32 @ enc32 E (p_id p) @
     fld_hdr_bytes E CFETP_FIELD_PREFERENCE_TYPE CFETI_FIELDTYPE_UINT32 @ enc32 E (p_type p)"

type_synonym ext_key = "fix_ordtype \<times> fix_tif"

text \<open>The order of \<open>ExtPrFixKey\<close>, on the characters of the FIX values.\<close>

definition ext_key_less :: "u8 \<times> u8 \<Rightarrow> u8 \<times> u8 \<Rightarrow> bool" where
  "ext_key_less lk rk =
     (if fst lk < fst rk then True else if fst rk < fst lk then False else snd lk < snd rk)"

text \<open>The insertions of the constructor, in their order; \<open>std::map::insert\<close> keeps the first.\<close>

definition ext_rows :: "(ext_key \<times> (espd_ordtype \<times> espd_tif \<times> espd_property)) list" where
  "ext_rows = [
     ((OrdType_MARKET, TimeInForce_DAY),
        CFETI_EXT_PROPERTY_MARKETORDER, CFETI_EXT_PROPERTY_ORDER_GOOD_FOR_DAY, CFETI_EXT_PROPERTY_ORDER_TIME_TYPE),
     ((OrdType_MARKET, TimeInForce_AT_THE_OPENING),
        CFETI_EXT_PROPERTY_MARKETONOPENORDER, CFETI_EXT_PROPERTY_ORDER_GOOD_FOR_DAY, CFETI_EXT_PROPERTY_ORDER_TIME_TYPE),
     ((OrdType_MARKET, TimeInForce_IMMEDIATE_OR_CANCEL),
        CFETI_EXT_PROPERTY_MARKETORDER, CFETI_EXT_PROPERTY_ORDER_IMMEDIATE_OR_CANCEL, CFETI_EXT_PROPERTY_ORDER_RESTRICTION),
     ((OrdType_MARKET, TimeInForce_FILL_OR_KILL),
        CFETI_EXT_PROPERTY_MARKETORDER, CFETI_EXT_PROPERTY_ORDER_FILL_OR_KILL, CFETI_EXT_PROPERTY_ORDER_RESTRICTION),
     ((OrdType_MARKET, TimeInForce_GOOD_TILL_CANCEL),
        CFETI_EXT_PROPERTY_MARKETORDER, CFETI_EXT_PROPERTY_ORDER_GOOD_TILL_CANCEL, CFETI_EXT_PROPERTY_ORDER_TIME_TYPE),
     ((OrdType_LIMIT, TimeInForce_DAY),
        CFETI_EXT_PROPERTY_LIMITORDER, CFETI_EXT_PROPERTY_ORDER_GOOD_FOR_DAY, CFETI_EXT_PROPERTY_ORDER_TIME_TYPE),
     ((OrdType_LIMIT, TimeInForce_IMMEDIATE_OR_CANCEL),
        CFETI_EXT_PROPERTY_LIMITORDER, CFETI_EXT_PROPERTY_ORDER_IMMEDIATE_OR_CANCEL, CFETI_EXT_PROPERTY_ORDER_RESTRICTION),
     ((OrdType_LIMIT, TimeInForce_FILL_OR_KILL),
        CFETI_EXT_PROPERTY_LIMITORDER, CFETI_EXT_PROPERTY_ORDER_FILL_OR_KILL, CFETI_EXT_PROPERTY_ORDER_RESTRICTION),
     ((OrdType_LIMIT, TimeInForce_GOOD_TILL_CANCEL),
        CFETI_EXT_PROPERTY_LIMITORDER, CFETI_EXT_PROPERTY_ORDER_GOOD_TILL_CANCEL, CFETI_EXT_PROPERTY_ORDER_TIME_TYPE),
     ((OrdType_STOP, TimeInForce_DAY),
        CFETI_EXT_PROPERTY_STOPORDER, CFETI_EXT_PROPERTY_ORDER_GOOD_FOR_DAY, CFETI_EXT_PROPERTY_ORDER_TIME_TYPE),
     ((OrdType_STOP, TimeInForce_IMMEDIATE_OR_CANCEL),
        CFETI_EXT_PROPERTY_STOPORDER, CFETI_EXT_PROPERTY_ORDER_IMMEDIATE_OR_CANCEL, CFETI_EXT_PROPERTY_ORDER_RESTRICTION),
     ((OrdType_STOP, TimeInForce_FILL_OR_KILL),
        CFETI_EXT_PROPERTY_STOPORDER, CFETI_EXT_PROPERTY_ORDER_FILL_OR_KILL, CFETI_EXT_PROPERTY_ORDER_RESTRICTION),
     ((OrdType_STOP, TimeInForce_GOOD_TILL_CANCEL),
        CFETI_EXT_PROPERTY_STOPORDER, CFETI_EXT_PROPERTY_ORDER_GOOD_TILL_CANCEL, CFETI_EXT_PROPERTY_ORDER_TIME_TYPE),
     ((OrdType_STOP_LIMIT, TimeInForce_DAY),
        CFETI_EXT_PROPERTY_STOPLIMITORDER, CFETI_EXT_PROPERTY_ORDER_GOOD_FOR_DAY, CFETI_EXT_PROPERTY_ORDER_TIME_TYPE),
     ((OrdType_STOP_LIMIT, TimeInForce_IMMEDIATE_OR_CANCEL),
        CFETI_EXT_PROPERTY_STOPLIMITORDER, CFETI_EXT_PROPERTY_ORDER_IMMEDIATE_OR_CANCEL, CFETI_EXT_PROPERTY_ORDER_RESTRICTION),
     ((OrdType_STOP_LIMIT, TimeInForce_FILL_OR_KILL),
        CFETI_EXT_PROPERTY_STOPLIMITORDER, CFETI_EXT_PROPERTY_ORDER_FILL_OR_KILL, CFETI_EXT_PROPERTY_ORDER_RESTRICTION),
     ((OrdType_STOP_LIMIT, TimeInForce_GOOD_TILL_CANCEL),
        CFETI_EXT_PROPERTY_STOPLIMITORDER, CFETI_EXT_PROPERTY_ORDER_GOOD_TILL_CANCEL, CFETI_EXT_PROPERTY_ORDER_TIME_TYPE),
     ((OrdType_MARKET_IF_TOUCHED, TimeInForce_DAY),
        CFETI_EXT_PROPERTY_MARKETIFTOUCHEDORDER, CFETI_EXT_PROPERTY_ORDER_GOOD_FOR_DAY, CFETI_EXT_PROPERTY_ORDER_TIME_TYPE),
     ((OrdType_MARKET_IF_TOUCHED, TimeInForce_IMMEDIATE_OR_CANCEL),
        CFETI_EXT_PROPERTY_MARKETIFTOUCHEDORDER, CFETI_EXT_PROPERTY_ORDER_IMMEDIATE_OR_CANCEL, CFETI_EXT_PROPERTY_ORDER_RESTRICTION),
     ((OrdType_MARKET_IF_TOUCHED, TimeInForce_FILL_OR_KILL),
        CFETI_EXT_PROPERTY_MARKETIFTOUCHEDORDER, CFETI_EXT_PROPERTY_ORDER_FILL_OR_KILL, CFETI_EXT_PROPERTY_ORDER_RESTRICTION),
     ((OrdType_MARKET_IF_TOUCHED, TimeInForce_GOOD_TILL_CANCEL),
        CFETI_EXT_PROPERTY_MARKETIFTOUCHEDORDER, CFETI_EXT_PROPERTY_ORDER_GOOD_TILL_CANCEL, CFETI_EXT_PROPERTY_ORDER_TIME_TYPE),
     ((OrdType_MARKET_IF_TOUCHED_LIMIT, TimeInForce_DAY),
        CFETI_EXT_PROPERTY_MITLIMITORDER, CFETI_EXT_PROPERTY_ORDER_GOOD_FOR_DAY, CFETI_EXT_PROPERTY_ORDER_TIME_TYPE),
     ((OrdType_MARKET_IF_TOUCHED_LIMIT, TimeInForce_IMMEDIATE_OR_CANCEL),
        CFETI_EXT_PROPERTY_MITLIMITORDER, CFETI_EXT_PROPERTY_ORDER_IMMEDIATE_OR_CANCEL, CFETI_EXT_PROPERTY_ORDER_RESTRICTION),
     ((OrdType_MARKET_IF_TOUCHED_LIMIT, TimeInForce_FILL_OR_KILL),
        CFETI_EXT_PROPERTY_MITLIMITORDER, CFETI_EXT_PROPERTY_ORDER_FILL_OR_KILL, CFETI_EXT_PROPERTY_ORDER_RESTRICTION),
     ((OrdType_MARKET_IF_TOUCHED_LIMIT, TimeInForce_GOOD_TILL_CANCEL),
        CFETI_EXT_PROPERTY_MITLIMITORDER, CFETI_EXT_PROPERTY_ORDER_GOOD_TILL_CANCEL, CFETI_EXT_PROPERTY_ORDER_TIME_TYPE)]"

definition ext_properties :: "espd \<Rightarrow> codes \<Rightarrow> ext_key \<Rightarrow> (fixed_property \<times> fixed_property) option" where
  "ext_properties E K = map_of (map (\<lambda>(key, t, f, i).
     (key, fixed_property E K (ordtype_code K t) CFETI_EXT_PROPERTY_ORDER_TYPE,
       fixed_property E K (tif_code K f) i)) ext_rows)"

lemma ext_properties_find:
  "ext_properties E K key = (case map_of ext_rows key of None \<Rightarrow> None
     | Some (t, f, i) \<Rightarrow> Some (fixed_property E K (ordtype_code K t) CFETI_EXT_PROPERTY_ORDER_TYPE,
         fixed_property E K (tif_code K f) i))"
proof -
  have "map_of (map (\<lambda>(key, t, f, i).
     (key, fixed_property E K (ordtype_code K t) CFETI_EXT_PROPERTY_ORDER_TYPE,
       fixed_property E K (tif_code K f) i)) rows) key =
    (case map_of rows key of None \<Rightarrow> None
     | Some (t, f, i) \<Rightarrow> Some (fixed_property E K (ordtype_code K t) CFETI_EXT_PROPERTY_ORDER_TYPE,
         fixed_property E K (tif_code K f) i))" for rows
    by (induction rows) auto
  then show ?thesis by (simp add: ext_properties_def)
qed

subsection \<open>Properties\<close>

definition sample_codes :: codes where
  "sample_codes = \<lparr>
     side_code = (\<lambda>x. case x of CFETI_ORDER_BUY \<Rightarrow> 1 | CFETI_ORDER_SELL \<Rightarrow> 2),
     ordtype_code = (\<lambda>x. case x of
         CFETI_EXT_PROPERTY_MARKETORDER \<Rightarrow> 1 | CFETI_EXT_PROPERTY_LIMITORDER \<Rightarrow> 2
       | CFETI_EXT_PROPERTY_STOPORDER \<Rightarrow> 3 | CFETI_EXT_PROPERTY_STOPLIMITORDER \<Rightarrow> 4
       | CFETI_EXT_PROPERTY_MARKETIFTOUCHEDORDER \<Rightarrow> 5 | CFETI_EXT_PROPERTY_MARKETLIMITORDER \<Rightarrow> 6
       | CFETI_EXT_PROPERTY_MARKETONOPENORDER \<Rightarrow> 7 | CFETI_EXT_PROPERTY_MITLIMITORDER \<Rightarrow> 8),
     tif_code = (\<lambda>x. case x of
         CFETI_EXT_PROPERTY_ORDER_GOOD_TILL_DATE \<Rightarrow> 1 | CFETI_EXT_PROPERTY_ORDER_GOOD_FOR_DAY \<Rightarrow> 2
       | CFETI_EXT_PROPERTY_ORDER_GOOD_TILL_CANCEL \<Rightarrow> 3
       | CFETI_EXT_PROPERTY_ORDER_IMMEDIATE_OR_CANCEL \<Rightarrow> 4
       | CFETI_EXT_PROPERTY_ORDER_FILL_OR_KILL \<Rightarrow> 5),
     property_code = (\<lambda>x. if x = CFETI_EXT_PROPERTY_ORDER_TYPE then 10
       else if x = CFETI_EXT_PROPERTY_ORDER_TIME_TYPE then 11
       else if x = CFETI_EXT_PROPERTY_ORDER_RESTRICTION then 12 else 13)\<rparr>"

lemma sample_codes_ok: "codes_ok sample_codes"
  by (auto simp: codes_ok_def sample_codes_def inj_def split: espd_side.splits espd_ordtype.splits espd_tif.splits)

text \<open>
  The sides buy and sell translate to the trading system and back; every other
  side becomes the invalid indicator, and the invalid indicator the invalid side.
\<close>

theorem side_roundtrip:
  assumes "codes_ok K"
  shows "getSide (espd_fix_map_new K) (getIndicator (espd_fix_map_new K) s) =
      (if s = Side_BUY \<or> s = Side_SELL then s else Side_INVALID) \<and>
    (\<forall>c. getSide (espd_fix_map_new K) c \<noteq> Side_INVALID \<longrightarrow>
       getIndicator (espd_fix_map_new K) (getSide (espd_fix_map_new K) c) = c)"
  using assms
  by (auto simp: getSide_def getIndicator_def espd_fix_map_tables left_find_def right_find_def code_eqs)

theorem side_roundtrip_witness:
  "getSide (espd_fix_map_new sample_codes) (getIndicator (espd_fix_map_new sample_codes) Side_SELL) = Side_SELL"
  using side_roundtrip [OF sample_codes_ok, of Side_SELL] by simp

text \<open>
  The table of extended properties agrees with \<open>EspdFixBiMap\<close>: for every
  combination of order type and time in force it holds, outside market on open and market if
  touched limit, the first property is the order type and the second the time in force of the
  two-way maps; immediate-or-cancel and fill-or-kill are sent as restrictions, the others as
  time types; and the time in force \<open>at the opening\<close> is there for market orders only.
\<close>

theorem ext_properties_agree:
  assumes K: "codes_ok K" and f: "ext_properties E K (ot, tif) = Some (p0, p1)"
  shows "p_id p0 = property_code K CFETI_EXT_PROPERTY_ORDER_TYPE \<and>
    (tif \<noteq> TimeInForce_AT_THE_OPENING \<and> ot \<noteq> OrdType_MARKET_IF_TOUCHED_LIMIT \<longrightarrow>
      p_value p0 = getOrderType (espd_fix_map_new K) ot) \<and>
    (tif \<noteq> TimeInForce_AT_THE_OPENING \<longrightarrow> p_value p1 = getTimeInForce (espd_fix_map_new K) tif) \<and>
    (p_id p1 = property_code K (if tif = TimeInForce_IMMEDIATE_OR_CANCEL \<or> tif = TimeInForce_FILL_OR_KILL
       then CFETI_EXT_PROPERTY_ORDER_RESTRICTION else CFETI_EXT_PROPERTY_ORDER_TIME_TYPE)) \<and>
    (tif = TimeInForce_AT_THE_OPENING \<longrightarrow> ot = OrdType_MARKET)"
proof -
  obtain t fo i where row: "map_of ext_rows (ot, tif) = Some (t, fo, i)"
    and p: "p0 = fixed_property E K (ordtype_code K t) CFETI_EXT_PROPERTY_ORDER_TYPE"
      "p1 = fixed_property E K (tif_code K fo) i"
    using f by (auto simp: ext_properties_find split: option.splits)
  have "((ot, tif), t, fo, i) \<in> set ext_rows" using row by (rule map_of_SomeD)
  then show ?thesis
    unfolding ext_rows_def
    by (auto simp: p fixed_property_def getOrderType_def getTimeInForce_def left_find_def
        espd_fix_map_tables [OF K])
qed

theorem ext_properties_agree_witness:
  "\<exists>p0 p1. ext_properties big_endian sample_codes (OrdType_STOP, TimeInForce_FILL_OR_KILL) = Some (p0, p1) \<and>
    p_value p0 = 3 \<and> p_value p1 = 5"
proof -
  obtain p0 p1 where p: "ext_properties big_endian sample_codes (OrdType_STOP, TimeInForce_FILL_OR_KILL) = Some (p0, p1)"
    by (simp add: ext_properties_find ext_rows_def)
  from ext_properties_agree [OF sample_codes_ok p] p show ?thesis
    by (simp add: getOrderType_def getTimeInForce_def left_find_def espd_fix_map_tables [OF sample_codes_ok]
        sample_codes_def [THEN arg_cong [where f = ordtype_code]] sample_codes_def [THEN arg_cong [where f = tif_code]])
qed

end
