(* ===== verification/Fix_Sessions.thy ===== *)
theory Fix_Sessions
  imports Fix_Values
begin

text \<open>
  Sessions of the FIX adapter and the settings of the trading systems: common/include/fix_utils.h,
  logon_info.h, session_settings_wrapper.h/.cpp, ts_impl/include/ts_settings.h/.cpp and
  connector/include/connect_settings.h. A dictionary of QuickFIX is the partial map \<open>getString\<close>
  reads (it throws where the map is undefined); \<open>boost::lexical_cast\<close> to 32 bits is an argument.
\<close>

type_synonym session_id = "string \<times> string \<times> string"
type_synonym dict = "string \<Rightarrow> string option"
type_synonym lexical = "string \<Rightarrow> u32 option"

definition INVALID_SESSION_ID :: session_id where
  "INVALID_SESSION_ID = ('''', '''', '''')"

definition isSessionIdValid :: "session_id \<Rightarrow> bool" where
  "isSessionIdValid s \<longleftrightarrow> INVALID_SESSION_ID = s"

definition getDictionaryValue :: "lexical \<Rightarrow> string \<Rightarrow> dict \<Rightarrow> u32 \<times> bool" where
  "getDictionaryValue cast32 key dic = (case dic key of
     None \<Rightarrow> (0, False)
   | Some s \<Rightarrow> (case cast32 s of None \<Rightarrow> (0, False) | Some v \<Rightarrow> (v, True)))"

definition getDictionaryString :: "string \<Rightarrow> dict \<Rightarrow> string \<times> bool" where
  "getDictionaryString key dic = (case dic key of None \<Rightarrow> ('''', False) | Some s \<Rightarrow> (s, True))"

subsection \<open>Logon information\<close>

text \<open>
  The constructor leaves \<open>m_xsessId\<close> uninitialised: \<open>junk\<close> is what the memory happens to hold.
\<close>

record logon_info =
  tsPref :: u32
  sessId :: string
  userName :: string
  passWord :: string
  tsId :: u32
  xsessId :: u32

definition SessionLogonInfo :: "u32 \<Rightarrow> u32 \<Rightarrow> string \<Rightarrow> string \<Rightarrow> string \<Rightarrow> u32 \<Rightarrow> logon_info" where
  "SessionLogonInfo junk pref sess user pass ts =
     \<lparr>tsPref = pref, sessId = sess, userName = user, passWord = pass, tsId = ts, xsessId = junk\<rparr>"

definition set_xsessId :: "u32 \<Rightarrow> logon_info \<Rightarrow> logon_info" where
  "set_xsessId x i = i\<lparr>xsessId := x\<rparr>"

definition get_xsessId :: "u32 \<Rightarrow> logon_info \<Rightarrow> u32" where
  "get_xsessId ts i = xsessId i"

record session_info =
  si_id :: session_id
  si_dict :: dict
  si_logon :: "logon_info option"

subsection \<open>SessionsInfo\<close>

record sessions_info =
  default_dict :: dict
  sessions :: "session_id \<Rightarrow> session_info option"
  session_ids :: "(session_id, u32 \<times> u32) bimap"

text \<open>\<open>SessionInfo::getSettingsValue\<close> warns and returns the default value when the key is unknown.\<close>

definition si_getSettingsValue :: "lexical \<Rightarrow> string \<Rightarrow> session_info \<Rightarrow> u32" where
  "si_getSettingsValue cast32 key si = fst (getDictionaryValue cast32 key (si_dict si))"

definition si_getSettingsString :: "string \<Rightarrow> session_info \<Rightarrow> string" where
  "si_getSettingsString key si = fst (getDictionaryString key (si_dict si))"

definition getSessionSettings :: "session_id \<Rightarrow> sessions_info \<Rightarrow> session_info option" where
  "getSessionSettings sid S = sessions S sid"

definition getLogonInfo :: "session_id \<Rightarrow> sessions_info \<Rightarrow> logon_info option" where
  "getLogonInfo sid S = (case getSessionSettings sid S of
     None \<Rightarrow> None | Some si \<Rightarrow> si_logon si)"

text \<open>\<open>makeSessionLogonInfoPtr\<close>: \<open>None\<close> when a key is missing or does not parse, which throws.\<close>

definition makeSessionLogonInfo :: "lexical \<Rightarrow> (session_id \<Rightarrow> string) \<Rightarrow> u32 \<Rightarrow> dict \<Rightarrow> session_id \<Rightarrow> logon_info option" where
  "makeSessionLogonInfo cast32 to_string junk dic sid =
     (case Option.bind (dic ''tsPref'') cast32 of None \<Rightarrow> None
      | Some pref \<Rightarrow> (case dic ''userName'' of None \<Rightarrow> None
      | Some user \<Rightarrow> (case dic ''passWord'' of None \<Rightarrow> None
      | Some pass \<Rightarrow> (case Option.bind (dic ''tsId'') cast32 of None \<Rightarrow> None
      | Some ts \<Rightarrow> Some (SessionLogonInfo junk pref (to_string sid) user pass ts)))))"

text \<open>
  \<open>setSettings\<close>, over the sessions of the settings in their order; a session the acceptor does
  not know, or whose dictionary is incomplete, is reported and skipped.
\<close>

fun setSettings :: "lexical \<Rightarrow> (session_id \<Rightarrow> string) \<Rightarrow> u32 \<Rightarrow> (session_id \<Rightarrow> bool) \<Rightarrow>
    (session_id \<times> dict) list \<Rightarrow> (session_id \<Rightarrow> session_info option) \<Rightarrow> (session_id \<Rightarrow> session_info option)" where
  "setSettings cast32 ts junk known [] m = m"
| "setSettings cast32 ts junk known ((sid, dic) # rest) m =
     setSettings cast32 ts junk known rest
       (if \<not> known sid then m
        else case makeSessionLogonInfo cast32 ts junk dic sid of
          None \<Rightarrow> m
        | Some info \<Rightarrow> (if m sid \<noteq> None then m
            else m(sid \<mapsto> \<lparr>si_id = sid, si_dict = dic, si_logon = Some info\<rparr>)))"

definition SessionsInfo :: "lexical \<Rightarrow> (session_id \<Rightarrow> string) \<Rightarrow> u32 \<Rightarrow> (session_id \<Rightarrow> bool) \<Rightarrow> dict \<Rightarrow>
    (session_id \<times> dict) list \<Rightarrow> sessions_info" where
  "SessionsInfo cast32 ts junk known dflt settings =
     \<lparr>default_dict = dflt, sessions = setSettings cast32 ts junk known settings Map.empty, session_ids = []\<rparr>"

text \<open>\<open>set_sessId\<close>: the result of \<open>bimap::insert\<close> is ignored.\<close>

definition set_sessId :: "session_id \<Rightarrow> u32 \<Rightarrow> u32 \<Rightarrow> sessions_info \<Rightarrow> bool \<times> sessions_info" where
  "set_sessId sid xsess ts S = (case sessions S sid of
     None \<Rightarrow> (False, S)
   | Some si \<Rightarrow> (case si_logon si of
       None \<Rightarrow> (False, S)
     | Some info \<Rightarrow>
         (if ts \<noteq> tsId info then (False, S)
          else let info' = set_xsessId xsess info in
            (True, S\<lparr>sessions := (sessions S)(sid \<mapsto> si\<lparr>si_logon := Some info'\<rparr>),
               session_ids := snd (bimap_insert (sid, (get_xsessId (tsId info') info', tsId info')) (session_ids S))\<rparr>))))"

definition getSessionId :: "u32 \<times> u32 \<Rightarrow> sessions_info \<Rightarrow> session_id" where
  "getSessionId tsid S = (case right_find tsid (session_ids S) of
     Some sid \<Rightarrow> sid | None \<Rightarrow> INVALID_SESSION_ID)"

subsection \<open>Settings of the trading systems\<close>

text \<open>The defaults of Const.h, which is not part of the repository, are the record \<open>defaults\<close>.\<close>

record defaults =
  DEFAULT_SO_REUSE_ADDR :: bool
  DEFAULT_SO_KEEPALIVE :: bool
  DEFAULT_SO_NODELAY :: bool
  DEFAULT_RCV_BUFFER_SIZE :: int
  DEFAULT_SND_BUFFER_SIZE :: int
  DEFAULT_SO_LINGER_TIME :: int
  DEFAULT_SO_TIMEOUT :: int
  DEFAULT_CONNECTION_INTERVAL :: int
  DEFAULT_MISSING_HEARTBEAT :: int
  DEFAULT_PING_INTERVAL :: int

record connect_settings =
  address :: string
  port :: string
  reuseAddress :: bool
  keepAlives :: bool
  noDelay :: bool
  ReceivedBufferSize :: int
  SendBufferSize :: int
  soLinger :: "bool \<times> int"
  soTimeout :: int
  connectionInterval :: int

definition ConnectSettings :: "defaults \<Rightarrow> string \<Rightarrow> string \<Rightarrow> connect_settings" where
  "ConnectSettings D addr prt = \<lparr>address = addr, port = prt,
     reuseAddress = DEFAULT_SO_REUSE_ADDR D, keepAlives = DEFAULT_SO_KEEPALIVE D,
     noDelay = DEFAULT_SO_NODELAY D, ReceivedBufferSize = DEFAULT_RCV_BUFFER_SIZE D,
     SendBufferSize = DEFAULT_SND_BUFFER_SIZE D, soLinger = (True, DEFAULT_SO_LINGER_TIME D),
     soTimeout = DEFAULT_SO_TIMEOUT D, connectionInterval = DEFAULT_CONNECTION_INTERVAL D\<rparr>"

record ts_info =
  ti_connectionInterval :: int
  ti_missingHeartBeatThreshold :: int
  ti_pingInterval :: int
  ti_name :: string

record ts_settings =
  ts_id :: u32
  ts_connection :: connect_settings
  ts_information :: ts_info

record trading_systems =
  ts_map :: "u32 \<Rightarrow> ts_settings option"
  connects :: "u32 \<Rightarrow> connect_settings option"
  ts_ids :: "u32 set"

definition insert_new :: "'k \<Rightarrow> 'v \<Rightarrow> ('k \<Rightarrow> 'v option) \<Rightarrow> ('k \<Rightarrow> 'v option)" where
  "insert_new k v m = (if m k = None then m(k \<mapsto> v) else m)"

fun ts_init :: "lexical \<Rightarrow> defaults \<Rightarrow> (session_id \<times> dict) list \<Rightarrow> trading_systems \<Rightarrow> trading_systems" where
  "ts_init cast32 D [] T = T"
| "ts_init cast32 D ((sid, dic) # rest) T = ts_init cast32 D rest
     (let (i, i_ok) = getDictionaryValue cast32 ''tsId'' dic;
          (ip, ip_ok) = getDictionaryString ''TS_IP'' dic;
          (prt, prt_ok) = getDictionaryString ''TS_PORT'' dic;
          (nm, nm_ok) = getDictionaryString ''tsName'' dic
      in if \<not> i_ok then T else if \<not> ip_ok then T else if \<not> prt_ok then T
         else let nm' = (if nm_ok then nm else '''');
                  con = ConnectSettings D ip prt;
                  info = \<lparr>ti_connectionInterval = DEFAULT_CONNECTION_INTERVAL D,
                    ti_missingHeartBeatThreshold = DEFAULT_MISSING_HEARTBEAT D,
                    ti_pingInterval = DEFAULT_PING_INTERVAL D, ti_name = nm'\<rparr>
              in T\<lparr>ts_map := insert_new i \<lparr>ts_id = i, ts_connection = con, ts_information = info\<rparr> (ts_map T),
                   connects := insert_new i con (connects T),
                   ts_ids := insert i (ts_ids T)\<rparr>)"

definition TradingSytemsSettings :: "lexical \<Rightarrow> defaults \<Rightarrow> (session_id \<times> dict) list \<Rightarrow> trading_systems" where
  "TradingSytemsSettings cast32 D settings =
     ts_init cast32 D settings \<lparr>ts_map = Map.empty, connects = Map.empty, ts_ids = {}\<rparr>"

subsection \<open>Lemmas\<close>

definition sessions_ok :: "sessions_info \<Rightarrow> bool" where
  "sessions_ok S \<longleftrightarrow> bimap_ok (session_ids S) \<and>
     (\<forall>sid x. left_find sid (session_ids S) = Some x \<longrightarrow> sessions S sid \<noteq> None)"

lemma bimap_insert_cases:
  "bimap_insert x m = (True, m @ [x]) \<and> fst x \<notin> fst ` set m \<and> snd x \<notin> snd ` set m \<or>
   bimap_insert x m = (False, m)"
  by (auto simp: bimap_insert_def)

lemma set_sessId_ok:
  assumes "sessions_ok S"
  shows "sessions_ok (snd (set_sessId sid x ts S))"
proof (cases "fst (set_sessId sid x ts S)")
  case False
  then have "snd (set_sessId sid x ts S) = S"
    by (auto simp: set_sessId_def Let_def split: option.splits if_splits)
  then show ?thesis using assms by simp
next
  case True
  let ?S' = "snd (set_sessId sid x ts S)"
  have ids: "session_ids ?S' = snd (bimap_insert (sid, (x, ts)) (session_ids S))"
    and dom: "dom (sessions ?S') = insert sid (dom (sessions S))"
    using True by (auto simp: set_sessId_def Let_def set_xsessId_def get_xsessId_def split: option.splits if_splits)
  have ok: "bimap_ok (session_ids S)" using assms by (simp add: sessions_ok_def)
  have "left_find k (session_ids ?S') = Some y \<Longrightarrow> sessions ?S' k \<noteq> None" for k y
  proof -
    assume l: "left_find k (session_ids ?S') = Some y"
    then have "k = sid \<or> left_find k (session_ids S) \<noteq> None"
      unfolding ids by (auto simp: bimap_insert_def left_find_def map_add_def split: if_splits option.splits)
    then have "k \<in> insert sid (dom (sessions S))"
      using assms unfolding sessions_ok_def by (metis domIff insertCI not_None_eq)
    then show ?thesis using dom by blast
  qed
  then show ?thesis using bimap_insert_ok [OF ok] by (simp add: sessions_ok_def ids)
qed

lemma ts_init_invariant:
  assumes "\<forall>i s. ts_map T i = Some s \<longrightarrow> ts_id s = i \<and> connects T i = Some (ts_connection s)"
    and "ts_ids T = dom (ts_map T)" "dom (connects T) = dom (ts_map T)"
  shows "(\<forall>i s. ts_map (ts_init cast32 D settings T) i = Some s \<longrightarrow>
      ts_id s = i \<and> connects (ts_init cast32 D settings T) i = Some (ts_connection s)) \<and>
    ts_ids (ts_init cast32 D settings T) = dom (ts_map (ts_init cast32 D settings T)) \<and>
    dom (connects (ts_init cast32 D settings T)) = dom (ts_map (ts_init cast32 D settings T))"
  using assms
proof (induction settings arbitrary: T)
  case (Cons a settings)
  obtain k dic where a: "a = (k, dic)" by (cases a)
  let ?i = "fst (getDictionaryValue cast32 ''tsId'' dic)"
  define T' where "T' = (let (i, i_ok) = getDictionaryValue cast32 ''tsId'' dic;
          (ip, ip_ok) = getDictionaryString ''TS_IP'' dic;
          (prt, prt_ok) = getDictionaryString ''TS_PORT'' dic;
          (nm, nm_ok) = getDictionaryString ''tsName'' dic
      in if \<not> i_ok then T else if \<not> ip_ok then T else if \<not> prt_ok then T
         else let nm' = (if nm_ok then nm else '''');
                  con = ConnectSettings D ip prt;
                  info = \<lparr>ti_connectionInterval = DEFAULT_CONNECTION_INTERVAL D,
                    ti_missingHeartBeatThreshold = DEFAULT_MISSING_HEARTBEAT D,
                    ti_pingInterval = DEFAULT_PING_INTERVAL D, ti_name = nm'\<rparr>
              in T\<lparr>ts_map := insert_new i \<lparr>ts_id = i, ts_connection = con, ts_information = info\<rparr> (ts_map T),
                   connects := insert_new i con (connects T),
                   ts_ids := insert i (ts_ids T)\<rparr>)"
  have inv: "(\<forall>i s. ts_map T' i = Some s \<longrightarrow> ts_id s = i \<and> connects T' i = Some (ts_connection s)) \<and>
    ts_ids T' = dom (ts_map T') \<and> dom (connects T') = dom (ts_map T')"
  proof (cases "T' = T")
    case True
    then show ?thesis using Cons.prems by simp
  next
    case False
    then obtain con info where T': "T' = T\<lparr>ts_map := insert_new ?i \<lparr>ts_id = ?i, ts_connection = con, ts_information = info\<rparr> (ts_map T),
        connects := insert_new ?i con (connects T), ts_ids := insert ?i (ts_ids T)\<rparr>"
      unfolding T'_def by (auto simp: Let_def split: prod.splits if_splits)
    show ?thesis
    proof (cases "ts_map T ?i")
      case None
      then have "connects T ?i = None" using Cons.prems(3) by (metis domIff)
      then show ?thesis using None Cons.prems by (simp add: T' insert_new_def)
    next
      case (Some s)
      then have "connects T ?i \<noteq> None" "?i \<in> dom (ts_map T)" using Cons.prems(1) by auto
      then show ?thesis using Some Cons.prems by (simp add: T' insert_new_def insert_absorb)
    qed
  qed
  have "ts_init cast32 D (a # settings) T = ts_init cast32 D settings T'" by (simp add: a T'_def)
  then show ?case using Cons.IH [of T'] inv by simp
qed simp

lemma set_sessId_registers:
  assumes ok: "sessions_ok S" and known: "getLogonInfo sid S = Some info" "tsId info = ts"
    and fresh: "left_find sid (session_ids S) = None" "right_find (x, ts) (session_ids S) = None"
  shows "\<exists>S'. set_sessId sid x ts S = (True, S') \<and> sessions_ok S' \<and> getSessionId (x, ts) S' = sid \<and>
    (\<forall>k. k \<noteq> (x, ts) \<longrightarrow> getSessionId k S' = getSessionId k S) \<and>
    getLogonInfo sid S' = Some (info\<lparr>xsessId := x\<rparr>)"
proof -
  obtain si where si: "sessions S sid = Some si" "si_logon si = Some info"
    using known(1) by (auto simp: getLogonInfo_def getSessionSettings_def split: option.splits)
  have b: "bimap_ok (session_ids S)" using ok by (simp add: sessions_ok_def)
  have "sid \<notin> fst ` set (session_ids S)"
    using fresh(1) by (simp add: left_find_def map_of_eq_None_iff)
  moreover have "(x, ts) \<notin> snd ` set (session_ids S)"
  proof
    assume "(x, ts) \<in> snd ` set (session_ids S)"
    then obtain a where "(a, (x, ts)) \<in> set (session_ids S)" by auto
    then show False using right_find_some [OF b] fresh(2) by (metis option.distinct(1))
  qed
  ultimately have ins: "bimap_insert (sid, (x, ts)) (session_ids S) = (True, session_ids S @ [(sid, (x, ts))])"
    by (simp add: bimap_insert_def)
  define S' where "S' = S\<lparr>sessions := (sessions S)(sid \<mapsto> si\<lparr>si_logon := Some (info\<lparr>xsessId := x\<rparr>)\<rparr>),
    session_ids := session_ids S @ [(sid, (x, ts))]\<rparr>"
  have set: "set_sessId sid x ts S = (True, S')"
    using si known(2) ins by (simp add: set_sessId_def Let_def set_xsessId_def get_xsessId_def S'_def)
  have "sessions_ok S'" using set_sessId_ok [OF ok, of sid x ts] set by simp
  moreover have "getSessionId (x, ts) S' = sid" "\<forall>k. k \<noteq> (x, ts) \<longrightarrow> getSessionId k S' = getSessionId k S"
    using bimap_insert_find [OF b ins] by (simp_all add: getSessionId_def S'_def)
  moreover have "getLogonInfo sid S' = Some (info\<lparr>xsessId := x\<rparr>)"
    by (simp add: getLogonInfo_def getSessionSettings_def S'_def)
  ultimately show ?thesis using set by blast
qed

subsection \<open>Properties\<close>

text \<open>
  When the trading system has confirmed the connection of a known session with
  its own trading system id and a session number not in use, messages that carry the session
  number and the trading system id are attributed to this session, other numbers as before;
  and requests of the session carry the new number.
\<close>

theorem connect_then_lookup:
  assumes ok: "sessions_ok S" and known: "getLogonInfo sid S = Some info" "tsId info = ts"
    and fresh: "left_find sid (session_ids S) = None" "right_find (x, ts) (session_ids S) = None"
  shows "\<exists>S'. set_sessId sid x ts S = (True, S') \<and> sessions_ok S' \<and> getSessionId (x, ts) S' = sid \<and>
    (\<forall>k. k \<noteq> (x, ts) \<longrightarrow> getSessionId k S' = getSessionId k S) \<and>
    getLogonInfo sid S' = Some (info\<lparr>xsessId := x\<rparr>)"
  by (rule set_sessId_registers [OF assms])

definition sample_sid :: session_id where
  "sample_sid = (''FIX.4.2'', ''ME'', ''TS'')"

definition sample_logon :: logon_info where
  "sample_logon = \<lparr>tsPref = 1, sessId = ''s'', userName = ''joe'', passWord = ''pw'', tsId = 7, xsessId = 0\<rparr>"

definition sample_sessions :: sessions_info where
  "sample_sessions = \<lparr>default_dict = Map.empty,
     sessions = [sample_sid \<mapsto> \<lparr>si_id = sample_sid, si_dict = Map.empty, si_logon = Some sample_logon\<rparr>],
     session_ids = []\<rparr>"

theorem connect_then_lookup_witness:
  "\<exists>S'. set_sessId sample_sid 42 7 sample_sessions = (True, S') \<and> getSessionId (42, 7) S' = sample_sid"
proof -
  have "sessions_ok sample_sessions"
    by (simp add: sessions_ok_def sample_sessions_def bimap_ok_def left_find_def)
  moreover have "getLogonInfo sample_sid sample_sessions = Some sample_logon"
    by (simp add: getLogonInfo_def getSessionSettings_def sample_sessions_def)
  moreover have "tsId sample_logon = 7" by (simp add: sample_logon_def)
  moreover have "left_find sample_sid (session_ids sample_sessions) = None"
    "right_find (42, 7) (session_ids sample_sessions) = None"
    by (simp_all add: left_find_def right_find_def sample_sessions_def)
  ultimately show ?thesis using connect_then_lookup [of sample_sessions sample_sid sample_logon 7 42] by blast
qed

text \<open>
  A session that connects again with a new session number is answered true, and
  its requests carry the new number, but messages with that number find no session, because
  the ignored \<open>bimap::insert\<close> refuses the second entry of the session.
\<close>

theorem reconnect_is_lost:
  assumes ok: "sessions_ok S" and known: "getLogonInfo sid S = Some info" "tsId info = ts"
    and old: "left_find sid (session_ids S) = Some (x0, ts)" "x \<noteq> x0"
    and free: "right_find (x, ts) (session_ids S) = None"
  shows "\<exists>S'. set_sessId sid x ts S = (True, S') \<and> getLogonInfo sid S' = Some (info\<lparr>xsessId := x\<rparr>) \<and>
    getSessionId (x, ts) S' = INVALID_SESSION_ID \<and> getSessionId (x0, ts) S' = sid"
proof -
  obtain si where si: "sessions S sid = Some si" "si_logon si = Some info"
    using known(1) by (auto simp: getLogonInfo_def getSessionSettings_def split: option.splits)
  have b: "bimap_ok (session_ids S)" using ok by (simp add: sessions_ok_def)
  have "sid \<in> fst ` set (session_ids S)" using old(1) by (force simp: left_find_def dest: map_of_SomeD)
  then have ins: "bimap_insert (sid, (x, ts)) (session_ids S) = (False, session_ids S)"
    by (simp add: bimap_insert_def)
  define S' where "S' = S\<lparr>sessions := (sessions S)(sid \<mapsto> si\<lparr>si_logon := Some (info\<lparr>xsessId := x\<rparr>)\<rparr>)\<rparr>"
  have set: "set_sessId sid x ts S = (True, S')"
    using si known(2) ins by (simp add: set_sessId_def Let_def set_xsessId_def get_xsessId_def S'_def)
  moreover have "getSessionId (x, ts) S' = INVALID_SESSION_ID" using free by (simp add: getSessionId_def S'_def)
  moreover have "getSessionId (x0, ts) S' = sid"
    using old(1) bimap_inverse [OF b] by (simp add: getSessionId_def S'_def)
  moreover have "getLogonInfo sid S' = Some (info\<lparr>xsessId := x\<rparr>)"
    by (simp add: getLogonInfo_def getSessionSettings_def S'_def)
  ultimately show ?thesis by blast
qed

theorem reconnect_is_lost_witness:
  "\<exists>S S'. set_sessId sample_sid 43 7 S = (True, S') \<and> getSessionId (43, 7) S' = INVALID_SESSION_ID"
proof -
  let ?S = "sample_sessions\<lparr>session_ids := [(sample_sid, (42, 7))]\<rparr>"
  have "sessions_ok ?S"
    by (simp add: sessions_ok_def sample_sessions_def bimap_ok_def left_find_def)
  moreover have "getLogonInfo sample_sid ?S = Some sample_logon"
    by (simp add: getLogonInfo_def getSessionSettings_def sample_sessions_def)
  moreover have "tsId sample_logon = 7" by (simp add: sample_logon_def)
  moreover have "left_find sample_sid (session_ids ?S) = Some (42, 7)"
    "right_find (43, 7) (session_ids ?S) = None"
    by (simp_all add: left_find_def right_find_def)
  ultimately show ?thesis using reconnect_is_lost [of ?S sample_sid sample_logon 7 42 43] by force
qed

text \<open>
  Property C14: After the settings are read, the map of trading systems, the map of their
  connections and the set of their ids have the same keys, each system is stored under its own
  id, and its connection is the one in the map of connections.
\<close>

theorem trading_systems_consistent:
  "(ts_map (TradingSytemsSettings cast32 D settings) i = Some s \<longrightarrow>
     ts_id s = i \<and> connects (TradingSytemsSettings cast32 D settings) i = Some (ts_connection s)) \<and>
   ts_ids (TradingSytemsSettings cast32 D settings) = dom (ts_map (TradingSytemsSettings cast32 D settings)) \<and>
   dom (connects (TradingSytemsSettings cast32 D settings)) = dom (ts_map (TradingSytemsSettings cast32 D settings))"
  using ts_init_invariant [of "\<lparr>ts_map = Map.empty, connects = Map.empty, ts_ids = {}\<rparr>" cast32 D settings]
  by (simp add: TradingSytemsSettings_def)

definition sample_defaults :: defaults where
  "sample_defaults = \<lparr>DEFAULT_SO_REUSE_ADDR = True, DEFAULT_SO_KEEPALIVE = True, DEFAULT_SO_NODELAY = True,
     DEFAULT_RCV_BUFFER_SIZE = 65536, DEFAULT_SND_BUFFER_SIZE = 65536, DEFAULT_SO_LINGER_TIME = 0,
     DEFAULT_SO_TIMEOUT = 1000, DEFAULT_CONNECTION_INTERVAL = 5000, DEFAULT_MISSING_HEARTBEAT = 3,
     DEFAULT_PING_INTERVAL = 30\<rparr>"

theorem trading_systems_consistent_witness:
  "ts_map (TradingSytemsSettings (\<lambda>s. Some 7) sample_defaults
      [(sample_sid, [''tsId'' \<mapsto> ''7'', ''TS_IP'' \<mapsto> ''h'', ''TS_PORT'' \<mapsto> ''p''])]) 7 \<noteq> None \<and>
   connects (TradingSytemsSettings (\<lambda>s. Some 7) sample_defaults
      [(sample_sid, [''tsId'' \<mapsto> ''7'', ''TS_IP'' \<mapsto> ''h'', ''TS_PORT'' \<mapsto> ''p''])]) 7 =
   Some (ConnectSettings sample_defaults ''h'' ''p'')"
proof -
  let ?T = "TradingSytemsSettings (\<lambda>s. Some 7) sample_defaults
      [(sample_sid, [''tsId'' \<mapsto> ''7'', ''TS_IP'' \<mapsto> ''h'', ''TS_PORT'' \<mapsto> ''p''])]"
  obtain s where s: "ts_map ?T 7 = Some s" "ts_connection s = ConnectSettings sample_defaults ''h'' ''p''"
    by (simp add: TradingSytemsSettings_def getDictionaryValue_def getDictionaryString_def Let_def insert_new_def)
  then show ?thesis using trading_systems_consistent [of "\<lambda>s. Some 7" sample_defaults _ 7 s] by simp
qed

end
