(* ===== verification/Fix_Requests.thy ===== *)
theory Fix_Requests
  imports Fix_Sessions
begin

text \<open>
  From a FIX message to the queue of its trading system: the routers
  (common/include/fix_tsI.h), the conversion of messages (protocol/include/msg_to_ts.h,
  buffer_cache.h), the request managers (appl/include/ts_request_manager.h) and the handlers of
  the application (appl/src/application.cpp).
\<close>

subsection \<open>Routers\<close>

text \<open>
  The object pool and the message queue (object_pool.h, queue_impl.h) are not part of the
  repository: their operations are the record \<open>router_ops\<close>. A buffer is \<open>None\<close> for the null
  pointer.
\<close>

record ('b, 'p, 'q) router_ops =
  pool_allocate :: "'p \<Rightarrow> bool \<times> 'b option \<times> 'p"
  pool_delocate :: "'b option \<Rightarrow> 'p \<Rightarrow> bool \<times> 'p"
  queue_tryPush :: "'b option \<Rightarrow> 'q \<Rightarrow> bool \<times> 'q"
  queue_push :: "'b option \<Rightarrow> 'q \<Rightarrow> 'q"
  queue_tryPop :: "'q \<Rightarrow> bool \<times> 'b option \<times> 'q"
  queue_pop :: "'q \<Rightarrow> 'b option \<times> 'q"

record ('p, 'q) router =
  r_id :: u32
  r_init_size :: nat
  r_mlp :: nat
  r_queue :: 'q
  r_pool :: 'p

definition router_allocate :: "('b, 'p, 'q) router_ops \<Rightarrow> ('p, 'q) router \<Rightarrow> bool \<times> 'b option \<times> ('p, 'q) router" where
  "router_allocate X r = (case pool_allocate X (r_pool r) of (ok, b, p) \<Rightarrow> (ok, b, r\<lparr>r_pool := p\<rparr>))"

definition router_delocate :: "('b, 'p, 'q) router_ops \<Rightarrow> 'b option \<Rightarrow> ('p, 'q) router \<Rightarrow> bool \<times> ('p, 'q) router" where
  "router_delocate X b r = (case pool_delocate X b (r_pool r) of (ok, p) \<Rightarrow> (ok, r\<lparr>r_pool := p\<rparr>))"

definition router_tryProduce :: "('b, 'p, 'q) router_ops \<Rightarrow> 'b option \<Rightarrow> ('p, 'q) router \<Rightarrow> bool \<times> ('p, 'q) router" where
  "router_tryProduce X b r = (case queue_tryPush X b (r_queue r) of (ok, q) \<Rightarrow> (ok, r\<lparr>r_queue := q\<rparr>))"

definition router_produce :: "('b, 'p, 'q) router_ops \<Rightarrow> 'b option \<Rightarrow> ('p, 'q) router \<Rightarrow> ('p, 'q) router" where
  "router_produce X b r = r\<lparr>r_queue := queue_push X b (r_queue r)\<rparr>"

definition router_tryConsume :: "('b, 'p, 'q) router_ops \<Rightarrow> ('p, 'q) router \<Rightarrow> bool \<times> 'b option \<times> ('p, 'q) router" where
  "router_tryConsume X r = (case queue_tryPop X (r_queue r) of (ok, b, q) \<Rightarrow> (ok, b, r\<lparr>r_queue := q\<rparr>))"

definition router_consume :: "('b, 'p, 'q) router_ops \<Rightarrow> ('p, 'q) router \<Rightarrow> 'b option \<times> ('p, 'q) router" where
  "router_consume X r = (case queue_pop X (r_queue r) of (b, q) \<Rightarrow> (b, r\<lparr>r_queue := q\<rparr>))"

type_synonym ('p, 'q) routers = "u32 \<Rightarrow> ('p, 'q) router option"

text \<open>\<open>FixTsRouters\<close>: one router per trading system; the operations answer whether it exists.\<close>

definition FixTsRouters :: "(u32 \<Rightarrow> ('p, 'q) router) \<Rightarrow> u32 set \<Rightarrow> ('p, 'q) routers" where
  "FixTsRouters mk ids = (\<lambda>i. if i \<in> ids then Some (mk i) else None)"

definition routers_allocate :: "('b, 'p, 'q) router_ops \<Rightarrow> u32 \<Rightarrow> ('p, 'q) routers \<Rightarrow> bool \<times> 'b option \<times> ('p, 'q) routers" where
  "routers_allocate X i R = (case R i of
     None \<Rightarrow> (False, None, R)
   | Some r \<Rightarrow> (case router_allocate X r of (ok, b, r') \<Rightarrow> (True, b, R(i \<mapsto> r'))))"

definition routers_delocate :: "('b, 'p, 'q) router_ops \<Rightarrow> u32 \<Rightarrow> 'b option \<Rightarrow> ('p, 'q) routers \<Rightarrow> bool \<times> ('p, 'q) routers" where
  "routers_delocate X i b R = (case R i of
     None \<Rightarrow> (False, R)
   | Some r \<Rightarrow> (case router_delocate X b r of (ok, r') \<Rightarrow> (True, R(i \<mapsto> r'))))"

definition routers_produce :: "('b, 'p, 'q) router_ops \<Rightarrow> u32 \<Rightarrow> 'b option \<Rightarrow> ('p, 'q) routers \<Rightarrow> bool \<times> ('p, 'q) routers" where
  "routers_produce X i b R = (case R i of
     None \<Rightarrow> (False, R) | Some r \<Rightarrow> (True, R(i \<mapsto> router_produce X b r)))"

definition routers_consume :: "('b, 'p, 'q) router_ops \<Rightarrow> u32 \<Rightarrow> ('p, 'q) routers \<Rightarrow> bool \<times> 'b option \<times> ('p, 'q) routers" where
  "routers_consume X i R = (case R i of
     None \<Rightarrow> (False, None, R)
   | Some r \<Rightarrow> (case router_consume X r of (b, r') \<Rightarrow> (True, b, R(i \<mapsto> r'))))"

subsection \<open>The fixed part of an order\<close>

text \<open>The constants of espdI.h that an order carries.\<close>

record order_codes =
  CFETP_ORDER :: u8
  CFETI_ORDERINFO_EXTENDED_PROPERTIES :: u32
  CFETC_SUBMIT_ORDER :: u32

text \<open>\<open>buff_cache::Order\<close> and \<open>buff_cache::SubmitOrder\<close>, as the fields they lay out in memory.\<close>

definition order_fields :: "order_codes \<Rightarrow> field list" where
  "order_fields C = [
     (CFETP_FIELD_MSGTYPE, CFETI_FIELDTYPE_BYTE, V8 (CFETP_ORDER C)),
     (CFETP_FIELD_REQUEST_ID, CFETI_FIELDTYPE_UINT32, V32 0),
     (CFETP_FIELD_STATUSTEXT, CFETI_FIELDTYPE_STRING, VStr []),
     (CFETP_FIELD_ORDER_INFO_TYPE, CFETI_FIELDTYPE_UINT32, V32 (CFETI_ORDERINFO_EXTENDED_PROPERTIES C))]"

definition submit_order_fields :: "order_codes \<Rightarrow> field list" where
  "submit_order_fields C = order_fields C @
     [(CFETP_FIELD_CMD, CFETI_FIELDTYPE_UINT32, V32 (CFETC_SUBMIT_ORDER C))]"

text \<open>\<open>SessionBuffer\<close>: the bytes cached for a session and the number of fields they hold.\<close>

record session_buffer =
  sb_bytes :: "u8 list"
  sb_fields :: u16

subsection \<open>FIX messages\<close>

text \<open>
  What the conversion reads of a message of QuickFIX: the sub-identifier of the sender in the
  header, and the fields of the order; \<open>get\<close> throws \<open>FieldNotFound\<close> when a field is not there.
  Prices and quantities are doubles, as their 64 bits. Strings are bytes.
\<close>

record fix_message =
  m_senderSubID :: "u8 list option"
  m_symbol :: "u8 list option"
  m_clOrdID :: "u8 list option"
  m_orderQty :: "u64 option"
  m_side :: "fix_side option"
  m_ordType_fld :: "fix_ordtype option"
  m_price :: "u64 option"
  m_origClOrdID :: "u8 list option"
  m_msgSeqNum :: string

definition fld_get :: "'a option \<Rightarrow> fix_error + 'a" where
  "fld_get x = (case x of None \<Rightarrow> Inl FieldNotFound | Some v \<Rightarrow> Inr v)"

lemma fld_get_Inr [simp]: "fld_get x = Inr v \<longleftrightarrow> x = Some v"
  by (cases x) (auto simp: fld_get_def)

definition bytes_of :: "string \<Rightarrow> u8 list" where
  "bytes_of s = map (\<lambda>c. word_of_nat (of_char c)) s"

subsection \<open>MsgToTs\<close>

text \<open>
  The converter keeps its session, the cached session bytes and the buffer it fills. A conversion
  is a computation over this state that may throw; what it did to the state before it threw
  stays (the session cache in particular; the bytes of a field cut short are not kept).
\<close>

record to_ts =
  tt_info :: session_info
  tt_cache :: "session_buffer option"
  tt_enc :: encoder

type_synonym 'a conv = "to_ts \<Rightarrow> (fix_error + 'a) \<times> to_ts"

definition cv_bind :: "'a conv \<Rightarrow> ('a \<Rightarrow> 'b conv) \<Rightarrow> 'b conv" where
  "cv_bind m f T = (case m T of (r, T1) \<Rightarrow> (case r of Inl e \<Rightarrow> (Inl e, T1) | Inr x \<Rightarrow> f x T1))"

definition cv_lift :: "fix_error + 'a \<Rightarrow> 'a conv" where
  "cv_lift r T = (r, T)"

definition cv_enc :: "(encoder \<Rightarrow> fix_error + encoder) \<Rightarrow> unit conv" where
  "cv_enc f T = (case f (tt_enc T) of Inl e \<Rightarrow> (Inl e, T) | Inr st \<Rightarrow> (Inr (), T\<lparr>tt_enc := st\<rparr>))"

text \<open>Consecutive calls of \<open>appendField\<close>.\<close>

definition cv_fields :: "espd \<Rightarrow> (fid \<times> fval) list \<Rightarrow> unit conv" where
  "cv_fields E fs = cv_enc (append_fields E fs)"

definition session_fields :: "logon_info \<Rightarrow> (fid \<times> fval) list" where
  "session_fields info = [(CFETP_FIELD_SESSIONID, VStr (bytes_of (sessId info))),
     (CFETP_FIELD_USERNAME, VStr (bytes_of (userName info)))]"

text \<open>
  The session part of an order: taken from the cache, or appended once and cached as the bytes
  between the two positions.
\<close>

definition append_session :: "espd \<Rightarrow> logon_info \<Rightarrow> unit conv" where
  "append_session E info T = (case tt_cache T of
     Some c \<Rightarrow> cv_enc (enc_append_buffer E (sb_bytes c) (sb_fields c)) T
   | None \<Rightarrow> cv_bind (cv_fields E (session_fields info)) (\<lambda>_ T1.
       let start = offset (tt_enc T); end_pos = offset (tt_enc T1) in
       (Inr (), T1\<lparr>tt_cache := Some \<lparr>sb_bytes = bytes_at (mem (tt_enc T1)) start (end_pos - start),
          sb_fields = field_count (tt_enc T1) - field_count (tt_enc T)\<rparr>\<rparr>)) T)"

definition append_source :: "espd \<Rightarrow> fix_message \<Rightarrow> unit conv" where
  "append_source E msg = cv_fields E (case m_senderSubID msg of
     None \<Rightarrow> [] | Some s \<Rightarrow> [(CFETP_FIELD_SOURCE_ID, VStr s)])"

definition append_order_fields :: "espd \<Rightarrow> codes \<Rightarrow> order_codes \<Rightarrow> logon_info \<Rightarrow> fix_message \<Rightarrow> unit conv" where
  "append_order_fields E K C info msg =
     cv_bind (cv_enc (enc_append_obj E (body_bytes E (submit_order_fields C)) (length (submit_order_fields C)))) (\<lambda>_.
     cv_bind (append_session E info) (\<lambda>_.
     cv_bind (append_source E msg) (\<lambda>_.
     cv_bind (cv_lift (fld_get (m_symbol msg))) (\<lambda>symbol.
     cv_bind (cv_fields E [(CFETP_FIELD_INSTNAME, VStr symbol), (CFETP_FIELD_TS_ID, V32 (tsId info)),
         (CFETP_FIELD_EXT_TS_SESSIONID, V32 (get_xsessId (tsId info) info))]) (\<lambda>_.
     cv_bind (cv_lift (fld_get (m_clOrdID msg))) (\<lambda>clOrdID.
     cv_bind (cv_fields E [(CFETP_FIELD_CLIENT_ORDER_ID, VStr clOrdID)]) (\<lambda>_.
     cv_bind (cv_lift (fld_get (m_orderQty msg))) (\<lambda>qty.
     cv_bind (cv_fields E [(CFETP_FIELD_SIZE, V64 qty)]) (\<lambda>_.
     cv_bind (cv_lift (fld_get (m_side msg))) (\<lambda>side.
     cv_bind (cv_fields E [(CFETP_FIELD_INDICATOR, V8 (getIndicator (espd_fix_map_new K) side))]) (\<lambda>_.
     cv_bind (cv_lift (fld_get (m_ordType_fld msg))) (\<lambda>ordType.
     cv_bind (cv_lift (if ordType = OrdType_MARKET \<and> m_price msg \<noteq> None
         then Inl (RejectError ''Market order cannot have price. '') else fld_get (m_price msg))) (\<lambda>price.
     cv_fields E [(CFETP_FIELD_PRICE, V64 price)])))))))))))))"

definition append_order_body :: "espd \<Rightarrow> codes \<Rightarrow> order_codes \<Rightarrow> fix_message \<Rightarrow> unit conv" where
  "append_order_body E K C msg T = (case si_logon (tt_info T) of
     None \<Rightarrow> (Inl (FIXError ''Invalid Logon info ''), T)
   | Some info \<Rightarrow> append_order_fields E K C info msg T)"

text \<open>The logon; \<open>gmt\<close> is \<open>getGmtDelta()\<close>, and \<open>appendFieldByKey\<close> reads the session's settings.\<close>

definition logon_fields :: "lexical \<Rightarrow> u32 \<Rightarrow> session_info \<Rightarrow> logon_info \<Rightarrow> (fid \<times> fval) list" where
  "logon_fields cast32 gmt si info =
     (let str = (\<lambda>key. VStr (bytes_of (si_getSettingsString key si)));
          num = (\<lambda>key. V32 (si_getSettingsValue cast32 key si))
      in [(CFETP_FIELD_SESSIONID, VStr (bytes_of (sessId info))),
          (CFETP_FIELD_TS_ID, V32 (tsId info)),
          (CFETP_FIELD_USERNAME, VStr (bytes_of (userName info))),
          (CFETP_FIELD_TS_PREF, V32 (tsPref info)),
          (CFETP_FIELD_PASSWORD, VStr (bytes_of (passWord info))),
          (CFETP_FIELD_GMT_DELTA, V32 gmt),
          (CFETP_FIELD_IDENT_COMPANY, str ''IDENT_COMPANY''),
          (CFETP_FIELD_IDENT_APPLICATION, str ''IDENT_APPLICATION''),
          (CFETP_FIELD_IDENT_VERSION, str ''IDENT_VERSION''),
          (CFETP_FIELD_COMPONENT_TYPE, num ''componentType''),
          (CFETP_FIELD_IDENT_USER_OS, str ''IDENT_USER_OS''),
          (CFETP_FIELD_IDENT_SDK_VERSION_ID, num ''sdk_version_id''),
          (CFETP_FIELD_GMT_DELTA, num ''gmt_delta''),
          (CFETP_FIELD_GMT_DELTA, V32 gmt)])"

definition append_logon :: "espd \<Rightarrow> lexical \<Rightarrow> u32 \<Rightarrow> unit conv" where
  "append_logon E cast32 gmt T = (case si_logon (tt_info T) of
     None \<Rightarrow> (Inl (FIXError ''Invalid Logon info ''), T)
   | Some info \<Rightarrow> cv_fields E (logon_fields cast32 gmt (tt_info T) info) T)"

definition append_replace :: "espd \<Rightarrow> codes \<Rightarrow> order_codes \<Rightarrow> fix_message \<Rightarrow> unit conv" where
  "append_replace E K C msg =
     cv_bind (append_order_body E K C msg) (\<lambda>_.
     cv_bind (cv_lift (fld_get (m_origClOrdID msg))) (\<lambda>orig.
     cv_fields E [(CFETP_FIELD_ORIG_CLIENT_ORDER_ID, VStr orig)]))"

datatype fix_kind = Logon | NewOrderSingle | OrderCancelReplaceRequest

text \<open>\<open>FixMsgTypeMap\<close>: the type of the message sent; the flag is a blank.\<close>

fun espd_type :: "fix_kind \<Rightarrow> msg_type" where
  "espd_type Logon = CFETP_CONNECT"
| "espd_type NewOrderSingle = CFETP_POST_MESSAGE"
| "espd_type OrderCancelReplaceRequest = CFETP_POST_MESSAGE"

definition espd_flag :: u16 where "espd_flag = 32"

fun append_msg :: "espd \<Rightarrow> codes \<Rightarrow> order_codes \<Rightarrow> lexical \<Rightarrow> u32 \<Rightarrow> fix_kind \<Rightarrow> fix_message \<Rightarrow> unit conv" where
  "append_msg E K C cast32 gmt Logon msg = append_logon E cast32 gmt"
| "append_msg E K C cast32 gmt NewOrderSingle msg = append_order_body E K C msg"
| "append_msg E K C cast32 gmt OrderCancelReplaceRequest msg = append_replace E K C msg"

subsection \<open>The request manager\<close>

text \<open>
  A buffer of the pool is its memory and its offset. What the conversion takes from outside
  the messages is the record \<open>world\<close>: the codes, the lexical casts and the time zone.
\<close>

record buffer =
  b_data :: "u8 list"
  b_offset :: nat

record world =
  w_espd :: espd
  w_codes :: codes
  w_order :: order_codes
  w_cast32 :: lexical
  w_gmt :: u32
  w_seqNum :: "string \<Rightarrow> fix_error + u32"

text \<open>\<open>convert\<close>: reset, skip the header, convert the body, insert the header.\<close>

definition convert_msg :: "world \<Rightarrow> fix_kind \<Rightarrow> fix_message \<Rightarrow> buffer \<Rightarrow> unit conv" where
  "convert_msg W kind msg b T =
     (case w_seqNum W (m_msgSeqNum msg) of
        Inl e \<Rightarrow> (Inl e, T\<lparr>tt_enc := encoder_reset (b_data b)\<rparr>)
      | Inr seqNum \<Rightarrow>
          cv_bind (append_msg (w_espd W) (w_codes W) (w_order W) (w_cast32 W) (w_gmt W) kind msg) (\<lambda>_.
            cv_enc (insert_hdr (w_espd W) seqNum (msg_code (w_espd W) (espd_type kind)) espd_flag))
          (T\<lparr>tt_enc := new_message (b_data b)\<rparr>))"

text \<open>
  \<open>manage\<close>, on the converter of the message's protocol and the routers. The answer is the
  exception, or whether a message was sent. An exception leaves the buffer allocated.
\<close>

definition sendEspdMsg :: "(buffer, 'p, 'q) router_ops \<Rightarrow> buffer option \<Rightarrow> u32 \<Rightarrow> ('p, 'q) routers \<Rightarrow> bool \<times> ('p, 'q) routers" where
  "sendEspdMsg X b i R = (if b = None then (False, R) else routers_produce X i b R)"

definition manage_request :: "world \<Rightarrow> (buffer, 'p, 'q) router_ops \<Rightarrow> fix_kind \<Rightarrow> fix_message \<Rightarrow>
    to_ts \<Rightarrow> ('p, 'q) routers \<Rightarrow> (fix_error + bool) \<times> to_ts \<times> ('p, 'q) routers" where
  "manage_request W X kind msg T R =
     (case si_logon (tt_info T) of
        None \<Rightarrow> (Inl (FIXError ''Cannot find logon info.''), T, R)
      | Some info \<Rightarrow> (case routers_allocate X (tsId info) R of
          (ok, b, R1) \<Rightarrow> (case b of
            None \<Rightarrow> (Inr False, T, R1)
          | Some m \<Rightarrow>
              if \<not> ok then (Inr False, T, R1)
              else (case convert_msg W kind msg m T of (r, T1) \<Rightarrow> (case r of
                  Inl e \<Rightarrow> (Inl e, T1, R1)
                | Inr _ \<Rightarrow> (case sendEspdMsg X (Some \<lparr>b_data = mem (tt_enc T1), b_offset = offset (tt_enc T1)\<rparr>)
                      (tsId info) R1 of (sent, R2) \<Rightarrow> (Inr sent, T1, R2)))))))"

text \<open>\<open>TSRequestsManager\<close>: one converter state per session of the settings.\<close>

definition TSRequestsManager :: "sessions_info \<Rightarrow> (session_id \<Rightarrow> to_ts option)" where
  "TSRequestsManager S = (\<lambda>sid. case sessions S sid of
     None \<Rightarrow> None
   | Some si \<Rightarrow> Some \<lparr>tt_info = si, tt_cache = None, tt_enc = encoder_reset []\<rparr>)"

definition getTSRequestManager :: "(session_id \<Rightarrow> to_ts option) \<Rightarrow> session_id \<Rightarrow> to_ts option" where
  "getTSRequestManager M sid = M sid"

end
