(* ===== verification/Fix_Requests_Props.thy ===== *)
theory Fix_Requests_Props
  imports Fix_Requests
begin

text \<open>
  What the conversion of requests achieves: a relational specification of the converter's
  computations (which fields they append, or which exception they raise), its composition
  rules, and the properties of the request manager.
\<close>

subsection \<open>Specification of conversions\<close>

text \<open>The encoder after the fields \<open>fs\<close>.\<close>

definition put_fields :: "espd \<Rightarrow> field list \<Rightarrow> encoder \<Rightarrow> encoder" where
  "put_fields E fs st = (put (body_bytes E fs) st)\<lparr>field_count := field_count st + word_of_nat (length fs)\<rparr>"

definition fits :: "espd \<Rightarrow> field list \<Rightarrow> encoder \<Rightarrow> bool" where
  "fits E fs st \<longleftrightarrow> offset st + length (body_bytes E fs) \<le> MAX_DATA_SIZE E"

lemma body_bytes_append [simp]: "body_bytes E (fs @ gs) = body_bytes E fs @ body_bytes E gs"
  by (simp add: body_bytes_def)

lemma put_fields_append:
  assumes "enc_ok E st" "fits E fs st"
  shows "put_fields E gs (put_fields E fs st) = put_fields E (fs @ gs) st"
  using assms by (simp add: put_fields_def put_def fits_def enc_ok_def algebra_simps)

lemma put_fields_Nil: "enc_ok E st \<Longrightarrow> put_fields E [] st = st"
  by (simp add: put_fields_def put_def body_bytes_def)

lemma put_fields_simps [simp]:
  "offset (put_fields E fs st) = offset st + length (body_bytes E fs)"
  "field_count (put_fields E fs st) = field_count st + word_of_nat (length fs)"
  by (simp_all add: put_fields_def put_def)

lemma put_fields_ok: "enc_ok E st \<Longrightarrow> fits E fs st \<Longrightarrow> enc_ok E (put_fields E fs st)"
  by (simp add: put_fields_def put_def fits_def enc_ok_def)

lemma fits_append: "fits E (fs @ gs) st \<longleftrightarrow> fits E fs st \<and> fits E gs (put_fields E fs st)"
  by (auto simp: fits_def)

lemma append_field_put:
  assumes "espd_ok E" "enc_ok E st"
  shows "append_field E i v st =
    (if fits E [typed (i, v)] st then Inr (put_fields E [typed (i, v)] st) else too_small)"
  using assms by (simp add: append_field_spec fits_def put_fields_def put_def body_bytes_def fld_bytes_def
      typed_def enc_ok_def ac_simps)

lemma append_fields_put:
  "espd_ok E \<Longrightarrow> enc_ok E st \<Longrightarrow> append_fields E fs st =
    (if fits E (map typed fs) st then Inr (put_fields E (map typed fs) st) else too_small)"
proof (induction fs arbitrary: st)
  case Nil
  then show ?case by (simp add: put_fields_Nil fits_def body_bytes_def enc_ok_def)
next
  case (Cons f fs)
  have e: "map typed (f # fs) = [typed f] @ map typed fs" by simp
  show ?case
  proof (cases "fits E [typed f] st")
    case True
    then have "append_field E (fst f) (snd f) st = Inr (put_fields E [typed f] st)"
      using append_field_put [OF Cons.prems, of "fst f" "snd f"] by simp
    moreover have "enc_ok E (put_fields E [typed f] st)" by (rule put_fields_ok [OF Cons.prems(2) True])
    ultimately show ?thesis
      unfolding e fits_append using Cons.IH [OF Cons.prems(1)] True put_fields_append [OF Cons.prems(2) True]
      by simp
  next
    case False
    then have "append_field E (fst f) (snd f) st = too_small"
      using append_field_put [OF Cons.prems, of "fst f" "snd f"] by simp
    then show ?thesis unfolding e fits_append using False by (simp add: too_small_def)
  qed
qed

text \<open>The state the conversions of a session run in: its cache holds the session's fields.\<close>

definition cache_ok :: "espd \<Rightarrow> session_info \<Rightarrow> session_buffer option \<Rightarrow> bool" where
  "cache_ok E si c \<longleftrightarrow> (\<forall>i b. si_logon si = Some i \<and> c = Some b \<longrightarrow>
     sb_bytes b = body_bytes E (map typed (session_fields i)) \<and> sb_fields b = 2)"

definition conv_ok :: "espd \<Rightarrow> session_info \<Rightarrow> to_ts \<Rightarrow> bool" where
  "conv_ok E si T \<longleftrightarrow> tt_info T = si \<and> enc_ok E (tt_enc T) \<and> cache_ok E si (tt_cache T)"

definition conv_runs :: "espd \<Rightarrow> session_info \<Rightarrow> 'a conv \<Rightarrow> field list \<Rightarrow> fix_error + 'a \<Rightarrow> bool" where
  "conv_runs E si m fs r \<longleftrightarrow> (\<forall>T. conv_ok E si T \<longrightarrow>
     (\<exists>T1. conv_ok E si T1 \<and>
       (if fits E fs (tt_enc T) then m T = (r, T1) \<and> tt_enc T1 = put_fields E fs (tt_enc T)
        else m T = (too_small, T1))))"

lemma conv_runs_lift: "conv_runs E si (cv_lift r) [] r"
  by (auto simp: conv_runs_def cv_lift_def conv_ok_def put_fields_Nil fits_def body_bytes_def enc_ok_def)

lemma conv_runs_fields:
  assumes "espd_ok E"
  shows "conv_runs E si (cv_fields E fs) (map typed fs) (Inr ())"
proof -
  have "\<exists>T1. conv_ok E si T1 \<and>
       (if fits E (map typed fs) (tt_enc T)
        then cv_fields E fs T = (Inr (), T1) \<and> tt_enc T1 = put_fields E (map typed fs) (tt_enc T)
        else cv_fields E fs T = (too_small, T1))" if T: "conv_ok E si T" for T
  proof (cases "fits E (map typed fs) (tt_enc T)")
    case True
    have "conv_ok E si (T\<lparr>tt_enc := put_fields E (map typed fs) (tt_enc T)\<rparr>)"
      using T put_fields_ok [OF _ True] by (simp add: conv_ok_def)
    then show ?thesis
      using True T append_fields_put [OF assms, of "tt_enc T" fs]
      by (intro exI [of _ "T\<lparr>tt_enc := put_fields E (map typed fs) (tt_enc T)\<rparr>"])
        (simp add: cv_fields_def cv_enc_def conv_ok_def)
  next
    case False
    then show ?thesis
      using T append_fields_put [OF assms, of "tt_enc T" fs]
      by (intro exI [of _ T]) (simp add: cv_fields_def cv_enc_def conv_ok_def too_small_def)
  qed
  then show ?thesis by (simp add: conv_runs_def)
qed

lemma conv_runs_bind:
  assumes m: "conv_runs E si m fs (Inr x)" and f: "conv_runs E si (f x) gs r"
  shows "conv_runs E si (cv_bind m f) (fs @ gs) r"
  unfolding conv_runs_def
proof (intro allI impI)
  fix T assume T: "conv_ok E si T"
  obtain T1 where T1: "conv_ok E si T1"
    "if fits E fs (tt_enc T) then m T = (Inr x, T1) \<and> tt_enc T1 = put_fields E fs (tt_enc T)
     else m T = (too_small, T1)"
    using m T unfolding conv_runs_def by blast
  show "\<exists>T1. conv_ok E si T1 \<and>
      (if fits E (fs @ gs) (tt_enc T) then cv_bind m f T = (r, T1) \<and> tt_enc T1 = put_fields E (fs @ gs) (tt_enc T)
       else cv_bind m f T = (too_small, T1))"
  proof (cases "fits E fs (tt_enc T)")
    case True
    obtain T2 where T2: "conv_ok E si T2"
      "if fits E gs (tt_enc T1) then f x T1 = (r, T2) \<and> tt_enc T2 = put_fields E gs (tt_enc T1)
       else f x T1 = (too_small, T2)"
      using f T1(1) unfolding conv_runs_def by blast
    have e: "tt_enc T1 = put_fields E fs (tt_enc T)" "m T = (Inr x, T1)" using T1(2) True by simp_all
    have "enc_ok E (tt_enc T)" using T by (simp add: conv_ok_def)
    from put_fields_append [OF this True] show ?thesis
      using T2 e True by (intro exI [of _ T2]) (auto simp: fits_append cv_bind_def split: if_splits)
  next
    case False
    then show ?thesis using T1 by (intro exI [of _ T1]) (simp add: fits_append cv_bind_def too_small_def)
  qed
qed

lemma conv_runs_throw:
  assumes m: "conv_runs E si m fs (Inl e)"
  shows "conv_runs E si (cv_bind m f) fs (Inl e)"
  unfolding conv_runs_def
proof (intro allI impI)
  fix T assume "conv_ok E si T"
  then obtain T1 where "conv_ok E si T1"
    "if fits E fs (tt_enc T) then m T = (Inl e, T1) \<and> tt_enc T1 = put_fields E fs (tt_enc T)
     else m T = (too_small, T1)"
    using m unfolding conv_runs_def by blast
  then show "\<exists>T1. conv_ok E si T1 \<and>
      (if fits E fs (tt_enc T) then cv_bind m f T = (Inl e, T1) \<and> tt_enc T1 = put_fields E fs (tt_enc T)
       else cv_bind m f T = (too_small, T1))"
    by (intro exI [of _ T1]) (simp add: cv_bind_def too_small_def)
qed


lemma conv_runs_exists_bind:
  assumes "conv_runs E si m fs r0" "\<And>x. \<exists>gs r. conv_runs E si (f x) gs r"
  shows "\<exists>gs r. conv_runs E si (cv_bind m f) gs r"
proof (cases r0)
  case (Inl e)
  then show ?thesis using conv_runs_throw assms(1) by blast
next
  case (Inr x)
  obtain gs r where gs: "conv_runs E si (f x) gs r" using assms(2) [of x] by blast
  have "conv_runs E si m fs (Inr x)" using assms(1) Inr by simp
  then have "conv_runs E si (cv_bind m f) (fs @ gs) r" using gs by (rule conv_runs_bind)
  then show ?thesis by blast
qed

subsection \<open>The parts of an order\<close>

lemma conv_runs_submit:
  assumes "espd_ok E"
  shows "conv_runs E si (cv_enc (enc_append_obj E (body_bytes E (submit_order_fields C)) (length (submit_order_fields C))))
    (submit_order_fields C) (Inr ())"
  unfolding conv_runs_def
proof (intro allI impI)
  fix T assume T: "conv_ok E si T"
  let ?fs = "submit_order_fields C"
  show "\<exists>T1. conv_ok E si T1 \<and> (if fits E ?fs (tt_enc T)
      then cv_enc (enc_append_obj E (body_bytes E ?fs) (length ?fs)) T = (Inr (), T1) \<and> tt_enc T1 = put_fields E ?fs (tt_enc T)
      else cv_enc (enc_append_obj E (body_bytes E ?fs) (length ?fs)) T = (too_small, T1))"
  proof (cases "fits E ?fs (tt_enc T)")
    case True
    have "conv_ok E si (T\<lparr>tt_enc := put_fields E ?fs (tt_enc T)\<rparr>)"
      using T put_fields_ok [OF _ True] by (simp add: conv_ok_def)
    then show ?thesis using True
      by (intro exI [of _ "T\<lparr>tt_enc := put_fields E ?fs (tt_enc T)\<rparr>"])
        (simp add: cv_enc_def enc_append_obj_def append_obj_def fits_def put_fields_def put_def)
  next
    case False
    then show ?thesis using T
      by (intro exI [of _ T]) (simp add: cv_enc_def enc_append_obj_def append_obj_def fits_def too_small_def)
  qed
qed

lemma conv_runs_session:
  assumes E: "espd_ok E" and i: "si_logon si = Some info"
  shows "conv_runs E si (append_session E info) (map typed (session_fields info)) (Inr ())"
  unfolding conv_runs_def
proof (intro allI impI)
  fix T assume T: "conv_ok E si T"
  let ?fs = "map typed (session_fields info)"
  have n: "length ?fs = 2" by (simp add: session_fields_def)
  have pos: "0 < length (body_bytes E ?fs)"
    using fld_bytes_pos [OF E] by (simp add: session_fields_def body_bytes_def FLD_HDR_def fld_bytes_def typed_def)
  show "\<exists>T1. conv_ok E si T1 \<and> (if fits E ?fs (tt_enc T)
      then append_session E info T = (Inr (), T1) \<and> tt_enc T1 = put_fields E ?fs (tt_enc T)
      else append_session E info T = (too_small, T1))"
  proof (cases "tt_cache T")
    case (Some c)
    then have c: "sb_bytes c = body_bytes E ?fs" "sb_fields c = 2"
      using T i by (simp_all add: conv_ok_def cache_ok_def)
    show ?thesis
    proof (cases "fits E ?fs (tt_enc T)")
      case True
      have "conv_ok E si (T\<lparr>tt_enc := put_fields E ?fs (tt_enc T)\<rparr>)"
        using T put_fields_ok [OF _ True] by (simp add: conv_ok_def)
      then show ?thesis using True Some c pos n
        by (intro exI [of _ "T\<lparr>tt_enc := put_fields E ?fs (tt_enc T)\<rparr>"])
          (simp add: append_session_def cv_enc_def enc_append_buffer_def append_bytes_def fits_def
            put_fields_def put_def)
    next
      case False
      then show ?thesis using T Some c pos
        by (intro exI [of _ T])
          (simp add: append_session_def cv_enc_def enc_append_buffer_def append_bytes_def fits_def too_small_def)
    qed
  next
    case None
    have ok: "enc_ok E (tt_enc T)" using T by (simp add: conv_ok_def)
    show ?thesis
    proof (cases "fits E ?fs (tt_enc T)")
      case True
      let ?st = "put_fields E ?fs (tt_enc T)"
      let ?c = "\<lparr>sb_bytes = body_bytes E ?fs, sb_fields = 2\<rparr>"
      have "bytes_at (mem ?st) (offset (tt_enc T)) (length (body_bytes E ?fs)) = body_bytes E ?fs"
        using ok by (simp add: put_fields_def put_def bytes_at_def enc_ok_def)
      then have "append_session E info T = (Inr (), T\<lparr>tt_enc := ?st, tt_cache := Some ?c\<rparr>)"
        using None append_fields_put [OF E ok] True n
        by (simp add: append_session_def cv_bind_def cv_fields_def cv_enc_def Let_def)
      moreover have "conv_ok E si (T\<lparr>tt_enc := ?st, tt_cache := Some ?c\<rparr>)"
        using T i put_fields_ok [OF ok True] by (simp add: conv_ok_def cache_ok_def)
      ultimately show ?thesis using True by (intro exI [of _ "T\<lparr>tt_enc := ?st, tt_cache := Some ?c\<rparr>"]) simp
    next
      case False
      then show ?thesis
        using T None append_fields_put [OF E ok]
        by (intro exI [of _ T]) (simp add: append_session_def cv_bind_def cv_fields_def cv_enc_def too_small_def)
    qed
  qed
qed

lemma conv_runs_cong:
  assumes "\<And>T. tt_info T = si \<Longrightarrow> m T = m' T"
  shows "conv_runs E si m fs r \<longleftrightarrow> conv_runs E si m' fs r"
proof -
  have "m T = m' T" if "conv_ok E si T" for T using assms that by (simp add: conv_ok_def)
  then show ?thesis unfolding conv_runs_def by simp
qed

lemma conv_runs_source:
  "espd_ok E \<Longrightarrow> conv_runs E si (append_source E msg)
     (map typed (case m_senderSubID msg of None \<Rightarrow> [] | Some s \<Rightarrow> [(CFETP_FIELD_SOURCE_ID, VStr s)])) (Inr ())"
  unfolding append_source_def by (rule conv_runs_fields)

text \<open>The fields of a complete order, and of each kind of request.\<close>

definition order_tail :: "codes \<Rightarrow> logon_info \<Rightarrow> fix_message \<Rightarrow> (fid \<times> fval) list" where
  "order_tail K info msg = session_fields info @
     (case m_senderSubID msg of None \<Rightarrow> [] | Some s \<Rightarrow> [(CFETP_FIELD_SOURCE_ID, VStr s)]) @
     [(CFETP_FIELD_INSTNAME, VStr (the (m_symbol msg))), (CFETP_FIELD_TS_ID, V32 (tsId info)),
      (CFETP_FIELD_EXT_TS_SESSIONID, V32 (get_xsessId (tsId info) info)),
      (CFETP_FIELD_CLIENT_ORDER_ID, VStr (the (m_clOrdID msg))),
      (CFETP_FIELD_SIZE, V64 (the (m_orderQty msg))),
      (CFETP_FIELD_INDICATOR, V8 (getIndicator (espd_fix_map_new K) (the (m_side msg)))),
      (CFETP_FIELD_PRICE, V64 (the (m_price msg)))]"

definition order_complete :: "fix_message \<Rightarrow> bool" where
  "order_complete msg \<longleftrightarrow> m_symbol msg \<noteq> None \<and> m_clOrdID msg \<noteq> None \<and> m_orderQty msg \<noteq> None \<and>
     m_side msg \<noteq> None \<and> m_price msg \<noteq> None \<and> m_ordType_fld msg \<noteq> None \<and>
     m_ordType_fld msg \<noteq> Some OrdType_MARKET"

lemma cv_bind_lift: "cv_bind (cv_lift (Inr x)) f = f x"
  by (simp add: fun_eq_iff cv_bind_def cv_lift_def)

lemma conv_runs_eq: "conv_runs E si m fs r \<Longrightarrow> fs = gs \<Longrightarrow> conv_runs E si m gs r"
  by simp

lemma conv_runs_order_fields:
  assumes E: "espd_ok E" and i: "si_logon si = Some info" and c: "order_complete msg"
  shows "conv_runs E si (append_order_fields E K C info msg)
    (submit_order_fields C @ map typed (order_tail K info msg)) (Inr ())"
proof -
  obtain sy cl q sd ot pr where m: "m_symbol msg = Some sy" "m_clOrdID msg = Some cl" "m_orderQty msg = Some q"
    "m_side msg = Some sd" "m_ordType_fld msg = Some ot" "m_price msg = Some pr" "ot \<noteq> OrdType_MARKET"
    using c by (auto simp: order_complete_def)
  have f: "append_order_fields E K C info msg =
     cv_bind (cv_enc (enc_append_obj E (body_bytes E (submit_order_fields C)) (length (submit_order_fields C)))) (\<lambda>_.
     cv_bind (append_session E info) (\<lambda>_. cv_bind (append_source E msg) (\<lambda>_.
     cv_bind (cv_fields E [(CFETP_FIELD_INSTNAME, VStr sy), (CFETP_FIELD_TS_ID, V32 (tsId info)),
         (CFETP_FIELD_EXT_TS_SESSIONID, V32 (get_xsessId (tsId info) info))]) (\<lambda>_.
     cv_bind (cv_fields E [(CFETP_FIELD_CLIENT_ORDER_ID, VStr cl)]) (\<lambda>_.
     cv_bind (cv_fields E [(CFETP_FIELD_SIZE, V64 q)]) (\<lambda>_.
     cv_bind (cv_fields E [(CFETP_FIELD_INDICATOR, V8 (getIndicator (espd_fix_map_new K) sd))]) (\<lambda>_.
     cv_fields E [(CFETP_FIELD_PRICE, V64 pr)])))))))"
    by (simp add: append_order_fields_def m fld_get_def cv_bind_lift)
  show ?thesis
    unfolding f
    by (rule conv_runs_eq,
      (rule conv_runs_bind conv_runs_submit [OF E] conv_runs_session [OF E i] conv_runs_source [OF E]
        conv_runs_fields [OF E])+, simp add: order_tail_def m)
qed


subsection \<open>Requests\<close>

fun request_fields :: "world \<Rightarrow> fix_kind \<Rightarrow> session_info \<Rightarrow> logon_info \<Rightarrow> fix_message \<Rightarrow> field list" where
  "request_fields W Logon si info msg = map typed (logon_fields (w_cast32 W) (w_gmt W) si info)"
| "request_fields W NewOrderSingle si info msg =
     submit_order_fields (w_order W) @ map typed (order_tail (w_codes W) info msg)"
| "request_fields W OrderCancelReplaceRequest si info msg =
     submit_order_fields (w_order W) @ map typed (order_tail (w_codes W) info msg) @
     [typed (CFETP_FIELD_ORIG_CLIENT_ORDER_ID, VStr (the (m_origClOrdID msg)))]"

fun request_complete :: "fix_kind \<Rightarrow> fix_message \<Rightarrow> bool" where
  "request_complete Logon msg = True"
| "request_complete NewOrderSingle msg = order_complete msg"
| "request_complete OrderCancelReplaceRequest msg = (order_complete msg \<and> m_origClOrdID msg \<noteq> None)"

abbreviation append_of :: "world \<Rightarrow> fix_kind \<Rightarrow> fix_message \<Rightarrow> unit conv" where
  "append_of W kind msg \<equiv> append_msg (w_espd W) (w_codes W) (w_order W) (w_cast32 W) (w_gmt W) kind msg"

lemma conv_runs_order_body:
  "si_logon si = Some info \<Longrightarrow> conv_runs E si (append_order_body E K C msg) fs r \<longleftrightarrow>
   conv_runs E si (append_order_fields E K C info msg) fs r"
  by (rule conv_runs_cong) (simp add: append_order_body_def)

lemma conv_runs_logon:
  assumes "espd_ok E" "si_logon si = Some info"
  shows "conv_runs E si (append_logon E c g) (map typed (logon_fields c g si info)) (Inr ())"
proof -
  have "conv_runs E si (append_logon E c g) fs r \<longleftrightarrow> conv_runs E si (cv_fields E (logon_fields c g si info)) fs r" for fs r
    by (rule conv_runs_cong) (simp add: append_logon_def assms)
  then show ?thesis using conv_runs_fields [OF assms(1)] by simp
qed

lemma conv_runs_request:
  assumes E: "espd_ok (w_espd W)" and i: "si_logon si = Some info" and c: "request_complete kind msg"
  shows "conv_runs (w_espd W) si (append_of W kind msg) (request_fields W kind si info msg) (Inr ())"
proof (cases kind)
  case Logon
  then show ?thesis using conv_runs_logon [OF E i] by simp
next
  case NewOrderSingle
  then show ?thesis using c conv_runs_order_fields [OF E i] conv_runs_order_body [OF i] by simp
next
  case OrderCancelReplaceRequest
  then obtain or where o: "order_complete msg" "m_origClOrdID msg = Some or" using c by auto
  have r: "append_of W kind msg = cv_bind (append_order_body (w_espd W) (w_codes W) (w_order W) msg)
      (\<lambda>_. cv_fields (w_espd W) [(CFETP_FIELD_ORIG_CLIENT_ORDER_ID, VStr or)])"
    by (simp add: OrderCancelReplaceRequest append_replace_def o(2) fld_get_def cv_bind_lift)
  have "conv_runs (w_espd W) si (append_order_body (w_espd W) (w_codes W) (w_order W) msg)
      (submit_order_fields (w_order W) @ map typed (order_tail (w_codes W) info msg)) (Inr ())"
    using conv_runs_order_fields [OF E i o(1)] conv_runs_order_body [OF i] by simp
  from conv_runs_bind [OF this conv_runs_fields [OF E]] show ?thesis
    unfolding r by (rule conv_runs_eq) (simp add: OrderCancelReplaceRequest o(2))
qed

text \<open>Every message has one outcome, whatever the cache holds.\<close>

lemma conv_runs_order_exists:
  assumes E: "espd_ok E" and i: "si_logon si = Some info"
  shows "\<exists>fs r. conv_runs E si (append_order_fields E K C info msg) fs r"
  unfolding append_order_fields_def
  by (rule conv_runs_exists_bind, rule conv_runs_submit [OF E],
    rule conv_runs_exists_bind, rule conv_runs_session [OF E i],
    rule conv_runs_exists_bind, rule conv_runs_source [OF E],
    (rule conv_runs_exists_bind, rule conv_runs_lift conv_runs_fields [OF E])+,
    rule exI, rule exI, rule conv_runs_fields [OF E])

lemma conv_runs_request_exists:
  assumes E: "espd_ok (w_espd W)" and i: "si_logon si = Some info"
  shows "\<exists>fs r. conv_runs (w_espd W) si (append_of W kind msg) fs r"
proof (cases kind)
  case Logon
  then show ?thesis using conv_runs_logon [OF E i] by (simp only: append_msg.simps) blast
next
  case NewOrderSingle
  then show ?thesis using conv_runs_order_exists [OF E i] by (simp add: conv_runs_order_body [OF i])
next
  case OrderCancelReplaceRequest
  obtain fs r where "conv_runs (w_espd W) si (append_order_body (w_espd W) (w_codes W) (w_order W) msg) fs r"
    using conv_runs_order_exists [OF E i] conv_runs_order_body [OF i] by blast
  then show ?thesis
    unfolding OrderCancelReplaceRequest append_msg.simps append_replace_def
  proof (rule conv_runs_exists_bind)
    show "\<exists>gs r. conv_runs (w_espd W) si (cv_bind (cv_lift (fld_get (m_origClOrdID msg)))
        (\<lambda>orig. cv_fields (w_espd W) [(CFETP_FIELD_ORIG_CLIENT_ORDER_ID, VStr orig)])) gs r" for x :: unit
      by (rule conv_runs_exists_bind, rule conv_runs_lift, rule exI, rule exI, rule conv_runs_fields [OF E])
  qed
qed

lemma conv_runs_throws_bind:
  assumes "conv_runs E si m fs r0" "\<And>x. \<exists>gs e. conv_runs E si (f x) gs (Inl e)"
  shows "\<exists>gs e. conv_runs E si (cv_bind m f) gs (Inl e)"
proof (cases r0)
  case (Inl e)
  then show ?thesis using conv_runs_throw assms(1) by blast
next
  case (Inr x)
  obtain gs e where gs: "conv_runs E si (f x) gs (Inl e)" using assms(2) [of x] by blast
  have "conv_runs E si m fs (Inr x)" using assms(1) Inr by simp
  then have "conv_runs E si (cv_bind m f) (fs @ gs) (Inl e)" using gs by (rule conv_runs_bind)
  then show ?thesis by blast
qed

lemma conv_runs_thrown: "\<exists>gs e'. conv_runs E si (cv_bind (cv_lift (Inl e)) f) gs (Inl e')"
  using conv_runs_throw [OF conv_runs_lift] by blast

lemma conv_runs_market:
  assumes E: "espd_ok E" and i: "si_logon si = Some info" and m: "m_ordType_fld msg = Some OrdType_MARKET"
  shows "\<exists>fs e. conv_runs E si (append_order_fields E K C info msg) fs (Inl e)"
proof -
  obtain e where e: "(if OrdType_MARKET = OrdType_MARKET \<and> m_price msg \<noteq> None
      then Inl (RejectError ''Market order cannot have price. '') else fld_get (m_price msg)) = (Inl e :: fix_error + u64)"
    by (cases "m_price msg") (auto simp: fld_get_def)
  have "fld_get (m_ordType_fld msg) = Inr OrdType_MARKET" by (simp add: m fld_get_def)
  then show ?thesis
    unfolding append_order_fields_def
    by (simp only: cv_bind_lift e)
      (rule conv_runs_throws_bind, rule conv_runs_submit [OF E],
      rule conv_runs_throws_bind, rule conv_runs_session [OF E i],
      rule conv_runs_throws_bind, rule conv_runs_source [OF E],
      (rule conv_runs_thrown | (rule conv_runs_throws_bind, rule conv_runs_lift conv_runs_fields [OF E]))+)
qed


subsection \<open>The request manager\<close>

lemma new_message_fits:
  "fits E fs (new_message m) \<longleftrightarrow> HDR + length (body_bytes E fs) \<le> MAX_DATA_SIZE E"
  by (simp add: fits_def new_message_def)

lemma insert_hdr_put_fields:
  assumes E: "espd_ok E" and m: "length m = MAX_DATA_SIZE E" "HDR \<le> MAX_DATA_SIZE E"
    and f: "fits E fs (new_message m)"
  shows "\<exists>st. insert_hdr E n t fl (put_fields E fs (new_message m)) = Inr st \<and>
    offset st = HDR + length (body_bytes E fs) \<and> length (mem st) = MAX_DATA_SIZE E \<and>
    mem st = header_bytes E (msg_header_new n t fl (word_of_nat (length fs)) (word_of_nat (length (body_bytes E fs))))
      @ body_bytes E fs @ drop (HDR + length (body_bytes E fs)) m"
proof -
  have ok: "enc_ok E (put_fields E fs (new_message m))"
    by (rule put_fields_ok [OF new_message_ok [OF m] f])
  have off: "HDR \<le> offset (put_fields E fs (new_message m))" by (simp add: new_message_def)
  have f': "HDR + length (body_bytes E fs) \<le> MAX_DATA_SIZE E" using f by (simp add: new_message_fits)
  have d: "drop HDR (mem (put_fields E fs (new_message m))) = body_bytes E fs @ drop (HDR + length (body_bytes E fs)) m"
    using m f' by (simp add: put_fields_def put_def new_message_def encoder_reset_def)
  have c: "field_count (put_fields E fs (new_message m)) = word_of_nat (length fs)"
    "offset (put_fields E fs (new_message m)) = HDR + length (body_bytes E fs)"
    by (simp_all add: new_message_def encoder_reset_def)
  show ?thesis
    unfolding insert_hdr_spec [OF E ok off] d c using m f' length_header_bytes [OF E] by (simp add: c new_message_def)
qed

lemma convert_runs:
  assumes E: "espd_ok (w_espd W)" and m: "length (b_data b) = MAX_DATA_SIZE (w_espd W)" "HDR \<le> MAX_DATA_SIZE (w_espd W)"
    and T: "tt_info T = si" "cache_ok (w_espd W) si (tt_cache T)"
    and r: "conv_runs (w_espd W) si (append_of W kind msg) fs r" and n: "w_seqNum W (m_msgSeqNum msg) = Inr n"
  shows "\<exists>T1. tt_info T1 = si \<and> cache_ok (w_espd W) si (tt_cache T1) \<and>
    (if fits (w_espd W) fs (new_message (b_data b))
     then (case r of Inl e \<Rightarrow> convert_msg W kind msg b T = (Inl e, T1)
       | Inr _ \<Rightarrow> convert_msg W kind msg b T = (Inr (), T1) \<and>
           insert_hdr (w_espd W) n (msg_code (w_espd W) (espd_type kind)) espd_flag
             (put_fields (w_espd W) fs (new_message (b_data b))) = Inr (tt_enc T1))
     else convert_msg W kind msg b T = (too_small, T1))"
proof -
  let ?E = "w_espd W" and ?T = "T\<lparr>tt_enc := new_message (b_data b)\<rparr>"
  have "conv_ok ?E si ?T" using T new_message_ok [OF m] by (simp add: conv_ok_def)
  then obtain T1 where T1: "conv_ok ?E si T1"
    "if fits ?E fs (new_message (b_data b)) then append_of W kind msg ?T = (r, T1) \<and>
       tt_enc T1 = put_fields ?E fs (new_message (b_data b))
     else append_of W kind msg ?T = (too_small, T1)"
    using r unfolding conv_runs_def by fastforce
  show ?thesis
  proof (cases "fits ?E fs (new_message (b_data b))")
    case False
    then show ?thesis using T1 n
      by (intro exI [of _ T1]) (simp add: convert_msg_def cv_bind_def conv_ok_def too_small_def)
  next
    case True
    show ?thesis
    proof (cases r)
      case (Inl e)
      then show ?thesis using True T1 n
        by (intro exI [of _ T1]) (simp add: convert_msg_def cv_bind_def conv_ok_def)
    next
      case (Inr u)
      obtain st where "insert_hdr ?E n (msg_code ?E (espd_type kind)) espd_flag
          (put_fields ?E fs (new_message (b_data b))) = Inr st"
        using insert_hdr_put_fields [OF E m True] by blast
      then show ?thesis using True T1 n Inr
        by (intro exI [of _ "T1\<lparr>tt_enc := st\<rparr>"]) (simp add: convert_msg_def cv_bind_def conv_ok_def cv_enc_def)
    qed
  qed
qed

lemma manage_converts:
  assumes "si_logon (tt_info T) = Some info" "R (tsId info) = Some r"
    "pool_allocate X (r_pool r) = (ok, Some b, p)" "convert_msg W kind msg b T = (res, T1)"
  shows "manage_request W X kind msg T R = (case res of
      Inl e \<Rightarrow> (Inl e, T1, R(tsId info \<mapsto> r\<lparr>r_pool := p\<rparr>))
    | Inr _ \<Rightarrow> (Inr True, T1, R(tsId info \<mapsto> r\<lparr>r_pool := p,
        r_queue := queue_push X (Some \<lparr>b_data = mem (tt_enc T1), b_offset = offset (tt_enc T1)\<rparr>) (r_queue r)\<rparr>)))"
  using assms
  by (cases res) (simp_all add: manage_request_def routers_allocate_def router_allocate_def sendEspdMsg_def
      routers_produce_def router_produce_def)


lemma length_body_bytes: "espd_ok E \<Longrightarrow> length fs \<le> length (body_bytes E fs)"
proof (induction fs)
  case (Cons f fs)
  have "1 \<le> length (fld_bytes E f)" using fld_bytes_pos [OF Cons.prems, of f] by (simp add: FLD_HDR_def)
  then show ?case using Cons by (simp add: body_bytes_def)
qed (simp add: body_bytes_def)

text \<open>What a receiver reads in a message with the fields \<open>fs\<close>.\<close>

definition field_typed :: "field \<Rightarrow> bool" where
  "field_typed f \<longleftrightarrow> (\<forall>t. id_type (fst f) = Some t \<longrightarrow> fst (snd f) = t)"

lemma find_data_at:
  assumes E: "espd_ok E" and fs: "list_all fld_wf fs"
    and b: "buf p = hdr @ body_bytes E fs @ r" "length hdr = HDR" and s: "flds p = starts E HDR fs"
    and t: "\<And>f. f \<in> set fs \<Longrightarrow> fst f = i \<Longrightarrow> fst (snd f) = t"
  shows "findFieldData E t i p =
    (case find (\<lambda>f. fst f = i) fs of Some f \<Rightarrow> snd (snd f) | None \<Rightarrow> default_val (native_type t))"
proof -
  have d: "drop HDR (buf p) = body_bytes E fs @ r" using b by simp
  show ?thesis
  proof (cases "find (\<lambda>q. fld_id_at E (buf p) q = field_code E i) (starts E HDR fs)")
    case None
    then show ?thesis using find_missing [OF E d None] by (simp add: findFieldData_def s)
  next
    case (Some q)
    obtain f r' where f: "find (\<lambda>f. fst f = i) fs = Some f" "drop q (buf p) = fld_bytes E f @ r'"
      using find_in_message [OF E d Some] by blast
    have "f \<in> set fs" "fst f = i" using f(1) by (auto simp: find_Some_iff)
    then have w: "fld_wf f" "fst (snd f) = t" using fs t by (auto simp: list_all_iff)
    then have "get_data E t (buf p) q = snd (snd f)"
      using get_data_field [OF E f(2)] by (simp add: fld_wf_def)
    then show ?thesis using f(1) Some by (simp add: findFieldData_def s)
  qed
qed

lemma find_data:
  assumes E: "espd_ok E" and fs: "list_all fld_wf fs" "list_all field_typed fs"
    and b: "buf p = hdr @ body_bytes E fs @ r" "length hdr = HDR" and s: "flds p = starts E HDR fs"
    and t: "id_type i = Some t"
  shows "findFieldData E t i p =
    (case find (\<lambda>f. fst f = i) fs of Some f \<Rightarrow> snd (snd f) | None \<Rightarrow> default_val (native_type t))"
  using fs(2) t by (intro find_data_at [OF E fs(1) b s]) (auto simp: list_all_iff field_typed_def)

lemma typed_field_typed: "list_all field_typed (map typed fs)"
  by (simp add: list_all_iff field_typed_def typed_def)

lemma request_fields_typed: "list_all field_typed (request_fields W kind si info msg)"
  using typed_field_typed [of "order_tail (w_codes W) info msg"] typed_field_typed
  by (cases kind) (auto simp: submit_order_fields_def order_fields_def field_typed_def typed_def)

subsection \<open>Properties\<close>

text \<open>
  Property C9: A complete request of any kind (logon, limit order, replacement) whose fields
  fit the buffer is converted into the buffer the pool handed out, with the header last, and
  pushed to the queue of the session's trading system and no other. Parsing that buffer finds
  the message type of the request, the number of its fields, and for every identifier the value
  the FIX message and the session gave it.
\<close>

theorem request_on_the_wire:
  assumes E: "espd_ok (w_espd W)" "HDR \<le> MAX_DATA_SIZE (w_espd W)"
    and T: "si_logon (tt_info T) = Some info" "cache_ok (w_espd W) (tt_info T) (tt_cache T)"
    and msg: "request_complete kind msg" "w_seqNum W (m_msgSeqNum msg) = Inr n"
    and fs: "fs = request_fields W kind (tt_info T) info msg" "list_all fld_wf fs"
    and fit: "HDR + length (body_bytes (w_espd W) fs) \<le> MAX_DATA_SIZE (w_espd W)"
    and R: "R (tsId info) = Some r" "pool_allocate X (r_pool r) = (ok, Some b, p)"
    and b: "length (b_data b) = MAX_DATA_SIZE (w_espd W)"
  shows "\<exists>T1 out. manage_request W X kind msg T R =
      (Inr True, T1, R(tsId info \<mapsto> r\<lparr>r_pool := p, r_queue := queue_push X (Some out) (r_queue r)\<rparr>)) \<and>
    b_offset out = HDR + length (body_bytes (w_espd W) fs) \<and>
    (let rcv = parseBuffer (w_espd W) (parser_reset (w_espd W) (b_data out) start) in
      msgType rcv = msg_code (w_espd W) (espd_type kind) \<and> unat (p_numFields rcv) = length fs \<and>
      (\<forall>i t. id_type i = Some t \<longrightarrow> findFieldData (w_espd W) t i rcv =
        (case find (\<lambda>f. fst f = i) fs of Some f \<Rightarrow> snd (snd f) | None \<Rightarrow> default_val (native_type t))))"
proof -
  let ?E = "w_espd W"
  have f: "fits ?E fs (new_message (b_data b))" using fit by (simp add: new_message_fits)
  obtain T1 where T1: "convert_msg W kind msg b T = (Inr (), T1)"
    "insert_hdr ?E n (msg_code ?E (espd_type kind)) espd_flag (put_fields ?E fs (new_message (b_data b))) = Inr (tt_enc T1)"
    using convert_runs [OF E(1) b E(2) refl T(2) conv_runs_request [OF E(1) T(1) msg(1)] msg(2)] f fs(1) by auto
  let ?h = "msg_header_new n (msg_code ?E (espd_type kind)) espd_flag (word_of_nat (length fs)) (word_of_nat (length (body_bytes ?E fs)))"
  have o: "offset (tt_enc T1) = HDR + length (body_bytes ?E fs)"
    "mem (tt_enc T1) = header_bytes ?E ?h @ body_bytes ?E fs @ drop (HDR + length (body_bytes ?E fs)) (b_data b)"
    using insert_hdr_put_fields [OF E(1) b E(2) f, of n "msg_code ?E (espd_type kind)" espd_flag] T1(2) by auto
  have l: "length (body_bytes ?E fs) < 2 ^ 16" using fit espd_okD(10) [OF E(1)] by simp
  have ne: "fs \<noteq> []"
    by (cases kind) (simp_all add: fs(1) submit_order_fields_def order_fields_def logon_fields_def)
  have h: "bodyLength ?h = word_of_nat (length (body_bytes ?E fs))" by (simp add: msg_header_new_def)
  note parsed = parse_encoded [OF E(1) ne fs(2) o(2) h l, of start]
  have n: "length fs < 2 ^ 16"
    using l length_body_bytes [OF E(1), of fs] by simp
  have ty: "list_all field_typed fs" by (simp add: fs(1) request_fields_typed)
  have find: "findFieldData ?E t i (parseBuffer ?E (parser_reset ?E (mem (tt_enc T1)) start)) =
      (case find (\<lambda>f. fst f = i) fs of Some f \<Rightarrow> snd (snd f) | None \<Rightarrow> default_val (native_type t))"
    if "id_type i = Some t" for i t
    by (rule find_data [OF E(1) fs(2) ty _ length_header_bytes [OF E(1)] parsed(1) that])
      (simp add: parsed(2), rule o(2))
  show ?thesis
    unfolding manage_converts [where R = R, OF T(1) R T1(1)]
    using o(1) parsed find n by (auto simp: Let_def msg_header_new_def unat_of_nat_small)
qed

definition sample_world :: world where
  "sample_world = \<lparr>w_espd = big_endian, w_codes = sample_codes,
     w_order = \<lparr>CFETP_ORDER = 1, CFETI_ORDERINFO_EXTENDED_PROPERTIES = 2, CFETC_SUBMIT_ORDER = 3\<rparr>,
     w_cast32 = (\<lambda>_. None), w_gmt = 0, w_seqNum = (\<lambda>_. Inr 5)\<rparr>"

definition sample_ops :: "(buffer, nat, buffer option list) router_ops" where
  "sample_ops = \<lparr>pool_allocate = (\<lambda>p. if p = 0 then (False, None, p) else (True, Some \<lparr>b_data = replicate 1024 0, b_offset = 0\<rparr>, p - 1)),
     pool_delocate = (\<lambda>b p. (True, p + 1)),
     queue_tryPush = (\<lambda>b q. (True, q @ [b])), queue_push = (\<lambda>b q. q @ [b]),
     queue_tryPop = (\<lambda>q. case q of [] \<Rightarrow> (False, None, q) | b # q' \<Rightarrow> (True, b, q')),
     queue_pop = (\<lambda>q. case q of [] \<Rightarrow> (None, q) | b # q' \<Rightarrow> (b, q'))\<rparr>"

definition sample_routers :: "(nat, buffer option list) routers" where
  "sample_routers = FixTsRouters (\<lambda>i. \<lparr>r_id = i, r_init_size = 1024, r_mlp = 4, r_queue = [], r_pool = 2\<rparr>) {7}"

definition sample_converter :: to_ts where
  "sample_converter = \<lparr>tt_info = \<lparr>si_id = sample_sid, si_dict = Map.empty, si_logon = Some sample_logon\<rparr>,
     tt_cache = None, tt_enc = encoder_reset []\<rparr>"

definition sample_order :: fix_message where
  "sample_order = \<lparr>m_senderSubID = None, m_symbol = Some [66], m_clOrdID = Some [49], m_orderQty = Some 10,
     m_side = Some Side_BUY, m_ordType_fld = Some OrdType_LIMIT, m_price = Some 1000,
     m_origClOrdID = None, m_msgSeqNum = ''5''\<rparr>"

lemma sample_request:
  "espd_ok (w_espd sample_world)" "HDR \<le> MAX_DATA_SIZE (w_espd sample_world)"
  "si_logon (tt_info sample_converter) = Some sample_logon"
  "cache_ok (w_espd sample_world) (tt_info sample_converter) (tt_cache sample_converter)"
  "sample_routers (tsId sample_logon) = Some \<lparr>r_id = 7, r_init_size = 1024, r_mlp = 4, r_queue = [], r_pool = 2\<rparr>"
  "pool_allocate sample_ops (r_pool \<lparr>r_id = 7, r_init_size = 1024, r_mlp = 4, r_queue = [], r_pool = 2\<rparr>) =
     (True, Some \<lparr>b_data = replicate 1024 0, b_offset = 0\<rparr>, 1)"
  "length (b_data \<lparr>b_data = replicate 1024 0, b_offset = 0\<rparr>) = MAX_DATA_SIZE (w_espd sample_world)"
  "w_seqNum sample_world s = Inr 5" "request_complete NewOrderSingle sample_order"
  using big_endian_ok
  by (simp_all add: sample_world_def big_endian_def HDR_def sample_converter_def cache_ok_def sample_routers_def
      FixTsRouters_def sample_logon_def sample_ops_def sample_order_def order_complete_def)

theorem request_on_the_wire_witness:
  "\<exists>T1 out. manage_request sample_world sample_ops NewOrderSingle sample_order sample_converter sample_routers =
      (Inr True, T1, sample_routers(7 \<mapsto> \<lparr>r_id = 7, r_init_size = 1024, r_mlp = 4, r_queue = [Some out], r_pool = 1\<rparr>)) \<and>
    findFieldData big_endian CFETI_FIELDTYPE_DECIMAL CFETP_FIELD_PRICE (parseBuffer big_endian
      (parser_reset big_endian (b_data out) \<lparr>buf = [], pos = 0, bodySize = 0, p_numFields = 0, msgType = 0,
         currentNumFields = 0, flds = []\<rparr>)) = V64 1000"
proof -
  let ?fs = "request_fields sample_world NewOrderSingle (tt_info sample_converter) sample_logon sample_order"
  have wf: "list_all fld_wf ?fs"
    by (simp add: fld_wf_def typed_def submit_order_fields_def order_fields_def order_tail_def session_fields_def
        sample_order_def sample_logon_def bytes_of_def)
  have len: "HDR + length (body_bytes (w_espd sample_world) ?fs) \<le> MAX_DATA_SIZE (w_espd sample_world)"
    using espd_okD [OF sample_request(1)]
    by (simp add: body_bytes_def fld_bytes_def fld_hdr_bytes_def typed_def submit_order_fields_def order_fields_def
        order_tail_def session_fields_def sample_order_def sample_logon_def bytes_of_def sample_world_def big_endian_def HDR_def)
  have e: "w_espd sample_world = big_endian" "tsId sample_logon = 7"
    "queue_push sample_ops b [] = [b]" for b
    by (simp_all add: sample_world_def sample_logon_def sample_ops_def)
  let ?p0 = "\<lparr>buf = [], pos = 0, bodySize = 0, p_numFields = 0, msgType = 0, currentNumFields = 0, flds = []\<rparr>"
  obtain T1 out where m: "manage_request sample_world sample_ops NewOrderSingle sample_order sample_converter sample_routers =
      (Inr True, T1, sample_routers(7 \<mapsto> \<lparr>r_id = 7, r_init_size = 1024, r_mlp = 4, r_queue = [Some out], r_pool = 1\<rparr>))"
    "\<forall>i t. id_type i = Some t \<longrightarrow> findFieldData big_endian t i (parseBuffer big_endian (parser_reset big_endian (b_data out) ?p0)) =
        (case find (\<lambda>f. fst f = i) ?fs of Some f \<Rightarrow> snd (snd f) | None \<Rightarrow> default_val (native_type t))"
    using request_on_the_wire [where R = sample_routers and start = ?p0, OF sample_request(1-4,9,8) refl wf len sample_request(5-7)]
    unfolding e(1,2) by (auto simp: e(3) Let_def simp del: request_fields.simps)
  have "findFieldData big_endian CFETI_FIELDTYPE_DECIMAL CFETP_FIELD_PRICE
      (parseBuffer big_endian (parser_reset big_endian (b_data out) ?p0)) = V64 1000"
    using spec [OF spec [OF m(2), of CFETP_FIELD_PRICE], of CFETI_FIELDTYPE_DECIMAL]
    by (simp add: sample_order_def order_tail_def session_fields_def submit_order_fields_def order_fields_def typed_def)
  then show ?thesis using m(1) by blast
qed

text \<open>
  Property C11: The session cache is transparent: whether the session part of an order is copied
  from the cache or appended anew, the same exception is raised or the same buffer is sent.
\<close>

theorem session_cache_transparent:
  assumes E: "espd_ok (w_espd W)" "HDR \<le> MAX_DATA_SIZE (w_espd W)"
    and T: "si_logon (tt_info T) = Some info" "cache_ok (w_espd W) (tt_info T) (tt_cache T)"
    and n: "w_seqNum W (m_msgSeqNum msg) = Inr n"
    and R: "R (tsId info) = Some r" "pool_allocate X (r_pool r) = (ok, Some b, p)"
    and b: "length (b_data b) = MAX_DATA_SIZE (w_espd W)"
  shows "\<exists>T1 T2 res R1. manage_request W X kind msg T R = (res, T1, R1) \<and>
    manage_request W X kind msg (T\<lparr>tt_cache := None\<rparr>) R = (res, T2, R1) \<and>
    cache_ok (w_espd W) (tt_info T) (tt_cache T1)"
proof -
  let ?E = "w_espd W" and ?T = "T\<lparr>tt_cache := None\<rparr>"
  obtain fs res where run: "conv_runs ?E (tt_info T) (append_of W kind msg) fs res"
    using conv_runs_request_exists [OF E(1) T(1)] by blast
  have T': "tt_info ?T = tt_info T" "cache_ok ?E (tt_info T) (tt_cache ?T)" "si_logon (tt_info ?T) = Some info"
    using T(1) by (simp_all add: cache_ok_def)
  obtain T1 where T1: "cache_ok ?E (tt_info T) (tt_cache T1)"
    "if fits ?E fs (new_message (b_data b))
     then (case res of Inl e \<Rightarrow> convert_msg W kind msg b T = (Inl e, T1)
       | Inr _ \<Rightarrow> convert_msg W kind msg b T = (Inr (), T1) \<and>
           insert_hdr ?E n (msg_code ?E (espd_type kind)) espd_flag (put_fields ?E fs (new_message (b_data b))) = Inr (tt_enc T1))
     else convert_msg W kind msg b T = (too_small, T1)"
    using convert_runs [OF E(1) b E(2) refl T(2) run n] by blast
  obtain T2 where T2:
    "if fits ?E fs (new_message (b_data b))
     then (case res of Inl e \<Rightarrow> convert_msg W kind msg b ?T = (Inl e, T2)
       | Inr _ \<Rightarrow> convert_msg W kind msg b ?T = (Inr (), T2) \<and>
           insert_hdr ?E n (msg_code ?E (espd_type kind)) espd_flag (put_fields ?E fs (new_message (b_data b))) = Inr (tt_enc T2))
     else convert_msg W kind msg b ?T = (too_small, T2)"
    using convert_runs [OF E(1) b E(2) T'(1,2) run n] by blast
  obtain res' where c: "convert_msg W kind msg b T = (res', T1)" "convert_msg W kind msg b ?T = (res', T2)"
    "\<forall>u. res' = Inr u \<longrightarrow> tt_enc T1 = tt_enc T2"
    using T1(2) T2 by (cases res) (auto simp: too_small_def split: if_splits)
  have "manage_request W X kind msg T R = (case res' of Inl e \<Rightarrow> (Inl e, T1, R(tsId info \<mapsto> r\<lparr>r_pool := p\<rparr>))
    | Inr _ \<Rightarrow> (Inr True, T1, R(tsId info \<mapsto> r\<lparr>r_pool := p,
        r_queue := queue_push X (Some \<lparr>b_data = mem (tt_enc T1), b_offset = offset (tt_enc T1)\<rparr>) (r_queue r)\<rparr>)))"
    by (rule manage_converts [where R = R, OF T(1) R c(1)])
  moreover have "manage_request W X kind msg ?T R = (case res' of Inl e \<Rightarrow> (Inl e, T2, R(tsId info \<mapsto> r\<lparr>r_pool := p\<rparr>))
    | Inr _ \<Rightarrow> (Inr True, T2, R(tsId info \<mapsto> r\<lparr>r_pool := p,
        r_queue := queue_push X (Some \<lparr>b_data = mem (tt_enc T2), b_offset = offset (tt_enc T2)\<rparr>) (r_queue r)\<rparr>)))"
    by (rule manage_converts [where R = R, OF T'(3) R c(2)])
  ultimately show ?thesis using T1(1) c(3) by (cases res') auto
qed

theorem session_cache_transparent_witness:
  "\<exists>T1 T2 res R1. manage_request sample_world sample_ops OrderCancelReplaceRequest sample_order sample_converter sample_routers = (res, T1, R1) \<and>
    manage_request sample_world sample_ops OrderCancelReplaceRequest sample_order (sample_converter\<lparr>tt_cache := None\<rparr>) sample_routers = (res, T2, R1)"
  using session_cache_transparent [where R = sample_routers and msg = sample_order and kind = OrderCancelReplaceRequest,
      OF sample_request(1-4,8,5-7)] by blast

text \<open>
  A market order is never sent, with a price or without: the conversion ends in an
  exception, the queues stay as they were, and the buffer taken from the pool is not returned.
\<close>

theorem market_orders_never_sent:
  assumes E: "espd_ok (w_espd W)" "HDR \<le> MAX_DATA_SIZE (w_espd W)"
    and T: "si_logon (tt_info T) = Some info" "cache_ok (w_espd W) (tt_info T) (tt_cache T)"
    and k: "kind \<noteq> Logon" "m_ordType_fld msg = Some OrdType_MARKET"
    and R: "R (tsId info) = Some r" "pool_allocate X (r_pool r) = (ok, Some b, p)"
    and b: "length (b_data b) = MAX_DATA_SIZE (w_espd W)"
  shows "\<exists>e T1. manage_request W X kind msg T R = (Inl e, T1, R(tsId info \<mapsto> r\<lparr>r_pool := p\<rparr>))"
proof -
  let ?E = "w_espd W"
  obtain fs e where body: "conv_runs ?E (tt_info T) (append_order_body ?E (w_codes W) (w_order W) msg) fs (Inl e)"
    using conv_runs_market [OF E(1) T(1) k(2)] conv_runs_order_body [OF T(1)] by blast
  then have run: "conv_runs ?E (tt_info T) (append_of W kind msg) fs (Inl e)"
    using k(1) conv_runs_throw [OF body] by (cases kind) (simp_all add: append_replace_def)
  obtain e' T1 where "convert_msg W kind msg b T = (Inl e', T1)"
  proof (cases "w_seqNum W (m_msgSeqNum msg)")
    case (Inl e')
    then show thesis using that by (simp add: convert_msg_def)
  next
    case (Inr n)
    have "\<exists>T1. if fits ?E fs (new_message (b_data b)) then convert_msg W kind msg b T = (Inl e, T1)
        else convert_msg W kind msg b T = (too_small, T1)"
      using convert_runs [OF E(1) b E(2) refl T(2) run Inr]
      by (cases "fits ?E fs (new_message (b_data b))") auto
    then show thesis using that by (auto simp: too_small_def split: if_splits)
  qed
  from manage_converts [where R = R, OF T(1) R this] show ?thesis by simp
qed

theorem market_orders_never_sent_witness:
  "\<exists>e T1. manage_request sample_world sample_ops NewOrderSingle (sample_order\<lparr>m_ordType_fld := Some OrdType_MARKET\<rparr>)
     sample_converter sample_routers =
     (Inl e, T1, sample_routers(7 \<mapsto> \<lparr>r_id = 7, r_init_size = 1024, r_mlp = 4, r_queue = [], r_pool = 1\<rparr>))"
  using market_orders_never_sent [where R = sample_routers and kind = NewOrderSingle
      and msg = "sample_order\<lparr>m_ordType_fld := Some OrdType_MARKET\<rparr>",
      OF sample_request(1-4) _ _ sample_request(5-7)]
  by (simp add: sample_logon_def)

end
