(* ===== verification/Fix_Responses.thy ===== *)
theory Fix_Responses
  imports Fix_Requests_Props
begin

text \<open>
  From the trading system to FIX: the cached field actions (protocol/include/msg_buffer_map.h),
  the notifications (ts_notify_manager.h), the conversion of messages (msg_from_ts.h) and the
  response managers (appl/include/ts_response_manager.h, appl/src/ts_response_manager.cpp).
\<close>

subsection \<open>Execution reports\<close>

text \<open>
  The FIX message under construction: the values of the fields set so far. Doubles are their 64
  bits; \<open>Tag_MsgType\<close> is the field of the header.
\<close>

datatype report_tag =
    Tag_MsgType | Tag_ExecType | Tag_ExecTransType | Tag_OrdStatus | Tag_LastShares | Tag_CumQty
  | Tag_AvgPx | Tag_LastPx | Tag_OrigClOrdID | Tag_Symbol | Tag_Price | Tag_OrderQty | Tag_Side
  | Tag_OrderID | Tag_LeavesQty | Tag_ExecID

datatype report_value = RBytes "u8 list" | RDouble u64 | RSide fix_side | RChar char | RText string

type_synonym report = "report_tag \<Rightarrow> report_value option"

text \<open>\<open>FixMsgWr\<close>; \<open>setMsg\<close> replaces the message and keeps the two identifiers.\<close>

record msg_wr =
  wr_msg :: report
  wr_extSesId :: u32
  wr_tsId :: u32

definition FixMsgWr :: msg_wr where
  "FixMsgWr = \<lparr>wr_msg = Map.empty, wr_extSesId = 0, wr_tsId = 0\<rparr>"

definition setField :: "report_tag \<Rightarrow> report_value \<Rightarrow> msg_wr \<Rightarrow> msg_wr" where
  "setField t v w = w\<lparr>wr_msg := (wr_msg w)(t \<mapsto> v)\<rparr>"

definition get_sessionID :: "sessions_info \<Rightarrow> msg_wr \<Rightarrow> session_id" where
  "get_sessionID S w = getSessionId (wr_extSesId w, wr_tsId w) S"

subsection \<open>Actions\<close>

text \<open>
  \<open>FixAction\<close>: the function \<open>dummyAction\<close> or one of the \<open>Act<id, FT>::make\<close>. \<open>to_str\<close> is the
  lexical cast of a number to a string.
\<close>

datatype fix_action = DummyAction | Act fid

fun str_of :: "fval \<Rightarrow> u8 list" where "str_of (VStr s) = s" | "str_of _ = []"
fun u32_of :: "fval \<Rightarrow> u32" where "u32_of (V32 x) = x" | "u32_of _ = 0"
fun u64_of :: "fval \<Rightarrow> u64" where "u64_of (V64 x) = x" | "u64_of _ = 0"
fun u8_of :: "fval \<Rightarrow> u8" where "u8_of (V8 x) = x" | "u8_of _ = 0"

fun act_make :: "espd \<Rightarrow> codes \<Rightarrow> (u32 \<Rightarrow> u8 list) \<Rightarrow> fix_action \<Rightarrow> u8 list \<Rightarrow> nat \<Rightarrow> msg_wr \<Rightarrow> msg_wr" where
  "act_make E K to_str (Act CFETP_FIELD_TS_ID) m p w =
     w\<lparr>wr_tsId := u32_of (get_data E (the (id_type CFETP_FIELD_TS_ID)) m p)\<rparr>"
| "act_make E K to_str (Act CFETP_FIELD_EXT_TS_SESSIONID) m p w =
     w\<lparr>wr_extSesId := u32_of (get_data E (the (id_type CFETP_FIELD_EXT_TS_SESSIONID)) m p)\<rparr>"
| "act_make E K to_str (Act CFETP_FIELD_CLIENT_ORDER_ID) m p w =
     setField Tag_OrigClOrdID (RBytes (str_of (get_data E CFETI_FIELDTYPE_STRING m p))) w"
| "act_make E K to_str (Act CFETP_FIELD_ORIG_CLIENT_ORDER_ID) m p w =
     setField Tag_OrigClOrdID (RBytes (str_of (get_data E CFETI_FIELDTYPE_STRING m p))) w"
| "act_make E K to_str (Act CFETP_FIELD_INSTNAME) m p w =
     setField Tag_Symbol (RBytes (str_of (get_data E CFETI_FIELDTYPE_STRING m p))) w"
| "act_make E K to_str (Act CFETP_FIELD_PRICE) m p w =
     setField Tag_Price (RDouble (u64_of (get_data E CFETI_FIELDTYPE_DECIMAL m p))) w"
| "act_make E K to_str (Act CFETP_FIELD_SIZE) m p w =
     setField Tag_OrderQty (RDouble (u64_of (get_data E CFETI_FIELDTYPE_DECIMAL m p))) w"
| "act_make E K to_str (Act CFETP_FIELD_INDICATOR) m p w =
     setField Tag_Side (RSide (getSide (espd_fix_map_new K) (u8_of (get_data E CFETI_FIELDTYPE_BYTE m p)))) w"
| "act_make E K to_str (Act CFETP_FIELD_ID) m p w =
     setField Tag_OrderID (RBytes (to_str (u32_of (get_data E CFETI_FIELDTYPE_UINT32 m p)))) w"
| "act_make E K to_str _ m p w = w"

text \<open>
  \<open>FieldActionMap\<close>: for every position in a message the identifier last seen there, as it is
  on the wire and as a number, and the action chosen for it. Iterators are positions in the
  field list and in the list of actions, which both run through the message together. The list
  of actions has room for 100 and is not reallocated while a message has at most 100 fields; with
  more, \<open>push_back\<close> invalidates the iterator that is answered, and the functions here do not
  describe what the program does.
\<close>

type_synonym action_entry = "u8 list \<times> u16 \<times> fix_action option"

definition getFieldAct :: "espd \<Rightarrow> u8 list \<Rightarrow> nat list \<Rightarrow> nat \<Rightarrow> action_entry list \<Rightarrow> action_entry list" where
  "getFieldAct E m fs k acts =
     (if length fs \<le> k then acts
      else let p = fs ! k; ubig_id = bytes_at m p 2; uid = fld_id_at E m p in
        if k = length acts then acts @ [(ubig_id, uid, None)]
        else if fst (acts ! k) \<noteq> ubig_id then acts[k := (ubig_id, uid, None)]
        else acts)"

definition setAction :: "nat \<Rightarrow> fix_action \<Rightarrow> action_entry list \<Rightarrow> action_entry list" where
  "setAction k act acts = acts[k := (fst (acts ! k), fst (snd (acts ! k)), Some act)]"

subsection \<open>MsgBufferMap\<close>

text \<open>
  The fields of a buffer by offset and by identifier: a bimap with a set of offsets on the left
  and, on the right, identifiers that may repeat, kept in the order of insertion. A position is
  the distance from the start of the buffer, \<open>None\<close> for the null pointer.
\<close>

record buffer_map =
  mb_buffer :: "u8 list option"
  mb_map :: "(nat \<times> u16) list"

definition MsgBufferMap :: buffer_map where
  "MsgBufferMap = \<lparr>mb_buffer = None, mb_map = []\<rparr>"

definition mb_reset :: "u8 list option \<Rightarrow> buffer_map \<Rightarrow> buffer_map" where
  "mb_reset m M = \<lparr>mb_buffer = m, mb_map = []\<rparr>"

definition mb_insert :: "espd \<Rightarrow> int option \<Rightarrow> buffer_map \<Rightarrow> bool \<times> buffer_map" where
  "mb_insert E p M = (case (mb_buffer M, p) of
     (Some m, Some off) \<Rightarrow>
       (if off \<le> 0 then (False, M)
        else if nat off \<in> fst ` set (mb_map M) then (False, M)
        else (True, M\<lparr>mb_map := mb_map M @ [(nat off, fld_id_at E m (nat off))]\<rparr>))
   | _ \<Rightarrow> (False, M))"

definition mb_findFldStart :: "espd \<Rightarrow> fid \<Rightarrow> buffer_map \<Rightarrow> nat option" where
  "mb_findFldStart E i M = map_option fst (find (\<lambda>(off, uid). uid = field_code E i) (mb_map M))"

definition mb_findFldValue :: "espd \<Rightarrow> fid \<Rightarrow> ftype \<Rightarrow> buffer_map \<Rightarrow> fval option" where
  "mb_findFldValue E i t M = map_option (\<lambda>p. get_data E t (the (mb_buffer M)) p) (mb_findFldStart E i M)"

definition mb_findFld :: "espd \<Rightarrow> fid \<Rightarrow> buffer_map \<Rightarrow> nat option" where
  "mb_findFld E i M = map_option (\<lambda>p. p + FLD_HDR) (mb_findFldStart E i M)"

subsection \<open>TSNotifyManager\<close>

datatype notify_cmd =
    ORDER_QUEUED | ORDER_REJECTED | ORDER_EXECUTED | ORDER_CANCELLED | TRADE_CONFIRM
  | CANCEL_ORDER_ACCEPTED | CANCEL_ORDER_REJECTED

text \<open>What the conversion takes from outside the repository.\<close>

record 'g notify_world =
  n_espd :: espd
  n_codes :: codes
  n_cmd :: "notify_cmd \<Rightarrow> u32"
  n_to_str :: "u32 \<Rightarrow> u8 list"
  n_fromString :: "u8 list \<Rightarrow> session_id"
  n_next :: "'g \<Rightarrow> u8 list \<times> 'g"

definition action_ids :: "fid list" where
  "action_ids = [CFETP_FIELD_CLIENT_ORDER_ID, CFETP_FIELD_EXT_TS_SESSIONID, CFETP_FIELD_TS_ID,
     CFETP_FIELD_ORIG_CLIENT_ORDER_ID, CFETP_FIELD_INSTNAME, CFETP_FIELD_PRICE, CFETP_FIELD_SIZE,
     CFETP_FIELD_INDICATOR, CFETP_FIELD_ID]"

fun getFixAction :: "espd \<Rightarrow> notify_cmd \<Rightarrow> u16 \<Rightarrow> fix_action" where
  "getFixAction E ORDER_QUEUED uid = (case find (\<lambda>i. field_code E i = uid) action_ids of
     Some i \<Rightarrow> Act i | None \<Rightarrow> DummyAction)"
| "getFixAction E _ uid = DummyAction"

fun init_msg :: "notify_cmd \<Rightarrow> report" where
  "init_msg ORDER_QUEUED = [Tag_MsgType \<mapsto> RText ''8'', Tag_ExecType \<mapsto> RText ''0'',
     Tag_ExecTransType \<mapsto> RText ''0'', Tag_OrdStatus \<mapsto> RText ''0'', Tag_LastShares \<mapsto> RDouble 0,
     Tag_CumQty \<mapsto> RDouble 0, Tag_AvgPx \<mapsto> RDouble 0, Tag_LastPx \<mapsto> RDouble 0]"
| "init_msg _ = Map.empty"

text \<open>\<open>manageActions\<close>: from position \<open>k\<close> on; the list of actions is updated as it goes.\<close>

function manageActions :: "'g notify_world \<Rightarrow> notify_cmd \<Rightarrow> u8 list \<Rightarrow> nat list \<Rightarrow> nat \<Rightarrow>
    action_entry list \<times> msg_wr \<Rightarrow> action_entry list \<times> msg_wr" where
  "manageActions N cmd m fs k (acts, w) =
     (if length fs \<le> k then (acts, w)
      else let acts1 = getFieldAct (n_espd N) m fs k acts in
        (case snd (snd (acts1 ! k)) of
           Some act \<Rightarrow> manageActions N cmd m fs (k + 1)
             (acts1, act_make (n_espd N) (n_codes N) (n_to_str N) act m (fs ! k) w)
         | None \<Rightarrow>
             let act = getFixAction (n_espd N) cmd (fst (snd (acts1 ! k))) in
             manageActions N cmd m fs (k + 1)
               (setAction k act acts1, act_make (n_espd N) (n_codes N) (n_to_str N) act m (fs ! k) w)))"
  by pat_completeness auto
termination by (relation "measure (\<lambda>(N, cmd, m, fs, k, s). length fs - k)") auto

declare manageActions.simps [simp del]

record notify_manager =
  nm_actions :: "notify_cmd \<Rightarrow> action_entry list"
  nm_msg :: msg_wr

definition TSNotifyManager :: notify_manager where
  "TSNotifyManager = \<lparr>nm_actions = (\<lambda>_. []), nm_msg = FixMsgWr\<rparr>"

text \<open>The last step of each command: the quantity left of a queued order is its quantity.\<close>

fun finish_report :: "notify_cmd \<Rightarrow> report \<Rightarrow> fix_error + report" where
  "finish_report ORDER_QUEUED r = (case r Tag_OrderQty of
     None \<Rightarrow> Inl FieldNotFound | Some q \<Rightarrow> Inr (r(Tag_LeavesQty \<mapsto> q)))"
| "finish_report _ r = Inr r"

definition notify_cmd_msg :: "'g notify_world \<Rightarrow> sessions_info \<Rightarrow> notify_cmd \<Rightarrow> parser \<Rightarrow> notify_manager \<Rightarrow>
    (fix_error + session_id) \<times> notify_manager" where
  "notify_cmd_msg N S cmd p M =
     (case manageActions N cmd (buf p) (flds p) 0 (nm_actions M cmd, (nm_msg M)\<lparr>wr_msg := init_msg cmd\<rparr>) of
        (acts, w) \<Rightarrow>
          (let M1 = \<lparr>nm_actions = (nm_actions M)(cmd := acts), nm_msg = w\<rparr> in
           case finish_report cmd (wr_msg w) of
             Inl e \<Rightarrow> (Inl e, M1)
           | Inr r \<Rightarrow> (Inr (get_sessionID S w), M1\<lparr>nm_msg := w\<lparr>wr_msg := r\<rparr>\<rparr>)))"

text \<open>\<open>manageEspdMsg(cmd, fixMsg)\<close>: \<open>None\<close> when the message is ignored.\<close>

definition notify_manage :: "'g notify_world \<Rightarrow> sessions_info \<Rightarrow> u32 \<Rightarrow> parser \<Rightarrow> notify_manager \<Rightarrow>
    (fix_error + session_id option) \<times> notify_manager" where
  "notify_manage N S cmd p M =
     (if cmd = n_cmd N ORDER_QUEUED
      then (case notify_cmd_msg N S ORDER_QUEUED p M of (r, M1) \<Rightarrow> (map_sum id Some r, M1))
      else if cmd = n_cmd N ORDER_REJECTED
      then (case notify_cmd_msg N S ORDER_REJECTED p M of (r, M1) \<Rightarrow> (map_sum id Some r, M1))
      else (Inr None, M))"

subsection \<open>MsgFromTs\<close>

record 'g from_ts =
  ft_parser :: parser
  ft_notify :: notify_manager
  ft_gens :: "session_id \<Rightarrow> 'g option"

definition MsgFromTs :: "espd \<Rightarrow> 'g \<Rightarrow> sessions_info \<Rightarrow> 'g from_ts" where
  "MsgFromTs E g S = \<lparr>ft_parser = \<lparr>buf = [], pos = 0, bodySize = 0, p_numFields = 0,
       msgType = msg_code E CFETP_UNDEFINED, currentNumFields = 0, flds = []\<rparr>,
     ft_notify = TSNotifyManager,
     ft_gens = (\<lambda>sid. if sessions S sid = None then None else Some g)\<rparr>"

definition from_ts_notify :: "'g notify_world \<Rightarrow> sessions_info \<Rightarrow> 'g from_ts \<Rightarrow>
    (fix_error + (report \<times> session_id) option) \<times> 'g from_ts" where
  "from_ts_notify N S F =
     (let cmd = u32_of (findFieldData (n_espd N) CFETI_FIELDTYPE_UINT32 CFETP_FIELD_CMD (ft_parser F)) in
      case notify_manage N S cmd (ft_parser F) (ft_notify F) of
        (r, M) \<Rightarrow> (case r of
          Inl e \<Rightarrow> (Inl e, F\<lparr>ft_notify := M\<rparr>)
        | Inr None \<Rightarrow> (Inr None, F\<lparr>ft_notify := M\<rparr>)
        | Inr (Some sid) \<Rightarrow> (case ft_gens F sid of
            None \<Rightarrow> (Inl (ESPDMsgError '' Cannot generate ExecID. Message ignored. ''), F\<lparr>ft_notify := M\<rparr>)
          | Some g \<Rightarrow> (case n_next N g of (s, g1) \<Rightarrow>
              (let w = setField Tag_ExecID (RBytes s) (nm_msg M) in
               (Inr (Some (wr_msg w, sid)),
                F\<lparr>ft_notify := M\<lparr>nm_msg := w\<rparr>, ft_gens := (ft_gens F)(sid \<mapsto> g1)\<rparr>))))))"

text \<open>The reply to a connect: a second pass over the fields with \<open>firstFld\<close> and \<open>nextFld\<close>.\<close>

record connect_data =
  cd_sessionID :: "u8 list"
  cd_xsessId :: u32
  cd_tsId :: u32

definition connect_field :: "espd \<Rightarrow> u8 list \<Rightarrow> nat \<Rightarrow> connect_data \<Rightarrow> connect_data" where
  "connect_field E m p d =
     (let uid = fld_id_at E m p in
      if uid = field_code E CFETP_FIELD_SESSIONID
        then d\<lparr>cd_sessionID := str_of (get_data E (the (id_type CFETP_FIELD_SESSIONID)) m p)\<rparr>
      else if uid = field_code E CFETP_FIELD_EXT_TS_SESSIONID
        then d\<lparr>cd_xsessId := u32_of (get_data E (the (id_type CFETP_FIELD_EXT_TS_SESSIONID)) m p)\<rparr>
      else if uid = field_code E CFETP_FIELD_TS_ID
        then d\<lparr>cd_tsId := u32_of (get_data E (the (id_type CFETP_FIELD_TS_ID)) m p)\<rparr>
      else d)"

function connect_loop :: "espd \<Rightarrow> parser \<Rightarrow> connect_data \<Rightarrow> connect_data \<times> parser" where
  "connect_loop E st d = (case nextFld E st of
     (Some p, st') \<Rightarrow> connect_loop E st' (connect_field E (buf st') p d)
   | (None, st') \<Rightarrow> (d, st'))"
  by pat_completeness auto
termination
  by (relation "measure (\<lambda>(E, st, d). bodySize st + HDR - pos st)")
    (auto dest!: nextFld_progress [OF sym])

declare connect_loop.simps [simp del]

definition connect_scan :: "espd \<Rightarrow> parser \<Rightarrow> connect_data \<times> parser" where
  "connect_scan E st = (case firstFld st of (p, st1) \<Rightarrow>
     connect_loop E st1 (connect_field E (buf st1) p \<lparr>cd_sessionID = [], cd_xsessId = 0, cd_tsId = 0\<rparr>))"

definition from_ts_connect_reply :: "'g notify_world \<Rightarrow> sessions_info \<Rightarrow> 'g from_ts \<Rightarrow>
    (fix_error + unit) \<times> 'g from_ts \<times> sessions_info" where
  "from_ts_connect_reply N S F =
     (case connect_scan (n_espd N) (ft_parser F) of (d, p) \<Rightarrow>
        let F1 = F\<lparr>ft_parser := p\<rparr> in
        if cd_sessionID d = [] then (Inl (FIXError '' Cannot set SessionID. The message is ignored. ''), F1, S)
        else if cd_xsessId d = 0 then (Inl (FIXError '' Cannot set xsessId. The message is ignored. ''), F1, S)
        else if cd_tsId d = 0 then (Inl (FIXError '' Cannot set tsId. The message is ignored. ''), F1, S)
        else (case set_sessId (n_fromString N (cd_sessionID d)) (cd_xsessId d) (cd_tsId d) S of
          (status, S1) \<Rightarrow>
            if status then (Inr (), F1, S1) else (Inl (FIXError '' Cannot set session ID ''), F1, S1)))"

text \<open>\<open>convert\<close>: the switch on the message type; the types not implemented are logged.\<close>

definition from_ts_convert :: "'g notify_world \<Rightarrow> sessions_info \<Rightarrow> 'g from_ts \<Rightarrow>
    (fix_error + (report \<times> session_id) option) \<times> 'g from_ts \<times> sessions_info" where
  "from_ts_convert N S F =
     (let ty = msgType (ft_parser F); code = msg_code (n_espd N) in
      if ty = code CFETP_NOTIFY
        then (case from_ts_notify N S F of (r, F1) \<Rightarrow> (r, F1, S))
      else if ty = code CFETP_CONNECT_REPLY
        then (case from_ts_connect_reply N S F of (r, F1, S1) \<Rightarrow> (map_sum id (\<lambda>_. None) r, F1, S1))
      else (Inr None, F, S))"

subsection \<open>TSResponseManager\<close>

datatype converter_id = FIX_4_2_ST | FIX_4_4_ST | UST_ID_ST | ELX_ID_ST | FXO_ID_ST | ANY_TS_ST | UNKNOWN_CONVERTER_ST_ID

text \<open>
  \<open>MsgConverterFactory\<close>: the converters by source and target, made on first use; indices outside
  the table throw.
\<close>

definition getMsgConverter :: "'c \<Rightarrow> converter_id \<Rightarrow> converter_id \<Rightarrow> (converter_id \<times> converter_id \<Rightarrow> 'c option) \<Rightarrow>
    ('c \<times> (converter_id \<times> converter_id \<Rightarrow> 'c option)) option" where
  "getMsgConverter new src target M =
     (if src = UNKNOWN_CONVERTER_ST_ID \<or> target = UNKNOWN_CONVERTER_ST_ID then None
      else case M (src, target) of
        Some c \<Rightarrow> Some (c, M) | None \<Rightarrow> Some (new, M((src, target) \<mapsto> new)))"

text \<open>
  The converter for the source and the protocol of the session; the converters to FIX 4.2 and
  4.4 add nothing to what the common one did.
\<close>

definition target_converter :: "converter_id \<Rightarrow> string \<Rightarrow> (converter_id \<times> converter_id) option" where
  "target_converter src protocol =
     (if src = UST_ID_ST \<or> src = ELX_ID_ST
      then if protocol = ''FIX.4.2'' then Some (src, FIX_4_2_ST)
        else if protocol = ''FIX.4.4'' then Some (src, FIX_4_4_ST) else None
      else None)"

text \<open>
  \<open>init\<close>: the identifier of the router must name a trading system with a converter;
  \<open>tsId2CoverterType\<close> and the invalid identifier are not part of the repository.
\<close>

definition TSResponseManager_init :: "u32 \<Rightarrow> (u32 \<Rightarrow> converter_id) \<Rightarrow> ('p, 'q) router \<Rightarrow> fix_error + converter_id" where
  "TSResponseManager_init invalid tsId2CoverterType r =
     (if r_id r = invalid then Inl (ESPDError ''Invalid trading system id.'')
      else if tsId2CoverterType (r_id r) = UNKNOWN_CONVERTER_ST_ID then Inl (ESPDError ''Invalid converter source id.'')
      else Inr (tsId2CoverterType (r_id r)))"

text \<open>\<open>manageEspdMsg(buff, fixMsg)\<close>: parse and convert.\<close>

definition response_convert :: "'g notify_world \<Rightarrow> sessions_info \<Rightarrow> buffer \<Rightarrow> 'g from_ts \<Rightarrow>
    (fix_error + (report \<times> session_id) option) \<times> 'g from_ts \<times> sessions_info" where
  "response_convert N S b F =
     from_ts_convert N S (F\<lparr>ft_parser := parseBuffer (n_espd N) (parser_reset (n_espd N) (b_data b) (ft_parser F))\<rparr>)"

text \<open>
  \<open>manageEspdMsg()\<close>: one message from the queue. The answer is the message handed to FIX, if
  any; an exception is reported and ends the handling before the buffer is given back.
\<close>

definition response_manage :: "'g notify_world \<Rightarrow> (buffer, 'p, 'q) router_ops \<Rightarrow> ('p, 'q) router \<Rightarrow>
    sessions_info \<Rightarrow> 'g from_ts \<Rightarrow>
    (report \<times> session_id) option \<times> ('p, 'q) router \<times> sessions_info \<times> 'g from_ts" where
  "response_manage N X r S F =
     (case router_consume X r of (b, r1) \<Rightarrow>
        (case b of
           None \<Rightarrow> (None, r1, S, F)
         | Some m \<Rightarrow> (case response_convert N S m F of (res, F1, S1) \<Rightarrow>
             (case res of
                Inl e \<Rightarrow> (None, r1, S1, F1)
              | Inr fixMsg \<Rightarrow> (case router_delocate X b r1 of (ok, r2) \<Rightarrow>
                  (case fixMsg of
                     Some (msg, sid) \<Rightarrow> (if sid = INVALID_SESSION_ID then None else Some (msg, sid), r2, S1, F1)
                   | None \<Rightarrow> (None, r2, S1, F1)))))))"

end
