(* ===== verification/Fix_Responses_Props.thy ===== *)
theory Fix_Responses_Props
  imports Fix_Responses
begin

text \<open>
  What the conversion of responses achieves: the cache of actions is transparent, a queued order
  becomes the execution report its fields describe, a rejected one goes to whatever session came
  before, and a reply to a connect registers the session.
\<close>

subsection \<open>The cache of actions\<close>

definition actions_ok :: "espd \<Rightarrow> notify_cmd \<Rightarrow> action_entry list \<Rightarrow> bool" where
  "actions_ok E cmd acts \<longleftrightarrow> (\<forall>raw uid a. (raw, uid, a) \<in> set acts \<longrightarrow>
     uid = dec16 E raw \<and> (\<forall>act. a = Some act \<longrightarrow> act = getFixAction E cmd uid))"

abbreviation do_field :: "'g notify_world \<Rightarrow> notify_cmd \<Rightarrow> u8 list \<Rightarrow> nat \<Rightarrow> msg_wr \<Rightarrow> msg_wr" where
  "do_field N cmd m p \<equiv> act_make (n_espd N) (n_codes N) (n_to_str N)
     (getFixAction (n_espd N) cmd (fld_id_at (n_espd N) m p)) m p"

lemma actions_ok_update:
  assumes "actions_ok E cmd acts" "k < length acts" "uid = dec16 E raw" "\<And>act. a = Some act \<Longrightarrow> act = getFixAction E cmd uid"
  shows "actions_ok E cmd (acts[k := (raw, uid, a)])"
  using assms set_update_subset_insert [of acts k "(raw, uid, a)"] unfolding actions_ok_def by blast

lemma getFieldAct_ok:
  assumes ok: "actions_ok E cmd acts" and k: "k < length fs" "k \<le> length acts"
  shows "actions_ok E cmd (getFieldAct E m fs k acts) \<and> length acts \<le> length (getFieldAct E m fs k acts) \<and>
    k < length (getFieldAct E m fs k acts) \<and>
    fst (snd (getFieldAct E m fs k acts ! k)) = fld_id_at E m (fs ! k)"
proof (cases "k = length acts")
  case True
  then show ?thesis using ok k by (auto simp: getFieldAct_def actions_ok_def fld_id_at_def Let_def)
next
  case False
  then have l: "k < length acts" using k by simp
  obtain raw uid a where e: "acts ! k = (raw, uid, a)" by (cases "acts ! k")
  have m: "(raw, uid, a) \<in> set acts" using nth_mem [OF l] by (simp add: e)
  show ?thesis
  proof (cases "raw = bytes_at m (fs ! k) 2")
    case True
    then have "uid = fld_id_at E m (fs ! k)" using ok m by (auto simp: actions_ok_def fld_id_at_def)
    moreover have "getFieldAct E m fs k acts = acts" using True False k e by (simp add: getFieldAct_def Let_def)
    ultimately show ?thesis using ok l e by simp
  next
    case neq: False
    then have "getFieldAct E m fs k acts = acts[k := (bytes_at m (fs ! k) 2, fld_id_at E m (fs ! k), None)]"
      using False k e by (simp add: getFieldAct_def Let_def)
    then show ?thesis using actions_ok_update [OF ok l, of _ _ None] l by (simp add: fld_id_at_def)
  qed
qed

lemma setAction_ok:
  assumes "actions_ok E cmd acts" "k < length acts"
  shows "actions_ok E cmd (setAction k (getFixAction E cmd (fst (snd (acts ! k)))) acts)"
proof -
  obtain raw uid a where e: "acts ! k = (raw, uid, a)" by (cases "acts ! k")
  then have "(raw, uid, a) \<in> set acts" using nth_mem [OF assms(2)] by simp
  then have "uid = dec16 E raw" using assms(1) by (simp add: actions_ok_def)
  then show ?thesis
    using actions_ok_update [OF assms, of uid raw "Some (getFixAction E cmd uid)"] e by (simp add: setAction_def)
qed

lemma manageActions_fold:
  "actions_ok (n_espd N) cmd acts \<Longrightarrow> k \<le> length acts \<Longrightarrow>
   snd (manageActions N cmd m fs k (acts, w)) = fold (do_field N cmd m) (drop k fs) w \<and>
   actions_ok (n_espd N) cmd (fst (manageActions N cmd m fs k (acts, w)))"
proof (induction "length fs - k" arbitrary: k acts w)
  case 0
  then show ?case by (simp add: manageActions.simps)
next
  case (Suc n)
  then have k: "k < length fs" by simp
  let ?E = "n_espd N"
  let ?acts1 = "getFieldAct ?E m fs k acts"
  note g = getFieldAct_ok [OF Suc.prems(1) k Suc.prems(2), of m]
  have u: "fst (snd (?acts1 ! k)) = fld_id_at ?E m (fs ! k)" using g by simp
  have d: "drop k fs = fs ! k # drop (Suc k) fs" using k by (simp add: Cons_nth_drop_Suc)
  have n: "n = length fs - (k + 1)" using Suc.hyps(2) by simp
  show ?case
  proof (cases "snd (snd (?acts1 ! k))")
    case None
    let ?act = "getFixAction ?E cmd (fst (snd (?acts1 ! k)))"
    have "actions_ok ?E cmd (setAction k ?act ?acts1)" using setAction_ok g by blast
    moreover have "k + 1 \<le> length (setAction k ?act ?acts1)" using g by (simp add: setAction_def)
    ultimately show ?thesis
      using Suc.hyps(1) [OF n] None k u
      by (subst (1 2) manageActions.simps) (simp add: Let_def d)
  next
    case (Some act)
    have "?acts1 ! k \<in> set ?acts1" using g by simp
    then have "act = getFixAction ?E cmd (fst (snd (?acts1 ! k)))"
      using g Some unfolding actions_ok_def by (metis prod.collapse)
    moreover have "k + 1 \<le> length ?acts1" using g by simp
    ultimately show ?thesis
      using Suc.hyps(1) [OF n] Some k u g
      by (subst (1 2) manageActions.simps) (simp add: Let_def d)
  qed
qed

text \<open>The list of actions grows to the longest message, no further.\<close>

lemma length_getFieldAct:
  "k < length fs \<Longrightarrow> k \<le> length acts \<Longrightarrow> length (getFieldAct E m fs k acts) = max (length acts) (Suc k)"
  by (auto simp: getFieldAct_def Let_def max_def)

lemma manageActions_length:
  "k \<le> length acts \<Longrightarrow> k \<le> length fs \<Longrightarrow>
   length (fst (manageActions N cmd m fs k (acts, w))) = max (length acts) (length fs)"
proof (induction "length fs - k" arbitrary: k acts w)
  case 0
  then show ?case by (simp add: manageActions.simps)
next
  case (Suc n)
  then have k: "k < length fs" and n: "n = length fs - (k + 1)" by simp_all
  let ?acts1 = "getFieldAct (n_espd N) m fs k acts"
  have l: "length ?acts1 = max (length acts) (Suc k)" using length_getFieldAct [OF k Suc.prems(1)] .
  have s: "length (setAction k act ?acts1) = length ?acts1" for act by (simp add: setAction_def)
  show ?case
  proof (cases "snd (snd (?acts1 ! k))")
    case None
    then show ?thesis using Suc.hyps(1) [OF n] k l s
      by (subst manageActions.simps) (simp add: Let_def max_def)
  next
    case (Some act)
    then show ?thesis using Suc.hyps(1) [OF n] k l
      by (subst manageActions.simps) (simp add: Let_def max_def)
  qed
qed

subsection \<open>Messages and their fields\<close>

definition message_of :: "espd \<Rightarrow> msg_type \<Rightarrow> field list \<Rightarrow> u8 list \<Rightarrow> bool" where
  "message_of E ty fs m \<longleftrightarrow> (\<exists>h r. m = header_bytes E h @ body_bytes E fs @ r \<and> messageType h = msg_code E ty \<and>
     bodyLength h = word_of_nat (length (body_bytes E fs)) \<and> length (body_bytes E fs) < 2 ^ 16)"

text \<open>The type a field must have to be read by the reports.\<close>

definition report_typed :: "field \<Rightarrow> bool" where
  "report_typed f \<longleftrightarrow> field_typed f \<and> (fst f \<in> {CFETP_FIELD_ID, CFETP_FIELD_CMD} \<longrightarrow> fst (snd f) = CFETI_FIELDTYPE_UINT32)"

lemma message_parsed:
  assumes E: "espd_ok E" and fs: "fs \<noteq> []" "list_all fld_wf fs" and m: "message_of E ty fs m"
  shows "flds (parseBuffer E (parser_reset E m p)) = starts E HDR fs"
    "buf (parseBuffer E (parser_reset E m p)) = m"
    "msgType (parseBuffer E (parser_reset E m p)) = msg_code E ty"
    "drop HDR m = body_bytes E fs @ drop (HDR + length (body_bytes E fs)) m"
proof -
  obtain h r where h: "m = header_bytes E h @ body_bytes E fs @ r" "messageType h = msg_code E ty"
    "bodyLength h = word_of_nat (length (body_bytes E fs))" "length (body_bytes E fs) < 2 ^ 16"
    using m by (auto simp: message_of_def)
  note p = parse_encoded [OF E fs h(1,3,4), of p]
  show "flds (parseBuffer E (parser_reset E m p)) = starts E HDR fs"
    "buf (parseBuffer E (parser_reset E m p)) = m"
    "msgType (parseBuffer E (parser_reset E m p)) = msg_code E ty"
    using p h(2) by simp_all
  show "drop HDR m = body_bytes E fs @ drop (HDR + length (body_bytes E fs)) m"
    using length_header_bytes [OF E, of h] by (simp add: h(1))
qed

lemma length_starts: "length (starts E p fs) = length fs"
  by (induction fs arbitrary: p) simp_all

lemma fold_starts:
  "espd_ok E \<Longrightarrow> drop p m = body_bytes E fs @ r \<Longrightarrow>
   (\<And>f q r' w. f \<in> set fs \<Longrightarrow> drop q m = fld_bytes E f @ r' \<Longrightarrow> g q w = h f w) \<Longrightarrow>
   fold g (starts E p fs) w = fold h fs w"
proof (induction fs arbitrary: p w)
  case (Cons f fs)
  have d: "drop p m = fld_bytes E f @ body_bytes E fs @ r" using Cons.prems(2) by (simp add: body_bytes_def)
  have "drop (p + length (fld_bytes E f)) m = body_bytes E fs @ r" by (rule drop_past [OF d])
  moreover have "g p w = h f w" using Cons.prems(3) [OF _ d] by simp
  moreover have "\<And>f q r' w. f \<in> set fs \<Longrightarrow> drop q m = fld_bytes E f @ r' \<Longrightarrow> g q w = h f w"
    using Cons.prems(3) by simp
  ultimately show ?case using Cons.IH [OF Cons.prems(1)] by simp
qed simp


subsection \<open>The report a notification describes\<close>

fun tag_of :: "fid \<Rightarrow> report_tag option" where
  "tag_of CFETP_FIELD_CLIENT_ORDER_ID = Some Tag_OrigClOrdID"
| "tag_of CFETP_FIELD_ORIG_CLIENT_ORDER_ID = Some Tag_OrigClOrdID"
| "tag_of CFETP_FIELD_INSTNAME = Some Tag_Symbol"
| "tag_of CFETP_FIELD_PRICE = Some Tag_Price"
| "tag_of CFETP_FIELD_SIZE = Some Tag_OrderQty"
| "tag_of CFETP_FIELD_INDICATOR = Some Tag_Side"
| "tag_of CFETP_FIELD_ID = Some Tag_OrderID"
| "tag_of _ = None"

fun report_val :: "'g notify_world \<Rightarrow> fid \<Rightarrow> fval \<Rightarrow> report_value" where
  "report_val N CFETP_FIELD_PRICE v = RDouble (u64_of v)"
| "report_val N CFETP_FIELD_SIZE v = RDouble (u64_of v)"
| "report_val N CFETP_FIELD_INDICATOR v = RSide (getSide (espd_fix_map_new (n_codes N)) (u8_of v))"
| "report_val N CFETP_FIELD_ID v = RBytes (n_to_str N (u32_of v))"
| "report_val N _ v = RBytes (str_of v)"

definition apply_field :: "'g notify_world \<Rightarrow> field \<Rightarrow> msg_wr \<Rightarrow> msg_wr" where
  "apply_field N f w =
     (if fst f = CFETP_FIELD_TS_ID then w\<lparr>wr_tsId := u32_of (snd (snd f))\<rparr>
      else if fst f = CFETP_FIELD_EXT_TS_SESSIONID then w\<lparr>wr_extSesId := u32_of (snd (snd f))\<rparr>
      else (case tag_of (fst f) of
        Some t \<Rightarrow> setField t (report_val N (fst f) (snd (snd f))) w | None \<Rightarrow> w))"

text \<open>The last field of a message with an identifier, and the report of its fields.\<close>

definition last_u32 :: "fid \<Rightarrow> field list \<Rightarrow> u32 \<Rightarrow> u32" where
  "last_u32 i fs d = (case find (\<lambda>f. fst f = i) (rev fs) of Some f \<Rightarrow> u32_of (snd (snd f)) | None \<Rightarrow> d)"

definition report_of :: "'g notify_world \<Rightarrow> field list \<Rightarrow> report" where
  "report_of N fs t = (case find (\<lambda>f. tag_of (fst f) = Some t) (rev fs) of
     Some f \<Rightarrow> Some (report_val N (fst f) (snd (snd f))) | None \<Rightarrow> init_msg ORDER_QUEUED t)"

lemma apply_fields:
  "wr_msg (fold (apply_field N) fs w) t = (case find (\<lambda>f. tag_of (fst f) = Some t) (rev fs) of
     Some f \<Rightarrow> Some (report_val N (fst f) (snd (snd f))) | None \<Rightarrow> wr_msg w t) \<and>
   wr_tsId (fold (apply_field N) fs w) = last_u32 CFETP_FIELD_TS_ID fs (wr_tsId w) \<and>
   wr_extSesId (fold (apply_field N) fs w) = last_u32 CFETP_FIELD_EXT_TS_SESSIONID fs (wr_extSesId w)"
proof (induction fs rule: rev_induct)
  case Nil
  then show ?case by (simp add: last_u32_def)
next
  case (snoc f fs)
  have "tag_of CFETP_FIELD_TS_ID = None" "tag_of CFETP_FIELD_EXT_TS_SESSIONID = None" by simp_all
  then show ?case
    using snoc by (auto simp: apply_field_def last_u32_def setField_def split: option.split)
qed

lemma find_field_code:
  "espd_ok E \<Longrightarrow> find (\<lambda>i. field_code E i = field_code E j) is = find (\<lambda>i. i = j) is"
  by (rule find_cong) (auto dest: espd_okD(1) injD)

lemma get_field_data:
  assumes "espd_ok E" "fld_wf f" "drop q m = fld_bytes E f @ r" "fst (snd f) = t"
  shows "get_data E t m q = snd (snd f)"
  using get_data_field [OF assms(1,3), of t] assms(2,4) by (simp add: fld_wf_def)

lemma do_field_apply:
  assumes E: "espd_ok (n_espd N)" and f: "fld_wf f" "report_typed f" and d: "drop q m = fld_bytes (n_espd N) f @ r"
  shows "do_field N ORDER_QUEUED m q w = apply_field N f w"
proof -
  have g: "getFixAction (n_espd N) ORDER_QUEUED (fld_id_at (n_espd N) m q) =
      (case find (\<lambda>i. i = fst f) action_ids of Some i \<Rightarrow> Act i | None \<Rightarrow> DummyAction)"
    using id_at [OF E d] by (simp add: find_field_code [OF E])
  have t: "get_data (n_espd N) (fst (snd f)) m q = snd (snd f)"
    by (rule get_field_data [OF E f(1) d refl])
  show ?thesis
    using t f(2) unfolding g
    by (cases "fst f") (simp_all add: action_ids_def apply_field_def report_typed_def field_typed_def)
qed

lemma do_field_rejected: "do_field N ORDER_REJECTED m q w = w"
  by simp


lemma do_fields_apply:
  assumes E: "espd_ok (n_espd N)" and fs: "fs \<noteq> []" "list_all fld_wf fs" "list_all report_typed fs"
    and m: "message_of (n_espd N) ty fs m"
  shows "fold (do_field N ORDER_QUEUED m) (starts (n_espd N) HDR fs) w = fold (apply_field N) fs w"
proof (rule fold_starts [OF E message_parsed(4) [OF E fs(1,2) m]])
  fix f q r' w assume f: "f \<in> set fs" "drop q m = fld_bytes (n_espd N) f @ r'"
  then have "fld_wf f" "report_typed f" using fs(2,3) by (auto simp: list_all_iff)
  then show "do_field N ORDER_QUEUED m q w = apply_field N f w" by (rule do_field_apply [OF E _ _ f(2)])
qed

lemma do_fields_rejected: "fold (do_field N ORDER_REJECTED m) qs w = w"
  by (induction qs) auto

text \<open>What a message parsed for the conversion holds.\<close>

abbreviation receive :: "'g notify_world \<Rightarrow> buffer \<Rightarrow> 'g from_ts \<Rightarrow> 'g from_ts" where
  "receive N b F \<equiv> F\<lparr>ft_parser := parseBuffer (n_espd N) (parser_reset (n_espd N) (b_data b) (ft_parser F))\<rparr>"

lemma notify_command:
  assumes E: "espd_ok (n_espd N)" and fs: "fs \<noteq> []" "list_all fld_wf fs" "list_all report_typed fs"
    and m: "message_of (n_espd N) ty fs (b_data b)"
    and cmd: "find (\<lambda>f. fst f = CFETP_FIELD_CMD) fs = Some (CFETP_FIELD_CMD, t, V32 c)"
  shows "u32_of (findFieldData (n_espd N) CFETI_FIELDTYPE_UINT32 CFETP_FIELD_CMD (ft_parser (receive N b F))) = c"
proof -
  note p = message_parsed(1-3) [OF E fs(1,2) m, of "ft_parser F"] message_parsed(4) [OF E fs(1,2) m]
  have "length (take HDR (b_data b)) = HDR"
  proof -
    obtain h r where "b_data b = header_bytes (n_espd N) h @ r" using m by (auto simp: message_of_def)
    then show ?thesis using length_header_bytes [OF E, of h] by simp
  qed
  moreover have "b_data b = take HDR (b_data b) @ body_bytes (n_espd N) fs @
      drop (HDR + length (body_bytes (n_espd N) fs)) (b_data b)"
    using p(4) append_take_drop_id [of HDR "b_data b"] by simp
  ultimately have "findFieldData (n_espd N) CFETI_FIELDTYPE_UINT32 CFETP_FIELD_CMD (ft_parser (receive N b F)) =
      (case find (\<lambda>f. fst f = CFETP_FIELD_CMD) fs of Some f \<Rightarrow> snd (snd f)
        | None \<Rightarrow> default_val (native_type CFETI_FIELDTYPE_UINT32))"
    using p fs(3) by (intro find_data_at [OF E fs(2)]) (auto simp: list_all_iff report_typed_def)
  then show ?thesis using cmd by simp
qed

lemma convert_notify:
  assumes E: "espd_ok (n_espd N)" and fs: "fs \<noteq> []" "list_all fld_wf fs" "list_all report_typed fs"
    and m: "message_of (n_espd N) CFETP_NOTIFY fs (b_data b)"
  shows "response_convert N S b F = (case from_ts_notify N S (receive N b F) of (r, F1) \<Rightarrow> (r, F1, S))"
  using message_parsed(3) [OF E fs(1,2) m, of "ft_parser F"]
  by (simp add: response_convert_def from_ts_convert_def Let_def)

text \<open>The identifiers of a session as they stand after the fields of a message.\<close>

definition ids_after :: "field list \<Rightarrow> msg_wr \<Rightarrow> u32 \<times> u32" where
  "ids_after fs w = (last_u32 CFETP_FIELD_EXT_TS_SESSIONID fs (wr_extSesId w), last_u32 CFETP_FIELD_TS_ID fs (wr_tsId w))"

lemma queued_cmd:
  assumes E: "espd_ok (n_espd N)" and fs: "fs \<noteq> []" "list_all fld_wf fs" "list_all report_typed fs"
    and m: "message_of (n_espd N) CFETP_NOTIFY fs (b_data b)"
    and F: "actions_ok (n_espd N) ORDER_QUEUED (nm_actions (ft_notify F) ORDER_QUEUED)"
    and q: "report_of N fs Tag_OrderQty = Some q"
  shows "\<exists>M. notify_cmd_msg N S ORDER_QUEUED (ft_parser (receive N b F)) (ft_notify F) =
      (Inr (getSessionId (ids_after fs (nm_msg (ft_notify F))) S), M) \<and>
    wr_msg (nm_msg M) = (report_of N fs)(Tag_LeavesQty \<mapsto> q) \<and>
    ids_after [] (nm_msg M) = ids_after fs (nm_msg (ft_notify F)) \<and>
    actions_ok (n_espd N) ORDER_QUEUED (nm_actions M ORDER_QUEUED) \<and>
    length (nm_actions M ORDER_QUEUED) = max (length (nm_actions (ft_notify F) ORDER_QUEUED)) (length fs)"
proof -
  define P where "P = ft_parser (receive N b F)"
  let ?M = "ft_notify F"
  define w0 where "w0 = (nm_msg ?M)\<lparr>wr_msg := init_msg ORDER_QUEUED\<rparr>"
  let ?w = "fold (apply_field N) fs w0"
  have p: "flds P = starts (n_espd N) HDR fs" "buf P = b_data b"
    using message_parsed(1-3) [OF E fs(1,2) m, of "ft_parser F"] by (simp_all add: P_def)
  obtain acts w where a: "manageActions N ORDER_QUEUED (buf P) (flds P) 0 (nm_actions ?M ORDER_QUEUED, w0) = (acts, w)"
    by (cases "manageActions N ORDER_QUEUED (buf P) (flds P) 0 (nm_actions ?M ORDER_QUEUED, w0)")
  note run = manageActions_fold [OF F, of 0 "buf P" "flds P" w0, unfolded a]
  have "w = fold (do_field N ORDER_QUEUED (b_data b)) (starts (n_espd N) HDR fs) w0"
    using run by (simp add: p del: getFixAction.simps)
  then have w: "w = ?w" by (simp only: do_fields_apply [OF E fs m])
  have acts: "actions_ok (n_espd N) ORDER_QUEUED acts" using run by simp
  have len: "length acts = max (length (nm_actions ?M ORDER_QUEUED)) (length fs)"
    using manageActions_length [of 0 "nm_actions ?M ORDER_QUEUED" "flds P" N ORDER_QUEUED "buf P" w0]
    unfolding a by (simp add: p length_starts)
  have w0: "wr_msg w0 = init_msg ORDER_QUEUED" "wr_tsId w0 = wr_tsId (nm_msg ?M)"
    "wr_extSesId w0 = wr_extSesId (nm_msg ?M)" by (simp_all add: w0_def)
  have r: "wr_msg w = report_of N fs"
    using apply_fields [of N fs w0] by (simp add: w report_of_def fun_eq_iff w0 del: init_msg.simps split: option.split)
  have i: "ids_after [] w = ids_after fs (nm_msg ?M)"
    using apply_fields [of N fs w0] by (simp add: w ids_after_def last_u32_def w0)
  have sid: "get_sessionID S w = getSessionId (ids_after fs (nm_msg ?M)) S"
    using i by (simp add: get_sessionID_def ids_after_def last_u32_def)
  have "notify_cmd_msg N S ORDER_QUEUED P ?M = (Inr (getSessionId (ids_after fs (nm_msg ?M)) S),
      \<lparr>nm_actions = (nm_actions ?M)(ORDER_QUEUED := acts), nm_msg = w\<lparr>wr_msg := (report_of N fs)(Tag_LeavesQty \<mapsto> q)\<rparr>\<rparr>)"
    unfolding notify_cmd_msg_def w0_def [symmetric] a by (simp add: Let_def r q sid)
  then show ?thesis using i acts len by (simp add: P_def ids_after_def last_u32_def)
qed

subsection \<open>Replies to a connect\<close>

lemma nextFld_flds:
  "nextFld E (st\<lparr>flds := xs\<rparr>) = (fst (nextFld E st), snd (nextFld E st)\<lparr>flds := xs\<rparr>)"
proof -
  have "nextFldSize E (st\<lparr>flds := xs\<rparr>) n = nextFldSize E st n" for n by (simp add: nextFldSize_def cong: if_cong)
  then show ?thesis by (simp add: nextFld_def Let_def cong: if_cong split: option.split)
qed

lemma connect_loop_parse:
  "\<exists>ps. flds (parse_loop E (st\<lparr>flds := xs\<rparr>)) = xs @ ps \<and>
     fst (connect_loop E st d) = fold (connect_field E (buf st)) ps d"
proof (induction E st d arbitrary: xs rule: connect_loop.induct)
  case (1 E st d)
  obtain r st' where n: "nextFld E st = (r, st')" by (cases "nextFld E st")
  have n': "nextFld E (st\<lparr>flds := xs\<rparr>) = (r, st'\<lparr>flds := xs\<rparr>)" by (simp add: nextFld_flds n)
  show ?case
  proof (cases r)
    case None
    then show ?thesis using n n'
      by (simp add: parse_loop.simps [of E "st\<lparr>flds := xs\<rparr>"] connect_loop.simps [of E st])
  next
    case (Some q)
    have b: "buf st' = buf st" using nextFld_progress n Some by blast
    obtain ps where "flds (parse_loop E (st'\<lparr>flds := xs @ [q]\<rparr>)) = (xs @ [q]) @ ps"
      "fst (connect_loop E st' (connect_field E (buf st') q d)) = fold (connect_field E (buf st')) ps (connect_field E (buf st') q d)"
      using 1 [OF n [symmetric] Some] by blast
    then show ?thesis using n n' Some b
      by (intro exI [of _ "q # ps"])
        (simp add: parse_loop.simps [of E "st\<lparr>flds := xs\<rparr>"] connect_loop.simps [of E st])
  qed
qed

lemma parse_loop_keeps:
  "buf (parse_loop E st) = buf st \<and> bodySize (parse_loop E st) = bodySize st \<and>
   p_numFields (parse_loop E st) = p_numFields st \<and> msgType (parse_loop E st) = msgType st"
proof (induction E st rule: parse_loop.induct)
  case (1 E st)
  obtain r st' where n: "nextFld E st = (r, st')" by (cases "nextFld E st")
  then have k: "buf st' = buf st" "bodySize st' = bodySize st" "p_numFields st' = p_numFields st" "msgType st' = msgType st"
    by (auto simp: nextFld_def Let_def split: if_splits option.splits)
  show ?case
  proof (cases r)
    case None
    then show ?thesis using n k by (simp add: parse_loop.simps [of E st])
  next
    case (Some q)
    then show ?thesis using 1 [OF n [symmetric] Some] n k by (simp add: parse_loop.simps [of E st])
  qed
qed

text \<open>The scan of a parsed message visits the recorded fields.\<close>

lemma connect_scan_fields:
  assumes P: "P = parseBuffer E (parser_reset E m p)"
  shows "fst (connect_scan E P) =
    fold (connect_field E m) (flds P) \<lparr>cd_sessionID = [], cd_xsessId = 0, cd_tsId = 0\<rparr>"
proof -
  let ?s0 = "setHeader E (parser_reset E m p)"
  let ?s1 = "?s0\<lparr>pos := HDR, currentNumFields := 0, flds := [HDR]\<rparr>"
  have P': "P = parse_loop E ?s1"
    by (simp add: P parseBuffer_def parseBody_def firstFld_def setHeader_def parser_reset_def)
  let ?s2 = "P\<lparr>pos := HDR, currentNumFields := 0\<rparr>"
  let ?d = "connect_field E m HDR \<lparr>cd_sessionID = [], cd_xsessId = 0, cd_tsId = 0\<rparr>"
  have s2: "?s2\<lparr>flds := [HDR]\<rparr> = ?s1" and b: "buf P = m"
    using parse_loop_keeps [of E ?s1] by (simp_all add: P' setHeader_def parser_reset_def)
  obtain ps where ps: "flds (parse_loop E (?s2\<lparr>flds := [HDR]\<rparr>)) = [HDR] @ ps"
    "fst (connect_loop E ?s2 ?d) = fold (connect_field E (buf ?s2)) ps ?d"
    using connect_loop_parse by blast
  have "flds P = HDR # ps" using ps(1) unfolding s2 by (simp add: P')
  then show ?thesis using ps(2) b by (simp add: connect_scan_def firstFld_def)
qed

text \<open>What a field of the reply contributes.\<close>

definition apply_connect :: "field \<Rightarrow> connect_data \<Rightarrow> connect_data" where
  "apply_connect f d =
     (if fst f = CFETP_FIELD_SESSIONID then d\<lparr>cd_sessionID := str_of (snd (snd f))\<rparr>
      else if fst f = CFETP_FIELD_EXT_TS_SESSIONID then d\<lparr>cd_xsessId := u32_of (snd (snd f))\<rparr>
      else if fst f = CFETP_FIELD_TS_ID then d\<lparr>cd_tsId := u32_of (snd (snd f))\<rparr> else d)"

lemma connect_field_apply:
  assumes E: "espd_ok E" and f: "fld_wf f" "field_typed f" and d: "drop q m = fld_bytes E f @ r"
  shows "connect_field E m q c = apply_connect f c"
proof -
  have i: "fld_id_at E m q = field_code E (fst f)" by (rule id_at [OF E d])
  have inj: "field_code E x = field_code E y \<longleftrightarrow> x = y" for x y
    using espd_okD(1) [OF E] by (auto dest: injD)
  have t: "get_data E (fst (snd f)) m q = snd (snd f)" by (rule get_field_data [OF E f(1) d refl])
  show ?thesis using t f(2)
    unfolding connect_field_def Let_def i inj apply_connect_def
    by (cases "fst f") (simp_all add: field_typed_def)
qed

subsection \<open>Properties\<close>

definition sample_notify :: "nat notify_world" where
  "sample_notify = \<lparr>n_espd = big_endian, n_codes = sample_codes,
     n_cmd = (\<lambda>c. if c = ORDER_QUEUED then 1 else if c = ORDER_REJECTED then 2 else 3),
     n_to_str = (\<lambda>_. [48]), n_fromString = (\<lambda>_. sample_sid), n_next = (\<lambda>n. ([word_of_nat n], n + 1))\<rparr>"

definition sample_msg :: "msg_type \<Rightarrow> field list \<Rightarrow> buffer" where
  "sample_msg ty fs = \<lparr>b_data = header_bytes big_endian (msg_header_new 1 (msg_code big_endian ty) 32 (word_of_nat (length fs))
     (word_of_nat (length (body_bytes big_endian fs)))) @ body_bytes big_endian fs, b_offset = 0\<rparr>"

definition sample_notification :: "u32 \<Rightarrow> field list" where
  "sample_notification c = [(CFETP_FIELD_CMD, CFETI_FIELDTYPE_UINT32, V32 c),
     (CFETP_FIELD_EXT_TS_SESSIONID, CFETI_FIELDTYPE_UINT32, V32 42), (CFETP_FIELD_TS_ID, CFETI_FIELDTYPE_UINT32, V32 7),
     (CFETP_FIELD_SIZE, CFETI_FIELDTYPE_DECIMAL, V64 10)]"

definition connected_sessions :: sessions_info where
  "connected_sessions = sample_sessions\<lparr>session_ids := [(sample_sid, (42, 7))]\<rparr>"

lemma sample_message:
  "length (body_bytes big_endian fs) < 2 ^ 16 \<Longrightarrow> message_of big_endian ty fs (b_data (sample_msg ty fs))"
  unfolding message_of_def sample_msg_def
  by (intro exI [of _ "msg_header_new 1 (msg_code big_endian ty) 32 (word_of_nat (length fs))
      (word_of_nat (length (body_bytes big_endian fs)))"] exI [of _ "[]"]) (simp add: msg_header_new_def)

lemma sample_notification_ok:
  "espd_ok (n_espd sample_notify)" "sample_notification c \<noteq> []" "list_all fld_wf (sample_notification c)"
  "list_all report_typed (sample_notification c)"
  "message_of (n_espd sample_notify) CFETP_NOTIFY (sample_notification c) (b_data (sample_msg CFETP_NOTIFY (sample_notification c)))"
  "find (\<lambda>f. fst f = CFETP_FIELD_CMD) (sample_notification c) = Some (CFETP_FIELD_CMD, CFETI_FIELDTYPE_UINT32, V32 c)"
  "report_of sample_notify (sample_notification c) Tag_OrderQty = Some (RDouble 10)"
  "ids_after (sample_notification c) w = (42, 7)"
proof -
  show "espd_ok (n_espd sample_notify)" by (simp add: sample_notify_def big_endian_ok)
  have "length (body_bytes big_endian (sample_notification c)) < 2 ^ 16"
    using espd_okD [OF big_endian_ok]
    by (simp add: sample_notification_def body_bytes_def fld_bytes_def fld_hdr_bytes_def)
  from sample_message [OF this] show "message_of (n_espd sample_notify) CFETP_NOTIFY (sample_notification c)
      (b_data (sample_msg CFETP_NOTIFY (sample_notification c)))" by (simp add: sample_notify_def)
qed (simp_all add: sample_notification_def fld_wf_def report_typed_def field_typed_def report_of_def ids_after_def last_u32_def)

lemma sample_receiver:
  "actions_ok E cmd (nm_actions (ft_notify (MsgFromTs big_endian (0 :: nat) S)) cmd)"
  "ft_gens (MsgFromTs big_endian (0 :: nat) sample_sessions) sample_sid = Some 0"
  "ft_gens (MsgFromTs big_endian (0 :: nat) sample_sessions) INVALID_SESSION_ID = None"
  by (simp_all add: MsgFromTs_def TSNotifyManager_def actions_ok_def sample_sessions_def sample_sid_def INVALID_SESSION_ID_def)

lemma connected_lookup: "getSessionId (42, 7) connected_sessions = sample_sid"
  by (simp add: getSessionId_def connected_sessions_def right_find_def)

text \<open>
  Property C15: A notification that an order is queued becomes the execution report its fields
  describe (for each FIX field the last message field that sets it, the constants of a new order
  otherwise, the quantity left equal to the quantity, a fresh execution id), addressed to the
  session registered under the session number and the trading system the message names, or
  under the ones of an earlier message where it names none. The cached actions never show; there
  are as many of them as the longest message so far had fields, so that the vector, which has
  room for 100, is not reallocated under its iterators unless a message has more than 100 fields;
  such messages, whose handling is undefined, are not meant here.
\<close>

theorem order_queued_report:
  assumes E: "espd_ok (n_espd N)" and fs: "fs \<noteq> []" "list_all fld_wf fs" "list_all report_typed fs"
    and m: "message_of (n_espd N) CFETP_NOTIFY fs (b_data b)"
    and cmd: "find (\<lambda>f. fst f = CFETP_FIELD_CMD) fs = Some (CFETP_FIELD_CMD, t, V32 (n_cmd N ORDER_QUEUED))"
    and F: "actions_ok (n_espd N) ORDER_QUEUED (nm_actions (ft_notify F) ORDER_QUEUED)"
    and q: "report_of N fs Tag_OrderQty = Some q"
    and sid: "sid = getSessionId (ids_after fs (nm_msg (ft_notify F))) S" "ft_gens F sid = Some g"
  shows "\<exists>F1. response_convert N S b F =
      (Inr (Some ((report_of N fs)(Tag_LeavesQty \<mapsto> q, Tag_ExecID \<mapsto> RBytes (fst (n_next N g))), sid)), F1, S) \<and>
    ids_after [] (nm_msg (ft_notify F1)) = ids_after fs (nm_msg (ft_notify F)) \<and>
    actions_ok (n_espd N) ORDER_QUEUED (nm_actions (ft_notify F1) ORDER_QUEUED) \<and>
    ft_gens F1 = (ft_gens F)(sid \<mapsto> snd (n_next N g)) \<and>
    length (nm_actions (ft_notify F1) ORDER_QUEUED) =
      max (length (nm_actions (ft_notify F) ORDER_QUEUED)) (length fs)"
proof -
  obtain M where M: "notify_cmd_msg N S ORDER_QUEUED (ft_parser (receive N b F)) (ft_notify F) = (Inr sid, M)"
    "wr_msg (nm_msg M) = (report_of N fs)(Tag_LeavesQty \<mapsto> q)"
    "ids_after [] (nm_msg M) = ids_after fs (nm_msg (ft_notify F))"
    "actions_ok (n_espd N) ORDER_QUEUED (nm_actions M ORDER_QUEUED)"
    "length (nm_actions M ORDER_QUEUED) = max (length (nm_actions (ft_notify F) ORDER_QUEUED)) (length fs)"
    using queued_cmd [OF E fs m F q, of S] sid(1) by auto
  show ?thesis
    using M sid(2) notify_command [OF E fs m cmd, of F]
    by (simp add: convert_notify [OF E fs m] from_ts_notify_def notify_manage_def Let_def setField_def
        ids_after_def last_u32_def split: prod.split)
qed

theorem order_queued_report_witness:
  "\<exists>F1 r. response_convert sample_notify connected_sessions (sample_msg CFETP_NOTIFY (sample_notification 1))
      (MsgFromTs big_endian 0 sample_sessions) = (Inr (Some (r, sample_sid)), F1, connected_sessions) \<and>
    r Tag_LeavesQty = Some (RDouble 10) \<and> r Tag_ExecID = Some (RBytes [0])"
proof -
  have c: "n_cmd sample_notify ORDER_QUEUED = 1" "n_next sample_notify 0 = ([0], 1)" by (simp_all add: sample_notify_def)
  have cmd: "find (\<lambda>f. fst f = CFETP_FIELD_CMD) (sample_notification 1) =
      Some (CFETP_FIELD_CMD, CFETI_FIELDTYPE_UINT32, V32 (n_cmd sample_notify ORDER_QUEUED))"
    by (simp add: sample_notification_ok(6) c)
  have sid: "sample_sid = getSessionId (ids_after (sample_notification 1)
      (nm_msg (ft_notify (MsgFromTs big_endian (0 :: nat) sample_sessions)))) connected_sessions"
    by (simp add: sample_notification_ok(8) connected_lookup)
  from order_queued_report [OF sample_notification_ok(1-5) cmd
      sample_receiver(1) sample_notification_ok(7) sid sample_receiver(2)] c(2)
  show ?thesis by fastforce
qed

text \<open>
  Property C16: A notification that an order is rejected is not read at all: whatever session it
  names, the report is empty but for the execution id, and it is sent to the session of the
  notification handled before it.
\<close>

theorem rejected_order_misrouted:
  assumes E: "espd_ok (n_espd N)" and fs: "fs \<noteq> []" "list_all fld_wf fs" "list_all report_typed fs"
    and m: "message_of (n_espd N) CFETP_NOTIFY fs (b_data b)"
    and cmd: "find (\<lambda>f. fst f = CFETP_FIELD_CMD) fs = Some (CFETP_FIELD_CMD, t, V32 (n_cmd N ORDER_REJECTED))"
    and codes: "n_cmd N ORDER_REJECTED \<noteq> n_cmd N ORDER_QUEUED"
    and F: "actions_ok (n_espd N) ORDER_REJECTED (nm_actions (ft_notify F) ORDER_REJECTED)"
    and sid: "sid = getSessionId (wr_extSesId (nm_msg (ft_notify F)), wr_tsId (nm_msg (ft_notify F))) S" "ft_gens F sid = Some g"
  shows "\<exists>F1. response_convert N S b F =
      (Inr (Some ([Tag_ExecID \<mapsto> RBytes (fst (n_next N g))], sid)), F1, S)"
proof -
  let ?p = "ft_parser (receive N b F)" and ?M = "ft_notify F"
  let ?w0 = "(nm_msg ?M)\<lparr>wr_msg := init_msg ORDER_REJECTED\<rparr>"
  obtain acts w where a: "manageActions N ORDER_REJECTED (buf ?p) (flds ?p) 0 (nm_actions ?M ORDER_REJECTED, ?w0) = (acts, w)"
    by (cases "manageActions N ORDER_REJECTED (buf ?p) (flds ?p) 0 (nm_actions ?M ORDER_REJECTED, ?w0)")
  have w: "w = ?w0"
    using manageActions_fold [OF F, of 0 "buf ?p" "flds ?p" ?w0] a do_fields_rejected [of N "buf ?p" "flds ?p" ?w0]
    by simp
  have "notify_cmd_msg N S ORDER_REJECTED ?p ?M =
      (Inr sid, \<lparr>nm_actions = (nm_actions ?M)(ORDER_REJECTED := acts), nm_msg = ?w0\<rparr>)"
    unfolding notify_cmd_msg_def a by (simp add: w Let_def get_sessionID_def sid(1))
  then show ?thesis
    using sid(2) codes notify_command [OF E fs m cmd, of F]
    by (simp add: convert_notify [OF E fs m] from_ts_notify_def notify_manage_def Let_def setField_def
        split: prod.split)
qed


theorem rejected_order_misrouted_witness:
  "\<exists>F1. response_convert sample_notify connected_sessions (sample_msg CFETP_NOTIFY (sample_notification 2))
      ((MsgFromTs big_endian 0 sample_sessions)\<lparr>ft_notify := TSNotifyManager\<lparr>nm_msg := FixMsgWr\<lparr>wr_extSesId := 42, wr_tsId := 7\<rparr>\<rparr>\<rparr>) =
    (Inr (Some ([Tag_ExecID \<mapsto> RBytes [0]], sample_sid)), F1, connected_sessions)"
proof -
  let ?F = "(MsgFromTs big_endian (0 :: nat) sample_sessions)\<lparr>ft_notify := TSNotifyManager\<lparr>nm_msg := FixMsgWr\<lparr>wr_extSesId := 42, wr_tsId := 7\<rparr>\<rparr>\<rparr>"
  have c: "n_cmd sample_notify ORDER_REJECTED = 2" "n_cmd sample_notify ORDER_REJECTED \<noteq> n_cmd sample_notify ORDER_QUEUED"
    "n_next sample_notify 0 = ([0], 1)" by (simp_all add: sample_notify_def)
  have cmd: "find (\<lambda>f. fst f = CFETP_FIELD_CMD) (sample_notification 2) =
      Some (CFETP_FIELD_CMD, CFETI_FIELDTYPE_UINT32, V32 (n_cmd sample_notify ORDER_REJECTED))"
    by (simp add: sample_notification_ok(6) c)
  have F: "actions_ok (n_espd sample_notify) ORDER_REJECTED (nm_actions (ft_notify ?F) ORDER_REJECTED)"
    "sample_sid = getSessionId (wr_extSesId (nm_msg (ft_notify ?F)), wr_tsId (nm_msg (ft_notify ?F))) connected_sessions"
    "ft_gens ?F sample_sid = Some 0"
    using sample_receiver(2) by (simp_all add: connected_lookup TSNotifyManager_def actions_ok_def)
  from rejected_order_misrouted [OF sample_notification_ok(1-5) cmd c(2) F] c(3)
  show ?thesis by simp
qed

text \<open>
  A reply to a connect that names a known session, its own trading system and a
  fresh session number registers the session: from then on the number and the trading system
  lead to this session, and its requests carry the number. No message goes to FIX.
\<close>

theorem connect_reply_registers:
  assumes E: "espd_ok (n_espd N)" and fs: "fs \<noteq> []" "list_all fld_wf fs" "list_all field_typed fs"
    and m: "message_of (n_espd N) CFETP_CONNECT_REPLY fs (b_data b)"
    and d: "fold apply_connect fs \<lparr>cd_sessionID = [], cd_xsessId = 0, cd_tsId = 0\<rparr> =
      \<lparr>cd_sessionID = s, cd_xsessId = x, cd_tsId = ts\<rparr>" "s \<noteq> []" "x \<noteq> 0" "ts \<noteq> 0"
    and S: "sessions_ok S" "getLogonInfo (n_fromString N s) S = Some info" "tsId info = ts"
    and fresh: "left_find (n_fromString N s) (session_ids S) = None" "right_find (x, ts) (session_ids S) = None"
  shows "\<exists>F1 S1. response_convert N S b F = (Inr None, F1, S1) \<and> sessions_ok S1 \<and>
    getSessionId (x, ts) S1 = n_fromString N s \<and>
    (\<forall>k. k \<noteq> (x, ts) \<longrightarrow> getSessionId k S1 = getSessionId k S) \<and>
    getLogonInfo (n_fromString N s) S1 = Some (info\<lparr>xsessId := x\<rparr>)"
proof -
  let ?P = "ft_parser (receive N b F)"
  obtain S1 where S1: "set_sessId (n_fromString N s) x ts S = (True, S1)" "sessions_ok S1"
    "getSessionId (x, ts) S1 = n_fromString N s" "\<forall>k. k \<noteq> (x, ts) \<longrightarrow> getSessionId k S1 = getSessionId k S"
    "getLogonInfo (n_fromString N s) S1 = Some (info\<lparr>xsessId := x\<rparr>)"
    using set_sessId_registers [OF S fresh] by blast
  have "fst (connect_scan (n_espd N) ?P) =
      fold (connect_field (n_espd N) (b_data b)) (starts (n_espd N) HDR fs) \<lparr>cd_sessionID = [], cd_xsessId = 0, cd_tsId = 0\<rparr>"
    using connect_scan_fields [OF refl, of "n_espd N" "b_data b" "ft_parser F"]
      message_parsed(1) [OF E fs(1,2) m, of "ft_parser F"] by simp
  also have "\<dots> = fold apply_connect fs \<lparr>cd_sessionID = [], cd_xsessId = 0, cd_tsId = 0\<rparr>"
  proof (rule fold_starts [OF E message_parsed(4) [OF E fs(1,2) m]])
    fix f q r' w assume f: "f \<in> set fs" "drop q (b_data b) = fld_bytes (n_espd N) f @ r'"
    then have "fld_wf f" "field_typed f" using fs(2,3) by (auto simp: list_all_iff)
    then show "connect_field (n_espd N) (b_data b) q w = apply_connect f w"
      by (rule connect_field_apply [OF E _ _ f(2)])
  qed
  finally obtain P1 where "connect_scan (n_espd N) ?P = (\<lparr>cd_sessionID = s, cd_xsessId = x, cd_tsId = ts\<rparr>, P1)"
    using d(1) by (cases "connect_scan (n_espd N) ?P") simp
  then have "from_ts_connect_reply N S (receive N b F) = (Inr (), (receive N b F)\<lparr>ft_parser := P1\<rparr>, S1)"
    using d(2-4) S1(1) by (simp add: from_ts_connect_reply_def Let_def)
  moreover have "msg_code (n_espd N) CFETP_CONNECT_REPLY \<noteq> msg_code (n_espd N) CFETP_NOTIFY"
    using espd_okD(3) [OF E] by (auto dest: injD)
  ultimately have "response_convert N S b F = (Inr None, (receive N b F)\<lparr>ft_parser := P1\<rparr>, S1)"
    using message_parsed(3) [OF E fs(1,2) m, of "ft_parser F"]
    by (simp add: response_convert_def from_ts_convert_def Let_def)
  then show ?thesis using S1(2-5) by blast
qed

definition sample_reply :: "field list" where
  "sample_reply = [(CFETP_FIELD_SESSIONID, CFETI_FIELDTYPE_STRING, VStr [115]),
     (CFETP_FIELD_EXT_TS_SESSIONID, CFETI_FIELDTYPE_UINT32, V32 42), (CFETP_FIELD_TS_ID, CFETI_FIELDTYPE_UINT32, V32 7)]"

theorem connect_reply_registers_witness:
  "\<exists>F1 S1. response_convert sample_notify sample_sessions (sample_msg CFETP_CONNECT_REPLY sample_reply)
      (MsgFromTs big_endian 0 sample_sessions) = (Inr None, F1, S1) \<and> getSessionId (42, 7) S1 = sample_sid"
proof -
  have fs: "sample_reply \<noteq> []" "list_all fld_wf sample_reply" "list_all field_typed sample_reply"
    by (simp_all add: sample_reply_def fld_wf_def field_typed_def)
  have "length (body_bytes big_endian sample_reply) < 2 ^ 16"
    using espd_okD [OF big_endian_ok]
    by (simp add: sample_reply_def body_bytes_def fld_bytes_def fld_hdr_bytes_def)
  then have m: "message_of (n_espd sample_notify) CFETP_CONNECT_REPLY sample_reply (b_data (sample_msg CFETP_CONNECT_REPLY sample_reply))"
    using sample_message by (simp add: sample_notify_def)
  have d: "fold apply_connect sample_reply \<lparr>cd_sessionID = [], cd_xsessId = 0, cd_tsId = 0\<rparr> =
      \<lparr>cd_sessionID = [115], cd_xsessId = 42, cd_tsId = 7\<rparr>"
    by (simp add: sample_reply_def apply_connect_def)
  have id: "n_fromString sample_notify [115] = sample_sid" by (simp add: sample_notify_def)
  have S: "sessions_ok sample_sessions" "getLogonInfo (n_fromString sample_notify [115]) sample_sessions = Some sample_logon"
    "left_find (n_fromString sample_notify [115]) (session_ids sample_sessions) = None"
    "right_find (42, 7) (session_ids sample_sessions) = None" "tsId sample_logon = 7"
    by (simp_all add: id sessions_ok_def bimap_ok_def sample_sessions_def left_find_def right_find_def getLogonInfo_def
        getSessionSettings_def sample_logon_def)
  from connect_reply_registers [OF sample_notification_ok(1) fs m d _ _ _ S(1,2,5,3,4)] show ?thesis
    unfolding id by fastforce
qed

text \<open>
  A notification for a session nobody registered takes a buffer from the pool for
  good: handling it sends nothing and does not give the buffer back.
\<close>

theorem unknown_session_leaks_buffer:
  assumes E: "espd_ok (n_espd N)" and fs: "fs \<noteq> []" "list_all fld_wf fs" "list_all report_typed fs"
    and m: "message_of (n_espd N) CFETP_NOTIFY fs (b_data b)"
    and cmd: "find (\<lambda>f. fst f = CFETP_FIELD_CMD) fs = Some (CFETP_FIELD_CMD, t, V32 (n_cmd N ORDER_QUEUED))"
    and F: "actions_ok (n_espd N) ORDER_QUEUED (nm_actions (ft_notify F) ORDER_QUEUED)"
    and q: "report_of N fs Tag_OrderQty = Some q"
    and un: "right_find (ids_after fs (nm_msg (ft_notify F))) (session_ids S) = None" "ft_gens F INVALID_SESSION_ID = None"
    and r: "queue_pop X (r_queue r) = (Some b, que)"
  shows "\<exists>F1. response_manage N X r S F = (None, r\<lparr>r_queue := que\<rparr>, S, F1)"
proof -
  have sid: "getSessionId (ids_after fs (nm_msg (ft_notify F))) S = INVALID_SESSION_ID"
    using un(1) by (simp add: getSessionId_def)
  obtain M where M: "notify_cmd_msg N S ORDER_QUEUED (ft_parser (receive N b F)) (ft_notify F) = (Inr INVALID_SESSION_ID, M)"
    using queued_cmd [OF E fs m F q, of S] sid by auto
  have "\<exists>F1. response_convert N S b F = (Inl (ESPDMsgError '' Cannot generate ExecID. Message ignored. ''), F1, S)"
    using M un(2) notify_command [OF E fs m cmd, of F]
    by (simp add: convert_notify [OF E fs m] from_ts_notify_def notify_manage_def Let_def)
  then show ?thesis using r by (auto simp: response_manage_def router_consume_def)
qed

theorem unknown_session_leaks_buffer_witness:
  "\<exists>F1. response_manage sample_notify sample_ops \<lparr>r_id = 7, r_init_size = 1024, r_mlp = 4,
      r_queue = [Some (sample_msg CFETP_NOTIFY (sample_notification 1))], r_pool = 1\<rparr> sample_sessions
      (MsgFromTs big_endian 0 sample_sessions) =
    (None, \<lparr>r_id = 7, r_init_size = 1024, r_mlp = 4, r_queue = [], r_pool = 1\<rparr>, sample_sessions, F1)"
proof -
  let ?r = "\<lparr>r_id = (7 :: u32), r_init_size = 1024 :: nat, r_mlp = 4 :: nat,
      r_queue = [Some (sample_msg CFETP_NOTIFY (sample_notification 1))], r_pool = 1 :: nat\<rparr>"
  have c: "n_cmd sample_notify ORDER_QUEUED = 1" by (simp add: sample_notify_def)
  have cmd: "find (\<lambda>f. fst f = CFETP_FIELD_CMD) (sample_notification 1) =
      Some (CFETP_FIELD_CMD, CFETI_FIELDTYPE_UINT32, V32 (n_cmd sample_notify ORDER_QUEUED))"
    by (simp add: sample_notification_ok(6) c)
  have un: "right_find (ids_after (sample_notification 1) (nm_msg (ft_notify (MsgFromTs big_endian (0 :: nat) sample_sessions))))
      (session_ids sample_sessions) = None"
    by (simp add: sample_sessions_def right_find_def)
  have pop: "queue_pop sample_ops (r_queue ?r) = (Some (sample_msg CFETP_NOTIFY (sample_notification 1)), [])"
    by (simp add: sample_ops_def)
  from unknown_session_leaks_buffer [OF sample_notification_ok(1-5) cmd
      sample_receiver(1) sample_notification_ok(7) un sample_receiver(3) pop]
  show ?thesis by simp
qed

end
