(* ===== verification/Fix_Threads.thy ===== *)
theory Fix_Threads
  imports Fix_Responses_Props
begin

text \<open>
  The threads around the queues: the connection to a trading system (connector/include/
  ts_connector.h, connector/src/ts_connector.cpp), the writer and reader of a trading system
  (ts_impl/include/ts_writer.h, ts_reader.h, ts_rw_base.h), the session manager
  (appl/src/session_manager.cpp) and the handlers of the application (appl/src/application.cpp).
\<close>

subsection \<open>TsConnector\<close>

text \<open>
  The socket of Boost.Asio and the resolver are an argument. A connect, write or read answers
  whether it failed; \<open>resolve\<close> is undefined where the resolver throws; \<open>boost::this_thread::sleep\<close>
  answers whether it threw because the thread was interrupted. The mutex around connect and
  disconnect makes them atomic.
\<close>

record ('e, 's) sock_ops =
  sk_is_open :: "'s \<Rightarrow> bool"
  sk_resolve :: "string \<Rightarrow> string \<Rightarrow> 'e list option"
  sk_connect :: "'e \<Rightarrow> 's \<Rightarrow> bool \<times> 's"
  sk_shutdown_send :: "'s \<Rightarrow> 's"
  sk_shutdown_receive :: "'s \<Rightarrow> 's"
  sk_close :: "'s \<Rightarrow> 's"
  sk_sleep :: "int \<Rightarrow> 's \<Rightarrow> bool \<times> 's"
  sk_set_option :: "string \<Rightarrow> int list \<Rightarrow> 's \<Rightarrow> 's"
  sk_write :: "u8 list list \<Rightarrow> 's \<Rightarrow> bool \<times> 's"
  sk_read :: "nat \<Rightarrow> 's \<Rightarrow> bool \<times> u8 list \<times> 's"

definition connected :: "('e, 's) sock_ops \<Rightarrow> 's \<Rightarrow> bool" where
  "connected C s = sk_is_open C s"

definition disconnect_not_locked :: "('e, 's) sock_ops \<Rightarrow> 's \<Rightarrow> 's" where
  "disconnect_not_locked C s = (if \<not> connected C s then s
     else sk_close C (sk_shutdown_receive C (sk_shutdown_send C s)))"

fun connect_endpoints :: "('e, 's) sock_ops \<Rightarrow> 'e list \<Rightarrow> bool \<Rightarrow> 's \<Rightarrow> bool \<times> 's" where
  "connect_endpoints C [] error s = (error, s)"
| "connect_endpoints C (e # es) error s =
     (if error then (case sk_connect C e (disconnect_not_locked C s) of (error', s') \<Rightarrow>
        connect_endpoints C es error' s') else (error, s))"

text \<open>
  The loop that sleeps and tries again until there is no error: \<open>(False, s)\<close> when the sleep is
  interrupted. It need not end.
\<close>

partial_function (option) connect_retry ::
  "('e, 's) sock_ops \<Rightarrow> int \<Rightarrow> 'e list \<Rightarrow> bool \<Rightarrow> 's \<Rightarrow> (bool \<times> 's) option" where
  "connect_retry C wait es error s = (if \<not> error then Some (True, s)
     else (case sk_sleep C wait s of (interrupted, s1) \<Rightarrow>
       if interrupted then Some (False, s1)
       else (case connect_endpoints C es error s1 of (error', s2) \<Rightarrow>
         connect_retry C wait es error' s2)))"

definition setOptions :: "('e, 's) sock_ops \<Rightarrow> connect_settings \<Rightarrow> 's \<Rightarrow> 's" where
  "setOptions C cs s =
     sk_set_option C ''linger'' [of_bool (fst (soLinger cs)), snd (soLinger cs)]
     (sk_set_option C ''keep_alive'' [of_bool (keepAlives cs)]
     (sk_set_option C ''rcvd_buffer_size'' [ReceivedBufferSize cs]
     (sk_set_option C ''send_buffer_size'' [SendBufferSize cs]
     (sk_set_option C ''no_delay'' [of_bool (noDelay cs)] s))))"

text \<open>\<open>connect\<close>: \<open>(False, s)\<close> when it throws, \<open>None\<close> when it never returns.\<close>

definition connect_not_locked :: "('e, 's) sock_ops \<Rightarrow> connect_settings \<Rightarrow> 's \<Rightarrow> (bool \<times> 's) option" where
  "connect_not_locked C cs s =
     (if connected C s then Some (True, s)
      else case sk_resolve C (address cs) (port cs) of
        None \<Rightarrow> Some (False, disconnect_not_locked C s)
      | Some es \<Rightarrow> (case connect_endpoints C es True s of (error, s1) \<Rightarrow>
          Option.bind (connect_retry C (connectionInterval cs) es error s1) (\<lambda>(ok, s2).
            if ok then Some (True, setOptions C cs s2)
            else Some (False, disconnect_not_locked C s2))))"

text \<open>\<open>send_to_ts\<close> and \<open>receive_from_ts\<close>: after an error, connect and start again.\<close>

partial_function (option) send_to_ts ::
  "('e, 's) sock_ops \<Rightarrow> connect_settings \<Rightarrow> u8 list list \<Rightarrow> 's \<Rightarrow> (bool \<times> 's) option" where
  "send_to_ts C cs bufs s = (case sk_write C bufs s of (ec, s1) \<Rightarrow>
     if \<not> ec then Some (True, s1)
     else Option.bind (connect_not_locked C cs s1) (\<lambda>(ok, s2).
       if \<not> ok then Some (False, disconnect_not_locked C s2)
       else Option.bind (send_to_ts C cs bufs s2) (\<lambda>(ok', s3).
         if ok' then Some (True, s3) else Some (False, disconnect_not_locked C s3))))"

partial_function (option) receive_from_ts ::
  "('e, 's) sock_ops \<Rightarrow> connect_settings \<Rightarrow> nat \<Rightarrow> 's \<Rightarrow> (u8 list option \<times> 's) option" where
  "receive_from_ts C cs n s = (case sk_read C n s of (ec, bs, s1) \<Rightarrow>
     if \<not> ec then Some (Some bs, s1)
     else Option.bind (connect_not_locked C cs s1) (\<lambda>(ok, s2).
       if \<not> ok then Some (None, disconnect_not_locked C s2)
       else Option.bind (receive_from_ts C cs n s2) (\<lambda>(r, s3).
         if r \<noteq> None then Some (r, s3) else Some (None, disconnect_not_locked C s3))))"

subsection \<open>TsWriterImpl\<close>

text \<open>\<open>BufferSequenceAdapter\<close> is not part of the repository: its operations are an argument.\<close>

record ('p, 'q, 'm) seq_ops =
  bs_push_back :: "buffer \<Rightarrow> 'm \<Rightarrow> 'm"
  bs_empty :: "'m \<Rightarrow> bool"
  bs_connectorBuffers :: "'m \<Rightarrow> u8 list list"
  bs_clear :: "'m \<Rightarrow> ('p, 'q) router \<Rightarrow> 'm \<times> ('p, 'q) router"

partial_function (option) consume_all ::
  "(buffer, 'p, 'q) router_ops \<Rightarrow> ('p, 'q, 'm) seq_ops \<Rightarrow> ('p, 'q) router \<Rightarrow> 'm \<Rightarrow> (('p, 'q) router \<times> 'm) option" where
  "consume_all X B r m = (case router_tryConsume X r of (ok, b, r1) \<Rightarrow>
     if \<not> ok then Some (r1, m)
     else (case b of None \<Rightarrow> consume_all X B r1 m | Some x \<Rightarrow> consume_all X B r1 (bs_push_back B x m)))"

definition consumeNonBloking :: "(buffer, 'p, 'q) router_ops \<Rightarrow> ('p, 'q, 'm) seq_ops \<Rightarrow> ('p, 'q) router \<Rightarrow> 'm \<Rightarrow>
    (bool \<times> ('p, 'q) router \<times> 'm) option" where
  "consumeNonBloking X B r m = Option.bind (consume_all X B r m) (\<lambda>(r1, m1). Some (\<not> bs_empty B m1, r1, m1))"

definition consumeBloking :: "(buffer, 'p, 'q) router_ops \<Rightarrow> ('p, 'q, 'm) seq_ops \<Rightarrow> ('p, 'q) router \<Rightarrow> 'm \<Rightarrow>
    bool \<times> ('p, 'q) router \<times> 'm" where
  "consumeBloking X B r m = (case router_consume X r of (b, r1) \<Rightarrow>
     (case b of None \<Rightarrow> (False, r1, m) | Some x \<Rightarrow> (True, r1, bs_push_back B x m)))"

definition writer_consume :: "(buffer, 'p, 'q) router_ops \<Rightarrow> ('p, 'q, 'm) seq_ops \<Rightarrow> ('p, 'q) router \<Rightarrow> 'm \<Rightarrow>
    (bool \<times> ('p, 'q) router \<times> 'm) option" where
  "writer_consume X B r m = Option.bind (consumeNonBloking X B r m) (\<lambda>(status, r1, m1).
     if status then Some (True, r1, m1) else Some (consumeBloking X B r1 m1))"

text \<open>\<open>threadFunction\<close>; the answer tells whether it throws, which keeps the buffers.\<close>

definition writer_round :: "(buffer, 'p, 'q) router_ops \<Rightarrow> ('p, 'q, 'm) seq_ops \<Rightarrow> ('e, 's) sock_ops \<Rightarrow>
    connect_settings \<Rightarrow> ('p, 'q) router \<Rightarrow> 'm \<Rightarrow> 's \<Rightarrow> (bool \<times> ('p, 'q) router \<times> 'm \<times> 's) option" where
  "writer_round X B C cs r m s = Option.bind (writer_consume X B r m) (\<lambda>(status, r1, m1).
     if \<not> status then Some (True, r1, m1, s)
     else Option.bind (send_to_ts C cs (bs_connectorBuffers B m1) s) (\<lambda>(ok, s1).
       if ok then (case bs_clear B m1 r1 of (m2, r2) \<Rightarrow> Some (True, r2, m2, s1))
       else Some (False, r1, m1, s1)))"

subsection \<open>TsReaderImpl\<close>

text \<open>
  \<open>loadMsg\<close>: the header, then as many bytes as the header states. The memory of the buffer has
  its own length: \<open>Overrun\<close> is a write behind it, \<open>Thrown\<close> an exception of the connection.
\<close>

datatype 'a load_result = Loaded 'a | Overrun | Thrown

definition write_at :: "nat \<Rightarrow> u8 list \<Rightarrow> u8 list \<Rightarrow> u8 list option" where
  "write_at p bs m = (if p + length bs \<le> length m then Some (take p m @ bs @ drop (p + length bs) m) else None)"

definition loadMsg :: "espd \<Rightarrow> ('e, 's) sock_ops \<Rightarrow> connect_settings \<Rightarrow> buffer \<Rightarrow> 's \<Rightarrow> (buffer load_result \<times> 's) option" where
  "loadMsg E C cs b s = Option.bind (receive_from_ts C cs HDR s) (\<lambda>(h, s1). case h of
     None \<Rightarrow> Some (Thrown, s1)
   | Some hdr \<Rightarrow> (case write_at 0 hdr (b_data b) of
       None \<Rightarrow> Some (Overrun, s1)
     | Some m1 \<Rightarrow>
         (let bodySize = unat (get_length E m1) in
          Option.bind (receive_from_ts C cs bodySize s1) (\<lambda>(bd, s2). case bd of
            None \<Rightarrow> Some (Thrown, s2)
          | Some body \<Rightarrow> (case write_at HDR body m1 of
              None \<Rightarrow> Some (Overrun, s2)
            | Some m2 \<Rightarrow> Some (Loaded \<lparr>b_data = m2, b_offset = HDR + bodySize\<rparr>, s2))))))"

definition reader_round :: "espd \<Rightarrow> (buffer, 'p, 'q) router_ops \<Rightarrow> ('e, 's) sock_ops \<Rightarrow> connect_settings \<Rightarrow>
    ('p, 'q) router \<Rightarrow> 's \<Rightarrow> (unit load_result \<times> ('p, 'q) router \<times> 's) option" where
  "reader_round E X C cs r s = (case router_allocate X r of (status, b, r1) \<Rightarrow>
     (case b of
        None \<Rightarrow> Some (Loaded (), r1, s)
      | Some m \<Rightarrow>
          if \<not> status then Some (Loaded (), r1, s)
          else Option.bind (loadMsg E C cs m s) (\<lambda>(res, s1). case res of
            Loaded m1 \<Rightarrow> Some (Loaded (), router_produce X (Some m1) r1, s1)
          | Overrun \<Rightarrow> Some (Overrun, r1, s1)
          | Thrown \<Rightarrow> Some (Thrown, r1, s1))))"

subsection \<open>TsConnectors and TsRsWs\<close>

definition TsConnectors :: "(u32 \<Rightarrow> connect_settings option) \<Rightarrow> (u32 \<Rightarrow> connect_settings option)" where
  "TsConnectors cs = cs"

text \<open>
  \<open>TsRsWs::init\<close>: a reader or writer for every trading system with a connection and a router;
  the others are reported and skipped. A worker is its settings, connection and router.
\<close>

record worker =
  wk_settings :: ts_settings
  wk_connector :: connect_settings
  wk_router :: u32

definition TsRsWs :: "trading_systems \<Rightarrow> (u32 \<Rightarrow> connect_settings option) \<Rightarrow> (u32 \<Rightarrow> 'r option) \<Rightarrow> (u32 \<Rightarrow> worker option)" where
  "TsRsWs T cons routers = (\<lambda>i. case ts_map T i of
     None \<Rightarrow> None
   | Some ts \<Rightarrow> (case cons i of
       None \<Rightarrow> None
     | Some con \<Rightarrow> (case routers i of
         None \<Rightarrow> None
       | Some r \<Rightarrow> Some \<lparr>wk_settings = ts, wk_connector = con, wk_router = i\<rparr>)))"

text \<open>\<open>TSResponseManagers::init\<close>: a manager for every router of the trading systems; a router
  whose manager cannot be made ends the loop.\<close>

fun TSResponseManagers_init :: "u32 \<Rightarrow> (u32 \<Rightarrow> converter_id) \<Rightarrow> (u32 \<Rightarrow> ('p, 'q) router option) \<Rightarrow> u32 list \<Rightarrow>
    (u32 \<Rightarrow> converter_id option) \<Rightarrow> (u32 \<Rightarrow> converter_id option)" where
  "TSResponseManagers_init bad conv routers [] M = M"
| "TSResponseManagers_init bad conv routers (i # is) M = (case routers i of
     None \<Rightarrow> TSResponseManagers_init bad conv routers is M
   | Some r \<Rightarrow> (case TSResponseManager_init bad conv r of
       Inl e \<Rightarrow> M
     | Inr c \<Rightarrow> TSResponseManagers_init bad conv routers is (insert_new i c M)))"

subsection \<open>SessionManager\<close>

text \<open>
  \<open>start\<close> and \<open>stop\<close>: the four parts in order; each answers whether it threw. What is running is
  part of the world \<open>'w\<close>.
\<close>

record 'w part =
  pt_start :: "'w \<Rightarrow> bool \<times> 'w"
  pt_stop :: "'w \<Rightarrow> bool \<times> 'w"

record 'w session_manager =
  sm_parts :: "'w part list"
  sm_started :: bool

fun run_parts :: "('w \<Rightarrow> bool \<times> 'w) list \<Rightarrow> 'w \<Rightarrow> bool \<times> 'w" where
  "run_parts [] w = (True, w)"
| "run_parts (f # fs) w = (case f w of (ok, w1) \<Rightarrow> if ok then run_parts fs w1 else (False, w1))"

definition sm_start :: "'w session_manager \<Rightarrow> 'w \<Rightarrow> (fix_error + 'w session_manager) \<times> 'w" where
  "sm_start M w = (if sm_started M then (Inr M, w)
     else case run_parts (map pt_start (sm_parts M)) w of (ok, w1) \<Rightarrow>
       if ok then (Inr (M\<lparr>sm_started := True\<rparr>), w1)
       else (Inl (FIXError ''Cannot start SessionManager ''), w1))"

definition sm_stop :: "'w session_manager \<Rightarrow> 'w \<Rightarrow> 'w session_manager \<times> 'w" where
  "sm_stop M w = (if \<not> sm_started M then (M, w)
     else case run_parts (map pt_stop (sm_parts M)) w of (ok, w1) \<Rightarrow>
       (if ok then M\<lparr>sm_started := False\<rparr> else M, w1))"

subsection \<open>Application\<close>

text \<open>
  The handlers see the sessions, one converter per session and the routers. The outcome of a
  message: sent or not, an exception that was reported, or the end of the program, when an
  exception leaves a handler declared \<open>throw()\<close>.
\<close>

record ('p, 'q) system =
  sys_sessions :: sessions_info
  sys_requests :: "session_id \<Rightarrow> to_ts option"
  sys_routers :: "('p, 'q) routers"

datatype outcome = Sent bool | Reported fix_error | Terminated

text \<open>\<open>manageImpl\<close>; a converter refers to the session's information, it has no copy of it.\<close>

definition manage_message :: "world \<Rightarrow> (buffer, 'p, 'q) router_ops \<Rightarrow> fix_kind \<Rightarrow> fix_message \<Rightarrow> session_id \<Rightarrow>
    ('p, 'q) system \<Rightarrow> (fix_error + bool) \<times> ('p, 'q) system" where
  "manage_message W X kind msg sid Y = (case getTSRequestManager (sys_requests Y) sid of
     None \<Rightarrow> (Inl (FIXError ''Cannot manage fix message. Invalid session id ''), Y)
   | Some T \<Rightarrow>
       (let si = (case sessions (sys_sessions Y) sid of Some si \<Rightarrow> si | None \<Rightarrow> tt_info T) in
        case manage_request W X kind msg (T\<lparr>tt_info := si\<rparr>) (sys_routers Y) of (r, T1, R1) \<Rightarrow>
          (r, Y\<lparr>sys_requests := (sys_requests Y)(sid \<mapsto> T1), sys_routers := R1\<rparr>)))"

definition catch_all :: "(fix_error + bool) \<times> ('p, 'q) system \<Rightarrow> outcome \<times> ('p, 'q) system" where
  "catch_all x = (case fst x of Inl e \<Rightarrow> Reported e | Inr b \<Rightarrow> Sent b, snd x)"

text \<open>
  \<open>onMessage\<close> of the three messages: \<open>fixMsgToTS\<close> throws when there is no session manager, before
  its own \<open>try\<close>; the handler of the logon reports it.
\<close>

definition onMessage :: "world \<Rightarrow> (buffer, 'p, 'q) router_ops \<Rightarrow> fix_kind \<Rightarrow> fix_message \<Rightarrow> session_id \<Rightarrow>
    bool \<Rightarrow> ('p, 'q) system \<Rightarrow> outcome \<times> ('p, 'q) system" where
  "onMessage W X kind msg sid managed Y =
     (if managed then catch_all (manage_message W X kind msg sid Y)
      else if kind = Logon then (Reported (FIXError ''Code error. m_sessionManager is a NULL pointer ''), Y)
      else (Terminated, Y))"

end
