(* ===== verification/Fix_Threads_Props.thy ===== *)
theory Fix_Threads_Props
  imports Fix_Threads
begin

text \<open>
  Properties of the connection, the writer, the reader and the application: when connecting
  returns, throws and never ends, what a round of the writer sends, what a round of the reader loads, and what a
  message of one session can touch.
\<close>

subsection \<open>Connecting\<close>

text \<open>\<open>down\<close> is kept by every attempt: the endpoints refuse and nobody interrupts the thread.\<close>

lemma endpoints_down:
  assumes "\<And>s. down s \<Longrightarrow> down (disconnect_not_locked C s)"
    and "\<And>e s. down s \<Longrightarrow> fst (sk_connect C e s) \<and> down (snd (sk_connect C e s))"
  shows "down s \<Longrightarrow> fst (connect_endpoints C es True s) \<and> down (snd (connect_endpoints C es True s))"
proof (induction es arbitrary: s)
  case (Cons e es)
  obtain s1 where "sk_connect C e (disconnect_not_locked C s) = (True, s1)" "down s1"
    using assms Cons.prems by (metis prod.collapse)
  then show ?case using Cons.IH by simp
qed simp

lemma retry_down:
  assumes disc: "\<And>s. down s \<Longrightarrow> down (disconnect_not_locked C s)"
    and con: "\<And>e s. down s \<Longrightarrow> fst (sk_connect C e s) \<and> down (snd (sk_connect C e s))"
    and sleep: "\<And>s. down s \<Longrightarrow> \<not> fst (sk_sleep C wait s) \<and> down (snd (sk_sleep C wait s))"
    and r: "connect_retry C wait es True s = Some r"
  shows "\<not> down s"
proof -
  have "C = C \<longrightarrow> wait = wait \<longrightarrow> True \<longrightarrow> \<not> down s"
    using r
  proof (rule connect_retry.raw_induct [of "\<lambda>C' wait' es error s r. C' = C \<longrightarrow> wait' = wait \<longrightarrow> error \<longrightarrow> \<not> down s", rotated])
    fix f C' wait' es error s r
    assume IH: "\<And>C' wait' es error s r. f C' wait' es error s = Some r \<Longrightarrow>
        C' = C \<longrightarrow> wait' = wait \<longrightarrow> error \<longrightarrow> \<not> down s"
      and b: "(if \<not> error then Some (True, s)
        else (case sk_sleep C' wait' s of (interrupted, s1) \<Rightarrow>
          if interrupted then Some (False, s1)
          else (case connect_endpoints C' es error s1 of (error', s2) \<Rightarrow> f C' wait' es error' s2))) = Some r"
    show "C' = C \<longrightarrow> wait' = wait \<longrightarrow> error \<longrightarrow> \<not> down s"
    proof (intro impI notI)
      assume e: "C' = C" "wait' = wait" "error" and d: "down s"
      obtain s1 where s1: "sk_sleep C wait s = (False, s1)" "down s1"
        using sleep [OF d] by (cases "sk_sleep C wait s") auto
      obtain s2 where "connect_endpoints C es True s1 = (True, s2)" "down s2"
        using endpoints_down [OF disc con s1(2), of es] by (cases "connect_endpoints C es True s1") auto
      then show False using IH b s1(1) e by auto
    qed
  qed
  then show ?thesis by simp
qed

subsection \<open>Sending on a broken connection\<close>

lemma send_stuck:
  assumes dead: "\<And>s. dead s \<Longrightarrow> sk_is_open C s \<and> fst (sk_write C bufs s) \<and> dead (snd (sk_write C bufs s))"
    and r: "send_to_ts C cs bufs s = Some r"
  shows "\<not> dead s"
proof -
  have "C = C \<longrightarrow> bufs = bufs \<longrightarrow> \<not> dead s"
    using r
  proof (rule send_to_ts.raw_induct [of "\<lambda>C' cs bufs' s r. C' = C \<longrightarrow> bufs' = bufs \<longrightarrow> \<not> dead s", rotated])
    fix f C' cs bufs' s r
    assume IH: "\<And>C' cs bufs' s r. f C' cs bufs' s = Some r \<Longrightarrow> C' = C \<longrightarrow> bufs' = bufs \<longrightarrow> \<not> dead s"
      and b: "(case sk_write C' bufs' s of (ec, s1) \<Rightarrow> if \<not> ec then Some (True, s1)
        else Option.bind (connect_not_locked C' cs s1) (\<lambda>(ok, s2).
          if \<not> ok then Some (False, disconnect_not_locked C' s2)
          else Option.bind (f C' cs bufs' s2) (\<lambda>(ok', s3).
            if ok' then Some (True, s3) else Some (False, disconnect_not_locked C' s3)))) = Some r"
    show "C' = C \<longrightarrow> bufs' = bufs \<longrightarrow> \<not> dead s"
    proof (intro impI notI)
      assume e: "C' = C" "bufs' = bufs" and d: "dead s"
      obtain s1 where w: "sk_write C bufs s = (True, s1)" "dead s1"
        using dead [OF d] by (cases "sk_write C bufs s") auto
      have "connect_not_locked C cs s1 = Some (True, s1)"
        using dead [OF w(2)] by (simp add: connect_not_locked_def connected_def)
      then obtain x where "f C cs bufs s1 = Some x"
        using b w unfolding e by (auto split: Option.bind_splits)
      then show False using IH w(2) by blast
    qed
  qed
  then show ?thesis by simp
qed

subsection \<open>The queue of a trading system and the buffers of a writer\<close>

text \<open>What the writer relies on: the queue is first in, first out, seen through \<open>qa\<close>, and the
  adapter keeps its buffers in order, seen through \<open>ba\<close>, and gives each back once.\<close>

definition fifo_queue :: "(buffer, 'p, 'q) router_ops \<Rightarrow> ('q \<Rightarrow> buffer option list) \<Rightarrow> bool" where
  "fifo_queue X qa \<longleftrightarrow> (\<forall>q. case qa q of
      [] \<Rightarrow> \<not> fst (queue_tryPop X q) \<and> qa (snd (snd (queue_tryPop X q))) = []
    | b # bs \<Rightarrow> (\<exists>q'. queue_tryPop X q = (True, b, q') \<and> qa q' = bs))"

definition buffer_seq :: "(buffer, 'p, 'q) router_ops \<Rightarrow> ('p, 'q, 'm) seq_ops \<Rightarrow> ('m \<Rightarrow> buffer list) \<Rightarrow> bool" where
  "buffer_seq X B ba \<longleftrightarrow>
     (\<forall>x m. ba (bs_push_back B x m) = ba m @ [x]) \<and>
     (\<forall>m. bs_empty B m \<longleftrightarrow> ba m = []) \<and>
     (\<forall>m. bs_connectorBuffers B m = map (\<lambda>b. take (b_offset b) (b_data b)) (ba m)) \<and>
     (\<forall>m r. ba (fst (bs_clear B m r)) = [] \<and>
        snd (bs_clear B m r) = fold (\<lambda>b r. snd (router_delocate X (Some b) r)) (ba m) r)"

definition present :: "'a option list \<Rightarrow> 'a list" where
  "present = List.map_filter id"

lemma present_simps [simp]: "present [] = []" "present (None # xs) = present xs" "present (Some x # xs) = x # present xs"
  by (simp_all add: present_def)

lemma consume_all_fifo:
  assumes X: "fifo_queue X qa" and B: "buffer_seq X B ba"
  shows "\<exists>q m'. consume_all X B r m = Some (r\<lparr>r_queue := q\<rparr>, m') \<and> qa q = [] \<and>
    ba m' = ba m @ present (qa (r_queue r))"
proof (induction "qa (r_queue r)" arbitrary: r m)
  case Nil
  have "\<not> fst (queue_tryPop X (r_queue r)) \<and> qa (snd (snd (queue_tryPop X (r_queue r)))) = []"
    using X Nil by (auto simp: fifo_queue_def dest: spec [of _ "r_queue r"])
  then show ?case using Nil
    by (subst consume_all.simps) (auto simp: router_tryConsume_def split: prod.split)
next
  case (Cons b bs)
  obtain q where q: "queue_tryPop X (r_queue r) = (True, b, q)" "qa q = bs"
  proof -
    have "case qa (r_queue r) of [] \<Rightarrow> \<not> fst (queue_tryPop X (r_queue r)) \<and> qa (snd (snd (queue_tryPop X (r_queue r)))) = []
      | b # bs \<Rightarrow> (\<exists>q'. queue_tryPop X (r_queue r) = (True, b, q') \<and> qa q' = bs)"
      using X unfolding fifo_queue_def by blast
    then show thesis using that unfolding Cons.hyps(2) [symmetric] by auto
  qed
  let ?m = "case b of None \<Rightarrow> m | Some x \<Rightarrow> bs_push_back B x m"
  have "bs = qa (r_queue (r\<lparr>r_queue := q\<rparr>))" using q(2) by simp
  from Cons.hyps(1) [OF this, of ?m] obtain q' m' where
    "consume_all X B (r\<lparr>r_queue := q\<rparr>) ?m = Some (r\<lparr>r_queue := q'\<rparr>, m')" "qa q' = []" "ba m' = ba ?m @ present bs"
    using q(2) by auto
  moreover have "ba ?m @ present bs = ba m @ present (qa (r_queue r))"
    using B Cons.hyps(2) [symmetric] by (simp add: buffer_seq_def split: option.split)
  ultimately show ?case using q(1)
    by (subst consume_all.simps) (auto simp: router_tryConsume_def split: option.splits)
qed

subsection \<open>Properties\<close>

text \<open>
  Connecting never returns while the endpoints refuse and nobody interrupts the thread. An
  interruption makes it throw, with the socket disconnected.
\<close>

theorem connect_never_returns:
  assumes disc: "\<And>s. down s \<Longrightarrow> down (disconnect_not_locked C s)"
    and "\<And>e s. down s \<Longrightarrow> fst (sk_connect C e s) \<and> down (snd (sk_connect C e s))"
    and "\<And>s. down s \<Longrightarrow> \<not> fst (sk_sleep C (connectionInterval cs) s) \<and>
      down (snd (sk_sleep C (connectionInterval cs) s))"
    and "down s" "\<not> sk_is_open C s" "sk_resolve C (address cs) (port cs) = Some es"
  shows "connect_not_locked C cs s = None"
proof -
  obtain s1 where s1: "connect_endpoints C es True s = (True, s1)" "down s1"
    using endpoints_down [of down, OF disc assms(2) assms(4), of es]
    by (cases "connect_endpoints C es True s") auto
  have "connect_retry C (connectionInterval cs) es True s1 = None"
    using retry_down [of down, OF disc assms(2,3)] s1(2) by (metis option.exhaust)
  then show ?thesis using assms(5,6) s1(1) by (simp add: connect_not_locked_def connected_def)
qed

theorem connect_interrupted:
  assumes "\<not> sk_is_open C s" "sk_resolve C (address cs) (port cs) = Some es"
    and "connect_endpoints C es True s = (True, s1)" "sk_sleep C (connectionInterval cs) s1 = (True, s2)"
  shows "connect_not_locked C cs s = Some (False, disconnect_not_locked C s2)"
  using assms by (simp add: connect_not_locked_def connected_def connect_retry.simps)

text \<open>
  A write error leaves the socket open, and connecting an open socket does nothing:
  while the peer is gone, sending never returns and never tries to connect again.
\<close>

theorem send_on_broken_connection_hangs:
  assumes "\<And>s. dead s \<Longrightarrow> sk_is_open C s \<and> fst (sk_write C bufs s) \<and> dead (snd (sk_write C bufs s))"
    and "dead s"
  shows "send_to_ts C cs bufs s = None"
proof (rule ccontr)
  assume "send_to_ts C cs bufs s \<noteq> None"
  then obtain r where "send_to_ts C cs bufs s = Some r" by blast
  from send_stuck [OF assms(1) this] show False using assms(2) by blast
qed

text \<open>A socket over a list of delivered writes, for the examples: \<open>(open, peer alive, delivered)\<close>.\<close>

definition sample_socket :: "(unit, bool \<times> bool \<times> u8 list) sock_ops" where
  "sample_socket = \<lparr>sk_is_open = fst, sk_resolve = (\<lambda>_ _. Some [()]),
     sk_connect = (\<lambda>_ (op, alive, out). (\<not> alive, alive, alive, out)),
     sk_shutdown_send = (\<lambda>s. s), sk_shutdown_receive = (\<lambda>s. s),
     sk_close = (\<lambda>(op, alive, out). (False, alive, out)), sk_sleep = (\<lambda>_ s. (False, s)), sk_set_option = (\<lambda>_ _ s. s),
     sk_write = (\<lambda>bs (op, alive, out). if op \<and> alive then (False, op, alive, out @ concat bs) else (True, op, alive, out)),
     sk_read = (\<lambda>n (op, alive, out). if op \<and> alive \<and> n \<le> length out then (False, take n out, op, alive, drop n out)
       else (True, [], op, alive, out))\<rparr>"

theorem send_on_broken_connection_hangs_witness:
  "send_to_ts sample_socket (ConnectSettings sample_defaults ''h'' ''p'') [[1, 2]] (True, False, []) = None"
  by (rule send_on_broken_connection_hangs [of "\<lambda>(op, alive, out). op \<and> \<not> alive"])
    (auto simp: sample_socket_def)


text \<open>
  One round of the writer drains the queue, sends what was queued, with anything an
  earlier failed round left over, in order and in one write, and gives every buffer back to the
  pool; when sending throws, it keeps the buffers for the next round instead.
\<close>

theorem writer_round_sends:
  assumes X: "fifo_queue X qa" and B: "buffer_seq X B ba"
    and out: "out = ba m @ present (qa (r_queue r))" "out \<noteq> []"
    and sent: "send_to_ts C cs (map (\<lambda>b. take (b_offset b) (b_data b)) out) s = Some (ok, s1)"
  shows "\<exists>r1 m1. writer_round X B C cs r m s = Some (ok, r1, m1, s1) \<and> qa (r_queue r1) = [] \<and>
    (if ok then ba m1 = [] \<and> r_pool r1 = fold (\<lambda>b p. snd (pool_delocate X (Some b) p)) out (r_pool r)
     else ba m1 = out \<and> r_pool r1 = r_pool r)"
proof -
  obtain q m' where c: "consume_all X B r m = Some (r\<lparr>r_queue := q\<rparr>, m')" "qa q = []" "ba m' = out"
    using consume_all_fifo [OF X B, of r m] out(1) by auto
  have ne: "\<not> bs_empty B m'" and bufs: "bs_connectorBuffers B m' = map (\<lambda>b. take (b_offset b) (b_data b)) out"
    using B c(3) out(2) by (simp_all add: buffer_seq_def)
  have w: "writer_consume X B r m = Some (True, r\<lparr>r_queue := q\<rparr>, m')"
    using c ne by (simp add: writer_consume_def consumeNonBloking_def)
  have clear: "ba (fst (bs_clear B m' r')) = [] \<and>
      snd (bs_clear B m' r') = fold (\<lambda>b r. snd (router_delocate X (Some b) r)) out r'" for r'
    using B c(3) by (simp add: buffer_seq_def)
  have fold: "r_pool (fold (\<lambda>b r. snd (router_delocate X (Some b) r)) bs r') =
        fold (\<lambda>b p. snd (pool_delocate X (Some b) p)) bs (r_pool r') \<and>
      r_queue (fold (\<lambda>b r. snd (router_delocate X (Some b) r)) bs r') = r_queue r'" for bs r'
    by (induction bs arbitrary: r') (simp_all add: router_delocate_def split: prod.split)
  show ?thesis
  proof (cases ok)
    case True
    then show ?thesis using w sent bufs clear [of "r\<lparr>r_queue := q\<rparr>"] fold [of out "r\<lparr>r_queue := q\<rparr>"] c(2)
      by (auto simp: writer_round_def split: prod.split)
  next
    case False
    then show ?thesis using w sent bufs c(2,3) by (simp add: writer_round_def)
  qed
qed

definition sample_seq :: "(nat, buffer option list, buffer list) seq_ops" where
  "sample_seq = \<lparr>bs_push_back = (\<lambda>x m. m @ [x]), bs_empty = (\<lambda>m. m = []),
     bs_connectorBuffers = map (\<lambda>b. take (b_offset b) (b_data b)),
     bs_clear = (\<lambda>m r. ([], fold (\<lambda>b r. snd (router_delocate sample_ops (Some b) r)) m r))\<rparr>"

theorem writer_round_sends_witness:
  "\<exists>r1 m1. writer_round sample_ops sample_seq sample_socket (ConnectSettings sample_defaults ''h'' ''p'')
      \<lparr>r_id = 7, r_init_size = 1, r_mlp = 1, r_queue = [Some \<lparr>b_data = [1, 2, 3], b_offset = 2\<rparr>, None], r_pool = 0\<rparr> []
      (True, True, []) = Some (True, r1, m1, (True, True, [1, 2])) \<and> r_pool r1 = 1"
proof -
  let ?b = "\<lparr>b_data = [1, 2, 3], b_offset = 2\<rparr>"
  let ?r = "\<lparr>r_id = (7 :: u32), r_init_size = 1 :: nat, r_mlp = 1 :: nat, r_queue = [Some ?b, None], r_pool = 0 :: nat\<rparr>"
  have X: "fifo_queue sample_ops (\<lambda>q. q)"
    by (auto simp: fifo_queue_def sample_ops_def split: list.split)
  have B: "buffer_seq sample_ops sample_seq (\<lambda>m. m)" by (simp add: buffer_seq_def sample_seq_def)
  have out: "[?b] = [] @ present (r_queue ?r)" by simp
  have sent: "send_to_ts sample_socket (ConnectSettings sample_defaults ''h'' ''p'')
      (map (\<lambda>b. take (b_offset b) (b_data b)) [?b]) (True, True, []) = Some (True, (True, True, [1, 2]))"
    by (subst send_to_ts.simps) (simp add: sample_socket_def)
  show ?thesis using writer_round_sends [OF X B out _ sent] by (auto simp: sample_ops_def)
qed

text \<open>
  The reader trusts the length in the header: a message that fits the memory of its
  buffer is loaded exactly, and the next read starts behind it; a longer one is written beyond
  the end of the buffer.
\<close>

theorem reader_loads_or_overruns:
  assumes E: "espd_ok E" and len: "bodyLength h = word_of_nat (length body)" "length body < 2 ^ 16"
    and b: "HDR \<le> length (b_data b)"
    and r: "sk_read C HDR s = (False, header_bytes E h, s1)" "sk_read C (length body) s1 = (False, body, s2)"
  shows "\<exists>rest. loadMsg E C cs b s =
    (if HDR + length body \<le> length (b_data b)
     then Some (Loaded \<lparr>b_data = header_bytes E h @ body @ rest, b_offset = HDR + length body\<rparr>, s2)
     else Some (Overrun, s2))"
proof -
  have l: "length (header_bytes E h) = HDR" by (rule length_header_bytes [OF E])
  let ?m1 = "header_bytes E h @ drop HDR (b_data b)"
  have m1: "write_at 0 (header_bytes E h) (b_data b) = Some ?m1" using b l by (simp add: write_at_def)
  have n: "unat (get_length E ?m1) = length body"
    using header_reads(3) [OF E] len by (simp add: unat_of_nat_small)
  have r': "receive_from_ts C cs HDR s = Some (Some (header_bytes E h), s1)"
    "receive_from_ts C cs (length body) s1 = Some (Some body, s2)"
    using r by (subst receive_from_ts.simps, simp)+
  show ?thesis
    using m1 n r' l b
    by (auto simp: loadMsg_def Let_def write_at_def)
qed

theorem reader_loads_or_overruns_witness:
  "\<exists>s2. loadMsg big_endian sample_socket (ConnectSettings sample_defaults ''h'' ''p'') \<lparr>b_data = replicate 20 0, b_offset = 0\<rparr>
     (True, True, header_bytes big_endian (msg_header_new 1 2 3 4 6) @ [1, 2, 3, 4, 5, 6]) = Some (Overrun, s2)"
proof -
  let ?h = "msg_header_new 1 2 3 4 6"
  have l: "length (header_bytes big_endian ?h) = HDR" by (rule length_header_bytes [OF big_endian_ok])
  have r: "sk_read sample_socket HDR (True, True, header_bytes big_endian ?h @ [1, 2, 3, 4, 5, 6]) =
      (False, header_bytes big_endian ?h, (True, True, [1, 2, 3, 4, 5, 6]))"
    "sk_read sample_socket (length [1, 2, 3, 4, 5, 6 :: u8]) (True, True, [1, 2, 3, 4, 5, 6]) =
      (False, [1, 2, 3, 4, 5, 6], (True, True, []))"
    using l by (simp_all add: sample_socket_def)
  have len: "bodyLength ?h = word_of_nat (length [1, 2, 3, 4, 5, 6 :: u8])" "length [1, 2, 3, 4, 5, 6 :: u8] < 2 ^ 16"
    by (simp_all add: msg_header_new_def)
  have b: "HDR \<le> length (b_data \<lparr>b_data = replicate 20 0, b_offset = 0\<rparr>)" by (simp add: HDR_def)
  from reader_loads_or_overruns [OF big_endian_ok len b r] show ?thesis by (auto simp: HDR_def)
qed

text \<open>
  A FIX message changes nothing outside its session: the converters of the other
  sessions, the routers of the other trading systems and the sessions stay as they were,
  whether it is sent or an exception is reported.
\<close>

theorem session_isolation:
  assumes "onMessage W X kind msg sid True Y = (res, Y')"
    and "sessions (sys_sessions Y) sid = Some si" "si_logon si = Some info"
  shows "sys_sessions Y' = sys_sessions Y \<and> res \<noteq> Terminated \<and>
    (\<forall>k. k \<noteq> sid \<longrightarrow> sys_requests Y' k = sys_requests Y k) \<and>
    (\<forall>i. i \<noteq> tsId info \<longrightarrow> sys_routers Y' i = sys_routers Y i)"
proof -
  have alloc: "R1 i = R i" if "routers_allocate X (tsId info) R = (ok, b, R1)" "i \<noteq> tsId info" for ok b R R1 i
    using that by (auto simp: routers_allocate_def split: option.splits prod.splits)
  have send: "R1 i = R i" if "sendEspdMsg X b (tsId info) R = (ok, R1)" "i \<noteq> tsId info" for ok b R R1 i
    using that by (auto simp: sendEspdMsg_def routers_produce_def split: option.splits if_splits)
  have man: "R1 i = R i" if "manage_request W X kind msg T R = (r, T1, R1)" "tt_info T = si" "i \<noteq> tsId info" for T R r T1 R1 i
    using that assms(3)
    by (auto simp: manage_request_def split: option.splits prod.splits if_splits sum.splits
        dest!: alloc [OF _ that(3)] send [OF _ that(3)])
  show ?thesis
  proof (cases "sys_requests Y sid")
    case None
    then show ?thesis using assms(1)
      by (auto simp: onMessage_def catch_all_def manage_message_def getTSRequestManager_def)
  next
    case (Some T)
    obtain r T1 R1 where m: "manage_request W X kind msg (T\<lparr>tt_info := si\<rparr>) (sys_routers Y) = (r, T1, R1)"
      by (cases "manage_request W X kind msg (T\<lparr>tt_info := si\<rparr>) (sys_routers Y)")
    have "Y' = Y\<lparr>sys_requests := (sys_requests Y)(sid \<mapsto> T1), sys_routers := R1\<rparr>" "res \<noteq> Terminated"
      using assms(1,2) Some m
      by (auto simp: onMessage_def catch_all_def manage_message_def getTSRequestManager_def split: sum.splits)
    then show ?thesis using man [OF m] by simp
  qed
qed

theorem session_isolation_witness:
  "\<exists>res Y'. onMessage sample_world sample_ops NewOrderSingle sample_order sample_sid True
      \<lparr>sys_sessions = sample_sessions, sys_requests = TSRequestsManager sample_sessions, sys_routers = sample_routers\<rparr> = (res, Y') \<and>
    sys_routers Y' 8 = sample_routers 8"
proof -
  let ?Y = "\<lparr>sys_sessions = sample_sessions, sys_requests = TSRequestsManager sample_sessions, sys_routers = sample_routers\<rparr>"
  obtain res Y' where m: "onMessage sample_world sample_ops NewOrderSingle sample_order sample_sid True ?Y = (res, Y')"
    by (cases "onMessage sample_world sample_ops NewOrderSingle sample_order sample_sid True ?Y")
  have s: "sessions (sys_sessions ?Y) sample_sid = Some \<lparr>si_id = sample_sid, si_dict = Map.empty, si_logon = Some sample_logon\<rparr>"
    "si_logon \<lparr>si_id = sample_sid, si_dict = Map.empty, si_logon = Some sample_logon\<rparr> = Some sample_logon"
    by (simp_all add: sample_sessions_def)
  have "(8 :: u32) \<noteq> tsId sample_logon" by (simp add: sample_logon_def)
  then show ?thesis using m session_isolation [OF m s] by auto
qed

end
