(* ===== verification/Cpp_Text.thy ===== *)
theory Cpp_Text
  imports Main
begin

text \<open>
  The parts of the C++ standard library on strings and numbers that the calendar and the
  text message parser use (\<open>std::to_string\<close>, \<open>std::stoi\<close>), and the
  sequencing of computations that may throw.
\<close>

subsection \<open>Computations that may throw\<close>

definition er_bind :: "'e + 'a \<Rightarrow> ('a \<Rightarrow> 'e + 'b) \<Rightarrow> 'e + 'b" where
  "er_bind m f = (case m of Inl e \<Rightarrow> Inl e | Inr x \<Rightarrow> f x)"

lemma er_bind_simps [simp]:
  "er_bind (Inl e) f = Inl e"
  "er_bind (Inr x) f = f x"
  by (simp_all add: er_bind_def)

lemma er_bind_assoc: "er_bind (er_bind m f) g = er_bind m (\<lambda>x. er_bind (f x) g)"
  by (cases m) simp_all

lemma er_bind_Inr_iff: "er_bind m f = Inr y \<longleftrightarrow> (\<exists>x. m = Inr x \<and> f x = Inr y)"
  by (cases m) simp_all

subsection \<open>Decimal numerals\<close>

definition digit_char :: "nat \<Rightarrow> char" where
  "digit_char k = char_of (48 + k)"

definition is_digit :: "char \<Rightarrow> bool" where
  "is_digit c = (48 \<le> (of_char c :: nat) \<and> (of_char c :: nat) \<le> 57)"

definition digit_val :: "char \<Rightarrow> nat" where
  "digit_val c = of_char c - 48"

text \<open>\<open>std::to_string\<close> of an unsigned number.\<close>

fun to_string :: "nat \<Rightarrow> string" where
  "to_string n = (if n < 10 then [digit_char n] else to_string (n div 10) @ [digit_char (n mod 10)])"

declare to_string.simps [simp del]

definition digits_val :: "string \<Rightarrow> nat" where
  "digits_val s = foldl (\<lambda>v c. 10 * v + digit_val c) 0 s"

lemma of_char_digit: "k < 10 \<Longrightarrow> (of_char (digit_char k) :: nat) = 48 + k"
  by (simp add: digit_char_def of_char_of take_bit_nat_def)

lemma digit_char_facts:
  assumes "k < 10"
  shows "is_digit (digit_char k)" "digit_val (digit_char k) = k"
  using assms by (simp_all add: is_digit_def digit_val_def of_char_digit)

lemma to_string_digits: "c \<in> set (to_string n) \<Longrightarrow> is_digit c"
proof (induction n rule: to_string.induct)
  case (1 n)
  then show ?case
    by (subst (asm) to_string.simps [of n]) (auto simp: digit_char_facts split: if_splits)
qed

lemma to_string_nonempty: "to_string n \<noteq> []"
  by (subst to_string.simps) simp

lemma digits_val_to_string: "digits_val (to_string n) = n"
proof (induction n rule: to_string.induct)
  case (1 n)
  show ?case
  proof (cases "n < 10")
    case True
    then show ?thesis by (subst to_string.simps) (simp add: digits_val_def digit_char_facts)
  next
    case False
    with 1 have "digits_val (to_string (n div 10)) = n div 10" by simp
    then show ?thesis using False
      by (subst to_string.simps) (simp add: digits_val_def digit_char_facts)
  qed
qed

subsection \<open>std::stoi\<close>

datatype stoi_error = Invalid_argument | Out_of_range

definition is_space :: "char \<Rightarrow> bool" where
  "is_space c = ((of_char c :: nat) = 32 \<or> 9 \<le> (of_char c :: nat) \<and> (of_char c :: nat) \<le> 13)"

text \<open>
  White space is skipped, a sign is read, then the longest run of digits; what follows is
  ignored. No digits and values outside of \<open>int\<close> are errors.
\<close>

definition stoi :: "string \<Rightarrow> stoi_error + int" where
  "stoi s =
     (let s1 = dropWhile is_space s;
          (sign, s2) = (case s1 of [] \<Rightarrow> (1, []) | c # cs \<Rightarrow>
             if c = CHR ''-'' then (- 1, cs) else if c = CHR ''+'' then (1, cs) else (1, s1));
          ds = takeWhile is_digit s2; v = sign * int (digits_val ds)
      in if ds = [] then Inl Invalid_argument
         else if v < - (2 ^ 31) \<or> 2 ^ 31 \<le> v then Inl Out_of_range else Inr v)"

lemma digit_not_space_sign: "is_digit c \<Longrightarrow> \<not> is_space c \<and> c \<noteq> CHR ''-'' \<and> c \<noteq> CHR ''+''"
  by (auto simp: is_digit_def is_space_def)

lemma stoi_to_string:
  assumes "n < 2 ^ 31"
  shows "stoi (to_string n) = Inr (int n)"
proof -
  obtain c cs where s: "to_string n = c # cs" using to_string_nonempty by (metis neq_Nil_conv)
  have dg: "\<forall>x \<in> set (c # cs). is_digit x" using to_string_digits [of _ n] s by metis
  have tw: "takeWhile is_digit (c # cs) = c # cs" using dg by (simp add: takeWhile_eq_all_conv)
  have c: "\<not> is_space c" "c \<noteq> CHR ''-''" "c \<noteq> CHR ''+''"
    using dg digit_not_space_sign [of c] by auto
  have v: "digits_val (c # cs) = n" using digits_val_to_string [of n] s by simp
  show ?thesis
    using assms unfolding stoi_def s by (simp add: c tw v del: takeWhile.simps)
qed

text \<open>The conversion of an \<open>int\<close> to \<open>unsigned\<close>.\<close>

definition to_unsigned :: "int \<Rightarrow> nat" where
  "to_unsigned v = nat (v mod 2 ^ 32)"

lemma to_unsigned_small: "n < 2 ^ 32 \<Longrightarrow> to_unsigned (int n) = n"
  by (simp add: to_unsigned_def)

end
