(* ===== verification/Calendar.thy ===== *)
theory Calendar
  imports Cpp_Text
begin

text \<open>
  The calendar rules of \<open>diff/GregorianCalendar2.cpp\<close>: for a period (week, half
  month, month, quarter, year) and a position in it (its beginning or its end), the first
  date on the rule from a given date on, and the date on the rule that follows one. Dates
  enter and leave the functions as numbers written year, month, day (20200421). The class of
  dates and its operations are those of Boost.DateTime, which is not in the repository: they
  are a record of functions, whose documented behaviour is the contract
  \<open>gregorian_contract\<close>.
\<close>

subsection \<open>Rules and the interface to Boost.DateTime\<close>

datatype TimeDuration = DAY | WEEK | BI_MONTH | MONTH | QUARTER | YEAR

datatype TimePositin = BEGIN | END

datatype calendar_error = Gregorian_error | Stoi_error stoi_error | Runtime_error string

record 'd gregorian =
  g_from_undelimited_string :: "string \<Rightarrow> 'd option"
  g_to_iso_string :: "'d \<Rightarrow> string option"
  g_year :: "'d \<Rightarrow> nat"
  g_month :: "'d \<Rightarrow> nat"
  g_day :: "'d \<Rightarrow> nat"
  g_day_of_week :: "'d \<Rightarrow> nat"
  g_plus_days :: "'d \<Rightarrow> nat \<Rightarrow> 'd option"
  g_plus_years :: "'d \<Rightarrow> nat \<Rightarrow> 'd option"
  g_end_of_month :: "'d \<Rightarrow> 'd option"
  g_first_day_of_the_week_after :: "nat \<Rightarrow> 'd \<Rightarrow> 'd option"
  g_date :: "nat \<Rightarrow> nat \<Rightarrow> nat \<Rightarrow> 'd option"

definition g_lift :: "'a option \<Rightarrow> calendar_error + 'a" where
  "g_lift x = (case x of None \<Rightarrow> Inl Gregorian_error | Some d \<Rightarrow> Inr d)"

text \<open>
  Every function begins with \<open>from_undelimited_string(std::to_string(fromDate_))\<close>
  and ends with \<open>std::stoi(to_iso_string(d))\<close>.
\<close>

definition parse_date :: "'d gregorian \<Rightarrow> nat \<Rightarrow> calendar_error + 'd" where
  "parse_date G n = g_lift (g_from_undelimited_string G (to_string n))"

definition print_date :: "'d gregorian \<Rightarrow> 'd \<Rightarrow> calendar_error + nat" where
  "print_date G d =
     er_bind (g_lift (g_to_iso_string G d))
       (\<lambda>s. case stoi s of Inl e \<Rightarrow> Inl (Stoi_error e) | Inr v \<Rightarrow> Inr (to_unsigned v))"

subsection \<open>Weeks\<close>

definition firstCalendarDate_WEEK_BEGIN :: "'d gregorian \<Rightarrow> nat \<Rightarrow> calendar_error + nat" where
  "firstCalendarDate_WEEK_BEGIN G fromDate =
     er_bind (parse_date G fromDate) (\<lambda>d.
       if g_day_of_week G d = 1 then print_date G d
       else er_bind (g_lift (g_first_day_of_the_week_after G 1 d)) (print_date G))"

definition nextCalendarDate_WEEK_BEGIN :: "'d gregorian \<Rightarrow> nat \<Rightarrow> calendar_error + nat" where
  "nextCalendarDate_WEEK_BEGIN G fromDate =
     er_bind (parse_date G fromDate) (\<lambda>d.
       er_bind (g_lift (g_plus_days G d 7)) (print_date G))"

definition firstCalendarDate_WEEK_END :: "'d gregorian \<Rightarrow> nat \<Rightarrow> calendar_error + nat" where
  "firstCalendarDate_WEEK_END G fromDate =
     er_bind (parse_date G fromDate) (\<lambda>d.
       if g_day_of_week G d = 5 then print_date G d
       else er_bind (g_lift (g_first_day_of_the_week_after G 5 d)) (print_date G))"

definition nextCalendarDate_WEEK_END :: "'d gregorian \<Rightarrow> nat \<Rightarrow> calendar_error + nat" where
  "nextCalendarDate_WEEK_END G fromDate =
     er_bind (parse_date G fromDate) (\<lambda>d.
       er_bind (g_lift (g_plus_days G d 7)) (print_date G))"

subsection \<open>Half months\<close>

definition firstCalendarDate_BI_MONTH_BEGIN :: "'d gregorian \<Rightarrow> nat \<Rightarrow> calendar_error + nat" where
  "firstCalendarDate_BI_MONTH_BEGIN G fromDate =
     er_bind (parse_date G fromDate) (\<lambda>d.
       let cday = g_day G d in
       if cday = 1 \<or> cday = 15 then Inr fromDate
       else if cday < 15 then er_bind (g_lift (g_plus_days G d (15 - cday))) (print_date G)
       else er_bind (g_lift (g_end_of_month G d)) (\<lambda>d1.
         er_bind (g_lift (g_plus_days G d1 1)) (print_date G)))"

definition nextCalendarDate_BI_MONTH_BEGIN :: "'d gregorian \<Rightarrow> nat \<Rightarrow> calendar_error + nat" where
  "nextCalendarDate_BI_MONTH_BEGIN G fromDate =
     er_bind (parse_date G fromDate) (\<lambda>d.
       if g_day G d = 1 then er_bind (g_lift (g_plus_days G d 14)) (print_date G)
       else er_bind (g_lift (g_end_of_month G d)) (\<lambda>d1.
         er_bind (g_lift (g_plus_days G d1 1)) (print_date G)))"

definition firstCalendarDate_BI_MONTH_END :: "'d gregorian \<Rightarrow> nat \<Rightarrow> calendar_error + nat" where
  "firstCalendarDate_BI_MONTH_END G fromDate =
     er_bind (parse_date G fromDate) (\<lambda>d.
       er_bind (g_lift (g_end_of_month G d)) (\<lambda>e.
         let cday = g_day G d; lday = g_day G e in
         if cday = 15 \<or> cday = lday then Inr fromDate
         else if cday < 15 then er_bind (g_lift (g_plus_days G d (15 - cday))) (print_date G)
         else er_bind (g_lift (g_end_of_month G d)) (print_date G)))"

definition nextCalendarDate_BI_MONTH_END :: "'d gregorian \<Rightarrow> nat \<Rightarrow> calendar_error + nat" where
  "nextCalendarDate_BI_MONTH_END G fromDate =
     er_bind (parse_date G fromDate) (\<lambda>d.
       if g_day G d = 15 then er_bind (g_lift (g_end_of_month G d)) (print_date G)
       else er_bind (g_lift (g_plus_days G d 15)) (print_date G))"

subsection \<open>Months\<close>

definition firstCalendarDate_MONTH_BEGIN :: "'d gregorian \<Rightarrow> nat \<Rightarrow> calendar_error + nat" where
  "firstCalendarDate_MONTH_BEGIN G fromDate =
     er_bind (parse_date G fromDate) (\<lambda>d.
       if g_day G d = 1 then print_date G d
       else er_bind (g_lift (g_end_of_month G d)) (\<lambda>d1.
         er_bind (g_lift (g_plus_days G d1 1)) (print_date G)))"

definition nextCalendarDate_MONTH_BEGIN :: "'d gregorian \<Rightarrow> nat \<Rightarrow> calendar_error + nat" where
  "nextCalendarDate_MONTH_BEGIN G fromDate =
     er_bind (parse_date G fromDate) (\<lambda>d.
       er_bind (g_lift (g_end_of_month G d)) (\<lambda>d1.
         er_bind (g_lift (g_plus_days G d1 1)) (print_date G)))"

definition firstCalendarDate_MONTH_END :: "'d gregorian \<Rightarrow> nat \<Rightarrow> calendar_error + nat" where
  "firstCalendarDate_MONTH_END G fromDate =
     er_bind (parse_date G fromDate) (\<lambda>d.
       er_bind (g_lift (g_end_of_month G d)) (print_date G))"

definition nextCalendarDate_MONTH_END :: "'d gregorian \<Rightarrow> nat \<Rightarrow> calendar_error + nat" where
  "nextCalendarDate_MONTH_END G fromDate =
     er_bind (parse_date G fromDate) (\<lambda>d.
       er_bind (g_lift (g_end_of_month G d)) (\<lambda>d1.
         er_bind (g_lift (g_plus_days G d1 1)) (\<lambda>d2.
           er_bind (g_lift (g_end_of_month G d2)) (print_date G))))"

subsection \<open>Quarters\<close>

definition isQuarterBegin :: "'d gregorian \<Rightarrow> nat \<Rightarrow> calendar_error + bool" where
  "isQuarterBegin G dt =
     er_bind (parse_date G dt) (\<lambda>d. Inr (g_day G d = 1 \<and>
       (g_month G d = 1 \<or> g_month G d = 4 \<or> g_month G d = 7 \<or> g_month G d = 10)))"

definition isQuarterEnd :: "'d gregorian \<Rightarrow> nat \<Rightarrow> calendar_error + bool" where
  "isQuarterEnd G dt =
     er_bind (parse_date G dt) (\<lambda>d. er_bind (g_lift (g_end_of_month G d)) (\<lambda>e. Inr (d = e \<and>
       (g_month G d = 3 \<or> g_month G d = 6 \<or> g_month G d = 9 \<or> g_month G d = 12))))"

text \<open>
  The loop \<open>for (int i = 0; i < 4; ++i)\<close> of the four quarter functions; the number
  is that of the rounds left.
\<close>

fun quarter_loop ::
  "(nat \<Rightarrow> calendar_error + bool) \<Rightarrow> (nat \<Rightarrow> calendar_error + nat) \<Rightarrow> nat \<Rightarrow> nat \<Rightarrow> calendar_error + nat"
where
  "quarter_loop stop month 0 date = Inr date"
| "quarter_loop stop month (Suc r) date =
     er_bind (stop date) (\<lambda>b.
       if b then Inr date
       else if r = 0 then Inl (Runtime_error ''Codding error in getting CalendarDate '')
       else er_bind (month date) (quarter_loop stop month r))"

definition firstCalendarDate_QUARTER_BEGIN :: "'d gregorian \<Rightarrow> nat \<Rightarrow> calendar_error + nat" where
  "firstCalendarDate_QUARTER_BEGIN G fromDate =
     er_bind (firstCalendarDate_MONTH_BEGIN G fromDate)
       (quarter_loop (isQuarterBegin G) (nextCalendarDate_MONTH_BEGIN G) 4)"

definition nextCalendarDate_QUARTER_BEGIN :: "'d gregorian \<Rightarrow> nat \<Rightarrow> calendar_error + nat" where
  "nextCalendarDate_QUARTER_BEGIN G fromDate =
     er_bind (nextCalendarDate_MONTH_BEGIN G fromDate)
       (quarter_loop (isQuarterBegin G) (nextCalendarDate_MONTH_BEGIN G) 4)"

definition firstCalendarDate_QUARTER_END :: "'d gregorian \<Rightarrow> nat \<Rightarrow> calendar_error + nat" where
  "firstCalendarDate_QUARTER_END G fromDate =
     er_bind (firstCalendarDate_MONTH_END G fromDate)
       (quarter_loop (isQuarterEnd G) (nextCalendarDate_MONTH_END G) 4)"

definition nextCalendarDate_QUARTER_END :: "'d gregorian \<Rightarrow> nat \<Rightarrow> calendar_error + nat" where
  "nextCalendarDate_QUARTER_END G fromDate =
     er_bind (nextCalendarDate_MONTH_END G fromDate)
       (quarter_loop (isQuarterEnd G) (nextCalendarDate_MONTH_END G) 4)"

subsection \<open>Years\<close>

definition firstCalendarDate_YEAR_BEGIN :: "'d gregorian \<Rightarrow> nat \<Rightarrow> calendar_error + nat" where
  "firstCalendarDate_YEAR_BEGIN G fromDate =
     er_bind (parse_date G fromDate) (\<lambda>d.
       if g_day G d = 1 \<and> g_month G d = 1 then print_date G d
       else er_bind (g_lift (g_date G (g_year G d) 1 1)) (\<lambda>thisYearBegin.
         er_bind (g_lift (g_plus_years G thisYearBegin 1)) (print_date G)))"

definition nextCalendarDate_YEAR_BEGIN :: "'d gregorian \<Rightarrow> nat \<Rightarrow> calendar_error + nat" where
  "nextCalendarDate_YEAR_BEGIN G fromDate =
     er_bind (parse_date G fromDate) (\<lambda>d.
       er_bind (g_lift (g_plus_years G d 1)) (print_date G))"

definition firstCalendarDate_YEAR_END :: "'d gregorian \<Rightarrow> nat \<Rightarrow> calendar_error + nat" where
  "firstCalendarDate_YEAR_END G fromDate =
     er_bind (parse_date G fromDate) (\<lambda>d.
       er_bind (g_lift (g_date G (g_year G d) 12 31)) (print_date G))"

definition nextCalendarDate_YEAR_END :: "'d gregorian \<Rightarrow> nat \<Rightarrow> calendar_error + nat" where
  "nextCalendarDate_YEAR_END G fromDate =
     er_bind (parse_date G fromDate) (\<lambda>d.
       er_bind (g_lift (g_date G (g_year G d) 12 31)) (\<lambda>thisYearEnd.
         er_bind (g_lift (g_plus_years G thisYearEnd 1)) (print_date G)))"

text \<open>The overloads, by rule; none takes the duration \<open>DAY\<close>.\<close>

fun firstCalendarDate ::
  "'d gregorian \<Rightarrow> TimeDuration \<Rightarrow> TimePositin \<Rightarrow> (nat \<Rightarrow> calendar_error + nat) option"
where
  "firstCalendarDate G DAY p = None"
| "firstCalendarDate G WEEK BEGIN = Some (firstCalendarDate_WEEK_BEGIN G)"
| "firstCalendarDate G WEEK END = Some (firstCalendarDate_WEEK_END G)"
| "firstCalendarDate G BI_MONTH BEGIN = Some (firstCalendarDate_BI_MONTH_BEGIN G)"
| "firstCalendarDate G BI_MONTH END = Some (firstCalendarDate_BI_MONTH_END G)"
| "firstCalendarDate G MONTH BEGIN = Some (firstCalendarDate_MONTH_BEGIN G)"
| "firstCalendarDate G MONTH END = Some (firstCalendarDate_MONTH_END G)"
| "firstCalendarDate G QUARTER BEGIN = Some (firstCalendarDate_QUARTER_BEGIN G)"
| "firstCalendarDate G QUARTER END = Some (firstCalendarDate_QUARTER_END G)"
| "firstCalendarDate G YEAR BEGIN = Some (firstCalendarDate_YEAR_BEGIN G)"
| "firstCalendarDate G YEAR END = Some (firstCalendarDate_YEAR_END G)"

fun nextCalendarDate ::
  "'d gregorian \<Rightarrow> TimeDuration \<Rightarrow> TimePositin \<Rightarrow> (nat \<Rightarrow> calendar_error + nat) option"
where
  "nextCalendarDate G DAY p = None"
| "nextCalendarDate G WEEK BEGIN = Some (nextCalendarDate_WEEK_BEGIN G)"
| "nextCalendarDate G WEEK END = Some (nextCalendarDate_WEEK_END G)"
| "nextCalendarDate G BI_MONTH BEGIN = Some (nextCalendarDate_BI_MONTH_BEGIN G)"
| "nextCalendarDate G BI_MONTH END = Some (nextCalendarDate_BI_MONTH_END G)"
| "nextCalendarDate G MONTH BEGIN = Some (nextCalendarDate_MONTH_BEGIN G)"
| "nextCalendarDate G MONTH END = Some (nextCalendarDate_MONTH_END G)"
| "nextCalendarDate G QUARTER BEGIN = Some (nextCalendarDate_QUARTER_BEGIN G)"
| "nextCalendarDate G QUARTER END = Some (nextCalendarDate_QUARTER_END G)"
| "nextCalendarDate G YEAR BEGIN = Some (nextCalendarDate_YEAR_BEGIN G)"
| "nextCalendarDate G YEAR END = Some (nextCalendarDate_YEAR_END G)"

end
