(* ===== verification/Calendar_Dates.thy ===== *)
theory Calendar_Dates
  imports Calendar
begin

text \<open>
  Dates of the Gregorian calendar as triples of year, month and day: validity, the day after
  a date, the numbers the code writes dates as and their order, and which dates are on a
  rule. The last section has facts on the earliest date on a rule, proved on triples alone.
\<close>

type_synonym date = "nat \<times> nat \<times> nat"

definition leap_year :: "nat \<Rightarrow> bool" where
  "leap_year y = (4 dvd y \<and> (\<not> 100 dvd y \<or> 400 dvd y))"

definition days_in_month :: "nat \<Rightarrow> nat \<Rightarrow> nat" where
  "days_in_month y m =
     (if m = 2 then if leap_year y then 29 else 28
      else if m = 4 \<or> m = 6 \<or> m = 9 \<or> m = 11 then 30 else 31)"

text \<open>The range of years is that of Boost.DateTime.\<close>

fun valid_date :: "date \<Rightarrow> bool" where
  "valid_date (y, m, d) =
     (1400 \<le> y \<and> y \<le> 9999 \<and> 1 \<le> m \<and> m \<le> 12 \<and> 1 \<le> d \<and> d \<le> days_in_month y m)"

fun date_num :: "date \<Rightarrow> nat" where
  "date_num (y, m, d) = 10000 * y + 100 * m + d"

fun next_month :: "nat \<Rightarrow> nat \<Rightarrow> nat \<times> nat" where
  "next_month y m = (if m < 12 then (y, m + 1) else (y + 1, 1))"

fun next_day :: "date \<Rightarrow> date" where
  "next_day (y, m, d) =
     (if d < days_in_month y m then (y, m, d + 1)
      else if m < 12 then (y, m + 1, 1) else (y + 1, 1, 1))"

lemma days_in_month_bounds: "28 \<le> days_in_month y m" "days_in_month y m \<le> 31"
  by (auto simp: days_in_month_def)

lemma days_in_month_31 [simp]:
  "days_in_month y 1 = 31" "days_in_month y (Suc 0) = 31" "days_in_month y 3 = 31"
  "days_in_month y 12 = 31"
  by (simp_all add: days_in_month_def)

text \<open>Which dates are on a rule; the weekday of a date is a parameter (0 is Sunday).\<close>

fun scheduled :: "(date \<Rightarrow> nat) \<Rightarrow> TimeDuration \<Rightarrow> TimePositin \<Rightarrow> date \<Rightarrow> bool" where
  "scheduled weekday DAY p t = True"
| "scheduled weekday WEEK BEGIN t = (weekday t = 1)"
| "scheduled weekday WEEK END t = (weekday t = 5)"
| "scheduled weekday BI_MONTH BEGIN (y, m, d) = (d = 1 \<or> d = 15)"
| "scheduled weekday BI_MONTH END (y, m, d) = (d = 15 \<or> d = days_in_month y m)"
| "scheduled weekday MONTH BEGIN (y, m, d) = (d = 1)"
| "scheduled weekday MONTH END (y, m, d) = (d = days_in_month y m)"
| "scheduled weekday QUARTER BEGIN (y, m, d) = (d = 1 \<and> m \<in> {1, 4, 7, 10})"
| "scheduled weekday QUARTER END (y, m, d) = (d = days_in_month y m \<and> m \<in> {3, 6, 9, 12})"
| "scheduled weekday YEAR BEGIN (y, m, d) = (d = 1 \<and> m = 1)"
| "scheduled weekday YEAR END (y, m, d) = (d = 31 \<and> m = 12)"

text \<open>The earliest date with a property, among those whose number is at least \<open>n\<close>.\<close>

definition earliest :: "(date \<Rightarrow> bool) \<Rightarrow> nat \<Rightarrow> date \<Rightarrow> bool" where
  "earliest P n u \<longleftrightarrow> valid_date u \<and> P u \<and> n \<le> date_num u \<and>
     (\<forall>v. valid_date v \<longrightarrow> P v \<longrightarrow> n \<le> date_num v \<longrightarrow> date_num u \<le> date_num v)"

lemma earliestI:
  assumes "valid_date u" "P u" "n \<le> date_num u"
    and "\<And>y m d. valid_date (y, m, d) \<Longrightarrow> P (y, m, d) \<Longrightarrow> n \<le> date_num (y, m, d) \<Longrightarrow>
           date_num u \<le> date_num (y, m, d)"
  shows "earliest P n u"
  using assms unfolding earliest_def by (metis prod_cases3)

subsection \<open>The day after\<close>

lemma valid_next_day:
  "valid_date t \<Longrightarrow> fst t < 9999 \<Longrightarrow> valid_date (next_day t)"
  using days_in_month_bounds [of "fst t" "fst (snd t) + 1"] days_in_month_bounds [of "fst t + 1" 1]
  by (cases t) (auto simp: Suc_le_eq)

lemma days_before: "valid_date (y, m, d) \<Longrightarrow> d \<le> 31"
  using days_in_month_bounds [of y m] by auto

text \<open>The numbers of valid dates are ordered as the dates.\<close>

lemma date_num_less:
  assumes "valid_date (y, m, d)" "valid_date (y', m', d')"
  shows "date_num (y, m, d) < date_num (y', m', d') \<longleftrightarrow>
     y < y' \<or> y = y' \<and> (m < m' \<or> m = m' \<and> d < d')"
  using assms days_before [OF assms(1)] days_before [OF assms(2)]
  by (auto simp: nat_less_le) 

lemma date_num_inject:
  assumes "valid_date t" "valid_date u" "date_num t = date_num u"
  shows "t = u"
proof -
  obtain y m d y' m' d' where t: "t = (y, m, d)" "u = (y', m', d')" by (metis prod_cases3)
  show ?thesis
    using date_num_less [of y m d y' m' d'] date_num_less [of y' m' d' y m d] assms
    unfolding t by (metis linorder_neq_iff)
qed

lemma next_day_between:
  assumes "valid_date t" "valid_date u" "date_num t < date_num u"
  shows "date_num (next_day t) \<le> date_num u"
proof -
  obtain y m d y' m' d' where t: "t = (y, m, d)" "u = (y', m', d')" by (metis prod_cases3)
  from assms have less: "y < y' \<or> y = y' \<and> (m < m' \<or> m = m' \<and> d < d')"
    unfolding t by (simp only: date_num_less)
  with assms show ?thesis unfolding t by (auto simp: Suc_le_eq)
qed

text \<open>At most four weeks later a date is in the same month or in the next one.\<close>

lemma next_days:
  assumes "valid_date (y, m, d)" "k \<le> 28"
  shows "(next_day ^^ k) (y, m, d) =
     (if d + k \<le> days_in_month y m then (y, m, d + k)
      else (fst (next_month y m), snd (next_month y m), d + k - days_in_month y m))"
  using assms(2)
proof (induction k)
  case 0
  then show ?case using assms by simp
next
  case (Suc k)
  then have IH: "(next_day ^^ k) (y, m, d) =
     (if d + k \<le> days_in_month y m then (y, m, d + k)
      else (fst (next_month y m), snd (next_month y m), d + k - days_in_month y m))"
    by simp
  have "d + k - days_in_month y m < 28" if "days_in_month y m < d + k"
    using Suc.prems assms(1) that by auto
  then have small: "d + k - days_in_month y m < days_in_month y' m'" if "days_in_month y m < d + k" for y' m'
    using that days_in_month_bounds [of y' m'] by linarith
  show ?case
  proof (cases "d + k \<le> days_in_month y m")
    case True
    then show ?thesis using IH by auto
  next
    case False
    with small have "d + k - days_in_month y m < days_in_month (fst (next_month y m)) (snd (next_month y m))"
      by simp
    with False show ?thesis using IH by (simp add: Suc_diff_le del: next_month.simps)
  qed
qed

lemma valid_next_month:
  assumes "valid_date (y, m, d)" "y < 9999" "1 \<le> e" "e \<le> 28"
  shows "valid_date (fst (next_month y m), snd (next_month y m), e)"
  using assms days_in_month_bounds [of "fst (next_month y m)" "snd (next_month y m)"] by auto

lemma valid_next_days:
  assumes "valid_date t" "fst t < 9999" "k \<le> 28"
  shows "valid_date ((next_day ^^ k) t)"
proof -
  obtain y m d where t: "t = (y, m, d)" by (metis prod_cases3)
  show ?thesis
  proof (cases "d + k \<le> days_in_month y m")
    case True
    then show ?thesis using assms unfolding t by (simp add: next_days)
  next
    case False
    then have "1 \<le> d + k - days_in_month y m" "d + k - days_in_month y m \<le> 28"
      using assms unfolding t by auto
    with assms valid_next_month [of y m d "d + k - days_in_month y m"] False
    show ?thesis unfolding t by (simp add: next_days del: next_month.simps)
  qed
qed

lemma next_days_between:
  assumes "valid_date t" "fst t < 9999" "k \<le> 28" "valid_date v" "date_num t \<le> date_num v"
    "date_num v < date_num ((next_day ^^ k) t)"
  shows "\<exists>j < k. v = (next_day ^^ j) t"
  using assms(3,6)
proof (induction k)
  case 0
  then show ?case using assms(5) by simp
next
  case (Suc k)
  have valid: "valid_date ((next_day ^^ k) t)" using assms Suc.prems by (intro valid_next_days) auto
  consider "date_num v < date_num ((next_day ^^ k) t)" | "date_num v = date_num ((next_day ^^ k) t)"
    | "date_num ((next_day ^^ k) t) < date_num v" by linarith
  then show ?case
  proof cases
    case 1
    then show ?thesis using Suc by (meson Suc_leD less_SucI)
  next
    case 2
    then have "v = (next_day ^^ k) t" using valid assms(4) by (intro date_num_inject) auto
    then show ?thesis by blast
  next
    case 3
    then have "date_num (next_day ((next_day ^^ k) t)) \<le> date_num v"
      using valid assms(4) by (intro next_day_between)
    then show ?thesis using Suc.prems by simp
  qed
qed

lemma next_days_mono: 
  assumes "valid_date t" "fst t < 9999" "k \<le> 28"
  shows "date_num t + (if k = 0 then 0 else 1) \<le> date_num ((next_day ^^ k) t)"
proof -
  obtain y m d where t: "t = (y, m, d)" by (metis prod_cases3)
  show ?thesis using assms days_before [of y m d] unfolding t
    by (auto simp: next_days)
qed

subsection \<open>The earliest date on a rule\<close>

text \<open>Days from a date of weekday \<open>a\<close> to the first later date of weekday \<open>w\<close>.\<close>

definition days_to :: "nat \<Rightarrow> nat \<Rightarrow> nat" where
  "days_to w a = (if a < w then w - a else w + 7 - a)"

definition weekday_law :: "(date \<Rightarrow> nat) \<Rightarrow> bool" where
  "weekday_law weekday \<longleftrightarrow> (\<forall>t. valid_date t \<longrightarrow> weekday t < 7) \<and>
     (\<forall>t. valid_date t \<longrightarrow> valid_date (next_day t) \<longrightarrow> weekday (next_day t) = (weekday t + 1) mod 7)"

lemma weekday_less: "weekday_law weekday \<Longrightarrow> valid_date t \<Longrightarrow> weekday t < 7"
  unfolding weekday_law_def by blast

lemma weekday_next_days:
  assumes "weekday_law weekday" "valid_date t" "fst t < 9999" "k \<le> 28"
  shows "weekday ((next_day ^^ k) t) = (weekday t + k) mod 7"
  using assms(4)
proof (induction k)
  case 0
  then show ?case using assms by (simp add: weekday_less)
next
  case (Suc k)
  have "valid_date ((next_day ^^ k) t)" "valid_date (next_day ((next_day ^^ k) t))"
    using assms Suc.prems valid_next_days [of t k] valid_next_days [of t "Suc k"] by auto
  then have "weekday (next_day ((next_day ^^ k) t)) = (weekday ((next_day ^^ k) t) + 1) mod 7"
    using assms(1) unfolding weekday_law_def by blast
  then show ?case using Suc by (simp add: mod_simps)
qed

lemma earliest_next_days:
  assumes "weekday_law weekday" "valid_date t" "fst t < 9999" "k \<le> 28"
    and "(weekday t + k) mod 7 = w" "\<And>j. i \<le> j \<Longrightarrow> j < k \<Longrightarrow> (weekday t + j) mod 7 \<noteq> w"
    and "i \<le> k" "i \<le> 1"
  shows "earliest (\<lambda>u. weekday u = w) (date_num t + i) ((next_day ^^ k) t)"
  unfolding earliest_def
proof (intro conjI allI impI)
  show "valid_date ((next_day ^^ k) t)" "weekday ((next_day ^^ k) t) = w"
    using assms by (simp_all add: valid_next_days weekday_next_days)
  show "date_num t + i \<le> date_num ((next_day ^^ k) t)"
    using next_days_mono [of t k] assms by (auto split: if_splits)
  fix v assume v: "valid_date v" "weekday v = w" "date_num t + i \<le> date_num v"
  show "date_num ((next_day ^^ k) t) \<le> date_num v"
  proof (rule ccontr)
    assume "\<not> ?thesis"
    then obtain j where j: "j < k" "v = (next_day ^^ j) t"
      using next_days_between [of t k v] assms v by auto
    have "i \<le> j" using j v(3) \<open>i \<le> 1\<close> by (cases j) auto
    then show False using assms j v weekday_next_days [of weekday t j] by auto
  qed
qed

lemma days_to_props:
  assumes "a < 7" "w < 7"
  shows "1 \<le> days_to w a" "days_to w a \<le> 7" "(a + days_to w a) mod 7 = w"
    "\<And>j. 1 \<le> j \<Longrightarrow> j < days_to w a \<Longrightarrow> (a + j) mod 7 \<noteq> w"
proof -
  show "1 \<le> days_to w a" "days_to w a \<le> 7" using assms by (auto simp: days_to_def)
  show "(a + days_to w a) mod 7 = w" using assms by (auto simp: days_to_def)
  fix j assume "1 \<le> j" "j < days_to w a"
  then show "(a + j) mod 7 \<noteq> w" using assms
    by (cases "a + j < 7") (auto simp: days_to_def le_mod_geq split: if_splits)
qed

text \<open>The dates the rules of the code should give, in closed form.\<close>

fun month_begin_after :: "nat \<Rightarrow> nat \<Rightarrow> date" where
  "month_begin_after y m = (if m < 12 then (y, m + 1, 1) else (y + 1, 1, 1))"

fun month_end_after :: "nat \<Rightarrow> nat \<Rightarrow> date" where
  "month_end_after y m =
     (if m < 12 then (y, m + 1, days_in_month y (m + 1)) else (y + 1, 1, 31))"

definition quarter_end :: "nat \<Rightarrow> nat" where
  "quarter_end m = 3 * ((m + 2) div 3)"

fun first_date :: "(date \<Rightarrow> nat) \<Rightarrow> TimeDuration \<Rightarrow> TimePositin \<Rightarrow> date \<Rightarrow> date" where
  "first_date weekday DAY p t = t"
| "first_date weekday WEEK BEGIN t =
     (if weekday t = 1 then t else (next_day ^^ days_to 1 (weekday t)) t)"
| "first_date weekday WEEK END t =
     (if weekday t = 5 then t else (next_day ^^ days_to 5 (weekday t)) t)"
| "first_date weekday BI_MONTH BEGIN (y, m, d) =
     (if d = 1 then (y, m, d) else if d \<le> 15 then (y, m, 15) else month_begin_after y m)"
| "first_date weekday BI_MONTH END (y, m, d) =
     (if d \<le> 15 then (y, m, 15) else (y, m, days_in_month y m))"
| "first_date weekday MONTH BEGIN (y, m, d) = (if d = 1 then (y, m, d) else month_begin_after y m)"
| "first_date weekday MONTH END (y, m, d) = (y, m, days_in_month y m)"
| "first_date weekday QUARTER BEGIN (y, m, d) =
     (if d = 1 \<and> m \<in> {1, 4, 7, 10} then (y, m, d) else month_begin_after y (quarter_end m))"
| "first_date weekday QUARTER END (y, m, d) = (y, quarter_end m, days_in_month y (quarter_end m))"
| "first_date weekday YEAR BEGIN (y, m, d) = (if d = 1 \<and> m = 1 then (y, m, d) else (y + 1, 1, 1))"
| "first_date weekday YEAR END (y, m, d) = (y, 12, 31)"

fun next_date :: "(date \<Rightarrow> nat) \<Rightarrow> TimeDuration \<Rightarrow> TimePositin \<Rightarrow> date \<Rightarrow> date" where
  "next_date weekday DAY p t = next_day t"
| "next_date weekday WEEK p t = (next_day ^^ 7) t"
| "next_date weekday BI_MONTH BEGIN (y, m, d) =
     (if d < 15 then (y, m, 15) else month_begin_after y m)"
| "next_date weekday BI_MONTH END (y, m, d) =
     (if d = 15 then (y, m, days_in_month y m)
      else (fst (next_month y m), snd (next_month y m), 15))"
| "next_date weekday MONTH BEGIN (y, m, d) = month_begin_after y m"
| "next_date weekday MONTH END (y, m, d) = month_end_after y m"
| "next_date weekday QUARTER BEGIN (y, m, d) = month_begin_after y (quarter_end m)"
| "next_date weekday QUARTER END (y, m, d) =
     (if m < 12 then (y, m + 3, days_in_month y (m + 3)) else (y + 1, 3, 31))"
| "next_date weekday YEAR BEGIN (y, m, d) = (y + 1, 1, 1)"
| "next_date weekday YEAR END (y, m, d) = (y + 1, 12, 31)"

lemma date_num_le:
  assumes "valid_date (y, m, d)" "valid_date (y', m', d')"
  shows "date_num (y, m, d) \<le> date_num (y', m', d') \<longleftrightarrow>
     y < y' \<or> y = y' \<and> (m < m' \<or> m = m' \<and> d \<le> d')"
  using date_num_less [OF assms(2,1)] by (simp only: not_less [symmetric]) auto

lemma date_num_Suc_le:
  assumes "valid_date (y, m, d)" "valid_date (y', m', d')"
  shows "date_num (y, m, d) + 1 \<le> date_num (y', m', d') \<longleftrightarrow>
     y < y' \<or> y = y' \<and> (m < m' \<or> m = m' \<and> d < d')"
  using date_num_less [OF assms] by (simp only: Suc_eq_plus1 [symmetric] Suc_le_eq)

lemma month_cases:
  assumes "1 \<le> m" "m \<le> (12 :: nat)"
  obtains "m = 1" | "m = 2" | "m = 3" | "m = 4" | "m = 5" | "m = 6" | "m = 7" | "m = 8"
    | "m = 9" | "m = 10" | "m = 11" | "m = 12"
proof -
  from assms have "m = 1 \<or> m = 2 \<or> m = 3 \<or> m = 4 \<or> m = 5 \<or> m = 6 \<or> m = 7 \<or> m = 8 \<or> m = 9 \<or>
      m = 10 \<or> m = 11 \<or> m = 12" by presburger
  with that show ?thesis by blast
qed

lemma valid_first_date:
  assumes "weekday_law weekday" "valid_date t" "fst t < 9999"
  shows "valid_date (first_date weekday D p t)"
proof -
  obtain y m d where t: "t = (y, m, d)" by (metis prod_cases3)
  have wk: "weekday t < 7" using assms by (simp add: weekday_less)
  have m: "1 \<le> m" "m \<le> 12" using assms t by auto
  show ?thesis
  proof (cases "D = WEEK")
    case True
    have "days_to 1 (weekday t) \<le> 28" "days_to 5 (weekday t) \<le> 28"
      using wk by (auto simp: days_to_def)
    with True assms show ?thesis by (cases p) (simp_all add: valid_next_days del: valid_date.simps)
  next
    case False
    note dim = days_in_month_bounds [of y m]
    from m show ?thesis using False assms(2,3) dim unfolding t
      by (cases rule: month_cases; cases D; cases p) (auto simp: days_in_month_def quarter_end_def)
  qed
qed

lemma first_date_earliest:
  assumes "weekday_law weekday" "valid_date t" "fst t < 9999" "D \<noteq> DAY"
  shows "earliest (scheduled weekday D p) (date_num t) (first_date weekday D p t)"
proof (cases "D = WEEK")
  case True
  have wk: "weekday t < 7" using assms by (simp add: weekday_less)
  have week: "earliest (\<lambda>u. weekday u = w) (date_num t)
      (if weekday t = w then t else (next_day ^^ days_to w (weekday t)) t)" if "w < 7" for w
  proof (cases "weekday t = w")
    case True
    then show ?thesis using assms by (simp add: earliest_def)
  next
    case False
    have "(weekday t + j) mod 7 \<noteq> w" if "j < days_to w (weekday t)" for j
      using days_to_props(4) [OF wk \<open>w < 7\<close>, of j] that False wk by (cases "j = 0") auto
    then show ?thesis
      using earliest_next_days [of weekday t "days_to w (weekday t)" w 0] assms False
        days_to_props [OF wk \<open>w < 7\<close>] by simp
  qed
  have "scheduled weekday WEEK BEGIN = (\<lambda>u. weekday u = 1)"
    "scheduled weekday WEEK END = (\<lambda>u. weekday u = 5)" by (rule ext, simp)+
  then show ?thesis using True week [of 1] week [of 5]
    by (cases p) (simp_all only: first_date.simps)
next
  case False
  obtain y m d where t: "t = (y, m, d)" by (metis prod_cases3)
  have m: "1 \<le> m" "m \<le> 12" using assms t by auto
  have valid: "valid_date (first_date weekday D p t)"
    by (rule valid_first_date [OF assms(1-3)])
  obtain y1 m1 d1 where u: "first_date weekday D p t = (y1, m1, d1)" by (metis prod_cases3)
  note dim = days_in_month_bounds [of y m]
  have on: "scheduled weekday D p (y1, m1, d1)"
    using m u False assms(4) unfolding t
    by (cases rule: month_cases; cases D; cases p) (auto simp: quarter_end_def split: if_splits)
  show ?thesis
    unfolding u
  proof (rule earliestI)
    show "valid_date (y1, m1, d1)" using valid u by simp
    show "scheduled weekday D p (y1, m1, d1)" by (rule on)
    show "date_num t \<le> date_num (y1, m1, d1)"
      using m u False assms dim unfolding t
      by (cases rule: month_cases; cases D; cases p) (auto simp: quarter_end_def split: if_splits)
    fix y2 m2 d2
    assume v: "valid_date (y2, m2, d2)" "scheduled weekday D p (y2, m2, d2)"
      "date_num t \<le> date_num (y2, m2, d2)"
    show "date_num (y1, m1, d1) \<le> date_num (y2, m2, d2)"
    proof (rule ccontr)
      assume "\<not> ?thesis"
      then have before: "y2 < y1 \<or> y2 = y1 \<and> (m2 < m1 \<or> m2 = m1 \<and> d2 < d1)"
        using valid v(1) unfolding u by (simp only: not_le date_num_less)
      have later: "y < y2 \<or> y = y2 \<and> (m < m2 \<or> m = m2 \<and> d \<le> d2)"
        using v assms(2) unfolding t by (simp only: date_num_le)
      show False
        using before later u v(1,2) False assms(2,4) dim m unfolding t
        by (cases D; cases p) (auto simp: quarter_end_def split: if_splits)
    qed
  qed
qed

lemma valid_next_date:
  assumes "valid_date t" "fst t < 9999" "scheduled weekday D p t"
  shows "valid_date (next_date weekday D p t)"
proof -
  obtain y m d where t: "t = (y, m, d)" by (metis prod_cases3)
  have m: "1 \<le> m" "m \<le> 12" using assms t by auto
  show ?thesis
  proof (cases "D = WEEK \<or> D = DAY")
    case True
    then show ?thesis using assms valid_next_days [of t 7] valid_next_day [of t] by auto
  next
    case False
    from m show ?thesis using False assms unfolding t
      by (cases rule: month_cases; cases D; cases p) (auto simp: days_in_month_def quarter_end_def)
  qed
qed

lemma next_date_earliest:
  assumes "weekday_law weekday" "valid_date t" "fst t < 9999" "D \<noteq> DAY" "scheduled weekday D p t"
  shows "earliest (scheduled weekday D p) (date_num t + 1) (next_date weekday D p t)"
proof (cases "D = WEEK")
  case True
  have wk: "weekday t < 7" using assms by (simp add: weekday_less)
  have shift: "(weekday t + j) mod 7 \<noteq> weekday t" if "1 \<le> j" "j < 7" for j
    using wk that by (cases "weekday t + j < 7") (auto simp: le_mod_geq)
  have "earliest (\<lambda>u. weekday u = weekday t) (date_num t + 1) ((next_day ^^ 7) t)"
    by (rule earliest_next_days [OF assms(1-3)]) (use wk shift in auto)
  moreover have "scheduled weekday WEEK p = (\<lambda>u. weekday u = weekday t)"
    using True assms(5) by (intro ext, cases p) auto
  ultimately show ?thesis using True by simp
next
  case False
  obtain y m d where t: "t = (y, m, d)" by (metis prod_cases3)
  have m: "1 \<le> m" "m \<le> 12" using assms t by auto
  have valid: "valid_date (next_date weekday D p t)"
    by (rule valid_next_date [OF assms(2,3,5)])
  obtain y1 m1 d1 where u: "next_date weekday D p t = (y1, m1, d1)" by (metis prod_cases3)
  have valid1: "valid_date (y1, m1, d1)" using valid u by simp
  note dim = days_in_month_bounds [of y m]
  have on: "scheduled weekday D p (y1, m1, d1)"
    using m u False assms(4,5) unfolding t
    by (cases rule: month_cases; cases D; cases p) (auto simp: quarter_end_def days_in_month_def split: if_splits)
  show ?thesis
    unfolding u
  proof (rule earliestI)
    show "valid_date (y1, m1, d1)" by (rule valid1)
    show "scheduled weekday D p (y1, m1, d1)" by (rule on)
    have "y < y1 \<or> y = y1 \<and> (m < m1 \<or> m = m1 \<and> d < d1)"
      using m u False assms dim unfolding t
      by (cases rule: month_cases; cases D; cases p) (auto simp: quarter_end_def split: if_splits)
    then show "date_num t + 1 \<le> date_num (y1, m1, d1)"
      using valid1 assms(2) unfolding t by (simp only: date_num_Suc_le)
    fix y2 m2 d2
    assume v: "valid_date (y2, m2, d2)" "scheduled weekday D p (y2, m2, d2)"
      "date_num t + 1 \<le> date_num (y2, m2, d2)"
    have later: "y < y2 \<or> y = y2 \<and> (m < m2 \<or> m = m2 \<and> d < d2)"
      using v assms(2) unfolding t by (simp only: date_num_Suc_le)
    show "date_num (y1, m1, d1) \<le> date_num (y2, m2, d2)"
    proof (rule ccontr)
      assume "\<not> ?thesis"
      then have before: "y2 < y1 \<or> y2 = y1 \<and> (m2 < m1 \<or> m2 = m1 \<and> d2 < d1)"
        using valid1 v(1) by (simp only: not_le date_num_less)
      show False
        using before later u v(1,2) False assms(2,4,5) dim days_in_month_bounds [of y2 m2] m unfolding t
        by (cases D; cases p) (auto simp: quarter_end_def split: if_splits)
    qed
  qed
qed

end
