(* ===== verification/Calendar_Props.thy ===== *)
theory Calendar_Props
  imports Calendar_Dates
begin

text \<open>
  The calendar rules return the right dates. The contract states what the code relies on of
  Boost.DateTime; in it, every function returns the number of the date the rule asks for,
  and that date is the earliest one on the rule. A calendar computed on triples is shown to
  meet the contract.
\<close>

declare valid_date.simps [simp del] date_num.simps [simp del] next_day.simps [simp del]
  funpow.simps [simp del]

definition ymd :: "'d gregorian \<Rightarrow> 'd \<Rightarrow> date" where
  "ymd G d = (g_year G d, g_month G d, g_day G d)"

locale gregorian_contract =
  fixes G :: "'d gregorian" and weekday :: "date \<Rightarrow> nat"
  assumes weekday: "weekday_law weekday"
    and parse: "valid_date t \<Longrightarrow>
      \<exists>d. g_from_undelimited_string G (to_string (date_num t)) = Some d \<and> ymd G d = t"
    and print: "valid_date (ymd G d) \<Longrightarrow> g_to_iso_string G d = Some (to_string (date_num (ymd G d)))"
    and unique: "valid_date (ymd G d) \<Longrightarrow> ymd G e = ymd G d \<Longrightarrow> e = d"
    and day_of_week: "valid_date (ymd G d) \<Longrightarrow> g_day_of_week G d = weekday (ymd G d)"
    and plus_days: "valid_date (ymd G d) \<Longrightarrow> valid_date ((next_day ^^ k) (ymd G d)) \<Longrightarrow>
      \<exists>e. g_plus_days G d k = Some e \<and> ymd G e = (next_day ^^ k) (ymd G d)"
    and week_after: "valid_date (ymd G d) \<Longrightarrow> w < 7 \<Longrightarrow> k = days_to w (weekday (ymd G d)) \<Longrightarrow>
      valid_date ((next_day ^^ k) (ymd G d)) \<Longrightarrow>
      \<exists>e. g_first_day_of_the_week_after G w d = Some e \<and> ymd G e = (next_day ^^ k) (ymd G d)"
    and end_of_month: "ymd G d = (y, m, a) \<Longrightarrow> valid_date (y, m, a) \<Longrightarrow>
      \<exists>e. g_end_of_month G d = Some e \<and> ymd G e = (y, m, days_in_month y m)"
    and plus_years: "ymd G d = (y, m, a) \<Longrightarrow> valid_date (y, m, a) \<Longrightarrow> m \<noteq> 2 \<Longrightarrow> y + n \<le> 9999 \<Longrightarrow>
      \<exists>e. g_plus_years G d n = Some e \<and> ymd G e = (y + n, m, a)"
    and make: "valid_date (y, m, a) \<Longrightarrow> \<exists>d. g_date G y m a = Some d \<and> ymd G d = (y, m, a)"
begin

definition at :: "date \<Rightarrow> 'd" where
  "at t = the (g_from_undelimited_string G (to_string (date_num t)))"

lemma ymd_at: "valid_date t \<Longrightarrow> ymd G (at t) = t"
  using parse [of t] by (auto simp: at_def)

lemma at_unique: "valid_date t \<Longrightarrow> ymd G d = t \<Longrightarrow> d = at t"
  using unique [of "at t" d] ymd_at [of t] by simp

lemma at_inject: "valid_date t \<Longrightarrow> valid_date u \<Longrightarrow> at t = at u \<longleftrightarrow> t = u"
  by (metis ymd_at)

lemma parse_at: "valid_date t \<Longrightarrow> parse_date G (date_num t) = Inr (at t)"
  using parse [of t] by (auto simp: at_def parse_date_def g_lift_def)

lemma date_num_bound: "valid_date t \<Longrightarrow> date_num t < 2 ^ 31"
  using days_before by (cases t) (fastforce simp: date_num.simps valid_date.simps)

lemma print_at: "valid_date t \<Longrightarrow> print_date G (at t) = Inr (date_num t)"
  using print [of "at t"] ymd_at [of t] date_num_bound [of t]
  by (simp add: print_date_def g_lift_def stoi_to_string to_unsigned_small del: date_num.simps)

lemma fields_at:
  assumes "valid_date (y, m, d)"
  shows "g_year G (at (y, m, d)) = y" "g_month G (at (y, m, d)) = m" "g_day G (at (y, m, d)) = d"
  using ymd_at [OF assms] by (simp_all add: ymd_def)

lemma weekday_at: "valid_date t \<Longrightarrow> g_day_of_week G (at t) = weekday t"
  using day_of_week [of "at t"] ymd_at [of t] by simp

lemma lift_ex: "g_lift x = Inr d \<longleftrightarrow> x = Some d"
  by (cases x) (simp_all add: g_lift_def)

lemma plus_days_at:
  "valid_date t \<Longrightarrow> valid_date ((next_day ^^ k) t) \<Longrightarrow>
   g_lift (g_plus_days G (at t) k) = Inr (at ((next_day ^^ k) t))"
  using plus_days [of "at t" k] by (auto simp: ymd_at at_unique lift_ex)

lemma week_after_at:
  "valid_date t \<Longrightarrow> w < 7 \<Longrightarrow> valid_date ((next_day ^^ days_to w (weekday t)) t) \<Longrightarrow>
   g_lift (g_first_day_of_the_week_after G w (at t)) = Inr (at ((next_day ^^ days_to w (weekday t)) t))"
  using week_after [of "at t" w] by (auto simp: ymd_at at_unique lift_ex)

lemma valid_end_of_month: "valid_date (y, m, d) \<Longrightarrow> valid_date (y, m, days_in_month y m)"
  using days_in_month_bounds [of y m] by (auto simp: valid_date.simps)

lemma end_of_month_at:
  assumes "valid_date (y, m, d)"
  shows "g_lift (g_end_of_month G (at (y, m, d))) = Inr (at (y, m, days_in_month y m))"
  using end_of_month [OF ymd_at [OF assms] assms] at_unique [OF valid_end_of_month [OF assms]]
  by (auto simp: lift_ex)

lemma plus_years_at:
  assumes "valid_date (y, m, d)" "m \<noteq> 2" "y < 9999"
  shows "g_lift (g_plus_years G (at (y, m, d)) 1) = Inr (at (y + 1, m, d))"
proof -
  have "valid_date (y + 1, m, d)" using assms by (simp add: valid_date.simps days_in_month_def)
  then show ?thesis
    using plus_years [OF ymd_at [OF assms(1)] assms(1,2), of 1] at_unique assms(3)
    by (auto simp: lift_ex)
qed

lemma make_at: "valid_date (y, m, d) \<Longrightarrow> g_lift (g_date G y m d) = Inr (at (y, m, d))"
  using make [of y m d] at_unique by (auto simp: lift_ex)

lemmas at_simps = parse_at print_at fields_at weekday_at plus_days_at week_after_at end_of_month_at
  plus_years_at make_at

text \<open>The day after the end of a month, and the half months.\<close>

lemma after_end_of_month:
  assumes "valid_date (y, m, d)" "y < 9999 \<or> m < 12"
  shows "g_lift (g_plus_days G (at (y, m, days_in_month y m)) 1) = Inr (at (month_begin_after y m))"
    "valid_date (month_begin_after y m)"
proof -
  show valid: "valid_date (month_begin_after y m)" using assms by (auto simp: valid_date.simps days_in_month_def)
  have "(next_day ^^ 1) (y, m, days_in_month y m) = month_begin_after y m"
    by (simp add: funpow.simps next_day.simps)
  then show "g_lift (g_plus_days G (at (y, m, days_in_month y m)) 1) = Inr (at (month_begin_after y m))"
    using plus_days_at [OF valid_end_of_month [OF assms(1)], of 1] valid by simp
qed

text \<open>The functions of the code return the numbers of the closed forms.\<close>

lemma weekday_at_most: "valid_date t \<Longrightarrow> weekday t < 7"
  using weekday weekday_less by blast

lemma valid_days_to:
  "valid_date t \<Longrightarrow> fst t < 9999 \<Longrightarrow> w < 7 \<Longrightarrow> valid_date ((next_day ^^ days_to w (weekday t)) t)"
proof -
  assume t: "valid_date t" "fst t < 9999" "w < 7"
  then have "days_to w (weekday t) \<le> 28" using days_to_props(2) [OF weekday_at_most, of t w] by simp
  with t show ?thesis by (simp add: valid_next_days)
qed

lemma first_week:
  assumes "valid_date t" "fst t < 9999"
  shows "firstCalendarDate_WEEK_BEGIN G (date_num t) = Inr (date_num (first_date weekday WEEK BEGIN t))"
    "firstCalendarDate_WEEK_END G (date_num t) = Inr (date_num (first_date weekday WEEK END t))"
  using assms valid_days_to [OF assms, of 1] valid_days_to [OF assms, of 5]
  by (simp_all add: firstCalendarDate_WEEK_BEGIN_def firstCalendarDate_WEEK_END_def at_simps)

lemma next_week:
  assumes "valid_date t" "fst t < 9999"
  shows "nextCalendarDate_WEEK_BEGIN G (date_num t) = Inr (date_num (next_date weekday WEEK BEGIN t))"
    "nextCalendarDate_WEEK_END G (date_num t) = Inr (date_num (next_date weekday WEEK END t))"
  using assms valid_next_days [OF assms, of 7]
  by (simp_all add: nextCalendarDate_WEEK_BEGIN_def nextCalendarDate_WEEK_END_def at_simps)

lemma to_fifteenth:
  assumes "valid_date (y, m, d)" "d \<le> 15"
  shows "g_lift (g_plus_days G (at (y, m, d)) (15 - d)) = Inr (at (y, m, 15))" "valid_date (y, m, 15)"
proof -
  show valid: "valid_date (y, m, 15)"
    using assms days_in_month_bounds [of y m] by (auto simp: valid_date.simps)
  have "(next_day ^^ (15 - d)) (y, m, d) = (y, m, 15)"
    using assms days_in_month_bounds [of y m] by (simp add: next_days)
  then show "g_lift (g_plus_days G (at (y, m, d)) (15 - d)) = Inr (at (y, m, 15))"
    using plus_days_at [OF assms(1), of "15 - d"] valid by simp
qed

lemma first_half_month:
  assumes "valid_date (y, m, d)" "y < 9999"
  shows "firstCalendarDate_BI_MONTH_BEGIN G (date_num (y, m, d)) =
      Inr (date_num (first_date weekday BI_MONTH BEGIN (y, m, d)))"
    "firstCalendarDate_BI_MONTH_END G (date_num (y, m, d)) =
      Inr (date_num (first_date weekday BI_MONTH END (y, m, d)))"
  using assms to_fifteenth [OF assms(1)] after_end_of_month [of y m d] valid_end_of_month [OF assms(1)]
    days_in_month_bounds [of y m]
  by (auto simp: firstCalendarDate_BI_MONTH_BEGIN_def firstCalendarDate_BI_MONTH_END_def at_simps Let_def)

lemma next_half_month:
  assumes "valid_date (y, m, d)" "y < 9999"
  shows "scheduled weekday BI_MONTH BEGIN (y, m, d) \<Longrightarrow>
      nextCalendarDate_BI_MONTH_BEGIN G (date_num (y, m, d)) =
      Inr (date_num (next_date weekday BI_MONTH BEGIN (y, m, d)))"
    "scheduled weekday BI_MONTH END (y, m, d) \<Longrightarrow>
      nextCalendarDate_BI_MONTH_END G (date_num (y, m, d)) =
      Inr (date_num (next_date weekday BI_MONTH END (y, m, d)))"
proof -
  assume on: "scheduled weekday BI_MONTH BEGIN (y, m, d)"
  show "nextCalendarDate_BI_MONTH_BEGIN G (date_num (y, m, d)) =
      Inr (date_num (next_date weekday BI_MONTH BEGIN (y, m, d)))"
    using on assms to_fifteenth [OF assms(1)] after_end_of_month [of y m d]
    by (auto simp: nextCalendarDate_BI_MONTH_BEGIN_def at_simps)
next
  assume on: "scheduled weekday BI_MONTH END (y, m, d)"
  let ?u = "(fst (next_month y m), snd (next_month y m), 15)"
  have valid: "valid_date ?u" using assms by (intro valid_next_month) auto
  have "(next_day ^^ 15) (y, m, days_in_month y m) = ?u"
    using valid_end_of_month [OF assms(1)] by (simp add: next_days)
  then have "g_lift (g_plus_days G (at (y, m, days_in_month y m)) 15) = Inr (at ?u)"
    using plus_days_at [OF valid_end_of_month [OF assms(1)], of 15] valid by simp
  then show "nextCalendarDate_BI_MONTH_END G (date_num (y, m, d)) =
      Inr (date_num (next_date weekday BI_MONTH END (y, m, d)))"
    using on assms valid valid_end_of_month [OF assms(1)] days_in_month_bounds [of y m]
    by (auto simp: nextCalendarDate_BI_MONTH_END_def at_simps)
qed

lemma first_month:
  assumes "valid_date (y, m, d)" "y < 9999"
  shows "firstCalendarDate_MONTH_BEGIN G (date_num (y, m, d)) =
      Inr (date_num (first_date weekday MONTH BEGIN (y, m, d)))"
    "firstCalendarDate_MONTH_END G (date_num (y, m, d)) =
      Inr (date_num (first_date weekday MONTH END (y, m, d)))"
  using assms after_end_of_month [of y m d] valid_end_of_month [OF assms(1)]
  by (auto simp: firstCalendarDate_MONTH_BEGIN_def firstCalendarDate_MONTH_END_def at_simps)

lemma next_month_dates:
  assumes "valid_date (y, m, d)" "y < 9999 \<or> m < 12"
  shows "nextCalendarDate_MONTH_BEGIN G (date_num (y, m, d)) = Inr (date_num (month_begin_after y m))"
    "nextCalendarDate_MONTH_END G (date_num (y, m, d)) = Inr (date_num (month_end_after y m))"
proof -
  obtain y1 m1 where u: "month_begin_after y m = (y1, m1, 1)" "month_end_after y m = (y1, m1, days_in_month y1 m1)"
    by (cases "m < 12") auto
  show "nextCalendarDate_MONTH_BEGIN G (date_num (y, m, d)) = Inr (date_num (month_begin_after y m))"
    "nextCalendarDate_MONTH_END G (date_num (y, m, d)) = Inr (date_num (month_end_after y m))"
    using assms after_end_of_month [of y m d] u end_of_month_at [of y1 m1 1] valid_end_of_month [of y1 m1 1]
    by (simp_all add: nextCalendarDate_MONTH_BEGIN_def nextCalendarDate_MONTH_END_def at_simps)
qed

lemma first_year:
  assumes "valid_date (y, m, d)" "y < 9999"
  shows "firstCalendarDate_YEAR_BEGIN G (date_num (y, m, d)) =
      Inr (date_num (first_date weekday YEAR BEGIN (y, m, d)))"
    "firstCalendarDate_YEAR_END G (date_num (y, m, d)) =
      Inr (date_num (first_date weekday YEAR END (y, m, d)))"
proof -
  have valid: "valid_date (y, 1, 1)" "valid_date (y + 1, 1, 1)" "valid_date (y, 12, 31)"
    using assms by (auto simp: valid_date.simps)
  then show "firstCalendarDate_YEAR_BEGIN G (date_num (y, m, d)) =
      Inr (date_num (first_date weekday YEAR BEGIN (y, m, d)))"
    "firstCalendarDate_YEAR_END G (date_num (y, m, d)) =
      Inr (date_num (first_date weekday YEAR END (y, m, d)))"
    using assms plus_years_at [OF valid(1)] make_at [OF valid(1)] make_at [OF valid(3)]
    by (auto simp: firstCalendarDate_YEAR_BEGIN_def firstCalendarDate_YEAR_END_def at_simps)
qed

lemma next_year:
  assumes "valid_date (y, m, d)" "y < 9999"
  shows "scheduled weekday YEAR BEGIN (y, m, d) \<Longrightarrow>
      nextCalendarDate_YEAR_BEGIN G (date_num (y, m, d)) =
      Inr (date_num (next_date weekday YEAR BEGIN (y, m, d)))"
    "nextCalendarDate_YEAR_END G (date_num (y, m, d)) =
      Inr (date_num (next_date weekday YEAR END (y, m, d)))"
proof -
  have valid: "valid_date (y, 1, 1)" "valid_date (y + 1, 1, 1)" "valid_date (y, 12, 31)"
    "valid_date (y + 1, 12, 31)"
    using assms by (auto simp: valid_date.simps)
  show "scheduled weekday YEAR BEGIN (y, m, d) \<Longrightarrow>
      nextCalendarDate_YEAR_BEGIN G (date_num (y, m, d)) =
      Inr (date_num (next_date weekday YEAR BEGIN (y, m, d)))"
    using assms valid plus_years_at [OF valid(1)]
    by (simp add: nextCalendarDate_YEAR_BEGIN_def at_simps)
  show "nextCalendarDate_YEAR_END G (date_num (y, m, d)) =
      Inr (date_num (next_date weekday YEAR END (y, m, d)))"
    using assms valid plus_years_at [OF valid(3)] make_at [OF valid(3)]
    by (simp add: nextCalendarDate_YEAR_END_def at_simps)
qed

text \<open>The loop over the months of a quarter ends within its four rounds.\<close>

lemma quarter_tests:
  assumes "valid_date (y, m, d)"
  shows "isQuarterBegin G (date_num (y, m, d)) = Inr (d = 1 \<and> m \<in> {1, 4, 7, 10})"
    "isQuarterEnd G (date_num (y, m, d)) = Inr (d = days_in_month y m \<and> m \<in> {3, 6, 9, 12})"
  using assms valid_end_of_month [OF assms]
  by (auto simp: isQuarterBegin_def isQuarterEnd_def at_simps at_inject)

lemma loop_unfold:
  "quarter_loop stop month 4 date = er_bind (stop date) (\<lambda>b. if b then Inr date else
     er_bind (month date) (quarter_loop stop month 3))"
  "quarter_loop stop month 3 date = er_bind (stop date) (\<lambda>b. if b then Inr date else
     er_bind (month date) (quarter_loop stop month 2))"
  "quarter_loop stop month 2 date = er_bind (stop date) (\<lambda>b. if b then Inr date else
     er_bind (month date) (quarter_loop stop month 1))"
  by (simp_all add: numeral_eq_Suc cong: if_cong)

lemma valid_months:
  assumes "1400 \<le> y" "y \<le> 9999" "1 \<le> m" "m \<le> 12"
  shows "valid_date (y, m, 1)" "valid_date (y, m, days_in_month y m)"
  using assms days_in_month_bounds [of y m] by (auto simp: valid_date.simps)

lemma quarter_begin_loop:
  assumes "1400 \<le> y" "y < 9999" "1 \<le> m" "m \<le> 12"
  shows "quarter_loop (isQuarterBegin G) (nextCalendarDate_MONTH_BEGIN G) 4 (date_num (y, m, 1)) =
    Inr (date_num (if m \<in> {1, 4, 7, 10} then (y, m, 1) else month_begin_after y (quarter_end m)))"
  using assms(1,2)
  by (cases rule: month_cases [OF assms(3,4)])
    (simp_all add: loop_unfold quarter_tests next_month_dates [where d = 1] valid_months quarter_end_def
      del: quarter_loop.simps One_nat_def cong: if_cong)

lemma quarter_end_loop:
  assumes "1400 \<le> y" "y \<le> 9999" "1 \<le> m" "m \<le> 12"
  shows "quarter_loop (isQuarterEnd G) (nextCalendarDate_MONTH_END G) 4 (date_num (y, m, days_in_month y m)) =
    Inr (date_num (y, quarter_end m, days_in_month y (quarter_end m)))"
proof -
  note valid = valid_months(2) [OF assms(1,2)]
  show ?thesis
    using assms(1,2) valid [of 1] valid [of 2] valid [of 3] valid [of 4] valid [of 5] valid [of 6]
      valid [of 7] valid [of 8] valid [of 9] valid [of 10] valid [of 11] valid [of 12]
    by (cases rule: month_cases [OF assms(3,4)])
      (simp_all add: loop_unfold quarter_tests next_month_dates [where y = y] quarter_end_def
        del: quarter_loop.simps One_nat_def cong: if_cong)
qed

lemma first_quarter:
  assumes "valid_date (y, m, d)" "y < 9999"
  shows "firstCalendarDate_QUARTER_BEGIN G (date_num (y, m, d)) =
      Inr (date_num (first_date weekday QUARTER BEGIN (y, m, d)))"
    "firstCalendarDate_QUARTER_END G (date_num (y, m, d)) =
      Inr (date_num (first_date weekday QUARTER END (y, m, d)))"
proof -
  have r: "1400 \<le> y" "1 \<le> m" "m \<le> 12" using assms by (auto simp: valid_date.simps)
  note begin_loop = quarter_begin_loop [OF r(1) assms(2)]
  have next_year: "quarter_loop (isQuarterBegin G) (nextCalendarDate_MONTH_BEGIN G) 4 (date_num (y + 1, 1, 1)) =
      Inr (date_num (y + 1, 1, 1))"
    using quarter_tests(1) [of "y + 1" 1 1] valid_months(1) [of "y + 1" 1] assms(2) r
    by (simp add: loop_unfold)
  have "quarter_loop (isQuarterBegin G) (nextCalendarDate_MONTH_BEGIN G) 4 (date_num (month_begin_after y m)) =
      Inr (date_num (month_begin_after y (quarter_end m)))"
    using begin_loop [of "m + 1"] next_year
    by (cases rule: month_cases [OF r(2,3)])
      (simp_all add: quarter_end_def del: One_nat_def quarter_loop.simps cong: if_cong)
  then show "firstCalendarDate_QUARTER_BEGIN G (date_num (y, m, d)) =
      Inr (date_num (first_date weekday QUARTER BEGIN (y, m, d)))"
    using first_month(1) [OF assms] begin_loop [OF r(2,3)]
    by (auto simp: firstCalendarDate_QUARTER_BEGIN_def simp del: quarter_loop.simps month_begin_after.simps)
  show "firstCalendarDate_QUARTER_END G (date_num (y, m, d)) =
      Inr (date_num (first_date weekday QUARTER END (y, m, d)))"
    using first_month(2) [OF assms] quarter_end_loop [OF r(1) _ r(2,3)] assms(2)
    by (simp add: firstCalendarDate_QUARTER_END_def del: quarter_loop.simps)
qed

lemma next_quarter:
  assumes "valid_date (y, m, d)" "y < 9999"
  shows "scheduled weekday QUARTER BEGIN (y, m, d) \<Longrightarrow>
      nextCalendarDate_QUARTER_BEGIN G (date_num (y, m, d)) =
      Inr (date_num (next_date weekday QUARTER BEGIN (y, m, d)))"
    "scheduled weekday QUARTER END (y, m, d) \<Longrightarrow>
      nextCalendarDate_QUARTER_END G (date_num (y, m, d)) =
      Inr (date_num (next_date weekday QUARTER END (y, m, d)))"
proof -
  have r: "1400 \<le> y" "1 \<le> m" "m \<le> 12" using assms by (auto simp: valid_date.simps)
  show "scheduled weekday QUARTER BEGIN (y, m, d) \<Longrightarrow>
      nextCalendarDate_QUARTER_BEGIN G (date_num (y, m, d)) =
      Inr (date_num (next_date weekday QUARTER BEGIN (y, m, d)))"
    using next_month_dates(1) [OF assms(1)] quarter_begin_loop [OF r(1) assms(2), of "m + 1"] assms(2)
    by (auto simp: nextCalendarDate_QUARTER_BEGIN_def quarter_end_def simp del: quarter_loop.simps)
  show "scheduled weekday QUARTER END (y, m, d) \<Longrightarrow>
      nextCalendarDate_QUARTER_END G (date_num (y, m, d)) =
      Inr (date_num (next_date weekday QUARTER END (y, m, d)))"
    using next_month_dates(2) [OF assms(1)] quarter_end_loop [OF r(1), of "m + 1"]
      quarter_end_loop [of "y + 1" 1] assms(2) r
    by (auto simp: nextCalendarDate_QUARTER_END_def quarter_end_def simp del: quarter_loop.simps)
qed

text \<open>All the rules together.\<close>

lemma first_code:
  assumes "firstCalendarDate G D p = Some f" "valid_date t" "fst t < 9999"
  shows "f (date_num t) = Inr (date_num (first_date weekday D p t))"
proof -
  obtain y m d where t: "t = (y, m, d)" by (metis prod_cases3)
  show ?thesis
    using assms first_week [of t] first_half_month [of y m d] first_month [of y m d]
      first_quarter [of y m d] first_year [of y m d] unfolding t
    by (cases D; cases p) (simp_all del: first_date.simps)
qed

lemma next_code:
  assumes "nextCalendarDate G D p = Some f" "valid_date t" "fst t < 9999" "scheduled weekday D p t"
  shows "f (date_num t) = Inr (date_num (next_date weekday D p t))"
proof -
  obtain y m d where t: "t = (y, m, d)" by (metis prod_cases3)
  show ?thesis
    using assms next_week [of t] next_half_month [of y m d] next_month_dates [of y m d]
      next_quarter [of y m d] next_year [of y m d] unfolding t
    by (cases D; cases p) simp_all
qed

lemma first_is_earliest:
  assumes "firstCalendarDate G D p = Some f" "valid_date t" "fst t < 9999"
  shows "\<exists>u. f (date_num t) = Inr (date_num u) \<and> earliest (scheduled weekday D p) (date_num t) u"
proof -
  have "D \<noteq> DAY" using assms(1) by (cases D; cases p) simp_all
  then show ?thesis using first_code [OF assms] first_date_earliest [OF weekday assms(2,3)] by blast
qed

lemma next_is_earliest:
  assumes "nextCalendarDate G D p = Some f" "valid_date t" "fst t < 9999" "scheduled weekday D p t"
  shows "\<exists>u. f (date_num t) = Inr (date_num u) \<and> earliest (scheduled weekday D p) (date_num t + 1) u"
proof -
  have "D \<noteq> DAY" using assms(1) by (cases D; cases p) simp_all
  then show ?thesis using next_code [OF assms] next_date_earliest [OF weekday assms(2,3) _ assms(4)] by blast
qed

end

subsection \<open>A calendar that meets the contract\<close>

text \<open>Days since the first of January of the year 1, a Monday.\<close>

definition month_start :: "nat \<Rightarrow> nat \<Rightarrow> nat" where
  "month_start y m =
     [0, 31, 59, 90, 120, 151, 181, 212, 243, 273, 304, 334] ! (m - 1) +
     (if 2 < m \<and> leap_year y then 1 else 0)"

definition year_days :: "nat \<Rightarrow> nat" where
  "year_days n = 365 * n + n div 4 + n div 400 - n div 100"

fun day_count :: "date \<Rightarrow> nat" where
  "day_count (y, m, d) = year_days (y - 1) + month_start y m + d"

definition civil_weekday :: "date \<Rightarrow> nat" where
  "civil_weekday t = day_count t mod 7"

definition civil_parse :: "string \<Rightarrow> date option" where
  "civil_parse s =
     (let n = digits_val s; t = (n div 10000, n div 100 mod 100, n mod 100)
      in if valid_date t then Some t else None)"

definition civil :: "date gregorian" where
  "civil = \<lparr>g_from_undelimited_string = civil_parse,
     g_to_iso_string = (\<lambda>t. if valid_date t then Some (to_string (date_num t)) else None),
     g_year = fst, g_month = (\<lambda>t. fst (snd t)), g_day = (\<lambda>t. snd (snd t)),
     g_day_of_week = civil_weekday,
     g_plus_days = (\<lambda>t k. Some ((next_day ^^ k) t)),
     g_plus_years = (\<lambda>(y, m, d) n. let t = (y + n, m, min d (days_in_month (y + n) m))
                      in if valid_date t then Some t else None),
     g_end_of_month = (\<lambda>(y, m, d). Some (y, m, days_in_month y m)),
     g_first_day_of_the_week_after = (\<lambda>w t. Some ((next_day ^^ days_to w (civil_weekday t)) t)),
     g_date = (\<lambda>y m d. if valid_date (y, m, d) then Some (y, m, d) else None)\<rparr>"

lemma Suc_div_cases: "0 < k \<Longrightarrow> Suc n div k = n div k + (if k dvd Suc n then 1 else 0)"
  by (simp add: div_Suc dvd_eq_mod_eq_0)

lemma year_days_arith:
  assumes "c \<le> a" "x100 \<Longrightarrow> x4" "x400 \<Longrightarrow> x100"
  shows "365 * Suc n + (a + (if x4 then 1 else 0)) + (b + (if x400 then 1 else 0)) -
      (c + (if x100 then 1 else 0)) =
     365 * n + a + b - c + (if x4 \<and> (\<not> x100 \<or> x400) then 366 else (365 :: nat))"
  using assms by (cases x4; cases x100; cases x400) auto

lemma year_days_Suc: "year_days (Suc n) = year_days n + (if leap_year (Suc n) then 366 else 365)"
proof -
  have "4 dvd Suc n" if "100 dvd Suc n" using that by (rule dvd_trans [rotated]) simp
  moreover have "100 dvd Suc n" if "400 dvd Suc n" using that by (rule dvd_trans [rotated]) simp
  moreover have "n div 100 \<le> n div 4" by (intro div_le_mono2) auto
  moreover have "Suc n div 4 = n div 4 + (if 4 dvd Suc n then 1 else 0)"
    "Suc n div 100 = n div 100 + (if 100 dvd Suc n then 1 else 0)"
    "Suc n div 400 = n div 400 + (if 400 dvd Suc n then 1 else 0)"
    by (rule Suc_div_cases, simp)+
  ultimately show ?thesis unfolding year_days_def leap_year_def
    by (simp only: year_days_arith)
qed

lemma day_count_next:
  assumes "valid_date t"
  shows "day_count (next_day t) = day_count t + 1"
proof -
  obtain y m d where t: "t = (y, m, d)" by (metis prod_cases3)
  have m: "1 \<le> m" "m \<le> 12" and y: "y = Suc (y - 1)" and d: "d \<le> days_in_month y m"
    using assms t by (auto simp: valid_date.simps)
  show ?thesis
  proof (cases "d < days_in_month y m")
    case True
    then show ?thesis unfolding t by (simp add: next_day.simps)
  next
    case False
    then have "d = days_in_month y m" using d by simp
    then show ?thesis
      using year_days_Suc [of "y - 1"] y unfolding t
      by (cases rule: month_cases [OF m])
        (auto simp: next_day.simps days_in_month_def month_start_def)
  qed
qed

lemma civil_weekday_law: "weekday_law civil_weekday"
  unfolding weekday_law_def
proof (intro conjI allI impI)
  fix t show "civil_weekday t < 7" by (simp add: civil_weekday_def)
next
  fix t assume "valid_date t"
  then show "civil_weekday (next_day t) = (civil_weekday t + 1) mod 7"
    by (simp add: civil_weekday_def day_count_next mod_simps)
qed

lemma civil_parse_num:
  assumes "valid_date t"
  shows "civil_parse (to_string (date_num t)) = Some t"
proof -
  obtain y m d where t: "t = (y, m, d)" by (metis prod_cases3)
  have b: "m \<le> 12" "d < 100" using assms days_before [of y m d] unfolding t by (auto simp: valid_date.simps)
  have n: "date_num t = d + (100 * y + m) * 100" by (simp add: t date_num.simps)
  have "date_num t div 100 = 100 * y + m" "date_num t mod 100 = d"
    unfolding n using b by (simp_all only: div_mult_self1 mod_mult_self1) simp_all
  moreover have "date_num t div 10000 = date_num t div 100 div 100"
    by (simp add: div_mult2_eq [symmetric])
  ultimately have "date_num t div 10000 = y" "date_num t div 100 mod 100 = m" "date_num t mod 100 = d"
    using b by simp_all
  then show ?thesis using assms by (simp add: civil_parse_def digits_val_to_string t Let_def)
qed

interpretation civil: gregorian_contract civil civil_weekday
proof unfold_locales
  show "weekday_law civil_weekday" by (rule civil_weekday_law)
qed (auto simp: civil_def ymd_def civil_parse_num valid_date.simps Let_def days_in_month_def min_def)

subsection \<open>Properties\<close>

text \<open>
  For every rule that has an overload and every date before the year 9999,
  \<open>firstCalendarDate\<close> returns, without an exception, the earliest date on the
  rule that is not before the given one.
\<close>

theorem calendar_first:
  assumes "gregorian_contract G weekday" "firstCalendarDate G D p = Some f"
    and "valid_date t" "fst t < 9999"
  shows "\<exists>u. f (date_num t) = Inr (date_num u) \<and> earliest (scheduled weekday D p) (date_num t) u"
  by (rule gregorian_contract.first_is_earliest [OF assms])

theorem calendar_first_witness:
  "\<exists>u. firstCalendarDate_QUARTER_END civil (date_num (2018, 10, 19)) = Inr (date_num u) \<and>
     earliest (scheduled civil_weekday QUARTER END) (date_num (2018, 10, 19)) u"
  by (rule calendar_first [of civil civil_weekday QUARTER END _ "(2018, 10, 19)"])
    (simp_all add: civil.gregorian_contract_axioms valid_date.simps days_in_month_def)

text \<open>
  Property C17: from a date on a rule, \<open>nextCalendarDate\<close> returns the earliest date on
  the rule after it, also over the ends of months, leap days and years; the loop of the
  quarter rules never reaches its coding error.
\<close>

theorem calendar_next:
  assumes "gregorian_contract G weekday" "nextCalendarDate G D p = Some f"
    and "valid_date t" "fst t < 9999" "scheduled weekday D p t"
  shows "\<exists>u. f (date_num t) = Inr (date_num u) \<and> earliest (scheduled weekday D p) (date_num t + 1) u"
  by (rule gregorian_contract.next_is_earliest [OF assms])

theorem calendar_next_witness:
  "\<exists>u. nextCalendarDate_BI_MONTH_END civil (date_num (2020, 2, 29)) = Inr (date_num u) \<and>
     earliest (scheduled civil_weekday BI_MONTH END) (date_num (2020, 2, 29) + 1) u"
  by (rule calendar_next [of civil civil_weekday BI_MONTH END _ "(2020, 2, 29)"])
    (simp_all add: civil.gregorian_contract_axioms valid_date.simps days_in_month_def leap_year_def)

end
