(* ===== verification/Text_Messages.thy ===== *)
theory Text_Messages
  imports Cpp_Text
begin

text \<open>
  The parser of textual FIX messages, \<open>diff/MesageParser.cpp\<close>: the constants and
  tables of \<open>MsConsts\<close>, the message classes with their map from tags to values, and
  the factory that reads the message type, creates the object and fills its map. The
  tokenizer and \<open>lexical_cast\<close> are Boost's, a record of functions here.
\<close>

subsection \<open>Constants\<close>

datatype MsType = UnknownMsType | Logon | NewOrderSingle

datatype FieldType = UnknownFieldType | FChar | FInt | FString | UTCTimestampt

type_synonym Tag = int

definition BeginString :: Tag where "BeginString = 8"
definition BodyLength :: Tag where "BodyLength = 9"
definition MsgSeqNum :: Tag where "MsgSeqNum = 34"
definition MsgType :: Tag where "MsgType = 35"
definition SenderCompID :: Tag where "SenderCompID = 49"
definition SenderSubID :: Tag where "SenderSubID = 50"
definition SendingTime :: Tag where "SendingTime = 52"
definition TargetCompID :: Tag where "TargetCompID = 56"
definition TargetSubID :: Tag where "TargetSubID = 57"
definition SenderLocationID :: Tag where "SenderLocationID = 142"

lemmas tag_defs = BeginString_def BodyLength_def MsgSeqNum_def MsgType_def SenderCompID_def
  SenderSubID_def SendingTime_def TargetCompID_def TargetSubID_def SenderLocationID_def

definition getFieldType :: "Tag \<Rightarrow> FieldType" where
  "getFieldType tag =
     (if tag = BeginString then FString
      else if tag = BodyLength then FInt
      else if tag = MsgSeqNum then FInt
      else if tag = MsgType then FString
      else if tag = SenderCompID then FString
      else if tag = SenderSubID then FString
      else if tag = SendingTime then UTCTimestampt
      else if tag = TargetCompID then FString
      else if tag = TargetSubID then FString
      else if tag = SenderLocationID then FString
      else UnknownFieldType)"

text \<open>\<open>MsConsts::getMsType\<close> looks at the first character only.\<close>

definition ms_type_of :: "string \<Rightarrow> MsType" where
  "ms_type_of type = (case type of [] \<Rightarrow> UnknownMsType
     | c # _ \<Rightarrow> if c = CHR ''A'' then Logon else UnknownMsType)"

definition SEPARATOR :: string where "SEPARATOR = ''^''"
definition INVALID_VALUE :: string where "INVALID_VALUE = []"

subsection \<open>Searching strings\<close>

text \<open>\<open>std::string::find\<close>, from the start and from a position.\<close>

fun str_find :: "string \<Rightarrow> string \<Rightarrow> nat option" where
  "str_find pat s =
     (if take (length pat) s = pat then Some 0
      else case s of [] \<Rightarrow> None | c # cs \<Rightarrow> map_option Suc (str_find pat cs))"

declare str_find.simps [simp del]

definition str_find_from :: "string \<Rightarrow> string \<Rightarrow> nat \<Rightarrow> nat option" where
  "str_find_from pat s pos =
     (if length s < pos then None else map_option (\<lambda>k. pos + k) (str_find pat (drop pos s)))"

subsection \<open>Messages\<close>

record boost_text =
  tokens :: "string \<Rightarrow> string \<Rightarrow> string list"
  lexical_cast_string :: "int \<Rightarrow> string"
  lexical_cast_int :: "string \<Rightarrow> int option"

text \<open>
  What the functions throw: string literals, strings, the exception of
  \<open>lexical_cast\<close>; and a pointer outside of its literal, which no handler can read.
\<close>

datatype msg_error = Throw_literal string | Throw_string string | Bad_lexical_cast | Throw_wild_pointer

type_synonym TagMap = "Tag \<rightharpoonup> string"

text \<open>\<open>MsBase::getMsType\<close>\<close>

definition getMsType :: "boost_text \<Rightarrow> string \<Rightarrow> MsType" where
  "getMsType B ms =
     (let bStr = SEPARATOR @ lexical_cast_string B MsgType @ ''='' in
      case str_find bStr ms of
        None \<Rightarrow> UnknownMsType
      | Some bgn \<Rightarrow> (case str_find_from SEPARATOR ms (bgn + 1) of
          None \<Rightarrow> UnknownMsType
        | Some end \<Rightarrow>
            let bgn = bgn + length bStr in
            if end - bgn < 1 then UnknownMsType else ms_type_of (take (end - bgn) (drop bgn ms))))"

definition MsBase :: TagMap where
  "MsBase = [BeginString \<mapsto> INVALID_VALUE, BodyLength \<mapsto> INVALID_VALUE, MsgSeqNum \<mapsto> INVALID_VALUE,
     MsgType \<mapsto> INVALID_VALUE, SenderCompID \<mapsto> INVALID_VALUE, TargetCompID \<mapsto> INVALID_VALUE]"

definition Message_Logon :: TagMap where
  "Message_Logon = MsBase(SenderSubID \<mapsto> INVALID_VALUE, TargetSubID \<mapsto> INVALID_VALUE,
     SendingTime \<mapsto> INVALID_VALUE)"

definition getFieldValue :: "TagMap \<Rightarrow> Tag \<Rightarrow> string" where
  "getFieldValue m_tagMap tag = (case m_tagMap tag of None \<Rightarrow> INVALID_VALUE | Some v \<Rightarrow> v)"

text \<open>
  \<open>throw ("Invalid tag " + tag)\<close> adds the number to the address of the literal: only
  the first 12 tags leave a pointer into it.
\<close>

definition setValue :: "TagMap \<Rightarrow> Tag \<Rightarrow> string \<Rightarrow> msg_error + TagMap" where
  "setValue m_tagMap tag v =
     (case m_tagMap tag of
        None \<Rightarrow> if 0 \<le> tag \<and> tag \<le> 12 then Inl (Throw_literal (drop (nat tag) ''Invalid tag ''))
                else Inl Throw_wild_pointer
      | Some _ \<Rightarrow> Inr (m_tagMap(tag \<mapsto> v)))"

definition setField :: "boost_text \<Rightarrow> TagMap \<Rightarrow> string \<Rightarrow> msg_error + TagMap" where
  "setField B m_tagMap fld =
     (case str_find ''='' fld of
        None \<Rightarrow> Inl (Throw_string (''Invalid field '' @ fld))
      | Some pos \<Rightarrow>
          if pos < 1 \<or> length fld < pos + 2 then Inl (Throw_string (''Invalid field '' @ fld))
          else (case lexical_cast_int B (take pos fld) of
              None \<Rightarrow> Inl Bad_lexical_cast
            | Some tag \<Rightarrow> setValue m_tagMap tag (drop (pos + 1) fld)))"

fun parse_tokens :: "boost_text \<Rightarrow> TagMap \<Rightarrow> string list \<Rightarrow> msg_error + TagMap" where
  "parse_tokens B m_tagMap [] = Inr m_tagMap"
| "parse_tokens B m_tagMap (tok # toks) =
     er_bind (setField B m_tagMap tok) (\<lambda>m. parse_tokens B m toks)"

definition parse_ms :: "boost_text \<Rightarrow> TagMap \<Rightarrow> string \<Rightarrow> msg_error + TagMap" where
  "parse_ms B m_tagMap ms = parse_tokens B m_tagMap (tokens B SEPARATOR ms)"

definition makeMessage :: "boost_text \<Rightarrow> string \<Rightarrow> msg_error + TagMap" where
  "makeMessage B ms =
     (case getMsType B ms of
        UnknownMsType \<Rightarrow> Inl (Throw_literal ''Unknown Message Type '')
      | Logon \<Rightarrow> parse_ms B Message_Logon ms
      | NewOrderSingle \<Rightarrow> Inl (Throw_literal ''Cannot create message object  ''))"

subsection \<open>The text of a list of fields\<close>

fun join :: "string \<Rightarrow> string list \<Rightarrow> string" where
  "join sep [] = []"
| "join sep [t] = t"
| "join sep (t # u # ts) = t @ sep @ join sep (u # ts)"

definition field_text :: "nat \<times> string \<Rightarrow> string" where
  "field_text f = to_string (fst f) @ ''='' @ snd f"

definition message_text :: "(nat \<times> string) list \<Rightarrow> string" where
  "message_text fs = join SEPARATOR (map field_text fs)"

definition tail_text :: "(nat \<times> string) list \<Rightarrow> string" where
  "tail_text fs = concat (map (\<lambda>f. SEPARATOR @ field_text f) fs)"

lemma message_text_Cons: "message_text (f # fs) = field_text f @ tail_text fs"
proof -
  have "join SEPARATOR (t # ts) = t @ concat (map (\<lambda>u. SEPARATOR @ u) ts)" for t ts
    by (induction ts arbitrary: t) simp_all
  then show ?thesis by (simp add: message_text_def tail_text_def o_def)
qed

lemma tail_text_simps [simp]:
  "tail_text [] = []"
  "tail_text (f # fs) = CHR ''^'' # field_text f @ tail_text fs"
  "tail_text (fs @ gs) = tail_text fs @ tail_text gs"
  by (simp_all add: tail_text_def SEPARATOR_def)

subsection \<open>Facts on searching\<close>

lemma digit_not_sep: "is_digit c \<Longrightarrow> c \<noteq> CHR ''='' \<and> c \<noteq> CHR ''^''"
  by (auto simp: is_digit_def)

lemma str_find_Nil: "str_find (p # ps) [] = None"
  by (simp add: str_find.simps)

lemma str_find_Cons:
  "str_find (p # ps) (c # cs) =
    (if take (length ps) cs = ps \<and> c = p then Some 0 else map_option Suc (str_find (p # ps) cs))"
  by (subst str_find.simps) auto

lemma str_find_skip:
  "p \<notin> set s \<Longrightarrow> str_find (p # ps) (s @ r) = map_option (\<lambda>k. length s + k) (str_find (p # ps) r)"
  by (induction s) (cases "str_find (p # ps) r"; auto simp: str_find_Cons)+

lemma str_find_char: "c \<notin> set s \<Longrightarrow> str_find [c] (s @ c # r) = Some (length s)"
  by (simp add: str_find_skip str_find_Cons)

text \<open>No other tag is written like that of the type.\<close>

lemma to_string_35: "to_string 35 = ''35''"
  by code_simp

lemma tag_text_unique:
  assumes "take 3 (to_string n @ CHR ''='' # r) = ''35=''"
  shows "n = 35"
proof -
  have "takeWhile is_digit (to_string n @ CHR ''='' # r) = to_string n"
    using to_string_digits [of _ n] by (simp add: is_digit_def)
  moreover obtain q where "to_string n @ CHR ''='' # r = ''35='' @ q"
    using assms append_take_drop_id [of 3 "to_string n @ CHR ''='' # r"] by metis
  ultimately have "to_string n = ''35''" by (simp add: is_digit_def)
  then have "digits_val (to_string n) = digits_val (to_string 35)" by (simp add: to_string_35)
  then show ?thesis by (simp add: digits_val_to_string)
qed

text \<open>Fields that can be written: a tag that fits \<open>int\<close>, a value that is not empty and has no separator.\<close>

definition plain_field :: "nat \<times> string \<Rightarrow> bool" where
  "plain_field f = (fst f < 2 ^ 31 \<and> snd f \<noteq> [] \<and> CHR ''^'' \<notin> set (snd f))"

lemma field_text_plain:
  assumes "plain_field f"
  shows "field_text f \<noteq> []" "CHR ''^'' \<notin> set (field_text f)"
  using assms to_string_digits [of _ "fst f"] digit_not_sep
  by (auto simp: field_text_def plain_field_def)

lemma str_find_field:
  assumes "n \<noteq> 35" "plain_field (n, w)"
  shows "str_find ''^35='' (CHR ''^'' # field_text (n, w) @ r) =
    map_option (\<lambda>k. Suc (length (field_text (n, w))) + k) (str_find ''^35='' r)"
proof -
  have "take (length ''35='') (field_text (n, w) @ r) \<noteq> ''35=''"
    using tag_text_unique [of n "w @ r"] assms(1) by (auto simp: field_text_def numeral_3_eq_3)
  then show ?thesis
    using field_text_plain(2) [OF assms(2)]
    by (simp add: str_find_Cons str_find_skip option.map_comp o_def del: take_append)
qed

lemma str_find_type:
  assumes "\<And>f. f \<in> set pre \<Longrightarrow> plain_field f \<and> fst f \<noteq> 35"
  shows "str_find ''^35='' (tail_text pre @ CHR ''^'' # field_text (35, v) @ r) = Some (length (tail_text pre))"
  using assms
proof (induction pre)
  case Nil
  then show ?case by (simp add: str_find_Cons field_text_def to_string_35)
next
  case (Cons f pre)
  obtain n w where f: "f = (n, w)" by (cases f)
  have "n \<noteq> 35" "plain_field (n, w)" using Cons.prems [of f] f by auto
  then show ?case using Cons by (simp add: f str_find_field)
qed

lemma str_find_no_type:
  assumes "\<And>f. f \<in> set fs \<Longrightarrow> plain_field f \<and> fst f \<noteq> 35"
  shows "str_find ''^35='' (tail_text fs) = None"
  using assms
proof (induction fs)
  case Nil
  then show ?case by (simp add: str_find_Nil)
next
  case (Cons f fs)
  obtain n w where f: "f = (n, w)" by (cases f)
  have "n \<noteq> 35" "plain_field (n, w)" using Cons.prems [of f] f by auto
  then show ?case using Cons by (simp add: f str_find_field)
qed

subsection \<open>What the parser relies on\<close>

locale boost_text_contract =
  fixes B :: boost_text
  assumes tokens_join: "(\<And>t. t \<in> set ts \<Longrightarrow> t \<noteq> [] \<and> c \<notin> set t) \<Longrightarrow> tokens B [c] (join [c] ts) = ts"
    and cast_string: "lexical_cast_string B (int n) = to_string n"
    and cast_int: "n < 2 ^ 31 \<Longrightarrow> lexical_cast_int B (to_string n) = Some (int n)"
begin

text \<open>Reading a field back.\<close>

lemma find_equals: "str_find ''='' (field_text (n, v)) = Some (length (to_string n))"
proof -
  have "CHR ''='' \<notin> set (to_string n)" using to_string_digits digit_not_sep by blast
  then show ?thesis using str_find_char [of "CHR ''=''" "to_string n" v] by (simp add: field_text_def)
qed

lemma setField_text:
  assumes "plain_field (n, v)"
  shows "setField B m (field_text (n, v)) = setValue m (int n) v"
proof -
  have "0 < length (to_string n)" using to_string_nonempty by simp
  then show ?thesis
    using assms cast_int [of n] find_equals [of n v]
    by (cases v) (simp_all add: plain_field_def setField_def field_text_def Suc_le_eq)
qed

lemma parse_fields:
  assumes "\<And>f. f \<in> set fs \<Longrightarrow> plain_field f \<and> int (fst f) \<in> dom m"
  shows "parse_tokens B m (map field_text fs @ toks) =
    parse_tokens B (m ++ map_of (rev (map (\<lambda>f. (int (fst f), snd f)) fs))) toks"
  using assms
proof (induction fs arbitrary: m)
  case Nil
  then show ?case by simp
next
  case (Cons f fs)
  obtain n v where f: "f = (n, v)" by (cases f)
  have "setField B m (field_text f) = Inr (m(int n \<mapsto> v))"
    using Cons.prems [of f] by (auto simp: f setField_text setValue_def)
  moreover have "parse_tokens B (m(int n \<mapsto> v)) (map field_text fs @ toks) =
      parse_tokens B (m(int n \<mapsto> v) ++ map_of (rev (map (\<lambda>f. (int (fst f), snd f)) fs))) toks"
  proof (rule Cons.IH)
    fix g assume "g \<in> set fs"
    then show "plain_field g \<and> int (fst g) \<in> dom (m(int n \<mapsto> v))" using Cons.prems [of g] by auto
  qed
  ultimately show ?case by (simp add: f map_add_upd_left)
qed

lemma tokens_text:
  assumes "\<And>f. f \<in> set fs \<Longrightarrow> plain_field f"
  shows "tokens B SEPARATOR (message_text fs) = map field_text fs"
  unfolding message_text_def SEPARATOR_def
  using assms field_text_plain by (intro tokens_join) auto

text \<open>The type is read from the first type field that is neither the first nor the last field.\<close>

lemma type_of_text:
  assumes "\<And>f. f \<in> set (f0 # pre) \<Longrightarrow> plain_field f" "\<And>f. f \<in> set pre \<Longrightarrow> fst f \<noteq> 35"
    and "plain_field (35, v)"
  shows "getMsType B (message_text (f0 # pre @ (35, v) # post)) =
    (if post = [] then UnknownMsType else ms_type_of v)"
proof -
  define lead where "lead = field_text f0 @ tail_text pre"
  define ms where "ms = message_text (f0 # pre @ (35, v) # post)"
  have ms: "ms = lead @ ''^35='' @ v @ tail_text post"
    by (simp add: ms_def lead_def message_text_Cons field_text_def to_string_35)
  have bstr: "SEPARATOR @ lexical_cast_string B MsgType @ ''='' = ''^35=''"
    using cast_string [of 35] by (simp add: SEPARATOR_def MsgType_def to_string_35)
  have found: "str_find ''^35='' ms = Some (length lead)"
    using str_find_type [of pre v "tail_text post"] str_find_skip [of "CHR ''^''" "field_text f0"]
      field_text_plain(2) [of f0] assms
    by (simp add: ms_def lead_def message_text_Cons)
  have v: "CHR ''^'' \<notin> set v" "v \<noteq> []" using assms(3) by (auto simp: plain_field_def)
  have rest: "drop (length lead + 1) ms = (''35='' @ v) @ tail_text post" by (simp add: ms)
  have sep: "CHR ''^'' \<notin> set (''35='' @ v)" using v by simp
  show ?thesis
  proof (cases post)
    case Nil
    then have "str_find_from SEPARATOR ms (length lead + 1) = None"
      using rest str_find_skip [OF sep, of "[]" "[]"]
      by (simp add: str_find_from_def SEPARATOR_def str_find_Nil)
    then have "getMsType B ms = UnknownMsType" using found by (simp only: getMsType_def bstr Let_def option.case)
    then show ?thesis using Nil by (simp add: ms_def)
  next
    case (Cons g gs)
    then have "str_find_from SEPARATOR ms (length lead + 1) = Some (length lead + 4 + length v)"
      using rest str_find_char [OF sep] by (simp add: str_find_from_def SEPARATOR_def ms)
    then have "getMsType B ms = ms_type_of v"
      using found v(2) by (simp add: getMsType_def bstr Let_def Suc_le_eq del: append.simps) (simp add: ms)
    then show ?thesis using Cons by (simp add: ms_def)
  qed
qed

end

subsection \<open>A tokenizer and casts that meet the contract\<close>

fun pieces :: "string \<Rightarrow> string \<Rightarrow> string \<Rightarrow> string list" where
  "pieces sep cur [] = (if cur = [] then [] else [rev cur])"
| "pieces sep cur (c # cs) =
     (if c \<in> set sep then (if cur = [] then [] else [rev cur]) @ pieces sep [] cs
      else pieces sep (c # cur) cs)"

definition text_tools :: boost_text where
  "text_tools = \<lparr>tokens = (\<lambda>sep s. pieces sep [] s), lexical_cast_string = (\<lambda>v. to_string (nat v)),
     lexical_cast_int = (\<lambda>s. if s \<noteq> [] \<and> list_all is_digit s \<and> digits_val s < 2 ^ 31
                          then Some (int (digits_val s)) else None)\<rparr>"

lemma pieces_skip: "c \<notin> set t \<Longrightarrow> pieces [c] cur (t @ r) = pieces [c] (rev t @ cur) r"
  by (induction t arbitrary: cur) auto

lemma pieces_join:
  "(\<And>t. t \<in> set ts \<Longrightarrow> t \<noteq> [] \<and> c \<notin> set t) \<Longrightarrow> pieces [c] [] (join [c] ts) = ts"
proof (induction "[c]" ts rule: join.induct)
  case (2 t)
  then show ?case using pieces_skip [of c t "[]" "[]"] by simp
next
  case (3 t u ts)
  then show ?case by (simp add: pieces_skip)
qed simp

interpretation text_tools: boost_text_contract text_tools
proof unfold_locales
  fix n :: nat assume "n < 2 ^ 31"
  then show "lexical_cast_int text_tools (to_string n) = Some (int n)"
    using to_string_digits by (simp add: text_tools_def digits_val_to_string to_string_nonempty list_all_iff)
qed (auto simp: text_tools_def pieces_join)

subsection \<open>Properties\<close>

text \<open>The tags a Logon message has a place for.\<close>

definition logon_tags :: "nat set" where
  "logon_tags = {8, 9, 34, 35, 49, 50, 52, 56, 57}"

lemma Message_Logon_dom: "int n \<in> dom Message_Logon \<longleftrightarrow> n \<in> logon_tags"
  by (auto simp: Message_Logon_def MsBase_def tag_defs logon_tags_def)

lemma Message_Logon_empty: "getFieldValue (Message_Logon ++ m) t = (case m t of Some v \<Rightarrow> v | None \<Rightarrow> [])"
  by (cases "m t") (auto simp: getFieldValue_def Message_Logon_def MsBase_def INVALID_VALUE_def map_add_def
      split: option.split if_splits)

lemma map_of_int_tags: "map_of (rev (map (\<lambda>f. (int (fst f), snd f)) fs)) (int n) = map_of (rev fs) n"
  for fs :: "(nat \<times> 'b) list"
proof -
  have "map_of (map (\<lambda>f. (int (fst f), snd f)) gs) (int n) = map_of gs n" for gs :: "(nat \<times> 'b) list"
    by (induction gs) auto
  from this [of "rev fs"] show ?thesis by (simp only: rev_map)
qed

context boost_text_contract
begin

lemma logon_text:
  assumes "\<And>f. f \<in> set (f0 # pre @ (35, v) # g # post) \<Longrightarrow> plain_field f"
    and "\<And>f. f \<in> set pre \<Longrightarrow> fst f \<noteq> 35" "hd v = CHR ''A''"
    and "f0 # pre @ (35, v) # g # post = good @ rest"
    and "\<And>f. f \<in> set good \<Longrightarrow> fst f \<in> logon_tags"
  shows "makeMessage B (message_text (good @ rest)) =
    parse_tokens B (Message_Logon ++ map_of (rev (map (\<lambda>f. (int (fst f), snd f)) good))) (map field_text rest)"
proof -
  have plain: "plain_field f" if "f \<in> set (good @ rest)" for f
    using assms(1) [of f] that unfolding assms(4) .
  have "plain_field (35, v)" by (rule assms(1)) simp
  moreover from this have "ms_type_of v = Logon"
    using assms(3) by (cases v) (auto simp: plain_field_def ms_type_of_def)
  moreover have "plain_field f" if "f \<in> set (f0 # pre)" for f using assms(1) [of f] that by auto
  ultimately have "getMsType B (message_text (f0 # pre @ (35, v) # g # post)) = Logon"
    using type_of_text [where pre = pre and v = v and post = "g # post", OF _ assms(2), of f0] by simp
  then have "makeMessage B (message_text (good @ rest)) =
      parse_tokens B Message_Logon (map field_text good @ map field_text rest)"
    using tokens_text [of "good @ rest"] plain unfolding assms(4)
    by (simp add: makeMessage_def parse_ms_def)
  moreover have "plain_field f \<and> int (fst f) \<in> dom Message_Logon" if "f \<in> set good" for f
    using plain [of f] assms(5) [of f] that Message_Logon_dom by simp
  ultimately show ?thesis using parse_fields [of good Message_Logon] by simp
qed

lemma logon_values:
  assumes "\<And>f. f \<in> set (f0 # pre @ (35, v) # g # post) \<Longrightarrow> plain_field f \<and> fst f \<in> logon_tags"
    and "\<And>f. f \<in> set pre \<Longrightarrow> fst f \<noteq> 35" "hd v = CHR ''A''"
  shows "\<exists>m. makeMessage B (message_text (f0 # pre @ (35, v) # g # post)) = Inr m \<and>
    (\<forall>n. getFieldValue m (int n) =
      (case map_of (rev (f0 # pre @ (35, v) # g # post)) n of Some w \<Rightarrow> w | None \<Rightarrow> []))"
proof -
  define fs where "fs = f0 # pre @ (35, v) # g # post"
  define m where "m = map_of (rev (map (\<lambda>f. (int (fst f), snd f)) fs))"
  have "makeMessage B (message_text (fs @ [])) = parse_tokens B (Message_Logon ++ m) (map field_text [])"
    unfolding m_def by (rule logon_text [of f0 pre v g post]) (use assms in \<open>auto simp: fs_def\<close>)
  then have "makeMessage B (message_text fs) = Inr (Message_Logon ++ m)" by simp
  moreover have "getFieldValue (Message_Logon ++ m) (int n) = (case map_of (rev fs) n of Some w \<Rightarrow> w | None \<Rightarrow> [])"
    for n by (simp only: Message_Logon_empty m_def map_of_int_tags)
  ultimately show ?thesis unfolding fs_def by blast
qed

lemma logon_unknown_tag:
  assumes "\<And>f. f \<in> set (f0 # pre @ (35, v) # g # post) \<Longrightarrow> plain_field f"
    and "\<And>f. f \<in> set pre \<Longrightarrow> fst f \<noteq> 35" "hd v = CHR ''A''"
    and "f0 # pre @ (35, v) # g # post = good @ (n, w) # rest"
    and "\<And>f. f \<in> set good \<Longrightarrow> fst f \<in> logon_tags" "n \<notin> logon_tags"
  shows "makeMessage B (message_text (good @ (n, w) # rest)) =
    Inl (if n \<le> 12 then Throw_literal (drop n ''Invalid tag '') else Throw_wild_pointer)"
proof -
  have "plain_field (n, w)" by (rule assms(1)) (simp add: assms(4))
  moreover have "(Message_Logon ++ map_of (rev (map (\<lambda>f. (int (fst f), snd f)) good))) (int n) = None"
  proof -
    have "n \<notin> fst ` set (rev good)" using assms(5,6) by auto
    then have "map_of (rev good) n = None" by (simp add: map_of_eq_None_iff)
    then show ?thesis using Message_Logon_dom [of n] assms(6) map_of_int_tags [of good n]
      by (auto simp: map_add_def)
  qed
  ultimately show ?thesis
    using logon_text [OF assms(1-5)]
    by (simp add: setField_text setValue_def del: map_add_None)
qed

end

text \<open>
  Property C20: writing a Logon message as text and parsing it gives the message back: every
  tag has the value of its last field in the text, and tags without a field have the empty
  value, provided the type field is neither the first nor the last one.
\<close>

theorem logon_text_roundtrip:
  assumes "boost_text_contract B"
    and "\<And>f. f \<in> set (f0 # pre @ (35, v) # g # post) \<Longrightarrow> plain_field f \<and> fst f \<in> logon_tags"
    and "\<And>f. f \<in> set pre \<Longrightarrow> fst f \<noteq> 35" "hd v = CHR ''A''"
  shows "\<exists>m. makeMessage B (message_text (f0 # pre @ (35, v) # g # post)) = Inr m \<and>
    (\<forall>n. getFieldValue m (int n) =
      (case map_of (rev (f0 # pre @ (35, v) # g # post)) n of Some w \<Rightarrow> w | None \<Rightarrow> []))"
  by (rule boost_text_contract.logon_values [OF assms])

theorem logon_text_roundtrip_witness:
  "\<exists>m. makeMessage text_tools
      (message_text ((8, ''FIX.4.2'') # [(9, ''102'')] @ (35, ''A'') # (49, ''SMJN01'') # [(56, ''PFIX01'')])) = Inr m \<and>
    (\<forall>n. getFieldValue m (int n) =
      (case map_of (rev ((8, ''FIX.4.2'') # [(9, ''102'')] @ (35, ''A'') # (49, ''SMJN01'') # [(56, ''PFIX01'')])) n of
         Some w \<Rightarrow> w | None \<Rightarrow> []))"
  by (rule logon_text_roundtrip [OF text_tools.boost_text_contract_axioms])
    (auto simp: plain_field_def logon_tags_def)

text \<open>
  A field with a tag the message has no place for makes the factory throw. The
  exception is \<open>"Invalid tag " + tag\<close>, the address of the literal moved by the tag:
  a suffix of the literal for the tags up to 12, and a pointer outside of it for every other
  one (all the unknown tags of FIX above 12).
\<close>

theorem unknown_tag_throws_wild_pointer:
  assumes "boost_text_contract B"
    and "\<And>f. f \<in> set (f0 # pre @ (35, v) # g # post) \<Longrightarrow> plain_field f"
    and "\<And>f. f \<in> set pre \<Longrightarrow> fst f \<noteq> 35" "hd v = CHR ''A''"
    and "f0 # pre @ (35, v) # g # post = good @ (n, w) # rest"
    and "\<And>f. f \<in> set good \<Longrightarrow> fst f \<in> logon_tags" "n \<notin> logon_tags"
  shows "makeMessage B (message_text (good @ (n, w) # rest)) =
    Inl (if n \<le> 12 then Throw_literal (drop n ''Invalid tag '') else Throw_wild_pointer)"
  by (rule boost_text_contract.logon_unknown_tag [OF assms])

theorem unknown_tag_throws_wild_pointer_witness:
  "makeMessage text_tools (message_text ([(8, ''FIX.4.2''), (35, ''A'')] @ (142, ''NY'') # [])) =
    Inl (if (142 :: nat) \<le> 12 then Throw_literal (drop 142 ''Invalid tag '') else Throw_wild_pointer)"
  by (rule unknown_tag_throws_wild_pointer
      [OF text_tools.boost_text_contract_axioms, where pre = "[]" and v = "''A''" and post = "[]"])
    (auto simp: plain_field_def logon_tags_def)

end
