(* ===== verification/Integral_Keys.thy ===== *)
theory Integral_Keys
  imports Prelude
begin

text \<open>
  Strings packed into machine integers that serve as keys of hash maps:
  \<open>diff/hash_map/ConstexprMath.h\<close> (tables computed at compile time),
  \<open>IntegralValue.h\<close> (a number in a base, or a fixed number of bits per character) and
  the 128-bit hash of \<open>MonotonicIntegralHashMap.h\<close>. The integer type \<open>T\<close> is a word
  type, \<open>size_t\<close> is \<open>u64\<close>, and a \<open>char\<close> is a signed byte, read with \<open>sint\<close>.
\<close>

unbundle bit_operations_syntax

type_synonym chars = "u8 list"

datatype key_error = Invalid_input string | Undefined_behaviour

subsection \<open>Tables computed at compile time\<close>

definition isBitSet :: "'w::len word \<Rightarrow> nat \<Rightarrow> bool" where
  "isBitSet value pos = (value AND push_bit pos 1 \<noteq> 0)"

definition setBit_at :: "'w::len word \<Rightarrow> nat \<Rightarrow> 'w word" where
  "setBit_at value pos = value OR push_bit pos 1"

definition unsetBit_at :: "'w::len word \<Rightarrow> nat \<Rightarrow> 'w word" where
  "unsetBit_at value pos = value AND NOT (push_bit pos 1)"

fun ConstevalIntPow :: "'w::len word \<Rightarrow> nat \<Rightarrow> 'w word" where
  "ConstevalIntPow Base 0 = 1"
| "ConstevalIntPow Base (Suc e) = ConstevalIntPow Base e * Base"

fun ConstevalIntPow_isValid :: "'w::len word \<Rightarrow> nat \<Rightarrow> bool" where
  "ConstevalIntPow_isValid Base 0 = True"
| "ConstevalIntPow_isValid Base (Suc e) = (ConstevalIntPow Base e \<le> (- 1) div Base)"

text \<open>The loops of the two table constructors; the number is that of the entries left.\<close>

fun pows_loop :: "'w::len word \<Rightarrow> nat \<Rightarrow> 'w word list \<Rightarrow> 'w word list option" where
  "pows_loop Base 0 vs = Some vs"
| "pows_loop Base (Suc r) vs =
     (if (- 1) div Base < last vs then None else pows_loop Base r (vs @ [last vs * Base]))"

definition ConstevalIntPows :: "'w::len word \<Rightarrow> nat \<Rightarrow> 'w word list" where
  "ConstevalIntPows Base n =
     (case pows_loop Base (n - 1) [1] of Some vs \<Rightarrow> vs | None \<Rightarrow> replicate n 0)"

definition ConstevalIntPows_isValid :: "'w::len word list \<Rightarrow> bool" where
  "ConstevalIntPows_isValid vs = (vs = replicate (length vs) 0)"

fun sums_loop :: "'w::len word \<Rightarrow> nat \<Rightarrow> 'w word list \<Rightarrow> 'w word list option" where
  "sums_loop Base 0 vs = Some vs"
| "sums_loop Base (Suc r) vs =
     (if (- 1) - Base < last vs then None else sums_loop Base r (vs @ [last vs + Base]))"

definition ConstevalIntSums :: "'w::len word \<Rightarrow> nat \<Rightarrow> 'w word list" where
  "ConstevalIntSums Base maximum =
     (let n = maximum div unat Base in
      case sums_loop Base (n - 1) [0] of Some vs \<Rightarrow> vs | None \<Rightarrow> (- 1) # replicate (n - 1) 0)"

definition ConstevalIntSums_isValid :: "'w::len word list \<Rightarrow> bool" where
  "ConstevalIntSums_isValid vs = (vs = (- 1) # replicate (length vs - 1) 0)"

text \<open>
  The number of bits of a value. Without a set bit the index of the loop wraps below 0 and
  the constant evaluation fails.
\<close>

fun bit_loop :: "nat \<Rightarrow> nat \<Rightarrow> nat option" where
  "bit_loop D 0 = None"
| "bit_loop D (Suc i) = (if bit D i then Some (i + 1) else bit_loop D i)"

definition bitNumber :: "nat \<Rightarrow> nat \<Rightarrow> nat option" where
  "bitNumber MaxBits Diff = bit_loop Diff MaxBits"

subsection \<open>Translation of characters\<close>

record translation_map =
  translate :: "u8 \<Rightarrow> u8 option"
  reverseTranslate :: "u8 \<Rightarrow> u8 option"

definition NoTranslationMap :: translation_map where
  "NoTranslationMap = \<lparr>translate = Some, reverseTranslate = Some\<rparr>"

text \<open>The two arrays of the alphanumeric map, filled by the constructor.\<close>

fun alnum_step :: "nat \<Rightarrow> nat list \<times> nat list \<Rightarrow> nat list \<times> nat list" where
  "alnum_step p (fwd, bwd) =
     (if 48 \<le> p \<and> p \<le> 57 then (let index = p - 48 + 1 in (fwd[p := index], bwd[index := p]))
      else if 65 \<le> p \<and> p \<le> 90 then (let index = p - 65 + 11 in (fwd[p := index], bwd[index := p]))
      else if p = 45 then (let index = 37 in (fwd[p := index], bwd[index := p]))
      else if 97 \<le> p \<and> p \<le> 122 then (let index = p - 97 + 38 in (fwd[p := index], bwd[index := p]))
      else (fwd[p := 128], bwd))"

definition alnum_arrays :: "nat list \<times> nat list" where
  "alnum_arrays = fold alnum_step [0..<128] (replicate 128 0, replicate 64 0)"

text \<open>
  Indexing with a negative \<open>char\<close> is out of bounds. The result is converted from
  \<open>size_t\<close> to \<open>char\<close>: 128, the invalid value, becomes negative.
\<close>

definition alnum_translate :: "u8 \<Rightarrow> u8 option" where
  "alnum_translate ch =
     (if sint ch < 0 then None else Some (word_of_nat (fst alnum_arrays ! unat ch)))"

definition alnum_reverse :: "u8 \<Rightarrow> u8 option" where
  "alnum_reverse ch =
     (if 0 \<le> sint ch \<and> sint ch \<le> 63 then Some (word_of_nat (snd alnum_arrays ! unat ch))
      else Some (word_of_nat 128))"

definition AlphaNumericMap :: translation_map where
  "AlphaNumericMap = \<lparr>translate = alnum_translate, reverseTranslate = alnum_reverse\<rparr>"

subsection \<open>A fixed number of bits per character\<close>

datatype ErrorPolicy = MaxInvalid | Exception

record tbit =
  tb_begin :: nat
  tb_end :: nat
  tb_map :: translation_map
  tb_policy :: ErrorPolicy

definition OneElementBits :: "nat \<Rightarrow> tbit \<Rightarrow> nat" where
  "OneElementBits MaxBits P = the (bitNumber MaxBits (tb_end P - tb_begin P - 1))"

definition MaxElementNum :: "nat \<Rightarrow> tbit \<Rightarrow> nat" where
  "MaxElementNum MaxBits P = MaxBits div OneElementBits MaxBits P"

definition Shifts :: "nat \<Rightarrow> tbit \<Rightarrow> u64 list" where
  "Shifts MaxBits P = ConstevalIntSums (word_of_nat (OneElementBits MaxBits P)) MaxBits"

definition OneElemenMask :: "nat \<Rightarrow> tbit \<Rightarrow> u8" where
  "OneElemenMask MaxBits P = fold (\<lambda>p mask. setBit_at mask p) [0..<OneElementBits MaxBits P] 0"

definition tbit_invalid :: "tbit \<Rightarrow> string \<Rightarrow> key_error + 'w::len word" where
  "tbit_invalid P what =
     (case tb_policy P of MaxInvalid \<Rightarrow> Inr (- 1) | Exception \<Rightarrow> Inl (Invalid_input what))"

text \<open>A \<open>char\<close> compared with \<open>size_t\<close> is first extended to 64 bits, sign included.\<close>

definition char_size_t :: "u8 \<Rightarrow> nat" where
  "char_size_t c = unat (scast c :: u64)"

fun tbit_loop :: "tbit \<Rightarrow> nat \<Rightarrow> chars \<Rightarrow> 'w::len word \<Rightarrow> key_error + 'w word" where
  "tbit_loop P p [] value = Inr value"
| "tbit_loop P p (c # cs) value =
     (case translate (tb_map P) c of
        None \<Rightarrow> Inl Undefined_behaviour
      | Some v \<Rightarrow>
          if char_size_t v < tb_begin P \<or> tb_end P \<le> char_size_t v
          then tbit_invalid P ''Input is out of range''
          else tbit_loop P (p + 1) cs
            (value OR push_bit (unat (Shifts LENGTH('w) P ! p)) (scast v)))"

definition IntegralValueTBit :: "tbit \<Rightarrow> chars \<Rightarrow> key_error + 'w::len word" where
  "IntegralValueTBit P value =
     (if MaxElementNum LENGTH('w) P < length value then tbit_invalid P ''Input is too long ''
      else tbit_loop P 0 value 0)"

definition tbit_isValid :: "'w::len word \<Rightarrow> bool" where
  "tbit_isValid value = (value \<noteq> - 1)"

definition toArray :: "tbit \<Rightarrow> 'w::len word \<Rightarrow> u8 option list" where
  "toArray P value =
     map (\<lambda>s. reverseTranslate (tb_map P) (ucast (drop_bit (unat s) value) AND OneElemenMask LENGTH('w) P))
       (Shifts LENGTH('w) P)"

definition tbit_toString :: "tbit \<Rightarrow> 'w::len word \<Rightarrow> chars option" where
  "tbit_toString P value =
     (case those (toArray P value) of None \<Rightarrow> None | Some cs \<Rightarrow> Some (takeWhile (\<lambda>c. c \<noteq> 0) cs))"

definition ByteIntegralValue :: tbit where
  "ByteIntegralValue = \<lparr>tb_begin = 0, tb_end = 256, tb_map = NoTranslationMap, tb_policy = MaxInvalid\<rparr>"

definition AsciiIntegralValue :: tbit where
  "AsciiIntegralValue = \<lparr>tb_begin = 0, tb_end = 128, tb_map = NoTranslationMap, tb_policy = MaxInvalid\<rparr>"

definition AlphaNumericIntegralValue :: tbit where
  "AlphaNumericIntegralValue = \<lparr>tb_begin = 0, tb_end = 64, tb_map = AlphaNumericMap, tb_policy = MaxInvalid\<rparr>"

subsection \<open>A number in a base\<close>

record tms =
  tm_begin :: nat
  tm_end :: nat
  tm_isShortInputOk :: bool
  tm_throwOnInvalid :: bool

definition tms_base :: "tms \<Rightarrow> nat" where
  "tms_base P = tm_end P - tm_begin P"

definition tms_digit :: "tms \<Rightarrow> u8 \<Rightarrow> int" where
  "tms_digit P c = sint c - int (tm_begin P)"

definition tms_isValid :: "tms \<Rightarrow> nat \<Rightarrow> chars \<Rightarrow> bool" where
  "tms_isValid P Size value =
     (length value \<le> Size \<and> \<not> (length value < Size \<and> \<not> tm_isShortInputOk P) \<and>
      list_all (\<lambda>c. \<not> (tms_digit P c < 0 \<or> int (tms_base P) \<le> tms_digit P c)) value)"

definition tms_invalidValue :: "tms \<Rightarrow> 'w::len word" where
  "tms_invalidValue P = (if tm_isShortInputOk P then - 1 else 0)"

text \<open>The powers are a table of \<open>size_t\<close>, whatever \<open>T\<close> is.\<close>

definition tms_pows :: "tms \<Rightarrow> nat \<Rightarrow> u64 list" where
  "tms_pows P Size = ConstevalIntPows (word_of_nat (tms_base P)) Size"

definition tms_init :: "tms \<Rightarrow> chars \<Rightarrow> 'w::len word" where
  "tms_init P value =
     (let Size = LENGTH('w) div 8; n = length value in
      if \<not> tms_isValid P Size value then tms_invalidValue P
      else foldl (\<lambda>sum p. sum + ucast (word_of_int (tms_digit P (value ! (n - p - 1))) * (tms_pows P Size ! p)))
             0 [0..<n])"

definition IntegralValueTMS :: "tms \<Rightarrow> chars \<Rightarrow> key_error + 'w::len word" where
  "IntegralValueTMS P value =
     (let key = tms_init P value in
      if key = tms_invalidValue P \<and> tm_throwOnInvalid P then Inl (Invalid_input ''Invalid input string'')
      else Inr key)"

subsection \<open>The hash of 128-bit keys\<close>

definition hash_128_to_64 :: "u64 \<Rightarrow> u64 \<Rightarrow> u64" where
  "hash_128_to_64 upper lower =
     (let kMul = 0x9ddfea08eb382d69;
          a = (lower XOR upper) * kMul;
          a = a XOR drop_bit 47 a;
          b = (upper XOR a) * kMul;
          b = b XOR drop_bit 47 b
      in b * kMul)"

definition Uint128Hasher :: "u128 \<Rightarrow> u64" where
  "Uint128Hasher u = hash_128_to_64 (ucast (drop_bit 64 u)) (ucast u)"

end
