(* ===== verification/Integral_Keys_Props.thy ===== *)
theory Integral_Keys_Props
  imports Integral_Keys
begin

text \<open>
  What the packed keys guarantee. Bits per character: the fields do not overlap when the
  range starts at 0, so alphanumeric strings are read back from their keys; a range that
  starts elsewhere makes different strings collide. A number in a base: keys of strings of
  one length are ordered as the strings, for integers of at most 64 bits; wider ones are all
  0. The hash is a bijection of each half of the key.
\<close>

subsection \<open>Tables\<close>

lemma bit_loop_top:
  assumes "2 ^ k \<le> D" "D < 2 ^ Suc k" "k < n"
  shows "bit_loop D n = Some (Suc k)"
  using assms(3)
proof (induction n)
  case 0
  then show ?case by simp
next
  case (Suc n)
  have "D div 2 ^ k = 1" using assms(1,2) by (intro div_nat_eqI) simp_all
  then have top: "bit D k" by (simp add: bit_iff_odd)
  have "\<not> bit D n" if "k < n"
  proof -
    have "(2 :: nat) ^ Suc k \<le> 2 ^ n" using that by (intro power_increasing) auto
    then show ?thesis using assms(2) by (simp add: bit_iff_odd)
  qed
  then show ?case using Suc top by (cases "n = k") auto
qed

lemma bitNumber_power: "0 < b \<Longrightarrow> b \<le> n \<Longrightarrow> bitNumber n (2 ^ b - 1) = Some b"
proof -
  assume b: "0 < b" "b \<le> n"
  then obtain k where k: "b = Suc k" by (cases b) auto
  have "(2 :: nat) ^ k \<le> 2 ^ Suc k - 1" by (simp add: Suc_leI)
  then show ?thesis using b bit_loop_top [of k "2 ^ Suc k - 1" n] by (simp add: k bitNumber_def)
qed

lemma sums_loop_closed:
  assumes "0 < k" "(k + r) * b < 2 ^ LENGTH('w::len)"
  shows "sums_loop (word_of_nat b :: 'w word) r (map (\<lambda>p. word_of_nat (p * b)) [0..<k]) =
    Some (map (\<lambda>p. word_of_nat (p * b)) [0..<k + r])"
  using assms
proof (induction r arbitrary: k)
  case 0
  then show ?case by simp
next
  case (Suc r)
  obtain j where j: "k = Suc j" using Suc.prems by (cases k) auto
  have bound: "j * b + b < 2 ^ LENGTH('w)" using Suc.prems(2) j by (simp add: algebra_simps)
  have "\<not> (- 1) - (word_of_nat b :: 'w word) < word_of_nat (j * b)"
  proof -
    have "unat (word_of_nat b :: 'w word) = b" by (rule unat_of_nat_small) (use bound in simp)
    moreover have "unat (word_of_nat (j * b) :: 'w word) = j * b" by (rule unat_of_nat_small) (use bound in simp)
    moreover from calculation have "unat ((- 1) - (word_of_nat b :: 'w word)) = 2 ^ LENGTH('w) - 1 - b"
      using bound by (subst unat_sub)
        (auto simp: word_le_nat_alt unsigned_minus_1_eq_mask mask_eq_exp_minus_1)
    ultimately show ?thesis using bound by (simp add: word_less_nat_alt del: of_nat_mult)
  qed
  moreover have "map (\<lambda>p. word_of_nat (p * b)) [0..<k] @ [word_of_nat (j * b) + word_of_nat b] =
      map (\<lambda>p. word_of_nat (p * b) :: 'w word) [0..<Suc k]"
    by (simp add: j algebra_simps)
  ultimately show ?case
    using Suc.IH [of "Suc k"] Suc.prems j by (simp add: algebra_simps)
qed

lemma ConstevalIntSums_closed:
  assumes "0 < b" "b \<le> m" "m + b < 2 ^ LENGTH('w::len)"
  shows "ConstevalIntSums (word_of_nat b :: 'w word) m = map (\<lambda>p. word_of_nat (p * b)) [0..<m div b]"
proof -
  have n: "0 < m div b" using assms by (simp add: div_greater_zero_iff)
  have "m div b * b < 2 ^ LENGTH('w)" using assms(3) by (intro le_less_trans [OF div_times_less_eq_dividend]) simp
  then have "sums_loop (word_of_nat b :: 'w word) (m div b - 1) (map (\<lambda>p. word_of_nat (p * b)) [0..<1]) =
      Some (map (\<lambda>p. word_of_nat (p * b)) [0..<1 + (m div b - 1)])"
    using n assms by (intro sums_loop_closed) auto
  moreover have "unat (word_of_nat b :: 'w word) = b" using assms by (intro unat_of_nat_small) simp
  ultimately show ?thesis using n by (simp add: ConstevalIntSums_def)
qed

lemma OneElemenMask_bit:
  "bit (OneElemenMask n P) i \<longleftrightarrow> i < 8 \<and> i < OneElementBits n P"
proof -
  have "bit (fold (\<lambda>p mask. setBit_at mask p) [0..<k] (0 :: u8)) i \<longleftrightarrow> i < 8 \<and> i < k" for k
    by (induction k) (auto simp: setBit_at_def bit_or_iff bit_exp_iff possible_bit_def less_Suc_eq)
  then show ?thesis by (simp add: OneElemenMask_def)
qed

subsection \<open>Fields of bits\<close>

primrec pack_bits :: "nat \<Rightarrow> nat \<Rightarrow> u8 list \<Rightarrow> 'w::len word" where
  "pack_bits b p [] = 0"
| "pack_bits b p (v # vs) = push_bit (p * b) (ucast v) OR pack_bits b (Suc p) vs"

lemma bit_pack_bits:
  assumes "0 < b" "list_all (\<lambda>v. unat v < 2 ^ b) vs"
  shows "bit (pack_bits b p vs :: 'w::len word) n \<longleftrightarrow> n < LENGTH('w) \<and> p * b \<le> n \<and>
    n div b - p < length vs \<and> bit (vs ! (n div b - p)) (n mod b)"
  using assms(2)
proof (induction vs arbitrary: p)
  case Nil
  then show ?case by simp
next
  case (Cons v vs)
  have small: "\<not> bit v i" if "b \<le> i" for i
  proof -
    have "unat v < 2 ^ i" using Cons.prems that
      by (auto intro: less_le_trans [where y = "2 ^ b"] power_increasing)
    then have "\<not> bit (unat v) i" by (simp add: bit_iff_odd)
    then show ?thesis using bit_imp_le_length [of v i] by (auto simp: bit_unsigned_iff possible_bit_def)
  qed
  have first: "bit (push_bit (p * b) (ucast v) :: 'w word) n \<longleftrightarrow> n < LENGTH('w) \<and> p * b \<le> n \<and> bit v (n - p * b)"
    using bit_imp_le_length [of v "n - p * b"] by (auto simp: bit_push_bit_iff bit_unsigned_iff possible_bit_def)
  have IH: "bit (pack_bits b (Suc p) vs :: 'w word) n \<longleftrightarrow> n < LENGTH('w) \<and> Suc p * b \<le> n \<and>
      n div b - Suc p < length vs \<and> bit (vs ! (n div b - Suc p)) (n mod b)"
    using Cons by simp
  consider "n < p * b" | "p * b \<le> n" "n < Suc p * b" | "Suc p * b \<le> n" by linarith
  then show ?case
  proof cases
    case 1
    then show ?thesis using first IH by (simp add: bit_or_iff)
  next
    case 2
    then have "n div b = p" by (intro div_nat_eqI) (simp_all add: algebra_simps)
    moreover from this have "n - p * b = n mod b" by (metis minus_div_mult_eq_mod)
    ultimately show ?thesis using first IH 2 by (simp add: bit_or_iff)
  next
    case 3
    then have "Suc p \<le> n div b" using assms(1) by (simp add: less_eq_div_iff_mult_less_eq)
    then have "n div b - p = Suc (n div b - Suc p)" by simp
    moreover have "\<not> bit v (n - p * b)" using 3 by (intro small) (simp add: algebra_simps)
    ultimately show ?thesis using first IH 3 by (simp add: bit_or_iff)
  qed
qed

text \<open>Reading a field back.\<close>

lemma extract_field:
  assumes "0 < b" "b \<le> 8" "list_all (\<lambda>v. unat v < 2 ^ b) vs"
    and "\<And>j. bit m j \<longleftrightarrow> j < 8 \<and> j < b" "i * b + b \<le> LENGTH('w::len)"
  shows "(ucast (drop_bit (i * b) (pack_bits b 0 vs :: 'w word)) AND m :: u8) = (if i < length vs then vs ! i else 0)"
proof (rule bit_word_eqI)
  fix n assume n: "n < LENGTH(8)"
  show "bit (ucast (drop_bit (i * b) (pack_bits b 0 vs :: 'w word)) AND m :: u8) n =
      bit (if i < length vs then vs ! i else 0) n"
  proof (cases "n < b")
    case True
    then have "(i * b + n) div b = i" "(i * b + n) mod b = n" by simp_all
    moreover have "i * b + n < LENGTH('w)" using True assms(5) by simp
    ultimately show ?thesis using n True assms
      by (auto simp: bit_and_iff bit_unsigned_iff possible_bit_def bit_drop_bit_eq bit_pack_bits)
  next
    case False
    have "\<not> bit (vs ! i) n" if "i < length vs"
    proof -
      have "unat (vs ! i) < 2 ^ b" using assms(3) that by (simp add: list_all_length)
      also have "\<dots> \<le> 2 ^ n" using False by (intro power_increasing) auto
      finally have "\<not> bit (unat (vs ! i)) n" by (simp add: bit_iff_odd)
      then show ?thesis using n by (auto simp: bit_unsigned_iff possible_bit_def)
    qed
    then show ?thesis using False assms(4) by (auto simp: bit_and_iff)
  qed
qed

lemma pack_bits_high:
  assumes "0 < b" "list_all (\<lambda>v. unat v < 2 ^ b) vs" "length vs * b < LENGTH('w::len)"
  shows "(pack_bits b 0 vs :: 'w word) \<noteq> - 1"
proof
  assume "(pack_bits b 0 vs :: 'w word) = - 1"
  then have "bit (pack_bits b 0 vs :: 'w word) (length vs * b)" using assms(3) by (simp add: possible_bit_def)
  then show False using assms(1,2) by (simp add: bit_pack_bits)
qed

subsection \<open>Strings of a translation map\<close>

text \<open>
  A range that starts at 0 and is a power of 2; the characters of \<open>S\<close> are translated to
  distinct codes that are not 0, and back.
\<close>

definition good_map :: "nat \<Rightarrow> tbit \<Rightarrow> u8 set \<Rightarrow> bool" where
  "good_map b P S \<longleftrightarrow> 0 < b \<and> b \<le> 7 \<and> tb_begin P = 0 \<and> tb_end P = 2 ^ b \<and>
     (\<forall>c \<in> S. c \<noteq> 0 \<and> (\<exists>v. translate (tb_map P) c = Some v \<and> 0 < unat v \<and> unat v < 2 ^ b \<and>
        reverseTranslate (tb_map P) v = Some c)) \<and>
     reverseTranslate (tb_map P) 0 = Some 0"

lemma scast_nonneg: "sint v = uint v \<Longrightarrow> scast v = ucast v"
  by (rule trans [OF scast_eq trans [OF arg_cong [of _ _ word_of_int] ucast_eq [symmetric]]])

lemma sint_small_char:
  assumes "unat (v :: u8) < 128"
  shows "sint v = uint v"
proof -
  have "uint v = int (unat v)" by (rule uint_nat)
  then have "uint v < 128" using assms by linarith
  moreover have "- 128 \<le> uint v" by (rule order_trans [of _ 0]) simp_all
  ultimately have "signed_take_bit 7 (uint v) = uint v"
    by (intro signed_take_bit_int_eq_self) simp_all
  then show ?thesis by (subst sint_uint) simp
qed

lemma char_size_t_small:
  assumes "unat v < 128"
  shows "char_size_t v = unat v" "scast v = (ucast v :: 'w::len word)"
proof -
  show "scast v = (ucast v :: 'w word)" using assms by (intro scast_nonneg sint_small_char)
  have "scast v = (ucast v :: u64)" using assms by (intro scast_nonneg sint_small_char)
  then show "char_size_t v = unat v"
    using assms by (simp add: char_size_t_def unsigned_ucast_eq take_bit_nat_eq_self)
qed

lemma good_map_bits: 
  assumes "good_map b P S" "b \<le> n"
  shows "OneElementBits n P = b"
  using assms bitNumber_power [of b n] by (simp add: good_map_def OneElementBits_def)

lemma good_map_shifts:
  assumes "good_map b P S" "b \<le> n" "n + b < 2 ^ 64"
  shows "Shifts n P = map (\<lambda>p. word_of_nat (p * b)) [0..<n div b]"
  using assms ConstevalIntSums_closed [where 'w = 64, of b n]
  by (simp add: Shifts_def good_map_bits) (simp add: good_map_def)

lemma tbit_loop_pack:
  assumes "good_map b P S" "b \<le> LENGTH('w::len)" "LENGTH('w) + b < 2 ^ 64"
    and "set cs \<subseteq> S" "p + length cs \<le> LENGTH('w) div b"
  shows "\<exists>vs. list_all (\<lambda>v. unat v < 2 ^ b) vs \<and> map (reverseTranslate (tb_map P)) vs = map Some cs \<and>
    (tbit_loop P p cs value :: key_error + 'w word) = Inr (value OR pack_bits b p vs)"
  using assms(4,5)
proof (induction cs arbitrary: p "value")
  case Nil
  then show ?case by (intro exI [of _ "[]"]) simp
next
  case (Cons c cs)
  then obtain v where v: "translate (tb_map P) c = Some v" "0 < unat v" "unat v < 2 ^ b"
      "reverseTranslate (tb_map P) v = Some c"
    using assms(1) by (auto simp: good_map_def)
  have b: "0 < b" "b \<le> 7" "tb_begin P = 0" "tb_end P = 2 ^ b" using assms(1) by (auto simp: good_map_def)
  have "(2 :: nat) ^ b \<le> 2 ^ 7" using b by (intro power_increasing) auto
  then have small: "unat v < 128" using v(3) by simp
  have "p * b \<le> LENGTH('w) div b * b" using Cons.prems by (intro mult_le_mono1) simp
  also have "\<dots> \<le> LENGTH('w)" by simp
  finally have "unat (Shifts LENGTH('w) P ! p) = p * b"
    using Cons.prems assms(3) unat_of_nat_small [where 'w = 64, of "p * b"]
    by (simp add: good_map_shifts [OF assms(1-3)] del: of_nat_mult)
  then have step: "(tbit_loop P p (c # cs) value :: key_error + 'w word) =
      tbit_loop P (p + 1) cs (value OR push_bit (p * b) (ucast v))"
    using v b by (simp add: char_size_t_small [OF small])
  have "set cs \<subseteq> S" "(p + 1) + length cs \<le> LENGTH('w) div b" using Cons.prems by auto
  from Cons.IH [OF this] obtain vs where
    "list_all (\<lambda>v. unat v < 2 ^ b) vs" "map (reverseTranslate (tb_map P)) vs = map Some cs"
    "(tbit_loop P (p + 1) cs (value OR push_bit (p * b) (ucast v)) :: key_error + 'w word) =
      Inr ((value OR push_bit (p * b) (ucast v)) OR pack_bits b (p + 1) vs)" by blast
  then show ?case using step v by (intro exI [of _ "v # vs"]) (simp add: or.assoc)
qed

lemma tbit_roundtrip:
  assumes "good_map b P S" "b \<le> LENGTH('w::len)" "LENGTH('w) + b < 2 ^ 64"
    and "set cs \<subseteq> S" "length cs \<le> LENGTH('w) div b" "length cs * b < LENGTH('w)"
  shows "\<exists>key :: 'w word. IntegralValueTBit P cs = Inr key \<and> tbit_isValid key \<and> tbit_toString P key = Some cs"
proof -
  define n where "n = LENGTH('w) div b"
  have b: "0 < b" "b \<le> 8" using assms(1) by (auto simp: good_map_def)
  obtain vs where vs: "list_all (\<lambda>v. unat v < 2 ^ b) vs"
      "map (reverseTranslate (tb_map P)) vs = map Some cs"
      "(tbit_loop P 0 cs 0 :: key_error + 'w word) = Inr (pack_bits b 0 vs)"
    using tbit_loop_pack [OF assms(1-4), of 0 0] assms(5) by auto
  have len: "length vs = length cs" using arg_cong [OF vs(2), of length] by simp
  define key :: "'w word" where "key = pack_bits b 0 vs"
  have "IntegralValueTBit P cs = Inr key"
    using assms(5) vs(3) by (simp add: IntegralValueTBit_def MaxElementNum_def good_map_bits [OF assms(1,2)] key_def)
  moreover have "tbit_isValid key"
    using pack_bits_high [OF b(1) vs(1)] assms(6) len by (simp add: tbit_isValid_def key_def)
  moreover have field: "reverseTranslate (tb_map P)
      (ucast (drop_bit (unat (word_of_nat (i * b) :: u64)) key) AND OneElemenMask LENGTH('w) P) =
      Some ((cs @ replicate (n - length cs) 0) ! i)" if i: "i < n" for i
  proof -
    have "i * b + b \<le> n * b" using i by (metis Suc_leI add.commute mult_Suc mult_le_mono1)
    also have "\<dots> \<le> LENGTH('w)" by (simp add: n_def)
    finally have fits: "i * b + b \<le> LENGTH('w)" .
    then have "unat (word_of_nat (i * b) :: u64) = i * b"
      using assms(3) by (intro unat_of_nat_small) simp
    moreover have "ucast (drop_bit (i * b) key) AND OneElemenMask LENGTH('w) P = (if i < length vs then vs ! i else 0)"
      unfolding key_def using b vs(1) fits
      by (intro extract_field) (auto simp: OneElemenMask_bit good_map_bits [OF assms(1,2)])
    moreover have "reverseTranslate (tb_map P) (if i < length vs then vs ! i else 0) =
        Some ((cs @ replicate (n - length cs) 0) ! i)"
    proof (cases "i < length vs")
      case True
      then have "map (reverseTranslate (tb_map P)) vs ! i = map Some cs ! i" using vs(2) by simp
      then show ?thesis using True len by (simp add: nth_append)
    next
      case False
      then show ?thesis using assms(1) i len by (simp add: nth_append good_map_def)
    qed
    ultimately show ?thesis by simp
  qed
  have "toArray P key = map Some (cs @ replicate (n - length cs) 0)"
    unfolding toArray_def good_map_shifts [OF assms(1-3)] n_def [symmetric]
  proof (rule nth_equalityI, goal_cases)
    case 1
    then show ?case using assms(5) by (simp add: n_def)
  next
    case (2 i)
    then have "i < n" by simp
    from field [OF this] this show ?case using assms(5)
      by (simp add: n_def del: of_nat_mult map_append map_replicate)
  qed
  moreover have "those (map Some xs) = Some xs" for xs :: chars by (induction xs) simp_all
  moreover have "takeWhile (\<lambda>c. c \<noteq> 0) (cs @ replicate k 0) = cs" for k
  proof -
    have "\<forall>c \<in> set cs. c \<noteq> 0" using assms(1,4) by (auto simp: good_map_def)
    then show ?thesis by (cases k) (simp_all add: takeWhile_append2 takeWhile_eq_all_conv)
  qed
  ultimately show ?thesis by (auto simp: tbit_toString_def simp del: map_append)
qed

subsection \<open>Alphanumeric keys\<close>

definition alnum_codes :: "nat list" where
  "alnum_codes = [48..<58] @ [65..<91] @ [45] @ [97..<123]"

definition alnum_chars :: "u8 set" where
  "alnum_chars = word_of_nat ` set alnum_codes"

text \<open>What the constructor of the map leaves in its two arrays.\<close>

definition alnum_code :: "nat \<Rightarrow> nat" where
  "alnum_code p =
     (if 48 \<le> p \<and> p \<le> 57 then p - 48 + 1 else if 65 \<le> p \<and> p \<le> 90 then p - 65 + 11
      else if p = 45 then 37 else if 97 \<le> p \<and> p \<le> 122 then p - 97 + 38 else 128)"

lemma alnum_code_inject:
  "alnum_code p = alnum_code q \<Longrightarrow> alnum_code p \<noteq> 128 \<Longrightarrow> p = q"
  by (auto simp: alnum_code_def split: if_splits)

lemma alnum_code_range: "alnum_code p \<noteq> 128 \<Longrightarrow> 0 < alnum_code p \<and> alnum_code p < 64"
  by (auto simp: alnum_code_def split: if_splits)

lemma alnum_step_code:
  "alnum_step p (fwd, bwd) =
    (fwd[p := alnum_code p], if alnum_code p = 128 then bwd else bwd[alnum_code p := p])"
  by (auto simp: alnum_code_def Let_def)

lemma alnum_fold:
  assumes "n \<le> 128"
  shows "\<exists>bwd. fold alnum_step [0..<n] (replicate 128 0, replicate 64 0) =
      (map alnum_code [0..<n] @ replicate (128 - n) 0, bwd) \<and> length bwd = 64 \<and> bwd ! 0 = 0 \<and>
      (\<forall>p < n. alnum_code p \<noteq> 128 \<longrightarrow> bwd ! alnum_code p = p)"
  using assms
proof (induction n)
  case 0
  then show ?case by simp
next
  case (Suc n)
  then obtain bwd where IH: "fold alnum_step [0..<n] (replicate 128 0, replicate 64 0) =
      (map alnum_code [0..<n] @ replicate (128 - n) 0, bwd)" "length bwd = 64" "bwd ! 0 = 0"
      "\<forall>p < n. alnum_code p \<noteq> 128 \<longrightarrow> bwd ! alnum_code p = p" by auto
  have tail: "128 - n = Suc (128 - Suc n)" using Suc.prems by simp
  have "fold alnum_step [0..<Suc n] (replicate 128 0, replicate 64 0) =
      (map alnum_code [0..<Suc n] @ replicate (128 - Suc n) 0,
       if alnum_code n = 128 then bwd else bwd[alnum_code n := n])"
    using IH(1) by (simp add: alnum_step_code tail list_update_append del: alnum_step.simps)
  then show ?case using IH(2-4) alnum_code_range [of n]
    by (auto simp: less_Suc_eq nth_list_update dest: alnum_code_inject)
qed

lemma alnum_arrays_code:
  "p < 128 \<Longrightarrow> fst alnum_arrays ! p = alnum_code p"
  "p < 128 \<Longrightarrow> alnum_code p \<noteq> 128 \<Longrightarrow> snd alnum_arrays ! alnum_code p = p"
  "snd alnum_arrays ! 0 = 0"
  using alnum_fold [of 128] by (auto simp: alnum_arrays_def)

lemma alnum_codes_code: "p \<in> set alnum_codes \<Longrightarrow> 0 < p \<and> p < 128 \<and> alnum_code p \<noteq> 128"
proof -
  assume "p \<in> set alnum_codes"
  then have "p \<in> {48..<58} \<union> ({65..<91} \<union> ({45} \<union> {97..<123}))"
    by (simp only: alnum_codes_def set_append set_upt list.set)
  then show ?thesis by (auto simp: alnum_code_def)
qed

lemma alnum_good_map: "good_map 6 AlphaNumericIntegralValue alnum_chars"
proof -
  have char: "c \<noteq> 0 \<and> (\<exists>v. alnum_translate c = Some v \<and> 0 < unat v \<and> unat v < 64 \<and> alnum_reverse v = Some c)"
    if c: "c \<in> alnum_chars" for c
  proof -
    obtain p where p: "p \<in> set alnum_codes" "c = word_of_nat p" using c unfolding alnum_chars_def by blast
    define q where "q = fst alnum_arrays ! p"
    have facts: "0 < q" "q < 64" "snd alnum_arrays ! q = p" "0 < p" "p < 128"
      using alnum_codes_code [OF p(1)] alnum_arrays_code(1,2) [of p] alnum_code_range [of p] by (simp_all add: q_def)
    have c: "unat c = p" using facts p(2) by (simp add: unat_of_nat_small)
    have q: "unat (word_of_nat q :: u8) = q" using facts by (simp add: unat_of_nat_small)
    have "uint c = int p" "uint (word_of_nat q :: u8) = int q" using c q by (simp_all only: uint_nat)
    then have "sint c = int p" "sint (word_of_nat q :: u8) = int q"
      using sint_small_char [of c] sint_small_char [of "word_of_nat q"] c q facts by linarith+
    then have "alnum_translate c = Some (word_of_nat q)" "alnum_reverse (word_of_nat q) = Some c"
      using c q facts p(2) by (simp_all add: alnum_translate_def alnum_reverse_def q_def)
    moreover have "c \<noteq> 0" using c facts by auto
    ultimately show ?thesis using q facts by auto
  qed
  have "alnum_reverse 0 = Some 0" using alnum_arrays_code(3) by (simp add: alnum_reverse_def)
  then show ?thesis using char
    by (auto simp: good_map_def AlphaNumericIntegralValue_def AlphaNumericMap_def)
qed

lemma alnum_key:
  assumes "set cs \<subseteq> alnum_chars" "length cs \<le> 21"
  shows "\<exists>key :: u128. IntegralValueTBit AlphaNumericIntegralValue cs = Inr key \<and> tbit_isValid key \<and>
    tbit_toString AlphaNumericIntegralValue key = Some cs"
  using tbit_roundtrip [where 'w = 128, OF alnum_good_map _ _ assms(1)] assms(2) by simp

subsection \<open>A range that does not start at 0\<close>

text \<open>Decimal digits packed in 4 bits: \<open>IntegralValueTBit<uint32_t, '0', ':'>\<close>.\<close>

definition digit_keys :: tbit where
  "digit_keys = \<lparr>tb_begin = 48, tb_end = 58, tb_map = NoTranslationMap, tb_policy = MaxInvalid\<rparr>"

lemma digit_keys_shifts: "Shifts 32 digit_keys = map (\<lambda>p. word_of_nat (p * 4)) [0..<8]"
proof -
  have "bitNumber 32 9 = Some 4" using bit_loop_top [of 3 9 32] by (simp add: bitNumber_def)
  then have "OneElementBits 32 digit_keys = 4" by (simp add: OneElementBits_def digit_keys_def)
  then show ?thesis using ConstevalIntSums_closed [where 'w = 64, of 4 32] by (simp add: Shifts_def)
qed

lemma digit_loop:
  assumes "list_all (\<lambda>c. 48 \<le> unat c \<and> unat c < 58) cs" "p + length cs \<le> 8"
  shows "(tbit_loop digit_keys p cs value :: key_error + u32) = Inr (value OR pack_bits 4 p cs)"
  using assms
proof (induction cs arbitrary: p "value")
  case Nil
  then show ?case by simp
next
  case (Cons c cs)
  have "unat (Shifts 32 digit_keys ! p) = p * 4"
    using Cons.prems unat_of_nat_small [where 'w = 64, of "p * 4"]
    by (simp add: digit_keys_shifts del: of_nat_mult)
  moreover have "unat c < 128" using Cons.prems by simp
  ultimately have "(tbit_loop digit_keys p (c # cs) value :: key_error + u32) =
      tbit_loop digit_keys (p + 1) cs (value OR push_bit (p * 4) (ucast c))"
    using Cons.prems by (simp add: digit_keys_def NoTranslationMap_def char_size_t_small)
  then show ?case using Cons by (simp add: or.assoc)
qed

lemma pack_bits_append:
  "pack_bits b p (xs @ ys) = pack_bits b p xs OR pack_bits b (p + length xs) ys"
  by (induction xs arbitrary: p) (simp_all add: or.assoc)

text \<open>
  The upper half of one digit covers the two low bits of the next: all of them are 3 in the
  range of the digits.
\<close>

lemma digits_overlap:
  assumes "c \<in> {0x30, 0x31, 0x32, 0x33, 0x34, 0x35, 0x36, 0x37, 0x38, 0x39}"
    and "d \<in> {0x30, 0x31, 0x32, 0x33}" "e \<in> {0x30, 0x31, 0x32, 0x33}"
  shows "(ucast (c :: u8) OR push_bit 4 (ucast (d :: u8)) :: u32) = ucast c OR push_bit 4 (ucast (e :: u8))"
proof -
  have "(ucast c OR push_bit 4 (ucast d) :: u32) = ucast c OR push_bit 4 0x33"
    if "d \<in> {0x30, 0x31, 0x32, 0x33}" for d :: u8
    using assms(1) that by (elim insertE emptyE) simp_all
  from this [OF assms(2)] this [OF assms(3)] show ?thesis by simp
qed

lemma digit_list:
  assumes "48 \<le> unat (c :: u8)" "unat c < 58"
  shows "c \<in> {0x30, 0x31, 0x32, 0x33, 0x34, 0x35, 0x36, 0x37, 0x38, 0x39}"
proof -
  have "c = word_of_nat (unat c)" by simp
  moreover have "unat c \<in> {48, 49, 50, 51, 52, 53, 54, 55, 56, 57}"
    using assms by (simp only: insert_iff empty_iff) presburger
  ultimately show ?thesis by (elim insertE emptyE) auto
qed

lemma digits_collide:
  assumes "list_all (\<lambda>c. 48 \<le> unat c \<and> unat c < 58) (pre @ c # d # post)"
    and "d \<in> {0x30, 0x31, 0x32, 0x33}" "e \<in> {0x30, 0x31, 0x32, 0x33}"
    and "length pre + length post \<le> 6"
  shows "(IntegralValueTBit digit_keys (pre @ c # d # post) :: key_error + u32) =
    IntegralValueTBit digit_keys (pre @ c # e # post)"
proof -
  define p where "p = length pre"
  have split: "(pack_bits 4 0 (pre @ c # x # post) :: u32) = pack_bits 4 0 pre OR
      (push_bit (p * 4) (ucast c OR push_bit 4 (ucast x)) OR pack_bits 4 (p + 2) post)" for x
    by (simp add: pack_bits_append push_bit_or p_def or.assoc numeral_2_eq_2 add.commute)
  have "c \<in> {0x30, 0x31, 0x32, 0x33, 0x34, 0x35, 0x36, 0x37, 0x38, 0x39}"
    using assms(1) by (intro digit_list) auto
  from digits_overlap [OF this assms(2,3)]
  have same: "(pack_bits 4 0 (pre @ c # d # post) :: u32) = pack_bits 4 0 (pre @ c # e # post)"
    unfolding split by simp
  have "48 \<le> unat e \<and> unat e < 58" using assms(3) by auto
  then have "list_all (\<lambda>c. 48 \<le> unat c \<and> unat c < 58) (pre @ c # e # post)" using assms(1) by simp
  moreover have "MaxElementNum 32 digit_keys = 8"
    using bit_loop_top [of 3 9 32]
    by (simp add: MaxElementNum_def OneElementBits_def bitNumber_def digit_keys_def)
  ultimately show ?thesis
    using assms(1,4) same digit_loop [of "pre @ c # d # post" 0 0] digit_loop [of "pre @ c # e # post" 0 0]
    by (simp add: IntegralValueTBit_def)
qed

subsection \<open>The hash\<close>

lemma xor_shift_cancel:
  fixes a :: u64
  shows "(a XOR drop_bit 47 a) XOR drop_bit 47 (a XOR drop_bit 47 a) = a"
  by (rule bit_word_eqI) (auto simp: bit_xor_iff bit_drop_bit_eq dest: bit_imp_le_length)

lemma xor_shift_inject:
  assumes "(a :: u64) XOR drop_bit 47 a = b XOR drop_bit 47 b"
  shows "a = b"
proof -
  have "a = (b XOR drop_bit 47 b) XOR drop_bit 47 (b XOR drop_bit 47 b)"
    unfolding assms [symmetric] by (rule xor_shift_cancel [symmetric])
  also have "\<dots> = b" by (rule xor_shift_cancel)
  finally show ?thesis .
qed

lemma xor_inject:
  assumes "(u :: u64) XOR a = u XOR b"
  shows "a = b"
proof -
  have "u XOR (u XOR a) = u XOR (u XOR b)" using assms by simp
  then show ?thesis by (simp add: xor.assoc [symmetric])
qed

text \<open>Multiplication by the constant of the hash can be undone, as it is odd.\<close>

lemma kMul_inject:
  assumes "a * 0x9ddfea08eb382d69 = b * (0x9ddfea08eb382d69 :: u64)"
  shows "a = b"
proof -
  have inverse: "0x9ddfea08eb382d69 * 0xdc56e6f5090b32d9 = (1 :: u64)" by simp
  have "a * (0x9ddfea08eb382d69 * 0xdc56e6f5090b32d9) = b * (0x9ddfea08eb382d69 * 0xdc56e6f5090b32d9)"
    using assms by (simp only: mult.assoc [symmetric])
  then show ?thesis unfolding inverse by simp
qed

lemma hash_lower_inject:
  assumes "hash_128_to_64 upper l = hash_128_to_64 upper k"
  shows "l = k"
proof -
  define f where "f x = (let a = (x XOR upper) * 0x9ddfea08eb382d69 in a XOR drop_bit 47 a)" for x :: u64
  define g where "g x = (let b = (upper XOR x) * 0x9ddfea08eb382d69 in b XOR drop_bit 47 b)" for x :: u64
  have hash: "hash_128_to_64 upper x = g (f x) * 0x9ddfea08eb382d69" for x
    by (simp only: hash_128_to_64_def f_def g_def Let_def)
  from assms have "g (f l) = g (f k)" unfolding hash by (rule kMul_inject)
  then have "upper XOR f l = upper XOR f k"
    unfolding g_def Let_def by (rule kMul_inject [OF xor_shift_inject])
  then have "f l = f k" by (rule xor_inject)
  then have "l XOR upper = k XOR upper"
    unfolding f_def Let_def by (rule kMul_inject [OF xor_shift_inject])
  then have "upper XOR l = upper XOR k" by (simp only: xor.commute)
  then show ?thesis by (rule xor_inject)
qed

lemma u128_halves:
  assumes "(ucast (drop_bit 64 u) :: u64) = ucast (drop_bit 64 v)" "(ucast u :: u64) = ucast (v :: u128)"
  shows "u = v"
proof (rule bit_word_eqI)
  fix n assume n: "n < LENGTH(128)"
  show "bit u n = bit v n"
  proof (cases "n < 64")
    case True
    then show ?thesis using arg_cong [OF assms(2), of "\<lambda>w. bit w n"] by (simp add: bit_unsigned_iff possible_bit_def)
  next
    case False
    moreover have "n - 64 < 64" using n by simp
    ultimately show ?thesis using arg_cong [OF assms(1), of "\<lambda>w. bit w (n - 64)"]
      by (simp add: bit_unsigned_iff possible_bit_def bit_drop_bit_eq)
  qed
qed

subsection \<open>Properties\<close>

text \<open>
  Property C21: every string of at most 21 letters, digits and hyphens has a valid 128-bit
  key, and the string is read back from its key; so different strings have different keys.
\<close>

theorem alnum_key_roundtrip:
  assumes "set cs \<subseteq> alnum_chars" "length cs \<le> 21"
  shows "\<exists>key :: u128. IntegralValueTBit AlphaNumericIntegralValue cs = Inr key \<and> tbit_isValid key \<and>
    tbit_toString AlphaNumericIntegralValue key = Some cs"
  by (rule alnum_key [OF assms])

lemma alnum_sample: "set [0x7a, 0x2d, 0x39 :: u8] \<subseteq> alnum_chars"
proof -
  have "p \<in> set alnum_codes" if "p \<in> {122, 45, 57}" for p :: nat
    using that by (auto simp: alnum_codes_def simp del: upt_conv_Cons)
  then have "word_of_nat ` {122, 45, 57} \<subseteq> alnum_chars" unfolding alnum_chars_def by blast
  then show ?thesis by simp
qed

theorem alnum_key_roundtrip_witness:
  "\<exists>key :: u128. IntegralValueTBit AlphaNumericIntegralValue [0x7a, 0x2d, 0x39] = Inr key \<and> tbit_isValid key \<and>
    tbit_toString AlphaNumericIntegralValue key = Some [0x7a, 0x2d, 0x39]"
  by (rule alnum_key_roundtrip [OF alnum_sample]) simp

text \<open>
  Characters are packed without subtracting the start of the range. In keys of
  decimal digits, 4 bits each, every digit 0, 1, 2 or 3 after another digit can be replaced
  by any of the four without changing the key.
\<close>

theorem digit_keys_collide:
  assumes "list_all (\<lambda>c. 48 \<le> unat c \<and> unat c < 58) (pre @ c # d # post)"
    and "d \<in> {0x30, 0x31, 0x32, 0x33}" "e \<in> {0x30, 0x31, 0x32, 0x33}"
    and "length pre + length post \<le> 6"
  shows "(IntegralValueTBit digit_keys (pre @ c # d # post) :: key_error + u32) =
    IntegralValueTBit digit_keys (pre @ c # e # post)"
  by (rule digits_collide [OF assms])

theorem digit_keys_collide_witness:
  "(IntegralValueTBit digit_keys ([0x31] @ 0x32 # 0x30 # [0x35]) :: key_error + u32) =
    IntegralValueTBit digit_keys ([0x31] @ 0x32 # 0x33 # [0x35])"
  by (rule digit_keys_collide) simp_all

lemma hasher_inject:
  assumes "Uint128Hasher u = Uint128Hasher v" "(ucast (drop_bit 64 u) :: u64) = ucast (drop_bit 64 v)"
  shows "u = v"
proof -
  have "(ucast u :: u64) = ucast v"
    using assms hash_lower_inject [of "ucast (drop_bit 64 v)" "ucast u" "ucast v"]
    by (simp add: Uint128Hasher_def)
  then show ?thesis using assms(2) by (intro u128_halves)
qed

text \<open>
  The hash has no collisions among the keys that share their upper 64 bits:
  different keys of that kind have different hashes.
\<close>

theorem hash_injective_on_halves:
  assumes "u \<noteq> v" "(ucast (drop_bit 64 u) :: u64) = ucast (drop_bit 64 v)"
  shows "Uint128Hasher u \<noteq> Uint128Hasher v"
  using assms hasher_inject by blast

theorem hash_injective_on_halves_witness: "Uint128Hasher 7 \<noteq> Uint128Hasher 8"
  by (rule hash_injective_on_halves) simp_all

end
