(* ===== verification/Integral_Keys_Num.thy ===== *)
theory Integral_Keys_Num
  imports Integral_Keys
begin

text \<open>
  The keys that are numbers in a base (\<open>IntegralValueTMS\<close>): the table of powers, the
  value of a key, the order of keys, and where the computation breaks down.
\<close>

subsection \<open>The table of powers\<close>

lemma pows_test:
  assumes "0 < b" "b < 2 ^ LENGTH('w::len)" "c < 2 ^ LENGTH('w)"
  shows "(- 1) div (word_of_nat b :: 'w word) < word_of_nat c \<longleftrightarrow> 2 ^ LENGTH('w) \<le> c * b"
proof -
  have "unat ((- 1) div (word_of_nat b :: 'w word)) = (2 ^ LENGTH('w) - 1) div b"
    using assms by (simp add: unat_div_distrib unat_of_nat_small unsigned_minus_1_eq_mask mask_eq_exp_minus_1)
  then have "(- 1) div (word_of_nat b :: 'w word) < word_of_nat c \<longleftrightarrow> 2 ^ LENGTH('w) - 1 < c * b"
    using assms by (simp add: word_less_nat_alt unat_of_nat_small div_less_iff_less_mult)
  then show ?thesis by (simp add: Suc_le_eq [symmetric])
qed

lemma pows_loop_closed:
  assumes "0 < k" "0 < b" "b ^ (k + r - 1) < 2 ^ LENGTH('w::len)" "b < 2 ^ LENGTH('w)"
  shows "pows_loop (word_of_nat b :: 'w word) r (map (\<lambda>p. word_of_nat (b ^ p)) [0..<k]) =
    Some (map (\<lambda>p. word_of_nat (b ^ p)) [0..<k + r])"
  using assms(1,3)
proof (induction r arbitrary: k)
  case 0
  then show ?case by simp
next
  case (Suc r)
  obtain j where j: "k = Suc j" using Suc.prems by (cases k) auto
  have "b ^ j * b \<le> b ^ (k + Suc r - 1)"
    using assms(2) j power_increasing [of "Suc j" "k + Suc r - 1" b] by (simp add: mult.commute)
  then have bound: "b ^ j * b < 2 ^ LENGTH('w)" using Suc.prems by simp
  have "b ^ j \<le> b ^ j * b" using assms(2) by simp
  from this bound have "b ^ j < 2 ^ LENGTH('w)" by (rule le_less_trans)
  then have "\<not> (- 1) div (word_of_nat b :: 'w word) < word_of_nat (b ^ j)"
    using bound assms(2,4) pows_test [of b "b ^ j", where 'w = 'w] by simp
  moreover have "map (\<lambda>p. word_of_nat (b ^ p)) [0..<k] @ [word_of_nat (b ^ j) * word_of_nat b] =
      map (\<lambda>p. word_of_nat (b ^ p) :: 'w word) [0..<Suc k]"
    by (simp add: j mult.commute)
  ultimately show ?case
    using Suc.IH [of "Suc k"] Suc.prems j by (simp add: mult.commute)
qed

lemma pows_loop_overflow:
  assumes "0 < k" "0 < b" "b ^ (k - 1) < 2 ^ LENGTH('w::len)" "2 ^ LENGTH('w) \<le> b ^ (k + r - 1)"
    "b < 2 ^ LENGTH('w)"
  shows "pows_loop (word_of_nat b :: 'w word) r (map (\<lambda>p. word_of_nat (b ^ p)) [0..<k]) = None"
  using assms(1,3,4)
proof (induction r arbitrary: k)
  case 0
  then show ?case by simp
next
  case (Suc r)
  obtain j where j: "k = Suc j" using Suc.prems by (cases k) auto
  have test: "(- 1) div (word_of_nat b :: 'w word) < word_of_nat (b ^ j) \<longleftrightarrow> 2 ^ LENGTH('w) \<le> b ^ j * b"
    using assms(2,5) Suc.prems j by (intro pows_test) simp_all
  have next_entry: "map (\<lambda>p. word_of_nat (b ^ p)) [0..<k] @ [word_of_nat (b ^ j) * word_of_nat b] =
      map (\<lambda>p. word_of_nat (b ^ p) :: 'w word) [0..<Suc k]"
    by (simp add: j mult.commute)
  show ?case
  proof (cases "2 ^ LENGTH('w) \<le> b ^ j * b")
    case True
    then show ?thesis using test j by simp
  next
    case False
    then show ?thesis using test next_entry Suc.IH [of "Suc k"] Suc.prems j by (simp add: mult.commute)
  qed
qed

lemma ConstevalIntPows_closed:
  assumes "0 < n" "0 < b" "b < 2 ^ LENGTH('w::len)"
  shows "ConstevalIntPows (word_of_nat b :: 'w word) n =
    (if b ^ (n - 1) < 2 ^ LENGTH('w) then map (\<lambda>p. word_of_nat (b ^ p)) [0..<n] else replicate n 0)"
proof -
  have start: "[1 :: 'w word] = map (\<lambda>p. word_of_nat (b ^ p)) [0..<1]" by simp
  show ?thesis
    using pows_loop_closed [of 1 b "n - 1", where 'w = 'w] pows_loop_overflow [of 1 b "n - 1", where 'w = 'w] assms
    unfolding ConstevalIntPows_def start by (simp del: list.map)
qed

text \<open>
  The predicate \<open>isValid\<close> of the table answers the opposite of its name: it holds exactly
  for the table of zeros that an overflow leaves.
\<close>

lemma ConstevalIntPows_isValid_inverted:
  assumes "0 < n" "0 < b" "b < 2 ^ LENGTH('w::len)"
  shows "ConstevalIntPows_isValid (ConstevalIntPows (word_of_nat b :: 'w word) n) \<longleftrightarrow>
    2 ^ LENGTH('w) \<le> b ^ (n - 1)"
proof (cases "b ^ (n - 1) < 2 ^ LENGTH('w)")
  case True
  obtain k where "n = Suc k" using assms(1) by (cases n) auto
  then show ?thesis using True assms
    by (simp add: ConstevalIntPows_closed ConstevalIntPows_isValid_def upt_conv_Cons del: upt_Suc)
next
  case False
  then show ?thesis using assms by (simp add: ConstevalIntPows_closed ConstevalIntPows_isValid_def)
qed

subsection \<open>The value of a key\<close>

text \<open>A string as digits, the most significant first.\<close>

definition tms_digits :: "tms \<Rightarrow> chars \<Rightarrow> nat list" where
  "tms_digits P s = map (\<lambda>c. nat (tms_digit P c)) s"

definition digits_num :: "nat \<Rightarrow> nat list \<Rightarrow> nat" where
  "digits_num b ds = horner_sum id b (rev ds)"

lemma digits_num_simps [simp]:
  "digits_num b [] = 0"
  "digits_num b (d # ds) = digits_num b ds + b ^ length ds * d"
  by (simp_all add: digits_num_def horner_sum_append)

lemma digits_num_less: "(\<And>d. d \<in> set ds \<Longrightarrow> d < b) \<Longrightarrow> digits_num b ds < b ^ length ds"
proof (induction ds)
  case Nil
  then show ?case by simp
next
  case (Cons d ds)
  then have "digits_num b ds < b ^ length ds" "Suc d \<le> b" by (auto simp: Suc_le_eq)
  moreover from this(2) have "b ^ length ds * Suc d \<le> b ^ length ds * b" by (rule mult_le_mono2)
  ultimately show ?case by (simp add: algebra_simps)
qed

text \<open>Characters are at most 127, so a key never has all its bits set.\<close>

lemma digits_num_half:
  assumes "b \<le> 256"
  shows "(\<And>d. d \<in> set ds \<Longrightarrow> d \<le> 127) \<Longrightarrow> 2 * digits_num b ds + 1 \<le> 256 ^ length ds"
proof (induction ds)
  case Nil
  then show ?case by simp
next
  case (Cons d ds)
  have "b ^ length ds * d \<le> 256 ^ length ds * 127"
    using Cons.prems [of d] assms by (intro mult_le_mono power_mono) auto
  then show ?case using Cons by simp
qed

lemma digits_num_order:
  assumes "length ds = length es" "\<And>d. d \<in> set ds \<union> set es \<Longrightarrow> d < b"
  shows "digits_num b ds < digits_num b es \<longleftrightarrow> (ds, es) \<in> lexord {(x, y). x < y}"
  using assms
proof (induction ds es rule: list_induct2)
  case Nil
  then show ?case by simp
next
  case (Cons d ds e es)
  have small: "digits_num b ds < b ^ length ds" "digits_num b es < b ^ length ds"
    using Cons.prems Cons.hyps digits_num_less [of ds b] digits_num_less [of es b] by auto
  have step: "digits_num b xs + b ^ length ds * x < digits_num b ys + b ^ length ds * y"
    if "x < y" "digits_num b xs < b ^ length ds" for x y xs ys
  proof -
    have "b ^ length ds * Suc x \<le> b ^ length ds * y" using that(1) by (intro mult_le_mono2) simp
    then show ?thesis using that(2) by simp
  qed
  show ?case
    using Cons step [of d e ds es] step [of e d es ds] small by (cases d e rule: linorder_cases) auto
qed

lemma word_of_digit:
  assumes "0 \<le> d" "LENGTH('w::len) \<le> 64"
  shows "ucast (word_of_int d * (word_of_nat m :: u64)) = (word_of_nat (nat d * m) :: 'w word)"
proof -
  have "word_of_int d * (word_of_nat m :: u64) = word_of_nat (nat d * m)"
    using assms(1) by (metis int_nat_eq of_int_of_nat_eq of_nat_mult)
  moreover have "ucast (word_of_nat k :: u64) = (word_of_nat k :: 'w word)" for k
    using assms(2) by (simp add: unsigned_of_nat word_of_nat_eq_iff take_bit_take_bit min_def)
  ultimately show ?thesis by (simp only:)
qed

lemma foldl_sum: "foldl (\<lambda>sum p. sum + f p) a [0..<n] = a + (\<Sum>p<n. f p)"
  by (induction n) (simp_all add: algebra_simps)

lemma tms_sum:
  assumes "LENGTH('w::len) \<le> 64" "\<And>c. c \<in> set s \<Longrightarrow> 0 \<le> tms_digit P c"
    and "length s \<le> n" "0 < tms_base P" "tms_base P < 2 ^ 64" "tms_base P ^ (n - 1) < 2 ^ 64" "0 < n"
  shows "foldl (\<lambda>sum p. sum + ucast (word_of_int (tms_digit P (s ! (length s - p - 1))) * (tms_pows P n ! p)))
     0 [0..<length s] = (word_of_nat (digits_num (tms_base P) (tms_digits P s)) :: 'w word)"
proof -
  have pows: "tms_pows P n = map (\<lambda>p. word_of_nat (tms_base P ^ p)) [0..<n]"
    using assms ConstevalIntPows_closed [where 'w = 64, of n "tms_base P"] by (simp add: tms_pows_def)
  have "foldl (\<lambda>sum p. sum + ucast (word_of_int (tms_digit P (s ! (length s - p - 1))) * (tms_pows P n ! p)))
     0 [0..<length s] = (\<Sum>p<length s. ucast (word_of_int (tms_digit P (s ! (length s - p - 1))) * (tms_pows P n ! p)) :: 'w word)"
    by (simp add: foldl_sum)
  also have "\<dots> = (\<Sum>p<length s. word_of_nat (nat (tms_digit P (s ! (length s - p - 1))) * tms_base P ^ p))"
    using assms(1-3) by (intro sum.cong refl) (simp add: pows word_of_digit del: of_nat_mult of_nat_power)
  also have "\<dots> = word_of_nat (digits_num (tms_base P) (tms_digits P s))"
    by (simp add: digits_num_def horner_sum_eq_sum tms_digits_def rev_nth atLeast0LessThan del: of_nat_mult of_nat_power
        flip: of_nat_sum)
  finally show ?thesis .
qed

subsection \<open>Keys of integers up to 64 bits\<close>

lemma tms_valid_digits:
  assumes "tms_isValid P n s" "c \<in> set s"
  shows "0 \<le> tms_digit P c" "nat (tms_digit P c) < tms_base P" "nat (tms_digit P c) \<le> 127"
proof -
  show *: "0 \<le> tms_digit P c" "nat (tms_digit P c) < tms_base P"
    using assms by (auto simp: tms_isValid_def list_all_iff)
  have "sint c < 2 ^ (LENGTH(8) - 1)" by (rule sint_lt)
  then show "nat (tms_digit P c) \<le> 127" by (simp add: tms_digit_def)
qed

lemma tms_key:
  assumes "LENGTH('w::len) = 8 * n" "n \<le> 8" "tms_base P \<le> 256" "tm_isShortInputOk P" "tms_isValid P n s"
    and "tm_begin P < tm_end P"
  shows "(IntegralValueTMS P s :: key_error + 'w word) = Inr (word_of_nat (digits_num (tms_base P) (tms_digits P s)))"
    "digits_num (tms_base P) (tms_digits P s) < 2 ^ LENGTH('w)"
proof -
  define N where "N = digits_num (tms_base P) (tms_digits P s)"
  have n: "0 < n" using assms(1) len_gt_0 [where 'a = 'w] by (cases n) auto
  have base: "0 < tms_base P" using assms(6) by (simp add: tms_base_def)
  have len: "length s \<le> n" using assms(5) by (simp add: tms_isValid_def)
  have "tms_base P ^ (n - 1) \<le> 256 ^ (n - 1)" using assms(3) by (rule power_mono) simp
  also have "\<dots> \<le> (256 :: nat) ^ 7" using assms(2) by (intro power_increasing) auto
  finally have "tms_base P ^ (n - 1) < 2 ^ 64" by (rule le_less_trans) simp
  then have sum: "foldl (\<lambda>sum p. sum + ucast (word_of_int (tms_digit P (s ! (length s - p - 1))) * (tms_pows P n ! p)))
      0 [0..<length s] = (word_of_nat N :: 'w word)"
    unfolding N_def using assms n base len tms_valid_digits(1) [OF assms(5)] by (intro tms_sum) auto
  have "2 * N + 1 \<le> 256 ^ length (tms_digits P s)"
    unfolding N_def using assms(3) tms_valid_digits(3) [OF assms(5)]
    by (intro digits_num_half) (auto simp: tms_digits_def)
  also have "\<dots> \<le> 256 ^ n" using len by (intro power_increasing) (auto simp: tms_digits_def)
  also have "\<dots> = 2 ^ LENGTH('w)" by (simp add: assms(1) power_mult)
  finally have half: "2 * N + 1 \<le> 2 ^ LENGTH('w)" .
  then show "digits_num (tms_base P) (tms_digits P s) < 2 ^ LENGTH('w)" by (simp add: N_def)
  have "(word_of_nat N :: 'w word) \<noteq> - 1"
  proof
    assume "(word_of_nat N :: 'w word) = - 1"
    then have "unat (word_of_nat N :: 'w word) = 2 ^ LENGTH('w) - 1"
      by (simp add: unsigned_minus_1_eq_mask mask_eq_exp_minus_1)
    then have "2 * 2 ^ LENGTH('w) \<le> 2 ^ LENGTH('w) + (1 :: nat)" using half by (simp add: unat_of_nat_small)
    moreover have "(2 :: nat) ^ 1 \<le> 2 ^ LENGTH('w)" by (intro power_increasing) (simp_all add: Suc_leI)
    ultimately show False by simp
  qed
  then show "(IntegralValueTMS P s :: key_error + 'w word) = Inr (word_of_nat (digits_num (tms_base P) (tms_digits P s)))"
    using sum assms(1,4,5)
    by (simp add: IntegralValueTMS_def tms_init_def tms_invalidValue_def N_def Let_def)
qed

lemma tms_keys_ordered:
  assumes "LENGTH('w::len) = 8 * n" "n \<le> 8" "tms_base P \<le> 256" "tm_isShortInputOk P"
    and "tm_begin P < tm_end P" "tms_isValid P n s" "tms_isValid P n t" "length s = length t"
  shows "\<exists>k l :: 'w word. IntegralValueTMS P s = Inr k \<and> IntegralValueTMS P t = Inr l \<and>
    (k < l \<longleftrightarrow> (map sint s, map sint t) \<in> lexord {(x, y). x < y})"
proof -
  note ks = tms_key [OF assms(1-4) assms(6) assms(5)]
  note kt = tms_key [OF assms(1-4) assms(7) assms(5)]
  have "digits_num (tms_base P) (tms_digits P s) < digits_num (tms_base P) (tms_digits P t) \<longleftrightarrow>
      (tms_digits P s, tms_digits P t) \<in> lexord {(x, y). x < y}"
    using assms(8) tms_valid_digits(2) [OF assms(6)] tms_valid_digits(2) [OF assms(7)]
    by (intro digits_num_order) (auto simp: tms_digits_def)
  also have "\<dots> \<longleftrightarrow> (map sint s, map sint t) \<in> lexord {(x, y). x < y}"
    using assms(8) tms_valid_digits(1) [OF assms(6)] tms_valid_digits(1) [OF assms(7)]
  proof (induction s t rule: list_induct2)
    case Nil
    then show ?case by (simp add: tms_digits_def)
  next
    case (Cons c s d t)
    have "nat (tms_digit P c) < nat (tms_digit P d) \<longleftrightarrow> sint c < sint d"
      "nat (tms_digit P c) = nat (tms_digit P d) \<longleftrightarrow> sint c = sint d"
      using Cons.prems(1) [of c] Cons.prems(2) [of d] by (auto simp: tms_digit_def)
    then show ?case using Cons by (simp add: tms_digits_def)
  qed
  finally have "word_of_nat (digits_num (tms_base P) (tms_digits P s)) <
      (word_of_nat (digits_num (tms_base P) (tms_digits P t)) :: 'w word) \<longleftrightarrow>
      (map sint s, map sint t) \<in> lexord {(x, y). x < y}"
    using ks(2) kt(2) by (simp add: word_less_nat_alt unat_of_nat_small)
  then show ?thesis using ks(1) kt(1) by blast
qed

subsection \<open>Where the computation breaks down\<close>

text \<open>
  For 128-bit keys the table has 16 powers of the base in 64 bits. From base 20 on it
  overflows, its entries are all 0 and so are all the keys.
\<close>

lemma wide_keys_collapse:
  assumes "20 \<le> tms_base P" "tms_base P < 2 ^ 64" "tm_isShortInputOk P" "tms_isValid P 16 s"
  shows "(IntegralValueTMS P s :: key_error + u128) = Inr 0"
proof -
  have "(20 :: nat) ^ 15 \<le> tms_base P ^ (16 - 1)" using power_mono [of 20 "tms_base P" 15] assms(1) by simp
  moreover have "(2 :: nat) ^ 64 \<le> 20 ^ 15" by simp
  ultimately have "\<not> tms_base P ^ (16 - 1) < 2 ^ 64" by linarith
  then have "tms_pows P 16 = replicate 16 0"
    using assms(1,2) ConstevalIntPows_closed [where 'w = 64, of 16 "tms_base P"] by (simp add: tms_pows_def)
  moreover have "length s \<le> 16" using assms(4) by (simp add: tms_isValid_def)
  ultimately have "(tms_init P s :: u128) = (\<Sum>p<length s. 0)"
    using assms(4) unfolding tms_init_def Let_def foldl_sum by (simp del: sum.neutral_const)
  then show ?thesis using assms(3) by (simp add: IntegralValueTMS_def tms_invalidValue_def)
qed

subsection \<open>Properties\<close>

text \<open>
  For integers of up to 64 bits and a base of at most 256, every valid string
  has a key, no valid key is taken for the invalid value, and keys of strings of one length
  are ordered as the strings are lexicographically.
\<close>

theorem tms_order_preserved:
  assumes "LENGTH('w::len) = 8 * n" "n \<le> 8" "tms_base P \<le> 256" "tm_isShortInputOk P"
    and "tm_begin P < tm_end P" "tms_isValid P n s" "tms_isValid P n t" "length s = length t"
  shows "\<exists>k l :: 'w word. IntegralValueTMS P s = Inr k \<and> IntegralValueTMS P t = Inr l \<and>
    (k < l \<longleftrightarrow> (map sint s, map sint t) \<in> lexord {(x, y). x < y})"
  by (rule tms_keys_ordered [OF assms])

definition decimal_keys :: tms where
  "decimal_keys = \<lparr>tm_begin = 48, tm_end = 58, tm_isShortInputOk = True, tm_throwOnInvalid = True\<rparr>"

lemma decimal_valid:
  "tms_isValid decimal_keys 8 [0x31, 0x39]" "tms_isValid decimal_keys 8 [0x32, 0x30]"
  by (simp_all add: tms_isValid_def decimal_keys_def tms_digit_def tms_base_def)

theorem tms_order_preserved_witness:
  "\<exists>k l :: u64. IntegralValueTMS decimal_keys [0x31, 0x39] = Inr k \<and>
    IntegralValueTMS decimal_keys [0x32, 0x30] = Inr l \<and>
    (k < l \<longleftrightarrow> (map sint [0x31, 0x39 :: u8], map sint [0x32, 0x30 :: u8]) \<in> lexord {(x, y). x < y})"
  by (rule tms_order_preserved [of 8])
    (simp_all add: decimal_valid, simp_all add: decimal_keys_def tms_base_def)

text \<open>
  The powers of the base are 64-bit numbers also when the key has 128 bits. From
  base 20 on their table overflows and is left full of zeros, and every valid string has the
  key 0.
\<close>

theorem tms_wide_keys_collapse:
  assumes "20 \<le> tms_base P" "tms_base P < 2 ^ 64" "tm_isShortInputOk P" "tms_isValid P 16 s"
  shows "(IntegralValueTMS P s :: key_error + u128) = Inr 0"
  by (rule wide_keys_collapse [OF assms])

definition letter_keys :: tms where
  "letter_keys = \<lparr>tm_begin = 65, tm_end = 91, tm_isShortInputOk = True, tm_throwOnInvalid = True\<rparr>"

theorem tms_wide_keys_collapse_witness:
  "(IntegralValueTMS letter_keys [0x41, 0x42, 0x43] :: key_error + u128) = Inr 0"
  by (rule tms_wide_keys_collapse)
    (simp_all add: letter_keys_def tms_isValid_def tms_digit_def tms_base_def)

end
