(* ===== verification/Ticket_Lock.thy ===== *)
theory Ticket_Lock
  imports Prelude
begin

text \<open>
  The spinning ticket lock \<open>multiThread/spin_ticket_mutex.cpp\<close>: two 64-bit counters,
  one that hands out tickets and one that shows the ticket being served. Every access to a
  counter is one step of the calling thread. The state also records, for the proofs only, who
  drew each ticket, who entered the critical section, and how often it was left.
\<close>

subsection \<open>The lock\<close>

datatype tl_pc =
    Outside
  | Spinning u64
  | Trying u64
  | Inside

record ticket_lock =
  next_ticket :: u64
  serving :: u64
  tl_pc :: "nat \<Rightarrow> tl_pc"
  drawn :: "nat list"
  entered :: "nat list"
  left :: nat

definition spin_ticket_mutex :: ticket_lock where
  "spin_ticket_mutex = \<lparr>next_ticket = 0, serving = 0, tl_pc = (\<lambda>_. Outside), drawn = [], entered = [], left = 0\<rparr>"

text \<open>\<open>lock\<close>: \<open>fetch_add\<close>, then loads of \<open>serving_\<close> until it shows the own ticket.\<close>

definition lock_draw :: "nat \<Rightarrow> ticket_lock \<Rightarrow> ticket_lock" where
  "lock_draw t s = s\<lparr>next_ticket := next_ticket s + 1, tl_pc := (tl_pc s)(t := Spinning (next_ticket s)),
     drawn := drawn s @ [t]\<rparr>"

definition lock_load :: "nat \<Rightarrow> u64 \<Rightarrow> ticket_lock \<Rightarrow> ticket_lock" where
  "lock_load t my_ticket s =
     (if serving s \<noteq> my_ticket then s
      else s\<lparr>tl_pc := (tl_pc s)(t := Inside), entered := entered s @ [t]\<rparr>)"

text \<open>\<open>try_lock\<close>: a load of \<open>serving_\<close>, then one compare-and-exchange of \<open>next_ticket_\<close>.\<close>

definition try_load :: "nat \<Rightarrow> ticket_lock \<Rightarrow> ticket_lock" where
  "try_load t s = s\<lparr>tl_pc := (tl_pc s)(t := Trying (serving s))\<rparr>"

definition try_cas :: "nat \<Rightarrow> u64 \<Rightarrow> ticket_lock \<Rightarrow> ticket_lock" where
  "try_cas t current s =
     (if next_ticket s = current
      then s\<lparr>next_ticket := current + 1, tl_pc := (tl_pc s)(t := Inside),
        drawn := drawn s @ [t], entered := entered s @ [t]\<rparr>
      else s\<lparr>tl_pc := (tl_pc s)(t := Outside)\<rparr>)"

definition unlock_ticket :: "nat \<Rightarrow> ticket_lock \<Rightarrow> ticket_lock" where
  "unlock_ticket t s = s\<lparr>serving := serving s + 1, tl_pc := (tl_pc s)(t := Outside), left := left s + 1\<rparr>"

text \<open>
  A thread calls \<open>lock\<close> and \<open>try_lock\<close> when it is outside and \<open>unlock\<close> when it
  is inside.
\<close>

inductive tl_step :: "ticket_lock \<Rightarrow> ticket_lock \<Rightarrow> bool" where
  draw: "tl_pc s t = Outside \<Longrightarrow> tl_step s (lock_draw t s)"
| load: "tl_pc s t = Spinning my_ticket \<Longrightarrow> tl_step s (lock_load t my_ticket s)"
| try_load: "tl_pc s t = Outside \<Longrightarrow> tl_step s (try_load t s)"
| try_cas: "tl_pc s t = Trying current \<Longrightarrow> tl_step s (try_cas t current s)"
| unlock: "tl_pc s t = Inside \<Longrightarrow> tl_step s (unlock_ticket t s)"

lemmas tl_defs [state_simps] = lock_draw_def lock_load_def try_load_def try_cas_def unlock_ticket_def

subsection \<open>The invariant\<close>

text \<open>
  The counters are the numbers of tickets drawn and of departures, modulo 2 to the 64. As
  long as fewer tickets than that have been drawn, the threads enter in the order of their
  tickets, and the ones that have drawn but not entered spin on their own ticket.
\<close>

definition tl_counters :: "ticket_lock \<Rightarrow> bool" where
  "tl_counters s \<longleftrightarrow> next_ticket s = word_of_nat (length (drawn s)) \<and> serving s = word_of_nat (left s)"

definition tl_order :: "ticket_lock \<Rightarrow> bool" where
  "tl_order s \<longleftrightarrow> left s \<le> length (entered s) \<and> length (entered s) \<le> left s + 1 \<and>
     length (entered s) \<le> length (drawn s) \<and> entered s = take (length (entered s)) (drawn s)"

definition tl_spinning :: "ticket_lock \<Rightarrow> bool" where
  "tl_spinning s \<longleftrightarrow> (\<forall>t my. tl_pc s t = Spinning my \<longrightarrow>
     (\<exists>i \<ge> length (entered s). i < length (drawn s) \<and> drawn s ! i = t \<and> my = word_of_nat i))"

definition tl_inside :: "ticket_lock \<Rightarrow> bool" where
  "tl_inside s \<longleftrightarrow> (\<forall>t. tl_pc s t = Inside \<longrightarrow> length (entered s) = left s + 1 \<and> drawn s ! left s = t)"

definition tl_trying :: "ticket_lock \<Rightarrow> bool" where
  "tl_trying s \<longleftrightarrow> (\<forall>t c. tl_pc s t = Trying c \<longrightarrow> (\<exists>k \<le> left s. c = word_of_nat k))"

definition tl_waiting :: "ticket_lock \<Rightarrow> bool" where
  "tl_waiting s \<longleftrightarrow> (\<forall>i \<ge> length (entered s). i < length (drawn s) \<longrightarrow>
     tl_pc s (drawn s ! i) = Spinning (word_of_nat i))"

definition tl_holder :: "ticket_lock \<Rightarrow> bool" where
  "tl_holder s \<longleftrightarrow> (length (entered s) = left s + 1 \<longrightarrow> tl_pc s (drawn s ! left s) = Inside)"

definition tl_ok :: "ticket_lock \<Rightarrow> bool" where
  "tl_ok s \<longleftrightarrow> tl_counters s \<and> tl_order s \<and> tl_spinning s \<and> tl_inside s \<and> tl_trying s \<and> tl_waiting s \<and> tl_holder s"

definition tl_inv :: "ticket_lock \<Rightarrow> bool" where
  "tl_inv s \<longleftrightarrow> (length (drawn s) < 2 ^ 64 \<longrightarrow> tl_ok s)"

lemma drawn_mono: "tl_step s s' \<Longrightarrow> length (drawn s) \<le> length (drawn s')"
  by (cases rule: tl_step.cases) (auto simp: state_simps)

lemma small_tickets: "a < 2 ^ 64 \<Longrightarrow> b < 2 ^ 64 \<Longrightarrow> (word_of_nat a :: u64) = word_of_nat b \<longleftrightarrow> a = b"
  by (rule of_nat_eq_small) simp_all

lemma tl_okD:
  assumes "tl_ok s"
  shows "tl_counters s" "tl_order s" "tl_spinning s" "tl_inside s" "tl_trying s" "tl_waiting s" "tl_holder s"
  using assms by (simp_all add: tl_ok_def)

lemma tl_ok_draw:
  assumes "tl_ok s" "tl_pc s t = Outside"
  shows "tl_ok (lock_draw t s)"
proof -
  note ok = tl_okD [OF assms(1)]
  have counters: "tl_counters (lock_draw t s)" using ok(1) by (simp add: tl_counters_def lock_draw_def)
  have order: "tl_order (lock_draw t s)" using ok(2) by (simp add: tl_order_def lock_draw_def)
  have spinning: "tl_spinning (lock_draw t s)"
    unfolding tl_spinning_def
  proof (intro allI impI)
    fix u my assume u: "tl_pc (lock_draw t s) u = Spinning my"
    show "\<exists>i \<ge> length (entered (lock_draw t s)). i < length (drawn (lock_draw t s)) \<and>
        drawn (lock_draw t s) ! i = u \<and> my = word_of_nat i"
    proof (cases "u = t")
      case True
      then show ?thesis using u ok(1,2)
        by (intro exI [of _ "length (drawn s)"]) (simp add: lock_draw_def tl_counters_def tl_order_def)
    next
      case False
      then have "tl_pc s u = Spinning my" using u by (simp add: lock_draw_def)
      then obtain i where "length (entered s) \<le> i" "i < length (drawn s)" "drawn s ! i = u" "my = word_of_nat i"
        using ok(3) unfolding tl_spinning_def by blast
      then show ?thesis by (intro exI [of _ i]) (simp add: lock_draw_def nth_append)
    qed
  qed
  have inside: "tl_inside (lock_draw t s)"
    using ok(2,4) by (auto simp: tl_inside_def tl_order_def lock_draw_def nth_append)
  have trying: "tl_trying (lock_draw t s)" using ok(5) by (auto simp: tl_trying_def lock_draw_def)
  have waiting: "tl_waiting (lock_draw t s)"
    using ok(1,6) assms(2) by (auto simp: tl_waiting_def tl_counters_def lock_draw_def nth_append less_Suc_eq)
  have holder: "tl_holder (lock_draw t s)"
    using ok(2,7) assms(2) by (auto simp: tl_holder_def tl_order_def lock_draw_def nth_append)
  show ?thesis using counters order spinning inside trying waiting holder by (simp add: tl_ok_def)
qed

lemma tl_ok_load:
  assumes "tl_ok s" "tl_pc s t = Spinning my" "length (drawn s) < 2 ^ 64"
  shows "tl_ok (lock_load t my s)"
proof (cases "serving s = my")
  case False
  then show ?thesis using assms by (simp add: lock_load_def)
next
  case True
  note ok = tl_okD [OF assms(1)]
  obtain i where i: "length (entered s) \<le> i" "i < length (drawn s)" "drawn s ! i = t" "my = word_of_nat i"
    using ok(3) assms(2) unfolding tl_spinning_def by blast
  have "(word_of_nat (left s) :: u64) = word_of_nat i" using True i(4) ok(1) by (simp add: tl_counters_def)
  then have "left s = i" using i ok(2) assms(3) small_tickets [of "left s" i] by (simp add: tl_order_def)
  then have e: "length (entered s) = left s" "left s < length (drawn s)" "drawn s ! left s = t"
    using i ok(2) by (auto simp: tl_order_def)
  have distinct_later: "drawn s ! j \<noteq> t" if "Suc (left s) \<le> j" "j < length (drawn s)" for j
  proof
    assume "drawn s ! j = t"
    then have "my = word_of_nat j" using ok(6) assms(2) that e(1) unfolding tl_waiting_def
      by (metis Suc_leD tl_pc.inject(1))
    then show False using i(4) \<open>left s = i\<close> that assms(3) small_tickets [of i j] by simp
  qed
  have state: "lock_load t my s = s\<lparr>tl_pc := (tl_pc s)(t := Inside), entered := entered s @ [t]\<rparr>"
    using True by (simp add: lock_load_def)
  have counters: "tl_counters (lock_load t my s)" using ok(1) by (simp add: tl_counters_def state)
  have order: "tl_order (lock_load t my s)"
    using ok(2) e by (simp add: tl_order_def state take_Suc_conv_app_nth)
  have spinning: "tl_spinning (lock_load t my s)"
    unfolding tl_spinning_def
  proof (intro allI impI)
    fix u my' assume u: "tl_pc (lock_load t my s) u = Spinning my'"
    then have "u \<noteq> t" "tl_pc s u = Spinning my'" by (auto simp: state split: if_splits)
    then obtain j where j: "length (entered s) \<le> j" "j < length (drawn s)" "drawn s ! j = u" "my' = word_of_nat j"
      using ok(3) unfolding tl_spinning_def by blast
    then have "Suc (left s) \<le> j" using e \<open>u \<noteq> t\<close> by (cases "j = left s") auto
    then show "\<exists>i \<ge> length (entered (lock_load t my s)). i < length (drawn (lock_load t my s)) \<and>
        drawn (lock_load t my s) ! i = u \<and> my' = word_of_nat i"
      using j e by (intro exI [of _ j]) (simp add: state)
  qed
  have inside: "tl_inside (lock_load t my s)"
    using ok(4) e by (auto simp: tl_inside_def state)
  have trying: "tl_trying (lock_load t my s)" using ok(5) by (auto simp: tl_trying_def state)
  have waiting: "tl_waiting (lock_load t my s)"
    using ok(6) e distinct_later by (auto simp: tl_waiting_def state)
  have holder: "tl_holder (lock_load t my s)" using e by (simp add: tl_holder_def state)
  show ?thesis using counters order spinning inside trying waiting holder by (simp add: tl_ok_def)
qed

text \<open>A thread that has no ticket may be outside or trying.\<close>

lemma tl_ok_idle:
  assumes "tl_ok s" "tl_pc s t = Outside \<or> (\<exists>c. tl_pc s t = Trying c)" "p = Outside \<or> p = Trying (serving s)"
  shows "tl_ok (s\<lparr>tl_pc := (tl_pc s)(t := p)\<rparr>)"
proof -
  note ok = tl_okD [OF assms(1)]
  let ?s = "s\<lparr>tl_pc := (tl_pc s)(t := p)\<rparr>"
  have "tl_counters ?s" "tl_order ?s" using ok(1,2) by (simp_all add: tl_counters_def tl_order_def)
  moreover have "tl_spinning ?s" using ok(3) assms(3) unfolding tl_spinning_def by (elim disjE) simp_all
  moreover have "tl_inside ?s" using ok(4) assms(3) unfolding tl_inside_def by (elim disjE) simp_all
  moreover have "tl_trying ?s" using ok(1,5) assms(3) unfolding tl_trying_def tl_counters_def by auto
  moreover have "tl_waiting ?s" using ok(6) assms(2) unfolding tl_waiting_def by auto
  moreover have "tl_holder ?s" using ok(7) assms(2) unfolding tl_holder_def by auto
  ultimately show ?thesis by (simp add: tl_ok_def)
qed

lemma tl_ok_try_load:
  assumes "tl_ok s" "tl_pc s t = Outside"
  shows "tl_ok (try_load t s)"
  unfolding try_load_def using assms by (intro tl_ok_idle) simp_all

lemma tl_ok_try_cas:
  assumes "tl_ok s" "tl_pc s t = Trying c" "length (drawn s) < 2 ^ 64"
  shows "tl_ok (try_cas t c s)"
proof (cases "next_ticket s = c")
  case False
  then have "try_cas t c s = s\<lparr>tl_pc := (tl_pc s)(t := Outside)\<rparr>" by (simp add: try_cas_def)
  then show ?thesis using assms(1,2) by (simp add: tl_ok_idle)
next
  case True
  note ok = tl_okD [OF assms(1)]
  obtain k where k: "k \<le> left s" "c = word_of_nat k" using ok(5) assms(2) unfolding tl_trying_def by blast
  have "(word_of_nat (length (drawn s)) :: u64) = word_of_nat k" using True k ok(1) by (simp add: tl_counters_def)
  then have "length (drawn s) = k"
    using k(1) ok(2) assms(3) small_tickets [of "length (drawn s)" k] by (simp add: tl_order_def)
  then have e: "left s = length (drawn s)" "length (entered s) = length (drawn s)" "entered s = drawn s"
    using k(1) ok(2) by (auto simp: tl_order_def)
  have state: "try_cas t c s = s\<lparr>next_ticket := next_ticket s + 1, tl_pc := (tl_pc s)(t := Inside),
      drawn := drawn s @ [t], entered := entered s @ [t]\<rparr>"
    using True by (simp add: try_cas_def)
  have "tl_pc s u \<noteq> Spinning my" for u my
  proof
    assume "tl_pc s u = Spinning my"
    then obtain i where "length (entered s) \<le> i" "i < length (drawn s)" using ok(3) unfolding tl_spinning_def by blast
    then show False using e by simp
  qed
  then have spinning: "tl_spinning (try_cas t c s)" by (simp add: tl_spinning_def state)
  have "tl_pc s u \<noteq> Inside" for u using ok(4) e by (auto simp: tl_inside_def)
  then have inside: "tl_inside (try_cas t c s)" using e by (simp add: tl_inside_def state nth_append)
  have "tl_counters (try_cas t c s)" using ok(1) by (simp add: tl_counters_def state)
  moreover have "tl_order (try_cas t c s)" using e by (simp add: tl_order_def state)
  moreover have "tl_trying (try_cas t c s)" using ok(5) by (auto simp: tl_trying_def state)
  moreover have "tl_waiting (try_cas t c s)" using e by (simp add: tl_waiting_def state)
  moreover have "tl_holder (try_cas t c s)" using e by (simp add: tl_holder_def state nth_append)
  ultimately show ?thesis using spinning inside by (simp add: tl_ok_def)
qed

lemma tl_ok_unlock:
  assumes "tl_ok s" "tl_pc s t = Inside"
  shows "tl_ok (unlock_ticket t s)"
proof -
  note ok = tl_okD [OF assms(1)]
  have e: "length (entered s) = left s + 1" "drawn s ! left s = t"
    using ok(4) assms(2) by (auto simp: tl_inside_def)
  have "tl_pc s u = Inside \<Longrightarrow> u = t" for u using ok(4) e by (auto simp: tl_inside_def)
  then have "tl_inside (unlock_ticket t s)" by (auto simp: tl_inside_def unlock_ticket_def)
  moreover have "tl_counters (unlock_ticket t s)" using ok(1) by (simp add: tl_counters_def unlock_ticket_def)
  moreover have "tl_order (unlock_ticket t s)" using ok(2) e by (simp add: tl_order_def unlock_ticket_def)
  moreover have "tl_spinning (unlock_ticket t s)" using ok(3) by (auto simp: tl_spinning_def unlock_ticket_def)
  moreover have "tl_trying (unlock_ticket t s)"
    unfolding tl_trying_def
  proof (intro allI impI)
    fix u c assume "tl_pc (unlock_ticket t s) u = Trying c"
    then have "tl_pc s u = Trying c" by (auto simp: unlock_ticket_def split: if_splits)
    then obtain k where "k \<le> left s" "c = word_of_nat k" using ok(5) unfolding tl_trying_def by blast
    then show "\<exists>k \<le> left (unlock_ticket t s). c = word_of_nat k"
      by (intro exI [of _ k]) (simp add: unlock_ticket_def)
  qed
  moreover have "tl_waiting (unlock_ticket t s)"
    using ok(6) assms(2) by (auto simp: tl_waiting_def unlock_ticket_def)
  moreover have "tl_holder (unlock_ticket t s)" using e by (simp add: tl_holder_def unlock_ticket_def)
  ultimately show ?thesis by (simp add: tl_ok_def)
qed

lemma tl_ok_start: "tl_ok spin_ticket_mutex"
  by (simp add: spin_ticket_mutex_def tl_ok_def tl_counters_def tl_order_def tl_spinning_def tl_inside_def
      tl_trying_def tl_waiting_def tl_holder_def)

lemma tl_step_ok: "tl_step s s' \<Longrightarrow> tl_ok s \<Longrightarrow> length (drawn s) < 2 ^ 64 \<Longrightarrow> tl_ok s'"
  by (cases rule: tl_step.cases)
    (auto intro: tl_ok_draw tl_ok_load tl_ok_try_load tl_ok_try_cas tl_ok_unlock)

interpretation tl: inductive_invariant "\<lambda>s. s = spin_ticket_mutex" tl_step tl_inv
proof
  fix s assume "s = spin_ticket_mutex"
  then show "tl_inv s" by (simp add: tl_inv_def tl_ok_start)
next
  fix s s' assume "tl_inv s" "tl_step s s'"
  then show "tl_inv s'" using drawn_mono tl_step_ok unfolding tl_inv_def by (meson le_less_trans)
qed

lemma tl_reachable_ok:
  assumes "tl_step\<^sup>*\<^sup>* spin_ticket_mutex s" "length (drawn s) < 2 ^ 64"
  shows "tl_ok s"
  using tl.reachable_inv [OF refl assms(1)] assms(2) by (simp add: tl_inv_def)

subsection \<open>Properties\<close>

text \<open>
  Property C18: in every interleaving of \<open>lock\<close>, \<open>try_lock\<close> and \<open>unlock\<close>
  that draws fewer than 2 to the 64 tickets, at most one thread is inside, threads enter in
  the order in which they drew their tickets, and if nobody is inside and somebody has drawn
  a ticket, the one with the oldest ticket enters with its next load.
\<close>

theorem ticket_lock_exclusive_fair:
  assumes "tl_step\<^sup>*\<^sup>* spin_ticket_mutex s" "length (drawn s) < 2 ^ 64"
  shows "(\<forall>t u. tl_pc s t = Inside \<longrightarrow> tl_pc s u = Inside \<longrightarrow> t = u) \<and>
    entered s = take (length (entered s)) (drawn s) \<and>
    ((\<forall>t. tl_pc s t \<noteq> Inside) \<longrightarrow> length (entered s) < length (drawn s) \<longrightarrow>
      (let t = drawn s ! length (entered s)
       in tl_pc s t = Spinning (serving s) \<and> tl_pc (lock_load t (serving s) s) t = Inside))"
proof (intro conjI impI allI)
  note ok = tl_okD [OF tl_reachable_ok [OF assms]]
  show "t = u" if "tl_pc s t = Inside" "tl_pc s u = Inside" for t u
    using ok(4) that by (auto simp: tl_inside_def)
  show "entered s = take (length (entered s)) (drawn s)" using ok(2) by (simp add: tl_order_def)
  assume none: "\<forall>t. tl_pc s t \<noteq> Inside" and some: "length (entered s) < length (drawn s)"
  have "length (entered s) = left s"
    using none ok(2,7) by (auto simp: tl_order_def tl_holder_def le_Suc_eq)
  moreover have "tl_pc s (drawn s ! left s) = Spinning (serving s)"
    using ok(1,6) some \<open>length (entered s) = left s\<close> by (simp add: tl_waiting_def tl_counters_def)
  ultimately show "let t = drawn s ! length (entered s)
       in tl_pc s t = Spinning (serving s) \<and> tl_pc (lock_load t (serving s) s) t = Inside"
    by (simp add: Let_def lock_load_def)
qed

lemma sample_tickets: "tl_step\<^sup>*\<^sup>* spin_ticket_mutex (lock_draw 2 (lock_load 1 0 (lock_draw 1 spin_ticket_mutex)))"
proof -
  have "tl_step spin_ticket_mutex (lock_draw 1 spin_ticket_mutex)"
    by (rule tl_step.draw) (simp add: spin_ticket_mutex_def)
  moreover have "tl_step (lock_draw 1 spin_ticket_mutex) (lock_load 1 0 (lock_draw 1 spin_ticket_mutex))"
    by (rule tl_step.load) (simp add: spin_ticket_mutex_def lock_draw_def)
  moreover have "tl_step (lock_load 1 0 (lock_draw 1 spin_ticket_mutex))
      (lock_draw 2 (lock_load 1 0 (lock_draw 1 spin_ticket_mutex)))"
    by (rule tl_step.draw) (simp add: spin_ticket_mutex_def lock_draw_def lock_load_def)
  ultimately show ?thesis by (blast intro: rtranclp.rtrancl_into_rtrancl)
qed

definition sample_lock :: ticket_lock where
  "sample_lock = lock_draw 2 (lock_load 1 0 (lock_draw 1 spin_ticket_mutex))"

lemma sample_lock_state: "tl_pc sample_lock 1 = Inside" "drawn sample_lock = [1, 2]"
  by (simp_all add: sample_lock_def lock_draw_def lock_load_def spin_ticket_mutex_def)

theorem ticket_lock_exclusive_fair_witness:
  "tl_pc sample_lock 1 = Inside \<and> drawn sample_lock = [1, 2] \<and>
    (\<forall>t. tl_pc sample_lock t = Inside \<longleftrightarrow> t = 1)"
proof -
  have "tl_step\<^sup>*\<^sup>* spin_ticket_mutex sample_lock" unfolding sample_lock_def by (rule sample_tickets)
  from ticket_lock_exclusive_fair [OF this] show ?thesis using sample_lock_state by auto
qed

end
