(* ===== verification/Hierarchical_Mutex.thy ===== *)
theory Hierarchical_Mutex
  imports Prelude
begin

text \<open>
  The mutex of \<open>multiThread/hierarchical_mutex.cpp\<close>, which lets a thread lock only
  mutexes of a lower level than those it holds. A thread-local variable has the level of the
  thread; locking saves it in the mutex, unlocking restores it. Threads and mutexes are
  numbers; the accesses to the variables and to the internal \<open>std::mutex\<close> are separate
  steps. The stack of mutexes a thread holds is recorded for the proofs.
\<close>

subsection \<open>The mutex\<close>

datatype hm_pc = Running | Locking nat | Locked nat | Unlocking nat

record hm_state =
  internal_mutex :: "nat \<Rightarrow> nat option"
  previous_hierarchy_value :: "nat \<Rightarrow> u64"
  this_thread_hierarchy_value :: "nat \<Rightarrow> u64"
  hm_pc :: "nat \<Rightarrow> hm_pc"
  held :: "nat \<Rightarrow> nat list"

definition ULONG_MAX :: u64 where
  "ULONG_MAX = - 1"

text \<open>The constructors set the saved value to 0, every thread starts at the highest level.\<close>

definition hm_start :: hm_state where
  "hm_start = \<lparr>internal_mutex = (\<lambda>_. None), previous_hierarchy_value = (\<lambda>_. 0),
     this_thread_hierarchy_value = (\<lambda>_. ULONG_MAX), hm_pc = (\<lambda>_. Running), held = (\<lambda>_. [])\<rparr>"

text \<open>Whether \<open>check_for_hierarchy_violation\<close> throws; \<open>h\<close> gives the level of each mutex.\<close>

definition check_for_hierarchy_violation :: "(nat \<Rightarrow> u64) \<Rightarrow> nat \<Rightarrow> nat \<Rightarrow> hm_state \<Rightarrow> bool" where
  "check_for_hierarchy_violation h t m s = (this_thread_hierarchy_value s t \<le> h m)"

definition update_hierarchy_value :: "(nat \<Rightarrow> u64) \<Rightarrow> nat \<Rightarrow> nat \<Rightarrow> hm_state \<Rightarrow> hm_state" where
  "update_hierarchy_value h t m s =
     s\<lparr>previous_hierarchy_value := (previous_hierarchy_value s)(m := this_thread_hierarchy_value s t),
       this_thread_hierarchy_value := (this_thread_hierarchy_value s)(t := h m),
       hm_pc := (hm_pc s)(t := Running), held := (held s)(t := m # held s t)\<rparr>"

definition hm_wait :: "nat \<Rightarrow> nat \<Rightarrow> hm_state \<Rightarrow> hm_state" where
  "hm_wait t m s = s\<lparr>hm_pc := (hm_pc s)(t := Locking m)\<rparr>"

definition hm_acquire :: "nat \<Rightarrow> nat \<Rightarrow> hm_state \<Rightarrow> hm_state" where
  "hm_acquire t m s =
     s\<lparr>internal_mutex := (internal_mutex s)(m := Some t), hm_pc := (hm_pc s)(t := Locked m)\<rparr>"

definition hm_restore :: "nat \<Rightarrow> nat \<Rightarrow> hm_state \<Rightarrow> hm_state" where
  "hm_restore t m s =
     s\<lparr>this_thread_hierarchy_value := (this_thread_hierarchy_value s)(t := previous_hierarchy_value s m),
       hm_pc := (hm_pc s)(t := Unlocking m)\<rparr>"

definition hm_release :: "nat \<Rightarrow> nat \<Rightarrow> hm_state \<Rightarrow> hm_state" where
  "hm_release t m s =
     s\<lparr>internal_mutex := (internal_mutex s)(m := None), hm_pc := (hm_pc s)(t := Running),
       held := (held s)(t := remove1 m (held s t))\<rparr>"

text \<open>
  \<open>lock\<close> checks, waits for the internal mutex and updates; \<open>try_lock\<close> checks and
  updates if the mutex is free at once; \<open>unlock\<close> restores and releases. A check that throws
  and a \<open>try_lock\<close> that fails change nothing. With \<open>lifo\<close> threads unlock in the
  opposite order of locking, as guards on the stack do.
\<close>

inductive hm_step :: "bool \<Rightarrow> (nat \<Rightarrow> u64) \<Rightarrow> hm_state \<Rightarrow> hm_state \<Rightarrow> bool"
  for lifo :: bool and h :: "nat \<Rightarrow> u64"
where
  lock_throws: "hm_pc s t = Running \<Longrightarrow> check_for_hierarchy_violation h t m s \<Longrightarrow> hm_step lifo h s s"
| lock_waits: "hm_pc s t = Running \<Longrightarrow> \<not> check_for_hierarchy_violation h t m s \<Longrightarrow>
    hm_step lifo h s (hm_wait t m s)"
| lock_acquires: "hm_pc s t = Locking m \<Longrightarrow> internal_mutex s m = None \<Longrightarrow>
    hm_step lifo h s (hm_acquire t m s)"
| lock_updates: "hm_pc s t = Locked m \<Longrightarrow> hm_step lifo h s (update_hierarchy_value h t m s)"
| try_fails: "hm_pc s t = Running \<Longrightarrow> \<not> check_for_hierarchy_violation h t m s \<Longrightarrow>
    internal_mutex s m \<noteq> None \<Longrightarrow> hm_step lifo h s s"
| try_acquires: "hm_pc s t = Running \<Longrightarrow> \<not> check_for_hierarchy_violation h t m s \<Longrightarrow>
    internal_mutex s m = None \<Longrightarrow> hm_step lifo h s (hm_acquire t m s)"
| unlock_restores: "hm_pc s t = Running \<Longrightarrow> m \<in> set (held s t) \<Longrightarrow> (lifo \<longrightarrow> m = hd (held s t)) \<Longrightarrow>
    hm_step lifo h s (hm_restore t m s)"
| unlock_releases: "hm_pc s t = Unlocking m \<Longrightarrow> hm_step lifo h s (hm_release t m s)"

text \<open>A set of threads that wait for each other.\<close>

definition hm_deadlock :: "hm_state \<Rightarrow> nat set \<Rightarrow> bool" where
  "hm_deadlock s W \<longleftrightarrow> finite W \<and> W \<noteq> {} \<and>
     (\<forall>t \<in> W. \<exists>m. hm_pc s t = Locking m \<and> (\<exists>u \<in> W. internal_mutex s m = Some u))"

subsection \<open>The invariant of nested locking\<close>

fun top_level :: "(nat \<Rightarrow> u64) \<Rightarrow> nat list \<Rightarrow> u64" where
  "top_level h [] = ULONG_MAX"
| "top_level h (m # ms) = h m"

fun stack_ok :: "(nat \<Rightarrow> u64) \<Rightarrow> hm_state \<Rightarrow> nat list \<Rightarrow> bool" where
  "stack_ok h s [] = True"
| "stack_ok h s (m # ms) =
     (previous_hierarchy_value s m = top_level h ms \<and> h m < top_level h ms \<and> stack_ok h s ms)"

fun thread_ok :: "(nat \<Rightarrow> u64) \<Rightarrow> hm_state \<Rightarrow> nat \<Rightarrow> hm_pc \<Rightarrow> bool" where
  "thread_ok h s t Running = (this_thread_hierarchy_value s t = top_level h (held s t))"
| "thread_ok h s t (Locking m) =
     (this_thread_hierarchy_value s t = top_level h (held s t) \<and> h m < top_level h (held s t))"
| "thread_ok h s t (Locked m) =
     (this_thread_hierarchy_value s t = top_level h (held s t) \<and> h m < top_level h (held s t) \<and>
      internal_mutex s m = Some t)"
| "thread_ok h s t (Unlocking m) =
     (\<exists>ms. held s t = m # ms \<and> this_thread_hierarchy_value s t = top_level h ms)"

definition hm_ok :: "(nat \<Rightarrow> u64) \<Rightarrow> hm_state \<Rightarrow> bool" where
  "hm_ok h s \<longleftrightarrow> (\<forall>t. stack_ok h s (held s t) \<and> thread_ok h s t (hm_pc s t)) \<and>
     (\<forall>t. \<forall>m \<in> set (held s t). internal_mutex s m = Some t) \<and>
     (\<forall>m t. internal_mutex s m = Some t \<longrightarrow> m \<in> set (held s t) \<or> hm_pc s t = Locked m)"

lemma stack_top: "stack_ok h s ms \<Longrightarrow> m \<in> set ms \<Longrightarrow> top_level h ms \<le> h m"
proof (induction ms arbitrary: m)
  case Nil
  then show ?case by simp
next
  case (Cons k ks)
  then show ?case by (cases "m = k") (auto intro: order.strict_implies_order less_le_trans)
qed

lemma stack_ok_cong:
  "(\<And>m. m \<in> set ms \<Longrightarrow> previous_hierarchy_value s' m = previous_hierarchy_value s m) \<Longrightarrow>
   stack_ok h s' ms = stack_ok h s ms"
  by (induction ms) simp_all

lemma stack_distinct: "stack_ok h s ms \<Longrightarrow> distinct ms"
proof (induction ms)
  case (Cons m ms)
  then have "m \<notin> set ms" using stack_top [of h s ms m] by auto
  then show ?case using Cons by simp
qed simp

lemma hm_okD:
  assumes "hm_ok h s"
  shows "stack_ok h s (held s t)" "thread_ok h s t (hm_pc s t)"
    "m \<in> set (held s t) \<Longrightarrow> internal_mutex s m = Some t"
    "internal_mutex s m = Some t \<Longrightarrow> m \<in> set (held s t) \<or> hm_pc s t = Locked m"
  using assms unfolding hm_ok_def by blast+

lemma hm_okI:
  assumes "\<And>t. stack_ok h s (held s t)" "\<And>t. thread_ok h s t (hm_pc s t)"
    and "\<And>t m. m \<in> set (held s t) \<Longrightarrow> internal_mutex s m = Some t"
    and "\<And>t m. internal_mutex s m = Some t \<Longrightarrow> m \<in> set (held s t) \<or> hm_pc s t = Locked m"
  shows "hm_ok h s"
  using assms unfolding hm_ok_def by blast

lemma hm_ok_start: "hm_ok h hm_start"
  by (rule hm_okI) (simp_all add: hm_start_def)

lemma hm_ok_wait:
  assumes "hm_ok h s" "hm_pc s t = Running" "\<not> check_for_hierarchy_violation h t m s"
  shows "hm_ok h (hm_wait t m s)"
proof (rule hm_okI)
  fix u k
  show "stack_ok h (hm_wait t m s) (held (hm_wait t m s) u)"
    using hm_okD(1) [OF assms(1)] stack_ok_cong [of "held s u" "hm_wait t m s" s h] by (simp add: hm_wait_def)
  show "thread_ok h (hm_wait t m s) u (hm_pc (hm_wait t m s) u)"
    using hm_okD(2) [OF assms(1), of u] assms(2,3)
    by (cases "hm_pc s u") (auto simp: hm_wait_def check_for_hierarchy_violation_def)
  show "k \<in> set (held (hm_wait t m s) u) \<Longrightarrow> internal_mutex (hm_wait t m s) k = Some u"
    using hm_okD(3) [OF assms(1), of k u] by (simp add: hm_wait_def)
  show "internal_mutex (hm_wait t m s) k = Some u \<Longrightarrow>
      k \<in> set (held (hm_wait t m s) u) \<or> hm_pc (hm_wait t m s) u = Locked k"
    using hm_okD(4) [OF assms(1), of k u] assms(2) by (auto simp: hm_wait_def)
qed

lemma hm_ok_acquire:
  assumes "hm_ok h s" "internal_mutex s m = None"
    and "hm_pc s t = Running \<and> \<not> check_for_hierarchy_violation h t m s \<or> hm_pc s t = Locking m"
  shows "hm_ok h (hm_acquire t m s)"
proof (rule hm_okI)
  fix u k
  have free: "m \<notin> set (held s u)" using hm_okD(3) [OF assms(1), of m u] assms(2) by auto
  show "stack_ok h (hm_acquire t m s) (held (hm_acquire t m s) u)"
    using hm_okD(1) [OF assms(1)] stack_ok_cong [of "held s u" "hm_acquire t m s" s h] by (simp add: hm_acquire_def)
  show "thread_ok h (hm_acquire t m s) u (hm_pc (hm_acquire t m s) u)"
  proof (cases "u = t")
    case True
    then show ?thesis using hm_okD(2) [OF assms(1), of t] assms(3)
      by (auto simp: hm_acquire_def check_for_hierarchy_violation_def)
  next
    case False
    have "k \<noteq> m" if "hm_pc s u = Locked k" for k
      using hm_okD(2) [OF assms(1), of u] that assms(2) by auto
    then show ?thesis using hm_okD(2) [OF assms(1), of u] False
      by (cases "hm_pc s u") (auto simp: hm_acquire_def)
  qed
  show "k \<in> set (held (hm_acquire t m s) u) \<Longrightarrow> internal_mutex (hm_acquire t m s) k = Some u"
    using hm_okD(3) [OF assms(1), of k u] free by (auto simp: hm_acquire_def)
  show "internal_mutex (hm_acquire t m s) k = Some u \<Longrightarrow>
      k \<in> set (held (hm_acquire t m s) u) \<or> hm_pc (hm_acquire t m s) u = Locked k"
    using hm_okD(4) [OF assms(1), of k u] assms(3) by (auto simp: hm_acquire_def split: if_splits)
qed

lemma hm_ok_update:
  assumes "hm_ok h s" "hm_pc s t = Locked m"
  shows "hm_ok h (update_hierarchy_value h t m s)"
proof (rule hm_okI)
  let ?s = "update_hierarchy_value h t m s"
  have t: "this_thread_hierarchy_value s t = top_level h (held s t)" "h m < top_level h (held s t)"
    "internal_mutex s m = Some t"
    using hm_okD(2) [OF assms(1), of t] assms(2) by auto
  have fresh: "m \<notin> set (held s u)" for u
  proof
    assume "m \<in> set (held s u)"
    then have "u = t" using hm_okD(3) [OF assms(1), of m u] t(3) by simp
    then show False
      using stack_top [OF hm_okD(1) [OF assms(1)], of m t] \<open>m \<in> set (held s u)\<close> t(2) by simp
  qed
  fix u k
  have same: "stack_ok h ?s (held s u) = stack_ok h s (held s u)" for u
    using fresh [of u] by (intro stack_ok_cong) (auto simp: update_hierarchy_value_def)
  show "stack_ok h ?s (held ?s u)"
    using hm_okD(1) [OF assms(1)] same t by (simp add: update_hierarchy_value_def)
  show "thread_ok h ?s u (hm_pc ?s u)"
    using hm_okD(2) [OF assms(1), of u] by (cases "hm_pc s u") (auto simp: update_hierarchy_value_def)
  show "k \<in> set (held ?s u) \<Longrightarrow> internal_mutex ?s k = Some u"
    using hm_okD(3) [OF assms(1), of k u] t(3) by (auto simp: update_hierarchy_value_def split: if_splits)
  show "internal_mutex ?s k = Some u \<Longrightarrow> k \<in> set (held ?s u) \<or> hm_pc ?s u = Locked k"
    using hm_okD(4) [OF assms(1), of k u] assms(2) by (auto simp: update_hierarchy_value_def)
qed

lemma hm_ok_restore:
  assumes "hm_ok h s" "hm_pc s t = Running" "m \<in> set (held s t)" "m = hd (held s t)"
  shows "hm_ok h (hm_restore t m s)"
proof (rule hm_okI)
  let ?s = "hm_restore t m s"
  obtain ms where ms: "held s t = m # ms" using assms(3,4) by (cases "held s t") auto
  have prev: "previous_hierarchy_value s m = top_level h ms" using hm_okD(1) [OF assms(1), of t] ms by simp
  fix u k
  show "stack_ok h ?s (held ?s u)"
    using hm_okD(1) [OF assms(1)] stack_ok_cong [of "held s u" ?s s h] by (simp add: hm_restore_def)
  show "thread_ok h ?s u (hm_pc ?s u)"
    using hm_okD(2) [OF assms(1), of u] ms prev by (cases "hm_pc s u") (auto simp: hm_restore_def)
  show "k \<in> set (held ?s u) \<Longrightarrow> internal_mutex ?s k = Some u"
    using hm_okD(3) [OF assms(1), of k u] by (simp add: hm_restore_def)
  show "internal_mutex ?s k = Some u \<Longrightarrow> k \<in> set (held ?s u) \<or> hm_pc ?s u = Locked k"
    using hm_okD(4) [OF assms(1), of k u] assms(2) by (auto simp: hm_restore_def)
qed

lemma hm_ok_release:
  assumes "hm_ok h s" "hm_pc s t = Unlocking m"
  shows "hm_ok h (hm_release t m s)"
proof (rule hm_okI)
  let ?s = "hm_release t m s"
  obtain ms where ms: "held s t = m # ms" "this_thread_hierarchy_value s t = top_level h ms"
    using hm_okD(2) [OF assms(1), of t] assms(2) by auto
  have owner: "internal_mutex s m = Some t" using hm_okD(3) [OF assms(1), of m t] ms by simp
  have stack: "stack_ok h s ms" "m \<notin> set ms"
    using hm_okD(1) [OF assms(1), of t] stack_distinct [of h s "m # ms"] ms by auto
  have other: "m \<notin> set (held s u)" if "u \<noteq> t" for u
    using hm_okD(3) [OF assms(1), of m u] owner that by auto
  fix u k
  have same: "stack_ok h ?s xs = stack_ok h s xs" for xs
    by (intro stack_ok_cong) (simp add: hm_release_def)
  show "stack_ok h ?s (held ?s u)"
    using hm_okD(1) [OF assms(1), of u] same stack ms by (simp add: hm_release_def)
  show "thread_ok h ?s u (hm_pc ?s u)"
  proof (cases "u = t")
    case True
    then show ?thesis using ms by (simp add: hm_release_def)
  next
    case False
    have "k \<noteq> m" if "hm_pc s u = Locked k" for k
      using hm_okD(2) [OF assms(1), of u] that owner False by auto
    then show ?thesis using hm_okD(2) [OF assms(1), of u] False
      by (cases "hm_pc s u") (auto simp: hm_release_def)
  qed
  show "k \<in> set (held ?s u) \<Longrightarrow> internal_mutex ?s k = Some u"
    using hm_okD(3) [OF assms(1), of k u] stack(2) other ms
    by (cases "k = m") (auto simp: hm_release_def split: if_splits)
  show "internal_mutex ?s k = Some u \<Longrightarrow> k \<in> set (held ?s u) \<or> hm_pc ?s u = Locked k"
    using hm_okD(4) [OF assms(1), of k u] assms(2) by (auto simp: hm_release_def split: if_splits)
qed

lemma hm_step_ok: "hm_step True h s s' \<Longrightarrow> hm_ok h s \<Longrightarrow> hm_ok h s'"
  by (cases rule: hm_step.cases)
    (auto intro: hm_ok_wait hm_ok_acquire hm_ok_update hm_ok_restore hm_ok_release)

interpretation hm: inductive_invariant "\<lambda>s. s = hm_start" "hm_step True h" "hm_ok h" for h
  by unfold_locales (auto simp: hm_ok_start intro: hm_step_ok)

lemma no_deadlock:
  assumes "hm_ok h s"
  shows "\<not> hm_deadlock s W"
proof
  assume "hm_deadlock s W"
  then have W: "finite W" "W \<noteq> {}"
    and waits: "\<And>t. t \<in> W \<Longrightarrow> \<exists>m u. hm_pc s t = Locking m \<and> u \<in> W \<and> internal_mutex s m = Some u"
    unfolding hm_deadlock_def by blast+
  define wanted where "wanted t = (case hm_pc s t of Locking m \<Rightarrow> h m | _ \<Rightarrow> 0)" for t
  obtain t where t: "t \<in> W" "\<And>u. u \<in> W \<Longrightarrow> wanted t \<le> wanted u"
    using W by (metis arg_min_if_finite(1) arg_min_least)
  obtain m u where m: "hm_pc s t = Locking m" "u \<in> W" "internal_mutex s m = Some u"
    using waits [OF t(1)] by blast
  obtain k where k: "hm_pc s u = Locking k" using waits [OF m(2)] by blast
  have "m \<in> set (held s u)" using hm_okD(4) [OF assms m(3)] k by simp
  then have "top_level h (held s u) \<le> h m" using hm_okD(1) [OF assms] by (intro stack_top)
  moreover have "h k < top_level h (held s u)" using hm_okD(2) [OF assms, of u] k by simp
  ultimately have "wanted u < wanted t" using m(1) k by (simp add: wanted_def)
  then show False using t(2) [OF m(2)] by simp
qed

subsection \<open>Unlocking out of order\<close>

text \<open>
  Two mutexes of levels 1000 and 500. The first thread locks both and unlocks the higher
  one, which restores the highest level while the lower mutex is still held: it may then lock
  the higher one again. A second thread that locks both in the right order completes a cycle.
\<close>

definition two_levels :: "nat \<Rightarrow> u64" where
  "two_levels m = (if m = 0 then 1000 else 500)"

definition take_mutex :: "nat \<Rightarrow> nat \<Rightarrow> hm_state \<Rightarrow> hm_state" where
  "take_mutex t m s = update_hierarchy_value two_levels t m (hm_acquire t m s)"

definition give_mutex :: "nat \<Rightarrow> nat \<Rightarrow> hm_state \<Rightarrow> hm_state" where
  "give_mutex t m s = hm_release t m (hm_restore t m s)"

abbreviation (input) hm_reach :: "hm_state \<Rightarrow> bool" where
  "hm_reach \<equiv> (hm_step False two_levels)\<^sup>*\<^sup>* hm_start"

lemma reach_take:
  assumes "hm_reach s" "hm_pc s t = Running" "\<not> check_for_hierarchy_violation two_levels t m s"
    "internal_mutex s m = None"
  shows "hm_reach (take_mutex t m s)"
proof -
  have "hm_step False two_levels s (hm_acquire t m s)" using assms(2-4) by (rule hm_step.try_acquires)
  moreover have "hm_step False two_levels (hm_acquire t m s) (take_mutex t m s)"
    unfolding take_mutex_def by (rule hm_step.lock_updates) (simp add: hm_acquire_def)
  ultimately show ?thesis using assms(1) by (blast intro: rtranclp.rtrancl_into_rtrancl)
qed

lemma reach_give:
  assumes "hm_reach s" "hm_pc s t = Running" "m \<in> set (held s t)"
  shows "hm_reach (give_mutex t m s)"
proof -
  have "hm_step False two_levels s (hm_restore t m s)" using assms(2,3) by (rule hm_step.unlock_restores) simp
  moreover have "hm_step False two_levels (hm_restore t m s) (give_mutex t m s)"
    unfolding give_mutex_def by (rule hm_step.unlock_releases) (simp add: hm_restore_def)
  ultimately show ?thesis using assms(1) by (blast intro: rtranclp.rtrancl_into_rtrancl)
qed

lemma reach_wait:
  assumes "hm_reach s" "hm_pc s t = Running" "\<not> check_for_hierarchy_violation two_levels t m s"
  shows "hm_reach (hm_wait t m s)"
  using assms(1) hm_step.lock_waits [OF assms(2,3)] by (rule rtranclp.rtrancl_into_rtrancl)

definition crossed :: hm_state where
  "crossed = hm_wait 2 1 (hm_wait 1 0 (take_mutex 2 0 (give_mutex 1 0 (take_mutex 1 1 (take_mutex 1 0 hm_start)))))"

lemmas hm_defs = take_mutex_def give_mutex_def hm_wait_def hm_acquire_def update_hierarchy_value_def
  hm_restore_def hm_release_def hm_start_def check_for_hierarchy_violation_def two_levels_def ULONG_MAX_def

lemma top_above_levels: "\<not> (- 1 :: u64) \<le> 1000" "\<not> (- 1 :: u64) \<le> 500" "(- 1 :: u64) \<noteq> 1000"
  by code_simp+

lemma crossed_reachable: "hm_reach crossed"
  unfolding crossed_def
  by (intro reach_wait reach_take reach_give rtranclp.rtrancl_refl) (simp_all add: hm_defs top_above_levels)

subsection \<open>Properties\<close>

text \<open>
  Property C19: when threads unlock in the opposite order of locking, no reachable state has a
  deadlock, for any number of threads and mutexes and any levels: no set of threads waits in
  \<open>lock\<close> for mutexes held by each other.
\<close>

theorem hierarchy_prevents_deadlock:
  assumes "(hm_step True h)\<^sup>*\<^sup>* hm_start s"
  shows "\<not> hm_deadlock s W"
  by (rule no_deadlock [OF hm.reachable_inv [OF refl assms]])

theorem hierarchy_prevents_deadlock_witness: "\<not> hm_deadlock (hm_wait 1 0 hm_start) {1, 2}"
proof (rule hierarchy_prevents_deadlock [where h = two_levels])
  have "hm_step True two_levels hm_start (hm_wait 1 0 hm_start)"
    by (rule hm_step.lock_waits) (simp_all add: hm_defs top_above_levels)
  then show "(hm_step True two_levels)\<^sup>*\<^sup>* hm_start (hm_wait 1 0 hm_start)" by (rule r_into_rtranclp)
qed

text \<open>
  Without that discipline the check does not prevent deadlocks. Unlocking a
  higher mutex while a lower one is held restores the level of the thread, no exception is
  thrown, and a state is reachable in which two threads wait for each other.
\<close>

theorem out_of_order_unlock_deadlocks:
  "\<exists>s. (hm_step False two_levels)\<^sup>*\<^sup>* hm_start s \<and> hm_deadlock s {1, 2}"
  by (intro exI [of _ crossed] conjI crossed_reachable)
    (simp add: hm_deadlock_def crossed_def hm_defs)

end
