(* ===== verification/Web_Counters.thy ===== *)
theory Web_Counters
  imports Prelude
begin

text \<open>
  The counters of the web server, \<open>proxygen_ih/tools/cpp_tools/ServerCounters.h\<close>, and
  how an acceptor sets them up and asks them,
  \<open>proxygen_ih/web_server/proxygen_override/proxygen/httpserver/HTTPServerAcceptor.cpp\<close>. One
  thread owns all the counters of an acceptor. \<open>uint64_t\<close> is \<open>u64\<close>, whose highest
  value is \<open>- 1\<close>.
\<close>

subsection \<open>Counters\<close>

record counter =
  m_value :: u64
  m_enabled :: bool

record current_counter = counter +
  m_maxValue :: u64

definition Counter :: counter where
  "Counter = \<lparr>m_value = 0, m_enabled = False\<rparr>"

definition enable :: "'a counter_scheme \<Rightarrow> 'a counter_scheme" where
  "enable c = c\<lparr>m_enabled := True\<rparr>"

definition counter_get :: "'a counter_scheme \<Rightarrow> u64" where
  "counter_get c = (if \<not> m_enabled c then 0 else m_value c)"

definition getProcessEstimate :: "int \<Rightarrow> 'a counter_scheme \<Rightarrow> u64" where
  "getProcessEstimate multiplaer c = m_value c * word_of_int multiplaer"

definition increment :: "'a counter_scheme \<Rightarrow> 'a counter_scheme" where
  "increment c = (if \<not> m_enabled c then c else c\<lparr>m_value := m_value c + 1\<rparr>)"

text \<open>
  \<open>CurrentCounter\<close> inherits \<open>increment\<close> and \<open>get\<close>, which ask the flag of the base
  class; its own operations ask whether there is a limit.
\<close>

definition CurrentCounter :: current_counter where
  "CurrentCounter = \<lparr>m_value = 0, m_enabled = False, m_maxValue = - 1\<rparr>"

definition setMaxValue :: "u64 \<Rightarrow> current_counter \<Rightarrow> current_counter" where
  "setMaxValue maxValue c = enable (c\<lparr>m_maxValue := maxValue\<rparr>)"

definition current_isEnabled :: "current_counter \<Rightarrow> bool" where
  "current_isEnabled c = (m_maxValue c < - 1)"

definition geMaxValue :: "current_counter \<Rightarrow> u64" where
  "geMaxValue c = (if \<not> current_isEnabled c then - 1 else m_maxValue c)"

definition current_set :: "u64 \<Rightarrow> current_counter \<Rightarrow> current_counter" where
  "current_set v c = (if \<not> current_isEnabled c then c else c\<lparr>m_value := v\<rparr>)"

definition decrement :: "current_counter \<Rightarrow> current_counter" where
  "decrement c =
     (if \<not> current_isEnabled c then c
      else if 0 < m_value c then c\<lparr>m_value := m_value c - 1\<rparr> else c)"

definition current_isOverloaded :: "current_counter \<Rightarrow> bool" where
  "current_isOverloaded c = (if \<not> current_isEnabled c then False else m_maxValue c < m_value c)"

subsection \<open>The ratio of two counters\<close>

record ratio_counter =
  m_maxRatio :: u64
  m_previousX :: u64
  m_previousY :: u64
  m_interval :: u64
  m_ratio :: u64

definition maxInterval :: u64 where "maxInterval = 100"

definition minInterval :: u64 where "minInterval = 5"

definition CurrentRatioCounter :: ratio_counter where
  "CurrentRatioCounter =
     \<lparr>m_maxRatio = - 1, m_previousX = 0, m_previousY = 0, m_interval = maxInterval, m_ratio = 0\<rparr>"

definition ratio_isEnabled :: "ratio_counter \<Rightarrow> bool" where
  "ratio_isEnabled r = (m_maxRatio r < - 1)"

definition ratio_isOverloaded :: "ratio_counter \<Rightarrow> bool" where
  "ratio_isOverloaded r = (if \<not> ratio_isEnabled r then False else m_maxRatio r < m_ratio r)"

text \<open>Setting the limit also enables the two counters the ratio is made of.\<close>

definition ratio_setMaxValue ::
  "u64 \<Rightarrow> counter \<times> counter \<times> ratio_counter \<Rightarrow> counter \<times> counter \<times> ratio_counter" where
  "ratio_setMaxValue maxRatio = (\<lambda>(xc, yc, r).
     if maxRatio < - 1 then (enable xc, enable yc, r\<lparr>m_maxRatio := maxRatio\<rparr>)
     else (xc, yc, r\<lparr>m_maxRatio := maxRatio\<rparr>))"

text \<open>The two comparisons with 0 are between unsigned integers, as in the source.\<close>

definition ratio_update :: "counter \<Rightarrow> counter \<Rightarrow> ratio_counter \<Rightarrow> ratio_counter" where
  "ratio_update xc yc r =
     (if \<not> ratio_isEnabled r then r
      else if counter_get xc - m_previousX r < 0 then r
      else if counter_get yc - m_previousY r < 0 then r
      else
        let dx = counter_get xc - m_previousX r in
        if dx < m_interval r then r
        else
          let dy = counter_get yc - m_previousY r;
              r1 = r\<lparr>m_ratio := dy * 100 div dx, m_previousX := counter_get xc, m_previousY := counter_get yc\<rparr>
          in r1\<lparr>m_interval := (if ratio_isOverloaded r1 then minInterval else maxInterval)\<rparr>)"

subsection \<open>The counters of an acceptor\<close>

record server_counters =
  m_connects :: counter
  m_regectedConnects :: counter
  m_currentConnects :: current_counter
  m_requests :: counter
  m_timeoutedRequests :: counter
  m_currentRequests :: current_counter
  m_timeoutedRequestRatio :: ratio_counter

definition ServerCounters :: server_counters where
  "ServerCounters =
     \<lparr>m_connects = Counter, m_regectedConnects = Counter, m_currentConnects = CurrentCounter,
      m_requests = Counter, m_timeoutedRequests = Counter, m_currentRequests = CurrentCounter,
      m_timeoutedRequestRatio = CurrentRatioCounter\<rparr>"

text \<open>The flags of the command line the counters depend on.\<close>

record counter_flags =
  ENABLE_CONNECT_COUNTER :: bool
  ENABLE_REGECTED_CONNECT_COUNTER :: bool
  ENABLE_REQUEST_COUNTER :: bool
  ENABLE_TIMEOUTED_REQUEST_COUNTER :: bool
  MAX_CONNECTIONS_PER_IO_THREAD :: u64
  MAX_REQUESTS_PER_IO_THREAD :: u64
  MAX_TIMEOUTED_REQUEST_RATIO :: u64

definition setCounters :: "'a counter_flags_scheme \<Rightarrow> server_counters \<Rightarrow> server_counters" where
  "setCounters F c =
     (let c1 = (if ENABLE_CONNECT_COUNTER F then c\<lparr>m_connects := enable (m_connects c)\<rparr> else c);
          c2 = (if ENABLE_REGECTED_CONNECT_COUNTER F
                then c1\<lparr>m_regectedConnects := enable (m_regectedConnects c1)\<rparr> else c1);
          c3 = (if ENABLE_REQUEST_COUNTER F then c2\<lparr>m_requests := enable (m_requests c2)\<rparr> else c2);
          c4 = (if ENABLE_TIMEOUTED_REQUEST_COUNTER F
                then c3\<lparr>m_timeoutedRequests := enable (m_timeoutedRequests c3)\<rparr> else c3);
          c5 = (if 0 < MAX_CONNECTIONS_PER_IO_THREAD F
                then c4\<lparr>m_currentConnects :=
                  setMaxValue (MAX_CONNECTIONS_PER_IO_THREAD F) (m_currentConnects c4)\<rparr> else c4);
          c6 = (if 0 < MAX_REQUESTS_PER_IO_THREAD F
                then c5\<lparr>m_currentRequests :=
                  setMaxValue (MAX_REQUESTS_PER_IO_THREAD F) (m_currentRequests c5)\<rparr> else c5)
      in if 0 < MAX_TIMEOUTED_REQUEST_RATIO F
         then (case ratio_setMaxValue (MAX_TIMEOUTED_REQUEST_RATIO F)
                     (m_requests c6, m_timeoutedRequests c6, m_timeoutedRequestRatio c6) of
                 (xc, yc, r) \<Rightarrow> c6\<lparr>m_requests := xc, m_timeoutedRequests := yc, m_timeoutedRequestRatio := r\<rparr>)
         else c6)"

text \<open>
  \<open>canAccept\<close> is asked for every new connection; the number of connections comes from the
  base class of the acceptor.
\<close>

definition canAccept :: "u64 \<Rightarrow> server_counters \<Rightarrow> bool \<times> server_counters" where
  "canAccept numConnections c =
     (let c1 = c\<lparr>m_currentConnects := current_set numConnections (m_currentConnects c)\<rparr> in
      if current_isOverloaded (m_currentConnects c1)
      then (False, c1\<lparr>m_regectedConnects := increment (m_regectedConnects c1)\<rparr>)
      else (True, c1\<lparr>m_connects := increment (m_connects c1)\<rparr>))"

text \<open>What a request handler counts when it gets its acceptor and when it is destroyed.\<close>

definition count_request :: "server_counters \<Rightarrow> server_counters" where
  "count_request c =
     (let c1 = c\<lparr>m_requests := increment (m_requests c)\<rparr>;
          c2 = c1\<lparr>m_currentRequests := increment (m_currentRequests c1)\<rparr>
      in c2\<lparr>m_timeoutedRequestRatio :=
           ratio_update (m_requests c2) (m_timeoutedRequests c2) (m_timeoutedRequestRatio c2)\<rparr>)"

definition uncount_request :: "server_counters \<Rightarrow> server_counters" where
  "uncount_request c = c\<lparr>m_currentRequests := decrement (m_currentRequests c)\<rparr>"

subsection \<open>Lemmas\<close>

lemma canAccept_iff:
  assumes "m_maxValue (m_currentConnects c) < - 1"
  shows "fst (canAccept n c) \<longleftrightarrow> n \<le> m_maxValue (m_currentConnects c)"
  using assms by (auto simp: canAccept_def current_set_def current_isEnabled_def current_isOverloaded_def Let_def)

text \<open>
  The limits and what they count. The number of requests counted is right while there are
  fewer of them than a 64-bit integer can count.
\<close>

definition counts :: "nat \<Rightarrow> server_counters \<Rightarrow> bool" where
  "counts n c \<longleftrightarrow>
     (current_isEnabled (m_currentRequests c) \<longrightarrow>
        m_enabled (m_currentRequests c) \<and> m_value (m_currentRequests c) = word_of_nat n)"

lemma counts_start: "counts 0 (setCounters F ServerCounters)"
  by (simp add: counts_def setCounters_def ServerCounters_def CurrentCounter_def setMaxValue_def enable_def
      ratio_setMaxValue_def current_isEnabled_def Let_def split: prod.splits)

lemma counts_more: "counts n c \<Longrightarrow> counts (Suc n) (count_request c)"
  by (auto simp: counts_def count_request_def increment_def current_isEnabled_def Let_def)

lemma counts_less:
  assumes "counts (Suc n) c" "Suc n < 2 ^ 64"
  shows "counts n (uncount_request c)"
proof -
  have "unat (word_of_nat (Suc n) :: u64) = Suc n" using assms(2) by (intro unat_of_nat_small) simp
  then have "0 < (word_of_nat (Suc n) :: u64)" by (simp add: word_less_nat_alt del: of_nat_Suc)
  then show ?thesis using assms(1)
    by (simp add: counts_def uncount_request_def decrement_def current_isEnabled_def)
qed

lemma counts_overloaded:
  assumes "counts n c" "n < 2 ^ 64" "current_isEnabled (m_currentRequests c)"
  shows "current_isOverloaded (m_currentRequests c) \<longleftrightarrow> unat (m_maxValue (m_currentRequests c)) < n"
  using assms unat_of_nat_small [where 'w = 64, of n]
  by (simp add: counts_def current_isOverloaded_def word_less_nat_alt)

text \<open>Nothing increments the counter of the requests that timed out.\<close>

definition no_timeouts :: "server_counters \<Rightarrow> bool" where
  "no_timeouts c \<longleftrightarrow> m_value (m_timeoutedRequests c) = 0 \<and> m_previousY (m_timeoutedRequestRatio c) = 0 \<and>
     m_ratio (m_timeoutedRequestRatio c) = 0"

lemma no_timeouts_start: "no_timeouts (setCounters F ServerCounters)"
  by (simp add: no_timeouts_def setCounters_def ServerCounters_def Counter_def CurrentRatioCounter_def enable_def
      ratio_setMaxValue_def Let_def split: prod.splits)

lemma no_timeouts_count: "no_timeouts c \<Longrightarrow> no_timeouts (count_request c)"
  by (simp add: no_timeouts_def count_request_def ratio_update_def counter_get_def Let_def)

lemma no_timeouts_uncount: "no_timeouts c \<Longrightarrow> no_timeouts (uncount_request c)"
  by (simp add: no_timeouts_def uncount_request_def)

lemma no_timeouts_accept: "no_timeouts c \<Longrightarrow> no_timeouts (snd (canAccept n c))"
  by (simp add: no_timeouts_def canAccept_def Let_def)

lemma counts_accept: "counts k c \<Longrightarrow> counts k (snd (canAccept n c))"
  by (simp add: counts_def canAccept_def Let_def)

lemma no_timeouts_ratio: "no_timeouts c \<Longrightarrow> \<not> ratio_isOverloaded (m_timeoutedRequestRatio c)"
  by (simp add: no_timeouts_def ratio_isOverloaded_def word_less_nat_alt)

end
