(* ===== verification/Web_Messages.thy ===== *)
theory Web_Messages
  imports Prelude Cpp_Text
begin

text \<open>
  Responses of the web server: the message of \<open>proxygen_ih/web_server/shared/Message.h\<close>,
  the handler that sends it (\<open>impl/fb_impl/ResponseHandler.h\<close>, \<open>ResponseHandle.cpp\<close>) and the
  response builder of the bundled \<open>proxygen/httpserver/ResponseBuilder.h\<close>. The header object
  \<open>HTTPMessage\<close> of proxygen and the buffers \<open>IOBuf\<close> of folly are not in the repository:
  they are the types \<open>'h\<close> and \<open>'b\<close> and the operations of \<open>http_ops\<close>. Pointers to them
  are options. Failing allocations are not modelled.
\<close>

subsection \<open>The interface of proxygen and folly\<close>

record ('h, 'b) http_ops =
  hm_new :: 'h
  hm_setHTTPVersion :: "nat \<Rightarrow> nat \<Rightarrow> 'h \<Rightarrow> 'h"
  hm_setStatusCode :: "nat \<Rightarrow> 'h \<Rightarrow> 'h"
  hm_setStatusMessage :: "string \<Rightarrow> 'h \<Rightarrow> 'h"
  hm_getStatusCode :: "'h \<Rightarrow> nat"
  hm_setIsChunked :: "'h \<Rightarrow> 'h"
  hm_isResponse :: "'h \<Rightarrow> bool"
  hm_constructDirectResponse :: "nat \<Rightarrow> string \<Rightarrow> 'h \<Rightarrow> 'h"
  hm_setURL :: "string \<Rightarrow> 'h \<Rightarrow> 'h"
  hm_add :: "string \<Rightarrow> string \<Rightarrow> 'h \<Rightarrow> 'h"
  hm_set :: "string \<Rightarrow> string \<Rightarrow> 'h \<Rightarrow> 'h"
  hm_remove :: "string \<Rightarrow> 'h \<Rightarrow> 'h \<times> bool"
  hm_getSingleOrEmpty :: "string \<Rightarrow> 'h \<Rightarrow> string"
  hm_exists :: "string \<Rightarrow> 'h \<Rightarrow> bool"
  buf_copy :: "string \<Rightarrow> 'b"
  buf_prependChain :: "'b \<Rightarrow> 'b \<Rightarrow> 'b"
  buf_chainLength :: "'b \<Rightarrow> nat"

text \<open>What the code calls on a transaction of proxygen, in order.\<close>

datatype ('h, 'b) txn_call =
    SendHeaders 'h
  | SendChunkHeader nat
  | SendBody 'b
  | SendChunkTerminator
  | SendEOM
  | SendAbort

subsection \<open>Messages\<close>

definition PROTOCOL_BAD_REQUEST :: nat where "PROTOCOL_BAD_REQUEST = 400"
definition PROTOCOL_REQUEST_TIMEOUT :: nat where "PROTOCOL_REQUEST_TIMEOUT = 408"
definition PROTOCOL_TOO_MANY_REQUESTS :: nat where "PROTOCOL_TOO_MANY_REQUESTS = 429"
definition PROTOCOL_SERVER_ERROR :: nat where "PROTOCOL_SERVER_ERROR = 500"
definition PROTOCOL_SERVICE_UNAVAILABLE :: nat where "PROTOCOL_SERVICE_UNAVAILABLE = 503"

record ('h, 'b) message =
  m_headers :: "'h option"
  m_body :: "'b option"

definition set_status :: "('h, 'b) http_ops \<Rightarrow> nat \<Rightarrow> string \<Rightarrow> ('h, 'b) message \<Rightarrow> ('h, 'b) message" where
  "set_status G code text m =
     (let h = (case m_headers m of Some h \<Rightarrow> h | None \<Rightarrow> hm_setHTTPVersion G 1 1 (hm_new G))
      in m\<lparr>m_headers := Some (hm_setStatusMessage G text (hm_setStatusCode G code h))\<rparr>)"

definition Message_with :: "('h, 'b) http_ops \<Rightarrow> nat \<Rightarrow> string \<Rightarrow> nat \<times> nat \<Rightarrow> ('h, 'b) message" where
  "Message_with G code text version =
     set_status G code text
       \<lparr>m_headers = Some (hm_setHTTPVersion G (fst version) (snd version) (hm_new G)), m_body = None\<rparr>"

definition Message :: "('h, 'b) http_ops \<Rightarrow> ('h, 'b) message" where
  "Message G = Message_with G PROTOCOL_SERVER_ERROR [] (1, 1)"

definition moved_message :: "('h, 'b) message" where
  "moved_message = \<lparr>m_headers = None, m_body = None\<rparr>"

definition header_add :: "('h, 'b) http_ops \<Rightarrow> string \<Rightarrow> string \<Rightarrow> ('h, 'b) message \<Rightarrow> ('h, 'b) message" where
  "header_add G code v m = m\<lparr>m_headers := map_option (hm_add G code v) (m_headers m)\<rparr>"

text \<open>The values the code sets are strings and sizes, whose conversion to text does not fail.\<close>

definition setHeader :: "('h, 'b) http_ops \<Rightarrow> string \<Rightarrow> string \<Rightarrow> ('h, 'b) message \<Rightarrow> ('h, 'b) message" where
  "setHeader G key v m =
     (if m_headers m \<noteq> None \<and> key \<noteq> [] then m\<lparr>m_headers := map_option (hm_set G key v) (m_headers m)\<rparr> else m)"

definition removeHeader :: "('h, 'b) http_ops \<Rightarrow> string \<Rightarrow> ('h, 'b) message \<Rightarrow> ('h, 'b) message \<times> bool" where
  "removeHeader G key m =
     (case m_headers m of
        None \<Rightarrow> (m, False)
      | Some h \<Rightarrow> if key = [] then (m, False)
          else (m\<lparr>m_headers := Some (fst (hm_remove G key h))\<rparr>, snd (hm_remove G key h)))"

definition getHeaderValue :: "('h, 'b) http_ops \<Rightarrow> string \<Rightarrow> ('h, 'b) message \<Rightarrow> string" where
  "getHeaderValue G key m = (case m_headers m of None \<Rightarrow> [] | Some h \<Rightarrow> hm_getSingleOrEmpty G key h)"

definition getStatus :: "('h, 'b) http_ops \<Rightarrow> ('h, 'b) message \<Rightarrow> nat" where
  "getStatus G m = (case m_headers m of None \<Rightarrow> PROTOCOL_SERVER_ERROR | Some h \<Rightarrow> hm_getStatusCode G h)"

definition appendBody :: "('h, 'b) http_ops \<Rightarrow> 'b option \<Rightarrow> ('h, 'b) message \<Rightarrow> ('h, 'b) message" where
  "appendBody G bodyIn m =
     (case bodyIn of
        None \<Rightarrow> m
      | Some b \<Rightarrow> m\<lparr>m_body := Some (case m_body m of Some b0 \<Rightarrow> buf_prependChain G b0 b | None \<Rightarrow> b)\<rparr>)"

definition appendCopyFromBuffer :: "('h, 'b) http_ops \<Rightarrow> string option \<Rightarrow> ('h, 'b) message \<Rightarrow> ('h, 'b) message" where
  "appendCopyFromBuffer G buf m =
     (case buf of
        None \<Rightarrow> m
      | Some bytes \<Rightarrow> if 0 < length bytes then appendBody G (Some (buf_copy G bytes)) m else m)"

definition clearBody :: "('h, 'b) message \<Rightarrow> ('h, 'b) message" where
  "clearBody m = m\<lparr>m_body := None\<rparr>"

text \<open>The file is what \<open>folly::readFile\<close> answers, the content what the child process wrote.\<close>

definition appendBodyFromFile ::
  "('h, 'b) http_ops \<Rightarrow> string option \<Rightarrow> ('h, 'b) message \<Rightarrow> ('h, 'b) message \<times> bool" where
  "appendBodyFromFile G file m =
     (case file of
        None \<Rightarrow> (m, False)
      | Some content \<Rightarrow>
          (if content \<noteq> [] then appendBody G (Some (buf_copy G content)) m else m, True))"

definition appendBodyFromExe ::
  "('h, 'b) http_ops \<Rightarrow> string \<Rightarrow> ('h, 'b) message \<Rightarrow> ('h, 'b) message \<times> bool" where
  "appendBodyFromExe G content m =
     (if content \<noteq> [] then (appendBody G (Some (buf_copy G content)) m, True) else (m, False))"

definition SetDefaulUserError :: "('h, 'b) http_ops \<Rightarrow> string \<Rightarrow> ('h, 'b) message \<Rightarrow> ('h, 'b) message" where
  "SetDefaulUserError G defaultUserErrorContent m =
     (let m1 = set_status G PROTOCOL_BAD_REQUEST [] m;
          m2 = setHeader G ''Content-Type'' ''text/html'' m1;
          m3 = setHeader G ''Content-Length'' (to_string (length defaultUserErrorContent)) m2
      in m3\<lparr>m_body := Some (buf_copy G defaultUserErrorContent)\<rparr>)"

definition setDefaulServerError :: "('h, 'b) http_ops \<Rightarrow> ('h, 'b) message \<Rightarrow> ('h, 'b) message" where
  "setDefaulServerError G m =
     clearBody (setHeader G ''Content-Type'' ''text/html'' (set_status G PROTOCOL_SERVER_ERROR [] m))"

definition setServiceUnavailableError :: "('h, 'b) http_ops \<Rightarrow> ('h, 'b) message \<Rightarrow> ('h, 'b) message" where
  "setServiceUnavailableError G m =
     clearBody (setHeader G ''Connection'' ''close'' (setHeader G ''Content-Type'' ''text/html''
       (set_status G PROTOCOL_SERVICE_UNAVAILABLE ''Service Unavailable'' m)))"

definition setTooManyRequestsError :: "('h, 'b) http_ops \<Rightarrow> ('h, 'b) message \<Rightarrow> ('h, 'b) message" where
  "setTooManyRequestsError G m =
     clearBody (setHeader G ''Connection'' ''close'' (setHeader G ''Content-Type'' ''text/html''
       (set_status G PROTOCOL_TOO_MANY_REQUESTS ''Too Many Requests'' m)))"

definition setTimeOutServerError :: "('h, 'b) http_ops \<Rightarrow> ('h, 'b) message \<Rightarrow> ('h, 'b) message" where
  "setTimeOutServerError G m =
     clearBody (setHeader G ''Content-Type'' ''text/html'' (set_status G PROTOCOL_REQUEST_TIMEOUT ''TIMEOUT'' m))"

subsection \<open>The handler of a response\<close>

record ('h, 'b) response_handler =
  m_msg :: "('h, 'b) message"
  m_sendEOM :: bool
  m_wasSent :: bool

definition ResponseHandler :: "('h, 'b) http_ops \<Rightarrow> ('h, 'b) response_handler" where
  "ResponseHandler G = \<lparr>m_msg = Message G, m_sendEOM = True, m_wasSent = False\<rparr>"

definition setResponseMsg ::
  "('h, 'b) message \<Rightarrow> ('h, 'b) response_handler \<Rightarrow> ('h, 'b) response_handler" where
  "setResponseMsg response rh = rh\<lparr>m_msg := response\<rparr>"

definition setEOMOnSend :: "bool \<Rightarrow> ('h, 'b) response_handler \<Rightarrow> ('h, 'b) response_handler" where
  "setEOMOnSend sendEOM rh = rh\<lparr>m_sendEOM := sendEOM\<rparr>"

definition closeConnection ::
  "('h, 'b) http_ops \<Rightarrow> ('h, 'b) response_handler \<Rightarrow> ('h, 'b) response_handler" where
  "closeConnection G rh = rh\<lparr>m_msg := header_add G ''Connection'' ''close'' (m_msg rh)\<rparr>"

text \<open>The calls that send a body, and those that send everything.\<close>

definition body_calls :: "('h, 'b) http_ops \<Rightarrow> bool \<Rightarrow> 'b option \<Rightarrow> ('h, 'b) txn_call list" where
  "body_calls G chunked body =
     (case body of
        None \<Rightarrow> []
      | Some b \<Rightarrow> if chunked then [SendChunkHeader (buf_chainLength G b), SendBody b, SendChunkTerminator]
          else [SendBody b])"

definition sent_headers :: "('h, 'b) http_ops \<Rightarrow> bool \<Rightarrow> bool \<Rightarrow> 'b option \<Rightarrow> 'h \<Rightarrow> 'h" where
  "sent_headers G final chunked body h =
     (if final
      then if chunked then hm_setIsChunked G h
           else hm_add G ''Content-Length''
             (to_string (case body of Some b \<Rightarrow> buf_chainLength G b | None \<Rightarrow> 0)) h
      else h)"

definition rh_send_unguarded ::
  "('h, 'b) http_ops \<Rightarrow> ('h, 'b) response_handler \<Rightarrow> ('h, 'b) response_handler \<times> ('h, 'b) txn_call list" where
  "rh_send_unguarded G rh =
     (let m = m_msg rh;
          chunked = (if m_headers m \<noteq> None \<and> m_sendEOM rh then False else True);
          head = (case m_headers m of
                    None \<Rightarrow> []
                  | Some h \<Rightarrow> [SendHeaders (sent_headers G (200 \<le> hm_getStatusCode G h) chunked (m_body m) h)])
      in (rh\<lparr>m_msg := moved_message\<rparr>,
          head @ body_calls G chunked (m_body m) @ (if m_sendEOM rh then [SendEOM] else [])))"

definition rh_send ::
  "('h, 'b) http_ops \<Rightarrow> ('h, 'b) response_handler \<Rightarrow> ('h, 'b) response_handler \<times> ('h, 'b) txn_call list" where
  "rh_send G rh =
     (if m_wasSent rh then (rh, [])
      else case rh_send_unguarded G rh of (rh1, calls) \<Rightarrow> (rh1\<lparr>m_wasSent := True\<rparr>, calls))"

definition sendWithEOM ::
  "('h, 'b) http_ops \<Rightarrow> ('h, 'b) response_handler \<Rightarrow> ('h, 'b) response_handler \<times> ('h, 'b) txn_call list" where
  "sendWithEOM G rh = rh_send G (rh\<lparr>m_sendEOM := True\<rparr>)"

definition copyAndSendWithEOM ::
  "('h, 'b) http_ops \<Rightarrow> string option \<Rightarrow> ('h, 'b) response_handler \<Rightarrow>
   ('h, 'b) response_handler \<times> ('h, 'b) txn_call list" where
  "copyAndSendWithEOM G buf rh = sendWithEOM G (rh\<lparr>m_msg := appendCopyFromBuffer G buf (m_msg rh)\<rparr>)"

definition sendDefaulUserError ::
  "('h, 'b) http_ops \<Rightarrow> string \<Rightarrow> ('h, 'b) response_handler \<Rightarrow>
   ('h, 'b) response_handler \<times> ('h, 'b) txn_call list" where
  "sendDefaulUserError G content rh = sendWithEOM G (rh\<lparr>m_msg := SetDefaulUserError G content (m_msg rh)\<rparr>)"

definition sendDefauServerError ::
  "('h, 'b) http_ops \<Rightarrow> ('h, 'b) response_handler \<Rightarrow> ('h, 'b) response_handler \<times> ('h, 'b) txn_call list" where
  "sendDefauServerError G rh = sendWithEOM G (rh\<lparr>m_msg := setDefaulServerError G (m_msg rh)\<rparr>)"

subsection \<open>The response builder\<close>

record ('h, 'b) response_builder =
  rb_headers :: "'h option"
  rb_body :: "'b option"
  rb_sendEOM :: bool

definition ResponseBuilder :: "('h, 'b) response_builder" where
  "ResponseBuilder = \<lparr>rb_headers = None, rb_body = None, rb_sendEOM = False\<rparr>"

definition rb_promise ::
  "('h, 'b) http_ops \<Rightarrow> string \<Rightarrow> string \<Rightarrow> ('h, 'b) response_builder \<Rightarrow> ('h, 'b) response_builder" where
  "rb_promise G url host rb =
     rb\<lparr>rb_headers := Some (hm_set G ''Host'' host (hm_setURL G url (hm_setHTTPVersion G 1 1 (hm_new G))))\<rparr>"

definition rb_status ::
  "('h, 'b) http_ops \<Rightarrow> nat \<Rightarrow> string \<Rightarrow> ('h, 'b) response_builder \<Rightarrow> ('h, 'b) response_builder" where
  "rb_status G code text rb =
     rb\<lparr>rb_headers := Some (hm_setStatusMessage G text (hm_setStatusCode G code (hm_setHTTPVersion G 1 1 (hm_new G))))\<rparr>"

text \<open>\<open>header\<close> aborts the program when \<open>status\<close> was not called before.\<close>

definition rb_header ::
  "('h, 'b) http_ops \<Rightarrow> string \<Rightarrow> string \<Rightarrow> ('h, 'b) response_builder \<Rightarrow> ('h, 'b) response_builder option" where
  "rb_header G name v rb =
     (case rb_headers rb of None \<Rightarrow> None | Some h \<Rightarrow> Some (rb\<lparr>rb_headers := Some (hm_add G name v h)\<rparr>))"

definition rb_append_body ::
  "('h, 'b) http_ops \<Rightarrow> 'b option \<Rightarrow> ('h, 'b) response_builder \<Rightarrow> ('h, 'b) response_builder" where
  "rb_append_body G bodyIn rb =
     (case bodyIn of
        None \<Rightarrow> rb
      | Some b \<Rightarrow> rb\<lparr>rb_body := Some (case rb_body rb of Some b0 \<Rightarrow> buf_prependChain G b0 b | None \<Rightarrow> b)\<rparr>)"

definition rb_closeConnection ::
  "('h, 'b) http_ops \<Rightarrow> ('h, 'b) response_builder \<Rightarrow> ('h, 'b) response_builder option" where
  "rb_closeConnection G rb = rb_header G ''Connection'' ''close'' rb"

definition rb_send ::
  "('h, 'b) http_ops \<Rightarrow> ('h, 'b) response_builder \<Rightarrow> ('h, 'b) response_builder \<times> ('h, 'b) txn_call list" where
  "rb_send G rb =
     (let chunked = (if rb_headers rb \<noteq> None \<and> rb_sendEOM rb then False else True);
          head = (case rb_headers rb of
                    None \<Rightarrow> []
                  | Some h \<Rightarrow> [SendHeaders
                      (sent_headers G (hm_isResponse G h \<and> 200 \<le> hm_getStatusCode G h) chunked (rb_body rb) h)])
      in (rb\<lparr>rb_headers := None, rb_body := None\<rparr>,
          head @ body_calls G chunked (rb_body rb) @ (if rb_sendEOM rb then [SendEOM] else [])))"

definition rb_sendWithEOM ::
  "('h, 'b) http_ops \<Rightarrow> ('h, 'b) response_builder \<Rightarrow> ('h, 'b) response_builder \<times> ('h, 'b) txn_call list" where
  "rb_sendWithEOM G rb = rb_send G (rb\<lparr>rb_sendEOM := True\<rparr>)"

text \<open>A response with a status, a closed connection and no body, as the adaptor sends it.\<close>

definition rb_close_with :: "('h, 'b) http_ops \<Rightarrow> nat \<Rightarrow> string \<Rightarrow> ('h, 'b) txn_call list" where
  "rb_close_with G code text =
     (case rb_closeConnection G (rb_status G code text ResponseBuilder) of
        None \<Rightarrow> []
      | Some rb \<Rightarrow> snd (rb_sendWithEOM G rb))"

definition acceptUpgradeRequest ::
  "('h, 'b) http_ops \<Rightarrow> string option \<Rightarrow> ('h, 'b) txn_call list option" where
  "acceptUpgradeRequest G upgradeProtocol =
     (case upgradeProtocol of
        None \<Rightarrow> Some [SendHeaders (hm_constructDirectResponse G 200 ''OK'' (hm_new G))]
      | Some protocol \<Rightarrow>
          if protocol = [] then None
          else Some [SendHeaders (hm_add G ''Connection'' ''Upgrade'' (hm_add G ''Upgrade'' protocol
            (hm_constructDirectResponse G 101 ''Switching Protocols'' (hm_new G))))])"

definition rejectUpgradeRequest :: "('h, 'b) http_ops \<Rightarrow> ('h, 'b) txn_call list" where
  "rejectUpgradeRequest G =
     [SendHeaders (hm_constructDirectResponse G 400 ''Bad Request'' (hm_new G)), SendEOM]"

end
