(* ===== verification/Web_Requests.thy ===== *)
theory Web_Requests
  imports Web_Counters Web_Messages
begin

text \<open>
  The life of a request in the web server. The transaction of proxygen calls the adaptor
  (\<open>proxygen_override/proxygen/httpserver/RequestHandlerAdaptor.cpp\<close>), which calls the
  filter for CONNECT requests (\<open>filters/RejectConnectFilter.h\<close>) or the handler
  (\<open>impl/fb_impl/ProxygenRequestHandlerBase.cpp\<close>, \<open>RequestHandlerImpl.cpp\<close>). The handler gives
  the work to an executor and gets the answer back through the event loop. All objects of one
  acceptor (\<open>HTTPServerAcceptor.cpp\<close>) are the state. Deleted objects stay visible: whatever
  uses one sets \<open>use_after_free\<close>.
\<close>

subsection \<open>Objects\<close>

datatype proxygen_error =
    kErrorNone
  | kErrorTimeout
  | kErrorRead
  | kErrorWrite
  | kErrorUnsupportedExpectation

text \<open>
  A request: the handler with its request message and response handler, the filter in front of
  it if the request is a CONNECT, and the adaptor. \<open>calls\<close> are the calls on the transaction so
  far; \<open>ingress_done\<close> records, for the proofs, that the request was received completely.
  The work of a request waits in the executor, with its timeout, is done, or is posted to the
  event loop.
\<close>

datatype work_place = Idle | Queued nat | Working | Posted

record ('h, 'b) request =
  handler_alive :: bool
  has_acceptor :: bool
  m_requestMessage :: "('h, 'b) message"
  m_responseHandler :: "('h, 'b) response_handler"
  filter :: bool
  filter_upstream :: bool
  filter_alive :: bool
  adaptor_alive :: bool
  err :: proxygen_error
  responseStarted :: bool
  calls :: "('h, 'b) txn_call list"
  ingress_done :: bool

record ('h, 'b) server =
  counters :: server_counters
  stopRequested :: bool
  requests :: "nat \<Rightarrow> ('h, 'b) request option"
  place :: "nat \<Rightarrow> work_place"
  computed :: "nat \<Rightarrow> ('h, 'b) message"
  use_after_free :: bool

text \<open>
  What the application and the libraries decide: the timeout of a request and its response
  (\<open>None\<close> is an exception), the comparison of the expectation, and whether there is an
  executor. CONNECT is not supported, the default of the options.
\<close>

record ('h, 'b) web_env =
  http :: "('h, 'b) http_ops"
  getTimeOut :: "('h, 'b) message \<Rightarrow> nat"
  makeResponse :: "('h, 'b) message \<Rightarrow> ('h, 'b) message option"
  iequals :: "string \<Rightarrow> string \<Rightarrow> bool"
  has_executor :: bool

datatype add_outcome = Added | QueueFull | OtherException

subsection \<open>The response side of the adaptor\<close>

definition adaptor_calls :: "('h, 'b) txn_call list \<Rightarrow> ('h, 'b) request \<Rightarrow> ('h, 'b) request" where
  "adaptor_calls cs r =
     r\<lparr>calls := calls r @ cs,
       responseStarted := responseStarted r \<or> (\<exists>c \<in> set cs. case c of SendHeaders h \<Rightarrow> True | _ \<Rightarrow> False)\<rparr>"

text \<open>
  The calls of the handler go through the filter if there is one: \<open>RejectConnectFilter\<close>
  overrides them with empty functions.
\<close>

definition handler_calls :: "('h, 'b) txn_call list \<Rightarrow> ('h, 'b) request \<Rightarrow> ('h, 'b) request" where
  "handler_calls cs r = (if filter r then r else adaptor_calls cs r)"

definition respond ::
  "(('h, 'b) response_handler \<Rightarrow> ('h, 'b) response_handler \<times> ('h, 'b) txn_call list) \<Rightarrow>
   ('h, 'b) request \<Rightarrow> ('h, 'b) request" where
  "respond f r = (case f (m_responseHandler r) of (rh, cs) \<Rightarrow> handler_calls cs (r\<lparr>m_responseHandler := rh\<rparr>))"

subsection \<open>The server\<close>

definition server_start :: "'a counter_flags_scheme \<Rightarrow> ('h, 'b) server" where
  "server_start F =
     \<lparr>counters = setCounters F ServerCounters, stopRequested = False, requests = (\<lambda>_. None),
      place = (\<lambda>_. Idle), computed = (\<lambda>_. moved_message), use_after_free = False\<rparr>"

definition set_request :: "nat \<Rightarrow> ('h, 'b) request \<Rightarrow> ('h, 'b) server \<Rightarrow> ('h, 'b) server" where
  "set_request i r s = s\<lparr>requests := (requests s)(i \<mapsto> r)\<rparr>"

definition fault :: "('h, 'b) server \<Rightarrow> ('h, 'b) server" where
  "fault s = s\<lparr>use_after_free := True\<rparr>"

text \<open>The destructor of the handler.\<close>

definition delete_handler :: "nat \<Rightarrow> ('h, 'b) request \<Rightarrow> ('h, 'b) server \<Rightarrow> ('h, 'b) server" where
  "delete_handler i r s =
     (if \<not> handler_alive r then fault s
      else
        let s1 = set_request i (r\<lparr>handler_alive := False\<rparr>) s in
        s1\<lparr>counters := (if has_acceptor r then uncount_request (counters s1) else counters s1)\<rparr>)"

text \<open>
  \<open>newHandler\<close>: the factories make the handler and, for a CONNECT that is not supported, the
  filter. The acceptor is given to the outermost of the two; the filter does not pass it on.
  \<open>setTransaction\<close> then connects the response handler.
\<close>

definition newHandler :: "('h, 'b) web_env \<Rightarrow> bool \<Rightarrow> nat \<Rightarrow> ('h, 'b) server \<Rightarrow> ('h, 'b) server" where
  "newHandler E connect i s =
     (let r = \<lparr>handler_alive = True, has_acceptor = \<not> connect, m_requestMessage = Message (http E),
               m_responseHandler = setEOMOnSend True (ResponseHandler (http E)),
               filter = connect, filter_upstream = True, filter_alive = connect,
               adaptor_alive = True, err = kErrorNone, responseStarted = False, calls = [],
               ingress_done = False\<rparr>;
          s1 = set_request i r s
      in s1\<lparr>counters := (if connect then counters s1 else count_request (counters s1))\<rparr>)"

subsection \<open>The handler\<close>

definition handler_onRequest :: "nat \<Rightarrow> 'h \<Rightarrow> ('h, 'b) request \<Rightarrow> ('h, 'b) server \<Rightarrow> ('h, 'b) server" where
  "handler_onRequest i h r s =
     (if \<not> handler_alive r then fault s
      else set_request i (r\<lparr>m_requestMessage := (m_requestMessage r)\<lparr>m_headers := Some h\<rparr>\<rparr>) s)"

definition handler_onBody ::
  "('h, 'b) web_env \<Rightarrow> nat \<Rightarrow> 'b \<Rightarrow> ('h, 'b) request \<Rightarrow> ('h, 'b) server \<Rightarrow> ('h, 'b) server" where
  "handler_onBody E i b r s =
     (if \<not> handler_alive r then fault s
      else set_request i (r\<lparr>m_requestMessage := appendBody (http E) (Some b) (m_requestMessage r)\<rparr>) s)"

definition onTooManyRequests :: "('h, 'b) web_env \<Rightarrow> ('h, 'b) request \<Rightarrow> ('h, 'b) request" where
  "onTooManyRequests E r =
     respond (\<lambda>rh. sendWithEOM (http E) (setResponseMsg (setTooManyRequestsError (http E) (Message (http E))) rh)) r"

definition onStopRequested :: "('h, 'b) web_env \<Rightarrow> ('h, 'b) request \<Rightarrow> ('h, 'b) request" where
  "onStopRequested E r =
     respond (\<lambda>rh. sendWithEOM (http E) (setResponseMsg (setServiceUnavailableError (http E) (Message (http E))) rh)) r"

definition onTooManyTimeouts :: "('h, 'b) web_env \<Rightarrow> ('h, 'b) request \<Rightarrow> ('h, 'b) request" where
  "onTooManyTimeouts E r = onTooManyRequests E r"

text \<open>\<open>onEOM\<close> of the handler, with what the executor does when the work is added.\<close>

definition handler_onEOM ::
  "('h, 'b) web_env \<Rightarrow> add_outcome \<Rightarrow> nat \<Rightarrow> ('h, 'b) request \<Rightarrow> ('h, 'b) server \<Rightarrow> ('h, 'b) server" where
  "handler_onEOM E outcome i r s =
     (if \<not> handler_alive r then fault s
      else if \<not> has_acceptor r then s
      else if stopRequested s then set_request i (onStopRequested E r) s
      else if current_isOverloaded (m_currentRequests (counters s))
      then set_request i (onTooManyRequests E r) s
      else if ratio_isOverloaded (m_timeoutedRequestRatio (counters s))
      then set_request i (onTooManyTimeouts E r) s
      else if \<not> has_executor E then s
      else case outcome of
        Added \<Rightarrow> s\<lparr>place := (place s)(i := Queued (getTimeOut E (m_requestMessage r)))\<rparr>
      | QueueFull \<Rightarrow> set_request i (onTooManyRequests E r) s
      | OtherException \<Rightarrow> set_request i (respond (sendDefauServerError (http E)) r) s)"

subsection \<open>The filter for CONNECT requests\<close>

definition filter_onRequest ::
  "('h, 'b) web_env \<Rightarrow> nat \<Rightarrow> ('h, 'b) request \<Rightarrow> ('h, 'b) server \<Rightarrow> ('h, 'b) server" where
  "filter_onRequest E i r s =
     delete_handler i (adaptor_calls (rejectUpgradeRequest (http E)) (r\<lparr>filter_upstream := False\<rparr>)) s"

definition filter_onError :: "nat \<Rightarrow> ('h, 'b) request \<Rightarrow> ('h, 'b) server \<Rightarrow> ('h, 'b) server" where
  "filter_onError i r s =
     (if filter_upstream r then delete_handler i (r\<lparr>filter_upstream := False, filter_alive := False\<rparr>) s
      else set_request i (r\<lparr>filter_alive := False\<rparr>) s)"

subsection \<open>The adaptor\<close>

text \<open>Calls on the object next to the adaptor: the filter, if there is one, or the handler.\<close>

definition upstream_onRequest ::
  "('h, 'b) web_env \<Rightarrow> nat \<Rightarrow> 'h \<Rightarrow> ('h, 'b) request \<Rightarrow> ('h, 'b) server \<Rightarrow> ('h, 'b) server" where
  "upstream_onRequest E i h r s =
     (if \<not> filter r then handler_onRequest i h r s
      else if filter_alive r then filter_onRequest E i r s else fault s)"

definition upstream_onBody ::
  "('h, 'b) web_env \<Rightarrow> nat \<Rightarrow> 'b \<Rightarrow> ('h, 'b) request \<Rightarrow> ('h, 'b) server \<Rightarrow> ('h, 'b) server" where
  "upstream_onBody E i b r s =
     (if \<not> filter r then handler_onBody E i b r s
      else if filter_alive r then s else fault s)"

definition upstream_onEOM ::
  "('h, 'b) web_env \<Rightarrow> add_outcome \<Rightarrow> nat \<Rightarrow> ('h, 'b) request \<Rightarrow> ('h, 'b) server \<Rightarrow> ('h, 'b) server" where
  "upstream_onEOM E outcome i r s =
     (if \<not> filter r then handler_onEOM E outcome i r s
      else if filter_alive r then s else fault s)"

definition upstream_onError :: "nat \<Rightarrow> ('h, 'b) request \<Rightarrow> ('h, 'b) server \<Rightarrow> ('h, 'b) server" where
  "upstream_onError i r s =
     (if \<not> filter r then delete_handler i r s
      else if filter_alive r then filter_onError i r s else fault s)"

text \<open>\<open>requestComplete\<close> of the filter checks that the handler is gone, and aborts if not.\<close>

definition upstream_requestComplete :: "nat \<Rightarrow> ('h, 'b) request \<Rightarrow> ('h, 'b) server \<Rightarrow> ('h, 'b) server option" where
  "upstream_requestComplete i r s =
     (if \<not> filter r then Some (delete_handler i r s)
      else if \<not> filter_alive r then Some (fault s)
      else if filter_upstream r then None
      else Some (set_request i (r\<lparr>filter_alive := False\<rparr>) s))"

definition setError ::
  "proxygen_error \<Rightarrow> nat \<Rightarrow> ('h, 'b) request \<Rightarrow> ('h, 'b) server \<Rightarrow> ('h, 'b) server" where
  "setError e i r s = upstream_onError i (r\<lparr>err := e\<rparr>) s"

definition adaptor_sends ::
  "('h, 'b) txn_call list \<Rightarrow> nat \<Rightarrow> ('h, 'b) server \<Rightarrow> ('h, 'b) server" where
  "adaptor_sends cs i s =
     (case requests s i of None \<Rightarrow> s | Some r \<Rightarrow> set_request i (adaptor_calls cs r) s)"

definition onHeadersComplete ::
  "('h, 'b) web_env \<Rightarrow> 'h \<Rightarrow> nat \<Rightarrow> ('h, 'b) request \<Rightarrow> ('h, 'b) server \<Rightarrow> ('h, 'b) server" where
  "onHeadersComplete E h i r s =
     (if hm_exists (http E) ''Expect'' h
      then
        if \<not> iequals E (hm_getSingleOrEmpty (http E) ''Expect'' h) ''100-continue''
        then adaptor_sends (rb_close_with (http E) 417 ''Expectation Failed'') i
               (setError kErrorUnsupportedExpectation i r s)
        else
          let r1 = adaptor_calls (snd (rb_send (http E) (rb_status (http E) 100 ''Continue'' ResponseBuilder))) r
          in upstream_onRequest E i h r1 (set_request i r1 s)
      else upstream_onRequest E i h r s)"

definition adaptor_onBody ::
  "('h, 'b) web_env \<Rightarrow> 'b \<Rightarrow> nat \<Rightarrow> ('h, 'b) request \<Rightarrow> ('h, 'b) server \<Rightarrow> ('h, 'b) server" where
  "adaptor_onBody E b i r s = upstream_onBody E i b r s"

definition adaptor_onEOM ::
  "('h, 'b) web_env \<Rightarrow> add_outcome \<Rightarrow> nat \<Rightarrow> ('h, 'b) request \<Rightarrow> ('h, 'b) server \<Rightarrow> ('h, 'b) server" where
  "adaptor_onEOM E outcome i r s = (if err r = kErrorNone then upstream_onEOM E outcome i r s else s)"

text \<open>\<open>onError\<close>, with the kind of the error and whether its direction is ingress.\<close>

definition adaptor_onError ::
  "('h, 'b) web_env \<Rightarrow> bool \<Rightarrow> bool \<Rightarrow> nat \<Rightarrow> ('h, 'b) request \<Rightarrow> ('h, 'b) server \<Rightarrow> ('h, 'b) server" where
  "adaptor_onError E timeout ingress i r s =
     (if err r \<noteq> kErrorNone then s
      else if timeout
      then adaptor_sends
             (if responseStarted r then [SendAbort] else rb_close_with (http E) 408 ''Request Timeout'') i
             (setError kErrorTimeout i r s)
      else if ingress
      then adaptor_sends
             (if responseStarted r then [SendAbort] else rb_close_with (http E) 400 ''Bad Request'') i
             (setError kErrorRead i r s)
      else setError kErrorWrite i r s)"

definition detachTransaction :: "nat \<Rightarrow> ('h, 'b) request \<Rightarrow> ('h, 'b) server \<Rightarrow> ('h, 'b) server option" where
  "detachTransaction i r s =
     (case (if err r = kErrorNone then upstream_requestComplete i r s else Some s) of
        None \<Rightarrow> None
      | Some s1 \<Rightarrow>
          Some (case requests s1 i of
                  None \<Rightarrow> s1
                | Some r1 \<Rightarrow> set_request i (r1\<lparr>adaptor_alive := False\<rparr>) s1))"

subsection \<open>The worker threads and the event loop\<close>

text \<open>
  The functor reads the request message of the handler and computes the response; when the work
  has waited too long the executor calls \<open>onAppTimeout\<close> instead.
\<close>

definition functor_start ::
  "('h, 'b) web_env \<Rightarrow> nat \<Rightarrow> ('h, 'b) request \<Rightarrow> ('h, 'b) server \<Rightarrow> ('h, 'b) server" where
  "functor_start E i r s =
     (if \<not> handler_alive r then fault (s\<lparr>place := (place s)(i := Idle)\<rparr>)
      else
        let response = (case makeResponse E (m_requestMessage r) of
                          Some m \<Rightarrow> m
                        | None \<Rightarrow> setDefaulServerError (http E) (Message (http E)))
        in s\<lparr>place := (place s)(i := Working), computed := (computed s)(i := response)\<rparr>)"

definition onAppTimeout ::
  "('h, 'b) web_env \<Rightarrow> nat \<Rightarrow> ('h, 'b) request \<Rightarrow> ('h, 'b) server \<Rightarrow> ('h, 'b) server" where
  "onAppTimeout E i r s =
     (if \<not> handler_alive r then fault (s\<lparr>place := (place s)(i := Idle)\<rparr>)
      else s\<lparr>place := (place s)(i := Working),
             computed := (computed s)(i := setTimeOutServerError (http E) (Message (http E)))\<rparr>)"

text \<open>
  \<open>sendResponse\<close>: the message is given to the response handler, whose \<open>send\<close> is posted
  to the event loop, unless the loop refuses it.
\<close>

definition sendResponse :: "bool \<Rightarrow> nat \<Rightarrow> ('h, 'b) request \<Rightarrow> ('h, 'b) server \<Rightarrow> ('h, 'b) server" where
  "sendResponse posted i r s =
     (if \<not> handler_alive r then fault (s\<lparr>place := (place s)(i := Idle)\<rparr>)
      else set_request i (r\<lparr>m_responseHandler := setResponseMsg (computed s i) (m_responseHandler r)\<rparr>)
             (s\<lparr>place := (place s)(i := if posted then Posted else Idle)\<rparr>))"

definition sendFunc :: "('h, 'b) web_env \<Rightarrow> nat \<Rightarrow> ('h, 'b) request \<Rightarrow> ('h, 'b) server \<Rightarrow> ('h, 'b) server" where
  "sendFunc E i r s =
     (if \<not> handler_alive r then fault (s\<lparr>place := (place s)(i := Idle)\<rparr>)
      else set_request i (respond (rh_send (http E)) r) (s\<lparr>place := (place s)(i := Idle)\<rparr>))"

subsection \<open>Steps\<close>

text \<open>
  The calls of proxygen, of the executor and of the event loop, in any order and for any number
  of requests. With \<open>orderly\<close> the transaction keeps to the normal course of a request: no
  errors, headers, then body, then the end, expectations the server supports, and a
  transaction is detached after the response was sent.
\<close>

definition expected :: "('h, 'b) web_env \<Rightarrow> 'h \<Rightarrow> bool" where
  "expected E h \<longleftrightarrow> (hm_exists (http E) ''Expect'' h \<longrightarrow>
     iequals E (hm_getSingleOrEmpty (http E) ''Expect'' h) ''100-continue'')"

inductive web_step :: "bool \<Rightarrow> ('h, 'b) web_env \<Rightarrow> ('h, 'b) server \<Rightarrow> ('h, 'b) server \<Rightarrow> bool"
  for orderly :: bool and E :: "('h, 'b) web_env"
where
  accept: "web_step orderly E s (s\<lparr>counters := snd (canAccept n (counters s))\<rparr>)"
| stop: "web_step orderly E s (s\<lparr>stopRequested := True\<rparr>)"
| opened: "requests s i = None \<Longrightarrow> web_step orderly E s (newHandler E connect i s)"
| headers: "requests s i = Some r \<Longrightarrow> adaptor_alive r \<Longrightarrow>
    (orderly \<longrightarrow> calls r = [] \<and> \<not> ingress_done r \<and> expected E h) \<Longrightarrow>
    web_step orderly E s (onHeadersComplete E h i r s)"
| body: "requests s i = Some r \<Longrightarrow> adaptor_alive r \<Longrightarrow> (orderly \<longrightarrow> \<not> ingress_done r) \<Longrightarrow>
    web_step orderly E s (adaptor_onBody E b i r s)"
| eom: "requests s i = Some r \<Longrightarrow> adaptor_alive r \<Longrightarrow> (orderly \<longrightarrow> \<not> ingress_done r) \<Longrightarrow>
    r1 = r\<lparr>ingress_done := True\<rparr> \<Longrightarrow>
    web_step orderly E s (adaptor_onEOM E outcome i r1 (set_request i r1 s))"
| error: "requests s i = Some r \<Longrightarrow> adaptor_alive r \<Longrightarrow> \<not> orderly \<Longrightarrow>
    web_step orderly E s (adaptor_onError E timeout ingress i r s)"
| detach: "requests s i = Some r \<Longrightarrow> adaptor_alive r \<Longrightarrow> (orderly \<longrightarrow> SendEOM \<in> set (calls r)) \<Longrightarrow>
    detachTransaction i r s = Some s' \<Longrightarrow> web_step orderly E s s'"
| work: "requests s i = Some r \<Longrightarrow> place s i = Queued timeout \<Longrightarrow> web_step orderly E s (functor_start E i r s)"
| expire: "requests s i = Some r \<Longrightarrow> place s i = Queued timeout \<Longrightarrow> 0 < timeout \<Longrightarrow>
    web_step orderly E s (onAppTimeout E i r s)"
| post: "requests s i = Some r \<Longrightarrow> place s i = Working \<Longrightarrow> web_step orderly E s (sendResponse posted i r s)"
| loop: "requests s i = Some r \<Longrightarrow> place s i = Posted \<Longrightarrow> web_step orderly E s (sendFunc E i r s)"

end
