(* ===== verification/Web_Counting.thy ===== *)
theory Web_Counting
  imports Web_Requests
begin

text \<open>
  The counters of the web server in every execution, normal or not: the number of current
  requests is the number of handlers that are alive, and the limit on requests that time out
  is never exceeded, because nothing counts them.
\<close>

subsection \<open>What a step does to the handlers and the counters\<close>

definition alive :: "('h, 'b) server \<Rightarrow> nat set" where
  "alive s = {i. \<exists>r. requests s i = Some r \<and> handler_alive r \<and> has_acceptor r}"

text \<open>The handlers ever made that count: those that are not behind the filter for CONNECT.\<close>

definition handlers :: "('h, 'b) server \<Rightarrow> nat set" where
  "handlers s = {i. \<exists>r. requests s i = Some r \<and> has_acceptor r}"

lemma alive_iff: "i \<in> alive s \<longleftrightarrow> (\<exists>r. requests s i = Some r \<and> handler_alive r \<and> has_acceptor r)"
  by (simp add: alive_def)

text \<open>A step on known requests keeps the handlers and the counters, or destroys one handler.\<close>

definition tally :: "('h, 'b) server \<Rightarrow> ('h, 'b) server \<Rightarrow> bool" where
  "tally s s' \<longleftrightarrow> dom (requests s') = dom (requests s) \<and> handlers s' = handlers s \<and>
     (alive s' = alive s \<and> counters s' = counters s \<or>
      (\<exists>i \<in> alive s. alive s' = alive s - {i} \<and> counters s' = uncount_request (counters s)))"

definition kept :: "('h, 'b) server \<Rightarrow> ('h, 'b) server \<Rightarrow> bool" where
  "kept s s' \<longleftrightarrow> dom (requests s') = dom (requests s) \<and> handlers s' = handlers s \<and>
     alive s' = alive s \<and> counters s' = counters s"

lemma kept_tally: "kept s s' \<Longrightarrow> tally s s'"
  by (simp add: kept_def tally_def)

lemma kept_refl [simp]: "kept s s"
  by (simp add: kept_def)

lemma tally_refl [simp]: "tally s s"
  by (simp add: tally_def)

lemma tally_kept: "tally s s' \<Longrightarrow> kept s' s'' \<Longrightarrow> tally s s''"
  by (auto simp: kept_def tally_def)

lemma kept_tally_trans: "kept s s' \<Longrightarrow> tally s' s'' \<Longrightarrow> tally s s''"
  by (auto simp: kept_def tally_def)

definition like :: "('h, 'b) request \<Rightarrow> ('h, 'b) request \<Rightarrow> bool" where
  "like r0 r \<longleftrightarrow> handler_alive r = handler_alive r0 \<and> has_acceptor r = has_acceptor r0"

lemma like_refl [simp]: "like r r"
  by (simp add: like_def)

lemma like_calls [simp]:
  "like r0 (adaptor_calls cs r) = like r0 r" "like r0 (handler_calls cs r) = like r0 r"
  "like r0 (respond f r) = like r0 r"
  by (auto simp: like_def adaptor_calls_def handler_calls_def respond_def split: prod.splits)

lemma like_handler [simp]: "like r0 (r\<lparr>m_responseHandler := rh\<rparr>) = like r0 r"
  by (simp add: like_def)

lemma kept_set: "requests s i = Some r0 \<Longrightarrow> like r0 r \<Longrightarrow> kept s (set_request i r s)"
  by (auto simp: kept_def handlers_def alive_def like_def set_request_def split: if_splits)

lemma kept_fault [simp]: "kept s (fault s)" "kept s (fault (s\<lparr>place := p\<rparr>))"
  by (simp_all add: kept_def fault_def handlers_def alive_def)

lemma kept_place: "kept s (s\<lparr>place := p\<rparr>)" "kept s (s\<lparr>place := p, computed := c\<rparr>)"
  by (simp_all add: kept_def handlers_def alive_def)

lemma kept_set_place:
  "requests s i = Some r0 \<Longrightarrow> like r0 r \<Longrightarrow> kept s (set_request i r (s\<lparr>place := p\<rparr>))"
  by (auto simp: kept_def handlers_def alive_def like_def set_request_def split: if_splits)

lemma kept_sends: "kept s (adaptor_sends cs i s)"
  by (auto simp: adaptor_sends_def intro: kept_set split: option.split)

lemma tally_delete:
  assumes "requests s i = Some r0" "like r0 r"
  shows "tally s (delete_handler i r s)"
proof (cases "handler_alive r")
  case False
  then show ?thesis by (auto simp: delete_handler_def intro: kept_tally)
next
  case True
  let ?s = "delete_handler i r s"
  have dom: "dom (requests ?s) = dom (requests s)"
    using assms(1) True by (auto simp: delete_handler_def set_request_def Let_def)
  have alive: "alive ?s = alive s - {i}"
    using True by (auto simp: delete_handler_def set_request_def Let_def alive_def split: if_splits)
  have handlers: "handlers ?s = handlers s"
    using True assms by (auto simp: delete_handler_def set_request_def Let_def handlers_def like_def split: if_splits)
  show ?thesis
  proof (cases "has_acceptor r")
    case acc: True
    then have "i \<in> alive s" using assms True by (simp add: alive_iff like_def)
    then show ?thesis using dom alive handlers True acc
      by (auto simp: tally_def delete_handler_def Let_def set_request_def)
  next
    case acc: False
    then have "i \<notin> alive s" using assms by (simp add: alive_iff like_def)
    then show ?thesis using dom alive handlers True acc
      by (auto simp: tally_def delete_handler_def Let_def set_request_def)
  qed
qed

lemma tally_onError:
  assumes "requests s i = Some r0" "like r0 r"
  shows "tally s (upstream_onError i r s)"
  using assms
  by (auto simp: upstream_onError_def filter_onError_def like_def intro!: tally_delete kept_tally [OF kept_set]
      intro: kept_tally)

lemma tally_onRequest:
  assumes "requests s i = Some r0" "like r0 r"
  shows "tally s (upstream_onRequest E i h r s)"
  using assms
  by (auto simp: upstream_onRequest_def filter_onRequest_def handler_onRequest_def
      intro!: tally_delete kept_tally [OF kept_set] intro: kept_tally)
    (auto simp: like_def)

lemma tally_headers:
  assumes "requests s i = Some r"
  shows "tally s (onHeadersComplete E h i r s)"
proof -
  have err: "tally s (setError e i r s)" for e
    unfolding setError_def using assms by (intro tally_onError) (auto simp: like_def)
  have continue: "tally s (upstream_onRequest E i h (adaptor_calls cs r) (set_request i (adaptor_calls cs r) s))" for cs
  proof (rule kept_tally_trans)
    show "kept s (set_request i (adaptor_calls cs r) s)" using assms by (intro kept_set) auto
    show "tally (set_request i (adaptor_calls cs r) s)
        (upstream_onRequest E i h (adaptor_calls cs r) (set_request i (adaptor_calls cs r) s))"
      by (rule tally_onRequest [where ?r0.0 = "adaptor_calls cs r"]) (auto simp: set_request_def)
  qed
  show ?thesis unfolding onHeadersComplete_def Let_def
    using tally_kept [OF err kept_sends] continue tally_onRequest [OF assms like_refl] by simp
qed

lemma kept_body: "requests s i = Some r \<Longrightarrow> kept s (adaptor_onBody E b i r s)"
  by (auto simp: adaptor_onBody_def upstream_onBody_def handler_onBody_def like_def intro!: kept_set)

lemma kept_handler_eom: "requests s i = Some r \<Longrightarrow> kept s (handler_onEOM E outcome i r s)"
  by (auto simp: handler_onEOM_def onStopRequested_def onTooManyRequests_def onTooManyTimeouts_def
      split: add_outcome.split intro!: kept_set kept_place)

lemma kept_eom:
  assumes "requests s i = Some r"
  shows "kept s (adaptor_onEOM E outcome i (r\<lparr>ingress_done := True\<rparr>) (set_request i (r\<lparr>ingress_done := True\<rparr>) s))"
proof -
  let ?r = "r\<lparr>ingress_done := True\<rparr>" and ?s = "set_request i (r\<lparr>ingress_done := True\<rparr>) s"
  have "kept s ?s" using assms by (intro kept_set) (auto simp: like_def)
  moreover have "kept ?s (handler_onEOM E outcome i ?r ?s)" by (rule kept_handler_eom) (simp add: set_request_def)
  ultimately show ?thesis by (auto simp: adaptor_onEOM_def upstream_onEOM_def kept_def fault_def handlers_def alive_def)
qed

lemma tally_error:
  assumes "requests s i = Some r"
  shows "tally s (adaptor_onError E timeout ingress i r s)"
proof -
  have err: "tally s (setError e i r s)" for e
    unfolding setError_def using assms by (intro tally_onError) (auto simp: like_def)
  then show ?thesis unfolding adaptor_onError_def using tally_kept [OF err kept_sends] by auto
qed

lemma tally_detach:
  assumes "requests s i = Some r" "detachTransaction i r s = Some s'"
  shows "tally s s'"
proof -
  obtain s1 where s1: "(if err r = kErrorNone then upstream_requestComplete i r s else Some s) = Some s1"
    and s': "s' = (case requests s1 i of None \<Rightarrow> s1 | Some r1 \<Rightarrow> set_request i (r1\<lparr>adaptor_alive := False\<rparr>) s1)"
    using assms(2) by (auto simp: detachTransaction_def split: option.splits)
  have "tally s s1"
    using s1 assms(1) tally_delete [OF assms(1) like_refl] kept_set [OF assms(1), of "r\<lparr>filter_alive := False\<rparr>"]
    by (auto simp: upstream_requestComplete_def like_def intro: kept_tally split: if_splits)
  moreover have "kept s1 s'" using s' by (auto intro: kept_set simp: like_def split: option.split)
  ultimately show ?thesis by (rule tally_kept)
qed

lemma kept_work:
  assumes "requests s i = Some r"
  shows "kept s (functor_start E i r s)" "kept s (onAppTimeout E i r s)" "kept s (sendResponse posted i r s)"
    "kept s (sendFunc E i r s)"
proof -
  show "kept s (functor_start E i r s)" "kept s (onAppTimeout E i r s)"
    by (auto simp: functor_start_def onAppTimeout_def Let_def intro: kept_place)
  show "kept s (sendResponse posted i r s)" "kept s (sendFunc E i r s)"
    using assms by (auto simp: sendResponse_def sendFunc_def intro!: kept_set_place)
qed

subsection \<open>The invariant\<close>

text \<open>
  Without a limit nothing is counted; with the highest limit, which the counter takes for none,
  the handlers are counted when they are made and not when they are destroyed.
\<close>

definition counts_all :: "u64 \<Rightarrow> nat \<Rightarrow> server_counters \<Rightarrow> bool" where
  "counts_all limit n c \<longleftrightarrow>
     (limit = 0 \<longrightarrow> \<not> m_enabled (m_currentRequests c) \<and> m_value (m_currentRequests c) = 0) \<and>
     (limit = - 1 \<longrightarrow> m_enabled (m_currentRequests c) \<and> m_value (m_currentRequests c) = word_of_nat n)"

lemma counts_all_more: "counts_all limit n c \<Longrightarrow> counts_all limit (Suc n) (count_request c)"
  by (auto simp: counts_all_def count_request_def increment_def Let_def)

lemma counts_all_less:
  "counts_all limit n c \<Longrightarrow> m_maxValue (m_currentRequests c) = (if 0 < limit then limit else - 1) \<Longrightarrow>
   counts_all limit n (uncount_request c)"
  by (auto simp: counts_all_def uncount_request_def decrement_def current_isEnabled_def)

lemma counts_all_accept: "counts_all limit k c \<Longrightarrow> counts_all limit k (snd (canAccept n c))"
  by (simp add: counts_all_def canAccept_def Let_def)

lemma highest_positive: "0 < (- 1 :: u64)"
  by (simp add: word_gt_0)

lemma counts_all_start: "counts_all (MAX_REQUESTS_PER_IO_THREAD F) 0 (setCounters F ServerCounters)"
  using highest_positive by (simp add: counts_all_def setCounters_def ServerCounters_def CurrentCounter_def setMaxValue_def enable_def
      ratio_setMaxValue_def Let_def split: prod.splits)

definition counting :: "'a counter_flags_scheme \<Rightarrow> ('h, 'b) server \<Rightarrow> bool" where
  "counting F s \<longleftrightarrow> finite (dom (requests s)) \<and> no_timeouts (counters s) \<and>
     m_maxValue (m_currentRequests (counters s)) =
       (if 0 < MAX_REQUESTS_PER_IO_THREAD F then MAX_REQUESTS_PER_IO_THREAD F else - 1) \<and>
     (card (dom (requests s)) < 2 ^ 64 \<longrightarrow> counts (card (alive s)) (counters s)) \<and>
     counts_all (MAX_REQUESTS_PER_IO_THREAD F) (card (handlers s)) (counters s)"

lemma alive_dom: "alive s \<subseteq> dom (requests s)"
  by (auto simp: alive_def)

lemma finite_alive: "counting F s \<Longrightarrow> finite (alive s)"
  by (rule finite_subset [OF alive_dom]) (simp add: counting_def)

lemma card_alive: "counting F s \<Longrightarrow> card (alive s) \<le> card (dom (requests s))"
  by (rule card_mono [OF _ alive_dom]) (simp add: counting_def)

lemma limit_kept [simp]:
  "m_maxValue (m_currentRequests (count_request c)) = m_maxValue (m_currentRequests c)"
  "m_maxValue (m_currentRequests (uncount_request c)) = m_maxValue (m_currentRequests c)"
  "m_currentRequests (snd (canAccept n c)) = m_currentRequests c"
  by (simp_all add: count_request_def uncount_request_def increment_def decrement_def canAccept_def Let_def)

lemma counting_start: "counting F (server_start F)"
proof -
  have "m_maxValue (m_currentRequests (setCounters F ServerCounters)) =
      (if 0 < MAX_REQUESTS_PER_IO_THREAD F then MAX_REQUESTS_PER_IO_THREAD F else - 1)"
    by (simp add: setCounters_def Let_def setMaxValue_def enable_def ServerCounters_def CurrentCounter_def
        split: prod.splits)
  then show ?thesis
    by (simp add: counting_def server_start_def alive_def handlers_def counts_start
        no_timeouts_start counts_all_start)
qed

lemma counting_tally:
  assumes "counting F s" "tally s s'"
  shows "counting F s'"
proof -
  have dom: "dom (requests s') = dom (requests s)" and h: "handlers s' = handlers s"
    using assms(2) by (simp_all add: tally_def)
  have fin: "finite (alive s)" using assms(1) by (rule finite_alive)
  show ?thesis
  proof (cases "alive s' = alive s \<and> counters s' = counters s")
    case True
    then show ?thesis using assms(1) dom h by (simp add: counting_def)
  next
    case False
    then obtain i where i: "i \<in> alive s" "alive s' = alive s - {i}" "counters s' = uncount_request (counters s)"
      using assms(2) unfolding tally_def by blast
    have card: "card (alive s) = Suc (card (alive s'))" unfolding i(2) by (rule card_Suc_Diff1 [OF fin i(1), symmetric])
    have "counts (card (alive s')) (counters s')" if "card (dom (requests s)) < 2 ^ 64"
    proof -
      have "Suc (card (alive s')) < 2 ^ 64" using card_alive [OF assms(1)] card that by linarith
      moreover have "counts (Suc (card (alive s'))) (counters s)"
        using assms(1) that card by (simp add: counting_def)
      ultimately show ?thesis unfolding i(3) by (intro counts_less)
    qed
    then show ?thesis using assms(1) dom h i(3)
      by (simp add: counting_def no_timeouts_uncount counts_all_less)
  qed
qed

lemma counting_new:
  assumes "counting F s" "requests s i = None"
  shows "counting F (newHandler E connect i s)"
proof -
  let ?s = "newHandler E connect i s"
  have dom: "dom (requests ?s) = insert i (dom (requests s))"
    by (auto simp: newHandler_def set_request_def Let_def)
  have fresh: "i \<notin> alive s" using assms(2) by (simp add: alive_def)
  have alive: "alive ?s = (if connect then alive s else insert i (alive s))"
    using fresh by (auto simp: newHandler_def set_request_def Let_def alive_def split: if_splits)
  have freshh: "i \<notin> handlers s" using assms(2) by (simp add: handlers_def)
  have handlers: "handlers ?s = (if connect then handlers s else insert i (handlers s))"
    using freshh by (auto simp: newHandler_def set_request_def Let_def handlers_def split: if_splits)
  have "finite (handlers s)" using assms(1)
    by (rule_tac finite_subset [of _ "dom (requests s)"]) (auto simp: handlers_def counting_def)
  then have all: "counts_all (MAX_REQUESTS_PER_IO_THREAD F) (card (handlers ?s)) (counters ?s)"
    using assms(1) freshh handlers counts_all_more unfolding counting_def
    by (cases connect) (simp_all add: newHandler_def Let_def set_request_def)
  have fin: "finite (alive s)" using assms(1) by (rule finite_alive)
  have counters: "counters ?s = (if connect then counters s else count_request (counters s))"
    by (simp add: newHandler_def Let_def set_request_def)
  have "card (dom (requests s)) \<le> card (dom (requests ?s))"
    unfolding dom using assms(1) by (intro card_mono) (auto simp: counting_def)
  then have counts: "counts (card (alive ?s)) (counters ?s)" if "card (dom (requests ?s)) < 2 ^ 64"
    using assms(1) that fin fresh counts_more [of "card (alive s)" "counters s"]
    unfolding alive counters by (cases connect) (simp_all add: counting_def)
  have "no_timeouts (counters ?s)" "finite (dom (requests ?s))"
    "m_maxValue (m_currentRequests (counters ?s)) = m_maxValue (m_currentRequests (counters s))"
    using assms(1) unfolding dom counters by (simp_all add: counting_def no_timeouts_count)
  then show ?thesis using assms(1) counts all unfolding counting_def by simp
qed

lemma counting_step: "web_step orderly E s s' \<Longrightarrow> counting F s \<Longrightarrow> counting F s'"
proof (induction rule: web_step.induct)
  case (accept s n)
  then show ?case by (simp add: counting_def alive_def handlers_def no_timeouts_accept counts_accept counts_all_accept)
next
  case (stop s)
  then show ?case by (simp add: counting_def alive_def handlers_def)
next
  case (opened s i connect)
  then show ?case by (simp add: counting_new)
next
  case (eom s i r r1 outcome)
  then show ?case using counting_tally kept_tally [OF kept_eom] by blast
qed (blast intro: counting_tally tally_headers tally_error tally_detach kept_tally kept_body kept_work)+

interpretation counting: inductive_invariant "\<lambda>s. s = server_start F" "web_step orderly E" "counting F"
  for F :: "'a counter_flags_scheme" and orderly and E :: "('h, 'b) web_env"
  by unfold_locales (auto simp: counting_start intro: counting_step)

lemma overload_meaning:
  assumes "counting F s" "card (dom (requests s)) < 2 ^ 64"
  shows "current_isOverloaded (m_currentRequests (counters s)) \<longleftrightarrow>
    0 < MAX_REQUESTS_PER_IO_THREAD F \<and> unat (MAX_REQUESTS_PER_IO_THREAD F) < card (alive s)"
proof -
  have "card (alive s) < 2 ^ 64" using card_alive [OF assms(1)] assms(2) by linarith
  then have "current_isOverloaded (m_currentRequests (counters s)) \<longleftrightarrow>
      unat (m_maxValue (m_currentRequests (counters s))) < card (alive s)"
    if "current_isEnabled (m_currentRequests (counters s))"
    using assms that by (intro counts_overloaded) (auto simp: counting_def)
  moreover have "\<not> unat (- 1 :: u64) < card (alive s)" using \<open>card (alive s) < 2 ^ 64\<close>
    by (simp add: unsigned_minus_1_eq_mask mask_eq_exp_minus_1)
  moreover have "\<not> m_maxValue (m_currentRequests (counters s)) < - 1 \<longleftrightarrow>
      m_maxValue (m_currentRequests (counters s)) = - 1"
    by (metis not_less word_order.extremum_unique)
  moreover have "m_maxValue (m_currentRequests (counters s)) =
      (if 0 < MAX_REQUESTS_PER_IO_THREAD F then MAX_REQUESTS_PER_IO_THREAD F else - 1)"
    using assms(1) by (simp add: counting_def)
  ultimately show ?thesis by (auto simp: current_isOverloaded_def current_isEnabled_def)
qed

lemma counter_meaning:
  assumes "counting F s" "card (dom (requests s)) < 2 ^ 64"
  shows "unat (m_value (m_currentRequests (counters s))) =
    (if MAX_REQUESTS_PER_IO_THREAD F = 0 then 0
     else if MAX_REQUESTS_PER_IO_THREAD F = - 1 then card (handlers s)
     else card (alive s))"
proof -
  let ?c = "m_currentRequests (counters s)"
  have "handlers s \<subseteq> dom (requests s)" by (auto simp: handlers_def)
  then have h: "card (handlers s) < 2 ^ 64"
    using card_mono [of "dom (requests s)" "handlers s"] assms by (simp add: counting_def)
  have a: "card (alive s) < 2 ^ 64" using card_alive [OF assms(1)] assms(2) by linarith
  have all: "counts_all (MAX_REQUESTS_PER_IO_THREAD F) (card (handlers s)) (counters s)"
    and live: "counts (card (alive s)) (counters s)"
    and m: "m_maxValue ?c = (if 0 < MAX_REQUESTS_PER_IO_THREAD F then MAX_REQUESTS_PER_IO_THREAD F else - 1)"
    using assms by (simp_all add: counting_def)
  show ?thesis
  proof (cases "MAX_REQUESTS_PER_IO_THREAD F = 0 \<or> MAX_REQUESTS_PER_IO_THREAD F = - 1")
    case True
    then show ?thesis using all h unat_of_nat_small [where 'w = 64, of "card (handlers s)"]
      by (auto simp: counts_all_def)
  next
    case False
    then have "current_isEnabled ?c" using m
      by (auto simp: current_isEnabled_def word_gt_0) (metis not_less word_order.extremum_unique)
    then show ?thesis using False live a unat_of_nat_small [where 'w = 64, of "card (alive s)"]
      by (simp add: counts_def)
  qed
qed

end
