(* ===== verification/Web_Answers.thy ===== *)
theory Web_Answers
  imports Web_Counting
begin

text \<open>
  In the normal course of requests (\<open>orderly\<close> steps) the web server never uses a deleted
  object and answers every request at most once, with the response of the application or one of
  the error responses. Outside of it, deleted handlers are used.
\<close>

subsection \<open>Answers\<close>

definition answers :: "('h, 'b) web_env \<Rightarrow> ('h, 'b) message \<Rightarrow> ('h, 'b) message set" where
  "answers E request =
     {setDefaulServerError (http E) (Message (http E)), setTimeOutServerError (http E) (Message (http E)),
      setTooManyRequestsError (http E) (Message (http E)), setServiceUnavailableError (http E) (Message (http E))} \<union>
     {m. makeResponse E request = Some m}"

definition answer_calls :: "('h, 'b) web_env \<Rightarrow> ('h, 'b) message \<Rightarrow> ('h, 'b) txn_call list" where
  "answer_calls E m = snd (rh_send_unguarded (http E) \<lparr>m_msg = m, m_sendEOM = True, m_wasSent = False\<rparr>)"

text \<open>The interim response to a client that waits for it.\<close>

definition continue_call :: "('h, 'b) web_env \<Rightarrow> ('h, 'b) txn_call list" where
  "continue_call E = snd (rb_send (http E) (rb_status (http E) 100 ''Continue'' ResponseBuilder))"

definition continued :: "('h, 'b) web_env \<Rightarrow> ('h, 'b) txn_call list \<Rightarrow> bool" where
  "continued E cs \<longleftrightarrow> cs = [] \<or> cs = continue_call E"

lemma answers_std [simp]:
  "setDefaulServerError (http E) (Message (http E)) \<in> answers E q"
  "setTimeOutServerError (http E) (Message (http E)) \<in> answers E q"
  "setTooManyRequestsError (http E) (Message (http E)) \<in> answers E q"
  "setServiceUnavailableError (http E) (Message (http E)) \<in> answers E q"
  by (simp_all add: answers_def)

lemma answers_app: "makeResponse E q = Some m \<Longrightarrow> m \<in> answers E q"
  by (simp add: answers_def)

lemma no_EOM_continued: "continued E cs \<Longrightarrow> SendEOM \<notin> set cs"
  by (auto simp: continued_def continue_call_def rb_send_def rb_status_def ResponseBuilder_def body_calls_def)

lemma EOM_answer: "SendEOM \<in> set (answer_calls E m)"
  by (simp add: answer_calls_def rh_send_unguarded_def Let_def)

lemma EOM_reject: "SendEOM \<in> set (rejectUpgradeRequest G)"
  by (simp add: rejectUpgradeRequest_def)

text \<open>A response handler that sends its message once, whole.\<close>

lemma send_answer:
  assumes "m_sendEOM rh" "\<not> m_wasSent rh"
  shows "rh_send (http E) rh =
    (rh\<lparr>m_msg := moved_message, m_wasSent := True\<rparr>, answer_calls E (m_msg rh))"
proof -
  obtain m e w where rh: "rh = \<lparr>m_msg = m, m_sendEOM = e, m_wasSent = w\<rparr>" by (cases rh) auto
  show ?thesis using assms
    by (simp add: rh rh_send_def answer_calls_def rh_send_unguarded_def Let_def)
qed

lemma sendWithEOM_answer:
  assumes "\<not> m_wasSent rh"
  shows "sendWithEOM (http E) rh =
    (rh\<lparr>m_msg := moved_message, m_sendEOM := True, m_wasSent := True\<rparr>, answer_calls E (m_msg rh))"
  using assms by (simp add: sendWithEOM_def send_answer)

lemma send_again: "m_wasSent rh \<Longrightarrow> rh_send G rh = (rh, [])"
  by (simp add: rh_send_def)

subsection \<open>The invariant of a request\<close>

text \<open>A request behind the filter for CONNECT, and an ordinary one.\<close>

definition connect_ok :: "('h, 'b) web_env \<Rightarrow> work_place \<Rightarrow> ('h, 'b) request \<Rightarrow> bool" where
  "connect_ok E p r \<longleftrightarrow> p = Idle \<and> \<not> has_acceptor r \<and> handler_alive r = filter_upstream r \<and>
     filter_alive r = adaptor_alive r \<and>
     (\<exists>pre. continued E pre \<and>
        calls r = pre @ (if filter_upstream r then [] else rejectUpgradeRequest (http E)))"

definition unanswered :: "('h, 'b) web_env \<Rightarrow> work_place \<Rightarrow> ('h, 'b) message \<Rightarrow> ('h, 'b) request \<Rightarrow> bool" where
  "unanswered E p m r \<longleftrightarrow> adaptor_alive r \<and> continued E (calls r) \<and>
     (ingress_done r \<or> p = Idle \<and> m_msg (m_responseHandler r) = Message (http E)) \<and>
     (p = Working \<longrightarrow> m \<in> answers E (m_requestMessage r)) \<and>
     (p = Posted \<longrightarrow> m_msg (m_responseHandler r) \<in> answers E (m_requestMessage r))"

definition answered :: "('h, 'b) web_env \<Rightarrow> work_place \<Rightarrow> ('h, 'b) request \<Rightarrow> bool" where
  "answered E p r \<longleftrightarrow> p = Idle \<and> ingress_done r \<and>
     (\<exists>pre a. continued E pre \<and> a \<in> answers E (m_requestMessage r) \<and> calls r = pre @ answer_calls E a)"

definition ordinary_ok :: "('h, 'b) web_env \<Rightarrow> work_place \<Rightarrow> ('h, 'b) message \<Rightarrow> ('h, 'b) request \<Rightarrow> bool" where
  "ordinary_ok E p m r \<longleftrightarrow> has_acceptor r \<and> handler_alive r = adaptor_alive r \<and>
     m_sendEOM (m_responseHandler r) \<and>
     (if m_wasSent (m_responseHandler r) then answered E p r else unanswered E p m r)"

definition request_ok :: "('h, 'b) web_env \<Rightarrow> work_place \<Rightarrow> ('h, 'b) message \<Rightarrow> ('h, 'b) request \<Rightarrow> bool" where
  "request_ok E p m r \<longleftrightarrow> err r = kErrorNone \<and>
     (if filter r then connect_ok E p r else ordinary_ok E p m r)"

definition serving_ok :: "('h, 'b) web_env \<Rightarrow> ('h, 'b) server \<Rightarrow> bool" where
  "serving_ok E s \<longleftrightarrow> \<not> use_after_free s \<and>
     (\<forall>i. requests s i = None \<longrightarrow> place s i = Idle) \<and>
     (\<forall>i r. requests s i = Some r \<longrightarrow> request_ok E (place s i) (computed s i) r)"

lemma serving_okD:
  assumes "serving_ok E s"
  shows "\<not> use_after_free s" "requests s i = None \<Longrightarrow> place s i = Idle"
    "requests s i = Some r \<Longrightarrow> request_ok E (place s i) (computed s i) r"
  using assms unfolding serving_ok_def by blast+

text \<open>Steps change one request.\<close>

lemma serving_update:
  assumes "serving_ok E s" "request_ok E (place s' i) (computed s' i) r"
    and "requests s' = (requests s)(i \<mapsto> r)" "use_after_free s' = use_after_free s"
    and "\<And>j. j \<noteq> i \<Longrightarrow> place s' j = place s j \<and> computed s' j = computed s j"
  shows "serving_ok E s'"
  unfolding serving_ok_def
proof (intro conjI allI impI)
  show "\<not> use_after_free s'" using assms(1,4) by (simp add: serving_ok_def)
  fix j
  show "place s' j = Idle" if "requests s' j = None"
    using that assms(3,5) serving_okD(2) [OF assms(1), of j] by (cases "j = i") auto
  fix q
  show "request_ok E (place s' j) (computed s' j) q" if "requests s' j = Some q"
    using that assms(2,3,5) serving_okD(3) [OF assms(1), of j q] by (cases "j = i") auto
qed

lemma serving_set:
  assumes "serving_ok E s" "request_ok E (place s i) (computed s i) r"
  shows "serving_ok E (set_request i r s)"
  by (rule serving_update [where i = i and r = r and s = s])
      (use assms in \<open>auto simp: set_request_def\<close>)

lemma serving_delete:
  assumes "serving_ok E s" "handler_alive r" "request_ok E (place s i) (computed s i) (r\<lparr>handler_alive := False\<rparr>)"
  shows "serving_ok E (delete_handler i r s)"
  by (rule serving_update [where i = i and r = "r\<lparr>handler_alive := False\<rparr>" and s = s])
      (use assms in \<open>auto simp: delete_handler_def set_request_def Let_def\<close>)

lemma serving_counters: "serving_ok E s \<Longrightarrow> serving_ok E (s\<lparr>counters := c\<rparr>)"
  "serving_ok E s \<Longrightarrow> serving_ok E (s\<lparr>stopRequested := b\<rparr>)"
  by (simp_all add: serving_ok_def)

subsection \<open>Steps keep the invariant\<close>

lemma request_ok_new:
  "request_ok E Idle m \<lparr>handler_alive = True, has_acceptor = \<not> connect, m_requestMessage = Message (http E),
     m_responseHandler = setEOMOnSend True (ResponseHandler (http E)),
     filter = connect, filter_upstream = True, filter_alive = connect,
     adaptor_alive = True, err = kErrorNone, responseStarted = False, calls = [], ingress_done = False\<rparr>"
  by (simp add: request_ok_def connect_ok_def ordinary_ok_def unanswered_def continued_def setEOMOnSend_def
      ResponseHandler_def)

lemma serving_new:
  assumes "serving_ok E s" "requests s i = None"
  shows "serving_ok E (newHandler E connect i s)"
proof -
  have "place s i = Idle" using assms by (rule serving_okD(2))
  then show ?thesis
    using assms(1) request_ok_new [of E "computed s i" connect]
    unfolding newHandler_def Let_def by (intro serving_counters serving_set) simp_all
qed

text \<open>Answering a request that is received and not answered yet.\<close>

lemma ordinary_answer:
  assumes "request_ok E p m r" "\<not> filter r" "ingress_done r" "\<not> m_wasSent (m_responseHandler r)"
    and "a \<in> answers E (m_requestMessage r)" "m_sendEOM rh" "m_wasSent rh"
  shows "request_ok E Idle m' (adaptor_calls (answer_calls E a) (r\<lparr>m_responseHandler := rh\<rparr>))"
  using assms by (auto simp: request_ok_def ordinary_ok_def unanswered_def answered_def adaptor_calls_def)

lemma respond_with:
  assumes "request_ok E p m r" "\<not> filter r" "ingress_done r" "\<not> m_wasSent (m_responseHandler r)"
    and "a \<in> answers E (m_requestMessage r)"
  shows "request_ok E Idle m' (respond (\<lambda>rh. sendWithEOM (http E) (setResponseMsg a rh)) r)"
  using ordinary_answer [OF assms, of "(m_responseHandler r)\<lparr>m_msg := moved_message, m_sendEOM := True, m_wasSent := True\<rparr>"]
    assms(2,4) by (simp add: respond_def sendWithEOM_answer setResponseMsg_def handler_calls_def)

lemma serving_headers:
  assumes "serving_ok E s" "requests s i = Some r" "adaptor_alive r" "calls r = []" "\<not> ingress_done r"
    and "expected E h"
  shows "serving_ok E (onHeadersComplete E h i r s)"
proof -
  have ok: "request_ok E (place s i) (computed s i) r" using assms(1,2) by (rule serving_okD(3))
  have request: "serving_ok E (upstream_onRequest E i h (adaptor_calls cs r) s')"
    if s': "serving_ok E s'" "place s' i = place s i" "computed s' i = computed s i" and cs: "continued E cs" for cs s'
  proof (cases "filter r")
    case True
    then have "filter_alive r" "handler_alive r" "filter_upstream r" "place s i = Idle" "\<not> has_acceptor r"
      using ok assms(3,4) by (auto simp: request_ok_def connect_ok_def rejectUpgradeRequest_def split: if_splits)
    then show ?thesis using True ok assms(3,4) s' cs
      unfolding upstream_onRequest_def filter_onRequest_def
      by (auto intro!: serving_delete simp: adaptor_calls_def request_ok_def connect_ok_def)
  next
    case False
    then have "handler_alive r" "\<not> m_wasSent (m_responseHandler r)" "place s i = Idle"
      using ok assms(3,5)
      by (auto simp: request_ok_def ordinary_ok_def answered_def unanswered_def split: if_splits)
    then show ?thesis using False ok assms(3,4,5) s' cs
      unfolding upstream_onRequest_def handler_onRequest_def
      by (auto intro!: serving_set simp: adaptor_calls_def request_ok_def ordinary_ok_def unanswered_def)
  qed
  have plain: "adaptor_calls [] r = r" by (simp add: adaptor_calls_def)
  have prelude: "serving_ok E (set_request i (adaptor_calls (continue_call E) r) s)"
    by (rule serving_set)
      (use ok assms(1,3,4,5) in \<open>auto simp: adaptor_calls_def request_ok_def connect_ok_def ordinary_ok_def unanswered_def answered_def continued_def rejectUpgradeRequest_def split: if_splits\<close>)
  show ?thesis
    using assms(6) request [OF assms(1), of "[]"] request [OF prelude, of "continue_call E"] plain
    by (simp add: onHeadersComplete_def expected_def Let_def continued_def set_request_def continue_call_def)
qed

lemma serving_body:
  assumes "serving_ok E s" "requests s i = Some r" "adaptor_alive r" "\<not> ingress_done r"
  shows "serving_ok E (adaptor_onBody E b i r s)"
proof -
  have ok: "request_ok E (place s i) (computed s i) r" using assms(1,2) by (rule serving_okD(3))
  show ?thesis
  proof (cases "filter r")
    case True
    then show ?thesis using ok assms by (simp add: adaptor_onBody_def upstream_onBody_def request_ok_def connect_ok_def)
  next
    case False
    then have "handler_alive r" "\<not> m_wasSent (m_responseHandler r)" "place s i = Idle"
      using ok assms(3,4)
      by (auto simp: request_ok_def ordinary_ok_def answered_def unanswered_def split: if_splits)
    then show ?thesis using False ok assms
      unfolding adaptor_onBody_def upstream_onBody_def handler_onBody_def
      by (auto intro!: serving_set simp: request_ok_def ordinary_ok_def unanswered_def)
  qed
qed

lemma serving_handler_eom:
  assumes "serving_ok E s" "requests s i = Some r" "\<not> filter r" "handler_alive r" "ingress_done r"
    and "\<not> m_wasSent (m_responseHandler r)" "place s i = Idle" "m_msg (m_responseHandler r) = Message (http E)"
  shows "serving_ok E (handler_onEOM E outcome i r s)"
proof -
  have ok: "request_ok E Idle (computed s i) r" using serving_okD(3) [OF assms(1,2)] assms(7) by simp
  have answer: "serving_ok E (set_request i (respond (\<lambda>rh. sendWithEOM (http E) (setResponseMsg a rh)) r) s)"
    if "a \<in> answers E (m_requestMessage r)" for a
    using respond_with [OF ok assms(3,5,6) that] assms(1,7) by (auto intro: serving_set)
  have same: "(m_responseHandler r)\<lparr>m_msg := setDefaulServerError (http E) (m_msg (m_responseHandler r))\<rparr> =
      setResponseMsg (setDefaulServerError (http E) (Message (http E))) (m_responseHandler r)"
    using assms(8) by (simp add: setResponseMsg_def)
  have error: "respond (sendDefauServerError (http E)) r =
      respond (\<lambda>rh. sendWithEOM (http E) (setResponseMsg (setDefaulServerError (http E) (Message (http E))) rh)) r"
    by (simp add: respond_def sendDefauServerError_def same)
  have queue: "serving_ok E (s\<lparr>place := (place s)(i := Queued t)\<rparr>)" for t
    by (rule serving_update [where i = i and r = r and s = s])
      (use assms ok in \<open>auto simp: request_ok_def ordinary_ok_def unanswered_def\<close>)
  show ?thesis
    using assms(1) answer error queue
    by (auto simp: handler_onEOM_def assms(4) onStopRequested_def onTooManyRequests_def onTooManyTimeouts_def
        split: add_outcome.split)
qed

lemma serving_eom:
  assumes "serving_ok E s" "requests s i = Some r" "adaptor_alive r" "\<not> ingress_done r"
  shows "serving_ok E (adaptor_onEOM E outcome i (r\<lparr>ingress_done := True\<rparr>) (set_request i (r\<lparr>ingress_done := True\<rparr>) s))"
proof -
  let ?r = "r\<lparr>ingress_done := True\<rparr>" and ?s = "set_request i (r\<lparr>ingress_done := True\<rparr>) s"
  have ok: "request_ok E (place s i) (computed s i) r" using assms(1,2) by (rule serving_okD(3))
  have s: "serving_ok E ?s" by (rule serving_set)
      (use assms ok in \<open>auto simp: request_ok_def connect_ok_def ordinary_ok_def answered_def unanswered_def
        split: if_splits\<close>)
  have r: "requests ?s i = Some ?r" "place ?s i = place s i" by (simp_all add: set_request_def)
  show ?thesis
  proof (cases "filter r")
    case True
    then show ?thesis using ok s assms(3)
      by (simp add: adaptor_onEOM_def upstream_onEOM_def request_ok_def connect_ok_def)
  next
    case False
    then have "handler_alive r" "\<not> m_wasSent (m_responseHandler r)" "place s i = Idle"
      "m_msg (m_responseHandler r) = Message (http E)"
      using ok assms(3,4)
      by (auto simp: request_ok_def ordinary_ok_def answered_def unanswered_def split: if_splits)
    then show ?thesis using serving_handler_eom [OF s r(1)] False s r(2)
      by (simp add: adaptor_onEOM_def upstream_onEOM_def)
  qed
qed

lemma serving_detach:
  assumes "serving_ok E s" "requests s i = Some r" "adaptor_alive r" "SendEOM \<in> set (calls r)"
    and "detachTransaction i r s = Some s'"
  shows "serving_ok E s'"
proof -
  have ok: "request_ok E (place s i) (computed s i) r" using assms(1,2) by (rule serving_okD(3))
  show ?thesis
  proof (cases "filter r")
    case True
    then have "\<not> filter_upstream r" "filter_alive r"
      using ok assms(3,4) no_EOM_continued by (auto simp: request_ok_def connect_ok_def split: if_splits)
    then have s': "s' = set_request i (r\<lparr>filter_alive := False, adaptor_alive := False\<rparr>)
        (set_request i (r\<lparr>filter_alive := False\<rparr>) s)"
      using assms(5) ok True
      by (auto simp: detachTransaction_def upstream_requestComplete_def request_ok_def set_request_def)
    show ?thesis unfolding s'
      by (rule serving_update [where i = i and s = s and r = "r\<lparr>filter_alive := False, adaptor_alive := False\<rparr>"])
      (use ok True assms(1) in \<open>auto simp: set_request_def request_ok_def connect_ok_def\<close>)
  next
    case False
    then have sent: "m_wasSent (m_responseHandler r)" "handler_alive r"
      using ok assms(3,4) no_EOM_continued
      by (auto simp: request_ok_def ordinary_ok_def unanswered_def split: if_splits)
    have s': "s' = set_request i (r\<lparr>handler_alive := False, adaptor_alive := False\<rparr>) (delete_handler i r s)"
      using assms(5) ok False sent(2)
      by (auto simp: detachTransaction_def upstream_requestComplete_def request_ok_def delete_handler_def
          set_request_def Let_def)
    show ?thesis unfolding s'
      by (rule serving_update [where i = i and s = s and r = "r\<lparr>handler_alive := False, adaptor_alive := False\<rparr>"])
      (use ok False sent assms(1) in \<open>auto simp: set_request_def delete_handler_def Let_def request_ok_def
        ordinary_ok_def answered_def\<close>)
  qed
qed

lemma working_request:
  assumes "serving_ok E s" "requests s i = Some r" "place s i \<noteq> Idle"
  shows "\<not> filter r" "handler_alive r" "\<not> m_wasSent (m_responseHandler r)" "ingress_done r"
    "m_sendEOM (m_responseHandler r)"
    "place s i = Working \<Longrightarrow> computed s i \<in> answers E (m_requestMessage r)"
    "place s i = Posted \<Longrightarrow> m_msg (m_responseHandler r) \<in> answers E (m_requestMessage r)"
  using serving_okD(3) [OF assms(1,2)] assms(3)
  by (auto simp: request_ok_def connect_ok_def ordinary_ok_def answered_def unanswered_def split: if_splits)

lemma serving_work:
  assumes "serving_ok E s" "requests s i = Some r" "place s i = Queued t"
  shows "serving_ok E (functor_start E i r s)" "serving_ok E (onAppTimeout E i r s)"
proof -
  note work = working_request [OF assms(1,2)] assms(3)
  have ok: "request_ok E (place s i) (computed s i) r" using assms(1,2) by (rule serving_okD(3))
  have start: "serving_ok E (s\<lparr>place := (place s)(i := Working), computed := (computed s)(i := m)\<rparr>)"
    if "m \<in> answers E (m_requestMessage r)" for m
    by (rule serving_update [where i = i and s = s and r = r])
      (use assms work ok that in \<open>auto simp: request_ok_def ordinary_ok_def unanswered_def\<close>)
  then show "serving_ok E (functor_start E i r s)" "serving_ok E (onAppTimeout E i r s)"
    using work by (auto simp: functor_start_def onAppTimeout_def Let_def answers_app split: option.split)
qed

lemma serving_post:
  assumes "serving_ok E s" "requests s i = Some r" "place s i = Working"
  shows "serving_ok E (sendResponse posted i r s)"
proof -
  note work = working_request [OF assms(1,2)] assms(3)
  have ok: "request_ok E (place s i) (computed s i) r" using assms(1,2) by (rule serving_okD(3))
  show ?thesis using work ok assms(1) unfolding sendResponse_def
    by (auto intro!: serving_update [where i = i and s = s and
          r = "r\<lparr>m_responseHandler := setResponseMsg (computed s i) (m_responseHandler r)\<rparr>"]
        simp: set_request_def setResponseMsg_def request_ok_def ordinary_ok_def unanswered_def)
qed

lemma serving_loop:
  assumes "serving_ok E s" "requests s i = Some r" "place s i = Posted"
  shows "serving_ok E (sendFunc E i r s)"
proof -
  note work = working_request [OF assms(1,2)] assms(3)
  have ok: "request_ok E (place s i) (computed s i) r" using assms(1,2) by (rule serving_okD(3))
  let ?rh = "(m_responseHandler r)\<lparr>m_msg := moved_message, m_wasSent := True\<rparr>"
  have r: "respond (rh_send (http E)) r =
      adaptor_calls (answer_calls E (m_msg (m_responseHandler r))) (r\<lparr>m_responseHandler := ?rh\<rparr>)"
    using work by (simp add: respond_def send_answer handler_calls_def)
  have "request_ok E Idle (computed s i) (respond (rh_send (http E)) r)"
    unfolding r using work by (intro ordinary_answer [OF ok]) simp_all
  then show ?thesis using work assms(1) unfolding sendFunc_def
    by (auto intro!: serving_update [where i = i and s = s and r = "respond (rh_send (http E)) r"]
        simp: set_request_def)
qed

lemma serving_step:
  assumes "web_step orderly E s s'" "orderly" "serving_ok E s"
  shows "serving_ok E s'"
  using assms
proof (induction rule: web_step.induct)
  case (eom s i r r1 outcome)
  then show ?case by (simp add: serving_eom)
qed (simp_all add: serving_counters serving_new serving_headers serving_body serving_detach serving_work serving_post
    serving_loop)

lemma serving_start: "serving_ok E (server_start F)"
  by (simp add: serving_ok_def server_start_def)

interpretation serving: inductive_invariant "\<lambda>s. s = server_start F" "web_step True E" "serving_ok E"
  for F :: "'a counter_flags_scheme" and E :: "('h, 'b) web_env"
  by unfold_locales (auto simp: serving_start intro: serving_step)

end
