(* ===== verification/Web_Props.thy ===== *)
theory Web_Props
  imports Web_Answers
begin

text \<open>
  Properties of the web server: the responses on the wire under the documented behaviour of
  proxygen's header objects and folly's buffers, the limits, and the uses of deleted handlers.
\<close>

subsection \<open>From the end of a request to its answer\<close>

text \<open>The functor is run, posts its answer, and the loop sends it, with nothing in between.\<close>

definition at :: "(nat \<Rightarrow> ('h, 'b) request \<Rightarrow> ('h, 'b) server \<Rightarrow> ('h, 'b) server) \<Rightarrow> nat \<Rightarrow>
    ('h, 'b) server \<Rightarrow> ('h, 'b) server" where
  "at f i s = (case requests s i of None \<Rightarrow> s | Some r \<Rightarrow> f i r s)"

definition complete_request :: "('h, 'b) web_env \<Rightarrow> nat \<Rightarrow> ('h, 'b) server \<Rightarrow> ('h, 'b) server" where
  "complete_request E i s =
     (let s1 = at (adaptor_onEOM E Added) i s in
      if place s1 i = Idle then s1
      else at (sendFunc E) i (at (sendResponse True) i (at (functor_start E) i s1)))"

definition reply :: "('h, 'b) web_env \<Rightarrow> ('h, 'b) server \<Rightarrow> ('h, 'b) request \<Rightarrow> ('h, 'b) message" where
  "reply E s r =
     (if stopRequested s then setServiceUnavailableError (http E) (Message (http E))
      else if current_isOverloaded (m_currentRequests (counters s)) \<or>
        ratio_isOverloaded (m_timeoutedRequestRatio (counters s))
      then setTooManyRequestsError (http E) (Message (http E))
      else case makeResponse E (m_requestMessage r) of
        Some m \<Rightarrow> m
      | None \<Rightarrow> setDefaulServerError (http E) (Message (http E)))"

lemma complete_calls:
  assumes "requests s i = Some r" "handler_alive r" "has_acceptor r" "\<not> filter r" "err r = kErrorNone"
    and "m_sendEOM (m_responseHandler r)" "\<not> m_wasSent (m_responseHandler r)" "has_executor E" "place s i = Idle"
  shows "\<exists>r'. requests (complete_request E i s) i = Some r' \<and> calls r' = calls r @ answer_calls E (reply E s r)"
proof -
  have direct: "calls (respond (\<lambda>rh. sendWithEOM (http E) (setResponseMsg a rh)) r) = calls r @ answer_calls E a" for a
    using assms(4,7)
    by (simp add: respond_def handler_calls_def adaptor_calls_def sendWithEOM_answer setResponseMsg_def)
  have later: "calls (respond (rh_send (http E)) (r\<lparr>m_responseHandler := setResponseMsg a (m_responseHandler r)\<rparr>)) =
      calls r @ answer_calls E a" for a
    using assms(4,6,7)
    by (simp add: respond_def handler_calls_def adaptor_calls_def send_answer setResponseMsg_def)
  show ?thesis
    using assms(1-5,8,9) direct later
    by (cases "makeResponse E (m_requestMessage r)")
      (simp_all add: complete_request_def reply_def at_def adaptor_onEOM_def upstream_onEOM_def handler_onEOM_def
        onStopRequested_def onTooManyRequests_def onTooManyTimeouts_def set_request_def functor_start_def
        sendResponse_def sendFunc_def Let_def)
qed

subsection \<open>What proxygen and folly promise\<close>

text \<open>The header names the code uses.\<close>

definition header_names :: "string set" where
  "header_names = {''Content-Type'', ''Content-Length'', ''Connection''}"

locale http_contract =
  fixes G :: "('h, 'b) http_ops" and vals :: "'h \<Rightarrow> string \<Rightarrow> string list"
  assumes status_code: "hm_getStatusCode G (hm_setStatusCode G c h) = c"
    and status_kept: "hm_getStatusCode G (hm_setStatusMessage G t h) = hm_getStatusCode G h"
      "hm_getStatusCode G (hm_add G k v h) = hm_getStatusCode G h"
      "hm_getStatusCode G (hm_set G k v h) = hm_getStatusCode G h"
    and vals_new: "vals (hm_new G) k = []"
    and vals_kept: "vals (hm_setHTTPVersion G a b h) k = vals h k" "vals (hm_setStatusCode G c h) k = vals h k"
      "vals (hm_setStatusMessage G t h) k = vals h k"
    and vals_add: "k \<in> header_names \<Longrightarrow> n \<in> header_names \<Longrightarrow>
      vals (hm_add G n v h) k = vals h k @ (if n = k then [v] else [])"
    and vals_set: "k \<in> header_names \<Longrightarrow> n \<in> header_names \<Longrightarrow>
      vals (hm_set G n v h) k = (if n = k then [v] else vals h k)"
    and single: "hm_getSingleOrEmpty G k h = (case vals h k of [v] \<Rightarrow> v | _ \<Rightarrow> [])"
    and copy_length: "buf_chainLength G (buf_copy G s) = length s"
begin

lemmas laws = status_code status_kept vals_new vals_kept vals_add vals_set

lemma names [simp]: "''Content-Type'' \<in> header_names" "''Content-Length'' \<in> header_names"
  "''Connection'' \<in> header_names"
  by (simp_all add: header_names_def)

text \<open>A message with headers is sent in one piece, with its length.\<close>

lemma answer_on_wire:
  assumes "http E = G" "m_headers m = Some h" "200 \<le> hm_getStatusCode G h"
  shows "\<exists>h'. answer_calls E m = SendHeaders h' # body_calls G False (m_body m) @ [SendEOM] \<and>
    hm_getStatusCode G h' = hm_getStatusCode G h \<and>
    vals h' ''Content-Length'' = vals h ''Content-Length'' @
      [to_string (case m_body m of Some b \<Rightarrow> buf_chainLength G b | None \<Rightarrow> 0)]"
  using assms by (simp add: answer_calls_def rh_send_unguarded_def Let_def sent_headers_def laws)

lemma status_message:
  "\<exists>h. m_headers (set_status G c t (Message G)) = Some h \<and> hm_getStatusCode G h = c \<and>
     (\<forall>k. vals h k = [])"
  by (simp add: set_status_def Message_def Message_with_def laws)

definition plain_message :: "nat \<Rightarrow> ('h, 'b) message \<Rightarrow> bool" where
  "plain_message c m \<longleftrightarrow>
     (\<exists>h. m_headers m = Some h \<and> hm_getStatusCode G h = c \<and> vals h ''Content-Length'' = [])"

lemma error_messages:
  "plain_message 500 (setDefaulServerError G (Message G))"
  "plain_message 429 (setTooManyRequestsError G (Message G))"
  "plain_message 503 (setServiceUnavailableError G (Message G))"
  unfolding plain_message_def
  using status_message
  by (auto simp: setDefaulServerError_def setTooManyRequestsError_def setServiceUnavailableError_def clearBody_def
      setHeader_def set_status_def Message_def Message_with_def PROTOCOL_SERVER_ERROR_def
      PROTOCOL_TOO_MANY_REQUESTS_def PROTOCOL_SERVICE_UNAVAILABLE_def laws)

lemma plain_on_wire:
  assumes "http E = G" "plain_message c m" "200 \<le> c"
  shows "\<exists>h'. answer_calls E m = SendHeaders h' # body_calls G False (m_body m) @ [SendEOM] \<and>
    hm_getStatusCode G h' = c \<and> hm_getSingleOrEmpty G ''Content-Length'' h' =
      to_string (case m_body m of Some b \<Rightarrow> buf_chainLength G b | None \<Rightarrow> 0)"
proof -
  obtain h where "m_headers m = Some h" "hm_getStatusCode G h = c" "vals h ''Content-Length'' = []"
    using assms(2) unfolding plain_message_def by blast
  then show ?thesis using answer_on_wire [OF assms(1), of m h] assms(3) by (auto simp: single)
qed

lemma reply_on_wire:
  assumes "http E = G" "requests s i = Some r" "handler_alive r" "has_acceptor r" "\<not> filter r"
    and "err r = kErrorNone" "m_sendEOM (m_responseHandler r)" "\<not> m_wasSent (m_responseHandler r)"
    and "has_executor E" "place s i = Idle" "plain_message c (reply E s r)" "200 \<le> c"
  shows "\<exists>r' h'. requests (complete_request E i s) i = Some r' \<and>
    calls r' = calls r @ SendHeaders h' # body_calls G False (m_body (reply E s r)) @ [SendEOM] \<and>
    hm_getStatusCode G h' = c \<and> hm_getSingleOrEmpty G ''Content-Length'' h' =
      to_string (case m_body (reply E s r) of Some b \<Rightarrow> buf_chainLength G b | None \<Rightarrow> 0)"
  using complete_calls [OF assms(2-10)] plain_on_wire [OF assms(1,11,12)] by metis

lemma user_error_sent:
  assumes "\<not> m_wasSent rh"
  shows "\<exists>h. snd (sendDefaulUserError G content rh) = [SendHeaders h, SendBody (buf_copy G content), SendEOM] \<and>
    vals h ''Content-Length'' = [to_string (length content), to_string (length content)] \<and>
    hm_getSingleOrEmpty G ''Content-Length'' h = []"
  using assms
  by (simp add: sendDefaulUserError_def sendWithEOM_def rh_send_def rh_send_unguarded_def SetDefaulUserError_def
      set_status_def setHeader_def sent_headers_def body_calls_def PROTOCOL_BAD_REQUEST_def copy_length laws single
      Let_def)

end

text \<open>Headers as a list of fields and buffers as strings have the promised behaviour.\<close>

record header_list =
  hl_code :: nat
  hl_text :: string
  hl_fields :: "(string \<times> string) list"
  hl_chunked :: bool

definition list_http :: "(header_list, string) http_ops" where
  "list_http =
     \<lparr>hm_new = \<lparr>hl_code = 0, hl_text = [], hl_fields = [], hl_chunked = False\<rparr>,
      hm_setHTTPVersion = (\<lambda>a b h. h),
      hm_setStatusCode = (\<lambda>c h. h\<lparr>hl_code := c\<rparr>),
      hm_setStatusMessage = (\<lambda>t h. h\<lparr>hl_text := t\<rparr>),
      hm_getStatusCode = hl_code,
      hm_setIsChunked = (\<lambda>h. h\<lparr>hl_chunked := True\<rparr>),
      hm_isResponse = (\<lambda>h. hl_code h \<noteq> 0),
      hm_constructDirectResponse = (\<lambda>c t h. h\<lparr>hl_code := c, hl_text := t\<rparr>),
      hm_setURL = (\<lambda>u h. h),
      hm_add = (\<lambda>k v h. h\<lparr>hl_fields := hl_fields h @ [(k, v)]\<rparr>),
      hm_set = (\<lambda>k v h. h\<lparr>hl_fields := [f \<leftarrow> hl_fields h. fst f \<noteq> k] @ [(k, v)]\<rparr>),
      hm_remove = (\<lambda>k h. (h\<lparr>hl_fields := [f \<leftarrow> hl_fields h. fst f \<noteq> k]\<rparr>, k \<in> set (map fst (hl_fields h)))),
      hm_getSingleOrEmpty =
        (\<lambda>k h. case map snd [f \<leftarrow> hl_fields h. fst f = k] of [v] \<Rightarrow> v | _ \<Rightarrow> []),
      hm_exists = (\<lambda>k h. k \<in> set (map fst (hl_fields h))),
      buf_copy = (\<lambda>s. s), buf_prependChain = (@), buf_chainLength = length\<rparr>"

definition list_vals :: "header_list \<Rightarrow> string \<Rightarrow> string list" where
  "list_vals h k = map snd [f \<leftarrow> hl_fields h. fst f = k]"

lemma filter_other: "[f \<leftarrow> fs. fst f \<noteq> n \<and> fst f = k] = (if n = k then [] else [f \<leftarrow> fs. fst f = k])"
  by (auto intro!: filter_cong simp: filter_empty_conv)

interpretation list_http: http_contract list_http list_vals
  by unfold_locales (simp_all add: list_http_def list_vals_def filter_other)

definition sample_env :: "(header_list, string) web_env" where
  "sample_env =
     \<lparr>http = list_http, getTimeOut = (\<lambda>_. 0),
      makeResponse = (\<lambda>m. Some (fst (appendBodyFromExe list_http ''hello''
        (set_status list_http 200 ''OK'' (Message list_http))))),
      iequals = (=), has_executor = True\<rparr>"

definition sample_flags :: counter_flags where
  "sample_flags =
     \<lparr>ENABLE_CONNECT_COUNTER = False, ENABLE_REGECTED_CONNECT_COUNTER = False, ENABLE_REQUEST_COUNTER = False,
      ENABLE_TIMEOUTED_REQUEST_COUNTER = False, MAX_CONNECTIONS_PER_IO_THREAD = 0,
      MAX_REQUESTS_PER_IO_THREAD = 1, MAX_TIMEOUTED_REQUEST_RATIO = 0\<rparr>"

lemma sample_opened:
  "requests (newHandler sample_env False 0 (server_start sample_flags)) 0 =
    Some \<lparr>handler_alive = True, has_acceptor = True, m_requestMessage = Message list_http,
      m_responseHandler = setEOMOnSend True (ResponseHandler list_http),
      filter = False, filter_upstream = True, filter_alive = False, adaptor_alive = True,
      err = kErrorNone, responseStarted = False, calls = [], ingress_done = False\<rparr>"
  by (simp add: newHandler_def Let_def set_request_def sample_env_def)

subsection \<open>Properties\<close>

text \<open>
  Property C22: as long as every transaction keeps to its normal course, with any number of
  requests and any interleaving of the event loop, the acceptor and the workers, no deleted
  object is used, and every request gets at most one answer. The normal course: no errors of the
  transaction, headers before body before the end of the message, an expectation only if the
  server supports it, and the transaction detached only after its response was sent. An ordinary
  request is answered after it was received, with the whole response of the application for that
  request or one of the four error responses; a CONNECT request with the rejection of the filter;
  each after at most one interim response.
\<close>

theorem web_one_answer:
  assumes "(web_step True E)\<^sup>*\<^sup>* (server_start F) s"
  shows "\<not> use_after_free s \<and>
    (\<forall>i r. requests s i = Some r \<longrightarrow>
       (\<exists>pre. continued E pre \<and>
          (calls r = pre \<or>
           (if filter r then calls r = pre @ rejectUpgradeRequest (http E)
            else ingress_done r \<and>
              (\<exists>a \<in> answers E (m_requestMessage r). calls r = pre @ answer_calls E a)))))"
proof -
  have ok: "serving_ok E s" using serving.reachable_inv [OF refl assms] .
  have "\<exists>pre. continued E pre \<and>
      (calls r = pre \<or>
       (if filter r then calls r = pre @ rejectUpgradeRequest (http E)
        else ingress_done r \<and> (\<exists>a \<in> answers E (m_requestMessage r). calls r = pre @ answer_calls E a)))"
    if "requests s i = Some r" for i r
    using serving_okD(3) [OF ok that(1)]
    by (auto simp: request_ok_def ordinary_ok_def connect_ok_def answered_def unanswered_def split: if_splits)
  then show ?thesis using serving_okD(1) [OF ok] by blast
qed

text \<open>An execution: a request is opened and received, worked on, and its answer sent by the loop.\<close>

definition end_message :: "('h, 'b) web_env \<Rightarrow> nat \<Rightarrow> ('h, 'b) request \<Rightarrow> ('h, 'b) server \<Rightarrow> ('h, 'b) server" where
  "end_message E i r s =
     adaptor_onEOM E Added i (r\<lparr>ingress_done := True\<rparr>) (set_request i (r\<lparr>ingress_done := True\<rparr>) s)"

definition sample1 :: "(header_list, string) server" where
  "sample1 = newHandler sample_env False 0 (server_start sample_flags)"

definition sample2 :: "(header_list, string) server" where
  "sample2 = at (onHeadersComplete sample_env (hm_new list_http)) 0 sample1"

definition sample3 :: "(header_list, string) server" where
  "sample3 = at (end_message sample_env) 0 sample2"

definition sample4 :: "(header_list, string) server" where
  "sample4 = at (functor_start sample_env) 0 sample3"

definition sample5 :: "(header_list, string) server" where
  "sample5 = at (sendResponse True) 0 sample4"

definition sample6 :: "(header_list, string) server" where
  "sample6 = at (sendFunc sample_env) 0 sample5"

lemmas sample_defs = sample1_def sample2_def sample3_def sample4_def sample5_def sample6_def

lemma sample_run: "(web_step True sample_env)\<^sup>*\<^sup>* (server_start sample_flags) sample6"
proof -
  let ?W = "web_step True sample_env"
  obtain r1 where r1: "requests sample1 0 = Some r1" "adaptor_alive r1" "calls r1 = []" "\<not> ingress_done r1"
    by (simp add: sample1_def sample_opened)
  have "\<not> hm_exists list_http ''Expect'' (hm_new list_http)" by code_simp
  then have e: "expected sample_env (hm_new list_http)" by (simp add: expected_def sample_env_def)
  have s1: "?W (server_start sample_flags) sample1"
    unfolding sample1_def by (rule web_step.opened) (simp add: server_start_def)
  have s2: "?W sample1 sample2"
    using web_step.headers [of sample1 0 r1 True sample_env "hm_new list_http"] r1 e
    by (simp add: sample2_def at_def)
  have f2: "map_option (\<lambda>r. (adaptor_alive r, ingress_done r)) (requests sample2 0) = Some (True, False)"
    by code_simp
  then obtain r2 where r2: "requests sample2 0 = Some r2" "adaptor_alive r2" "\<not> ingress_done r2" by auto
  have s3: "?W sample2 sample3"
    using web_step.eom [of sample2 0 r2 True _ sample_env Added, OF _ _ _ refl] r2
    by (simp add: sample3_def at_def end_message_def)
  have "requests sample3 0 \<noteq> None" "place sample3 0 = Queued 0" by code_simp+
  then have s4: "?W sample3 sample4"
    using web_step.work [of sample3 0 _ 0 True sample_env] by (auto simp: sample4_def at_def)
  have "requests sample4 0 \<noteq> None" "place sample4 0 = Working" by code_simp+
  then have s5: "?W sample4 sample5"
    using web_step.post [of sample4 0 _ True sample_env True] by (auto simp: sample5_def at_def)
  have "requests sample5 0 \<noteq> None" "place sample5 0 = Posted" by code_simp+
  then have s6: "?W sample5 sample6"
    using web_step.loop [of sample5 0 _ True sample_env] by (auto simp: sample6_def at_def)
  show ?thesis using s1 s2 s3 s4 s5 s6
    by (meson rtranclp.rtrancl_refl rtranclp.rtrancl_into_rtrancl)
qed

theorem web_one_answer_witness:
  "\<not> use_after_free sample6 \<and>
   (\<exists>r pre. requests sample6 0 = Some r \<and> \<not> filter r \<and> ingress_done r \<and> continued sample_env pre \<and>
     (\<exists>a \<in> answers sample_env (m_requestMessage r). calls r = pre @ answer_calls sample_env a))"
proof -
  have "map_option (\<lambda>r. (filter r, length (calls r))) (requests sample6 0) = Some (False, 3)"
    by code_simp
  then obtain r where r: "requests sample6 0 = Some r" "\<not> filter r" "length (calls r) = 3" by auto
  have "length (continue_call sample_env) = 1" by code_simp
  then have c: "length pre \<le> 1" if "continued sample_env pre" for pre
    using that by (auto simp: continued_def)
  note all = web_one_answer [OF sample_run]
  from all [THEN conjunct2, rule_format, OF r(1)] r(2) obtain pre where p: "continued sample_env pre"
    "calls r = pre \<or> ingress_done r \<and>
      (\<exists>a \<in> answers sample_env (m_requestMessage r). calls r = pre @ answer_calls sample_env a)"
    by auto
  have "calls r \<noteq> pre" using c [OF p(1)] r(3) by auto
  then show ?thesis using all r p by blast
qed

text \<open>
  Property C23: in every execution, normal or not, in which fewer than \<open>2 ^ 64\<close> requests are
  opened: the counter of current requests is the number of handlers that are alive and not behind
  the filter for CONNECT, if a limit between 1 and \<open>2 ^ 64 - 2\<close> is set; it stays 0 without a limit
  (0), and counts all handlers ever made with the limit \<open>2 ^ 64 - 1\<close>. The server counts as
  overloaded exactly while more such handlers are alive than the limit allows (never with the
  limits 0 and \<open>2 ^ 64 - 1\<close>), and never because too many requests timed out: nothing counts them.
\<close>

theorem web_limits:
  assumes "(web_step orderly E)\<^sup>*\<^sup>* (server_start F) s" "card (dom (requests s)) < 2 ^ 64"
  shows "unat (m_value (m_currentRequests (counters s))) =
      (if MAX_REQUESTS_PER_IO_THREAD F = 0 then 0
       else if MAX_REQUESTS_PER_IO_THREAD F = - 1 then card {i. \<exists>r. requests s i = Some r \<and> has_acceptor r}
       else card {i. \<exists>r. requests s i = Some r \<and> handler_alive r \<and> has_acceptor r}) \<and>
    (current_isOverloaded (m_currentRequests (counters s)) \<longleftrightarrow>
      0 < MAX_REQUESTS_PER_IO_THREAD F \<and>
      unat (MAX_REQUESTS_PER_IO_THREAD F) <
        card {i. \<exists>r. requests s i = Some r \<and> handler_alive r \<and> has_acceptor r}) \<and>
    \<not> ratio_isOverloaded (m_timeoutedRequestRatio (counters s))"
proof -
  have ok: "counting F s" using counting.reachable_inv [OF refl assms(1)] .
  then show ?thesis
    using overload_meaning [OF ok assms(2)] counter_meaning [OF ok assms(2)] no_timeouts_ratio
    by (simp add: counting_def alive_def handlers_def)
qed

text \<open>Two ordinary requests and a CONNECT request, with the limit 1.\<close>

definition sample_three :: "(header_list, string) server" where
  "sample_three = newHandler sample_env True 2 (newHandler sample_env False 1
     (newHandler sample_env False 0 (server_start sample_flags)))"

lemma sample_three_run: "(web_step False sample_env)\<^sup>*\<^sup>* (server_start sample_flags) sample_three"
proof -
  let ?a = "newHandler sample_env False 0 (server_start sample_flags)"
  let ?b = "newHandler sample_env False 1 ?a"
  have "web_step False sample_env (server_start sample_flags) ?a"
    by (rule web_step.opened) (simp add: server_start_def)
  moreover have "web_step False sample_env ?a ?b"
    by (rule web_step.opened) (simp add: newHandler_def Let_def set_request_def server_start_def)
  moreover have "web_step False sample_env ?b sample_three" unfolding sample_three_def
    by (rule web_step.opened) (simp add: newHandler_def Let_def set_request_def server_start_def)
  ultimately show ?thesis by (meson rtranclp.rtrancl_refl rtranclp.rtrancl_into_rtrancl)
qed

lemma sample_three_requests:
  "dom (requests sample_three) = {0, 1, 2}"
  "{i. \<exists>r. requests sample_three i = Some r \<and> handler_alive r \<and> has_acceptor r} = {0, 1}"
  by (auto simp: sample_three_def newHandler_def Let_def set_request_def server_start_def split: if_splits)

theorem web_limits_witness:
  "unat (m_value (m_currentRequests (counters sample_three))) = 2 \<and>
   current_isOverloaded (m_currentRequests (counters sample_three))"
proof -
  have "card (dom (requests sample_three)) < 2 ^ 64" by (simp add: sample_three_requests)
  from web_limits [OF sample_three_run this] show ?thesis
    unfolding sample_three_requests by (simp add: sample_flags_def)
qed

text \<open>
  Property C24: when an ordinary request has been received and the executor takes the work, the
  transaction gets one whole response with its length: status 503 while the server stops, 429
  while it is overloaded, else the status of the application's response, or 500 if the
  application throws.
\<close>

theorem web_request_answered:
  assumes "http_contract (http E) vals" "requests s i = Some r" "handler_alive r" "has_acceptor r" "\<not> filter r"
    and "err r = kErrorNone" "m_sendEOM (m_responseHandler r)" "\<not> m_wasSent (m_responseHandler r)"
    and "has_executor E" "place s i = Idle"
    and "\<And>m. makeResponse E (m_requestMessage r) = Some m \<Longrightarrow>
      \<exists>h. m_headers m = Some h \<and> 200 \<le> hm_getStatusCode (http E) h \<and> vals h ''Content-Length'' = []"
  shows "\<exists>r' h'. requests (complete_request E i s) i = Some r' \<and>
    calls r' = calls r @ SendHeaders h' # body_calls (http E) False (m_body (reply E s r)) @ [SendEOM] \<and>
    hm_getStatusCode (http E) h' =
      (if stopRequested s then 503
       else if current_isOverloaded (m_currentRequests (counters s)) \<or>
         ratio_isOverloaded (m_timeoutedRequestRatio (counters s)) then 429
       else case makeResponse E (m_requestMessage r) of
         Some m \<Rightarrow> getStatus (http E) m | None \<Rightarrow> 500) \<and>
    hm_getSingleOrEmpty (http E) ''Content-Length'' h' =
      to_string (case m_body (reply E s r) of Some b \<Rightarrow> buf_chainLength (http E) b | None \<Rightarrow> 0)"
proof -
  define c where "c = (if stopRequested s then 503
       else if current_isOverloaded (m_currentRequests (counters s)) \<or>
         ratio_isOverloaded (m_timeoutedRequestRatio (counters s)) then 429
       else case makeResponse E (m_requestMessage r) of
         Some m \<Rightarrow> getStatus (http E) m | None \<Rightarrow> 500)"
  have app: "http_contract.plain_message (http E) vals (getStatus (http E) m) m \<and> 200 \<le> getStatus (http E) m"
    if "makeResponse E (m_requestMessage r) = Some m" for m
    using assms(11) [OF that] by (auto simp: http_contract.plain_message_def [OF assms(1)] getStatus_def)
  have "http_contract.plain_message (http E) vals c (reply E s r)" "200 \<le> c"
    using http_contract.error_messages [OF assms(1)] app
    by (auto simp: c_def reply_def split: option.split)
  from http_contract.reply_on_wire [OF assms(1) refl assms(2-10) this] show ?thesis
    unfolding c_def [symmetric] .
qed

theorem web_request_answered_witness:
  "\<exists>r' h'. requests (complete_request sample_env 0 (newHandler sample_env False 0 (server_start sample_flags))) 0 = Some r' \<and>
    calls r' = [SendHeaders h', SendBody ''hello'', SendEOM] \<and> hl_code h' = 200"
proof -
  let ?s = "newHandler sample_env False 0 (server_start sample_flags)"
  have quiet: "\<not> stopRequested ?s" "\<not> current_isOverloaded (m_currentRequests (counters ?s))"
    "\<not> ratio_isOverloaded (m_timeoutedRequestRatio (counters ?s))"
    by (simp_all add: newHandler_def Let_def set_request_def server_start_def sample_flags_def setCounters_def
        ServerCounters_def count_request_def increment_def enable_def setMaxValue_def CurrentCounter_def
        current_isOverloaded_def current_isEnabled_def ratio_isOverloaded_def ratio_update_def ratio_isEnabled_def
        CurrentRatioCounter_def Counter_def)
  have "http_contract (http sample_env) list_vals"
    by (simp add: sample_env_def list_http.http_contract_axioms)
  from web_request_answered [OF this sample_opened]
  show ?thesis using quiet
    by (fastforce simp: setEOMOnSend_def ResponseHandler_def sample_env_def newHandler_def Let_def set_request_def
        server_start_def reply_def body_calls_def appendBodyFromExe_def appendBody_def set_status_def Message_def
        Message_with_def getStatus_def list_http_def list_vals_def)
qed

text \<open>The first request of a server is never refused for overload.\<close>

definition first_request :: "('h, 'b) web_env \<Rightarrow> ('h, 'b) request" where
  "first_request E = the (requests (newHandler E False 0 (server_start sample_flags)) 0)"

lemma first_request:
  "requests (newHandler E False i (server_start F)) i = Some (first_request E)"
  "handler_alive (first_request E)" "has_acceptor (first_request E)" "\<not> filter (first_request E)"
  "err (first_request E) = kErrorNone" "adaptor_alive (first_request E)" "\<not> responseStarted (first_request E)"
  by (simp_all add: first_request_def newHandler_def Let_def set_request_def)

lemma first_server:
  "place (newHandler E False i (server_start F)) = (\<lambda>_. Idle)" "\<not> stopRequested (newHandler E False i (server_start F))"
  "\<not> use_after_free (newHandler E False i (server_start F))"
  by (simp_all add: newHandler_def Let_def set_request_def server_start_def)

lemma first_accepted:
  "\<not> current_isOverloaded (m_currentRequests (counters (newHandler E False i (server_start F))))"
  "\<not> ratio_isOverloaded (m_timeoutedRequestRatio (counters (newHandler E False i (server_start F))))"
proof -
  let ?s = "newHandler E False i (server_start F)"
  have ok: "counting F ?s" by (rule counting_new [OF counting_start]) (simp add: server_start_def)
  have "dom (requests ?s) = {i}" by (auto simp: newHandler_def Let_def set_request_def server_start_def)
  moreover have "alive ?s = {i}"
    by (auto simp: newHandler_def Let_def set_request_def server_start_def alive_def split: if_splits)
  ultimately show "\<not> current_isOverloaded (m_currentRequests (counters ?s))"
    using overload_meaning [OF ok] by (auto simp: unat_gt_0 word_less_nat_alt)
  show "\<not> ratio_isOverloaded (m_timeoutedRequestRatio (counters ?s))"
    using ok by (simp add: counting_def no_timeouts_ratio)
qed

lemma first_opened: "web_step orderly E (server_start F) (newHandler E False i (server_start F))"
  by (rule web_step.opened) (simp add: server_start_def)

lemma client_gone:
  assumes "has_executor E"
  shows "\<exists>s r t. (web_step False E)\<^sup>*\<^sup>* (server_start F) s \<and> \<not> use_after_free s \<and> requests s i = Some r \<and>
    place s i = Queued t \<and> use_after_free (functor_start E i r s)"
proof -
  let ?s = "newHandler E False i (server_start F)" and ?r = "(first_request E)\<lparr>ingress_done := True\<rparr>"
  let ?s1 = "set_request i ?r ?s"
  let ?s2 = "?s1\<lparr>place := (place ?s1)(i := Queued (getTimeOut E (m_requestMessage ?r)))\<rparr>"
  let ?s3 = "adaptor_onError E False False i ?r ?s2"
  have "adaptor_onEOM E Added i ?r ?s1 = ?s2"
    using assms first_accepted [of E i F]
    by (simp add: first_request first_server adaptor_onEOM_def upstream_onEOM_def handler_onEOM_def set_request_def)
  then have eom: "web_step False E ?s ?s2"
    using web_step.eom [of ?s i "first_request E" False ?r E Added] by (simp add: first_request)
  have gone: "?s3 = (set_request i (?r\<lparr>err := kErrorWrite, handler_alive := False\<rparr>) ?s2)
      \<lparr>counters := uncount_request (counters ?s2)\<rparr>"
    by (simp add: first_request adaptor_onError_def setError_def upstream_onError_def delete_handler_def set_request_def Let_def)
  have "web_step False E ?s2 ?s3"
    by (rule web_step.error) (simp_all add: first_request set_request_def)
  with first_opened eom have "(web_step False E)\<^sup>*\<^sup>* (server_start F) ?s3"
    by (blast intro: rtranclp.rtrancl_into_rtrancl)
  moreover have "requests ?s3 i = Some (?r\<lparr>err := kErrorWrite, handler_alive := False\<rparr>)"
    "\<not> use_after_free ?s3" "place ?s3 i = Queued (getTimeOut E (m_requestMessage ?r))"
    unfolding gone by (simp_all add: first_server set_request_def)
  moreover have "use_after_free (functor_start E i (?r\<lparr>err := kErrorWrite, handler_alive := False\<rparr>) ?s3)"
    by (simp add: functor_start_def fault_def)
  ultimately show ?thesis by blast
qed

lemma expectation_failed:
  assumes "hm_exists (http E) ''Expect'' h"
    and "\<not> iequals E (hm_getSingleOrEmpty (http E) ''Expect'' h) ''100-continue''"
  shows "\<exists>s r. (web_step False E)\<^sup>*\<^sup>* (server_start F) s \<and> \<not> use_after_free s \<and> requests s i = Some r \<and>
    adaptor_alive r \<and> use_after_free (adaptor_onBody E b i r s)"
proof -
  let ?s = "newHandler E False i (server_start F)" and ?r = "first_request E"
  let ?s1 = "onHeadersComplete E h i ?r ?s"
  let ?r1 = "adaptor_calls (rb_close_with (http E) 417 ''Expectation Failed'')
    (?r\<lparr>err := kErrorUnsupportedExpectation, handler_alive := False\<rparr>)"
  have "web_step False E ?s ?s1" by (rule web_step.headers) (simp_all add: first_request)
  with first_opened have "(web_step False E)\<^sup>*\<^sup>* (server_start F) ?s1"
    by (blast intro: rtranclp.rtrancl_into_rtrancl)
  moreover have "requests ?s1 i = Some ?r1" "\<not> use_after_free ?s1"
    using assms
    by (simp_all add: first_request first_server onHeadersComplete_def setError_def upstream_onError_def
        delete_handler_def adaptor_sends_def set_request_def Let_def)
  moreover have "adaptor_alive ?r1" "use_after_free (adaptor_onBody E b i ?r1 ?s1)"
    by (simp_all add: first_request adaptor_calls_def adaptor_onBody_def upstream_onBody_def handler_onBody_def fault_def)
  ultimately show ?thesis by blast
qed

text \<open>
  Property C25: deleted handlers are used outside of the normal course. If the connection breaks
  while the work of a request waits in the executor, the worker reads the request from the
  deleted handler; and if a request with an expectation the server does not support has a
  body, the adaptor passes the body to the deleted handler.
\<close>

theorem web_use_after_free:
  assumes "has_executor E" "hm_exists (http E) ''Expect'' h"
    and "\<not> iequals E (hm_getSingleOrEmpty (http E) ''Expect'' h) ''100-continue''"
  shows "(\<exists>s r t. (web_step False E)\<^sup>*\<^sup>* (server_start F) s \<and> \<not> use_after_free s \<and> requests s i = Some r \<and>
      place s i = Queued t \<and> use_after_free (functor_start E i r s)) \<and>
    (\<exists>s r. (web_step False E)\<^sup>*\<^sup>* (server_start F) s \<and> \<not> use_after_free s \<and> requests s i = Some r \<and>
      adaptor_alive r \<and> use_after_free (adaptor_onBody E b i r s))"
  using client_gone [OF assms(1)] expectation_failed [OF assms(2,3)] by (intro conjI)

theorem web_use_after_free_witness:
  "\<exists>s r t. (web_step False sample_env)\<^sup>*\<^sup>* (server_start sample_flags) s \<and> \<not> use_after_free s \<and>
      requests s 3 = Some r \<and> place s 3 = Queued t \<and> use_after_free (functor_start sample_env 3 r s)"
  by (rule web_use_after_free [where E = sample_env and h = "hm_add list_http ''Expect'' ''x'' (hm_new list_http)",
      THEN conjunct1]) (simp_all add: sample_env_def list_http_def)

text \<open>
  The default error for users sets the length of its body itself, and sending adds
  it again: the response has two Content-Length headers, and reading the header back as a
  single one gives nothing.
\<close>

theorem user_error_length_twice:
  assumes "http_contract G vals" "\<not> m_wasSent rh"
  shows "\<exists>h. snd (sendDefaulUserError G content rh) = [SendHeaders h, SendBody (buf_copy G content), SendEOM] \<and>
    vals h ''Content-Length'' = [to_string (length content), to_string (length content)] \<and>
    hm_getSingleOrEmpty G ''Content-Length'' h = []"
  by (rule http_contract.user_error_sent [OF assms])

theorem user_error_length_twice_witness:
  "\<exists>h. snd (sendDefaulUserError list_http ''bad'' (ResponseHandler list_http)) =
      [SendHeaders h, SendBody (buf_copy list_http ''bad''), SendEOM] \<and>
    list_vals h ''Content-Length'' = [to_string (length ''bad''), to_string (length ''bad'')] \<and>
    hm_getSingleOrEmpty list_http ''Content-Length'' h = []"
  by (rule user_error_length_twice [OF list_http.http_contract_axioms]) (simp add: ResponseHandler_def)

end
