(* ===== verification/Web_Options.thy ===== *)
theory Web_Options
  imports Web_Counters
begin

text \<open>
  The configuration of the web server: the flags of \<open>proxygen_ih/web_server/impl/Options.cpp\<close>,
  how a configuration file sets them (\<open>shared/Options.h\<close>, \<open>impl/ServerManager.cpp\<close>), and
  what the server takes from them (\<open>impl/fb_impl/ServerWrapper.cpp\<close>). The application answers
  the values of the file as strings, empty if there is none; \<open>boost::lexical_cast\<close>, gflags, the file
  system and the initialisation of the application are parameters.
\<close>

subsection \<open>Flags\<close>

record web_flags = counter_flags +
  APPLICATION_NAME :: string
  IP :: string
  PORT :: int
  IDLE_TIMEOUT :: int
  LISTEN_BACKLOG :: int
  CHILD_TIMEOUT :: int
  WD :: string
  SUPPORTS_CONNECT :: bool
  IO_THREADS :: int
  ASYNC_RESPONSE :: bool
  CPU_THREADS_PER_IO_THREAD :: int
  TIMEOUT_REQUST :: int
  TIMEOUT_REQUST_CODE :: u64

definition default_flags :: web_flags where
  "default_flags = \<lparr>
     ENABLE_CONNECT_COUNTER = False, ENABLE_REGECTED_CONNECT_COUNTER = False,
     ENABLE_REQUEST_COUNTER = False, ENABLE_TIMEOUTED_REQUEST_COUNTER = False,
     MAX_CONNECTIONS_PER_IO_THREAD = 0, MAX_REQUESTS_PER_IO_THREAD = 0, MAX_TIMEOUTED_REQUEST_RATIO = 0,
     APPLICATION_NAME = [], IP = [], PORT = 0, IDLE_TIMEOUT = 1000, LISTEN_BACKLOG = 8192,
     CHILD_TIMEOUT = 300000, WD = [], SUPPORTS_CONNECT = False, IO_THREADS = 0, ASYNC_RESPONSE = True,
     CPU_THREADS_PER_IO_THREAD = 64, TIMEOUT_REQUST = 0, TIMEOUT_REQUST_CODE = 503\<rparr>"

text \<open>\<open>lexical_cast\<close> for the types of the flags; \<open>None\<close> is an exception.\<close>

record casts =
  to_int32 :: "string \<Rightarrow> int option"
  to_int64 :: "string \<Rightarrow> int option"
  to_uint64 :: "string \<Rightarrow> u64 option"
  to_bool :: "string \<Rightarrow> bool option"

definition findConfigValue :: "(string \<Rightarrow> string) \<Rightarrow> (string \<Rightarrow> 'v option) \<Rightarrow> string \<Rightarrow> 'v \<Rightarrow> 'v option" where
  "findConfigValue cfg cast key dflt = (if cfg key = [] then Some dflt else cast (cfg key))"

definition findConfigValueNoThrow :: "(string \<Rightarrow> string) \<Rightarrow> (string \<Rightarrow> 'v option) \<Rightarrow> string \<Rightarrow> 'v \<Rightarrow> 'v" where
  "findConfigValueNoThrow cfg cast key dflt =
     (case findConfigValue cfg cast key dflt of Some v \<Rightarrow> v | None \<Rightarrow> dflt)"

text \<open>One assignment to a flag; the assignments before one that throws stay.\<close>

definition set_flag ::
  "(string \<Rightarrow> string) \<Rightarrow> (string \<Rightarrow> 'v option) \<Rightarrow> string \<Rightarrow> (web_flags \<Rightarrow> 'v) \<Rightarrow>
   (('v \<Rightarrow> 'v) \<Rightarrow> web_flags \<Rightarrow> web_flags) \<Rightarrow> web_flags \<Rightarrow> web_flags option" where
  "set_flag cfg cast key dflt upd f =
     map_option (\<lambda>v. upd (\<lambda>_. v) f) (findConfigValue cfg cast (''HTTP_SERVER_'' @ key) (dflt f))"

primrec assign_flags :: "(web_flags \<Rightarrow> web_flags option) list \<Rightarrow> web_flags \<Rightarrow> bool \<times> web_flags" where
  "assign_flags [] f = (True, f)"
| "assign_flags (a # as) f = (case a f of None \<Rightarrow> (False, f) | Some f1 \<Rightarrow> assign_flags as f1)"

definition config_flags :: "casts \<Rightarrow> (string \<Rightarrow> string) \<Rightarrow> (web_flags \<Rightarrow> web_flags option) list" where
  "config_flags C cfg =
    [set_flag cfg Some ''IP'' IP IP_update,
     set_flag cfg (to_int32 C) ''PORT'' PORT PORT_update,
     set_flag cfg (to_int64 C) ''IDLE_TIMEOUT'' IDLE_TIMEOUT IDLE_TIMEOUT_update,
     set_flag cfg (to_int64 C) ''CHILD_TIMEOUT'' IDLE_TIMEOUT CHILD_TIMEOUT_update,
     set_flag cfg (to_int32 C) ''LISTEN_BACKLOG'' LISTEN_BACKLOG LISTEN_BACKLOG_update,
     set_flag cfg (to_bool C) ''SUPPORTS_CONNECT'' SUPPORTS_CONNECT SUPPORTS_CONNECT_update,
     (\<lambda>f. Some (f\<lparr>WD := findConfigValueNoThrow cfg Some ''HTTP_SERVER_WD'' (WD f)\<rparr>)),
     set_flag cfg (to_int32 C) ''IO_THREADS'' IO_THREADS IO_THREADS_update,
     set_flag cfg (to_int32 C) ''CPU_THREADS_PER_IO_THREAD'' CPU_THREADS_PER_IO_THREAD CPU_THREADS_PER_IO_THREAD_update,
     set_flag cfg (to_int64 C) ''TIMEOUT_REQUST'' TIMEOUT_REQUST TIMEOUT_REQUST_update,
     set_flag cfg (to_uint64 C) ''TIMEOUT_REQUST_CODE'' TIMEOUT_REQUST_CODE TIMEOUT_REQUST_CODE_update,
     set_flag cfg (to_bool C) ''ENABLE_CONNECT_COUNTER'' ENABLE_CONNECT_COUNTER ENABLE_CONNECT_COUNTER_update,
     set_flag cfg (to_bool C) ''ENABLE_REGECTED_CONNECT_COUNTER'' ENABLE_REGECTED_CONNECT_COUNTER
       ENABLE_REGECTED_CONNECT_COUNTER_update,
     set_flag cfg (to_bool C) ''ENABLE_REQUEST_COUNTER'' ENABLE_REQUEST_COUNTER ENABLE_REQUEST_COUNTER_update,
     set_flag cfg (to_bool C) ''ENABLE_TIMEOUTED_REQUEST_COUNTER'' ENABLE_TIMEOUTED_REQUEST_COUNTER
       ENABLE_TIMEOUTED_REQUEST_COUNTER_update,
     set_flag cfg (to_uint64 C) ''MAX_CONNECTIONS_PER_IO_THREAD'' MAX_CONNECTIONS_PER_IO_THREAD
       MAX_CONNECTIONS_PER_IO_THREAD_update,
     set_flag cfg (to_uint64 C) ''MAX_REQUESTS_PER_IO_THREAD'' MAX_REQUESTS_PER_IO_THREAD
       MAX_REQUESTS_PER_IO_THREAD_update,
     set_flag cfg (to_uint64 C) ''MAX_TIMEOUTED_REQUEST_RATIO'' MAX_TIMEOUTED_REQUEST_RATIO
       MAX_TIMEOUTED_REQUEST_RATIO_update]"

subsection \<open>Starting the server\<close>

text \<open>
  The system: the file system's answers for \<open>setWD\<close>, which returns false on its exceptions, whether the application parses the file and
  what it read, what gflags makes of the command line, and the result of \<open>impl_init\<close>.
\<close>

record system =
  is_directory :: "string \<Rightarrow> bool"
  equivalent :: "string \<Rightarrow> string \<Rightarrow> bool"
  chdir_fails :: "string \<Rightarrow> bool"
  absolute :: "string \<Rightarrow> string"
  parseConfigFile :: "string \<Rightarrow> (string \<Rightarrow> string) option"
  ParseCommandLineFlags :: "string list \<Rightarrow> web_flags \<Rightarrow> web_flags"
  impl_init_aborts :: bool
  system_casts :: casts
  processors :: int

datatype manager_error = No_config_file | Cannot_parse | Bad_lexical_cast | Cannot_init

definition setWD :: "system \<Rightarrow> string \<Rightarrow> string \<Rightarrow> bool \<times> string" where
  "setWD S dir cwd =
     (if dir = [] then (False, cwd)
      else if \<not> is_directory S dir then (False, cwd)
      else if equivalent S cwd dir then (True, cwd)
      else if chdir_fails S dir then (False, cwd)
      else (True, dir))"

definition parseConfig :: "system \<Rightarrow> string \<Rightarrow> web_flags \<Rightarrow> manager_error option \<times> web_flags" where
  "parseConfig S cfgFile f =
     (case parseConfigFile S cfgFile of
        None \<Rightarrow> (Some Cannot_parse, f)
      | Some cfg \<Rightarrow>
          (case assign_flags (config_flags (system_casts S) cfg) f of
             (ok, f1) \<Rightarrow> (if ok then None else Some Bad_lexical_cast, f1)))"

text \<open>\<open>argv\<close> has the name of the program as its first element.\<close>

definition initOptions :: "system \<Rightarrow> string list \<Rightarrow> web_flags \<Rightarrow> manager_error option \<times> web_flags" where
  "initOptions S argv f =
     (if length argv > 1
      then (case parseConfig S (argv ! 1) f of
              (None, f1) \<Rightarrow> (None, ParseCommandLineFlags S argv f1)
            | (Some e, f1) \<Rightarrow> (Some e, f1))
      else (Some No_config_file, f))"

definition setAppMane :: "system \<Rightarrow> string list \<Rightarrow> web_flags \<Rightarrow> web_flags" where
  "setAppMane S argv f = f\<lparr>APPLICATION_NAME := absolute S (argv ! 0)\<rparr>"

definition initImpl :: "system \<Rightarrow> web_flags \<Rightarrow> string \<Rightarrow> manager_error option \<times> string" where
  "initImpl S f cwd =
     (let cwd1 = (if WD f \<noteq> [] then snd (setWD S (WD f) cwd) else cwd) in
      (if impl_init_aborts S then Some Cannot_init else None, cwd1))"

definition manager_init ::
  "system \<Rightarrow> string list \<Rightarrow> web_flags \<Rightarrow> string \<Rightarrow> manager_error option \<times> web_flags \<times> string" where
  "manager_init S argv f cwd =
     (case initOptions S argv (setAppMane S argv f) of
        (Some e, f1) \<Rightarrow> (Some e, f1, cwd)
      | (None, f1) \<Rightarrow> (case initImpl S f1 cwd of (e, cwd1) \<Rightarrow> (e, f1, cwd1)))"

text \<open>The options of the server.\<close>

record server_options =
  server_threads :: int
  idleTimeout :: int
  listenBacklog :: int
  enableContentCompression :: bool
  supportsConnect :: bool

definition ServerWrapper :: "system \<Rightarrow> web_flags \<Rightarrow> server_options" where
  "ServerWrapper S f =
     \<lparr>server_threads = (if IO_THREADS f \<le> 0 then processors S else IO_THREADS f),
      idleTimeout = IDLE_TIMEOUT f, listenBacklog = LISTEN_BACKLOG f,
      enableContentCompression = False, supportsConnect = SUPPORTS_CONNECT f\<rparr>"

subsection \<open>What a configuration means\<close>

text \<open>The value a flag has after the configuration was read.\<close>

definition config_value :: "(string \<Rightarrow> string) \<Rightarrow> (string \<Rightarrow> 'v option) \<Rightarrow> string \<Rightarrow> 'v \<Rightarrow> 'v" where
  "config_value cfg cast key dflt =
     (if cfg (''HTTP_SERVER_'' @ key) = [] then dflt else the (cast (cfg (''HTTP_SERVER_'' @ key))))"

lemma set_flag_value:
  "set_flag cfg cast key dflt upd f = Some f' \<Longrightarrow> f' = upd (\<lambda>_. config_value cfg cast key (dflt f)) f"
  by (auto simp: set_flag_def findConfigValue_def config_value_def split: if_splits)

lemma assign_flags_append:
  "assign_flags (as @ bs) f = (True, f') \<longleftrightarrow> (\<exists>f1. assign_flags as f = (True, f1) \<and> assign_flags bs f1 = (True, f'))"
  by (induction as arbitrary: f) (auto split: option.splits)

text \<open>Assignments that leave a flag alone.\<close>

definition keeps :: "(web_flags \<Rightarrow> 'v) \<Rightarrow> (web_flags \<Rightarrow> web_flags option) \<Rightarrow> bool" where
  "keeps g a \<longleftrightarrow> (\<forall>f f1. a f = Some f1 \<longrightarrow> g f1 = g f)"

lemma keeps_set_flag: "(\<And>v f. g (upd (\<lambda>_. v) f) = g f) \<Longrightarrow> keeps g (set_flag cfg cast key dflt upd)"
  by (auto simp: keeps_def set_flag_def)

lemma keeps_assign: "assign_flags as f = (True, f') \<Longrightarrow> (\<And>a. a \<in> set as \<Longrightarrow> keeps g a) \<Longrightarrow> g f' = g f"
proof (induction as arbitrary: f)
  case (Cons a as)
  then obtain f1 where "a f = Some f1" "assign_flags as f1 = (True, f')" by (auto split: option.splits)
  then have "g f' = g f1" "keeps g a" using Cons.IH [of f1] Cons.prems(2) by auto
  with \<open>a f = Some f1\<close> show ?case by (auto simp: keeps_def)
qed simp

lemma assign_nth:
  assumes "assign_flags as f = (True, f')" "k < length as" "as ! k = set_flag cfg cast key dflt upd"
    and "\<And>v f. g (upd (\<lambda>_. v) f) = v" "\<And>a. a \<in> set (drop (Suc k) as) \<Longrightarrow> keeps g a"
  shows "\<exists>f1. assign_flags (take k as) f = (True, f1) \<and> g f' = config_value cfg cast key (dflt f1)"
proof -
  have "as = take k as @ set_flag cfg cast key dflt upd # drop (Suc k) as"
    using id_take_nth_drop [OF assms(2)] assms(3) by simp
  then have "assign_flags (take k as @ set_flag cfg cast key dflt upd # drop (Suc k) as) f = (True, f')"
    using assms(1) by simp
  then obtain f1 where f1: "assign_flags (take k as) f = (True, f1)"
    "assign_flags (set_flag cfg cast key dflt upd # drop (Suc k) as) f1 = (True, f')"
    unfolding assign_flags_append by blast
  then obtain f2 where f2: "set_flag cfg cast key dflt upd f1 = Some f2" "assign_flags (drop (Suc k) as) f2 = (True, f')"
    by (auto split: option.splits)
  have "g f' = g f2" by (rule keeps_assign [OF f2(2) assms(5)])
  with set_flag_value [OF f2(1)] assms(4) f1(1) show ?thesis by auto
qed

lemma assign_value:
  assumes "assign_flags as f = (True, f')" "k < length as" "as ! k = set_flag cfg cast key g upd"
    and "\<And>v f. g (upd (\<lambda>_. v) f) = v"
    and "\<And>a. a \<in> set (take k as) \<Longrightarrow> keeps g a" "\<And>a. a \<in> set (drop (Suc k) as) \<Longrightarrow> keeps g a"
  shows "g f' = config_value cfg cast key (g f)"
  using assign_nth [where as = as and g = g, OF assms(1-4,6)] keeps_assign [OF _ assms(5)] by force

lemma keeps_wd: "(\<And>v f. g (WD_update (\<lambda>_. v) f) = g f) \<Longrightarrow> keeps g (\<lambda>f. Some (f\<lparr>WD := e f\<rparr>))"
  by (auto simp: keeps_def)

lemma config_flags_values:
  assumes "assign_flags (config_flags C cfg) f = (True, f')"
  shows "IDLE_TIMEOUT f' = config_value cfg (to_int64 C) ''IDLE_TIMEOUT'' (IDLE_TIMEOUT f)"
    and "CHILD_TIMEOUT f' = config_value cfg (to_int64 C) ''CHILD_TIMEOUT'' (IDLE_TIMEOUT f')"
    and "IO_THREADS f' = config_value cfg (to_int32 C) ''IO_THREADS'' (IO_THREADS f)"
    and "MAX_CONNECTIONS_PER_IO_THREAD f' =
      config_value cfg (to_uint64 C) ''MAX_CONNECTIONS_PER_IO_THREAD'' (MAX_CONNECTIONS_PER_IO_THREAD f)"
    and "MAX_REQUESTS_PER_IO_THREAD f' =
      config_value cfg (to_uint64 C) ''MAX_REQUESTS_PER_IO_THREAD'' (MAX_REQUESTS_PER_IO_THREAD f)"
proof -
  show idle: "IDLE_TIMEOUT f' = config_value cfg (to_int64 C) ''IDLE_TIMEOUT'' (IDLE_TIMEOUT f)"
    by (rule assign_value [OF assms, where k = 2 and upd = IDLE_TIMEOUT_update])
      (auto simp: config_flags_def intro!: keeps_set_flag keeps_wd)
  obtain f1 where f1: "assign_flags (take 3 (config_flags C cfg)) f = (True, f1)"
    "CHILD_TIMEOUT f' = config_value cfg (to_int64 C) ''CHILD_TIMEOUT'' (IDLE_TIMEOUT f1)"
    using assign_nth [OF assms, where k = 3 and upd = CHILD_TIMEOUT_update and g = CHILD_TIMEOUT and dflt = IDLE_TIMEOUT]
    by (force simp: config_flags_def intro!: keeps_set_flag keeps_wd)
  have "IDLE_TIMEOUT f1 = config_value cfg (to_int64 C) ''IDLE_TIMEOUT'' (IDLE_TIMEOUT f)"
    by (rule assign_value [OF f1(1), where k = 2 and upd = IDLE_TIMEOUT_update])
      (auto simp: config_flags_def intro!: keeps_set_flag keeps_wd)
  then show "CHILD_TIMEOUT f' = config_value cfg (to_int64 C) ''CHILD_TIMEOUT'' (IDLE_TIMEOUT f')"
    using f1(2) idle by simp
  show "IO_THREADS f' = config_value cfg (to_int32 C) ''IO_THREADS'' (IO_THREADS f)"
    by (rule assign_value [OF assms, where k = 7 and upd = IO_THREADS_update])
      (auto simp: config_flags_def intro!: keeps_set_flag keeps_wd)
  show "MAX_CONNECTIONS_PER_IO_THREAD f' =
      config_value cfg (to_uint64 C) ''MAX_CONNECTIONS_PER_IO_THREAD'' (MAX_CONNECTIONS_PER_IO_THREAD f)"
    by (rule assign_value [OF assms, where k = 15 and upd = MAX_CONNECTIONS_PER_IO_THREAD_update])
      (auto simp: config_flags_def intro!: keeps_set_flag keeps_wd)
  show "MAX_REQUESTS_PER_IO_THREAD f' =
      config_value cfg (to_uint64 C) ''MAX_REQUESTS_PER_IO_THREAD'' (MAX_REQUESTS_PER_IO_THREAD f)"
    by (rule assign_value [OF assms, where k = 16 and upd = MAX_REQUESTS_PER_IO_THREAD_update])
      (auto simp: config_flags_def intro!: keeps_set_flag keeps_wd)
qed

lemma setCounters_limits:
  "m_currentRequests (setCounters F c) =
     (if 0 < MAX_REQUESTS_PER_IO_THREAD F then setMaxValue (MAX_REQUESTS_PER_IO_THREAD F) (m_currentRequests c)
      else m_currentRequests c)"
  "m_currentConnects (setCounters F c) =
     (if 0 < MAX_CONNECTIONS_PER_IO_THREAD F then setMaxValue (MAX_CONNECTIONS_PER_IO_THREAD F) (m_currentConnects c)
      else m_currentConnects c)"
  by (simp_all add: setCounters_def Let_def case_prod_unfold if_distrib [of m_currentRequests]
      if_distrib [of m_currentConnects] split del: if_split cong: if_cong)

text \<open>
  A configuration that is read without an error sets the limits the acceptors enforce: the number
  of requests and of connections for each event loop, if it is not 0.
\<close>

lemma limits_from_config:
  assumes "parseConfigFile S file = Some cfg" "parseConfig S file f = (None, f')"
    and "MAX_REQUESTS_PER_IO_THREAD f = 0" "MAX_CONNECTIONS_PER_IO_THREAD f = 0"
  shows "m_maxValue (m_currentRequests (setCounters f' ServerCounters)) =
      (let n = config_value cfg (to_uint64 (system_casts S)) ''MAX_REQUESTS_PER_IO_THREAD'' 0 in if n = 0 then - 1 else n)"
    and "m_maxValue (m_currentConnects (setCounters f' ServerCounters)) =
      (let n = config_value cfg (to_uint64 (system_casts S)) ''MAX_CONNECTIONS_PER_IO_THREAD'' 0 in if n = 0 then - 1 else n)"
proof -
  have ok: "assign_flags (config_flags (system_casts S) cfg) f = (True, f')"
    using assms(1,2) by (auto simp: parseConfig_def split: prod.splits if_splits)
  note limits = config_flags_values(4,5) [OF ok]
  note limit = setMaxValue_def enable_def CurrentCounter_def word_neq_0_conv
  show "m_maxValue (m_currentRequests (setCounters f' ServerCounters)) =
      (let n = config_value cfg (to_uint64 (system_casts S)) ''MAX_REQUESTS_PER_IO_THREAD'' 0 in if n = 0 then - 1 else n)"
    using limits(2) assms(3) by (simp add: setCounters_limits ServerCounters_def Let_def limit)
  show "m_maxValue (m_currentConnects (setCounters f' ServerCounters)) =
      (let n = config_value cfg (to_uint64 (system_casts S)) ''MAX_CONNECTIONS_PER_IO_THREAD'' 0 in if n = 0 then - 1 else n)"
    using limits(1) assms(4) by (simp add: setCounters_limits ServerCounters_def Let_def limit)
qed

text \<open>
  A configuration that does not mention the timeout of child processes sets it to the idle
  timeout, and the value of its own flag is lost; with a configuration that is empty nothing else
  changes, and the child processes get 1 instead of 300 seconds.
\<close>

theorem child_timeout_lost:
  assumes "parseConfigFile S file = Some cfg" "cfg ''HTTP_SERVER_CHILD_TIMEOUT'' = []" "parseConfig S file f = (None, f')"
  shows "CHILD_TIMEOUT f' = IDLE_TIMEOUT f' \<and> ((\<forall>key. cfg key = []) \<longrightarrow> f' = f\<lparr>CHILD_TIMEOUT := IDLE_TIMEOUT f\<rparr>)"
proof -
  have ok: "assign_flags (config_flags (system_casts S) cfg) f = (True, f')"
    using assms(1,3) by (auto simp: parseConfig_def split: prod.splits if_splits)
  have "CHILD_TIMEOUT f' = IDLE_TIMEOUT f'" using config_flags_values(2) [OF ok] assms(2) by (simp add: config_value_def)
  moreover have "f' = f\<lparr>CHILD_TIMEOUT := IDLE_TIMEOUT f\<rparr>" if "\<forall>key. cfg key = []"
    using ok that by (simp add: config_flags_def set_flag_def findConfigValue_def findConfigValueNoThrow_def)
  ultimately show ?thesis by blast
qed

end
