(* ===== verification/Task_Pool.thy ===== *)
theory Task_Pool
  imports Prelude "HOL-Library.Multiset"
begin

text \<open>
  What the thread pools of the repository promise, as two interfaces: tasks start in the order
  they were submitted, each of them once; and a machine that is closing down stops after a
  bounded number of steps in a state where it is closed.
\<close>

subsection \<open>Tasks start in order\<close>

locale task_pool =
  fixes start :: "'s \<Rightarrow> bool"
    and step :: "'s \<Rightarrow> 's \<Rightarrow> bool"
    and submitted :: "'s \<Rightarrow> 't list"
    and started :: "'s \<Rightarrow> 't list"
    and waiting :: "'s \<Rightarrow> 't list"
  assumes starts_empty: "start s \<Longrightarrow> submitted s = [] \<and> started s = [] \<and> waiting s = []"
    and step_tasks: "step s s' \<Longrightarrow>
      submitted s' = submitted s \<and> started s' = started s \<and> waiting s' = waiting s \<or>
      (\<exists>t. submitted s' = submitted s @ [t] \<and> started s' = started s \<and> waiting s' = waiting s @ [t]) \<or>
      (\<exists>t. submitted s' = submitted s \<and> started s' = started s @ [t] \<and> waiting s = t # waiting s')"
begin

lemma order_kept: "submitted s = started s @ waiting s \<Longrightarrow> step s s' \<Longrightarrow> submitted s' = started s' @ waiting s'"
  using step_tasks [of s s'] by auto

lemma tasks_in_order: "step\<^sup>*\<^sup>* s s' \<Longrightarrow> start s \<Longrightarrow> submitted s' = started s' @ waiting s'"
  by (induction rule: rtranclp_induct) (auto dest: starts_empty order_kept)

end

subsection \<open>Closing down\<close>

locale closing_machine =
  fixes step :: "'s \<Rightarrow> 's \<Rightarrow> bool"
    and inv :: "'s \<Rightarrow> bool"
    and closing :: "'s \<Rightarrow> bool"
    and closed :: "'s \<Rightarrow> bool"
    and work :: "'s \<Rightarrow> nat"
  assumes inv_step: "inv s \<Longrightarrow> step s s' \<Longrightarrow> inv s'"
    and closing_step: "inv s \<Longrightarrow> closing s \<Longrightarrow> step s s' \<Longrightarrow> closing s' \<and> work s' < work s"
    and not_stuck: "inv s \<Longrightarrow> closing s \<Longrightarrow> \<not> closed s \<Longrightarrow> \<exists>s'. step s s'"
begin

lemma closing_runs:
  "(step ^^ k) s s' \<Longrightarrow> inv s \<Longrightarrow> closing s \<Longrightarrow> inv s' \<and> closing s' \<and> work s' + k \<le> work s"
proof (induction k arbitrary: s')
  case 0
  then show ?case by simp
next
  case (Suc k)
  then obtain u where u: "(step ^^ k) s u" "step u s'" by auto
  note Suc.IH [OF u(1) Suc.prems(2,3)]
  with inv_step [OF _ u(2)] closing_step [OF _ _ u(2)] show ?case by fastforce
qed

lemma closing_bound: "(step ^^ k) s s' \<Longrightarrow> inv s \<Longrightarrow> closing s \<Longrightarrow> k \<le> work s"
  using closing_runs [of k s s'] by linarith

lemma stuck_closed: "(step ^^ k) s s' \<Longrightarrow> inv s \<Longrightarrow> closing s \<Longrightarrow> (\<And>u. \<not> step s' u) \<Longrightarrow> closed s'"
  using closing_runs [of k s s'] not_stuck by blast

lemma closing_closes: "inv s \<Longrightarrow> closing s \<Longrightarrow> \<exists>s'. step\<^sup>*\<^sup>* s s' \<and> closed s'"
proof (induction "work s" arbitrary: s rule: less_induct)
  case less
  show ?case
  proof (cases "closed s")
    case True
    then show ?thesis by blast
  next
    case False
    with not_stuck less.prems obtain u where u: "step s u" by blast
    from less.hyps [of u] closing_step [OF less.prems u] inv_step [OF less.prems(1) u]
    obtain s' where "step\<^sup>*\<^sup>* u s'" "closed s'" by blast
    with u show ?thesis by (blast intro: converse_rtranclp_into_rtranclp)
  qed
qed

lemma closing_stops: "inv s \<Longrightarrow> closing s \<Longrightarrow> \<exists>s'. step\<^sup>*\<^sup>* s s' \<and> (\<forall>u. \<not> step s' u)"
proof (induction "work s" arbitrary: s rule: less_induct)
  case less
  show ?case
  proof (cases "\<exists>u. step s u")
    case False
    then show ?thesis by blast
  next
    case True
    then obtain u where u: "step s u" by blast
    from less.hyps [of u] closing_step [OF less.prems u] inv_step [OF less.prems(1) u]
    obtain s' where "step\<^sup>*\<^sup>* u s'" "\<forall>v. \<not> step s' v" by blast
    with u show ?thesis by (blast intro: converse_rtranclp_into_rtranclp)
  qed
qed

end

subsection \<open>Sums over the threads of a pool\<close>

lemma sum_update:
  fixes f :: "'a \<Rightarrow> 'b :: comm_monoid_add"
  assumes "finite A" "i \<in> A"
  shows "(\<Sum>w\<in>A. f ((g(i := x)) w)) + f (g i) = (\<Sum>w\<in>A. f (g w)) + f x"
proof -
  have "(\<Sum>w\<in>A. f ((g(i := x)) w)) = f x + (\<Sum>w\<in>A - {i}. f (g w))"
    by (subst sum.remove [OF assms]) (auto intro: sum.cong)
  moreover have "(\<Sum>w\<in>A. f (g w)) = f (g i) + (\<Sum>w\<in>A - {i}. f (g w))"
    by (rule sum.remove [OF assms])
  ultimately show ?thesis by (simp add: ac_simps)
qed

lemma sum_update_less:
  fixes f :: "'a \<Rightarrow> nat"
  assumes "i < (n :: nat)" "f x < f (g i)"
  shows "(\<Sum>w<n. f ((g(i := x)) w)) < (\<Sum>w<n. f (g w))"
  using sum_update [of "{..<n}" i f g x] assms by simp

text \<open>One thread loses more than what all the others gain.\<close>

lemma sum_shift:
  fixes f f' :: "nat \<Rightarrow> nat"
  assumes "t < n" "\<And>u. u < n \<Longrightarrow> u \<noteq> t \<Longrightarrow> f' u \<le> f u + c" "f' t + c * n < f t"
  shows "(\<Sum>u<n. f' u) < (\<Sum>u<n. f u)"
proof -
  have "(\<Sum>u<n. f' u) = f' t + (\<Sum>u\<in>{..<n} - {t}. f' u)" by (rule sum.remove) (use assms(1) in auto)
  also have "\<dots> \<le> f' t + (\<Sum>u\<in>{..<n} - {t}. f u + c)" using assms(2) by (intro add_left_mono sum_mono) auto
  also have "\<dots> \<le> f' t + c * n + (\<Sum>u\<in>{..<n} - {t}. f u)"
    using card_mono [of "{..<n}" "{..<n} - {t}"] by (simp add: sum.distrib)
  also have "\<dots> < f t + (\<Sum>u\<in>{..<n} - {t}. f u)" using assms(3) by simp
  also have "\<dots> = (\<Sum>u<n. f u)" by (rule sum.remove [symmetric]) (use assms(1) in auto)
  finally show ?thesis .
qed

end
