(* ===== verification/Pool_Stop_Token.thy ===== *)
theory Pool_Stop_Token
  imports Task_Pool
begin

text \<open>
  The thread pools of \<open>multiThread/ThreadPool_stop_token2.cpp\<close> and
  \<open>multiThread/ThreadPool4.cpp\<close>: a queue under a mutex, a condition variable, and threads
  that are asked to stop through their stop tokens when the pool is destroyed. The two differ in
  the test of the loop. A section under the mutex is one step, as is the wait of
  \<open>std::condition_variable_any\<close>, which cannot miss a notification or a request to stop;
  \<open>notify_one\<close> comes after the mutex was released and is a step of its own. Tasks do not
  throw (an exception of a submitted function ends the program).
\<close>

subsection \<open>The pool\<close>

text \<open>A thread is before the test of its loop, before the wait, waiting, running a task, or done.\<close>

datatype 't worker = LoopHead | AtWait | Waiting | Working 't | Exited

text \<open>
  The destructor of the vector of threads asks one thread after the other to stop and joins it.
\<close>

datatype destructor = Alive | Joining nat | Gone

record 't pool =
  tasks :: "'t list"
  worker :: "nat \<Rightarrow> 't worker"
  notifying :: nat
  destructor :: destructor
  submitted :: "'t list"
  started :: "'t list"
  completed :: "'t multiset"

datatype pool_version = Draining | Stopping

definition pool_start :: "'t pool" where
  "pool_start = \<lparr>tasks = [], worker = (\<lambda>_. LoopHead), notifying = 0, destructor = Alive,
     submitted = [], started = [], completed = {#}\<rparr>"

fun stop_requested :: "destructor \<Rightarrow> nat \<Rightarrow> bool" where
  "stop_requested Alive w = False"
| "stop_requested (Joining i) w = (w \<le> i)"
| "stop_requested Gone w = True"

text \<open>
  \<open>while (true)\<close> in the first, \<open>while (!st.stop_requested())\<close> in the second pool.
\<close>

definition loop_test :: "pool_version \<Rightarrow> bool \<Rightarrow> bool" where
  "loop_test v stop = (case v of Draining \<Rightarrow> True | Stopping \<Rightarrow> \<not> stop)"

text \<open>The wait blocks (\<open>None\<close>) or returns; the result is negated.\<close>

definition waitAndStop :: "bool \<Rightarrow> bool \<Rightarrow> bool option" where
  "waitAndStop stop pred = (if stop then Some (\<not> pred) else if pred then Some False else None)"

definition test_loop :: "pool_version \<Rightarrow> nat \<Rightarrow> 't pool \<Rightarrow> 't pool" where
  "test_loop v w s =
     s\<lparr>worker := (worker s)(w := if loop_test v (stop_requested (destructor s) w) then AtWait else Exited)\<rparr>"

definition worker_section :: "nat \<Rightarrow> 't pool \<Rightarrow> 't pool" where
  "worker_section w s =
     (case waitAndStop (stop_requested (destructor s) w) (tasks s \<noteq> []) of
        None \<Rightarrow> s\<lparr>worker := (worker s)(w := Waiting)\<rparr>
      | Some True \<Rightarrow> s\<lparr>worker := (worker s)(w := Exited)\<rparr>
      | Some False \<Rightarrow>
          s\<lparr>worker := (worker s)(w := Working (hd (tasks s))), tasks := tl (tasks s),
            started := started s @ [hd (tasks s)]\<rparr>)"

definition wake :: "nat \<Rightarrow> 't pool \<Rightarrow> 't pool" where
  "wake w s = s\<lparr>worker := (worker s)(w := AtWait)\<rparr>"

definition task_done :: "nat \<Rightarrow> 't \<Rightarrow> 't pool \<Rightarrow> 't pool" where
  "task_done w t s = s\<lparr>worker := (worker s)(w := LoopHead), completed := add_mset t (completed s)\<rparr>"

text \<open>\<open>submit\<close>, and \<open>submitAndGetFuture\<close>, whose future is ready when the task is completed.\<close>

definition pool_submit :: "'t \<Rightarrow> 't pool \<Rightarrow> 't pool" where
  "pool_submit t s = s\<lparr>tasks := tasks s @ [t], notifying := Suc (notifying s), submitted := submitted s @ [t]\<rparr>"

definition notified :: "'t pool \<Rightarrow> 't pool" where
  "notified s = s\<lparr>notifying := notifying s - 1\<rparr>"

text \<open>What the destructor does after it has joined the threads below the given one.\<close>

definition join_from :: "nat \<Rightarrow> nat \<Rightarrow> destructor" where
  "join_from n i = (if i < n then Joining i else Gone)"

inductive pool_step :: "pool_version \<Rightarrow> bool \<Rightarrow> nat \<Rightarrow> 't pool \<Rightarrow> 't pool \<Rightarrow> bool"
  for v :: pool_version and spurious :: bool and n :: nat
where
  test: "w < n \<Longrightarrow> worker s w = LoopHead \<Longrightarrow> pool_step v spurious n s (test_loop v w s)"
| under_lock: "w < n \<Longrightarrow> worker s w = AtWait \<Longrightarrow> pool_step v spurious n s (worker_section w s)"
| stop_wakes: "w < n \<Longrightarrow> worker s w = Waiting \<Longrightarrow> stop_requested (destructor s) w \<Longrightarrow>
    pool_step v spurious n s (wake w s)"
| wakes_spuriously: "w < n \<Longrightarrow> worker s w = Waiting \<Longrightarrow> spurious \<Longrightarrow> pool_step v spurious n s (wake w s)"
| finishes: "w < n \<Longrightarrow> worker s w = Working t \<Longrightarrow> pool_step v spurious n s (task_done w t s)"
| submits: "destructor s = Alive \<Longrightarrow> pool_step v spurious n s (pool_submit t s)"
| notifies: "0 < notifying s \<Longrightarrow> w < n \<Longrightarrow> worker s w = Waiting \<Longrightarrow>
    pool_step v spurious n s (wake w (notified s))"
| notifies_none: "0 < notifying s \<Longrightarrow> (\<And>w. w < n \<Longrightarrow> worker s w \<noteq> Waiting) \<Longrightarrow>
    pool_step v spurious n s (notified s)"
| destroy: "destructor s = Alive \<Longrightarrow> notifying s = 0 \<Longrightarrow>
    pool_step v spurious n s (s\<lparr>destructor := join_from n 0\<rparr>)"
| joins: "destructor s = Joining i \<Longrightarrow> worker s i = Exited \<Longrightarrow>
    pool_step v spurious n s (s\<lparr>destructor := join_from n (Suc i)\<rparr>)"

lemmas [state_simps] = test_loop_def worker_section_def wake_def task_done_def pool_submit_def
  notified_def join_from_def loop_test_def waitAndStop_def

lemma spurious_mono: "pool_step v spurious n s s' \<Longrightarrow> pool_step v True n s s'"
  by (induction rule: pool_step.induct) (auto intro: pool_step.intros)

subsection \<open>Order\<close>

interpretation stop_token: task_pool "\<lambda>s. s = pool_start" "pool_step v spurious n" submitted started tasks
proof unfold_locales
  fix s s' :: "'a pool"
  show "s = pool_start \<Longrightarrow> submitted s = [] \<and> started s = [] \<and> tasks s = []"
    by (simp add: pool_start_def)
  assume "pool_step v spurious n s s'"
  then show "submitted s' = submitted s \<and> started s' = started s \<and> tasks s' = tasks s \<or>
      (\<exists>t. submitted s' = submitted s @ [t] \<and> started s' = started s \<and> tasks s' = tasks s @ [t]) \<or>
      (\<exists>t. submitted s' = submitted s \<and> started s' = started s @ [t] \<and> tasks s = t # tasks s')"
    by cases (auto simp: state_simps split: if_splits)
qed

subsection \<open>The invariant\<close>

fun in_work :: "'t worker \<Rightarrow> 't multiset" where
  "in_work (Working t) = {#t#}"
| "in_work LoopHead = {#}"
| "in_work AtWait = {#}"
| "in_work Waiting = {#}"
| "in_work Exited = {#}"

definition in_progress :: "nat \<Rightarrow> 't pool \<Rightarrow> 't multiset" where
  "in_progress n s = (\<Sum>w<n. in_work (worker s w))"

definition awake :: "'t worker \<Rightarrow> bool" where
  "awake p \<longleftrightarrow> p \<noteq> Waiting \<and> p \<noteq> Exited"

definition pool_ok :: "pool_version \<Rightarrow> nat \<Rightarrow> 't pool \<Rightarrow> bool" where
  "pool_ok v n s \<longleftrightarrow>
     mset (started s) = completed s + in_progress n s \<and>
     (\<forall>w<n. worker s w = Exited \<longrightarrow> stop_requested (destructor s) w) \<and>
     (\<forall>w<n. v = Draining \<longrightarrow> worker s w = Exited \<longrightarrow> tasks s = []) \<and>
     (destructor s = Alive \<longrightarrow> tasks s \<noteq> [] \<longrightarrow> 0 < notifying s \<or> n = 0 \<or> (\<exists>w<n. awake (worker s w))) \<and>
     (destructor s \<noteq> Alive \<longrightarrow> notifying s = 0) \<and>
     (\<forall>i. destructor s = Joining i \<longrightarrow> i < n \<and> (\<forall>w<i. worker s w = Exited)) \<and>
     (destructor s = Gone \<longrightarrow> (\<forall>w<n. worker s w = Exited))"

lemma in_progress_update:
  "w < n \<Longrightarrow> in_work (worker s w) = {#} \<Longrightarrow>
   in_progress n (s\<lparr>worker := (worker s)(w := p)\<rparr>) = in_progress n s + in_work p"
  using sum_update [of "{..<n}" w in_work "worker s" p] by (simp add: in_progress_def)

lemma in_progress_done:
  "w < n \<Longrightarrow> worker s w = Working t \<Longrightarrow> in_work p = {#} \<Longrightarrow>
   add_mset t (in_progress n (s\<lparr>worker := (worker s)(w := p)\<rparr>)) = in_progress n s"
  using sum_update [of "{..<n}" w in_work "worker s" p] by (simp add: in_progress_def)

lemma in_progress_cong [simp]:
  "in_progress n (s\<lparr>tasks := q\<rparr>) = in_progress n s" "in_progress n (s\<lparr>started := b\<rparr>) = in_progress n s"
  "in_progress n (s\<lparr>completed := c\<rparr>) = in_progress n s" "in_progress n (s\<lparr>notifying := k\<rparr>) = in_progress n s"
  "in_progress n (s\<lparr>destructor := d\<rparr>) = in_progress n s" "in_progress n (s\<lparr>submitted := b\<rparr>) = in_progress n s"
  by (simp_all add: in_progress_def)

lemma awake_simps [simp]: "awake LoopHead" "awake AtWait" "awake (Working t)" "\<not> awake Waiting" "\<not> awake Exited"
  by (simp_all add: awake_def)

lemma pool_okD:
  assumes "pool_ok v n s"
  shows "mset (started s) = completed s + in_progress n s"
    and "\<And>w. w < n \<Longrightarrow> worker s w = Exited \<Longrightarrow> stop_requested (destructor s) w"
    and "\<And>w. w < n \<Longrightarrow> worker s w = Exited \<Longrightarrow> v = Draining \<Longrightarrow> tasks s = []"
    and "destructor s = Alive \<Longrightarrow> tasks s \<noteq> [] \<Longrightarrow> 0 < notifying s \<or> n = 0 \<or> (\<exists>w<n. awake (worker s w))"
    and "destructor s \<noteq> Alive \<Longrightarrow> notifying s = 0"
    and "\<And>i. destructor s = Joining i \<Longrightarrow> i < n \<and> (\<forall>w<i. worker s w = Exited)"
    and "\<And>w. destructor s = Gone \<Longrightarrow> w < n \<Longrightarrow> worker s w = Exited"
  using assms by (auto simp: pool_ok_def)

lemma pool_ok_start: "pool_ok v n pool_start"
  by (simp add: pool_ok_def pool_start_def in_progress_def)

lemma pool_ok_test: "pool_ok v n s \<Longrightarrow> w < n \<Longrightarrow> worker s w = LoopHead \<Longrightarrow> pool_ok v n (test_loop v w s)"
  by (auto simp: pool_ok_def state_simps in_progress_update split: pool_version.splits)

lemma pool_ok_wake: "pool_ok v n s \<Longrightarrow> w < n \<Longrightarrow> worker s w = Waiting \<Longrightarrow> pool_ok v n (wake w s)"
  by (auto simp: pool_ok_def state_simps in_progress_update)

lemma pool_ok_notified:
  assumes "pool_ok v n s" "0 < notifying s" "w < n" "worker s w = Waiting"
  shows "pool_ok v n (wake w (notified s))"
proof -
  have "in_progress n (wake w (notified s)) = in_progress n s"
    using in_progress_update [OF assms(3), of s AtWait] assms(4) by (simp add: in_progress_def state_simps)
  then show ?thesis using assms by (auto simp: pool_ok_def state_simps)
qed

lemma pool_ok_submit: "pool_ok v n s \<Longrightarrow> destructor s = Alive \<Longrightarrow> pool_ok v n (pool_submit t s)"
  by (auto simp: pool_ok_def state_simps)

lemma pool_ok_done: "pool_ok v n s \<Longrightarrow> w < n \<Longrightarrow> worker s w = Working t \<Longrightarrow> pool_ok v n (task_done w t s)"
  using in_progress_done [of w n s t LoopHead] by (auto simp: pool_ok_def state_simps)

lemma pool_ok_section: "pool_ok v n s \<Longrightarrow> w < n \<Longrightarrow> worker s w = AtWait \<Longrightarrow> pool_ok v n (worker_section w s)"
  by (auto simp: pool_ok_def state_simps in_progress_update split: if_splits)

lemma pool_ok_step: "pool_ok v n s \<Longrightarrow> pool_step v spurious n s s' \<Longrightarrow> pool_ok v n s'"
proof (erule pool_step.cases, goal_cases)
  case (8 s1)
  then show ?case unfolding pool_ok_def by (auto simp: state_simps awake_def) 
next
  case (9 s1)
  then show ?case unfolding pool_ok_def by (auto simp: state_simps)
next
  case (10 s1 i)
  then have "worker s1 w = Exited" if "w < n" "\<not> Suc i < n" for w
    using pool_okD(6) [of v n s1 i] that by (cases "w = i") auto
  then show ?case using 10 unfolding pool_ok_def by (auto simp: state_simps less_Suc_eq)
qed (auto intro: pool_ok_test pool_ok_wake pool_ok_notified pool_ok_submit pool_ok_done pool_ok_section)

interpretation stop_token: inductive_invariant "\<lambda>s. s = pool_start" "pool_step v spurious n" "pool_ok v n"
  by unfold_locales (auto intro: pool_ok_start pool_ok_step)

subsection \<open>The destructor ends\<close>

fun worker_work :: "bool \<Rightarrow> 't worker \<Rightarrow> nat" where
  "worker_work stop Exited = 0"
| "worker_work stop AtWait = (if stop then 1 else 3)"
| "worker_work stop LoopHead = (if stop then 2 else 4)"
| "worker_work stop Waiting = 2"
| "worker_work stop (Working t) = (if stop then 3 else 5)"

fun join_work :: "nat \<Rightarrow> destructor \<Rightarrow> nat" where
  "join_work n Alive = Suc n"
| "join_work n (Joining i) = n - i"
| "join_work n Gone = 0"

definition pool_work :: "nat \<Rightarrow> 't pool \<Rightarrow> nat" where
  "pool_work n s =
     3 * length (tasks s) + (\<Sum>w<n. worker_work (stop_requested (destructor s) w) (worker s w)) +
     join_work n (destructor s)"

lemma sum_update_at:
  fixes f :: "nat \<Rightarrow> 'a \<Rightarrow> nat"
  assumes "i < n"
  shows "(\<Sum>w<n. f w ((g(i := x)) w)) + f i (g i) = (\<Sum>w<n. f w (g w)) + f i x"
proof -
  have "(\<Sum>w<n. f w ((g(i := x)) w)) = f i x + (\<Sum>w\<in>{..<n} - {i}. f w (g w))"
    using assms by (subst sum.remove [of _ i]) (auto intro: sum.cong)
  moreover have "(\<Sum>w<n. f w (g w)) = f i (g i) + (\<Sum>w\<in>{..<n} - {i}. f w (g w))"
    using assms by (subst sum.remove [of _ i]) auto
  ultimately show ?thesis by simp
qed

lemma pool_work_worker:
  assumes "w < n"
  shows "pool_work n (s\<lparr>worker := (worker s)(w := p)\<rparr>) + worker_work (stop_requested (destructor s) w) (worker s w) =
    pool_work n s + worker_work (stop_requested (destructor s) w) p"
  using sum_update_at [OF assms, of "\<lambda>w. worker_work (stop_requested (destructor s) w)" "worker s" p]
  by (simp add: pool_work_def)

lemma worker_work_stop: "worker_work True p \<le> worker_work stop p"
  by (cases p) auto

lemma stop_requested_mono: "stop_requested (Joining i) w \<Longrightarrow> stop_requested (join_from n (Suc i)) w"
  by (simp add: join_from_def)

lemma pool_work_joins:
  assumes "destructor s = Joining i" "i < n"
  shows "pool_work n (s\<lparr>destructor := join_from n (Suc i)\<rparr>) < pool_work n s"
proof -
  have "(\<Sum>w<n. worker_work (stop_requested (join_from n (Suc i)) w) (worker s w))
      \<le> (\<Sum>w<n. worker_work (stop_requested (Joining i) w) (worker s w))"
  proof (rule sum_mono)
    fix w
    show "worker_work (stop_requested (join_from n (Suc i)) w) (worker s w)
        \<le> worker_work (stop_requested (Joining i) w) (worker s w)"
      using worker_work_stop [of "worker s w"] stop_requested_mono [of i w n]
      by (cases "stop_requested (join_from n (Suc i)) w"; cases "w \<le> i") auto
  qed
  moreover have "join_work n (join_from n (Suc i)) < n - i" using assms(2) by (auto simp: join_from_def)
  ultimately show ?thesis using assms(1) by (simp add: pool_work_def)
qed

lemma section_work:
  assumes "w < n" "worker s w = AtWait"
  shows "pool_work n (worker_section w s) < pool_work n s"
proof (cases "tasks s")
  case Nil
  then show ?thesis using pool_work_worker [OF assms(1), of s Exited] pool_work_worker [OF assms(1), of s Waiting] assms(2)
    by (cases "stop_requested (destructor s) w") (simp_all add: state_simps)
next
  case (Cons t q)
  then show ?thesis using pool_work_worker [OF assms(1), of s "Working t"] assms(2)
    by (cases "stop_requested (destructor s) w") (simp_all add: state_simps pool_work_def)
qed

lemma section_destructor [simp]: "destructor (worker_section w s) = destructor s"
  by (simp add: state_simps)

lemma closing_step:
  assumes "pool_ok v n s" "destructor s \<noteq> Alive" "pool_step v False n s s'"
  shows "destructor s' \<noteq> Alive \<and> pool_work n s' < pool_work n s"
  using assms(3)
proof cases
  case (test w)
  then show ?thesis using pool_work_worker [of w n s "worker s' w"] assms(2)
    by (auto simp: state_simps split: if_splits)
next
  case (under_lock w)
  then show ?thesis using section_work assms(2) by auto
next
  case (joins i)
  then show ?thesis using pool_work_joins [of s i n] pool_okD(6) [OF assms(1)] by (simp add: join_from_def)
next
  case (stop_wakes w)
  then show ?thesis using pool_work_worker [of w n s "worker s' w"] assms(2) by (simp add: state_simps)
next
  case (finishes w t)
  then show ?thesis using pool_work_worker [of w n s "worker s' w"] assms(2) 
    by (cases "stop_requested (destructor s) w") (auto simp: state_simps pool_work_def)
qed (use assms(2) pool_okD(5) [OF assms(1)] in auto)

lemma closing_not_stuck:
  assumes "pool_ok v n s" "destructor s \<noteq> Alive" "destructor s \<noteq> Gone"
  shows "\<exists>s'. pool_step v False n s s'"
proof -
  obtain i where i: "destructor s = Joining i" using assms(2,3) by (cases "destructor s") auto
  with pool_okD(6) [OF assms(1)] have "i < n" by blast
  moreover have "stop_requested (destructor s) i" using i by simp
  ultimately show ?thesis using i
    by (cases "worker s i") (blast intro: pool_step.intros)+
qed

interpretation stop_token: closing_machine "pool_step v False n" "pool_ok v n"
  "\<lambda>s. destructor s \<noteq> Alive" "\<lambda>s. destructor s = Gone" "pool_work n"
  by unfold_locales (auto intro: pool_ok_step dest: closing_step closing_not_stuck)

subsection \<open>A pool that is destroyed with work left\<close>

definition abandoned :: "nat \<Rightarrow> nat \<Rightarrow> 't \<Rightarrow> 't pool" where
  "abandoned n i t = \<lparr>tasks = [t], worker = (\<lambda>w. if w < i then Exited else LoopHead), notifying = 0,
     destructor = join_from n i, submitted = [t], started = [], completed = {#}\<rparr>"

lemma abandoned_next:
  assumes "i < n"
  shows "(pool_step Stopping False n)\<^sup>*\<^sup>* (abandoned n i t) (abandoned n (Suc i) t)"
proof -
  let ?mid = "test_loop Stopping i (abandoned n i t)"
  have "pool_step Stopping False n (abandoned n i t) ?mid"
    using assms by (intro pool_step.test) (simp_all add: abandoned_def)
  moreover have "pool_step Stopping False n ?mid (?mid\<lparr>destructor := join_from n (Suc i)\<rparr>)"
    using assms by (intro pool_step.joins) (simp_all add: abandoned_def state_simps)
  moreover have "?mid\<lparr>destructor := join_from n (Suc i)\<rparr> = abandoned n (Suc i) t"
    using assms by (auto simp: abandoned_def state_simps fun_eq_iff less_Suc_eq)
  ultimately show ?thesis by (metis converse_rtranclp_into_rtranclp r_into_rtranclp)
qed

lemma abandoned_reachable: "i \<le> n \<Longrightarrow> (pool_step Stopping False n)\<^sup>*\<^sup>* pool_start (abandoned n i t)"
proof (induction i)
  case 0
  have "pool_step Stopping False n pool_start (pool_submit t pool_start)"
    by (rule pool_step.submits) (simp add: pool_start_def)
  moreover have "pool_step Stopping False n (pool_submit t pool_start) (notified (pool_submit t pool_start))"
    by (rule pool_step.notifies_none) (simp_all add: pool_start_def state_simps)
  moreover have "pool_step Stopping False n (notified (pool_submit t pool_start))
      ((notified (pool_submit t pool_start))\<lparr>destructor := join_from n 0\<rparr>)"
    by (rule pool_step.destroy) (simp_all add: pool_start_def state_simps)
  moreover have "(notified (pool_submit t pool_start))\<lparr>destructor := join_from n 0\<rparr> = abandoned n 0 t"
    by (simp add: abandoned_def pool_start_def state_simps)
  ultimately show ?case by (metis converse_rtranclp_into_rtranclp r_into_rtranclp)
next
  case (Suc i)
  then show ?case using abandoned_next [of i n t] by (meson Suc_le_lessD rtranclp_trans less_imp_le)
qed

subsection \<open>Properties\<close>

text \<open>
  Property C26: in both pools, with any number of threads, tasks start in the order they were
  submitted; those started and not completed are the ones the threads run; and no wake-up is
  lost: while a task waits and the pool lives, a notification is under way or a thread is awake.
\<close>

theorem pool_tasks_in_order:
  assumes "(pool_step v spurious n)\<^sup>*\<^sup>* pool_start s"
  shows "submitted s = started s @ tasks s \<and>
    mset (started s) = completed s + (\<Sum>w<n. in_work (worker s w)) \<and>
    (destructor s = Alive \<longrightarrow> tasks s \<noteq> [] \<longrightarrow> 0 < n \<longrightarrow>
      0 < notifying s \<or> (\<exists>w<n. worker s w \<noteq> Waiting \<and> worker s w \<noteq> Exited))"
proof -
  have "pool_ok v n s" using stop_token.reachable_inv [OF refl assms] .
  then show ?thesis using stop_token.tasks_in_order [OF assms refl] pool_okD(1,4) [of v n s]
    by (auto simp: in_progress_def awake_def)
qed

theorem pool_tasks_in_order_witness:
  "submitted (abandoned 2 1 ''t'') = started (abandoned 2 1 ''t'') @ tasks (abandoned 2 1 ''t'')"
  using pool_tasks_in_order [OF abandoned_reachable [of 1 2 "''t''"]] by simp

text \<open>
  Property C27: once the destructor of a pool with threads has begun, every execution without
  spurious wake-ups is over within the given number of steps, and where it is over the
  destructor has returned; the draining pool has then completed all the tasks submitted.
\<close>

theorem pool_destructor_ends:
  assumes "(pool_step v True n)\<^sup>*\<^sup>* pool_start s" "destructor s \<noteq> Alive" "0 < n"
    and "(pool_step v False n ^^ k) s s'"
  shows "k \<le> pool_work n s \<and>
    ((\<forall>u. \<not> pool_step v False n s' u) \<longrightarrow>
      destructor s' = Gone \<and> (v = Draining \<longrightarrow> completed s' = mset (submitted s')))"
proof -
  have ok: "pool_ok v n s" using stop_token.reachable_inv [OF refl assms(1)] .
  note run = stop_token.closing_runs [OF assms(4) ok assms(2)]
  have "(pool_step v True n)\<^sup>*\<^sup>* s s'"
    using relpowp_imp_rtranclp [OF assms(4)] by (rule rtranclp_mono [THEN predicate2D, rotated]) (auto intro: spurious_mono)
  with assms(1) have reach: "(pool_step v True n)\<^sup>*\<^sup>* pool_start s'" by (rule rtranclp_trans)
  have "completed s' = mset (submitted s')" if "destructor s' = Gone" "v = Draining"
  proof -
    have "tasks s' = []" using pool_okD(3,7) [of v n s'] run that assms(3) by blast
    moreover have "in_progress n s' = {#}"
      using pool_okD(7) [of v n s'] run that(1) by (simp add: in_progress_def)
    ultimately show ?thesis
      using stop_token.tasks_in_order [OF reach refl] pool_okD(1) [of v n s'] run by simp
  qed
  then show ?thesis using run stop_token.stuck_closed [OF assms(4) ok assms(2)] by auto
qed

theorem pool_destructor_ends_witness:
  "\<exists>s. destructor s \<noteq> Alive \<and> (\<forall>k s'. (pool_step Stopping False 2 ^^ k) s s' \<longrightarrow> k \<le> pool_work 2 s) \<and>
    tasks s = [7 :: nat]"
proof (intro exI [of _ "abandoned 2 1 7"] conjI allI impI)
  have "(pool_step Stopping True 2)\<^sup>*\<^sup>* pool_start (abandoned 2 1 (7 :: nat))"
    using abandoned_reachable [of 1 2 "7 :: nat"]
    by (rule rtranclp_mono [THEN predicate2D, rotated]) (auto intro: spurious_mono)
  moreover show joining: "destructor (abandoned 2 1 (7 :: nat)) \<noteq> Alive" by (simp add: abandoned_def join_from_def)
  ultimately show "k \<le> pool_work 2 (abandoned 2 1 (7 :: nat))"
    if "(pool_step Stopping False 2 ^^ k) (abandoned 2 1 (7 :: nat)) s'" for k s'
    using pool_destructor_ends [OF _ joining _ that] by simp
qed (simp add: abandoned_def)

text \<open>
  The second pool does not run the tasks left in its queue, although its comment
  says that the queue is handled: a task can be submitted, and the destructor return, without
  the task having started.
\<close>

theorem pool4_drops_tasks:
  "\<exists>s. (pool_step Stopping False n)\<^sup>*\<^sup>* pool_start s \<and> destructor s = Gone \<and>
    submitted s = [t] \<and> started s = [] \<and> tasks s = [t]"
  by (intro exI [of _ "abandoned n n t"] conjI abandoned_reachable)
    (simp_all add: abandoned_def join_from_def)

end
