(* ===== verification/Pool_Flag.thy ===== *)
theory Pool_Flag
  imports Task_Pool
begin

text \<open>
  The thread pool of \<open>multiThread/ThreadPool3.cpp\<close>: a queue under a mutex, a condition
  variable, a flag that asks the threads to stop, and threads that are joined when the vector
  that owns them is destroyed. That vector is the first member of the class, so the flag, the
  condition variable, the mutex and the queue are destroyed before it. A section under the mutex
  is one step. A thread that uses a destroyed member sets \<open>flag_fault\<close> and is not modelled further.
\<close>

subsection \<open>The pool\<close>

datatype 't flag_worker = Head | At_wait | In_wait | Runs 't | Done

text \<open>
  The stages of the destructor: \<open>stop\<close> sets the flag, then notifies; the members are
  destroyed; the threads are asked to stop and joined one after the other.
\<close>

datatype flag_stage = Living | Flagged | Notified | Joins nat | Ended

record 't flag_pool =
  flag_tasks :: "'t list"
  flag_worker :: "nat \<Rightarrow> 't flag_worker"
  stop_flag :: bool
  stopping_calls :: nat
  notify_calls :: nat
  stage :: flag_stage
  flag_fault :: bool
  flag_submitted :: "'t list"
  flag_started :: "'t list"

definition flag_start :: "'t flag_pool" where
  "flag_start = \<lparr>flag_tasks = [], flag_worker = (\<lambda>_. Head), stop_flag = False, stopping_calls = 0,
     notify_calls = 0, stage = Living, flag_fault = False, flag_submitted = [], flag_started = []\<rparr>"

fun token_stopped :: "flag_stage \<Rightarrow> nat \<Rightarrow> bool" where
  "token_stopped (Joins i) w = (w \<le> i)"
| "token_stopped Ended w = True"
| "token_stopped Living w = False"
| "token_stopped Flagged w = False"
| "token_stopped Notified w = False"

fun members_alive :: "flag_stage \<Rightarrow> bool" where
  "members_alive (Joins i) = False"
| "members_alive Ended = False"
| "members_alive Living = True"
| "members_alive Flagged = True"
| "members_alive Notified = True"

definition set_worker :: "nat \<Rightarrow> 't flag_worker \<Rightarrow> 't flag_pool \<Rightarrow> 't flag_pool" where
  "set_worker w p s = s\<lparr>flag_worker := (flag_worker s)(w := p)\<rparr>"

definition flag_test :: "nat \<Rightarrow> 't flag_pool \<Rightarrow> 't flag_pool" where
  "flag_test w s = set_worker w (if token_stopped (stage s) w then Done else At_wait) s"

text \<open>
  The section under the mutex, with the predicate of the wait; without a task the thread goes
  back to the test.
\<close>

definition wait_over :: "nat \<Rightarrow> 't flag_pool \<Rightarrow> bool" where
  "wait_over w s = (stop_flag s \<or> flag_tasks s \<noteq> [] \<or> token_stopped (stage s) w)"

definition flag_section :: "nat \<Rightarrow> 't flag_pool \<Rightarrow> 't flag_pool" where
  "flag_section w s =
     (if \<not> members_alive (stage s) then set_worker w Done (s\<lparr>flag_fault := True\<rparr>)
      else if \<not> wait_over w s then set_worker w In_wait s
      else if stop_flag s \<and> flag_tasks s = [] then set_worker w Done s
      else case flag_tasks s of
        [] \<Rightarrow> set_worker w Head s
      | t # ts \<Rightarrow> set_worker w (Runs t) (s\<lparr>flag_tasks := ts, flag_started := flag_started s @ [t]\<rparr>))"

definition flag_enqueue :: "'t \<Rightarrow> 't flag_pool \<Rightarrow> 't flag_pool" where
  "flag_enqueue t s =
     s\<lparr>flag_tasks := flag_tasks s @ [t], notify_calls := Suc (notify_calls s), flag_submitted := flag_submitted s @ [t]\<rparr>"

text \<open>\<open>stop\<close> sets the flag under the mutex and notifies all threads afterwards.\<close>

definition flag_stop :: "'t flag_pool \<Rightarrow> 't flag_pool" where
  "flag_stop s = s\<lparr>stop_flag := True\<rparr>"

definition flag_notify_all :: "'t flag_pool \<Rightarrow> 't flag_pool" where
  "flag_notify_all s =
     s\<lparr>flag_worker := (\<lambda>w. if flag_worker s w = In_wait then At_wait else flag_worker s w)\<rparr>"

definition flag_joins :: "nat \<Rightarrow> nat \<Rightarrow> flag_stage" where
  "flag_joins n i = (if i < n then Joins i else Ended)"

inductive flag_step :: "nat \<Rightarrow> 't flag_pool \<Rightarrow> 't flag_pool \<Rightarrow> bool"
  for n :: nat
where
  test: "w < n \<Longrightarrow> flag_worker s w = Head \<Longrightarrow> flag_step n s (flag_test w s)"
| under_lock: "w < n \<Longrightarrow> flag_worker s w = At_wait \<Longrightarrow> flag_step n s (flag_section w s)"
| spurious: "w < n \<Longrightarrow> flag_worker s w = In_wait \<Longrightarrow> flag_step n s (set_worker w At_wait s)"
| runs: "w < n \<Longrightarrow> flag_worker s w = Runs t \<Longrightarrow> flag_step n s (set_worker w Head s)"
| enqueues: "stage s = Living \<Longrightarrow> flag_step n s (flag_enqueue t s)"
| notifies: "0 < notify_calls s \<Longrightarrow> w < n \<Longrightarrow> flag_worker s w = In_wait \<Longrightarrow>
    flag_step n s (set_worker w At_wait (s\<lparr>notify_calls := notify_calls s - 1\<rparr>))"
| notifies_none: "0 < notify_calls s \<Longrightarrow> (\<And>w. w < n \<Longrightarrow> flag_worker s w \<noteq> In_wait) \<Longrightarrow>
    flag_step n s (s\<lparr>notify_calls := notify_calls s - 1\<rparr>)"
| stops: "stage s = Living \<Longrightarrow> flag_step n s ((flag_stop s)\<lparr>stopping_calls := Suc (stopping_calls s)\<rparr>)"
| stop_notifies: "0 < stopping_calls s \<Longrightarrow>
    flag_step n s ((flag_notify_all s)\<lparr>stopping_calls := stopping_calls s - 1\<rparr>)"
| destroy: "stage s = Living \<Longrightarrow> notify_calls s = 0 \<Longrightarrow> stopping_calls s = 0 \<Longrightarrow>
    flag_step n s ((flag_stop s)\<lparr>stage := Flagged\<rparr>)"
| destroy_notifies: "stage s = Flagged \<Longrightarrow> flag_step n s ((flag_notify_all s)\<lparr>stage := Notified\<rparr>)"
| members_destroyed: "stage s = Notified \<Longrightarrow> flag_step n s (s\<lparr>stage := flag_joins n 0\<rparr>)"
| joins: "stage s = Joins i \<Longrightarrow> flag_worker s i = Done \<Longrightarrow> flag_step n s (s\<lparr>stage := flag_joins n (Suc i)\<rparr>)"

lemmas [state_simps] = set_worker_def flag_test_def flag_section_def flag_enqueue_def flag_stop_def
  flag_notify_all_def flag_joins_def wait_over_def

interpretation flag: task_pool "\<lambda>s. s = flag_start" "flag_step n" flag_submitted flag_started flag_tasks
proof unfold_locales
  fix s s' :: "'a flag_pool"
  show "s = flag_start \<Longrightarrow> flag_submitted s = [] \<and> flag_started s = [] \<and> flag_tasks s = []"
    by (simp add: flag_start_def)
  assume "flag_step n s s'"
  then show "flag_submitted s' = flag_submitted s \<and> flag_started s' = flag_started s \<and> flag_tasks s' = flag_tasks s \<or>
      (\<exists>t. flag_submitted s' = flag_submitted s @ [t] \<and> flag_started s' = flag_started s \<and> flag_tasks s' = flag_tasks s @ [t]) \<or>
      (\<exists>t. flag_submitted s' = flag_submitted s \<and> flag_started s' = flag_started s @ [t] \<and> flag_tasks s = t # flag_tasks s')"
    by cases (auto simp: state_simps split: list.splits)
qed

subsection \<open>While the members live\<close>

definition flag_ok :: "nat \<Rightarrow> 't flag_pool \<Rightarrow> bool" where
  "flag_ok n s \<longleftrightarrow>
     (members_alive (stage s) \<longrightarrow> \<not> flag_fault s) \<and>
     (stage s \<noteq> Living \<longrightarrow> stop_flag s \<and> stopping_calls s = 0) \<and>
     (stop_flag s \<longrightarrow> stopping_calls s = 0 \<longrightarrow> stage s \<noteq> Flagged \<longrightarrow> (\<forall>w. flag_worker s w \<noteq> In_wait))"

lemma flag_ok_start: "flag_ok n flag_start"
  by (simp add: flag_ok_def flag_start_def)

lemma members_alive_joins [simp]: "\<not> members_alive (flag_joins n i)" "flag_joins n i \<noteq> Living" "flag_joins n i \<noteq> Flagged"
  by (simp_all add: flag_joins_def)

lemma flag_ok_section: "flag_ok n s \<Longrightarrow> flag_ok n (flag_section w s)"
  by (auto simp: flag_ok_def flag_section_def set_worker_def wait_over_def split: list.splits)

lemma flag_ok_step: "flag_ok n s \<Longrightarrow> flag_step n s s' \<Longrightarrow> flag_ok n s'"
proof (erule flag_step.cases, goal_cases)
  case (2 w s1)
  then show ?case by (simp add: flag_ok_section)
next
  case (9 s1)
  then show ?case by (cases "stage s1 = Living") (auto simp: flag_ok_def flag_notify_all_def)
next
  case (13 s1 i)
  then show ?case by (simp add: flag_ok_def)
qed (auto simp: flag_ok_def flag_test_def set_worker_def flag_enqueue_def flag_stop_def flag_notify_all_def)

interpretation flag: inductive_invariant "\<lambda>s. s = flag_start" "flag_step n" "flag_ok n"
  by unfold_locales (auto intro: flag_ok_start flag_ok_step)

subsection \<open>Properties\<close>

text \<open>
  Tasks start in the order they were submitted; no destroyed member is used before the members
  are destroyed; and once \<open>stop\<close> has set the flag and has notified, no thread waits.
\<close>

theorem flag_pool_order:
  assumes "(flag_step n)\<^sup>*\<^sup>* flag_start s"
  shows "flag_submitted s = flag_started s @ flag_tasks s \<and> (members_alive (stage s) \<longrightarrow> \<not> flag_fault s) \<and>
    (stop_flag s \<longrightarrow> stopping_calls s = 0 \<longrightarrow> stage s \<noteq> Flagged \<longrightarrow> (\<forall>w. flag_worker s w \<noteq> In_wait))"
  using flag.tasks_in_order [OF assms refl] flag.reachable_inv [OF refl assms] by (simp add: flag_ok_def)

text \<open>
  A pool with at least one thread that is created and destroyed at once can lock
  its destroyed mutex: the thread passes the test of its loop, the members are destroyed, and the
  thread goes on to the section under the mutex before it is joined.
\<close>

theorem flag_pool_destroyed_in_use:
  assumes "0 < n"
  shows "\<exists>s. (flag_step n)\<^sup>*\<^sup>* flag_start s \<and> flag_submitted s = [] \<and> stage s = Joins 0 \<and> flag_fault s"
proof -
  define s1 where "s1 = flag_test 0 (flag_start :: 'a flag_pool)"
  define s2 where "s2 = (flag_stop s1)\<lparr>stage := Flagged\<rparr>"
  define s3 where "s3 = (flag_notify_all s2)\<lparr>stage := Notified\<rparr>"
  define s4 where "s4 = s3\<lparr>stage := flag_joins n 0\<rparr>"
  define s5 where "s5 = flag_section 0 s4"
  note defs = s1_def s2_def s3_def s4_def s5_def flag_start_def state_simps
  have "flag_step n flag_start s1" unfolding s1_def using assms by (intro flag_step.test) (simp_all add: defs)
  moreover have "flag_step n s1 s2" unfolding s2_def by (intro flag_step.destroy) (simp_all add: defs)
  moreover have "flag_step n s2 s3" unfolding s3_def by (intro flag_step.destroy_notifies) (simp add: defs)
  moreover have "flag_step n s3 s4" unfolding s4_def by (intro flag_step.members_destroyed) (simp add: defs)
  moreover have "flag_step n s4 s5" unfolding s5_def using assms by (intro flag_step.under_lock) (simp_all add: defs)
  ultimately have "(flag_step n)\<^sup>*\<^sup>* flag_start s5" by (meson converse_rtranclp_into_rtranclp rtranclp.rtrancl_refl)
  moreover have "flag_submitted s5 = [] \<and> stage s5 = Joins 0 \<and> flag_fault s5" using assms by (simp add: defs)
  ultimately show ?thesis by blast
qed

theorem flag_pool_destroyed_in_use_witness:
  "\<exists>s :: nat flag_pool. (flag_step 4)\<^sup>*\<^sup>* flag_start s \<and> flag_submitted s = [] \<and> stage s = Joins 0 \<and> flag_fault s"
  by (rule flag_pool_destroyed_in_use) simp

end
