(* ===== verification/Pool_Semaphore.thy ===== *)
theory Pool_Semaphore
  imports Task_Pool
begin

text \<open>
  The thread pool of \<open>multiThread/Semaphore Thread Pool2.cpp\<close>: a queue under a mutex and a
  counting semaphore with one permit for every task, and one for every thread at the end. The
  vector of threads is the first member, so the other members are destroyed before the threads
  are joined. A section under the mutex is one step; a thread that calls an operation of a destroyed
  member sets \<open>sem_fault\<close> and is not modelled further. Tasks do not throw.
\<close>

subsection \<open>Tasks\<close>

text \<open>
  A \<open>Task\<close> owns a function object; moving leaves the function pointers of the source but
  takes its object. The assignment also says which object it deletes.
\<close>

record 'f task =
  obj :: "'f option"
  fn :: bool

definition task_empty :: "'f task" where
  "task_empty = \<lparr>obj = None, fn = False\<rparr>"

definition Task :: "'f \<Rightarrow> 'f task" where
  "Task f = \<lparr>obj = Some f, fn = True\<rparr>"

definition task_move :: "'f task \<Rightarrow> 'f task \<times> 'f task" where
  "task_move other = (other, other\<lparr>obj := None\<rparr>)"

definition task_reset :: "'f task \<Rightarrow> 'f task \<times> 'f option" where
  "task_reset t = (t\<lparr>obj := None\<rparr>, obj t)"

definition task_assign :: "'f task \<Rightarrow> 'f task \<Rightarrow> 'f task \<times> 'f task \<times> 'f option" where
  "task_assign t other = (other, other\<lparr>obj := None\<rparr>, snd (task_reset t))"

definition task_bool :: "'f task \<Rightarrow> bool" where
  "task_bool t = (obj t \<noteq> None)"

subsection \<open>The pool\<close>

datatype 'f sem_worker = Acquires | Blocked | Acquired | Takes | Calls "'f task" | Returned

datatype sem_stage = Serving | Requesting nat | Requested | Released | Joins_at nat | Over

record 'f sem_pool =
  sem_tasks :: "'f task list"
  permits :: nat
  sem_worker :: "nat \<Rightarrow> 'f sem_worker"
  releasing :: nat
  stopping :: bool
  sem_stage :: sem_stage
  sem_fault :: bool
  sem_submitted :: "'f list"
  sem_taken :: "'f option list"

definition sem_start :: "'f sem_pool" where
  "sem_start = \<lparr>sem_tasks = [], permits = 0, sem_worker = (\<lambda>_. Acquires), releasing = 0, stopping = False,
     sem_stage = Serving, sem_fault = False, sem_submitted = [], sem_taken = []\<rparr>"

fun sem_stop_requested :: "sem_stage \<Rightarrow> nat \<Rightarrow> bool" where
  "sem_stop_requested Serving w = False"
| "sem_stop_requested (Requesting i) w = (w < i)"
| "sem_stop_requested Requested w = True"
| "sem_stop_requested Released w = True"
| "sem_stop_requested (Joins_at i) w = True"
| "sem_stop_requested Over w = True"

fun sem_members :: "sem_stage \<Rightarrow> bool" where
  "sem_members Serving = True"
| "sem_members (Requesting i) = True"
| "sem_members Requested = True"
| "sem_members Released = True"
| "sem_members (Joins_at i) = False"
| "sem_members Over = False"

definition at_worker :: "nat \<Rightarrow> 'f sem_worker \<Rightarrow> 'f sem_pool \<Rightarrow> 'f sem_pool" where
  "at_worker w p s = s\<lparr>sem_worker := (sem_worker s)(w := p)\<rparr>"

definition misuse :: "nat \<Rightarrow> 'f sem_pool \<Rightarrow> 'f sem_pool" where
  "misuse w s = at_worker w Returned (s\<lparr>sem_fault := True\<rparr>)"

text \<open>\<open>enqueue\<close> fails when the pool is stopping; the permit is released after the mutex.\<close>

definition sem_enqueue :: "'f task \<Rightarrow> 'f sem_pool \<Rightarrow> 'f sem_pool option" where
  "sem_enqueue t s =
     (if stopping s then None
      else Some (s\<lparr>sem_tasks := sem_tasks s @ [fst (task_move t)], releasing := Suc (releasing s)\<rparr>))"

definition sem_submit :: "'f \<Rightarrow> 'f sem_pool \<Rightarrow> 'f sem_pool" where
  "sem_submit f s =
     (case sem_enqueue (Task f) s of None \<Rightarrow> s | Some s1 \<Rightarrow> s1\<lparr>sem_submitted := sem_submitted s @ [f]\<rparr>)"

definition sem_release :: "nat \<Rightarrow> 'f sem_pool \<Rightarrow> 'f sem_pool" where
  "sem_release k s = s\<lparr>permits := permits s + k\<rparr>"

text \<open>The loop of the threads.\<close>

definition sem_acquire :: "nat \<Rightarrow> 'f sem_pool \<Rightarrow> 'f sem_pool" where
  "sem_acquire w s =
     (if \<not> sem_members (sem_stage s) then misuse w s
      else if 0 < permits s then at_worker w Acquired (s\<lparr>permits := permits s - 1\<rparr>)
      else at_worker w Blocked s)"

definition sem_check :: "nat \<Rightarrow> 'f sem_pool \<Rightarrow> 'f sem_pool" where
  "sem_check w s =
     (if sem_stop_requested (sem_stage s) w
      then if \<not> sem_members (sem_stage s) then misuse w s
        else if sem_tasks s = [] then at_worker w Returned s else at_worker w Takes s
      else at_worker w Takes s)"

definition sem_take :: "nat \<Rightarrow> 'f sem_pool \<Rightarrow> 'f sem_pool" where
  "sem_take w s =
     (if \<not> sem_members (sem_stage s) then misuse w s
      else case sem_tasks s of
        [] \<Rightarrow> at_worker w Acquires s
      | t # ts \<Rightarrow>
          at_worker w (Calls (fst (task_assign task_empty t)))
            (s\<lparr>sem_tasks := ts, sem_taken := sem_taken s @ [obj t]\<rparr>))"

definition sem_call :: "nat \<Rightarrow> 'f task \<Rightarrow> 'f sem_pool \<Rightarrow> 'f sem_pool" where
  "sem_call w t s =
     (if obj t = None \<or> \<not> fn t then misuse w s else at_worker w Acquires s)"

text \<open>
  The destructor: the flag, the requests to stop in the order of the threads, the permits, the
  end of the members, the joins.
\<close>

definition sem_requests :: "nat \<Rightarrow> nat \<Rightarrow> sem_stage" where
  "sem_requests n i = (if i < n then Requesting i else Requested)"

definition sem_joins :: "nat \<Rightarrow> nat \<Rightarrow> sem_stage" where
  "sem_joins n i = (if i < n then Joins_at i else Over)"

inductive sem_step :: "nat \<Rightarrow> 'f sem_pool \<Rightarrow> 'f sem_pool \<Rightarrow> bool"
  for n :: nat
where
  acquires: "w < n \<Longrightarrow> sem_worker s w = Acquires \<Longrightarrow> sem_step n s (sem_acquire w s)"
| unblocks: "w < n \<Longrightarrow> sem_worker s w = Blocked \<Longrightarrow> 0 < permits s \<Longrightarrow> sem_step n s (sem_acquire w s)"
| checks: "w < n \<Longrightarrow> sem_worker s w = Acquired \<Longrightarrow> sem_step n s (sem_check w s)"
| takes: "w < n \<Longrightarrow> sem_worker s w = Takes \<Longrightarrow> sem_step n s (sem_take w s)"
| calls: "w < n \<Longrightarrow> sem_worker s w = Calls t \<Longrightarrow> sem_step n s (sem_call w t s)"
| submits: "sem_stage s = Serving \<Longrightarrow> sem_step n s (sem_submit f s)"
| releases: "0 < releasing s \<Longrightarrow> sem_step n s (sem_release 1 (s\<lparr>releasing := releasing s - 1\<rparr>))"
| destroy: "sem_stage s = Serving \<Longrightarrow> releasing s = 0 \<Longrightarrow>
    sem_step n s (s\<lparr>stopping := True, sem_stage := sem_requests n 0\<rparr>)"
| requests: "sem_stage s = Requesting i \<Longrightarrow> sem_step n s (s\<lparr>sem_stage := sem_requests n (Suc i)\<rparr>)"
| releases_all: "sem_stage s = Requested \<Longrightarrow> sem_step n s (sem_release n (s\<lparr>sem_stage := Released\<rparr>))"
| members_destroyed: "sem_stage s = Released \<Longrightarrow> sem_step n s (s\<lparr>sem_stage := sem_joins n 0\<rparr>)"
| joins: "sem_stage s = Joins_at i \<Longrightarrow> sem_worker s i = Returned \<Longrightarrow>
    sem_step n s (s\<lparr>sem_stage := sem_joins n (Suc i)\<rparr>)"

lemmas [state_simps] = task_empty_def Task_def task_move_def task_assign_def at_worker_def misuse_def
  sem_enqueue_def sem_submit_def sem_release_def sem_acquire_def sem_check_def sem_take_def sem_call_def
  sem_requests_def sem_joins_def

interpretation semaphore: task_pool "\<lambda>s. s = sem_start" "sem_step n"
  "\<lambda>s. map Some (sem_submitted s)" sem_taken "\<lambda>s. map obj (sem_tasks s)"
proof unfold_locales
  fix s s' :: "'a sem_pool"
  show "s = sem_start \<Longrightarrow> map Some (sem_submitted s) = [] \<and> sem_taken s = [] \<and> map obj (sem_tasks s) = []"
    by (simp add: sem_start_def)
  assume "sem_step n s s'"
  then show "map Some (sem_submitted s') = map Some (sem_submitted s) \<and> sem_taken s' = sem_taken s \<and>
        map obj (sem_tasks s') = map obj (sem_tasks s) \<or>
      (\<exists>t. map Some (sem_submitted s') = map Some (sem_submitted s) @ [t] \<and> sem_taken s' = sem_taken s \<and>
        map obj (sem_tasks s') = map obj (sem_tasks s) @ [t]) \<or>
      (\<exists>t. map Some (sem_submitted s') = map Some (sem_submitted s) \<and> sem_taken s' = sem_taken s @ [t] \<and>
        map obj (sem_tasks s) = t # map obj (sem_tasks s'))"
    by cases (auto simp: state_simps split: list.splits)
qed

subsection \<open>Permits\<close>

fun sem_holds :: "'f sem_worker \<Rightarrow> nat" where
  "sem_holds Acquired = 1"
| "sem_holds Takes = 1"
| "sem_holds Acquires = 0"
| "sem_holds Blocked = 0"
| "sem_holds (Calls t) = 0"
| "sem_holds Returned = 0"

definition holding :: "nat \<Rightarrow> 'f sem_pool \<Rightarrow> nat" where
  "holding n s = (\<Sum>w<n. sem_holds (sem_worker s w))"

fun before_release :: "sem_stage \<Rightarrow> bool" where
  "before_release Serving = True"
| "before_release (Requesting i) = True"
| "before_release Requested = True"
| "before_release Released = False"
| "before_release (Joins_at i) = False"
| "before_release Over = False"

definition task_ok :: "'f task \<Rightarrow> bool" where
  "task_ok t \<longleftrightarrow> obj t \<noteq> None \<and> fn t"

definition sem_ok :: "nat \<Rightarrow> 'f sem_pool \<Rightarrow> bool" where
  "sem_ok n s \<longleftrightarrow>
     (\<forall>t \<in> set (sem_tasks s). task_ok t) \<and> (\<forall>w<n. \<forall>t. sem_worker s w = Calls t \<longrightarrow> task_ok t) \<and>
     (stopping s \<longleftrightarrow> sem_stage s \<noteq> Serving) \<and>
     (before_release (sem_stage s) \<longrightarrow> \<not> sem_fault s \<and> permits s + releasing s + holding n s = length (sem_tasks s))"

lemma holding_worker:
  assumes "w < n"
  shows "holding n (at_worker w p s) + sem_holds (sem_worker s w) = holding n s + sem_holds p"
  using sum_update [of "{..<n}" w sem_holds "sem_worker s" p] assms by (simp add: holding_def at_worker_def)

lemma holding_cong [simp]:
  "holding n (s\<lparr>sem_tasks := q\<rparr>) = holding n s" "holding n (s\<lparr>permits := k\<rparr>) = holding n s"
  "holding n (s\<lparr>releasing := k\<rparr>) = holding n s" "holding n (s\<lparr>sem_stage := st\<rparr>) = holding n s"
  "holding n (s\<lparr>stopping := b\<rparr>) = holding n s" "holding n (s\<lparr>sem_submitted := l\<rparr>) = holding n s"
  "holding n (s\<lparr>sem_taken := m\<rparr>) = holding n s" "holding n (s\<lparr>sem_fault := b\<rparr>) = holding n s"
  by (simp_all add: holding_def)

lemma before_release_members [simp]: "before_release st \<Longrightarrow> sem_members st"
  by (cases st) auto

lemma sem_stages [simp]:
  "before_release (sem_requests n i)" "sem_requests n i \<noteq> Serving"
  "\<not> before_release (sem_joins n i)" "sem_joins n i \<noteq> Serving"
  by (simp_all add: sem_requests_def sem_joins_def)

lemma sem_ok_start: "sem_ok n sem_start"
  by (simp add: sem_ok_def sem_start_def holding_def)

lemma at_worker_simps [simp]:
  "sem_tasks (at_worker w p s) = sem_tasks s" "permits (at_worker w p s) = permits s"
  "releasing (at_worker w p s) = releasing s" "sem_stage (at_worker w p s) = sem_stage s"
  "stopping (at_worker w p s) = stopping s" "sem_fault (at_worker w p s) = sem_fault s"
  "sem_worker (at_worker w p s) v = (if v = w then p else sem_worker s v)"
  by (simp_all add: at_worker_def)

lemma sem_ok_acquire:
  assumes "sem_ok n s" "w < n" "sem_worker s w = Acquires \<or> sem_worker s w = Blocked"
  shows "sem_ok n (sem_acquire w s)"
  using assms holding_worker [OF assms(2), of Acquired "s\<lparr>permits := permits s - 1\<rparr>"] holding_worker [OF assms(2), of Blocked s]
  by (auto simp: sem_ok_def sem_acquire_def misuse_def)

lemma sem_ok_check:
  assumes "sem_ok n s" "w < n" "sem_worker s w = Acquired"
  shows "sem_ok n (sem_check w s)"
  using assms holding_worker [OF assms(2), of Takes s] holding_worker [OF assms(2), of Returned s]
  by (auto simp: sem_ok_def sem_check_def misuse_def)

lemma sem_ok_take:
  assumes "sem_ok n s" "w < n" "sem_worker s w = Takes"
  shows "sem_ok n (sem_take w s)"
proof (cases "sem_tasks s")
  case Nil
  then show ?thesis using assms holding_worker [OF assms(2), of Acquires s]
    by (auto simp: sem_ok_def sem_take_def misuse_def)
next
  case (Cons t ts)
  then show ?thesis
    using assms holding_worker [OF assms(2), of "Calls t" "s\<lparr>sem_tasks := ts, sem_taken := sem_taken s @ [obj t]\<rparr>"]
    by (auto simp: sem_ok_def sem_take_def misuse_def task_assign_def)
qed

lemma sem_ok_call:
  assumes "sem_ok n s" "w < n" "sem_worker s w = Calls t"
  shows "sem_ok n (sem_call w t s)"
  using assms holding_worker [OF assms(2), of Acquires s] holding_worker [OF assms(2), of Returned "s\<lparr>sem_fault := True\<rparr>"]
  by (auto simp: sem_ok_def sem_call_def misuse_def task_ok_def)

lemma sem_ok_submit: "sem_ok n s \<Longrightarrow> sem_ok n (sem_submit f s)"
  by (auto simp: sem_ok_def sem_submit_def sem_enqueue_def task_move_def Task_def task_ok_def)

lemma sem_ok_step: "sem_ok n s \<Longrightarrow> sem_step n s s' \<Longrightarrow> sem_ok n s'"
proof (erule sem_step.cases, goal_cases)
  case (7 s1)
  then show ?case by (auto simp: sem_ok_def sem_release_def)
next
  case (8 s1)
  then show ?case by (auto simp: sem_ok_def)
next
  case (9 s1 i)
  then show ?case by (auto simp: sem_ok_def)
next
  case (10 s1)
  then show ?case by (auto simp: sem_ok_def sem_release_def)
next
  case (11 s1)
  then show ?case by (auto simp: sem_ok_def)
next
  case (12 s1 i)
  then show ?case by (auto simp: sem_ok_def)
qed (auto intro: sem_ok_acquire sem_ok_check sem_ok_take sem_ok_call sem_ok_submit)

interpretation semaphore: inductive_invariant "\<lambda>s. s = sem_start" "sem_step n" "sem_ok n"
  by unfold_locales (auto intro: sem_ok_start sem_ok_step)

subsection \<open>A destructor that does not return\<close>

definition sem_state ::
  "nat \<Rightarrow> 'f list \<Rightarrow> nat \<Rightarrow> 'f sem_worker \<Rightarrow> 'f sem_worker \<Rightarrow> bool \<Rightarrow> sem_stage \<Rightarrow> 'f \<Rightarrow> 'f option list \<Rightarrow> 'f sem_pool" where
  "sem_state r q k a b st stage f m =
     \<lparr>sem_tasks = map Task q, permits = k, sem_worker = (\<lambda>_. Acquires)(0 := a, 1 := b), releasing = r,
      stopping = st, sem_stage = stage, sem_fault = False, sem_submitted = [f], sem_taken = m\<rparr>"

lemma sem_start_submit: "sem_step 2 sem_start (sem_state 1 [f] 0 Acquires Acquires False Serving f [])"
  using sem_step.submits [of sem_start 2 f] by (simp add: sem_state_def sem_start_def state_simps fun_upd_idem)

lemma sem_state_upd [simp]:
  "(sem_state r q k a b st stage f m)\<lparr>permits := k'\<rparr> = sem_state r q k' a b st stage f m"
  "(sem_state r q k a b st stage f m)\<lparr>releasing := r'\<rparr> = sem_state r' q k a b st stage f m"
  "(sem_state r q k a b st stage f m)\<lparr>stopping := st'\<rparr> = sem_state r q k a b st' stage f m"
  "(sem_state r q k a b st stage f m)\<lparr>sem_stage := stage'\<rparr> = sem_state r q k a b st stage' f m"
  "(sem_state r q k a b st stage f m)\<lparr>sem_taken := m'\<rparr> = sem_state r q k a b st stage f m'"
  "(sem_state r [g] k a b st stage f m)\<lparr>sem_tasks := [], sem_taken := m'\<rparr> = sem_state r [] k a b st stage f m'"
  "at_worker 0 p (sem_state r q k a b st stage f m) = sem_state r q k p b st stage f m"
  "at_worker (Suc 0) p (sem_state r q k a b st stage f m) = sem_state r q k a p st stage f m"
  by (simp_all add: sem_state_def at_worker_def fun_upd_twist)

lemma sem_state_sel [simp]:
  "permits (sem_state r q k a b st stage f m) = k" "releasing (sem_state r q k a b st stage f m) = r"
  "sem_stage (sem_state r q k a b st stage f m) = stage" "sem_tasks (sem_state r q k a b st stage f m) = map Task q"
  "sem_worker (sem_state r q k a b st stage f m) 0 = a" "sem_worker (sem_state r q k a b st stage f m) (Suc 0) = b"
  "sem_taken (sem_state r q k a b st stage f m) = m" "sem_fault (sem_state r q k a b st stage f m) = False"
  "sem_submitted (sem_state r q k a b st stage f m) = [f]"
  by (simp_all add: sem_state_def)

lemma Task_simps [simp]: "obj (Task f) = Some f" "fn (Task f)"
  by (simp_all add: Task_def)

lemmas sem_trace = sem_release_def sem_acquire_def sem_check_def sem_take_def sem_call_def sem_requests_def
  sem_joins_def task_assign_def

lemma hang_submitted:
  "(sem_step 2)\<^sup>*\<^sup>* (sem_state 1 [f] 0 Acquires Acquires False Serving f [])
    (sem_state 0 [f] 2 Acquired Acquires True Released f [])"
proof -
  have "sem_step 2 (sem_state 1 [f] 0 Acquires Acquires False Serving f [])
      (sem_state 0 [f] 1 Acquires Acquires False Serving f [])"
    using sem_step.releases [of "sem_state 1 [f] 0 Acquires Acquires False Serving f []" 2] by (simp add: sem_trace numeral_eq_Suc)
  moreover have "sem_step 2 (sem_state 0 [f] 1 Acquires Acquires False Serving f [])
      (sem_state 0 [f] 1 Acquires Acquires True (Requesting 0) f [])"
    using sem_step.destroy [of "sem_state 0 [f] 1 Acquires Acquires False Serving f []" 2] by (simp add: sem_trace numeral_eq_Suc)
  moreover have "sem_step 2 (sem_state 0 [f] 1 Acquires Acquires True (Requesting 0) f [])
      (sem_state 0 [f] 1 Acquires Acquires True (Requesting 1) f [])"
    using sem_step.requests [of "sem_state 0 [f] 1 Acquires Acquires True (Requesting 0) f []" 0 2] by (simp add: sem_trace numeral_eq_Suc)
  moreover have "sem_step 2 (sem_state 0 [f] 1 Acquires Acquires True (Requesting 1) f [])
      (sem_state 0 [f] 1 Acquires Acquires True Requested f [])"
    using sem_step.requests [of "sem_state 0 [f] 1 Acquires Acquires True (Requesting 1) f []" 1 2] by (simp add: sem_trace numeral_eq_Suc)
  moreover have "sem_step 2 (sem_state 0 [f] 1 Acquires Acquires True Requested f [])
      (sem_state 0 [f] 3 Acquires Acquires True Released f [])"
    using sem_step.releases_all [of "sem_state 0 [f] 1 Acquires Acquires True Requested f []" 2] by (simp add: sem_trace numeral_eq_Suc)
  moreover have "sem_step 2 (sem_state 0 [f] 3 Acquires Acquires True Released f [])
      (sem_state 0 [f] 2 Acquired Acquires True Released f [])"
    using sem_step.acquires [of 0 2 "sem_state 0 [f] 3 Acquires Acquires True Released f []"] by (simp add: sem_trace numeral_eq_Suc)
  ultimately show ?thesis by (meson converse_rtranclp_into_rtranclp rtranclp.rtrancl_refl)
qed

lemma hang_taken:
  "(sem_step 2)\<^sup>*\<^sup>* (sem_state 0 [f] 2 Acquired Acquires True Released f [])
    (sem_state 0 [] 1 Acquires Acquires True Released f [Some f])"
proof -
  have "sem_step 2 (sem_state 0 [f] 2 Acquired Acquires True Released f [])
      (sem_state 0 [f] 2 Takes Acquires True Released f [])"
    using sem_step.checks [of 0 2 "sem_state 0 [f] 2 Acquired Acquires True Released f []"] by (simp add: sem_trace numeral_eq_Suc)
  moreover have "sem_step 2 (sem_state 0 [f] 2 Takes Acquires True Released f [])
      (sem_state 0 [f] 1 Takes Acquired True Released f [])"
    using sem_step.acquires [of 1 2 "sem_state 0 [f] 2 Takes Acquires True Released f []"] by (simp add: sem_trace numeral_eq_Suc)
  moreover have "sem_step 2 (sem_state 0 [f] 1 Takes Acquired True Released f [])
      (sem_state 0 [f] 1 Takes Takes True Released f [])"
    using sem_step.checks [of 1 2 "sem_state 0 [f] 1 Takes Acquired True Released f []"] by (simp add: sem_trace numeral_eq_Suc)
  moreover have "sem_step 2 (sem_state 0 [f] 1 Takes Takes True Released f [])
      (sem_state 0 [] 1 Takes (Calls (Task f)) True Released f [Some f])"
    using sem_step.takes [of 1 2 "sem_state 0 [f] 1 Takes Takes True Released f []"] by (simp add: sem_trace numeral_eq_Suc)
  moreover have "sem_step 2 (sem_state 0 [] 1 Takes (Calls (Task f)) True Released f [Some f])
      (sem_state 0 [] 1 Takes Acquires True Released f [Some f])"
    using sem_step.calls [of 1 2 "sem_state 0 [] 1 Takes (Calls (Task f)) True Released f [Some f]" "Task f"] by (simp add: sem_trace numeral_eq_Suc)
  moreover have "sem_step 2 (sem_state 0 [] 1 Takes Acquires True Released f [Some f])
      (sem_state 0 [] 1 Acquires Acquires True Released f [Some f])"
    using sem_step.takes [of 0 2 "sem_state 0 [] 1 Takes Acquires True Released f [Some f]"] by (simp add: sem_trace numeral_eq_Suc)
  ultimately show ?thesis by (meson converse_rtranclp_into_rtranclp rtranclp.rtrancl_refl)
qed

lemma hang_blocked:
  "(sem_step 2)\<^sup>*\<^sup>* (sem_state 0 [] 1 Acquires Acquires True Released f [Some f])
    (sem_state 0 [] 0 Returned Blocked True (Joins_at 1) f [Some f])"
proof -
  have "sem_step 2 (sem_state 0 [] 1 Acquires Acquires True Released f [Some f])
      (sem_state 0 [] 0 Acquired Acquires True Released f [Some f])"
    using sem_step.acquires [of 0 2 "sem_state 0 [] 1 Acquires Acquires True Released f [Some f]"] by (simp add: sem_trace numeral_eq_Suc)
  moreover have "sem_step 2 (sem_state 0 [] 0 Acquired Acquires True Released f [Some f])
      (sem_state 0 [] 0 Returned Acquires True Released f [Some f])"
    using sem_step.checks [of 0 2 "sem_state 0 [] 0 Acquired Acquires True Released f [Some f]"] by (simp add: sem_trace numeral_eq_Suc)
  moreover have "sem_step 2 (sem_state 0 [] 0 Returned Acquires True Released f [Some f])
      (sem_state 0 [] 0 Returned Blocked True Released f [Some f])"
    using sem_step.acquires [of 1 2 "sem_state 0 [] 0 Returned Acquires True Released f [Some f]"] by (simp add: sem_trace numeral_eq_Suc)
  moreover have "sem_step 2 (sem_state 0 [] 0 Returned Blocked True Released f [Some f])
      (sem_state 0 [] 0 Returned Blocked True (Joins_at 0) f [Some f])"
    using sem_step.members_destroyed [of "sem_state 0 [] 0 Returned Blocked True Released f [Some f]" 2] by (simp add: sem_trace numeral_eq_Suc)
  moreover have "sem_step 2 (sem_state 0 [] 0 Returned Blocked True (Joins_at 0) f [Some f])
      (sem_state 0 [] 0 Returned Blocked True (Joins_at 1) f [Some f])"
    using sem_step.joins [of "sem_state 0 [] 0 Returned Blocked True (Joins_at 0) f [Some f]" 0 2] by (simp add: sem_trace numeral_eq_Suc)
  ultimately show ?thesis by (meson converse_rtranclp_into_rtranclp rtranclp.rtrancl_refl)
qed


text \<open>
  Property C28: until the destructor releases the last permits the permits balance: those free,
  about to be released and held by threads are as many as the tasks in the queue, so no thread
  finds the queue empty; and tasks are taken in the order they were submitted.
\<close>

theorem sem_permits_balance:
  assumes "(sem_step n)\<^sup>*\<^sup>* sem_start s"
  shows "map Some (sem_submitted s) = sem_taken s @ map obj (sem_tasks s) \<and>
    (before_release (sem_stage s) \<longrightarrow>
      \<not> sem_fault s \<and> permits s + releasing s + (\<Sum>w<n. sem_holds (sem_worker s w)) = length (sem_tasks s) \<and>
      (\<forall>w<n. sem_worker s w = Takes \<longrightarrow> sem_tasks s \<noteq> []))"
proof -
  have ok: "sem_ok n s" using semaphore.reachable_inv [OF refl assms] .
  have "holding n s > 0" if "w < n" "sem_worker s w = Takes" for w
    using holding_worker [OF that(1), of Acquires s] that(2) by simp
  then show ?thesis using ok semaphore.tasks_in_order [OF assms refl] by (auto simp: sem_ok_def holding_def)
qed

theorem sem_permits_balance_witness:
  "map Some (sem_submitted (sem_state 1 [7] 0 Acquires Acquires False Serving 7 [])) = [Some (7 :: nat)]"
  using sem_permits_balance [OF r_into_rtranclp, OF sem_start_submit [of "7 :: nat"]] by simp

text \<open>
  Property C29: the destructor of a pool with two threads may never return. One of the threads takes
  its permit for the task and finds the queue not empty, the other runs the task, and the first
  has then used up a permit for nothing; the second waits for a permit for ever.
\<close>

theorem sem_destructor_hangs:
  "\<exists>s. (sem_step 2)\<^sup>*\<^sup>* sem_start s \<and> sem_submitted s = [f] \<and> \<not> sem_fault s \<and>
    sem_stage s = Joins_at 1 \<and> sem_worker s 1 = Blocked \<and> (\<forall>s'. \<not> sem_step 2 s s')"
proof (intro exI conjI)
  let ?s = "sem_state 0 [] 0 Returned Blocked True (Joins_at 1) f [Some f]"
  show "(sem_step 2)\<^sup>*\<^sup>* sem_start ?s"
    using sem_start_submit hang_submitted hang_taken hang_blocked
    by (meson converse_rtranclp_into_rtranclp rtranclp_trans)
  show "\<forall>s'. \<not> sem_step 2 ?s s'"
    by (auto elim!: sem_step.cases simp: less_2_cases_iff)
qed simp_all

text \<open>
  A pool with at least one thread that is created and destroyed at once can acquire its
  destroyed semaphore.
\<close>

theorem sem_destroyed_in_use:
  assumes "0 < n"
  shows "\<exists>s. (sem_step n)\<^sup>*\<^sup>* sem_start s \<and> sem_submitted s = [] \<and> sem_fault s"
proof -
  define req where "req i = (sem_start :: 'a sem_pool)\<lparr>stopping := True, sem_stage := sem_requests n i\<rparr>" for i
  define s1 where "s1 = sem_release n ((req n)\<lparr>sem_stage := Released\<rparr>)"
  define s2 where "s2 = s1\<lparr>sem_stage := sem_joins n 0\<rparr>"
  define s3 where "s3 = sem_acquire 0 s2"
  note defs = s1_def s2_def s3_def req_def sem_start_def state_simps
  have "sem_step n (req i) (req (Suc i))" if "i < n" for i
    using sem_step.requests [of "req i" i n] that by (simp add: req_def sem_requests_def)
  then have "(sem_step n)\<^sup>*\<^sup>* (req 0) (req i)" if "i \<le> n" for i
    using that by (induction i) (auto intro: rtranclp.rtrancl_into_rtrancl)
  then have "(sem_step n)\<^sup>*\<^sup>* (req 0) (req n)" by simp
  moreover have "sem_step n sem_start (req 0)" unfolding req_def by (intro sem_step.destroy) (simp_all add: sem_start_def)
  moreover have "sem_step n (req n) s1" unfolding s1_def by (intro sem_step.releases_all) (simp add: defs)
  moreover have "sem_step n s1 s2" unfolding s2_def by (intro sem_step.members_destroyed) (simp add: defs)
  moreover have "sem_step n s2 s3" unfolding s3_def using assms by (intro sem_step.acquires) (simp_all add: defs)
  ultimately have "(sem_step n)\<^sup>*\<^sup>* sem_start s3"
    by (meson converse_rtranclp_into_rtranclp rtranclp.rtrancl_into_rtrancl)
  moreover have "sem_submitted s3 = [] \<and> sem_fault s3" using assms by (simp add: defs)
  ultimately show ?thesis by blast
qed

theorem sem_destroyed_in_use_witness:
  "\<exists>s :: nat sem_pool. (sem_step 3)\<^sup>*\<^sup>* sem_start s \<and> sem_submitted s = [] \<and> sem_fault s"
  by (rule sem_destroyed_in_use) simp

end
