(* ===== verification/Pool_Ring.thy ===== *)
theory Pool_Ring
  imports Pool_Semaphore Ring_Buffer
begin

text \<open>
  The thread pool of \<open>multiThread/ThreadPoollockfree4.cpp\<close>: tasks stored in place
  (\<open>SmallTask\<close>), a ring without locks (\<open>RingQueue\<close>) and a counting semaphore. The ring is
  written for one thread at each end; the pool uses it with all its threads at one end and every
  thread that submits at the other. Each access to a shared variable is a step. As in the pool
  with the mutex the threads are joined after the other members are destroyed.
\<close>

subsection \<open>Tasks\<close>

text \<open>
  A \<open>SmallTask\<close> is empty (\<open>fn_\<close> is null) or holds a function. Assigning destroys the old
  content, copies the bytes, and then empties the source: two steps when the source is shared.
\<close>

definition small_copy :: "'f option \<Rightarrow> 'f option" where
  "small_copy other = other"

definition small_clear :: "'f option \<Rightarrow> 'f option" where
  "small_clear other = None"

subsection \<open>The pool\<close>

datatype 'f ring_worker =
    W_acquire | W_blocked | W_acquired
  | W_pop | W_head nat | W_copy nat | W_clear nat "'f option" | W_store nat "'f option"
  | W_run "'f option" | W_returned

datatype 'f ring_producer =
    P_idle | P_push 'f | P_tail 'f nat | P_write 'f nat | P_store 'f nat | P_release

record 'f ring_pool =
  buffer :: "'f option list"
  head :: nat
  tail :: nat
  sem :: nat
  ring_worker :: "nat \<Rightarrow> 'f ring_worker"
  ring_producer :: "nat \<Rightarrow> 'f ring_producer"
  ring_stage :: sem_stage
  ring_fault :: bool
  null_call :: bool
  ring_submitted :: "'f list"
  ring_run :: "'f list"

definition ring_start :: "nat \<Rightarrow> 'f ring_pool" where
  "ring_start queue_size = \<lparr>buffer = replicate queue_size None, head = 0, tail = 0, sem = 0,
     ring_worker = (\<lambda>_. W_acquire), ring_producer = (\<lambda>_. P_idle), ring_stage = Serving,
     ring_fault = False, null_call = False, ring_submitted = [], ring_run = []\<rparr>"

definition set_ring_worker :: "nat \<Rightarrow> 'f ring_worker \<Rightarrow> 'f ring_pool \<Rightarrow> 'f ring_pool" where
  "set_ring_worker w p s = s\<lparr>ring_worker := (ring_worker s)(w := p)\<rparr>"

definition set_producer :: "nat \<Rightarrow> 'f ring_producer \<Rightarrow> 'f ring_pool \<Rightarrow> 'f ring_pool" where
  "set_producer p q s = s\<lparr>ring_producer := (ring_producer s)(p := q)\<rparr>"

definition ring_misuse :: "nat \<Rightarrow> 'f ring_pool \<Rightarrow> 'f ring_pool" where
  "ring_misuse w s = set_ring_worker w W_returned (s\<lparr>ring_fault := True\<rparr>)"

text \<open>\<open>worker_loop\<close>, with \<open>RingQueue::pop\<close>.\<close>

fun worker_loop :: "nat \<Rightarrow> nat \<Rightarrow> 'f ring_worker \<Rightarrow> 'f ring_pool \<Rightarrow> 'f ring_pool" where
  "worker_loop capacity w W_acquire s =
     (if 0 < sem s then set_ring_worker w W_acquired (s\<lparr>sem := sem s - 1\<rparr>) else set_ring_worker w W_blocked s)"
| "worker_loop capacity w W_blocked s =
     (if 0 < sem s then set_ring_worker w W_acquired (s\<lparr>sem := sem s - 1\<rparr>) else s)"
| "worker_loop capacity w W_acquired s =
     set_ring_worker w (if sem_stop_requested (ring_stage s) w then W_returned else W_pop) s"
| "worker_loop capacity w W_pop s = set_ring_worker w (W_head (head s)) s"
| "worker_loop capacity w (W_head h) s = set_ring_worker w (if h = tail s then W_acquire else W_copy h) s"
| "worker_loop capacity w (W_copy h) s = set_ring_worker w (W_clear h (small_copy (buffer s ! h))) s"
| "worker_loop capacity w (W_clear h t) s =
     set_ring_worker w (W_store h t) (s\<lparr>buffer := (buffer s)[h := small_clear (buffer s ! h)]\<rparr>)"
| "worker_loop capacity w (W_store h t) s = set_ring_worker w (W_run t) (s\<lparr>head := Suc h mod capacity\<rparr>)"
| "worker_loop capacity w (W_run t) s =
     (case t of
        None \<Rightarrow> set_ring_worker w W_returned (s\<lparr>null_call := True\<rparr>)
      | Some f \<Rightarrow> set_ring_worker w W_acquire (s\<lparr>ring_run := ring_run s @ [f]\<rparr>))"
| "worker_loop capacity w W_returned s = s"

text \<open>\<open>enqueue\<close>, with \<open>RingQueue::push\<close>; a full queue is tried again.\<close>

fun ring_enqueue :: "nat \<Rightarrow> nat \<Rightarrow> 'f ring_producer \<Rightarrow> 'f ring_pool \<Rightarrow> 'f ring_pool" where
  "ring_enqueue capacity p P_idle s = s"
| "ring_enqueue capacity p (P_push f) s = set_producer p (P_tail f (tail s)) s"
| "ring_enqueue capacity p (P_tail f i) s =
     set_producer p (if Suc i mod capacity = head s then P_push f else P_write f i) s"
| "ring_enqueue capacity p (P_write f i) s =
     set_producer p (P_store f i) (s\<lparr>buffer := (buffer s)[i := small_copy (Some f)]\<rparr>)"
| "ring_enqueue capacity p (P_store f i) s = set_producer p P_release (s\<lparr>tail := Suc i mod capacity\<rparr>)"
| "ring_enqueue capacity p P_release s = set_producer p P_idle (s\<lparr>sem := Suc (sem s)\<rparr>)"

text \<open>\<open>submit\<close> and \<open>submit_detach\<close> make the task and call \<open>enqueue\<close>.\<close>

definition ring_submit :: "nat \<Rightarrow> 'f \<Rightarrow> 'f ring_pool \<Rightarrow> 'f ring_pool" where
  "ring_submit p f s = set_producer p (P_push f) (s\<lparr>ring_submitted := ring_submitted s @ [f]\<rparr>)"

text \<open>Which of its steps a worker can take; those on the members fail after their destruction.\<close>

fun uses_members :: "'f ring_worker \<Rightarrow> bool" where
  "uses_members W_acquire = True"
| "uses_members W_blocked = False"
| "uses_members W_acquired = False"
| "uses_members W_pop = True"
| "uses_members (W_head h) = True"
| "uses_members (W_copy h) = True"
| "uses_members (W_clear h t) = True"
| "uses_members (W_store h t) = True"
| "uses_members (W_run t) = False"
| "uses_members W_returned = False"

inductive ring_step :: "nat \<Rightarrow> nat \<Rightarrow> nat \<Rightarrow> 'f ring_pool \<Rightarrow> 'f ring_pool \<Rightarrow> bool"
  for capacity :: nat and n :: nat and m :: nat
where
  works: "w < n \<Longrightarrow> ring_worker s w \<noteq> W_returned \<Longrightarrow> (ring_worker s w = W_blocked \<Longrightarrow> 0 < sem s) \<Longrightarrow>
    (uses_members (ring_worker s w) \<Longrightarrow> sem_members (ring_stage s)) \<Longrightarrow>
    ring_step capacity n m s (worker_loop capacity w (ring_worker s w) s)"
| works_destroyed: "w < n \<Longrightarrow> uses_members (ring_worker s w) \<Longrightarrow> \<not> sem_members (ring_stage s) \<Longrightarrow>
    ring_step capacity n m s (ring_misuse w s)"
| submits: "p < m \<Longrightarrow> ring_producer s p = P_idle \<Longrightarrow> ring_stage s = Serving \<Longrightarrow>
    ring_step capacity n m s (ring_submit p f s)"
| enqueues: "p < m \<Longrightarrow> ring_producer s p \<noteq> P_idle \<Longrightarrow>
    ring_step capacity n m s (ring_enqueue capacity p (ring_producer s p) s)"
| destroy: "ring_stage s = Serving \<Longrightarrow> (\<And>p. p < m \<Longrightarrow> ring_producer s p = P_idle) \<Longrightarrow>
    ring_step capacity n m s (s\<lparr>ring_stage := sem_requests n 0\<rparr>)"
| requests: "ring_stage s = Requesting i \<Longrightarrow>
    ring_step capacity n m s (s\<lparr>ring_stage := sem_requests n (Suc i)\<rparr>)"
| releases_all: "ring_stage s = Requested \<Longrightarrow>
    ring_step capacity n m s (s\<lparr>sem := sem s + n, ring_stage := Released\<rparr>)"
| members_destroyed: "ring_stage s = Released \<Longrightarrow>
    ring_step capacity n m s (s\<lparr>ring_stage := sem_joins n 0\<rparr>)"
| joins: "ring_stage s = Joins_at i \<Longrightarrow> ring_worker s i = W_returned \<Longrightarrow>
    ring_step capacity n m s (s\<lparr>ring_stage := sem_joins n (Suc i)\<rparr>)"

subsection \<open>One thread at each end\<close>

text \<open>What the threads at the two ends have taken but not run, and submitted but not published.\<close>

fun taken :: "'f ring_worker \<Rightarrow> 'f list" where
  "taken (W_run (Some f)) = [f]"
| "taken _ = []"

fun unpublished :: "'f ring_producer \<Rightarrow> 'f list" where
  "unpublished (P_push f) = [f]"
| "unpublished (P_tail f i) = [f]"
| "unpublished (P_write f i) = [f]"
| "unpublished (P_store f i) = [f]"
| "unpublished P_idle = []"
| "unpublished P_release = []"

text \<open>The queue, with the task the worker has moved out of its slot before it advances the head.\<close>

fun slots :: "'f ring_worker \<Rightarrow> 'f option list \<Rightarrow> 'f option list" where
  "slots (W_store h t) b = b[h := t]"
| "slots _ b = b"

definition queued :: "nat \<Rightarrow> 'f ring_pool \<Rightarrow> 'f option list" where
  "queued capacity s = contents capacity (slots (ring_worker s 0) (buffer s)) (tail s) (head s)"

fun worker_ok :: "'f ring_pool \<Rightarrow> 'f ring_worker \<Rightarrow> bool" where
  "worker_ok s (W_head h) = (h = head s)"
| "worker_ok s (W_copy h) = (h = head s \<and> head s \<noteq> tail s)"
| "worker_ok s (W_clear h t) = (h = head s \<and> head s \<noteq> tail s \<and> t = buffer s ! h)"
| "worker_ok s (W_store h t) = (h = head s \<and> head s \<noteq> tail s)"
| "worker_ok s (W_run t) = (t \<noteq> None)"
| "worker_ok s _ = True"

fun producer_ok :: "nat \<Rightarrow> 'f ring_pool \<Rightarrow> 'f ring_producer \<Rightarrow> bool" where
  "producer_ok capacity s (P_tail f i) = (i = tail s)"
| "producer_ok capacity s (P_write f i) = (i = tail s \<and> Suc i mod capacity \<noteq> head s)"
| "producer_ok capacity s (P_store f i) =
     (i = tail s \<and> Suc i mod capacity \<noteq> head s \<and> buffer s ! i = Some f)"
| "producer_ok capacity s _ = True"

definition ring_ok :: "nat \<Rightarrow> 'f ring_pool \<Rightarrow> bool" where
  "ring_ok capacity s \<longleftrightarrow>
     length (buffer s) = capacity \<and> head s < capacity \<and> tail s < capacity \<and> \<not> null_call s \<and>
     worker_ok s (ring_worker s 0) \<and> producer_ok capacity s (ring_producer s 0) \<and>
     map Some (ring_submitted s) =
       map Some (ring_run s) @ map Some (taken (ring_worker s 0)) @ queued capacity s @
       map Some (unpublished (ring_producer s 0))"

lemma set_ring_worker_simps [simp]:
  "buffer (set_ring_worker w p s) = buffer s" "head (set_ring_worker w p s) = head s"
  "tail (set_ring_worker w p s) = tail s" "sem (set_ring_worker w p s) = sem s"
  "ring_producer (set_ring_worker w p s) = ring_producer s" "ring_stage (set_ring_worker w p s) = ring_stage s"
  "null_call (set_ring_worker w p s) = null_call s" "ring_submitted (set_ring_worker w p s) = ring_submitted s"
  "ring_run (set_ring_worker w p s) = ring_run s" "ring_worker (set_ring_worker w p s) w = p"
  by (simp_all add: set_ring_worker_def)

lemma set_producer_simps [simp]:
  "buffer (set_producer q p s) = buffer s" "head (set_producer q p s) = head s"
  "tail (set_producer q p s) = tail s" "sem (set_producer q p s) = sem s"
  "ring_worker (set_producer q p s) = ring_worker s" "ring_stage (set_producer q p s) = ring_stage s"
  "null_call (set_producer q p s) = null_call s" "ring_submitted (set_producer q p s) = ring_submitted s"
  "ring_run (set_producer q p s) = ring_run s" "ring_producer (set_producer q p s) q = p"
  by (simp_all add: set_producer_def)

lemma Suc_mod_eq: "a < c \<Longrightarrow> b < c \<Longrightarrow> Suc a mod c = Suc b mod c \<longleftrightarrow> a = b"
  using Suc_mod_ring [of a c] Suc_mod_ring [of b c] by (auto split: if_splits)

lemma contents_write_behind:
  assumes "h < n" "t < n" "h \<noteq> t"
  shows "contents n (b[t := v]) h (Suc t mod n) = contents n b h (Suc t mod n)"
proof -
  have "t \<noteq> (Suc t mod n + i) mod n" if "i < occ n h (Suc t mod n)" for i
  proof
    assume "t = (Suc t mod n + i) mod n"
    then have "(t + Suc i) mod n = (t + 0) mod n" using assms(2) by (metis add.right_neutral add_Suc add_Suc_right mod_add_left_eq mod_less)
    moreover have "Suc i < n" using that occ_pop [OF assms] occ_less [OF assms(1,2)] by simp
    ultimately show False using slot_inj [of t n "Suc i" 0] assms(2) by simp
  qed
  then show ?thesis by (simp add: contents_def)
qed

lemma producer_ok_cong:
  "buffer s' = buffer s \<Longrightarrow> head s' = head s \<Longrightarrow> tail s' = tail s \<Longrightarrow>
   producer_ok capacity s' p = producer_ok capacity s p"
  by (cases p) auto

lemma worker_ok_cong:
  "buffer s' = buffer s \<Longrightarrow> head s' = head s \<Longrightarrow> tail s' = tail s \<Longrightarrow> worker_ok s' p = worker_ok s p"
  by (cases p) auto

lemma ring_okD:
  assumes "ring_ok capacity s"
  shows "length (buffer s) = capacity" "head s < capacity" "tail s < capacity" "\<not> null_call s"
    "worker_ok s (ring_worker s 0)" "producer_ok capacity s (ring_producer s 0)"
    "map Some (ring_submitted s) = map Some (ring_run s) @ map Some (taken (ring_worker s 0)) @
       queued capacity s @ map Some (unpublished (ring_producer s 0))"
  using assms by (simp_all add: ring_ok_def)

text \<open>What is queued is a task.\<close>

lemma queued_first:
  assumes "ring_ok capacity s" "head s \<noteq> tail s"
  shows "slots (ring_worker s 0) (buffer s) ! head s \<noteq> None"
proof -
  note ok = ring_okD [OF assms(1)]
  have "queued capacity s = slots (ring_worker s 0) (buffer s) ! head s #
      contents capacity (slots (ring_worker s 0) (buffer s)) (tail s) (Suc (head s) mod capacity)"
    unfolding queued_def using ok assms(2) by (intro contents_pop) auto
  with ok(7) have "slots (ring_worker s 0) (buffer s) ! head s \<in> set (map Some (ring_submitted s))" by simp
  then show ?thesis by auto
qed

lemma ring_ok_worker:
  assumes "ring_ok capacity s" "taken p = taken (ring_worker s 0)" "slots p (buffer s) = slots (ring_worker s 0) (buffer s)"
    and "worker_ok s p"
  shows "ring_ok capacity (set_ring_worker 0 p s)"
  using assms worker_ok_cong [of "set_ring_worker 0 p s" s p] producer_ok_cong [of "set_ring_worker 0 p s" s capacity]
  by (simp add: ring_ok_def queued_def)

lemma ring_ok_sem: "ring_ok capacity s \<Longrightarrow> ring_ok capacity (s\<lparr>sem := k\<rparr>)"
  using worker_ok_cong [of "s\<lparr>sem := k\<rparr>" s] producer_ok_cong [of "s\<lparr>sem := k\<rparr>" s capacity]
  by (simp add: ring_ok_def queued_def)

lemma ring_ok_stage: "ring_ok capacity s \<Longrightarrow> ring_ok capacity (s\<lparr>ring_stage := k\<rparr>)"
  using worker_ok_cong [of "s\<lparr>ring_stage := k\<rparr>" s] producer_ok_cong [of "s\<lparr>ring_stage := k\<rparr>" s capacity]
  by (simp add: ring_ok_def queued_def)

lemma ring_ok_clear:
  assumes "ring_ok capacity s" "ring_worker s 0 = W_clear h t"
  shows "ring_ok capacity (worker_loop capacity 0 (W_clear h t) s)"
proof -
  note ok = ring_okD [OF assms(1)]
  have h: "h = head s" "head s \<noteq> tail s" "t = buffer s ! head s" using ok(5) assms(2) by auto
  have "(buffer s)[head s := None, head s := buffer s ! head s] = buffer s" by simp
  moreover have "producer_ok capacity (worker_loop capacity 0 (W_clear h t) s) (ring_producer s 0)"
    using ok(6) h(1,2) by (cases "ring_producer s 0") auto
  ultimately show ?thesis using assms(2) ok h by (simp add: ring_ok_def queued_def small_clear_def)
qed

lemma ring_ok_store:
  assumes "ring_ok capacity s" "ring_worker s 0 = W_store h t"
  shows "ring_ok capacity (worker_loop capacity 0 (W_store h t) s)"
proof -
  note ok = ring_okD [OF assms(1)]
  have h: "h = head s" "head s \<noteq> tail s" using ok(5) assms(2) by auto
  obtain f where f: "t = Some f"
    using queued_first [OF assms(1) h(2)] assms(2) h(1) ok(1,2) by auto
  have "producer_ok capacity (worker_loop capacity 0 (W_store h t) s) (ring_producer s 0)"
    using ok(2,3,6) h Suc_mod_eq [of "tail s" capacity "head s"] by (cases "ring_producer s 0") auto
  moreover have "queued capacity s = t # contents capacity ((buffer s)[h := t]) (tail s) (Suc (head s) mod capacity)"
    unfolding queued_def using contents_pop [of "tail s" capacity "head s" "(buffer s)[h := t]"] ok h assms(2) by auto
  moreover have "contents capacity ((buffer s)[h := t]) (tail s) (Suc (head s) mod capacity) =
      contents capacity (buffer s) (tail s) (Suc (head s) mod capacity)"
    using contents_write_behind [of "tail s" capacity "head s"] ok(2,3) h by simp
  ultimately show ?thesis using assms(2) ok h f by (simp add: ring_ok_def queued_def)
qed

lemma ring_ok_run:
  assumes "ring_ok capacity s" "ring_worker s 0 = W_run t"
  shows "ring_ok capacity (worker_loop capacity 0 (W_run t) s)"
proof -
  note ok = ring_okD [OF assms(1)]
  obtain f where f: "t = Some f" using ok(5) assms(2) by auto
  have "producer_ok capacity (worker_loop capacity 0 (W_run t) s) (ring_producer s 0)"
    using ok(6) f by (cases "ring_producer s 0") auto
  then show ?thesis using assms(2) ok f by (simp add: ring_ok_def queued_def)
qed

lemma ring_ok_worker_loop:
  assumes "ring_ok capacity s"
  shows "ring_ok capacity (worker_loop capacity 0 (ring_worker s 0) s)"
proof (cases "ring_worker s 0")
  case W_acquire
  then show ?thesis using assms ring_ok_worker [of capacity "s\<lparr>sem := sem s - 1\<rparr>" W_acquired]
      ring_ok_worker [of capacity s W_blocked] ring_ok_sem [of capacity s "sem s - 1"] by simp
next
  case W_blocked
  then show ?thesis using assms ring_ok_worker [of capacity "s\<lparr>sem := sem s - 1\<rparr>" W_acquired]
      ring_ok_sem [of capacity s "sem s - 1"] by simp
next
  case (W_copy h)
  then show ?thesis using assms ring_okD(5) [OF assms] by (simp add: ring_ok_worker small_copy_def)
next
  case (W_clear h t)
  then show ?thesis using ring_ok_clear [OF assms] by simp
next
  case (W_store h t)
  then show ?thesis using ring_ok_store [OF assms] by simp
next
  case (W_run t)
  then show ?thesis using ring_ok_run [OF assms] by simp
qed (use assms ring_okD(5) [OF assms] in \<open>auto intro!: ring_ok_worker\<close>)

lemma slots_write: "worker_ok s p \<Longrightarrow> i \<noteq> head s \<Longrightarrow> slots p ((buffer s)[i := x]) = (slots p (buffer s))[i := x]"
  by (cases p) (auto simp: list_update_swap)

lemma slots_nth: "worker_ok s p \<Longrightarrow> i \<noteq> head s \<Longrightarrow> slots p (buffer s) ! i = buffer s ! i"
  by (cases p) auto

lemma length_slots [simp]: "length (slots p b) = length b"
  by (cases p) auto

lemma ring_ok_write:
  assumes "ring_ok capacity s" "ring_producer s 0 = P_write f i"
  shows "ring_ok capacity (ring_enqueue capacity 0 (P_write f i) s)"
proof -
  note ok = ring_okD [OF assms(1)]
  have i: "i = tail s" "Suc (tail s) mod capacity \<noteq> head s" using ok(6) assms(2) by auto
  have "worker_ok (ring_enqueue capacity 0 (P_write f i) s) (ring_worker s 0)"
    using ok(5) i(1) by (cases "ring_worker s 0") auto
  moreover have "contents capacity (slots (ring_worker s 0) ((buffer s)[tail s := Some f])) (tail s) (head s) =
      contents capacity (slots (ring_worker s 0) (buffer s)) (tail s) (head s)"
  proof (cases "tail s = head s")
    case False
    then show ?thesis using ok by (simp add: slots_write contents_write)
  qed simp
  ultimately show ?thesis using assms(2) ok i by (simp add: ring_ok_def queued_def small_copy_def)
qed

lemma ring_ok_publish:
  assumes "ring_ok capacity s" "ring_producer s 0 = P_store f i"
  shows "ring_ok capacity (ring_enqueue capacity 0 (P_store f i) s)"
proof -
  note ok = ring_okD [OF assms(1)]
  have i: "i = tail s" "Suc (tail s) mod capacity \<noteq> head s" "buffer s ! tail s = Some f"
    using ok(6) assms(2) by auto
  have "worker_ok (ring_enqueue capacity 0 (P_store f i) s) (ring_worker s 0)"
    using ok(5) i by (cases "ring_worker s 0") auto
  moreover have "slots (ring_worker s 0) (buffer s) ! tail s = Some f" if "tail s \<noteq> head s"
    using slots_nth [OF ok(5) that] i(3) by simp
  moreover have "slots (ring_worker s 0) (buffer s) ! tail s = Some f" if "tail s = head s"
    using ok(5) i(3) that by (cases "ring_worker s 0") auto
  ultimately have "slots (ring_worker s 0) (buffer s) ! tail s = Some f"
      "worker_ok (ring_enqueue capacity 0 (P_store f i) s) (ring_worker s 0)" by blast+
  then show ?thesis using assms(2) ok i by (auto simp: ring_ok_def queued_def contents_push)
qed

lemma ring_ok_producer:
  assumes "ring_ok capacity s" "unpublished p = unpublished (ring_producer s 0)" "producer_ok capacity s p"
  shows "ring_ok capacity (set_producer 0 p s)"
  using assms worker_ok_cong [of "set_producer 0 p s" s] producer_ok_cong [of "set_producer 0 p s" s capacity p]
  by (simp add: ring_ok_def queued_def)

lemma ring_ok_enqueue:
  assumes "ring_ok capacity s"
  shows "ring_ok capacity (ring_enqueue capacity 0 (ring_producer s 0) s)"
proof (cases "ring_producer s 0")
  case (P_write f i)
  then show ?thesis using ring_ok_write [OF assms] by simp
next
  case (P_store f i)
  then show ?thesis using ring_ok_publish [OF assms] by simp
next
  case P_release
  then show ?thesis using ring_ok_producer [of capacity "s\<lparr>sem := Suc (sem s)\<rparr>" P_idle] ring_ok_sem [OF assms]
    by simp
qed (use assms ring_okD(6) [OF assms] in \<open>auto intro!: ring_ok_producer\<close>)

lemma ring_ok_submit:
  assumes "ring_ok capacity s" "ring_producer s 0 = P_idle"
  shows "ring_ok capacity (ring_submit 0 f s)"
  using assms worker_ok_cong [of "ring_submit 0 f s" s] by (simp add: ring_ok_def queued_def ring_submit_def)

lemma ring_ok_start: "0 < capacity \<Longrightarrow> ring_ok capacity (ring_start capacity)"
  by (simp add: ring_ok_def ring_start_def queued_def)

lemma stages_members: "sem_members (sem_requests n i)" "\<not> sem_members (sem_joins n i)"
  by (simp_all add: sem_requests_def sem_joins_def)

lemma worker_loop_stage [simp]: "ring_stage (worker_loop capacity w p s) = ring_stage s"
  by (cases p) (auto split: option.splits)

lemma ring_enqueue_stage [simp]: "ring_stage (ring_enqueue capacity w p s) = ring_stage s"
  by (cases p) auto

lemma ring_step_ok:
  assumes "sem_members (ring_stage s) \<longrightarrow> ring_ok capacity s" "ring_step capacity 1 1 s s'"
  shows "sem_members (ring_stage s') \<longrightarrow> ring_ok capacity s'"
  using assms(2)
proof cases
  case (works w)
  then show ?thesis using assms(1) ring_ok_worker_loop by auto
next
  case (submits p f)
  then show ?thesis using assms(1) ring_ok_submit by (auto simp: ring_submit_def)
next
  case (enqueues p)
  then show ?thesis using assms(1) ring_ok_enqueue by auto
next
  case releases_all
  then show ?thesis using assms(1) ring_ok_stage ring_ok_sem by fastforce
qed (use assms(1) ring_ok_stage in \<open>auto simp: stages_members ring_misuse_def\<close>)

interpretation ring: inductive_invariant "\<lambda>s. s = ring_start capacity \<and> 0 < capacity" "ring_step capacity 1 1"
  "\<lambda>s. sem_members (ring_stage s) \<longrightarrow> ring_ok capacity s"
  using ring_ok_start ring_step_ok by unfold_locales blast+

subsection \<open>Schedules\<close>

text \<open>A schedule says which thread takes its next step; it is undefined where that one cannot.\<close>

datatype 'f ring_event = Run_worker nat | Run_producer nat | Call_submit nat 'f | Ask_to_stop

fun play :: "nat \<Rightarrow> nat \<Rightarrow> nat \<Rightarrow> 'f ring_event list \<Rightarrow> 'f ring_pool \<Rightarrow> 'f ring_pool option" where
  "play capacity n m [] s = Some s"
| "play capacity n m (Run_worker w # es) s =
     (if w < n \<and> ring_worker s w \<noteq> W_returned \<and> (ring_worker s w = W_blocked \<longrightarrow> 0 < sem s) \<and>
         sem_members (ring_stage s)
      then play capacity n m es (worker_loop capacity w (ring_worker s w) s) else None)"
| "play capacity n m (Run_producer p # es) s =
     (if p < m \<and> ring_producer s p \<noteq> P_idle
      then play capacity n m es (ring_enqueue capacity p (ring_producer s p) s) else None)"
| "play capacity n m (Call_submit p f # es) s =
     (if p < m \<and> ring_producer s p = P_idle \<and> ring_stage s = Serving
      then play capacity n m es (ring_submit p f s) else None)"
| "play capacity n m (Ask_to_stop # es) s =
     (if ring_stage s = Serving \<and> list_all (\<lambda>p. ring_producer s p = P_idle) [0..<m]
      then play capacity n m es (s\<lparr>ring_stage := sem_requests n 0\<rparr>)
      else case ring_stage s of
        Requesting i \<Rightarrow> play capacity n m es (s\<lparr>ring_stage := sem_requests n (Suc i)\<rparr>)
      | _ \<Rightarrow> None)"

lemma play_steps: "play capacity n m es s = Some s' \<Longrightarrow> (ring_step capacity n m)\<^sup>*\<^sup>* s s'"
proof (induction es s rule: play.induct)
  case (2 capacity n m w es s)
  then show ?case by (auto intro: converse_rtranclp_into_rtranclp ring_step.works split: if_splits)
next
  case (3 capacity n m p es s)
  then show ?case by (auto intro: converse_rtranclp_into_rtranclp ring_step.enqueues split: if_splits)
next
  case (4 capacity n m p f es s)
  then show ?case by (auto intro: converse_rtranclp_into_rtranclp ring_step.submits split: if_splits)
next
  case (5 capacity n m es s)
  then show ?case
    by (auto intro: converse_rtranclp_into_rtranclp ring_step.destroy ring_step.requests
        simp: list_all_iff Ball_def split: if_splits sem_stage.splits)
qed simp

definition submit_events :: "nat \<Rightarrow> 'f \<Rightarrow> 'f ring_event list" where
  "submit_events p f = Call_submit p f # replicate 5 (Run_producer p)"

text \<open>Two threads that are at the head of the ring at the same time run its task twice.\<close>

definition twice_events :: "'f \<Rightarrow> 'f \<Rightarrow> 'f ring_event list" where
  "twice_events f g = submit_events 0 f @ submit_events 0 g @
     replicate 5 (Run_worker 0) @ replicate 5 (Run_worker 1) @
     replicate 3 (Run_worker 0) @ replicate 3 (Run_worker 1)"

text \<open>If one of them empties the slot before the other copies it, the other calls a null pointer.\<close>

definition null_events :: "'f \<Rightarrow> 'f \<Rightarrow> 'f ring_event list" where
  "null_events f g = submit_events 0 f @ submit_events 0 g @
     replicate 6 (Run_worker 0) @ replicate 8 (Run_worker 1)"

definition lost_events :: "'f \<Rightarrow> 'f \<Rightarrow> 'f ring_event list" where
  "lost_events f g = [Call_submit 0 f, Call_submit 1 g] @ replicate 2 (Run_producer 0) @ replicate 2 (Run_producer 1) @
     replicate 3 (Run_producer 0) @ replicate 3 (Run_producer 1)"

definition play_ends :: "nat \<Rightarrow> nat \<Rightarrow> nat \<Rightarrow> 'f ring_event list \<Rightarrow> ('f ring_pool \<Rightarrow> bool) \<Rightarrow> bool" where
  "play_ends capacity n m es P = (case play capacity n m es (ring_start capacity) of None \<Rightarrow> False | Some s \<Rightarrow> P s)"

lemma play_ends_reaches:
  "play_ends capacity n m es P \<Longrightarrow> \<exists>s. (ring_step capacity n m)\<^sup>*\<^sup>* (ring_start capacity) s \<and> P s"
  by (auto simp: play_ends_def dest: play_steps split: option.splits)

lemma play_twice:
  "play_ends 4 2 1 (twice_events (1 :: nat) 2)
     (\<lambda>s. ring_submitted s = [1, 2] \<and> ring_run s = [1, 1] \<and> ring_stage s = Serving)"
  by code_simp

lemma play_null:
  "play_ends 4 2 1 (null_events (1 :: nat) 2)
     (\<lambda>s. ring_submitted s = [1, 2] \<and> null_call s \<and> ring_stage s = Serving)"
  by code_simp

lemma play_lost:
  "play_ends 4 1 2 (lost_events (1 :: nat) 2)
     (\<lambda>s. ring_submitted s = [1, 2] \<and> contents 4 (buffer s) (tail s) (head s) = [Some 2] \<and> ring_run s = [] \<and>
       ring_worker s 0 = W_acquire \<and> ring_producer s 0 = P_idle \<and> ring_producer s 1 = P_idle)"
  by code_simp

text \<open>
  The future of a submitted task is ready when the task has run; until then \<open>get\<close> waits.
\<close>

definition future_ready :: "'f \<Rightarrow> 'f ring_pool \<Rightarrow> bool" where
  "future_ready f s \<longleftrightarrow> f \<in> set (ring_run s)"

definition abandon_events :: "'f \<Rightarrow> 'f ring_event list" where
  "abandon_events f = submit_events 0 f @ [Ask_to_stop, Ask_to_stop] @ replicate 2 (Run_worker 0)"

lemma play_abandon:
  "play_ends 4 1 1 (abandon_events (1 :: nat))
     (\<lambda>s. ring_submitted s = [1] \<and> ring_run s = [] \<and> ring_worker s 0 = W_returned)"
  by code_simp

lemma enqueue_keeps [simp]:
  "ring_worker (ring_enqueue capacity p q s) = ring_worker s" "ring_run (ring_enqueue capacity p q s) = ring_run s"
  by (cases q; simp)+

lemma returned_step:
  assumes "ring_step capacity 1 m s s'" "ring_worker s 0 = W_returned"
  shows "ring_worker s' 0 = W_returned \<and> ring_run s' = ring_run s"
  using assms(1)
proof (cases rule: ring_step.cases)
  case (works w)
  show ?thesis using works(2,3) assms(2) by (simp only: less_one simp_thms)
next
  case (works_destroyed w)
  show ?thesis using works_destroyed(2,3) assms(2) by (simp only: less_one uses_members.simps simp_thms)
next
  case (submits p f)
  show ?thesis using submits(1) assms(2) by (simp only: ring_submit_def set_producer_simps) simp
next
  case (enqueues p)
  show ?thesis using enqueues(1) assms(2) by (simp only: enqueue_keeps)
next
  case destroy
  show ?thesis using destroy(1) assms(2) by simp
next
  case requests
  show ?thesis using requests(1) assms(2) by simp
next
  case releases_all
  show ?thesis using releases_all(1) assms(2) by simp
next
  case members_destroyed
  show ?thesis using members_destroyed(1) assms(2) by simp
next
  case joins
  show ?thesis using joins(1) assms(2) by simp
qed

lemma returned_steps:
  "(ring_step capacity 1 m)\<^sup>*\<^sup>* s s' \<Longrightarrow> ring_worker s 0 = W_returned \<Longrightarrow>
   ring_worker s' 0 = W_returned \<and> ring_run s' = ring_run s"
proof (induction rule: rtranclp_induct)
  case (step y z)
  then show ?case using returned_step [OF step.hyps(2)] by simp
qed simp

subsection \<open>Properties\<close>

text \<open>
  With one thread and one submitting thread the pool is right until its members are
  destroyed: the tasks run, taken, in the ring and being submitted are, in this order, the tasks
  submitted, and no null pointer is called.
\<close>

theorem ring_pool_single:
  assumes "0 < capacity" "(ring_step capacity 1 1)\<^sup>*\<^sup>* (ring_start capacity) s" "sem_members (ring_stage s)"
  shows "\<not> null_call s \<and>
    (\<exists>q. contents capacity (slots (ring_worker s 0) (buffer s)) (tail s) (head s) = map Some q \<and>
      ring_submitted s = ring_run s @ taken (ring_worker s 0) @ q @ unpublished (ring_producer s 0))"
proof -
  have ok: "ring_ok capacity s" using ring.reachable_inv [OF _ assms(2)] assms(1,3) by blast
  have "set (queued capacity s) \<subseteq> set (map Some (ring_submitted s))" using ring_okD(7) [OF ok] by auto
  then have "queued capacity s = map Some (map the (queued capacity s))" by (auto intro!: map_idI [symmetric])
  then obtain q where q: "queued capacity s = map Some q" ..
  with ring_okD(7) [OF ok] have "map Some (ring_submitted s) =
      map Some (ring_run s @ taken (ring_worker s 0) @ q @ unpublished (ring_producer s 0))" by simp
  then have "ring_submitted s = ring_run s @ taken (ring_worker s 0) @ q @ unpublished (ring_producer s 0)"
    by (rule map_injective) (simp add: inj_def)
  with q ring_okD(4) [OF ok] show ?thesis by (auto simp: queued_def)
qed

theorem ring_pool_single_witness:
  "\<exists>s :: nat ring_pool. \<not> null_call s \<and> ring_submitted s = [1] \<and> ring_run s = []"
proof -
  have "play_ends 4 1 1 (submit_events 0 (1 :: nat))
      (\<lambda>s. ring_stage s = Serving \<and> ring_submitted s = [1] \<and> ring_run s = [])" by code_simp
  from play_ends_reaches [OF this] obtain s where "(ring_step 4 1 1)\<^sup>*\<^sup>* (ring_start 4) s"
    "ring_stage s = Serving" "ring_submitted s = [1 :: nat] \<and> ring_run s = []" by blast
  with ring_pool_single [of 4 s] have "\<not> null_call s" by simp
  with \<open>ring_submitted s = [1 :: nat] \<and> ring_run s = []\<close> show ?thesis by blast
qed

text \<open>
  The pool is not safe with more threads. Two of them can run the same task twice and
  another one not at all; or one of them calls a null pointer; and of two tasks submitted by two
  threads at the same time one can be lost.
\<close>

theorem ring_pool_races:
  "(\<exists>s. (ring_step 4 2 1)\<^sup>*\<^sup>* (ring_start 4) s \<and> ring_submitted s = [1 :: nat, 2] \<and> ring_run s = [1, 1] \<and>
      ring_stage s = Serving) \<and>
   (\<exists>s. (ring_step 4 2 1)\<^sup>*\<^sup>* (ring_start 4) s \<and> ring_submitted s = [1 :: nat, 2] \<and> null_call s \<and>
      ring_stage s = Serving) \<and>
   (\<exists>s. (ring_step 4 1 2)\<^sup>*\<^sup>* (ring_start 4) s \<and> ring_submitted s = [1 :: nat, 2] \<and>
      contents 4 (buffer s) (tail s) (head s) = [Some 2] \<and> ring_run s = [] \<and>
      ring_worker s 0 = W_acquire \<and> ring_producer s 0 = P_idle \<and> ring_producer s 1 = P_idle)"
  using play_ends_reaches [OF play_twice] play_ends_reaches [OF play_null] play_ends_reaches [OF play_lost]
  by (intro conjI)

text \<open>
  A task can be left in the ring when the pool stops; then its future never gets ready,
  whatever happens, and \<open>get\<close> waits for ever.
\<close>

theorem ring_pool_abandons:
  "\<exists>s. (ring_step 4 1 1)\<^sup>*\<^sup>* (ring_start 4) s \<and> ring_submitted s = [1 :: nat] \<and>
    (\<forall>s'. (ring_step 4 1 1)\<^sup>*\<^sup>* s s' \<longrightarrow> \<not> future_ready 1 s')"
proof -
  from play_ends_reaches [OF play_abandon] obtain s where s:
    "(ring_step 4 1 1)\<^sup>*\<^sup>* (ring_start 4) s" "ring_submitted s = [1 :: nat]" "ring_run s = []" "ring_worker s 0 = W_returned"
    by blast
  have "\<not> future_ready 1 s'" if "(ring_step 4 1 1)\<^sup>*\<^sup>* s s'" for s'
    using returned_steps [OF that s(4)] s(3) by (simp add: future_ready_def)
  with s(1,2) show ?thesis by blast
qed

end
