(* ===== verification/Net_Buffers.thy ===== *)
theory Net_Buffers
  imports Prelude "HOL-Library.Sublist"
begin

text \<open>
  The buffers and message headers of the data provider,
  \<open>diff2/data_provider/utils/utils.h\<close> and \<open>common/message.h\<close>, and the pool of event loops,
  \<open>server/io_context_pool.cpp\<close>. Headers are copied to the wire as they are in memory, so the
  model fixes a little-endian machine with 16-byte \<open>long double\<close>s; a request for more memory
  than there is is not modelled.
\<close>

unbundle bit_operations_syntax

subsection \<open>Buffers\<close>

text \<open>
  The bytes of the vector of \<open>long double\<close>s, empty until a size is set; \<open>getPtr\<close> throws on
  the empty vector.
\<close>

record aligned_buffer =
  storage :: "u8 list"
  buf_size :: nat

definition MaxAlignedBuffer :: aligned_buffer where
  "MaxAlignedBuffer = \<lparr>storage = [], buf_size = 0\<rparr>"

definition allocated :: "nat \<Rightarrow> nat" where
  "allocated n = 16 * (n div 16 + 1)"

definition setSize :: "nat \<Rightarrow> aligned_buffer \<Rightarrow> aligned_buffer" where
  "setSize n b =
     b\<lparr>buf_size := n,
       storage := take (allocated n) (storage b) @ replicate (allocated n - length (storage b)) 0\<rparr>"

definition getPtr :: "aligned_buffer \<Rightarrow> u8 list option" where
  "getPtr b = (if storage b = [] then None else Some (storage b))"

definition memcpy_at :: "nat \<Rightarrow> u8 list \<Rightarrow> u8 list \<Rightarrow> u8 list" where
  "memcpy_at i src dst = take i dst @ src @ drop (i + length src) dst"

definition setBuffer :: "u8 list \<Rightarrow> aligned_buffer \<Rightarrow> aligned_buffer" where
  "setBuffer src b = (let b1 = setSize (length src) b in b1\<lparr>storage := memcpy_at 0 src (storage b1)\<rparr>)"

definition getAsioBuffer :: "aligned_buffer \<Rightarrow> u8 list option" where
  "getAsioBuffer b = map_option (take (buf_size b)) (getPtr b)"

definition buffer_plus :: "aligned_buffer \<Rightarrow> aligned_buffer \<Rightarrow> aligned_buffer option" where
  "buffer_plus l r =
     (let out = setSize (buf_size l + buf_size r) MaxAlignedBuffer in
      case (getPtr l, getPtr r) of
        (Some p, Some q) \<Rightarrow>
          Some (out\<lparr>storage := memcpy_at (buf_size l) (take (buf_size r) q)
            (memcpy_at 0 (take (buf_size l) p) (storage out))\<rparr>)
      | _ \<Rightarrow> None)"

text \<open>A buffer that holds its size, and what it holds.\<close>

definition buffer_ok :: "aligned_buffer \<Rightarrow> bool" where
  "buffer_ok b \<longleftrightarrow> storage b \<noteq> [] \<and> buf_size b \<le> length (storage b)"

definition bytes_of :: "aligned_buffer \<Rightarrow> u8 list" where
  "bytes_of b = take (buf_size b) (storage b)"

lemma allocated_more: "n < allocated n"
  by (simp add: allocated_def)

lemma length_setSize [simp]: "length (storage (setSize n b)) = allocated n"
  by (simp add: setSize_def)

lemma length_memcpy: "i + length src \<le> length dst \<Longrightarrow> length (memcpy_at i src dst) = length dst"
  by (simp add: memcpy_at_def)

lemma setSize_ok: "buffer_ok (setSize n b)"
  using allocated_more [of n] by (auto simp: buffer_ok_def setSize_def simp flip: length_greater_0_conv)

lemma setBuffer_ok: "buffer_ok (setBuffer src b) \<and> bytes_of (setBuffer src b) = src"
  using allocated_more [of "length src"]
  by (auto simp: buffer_ok_def bytes_of_def setBuffer_def setSize_def Let_def memcpy_at_def simp flip: length_greater_0_conv)

lemma getAsioBuffer_ok: "buffer_ok b \<Longrightarrow> getAsioBuffer b = Some (bytes_of b)"
  by (simp add: getAsioBuffer_def getPtr_def buffer_ok_def bytes_of_def)

lemma bytes_of_length: "buffer_ok b \<Longrightarrow> length (bytes_of b) = buf_size b"
  by (simp add: buffer_ok_def bytes_of_def)

lemma buffer_plus_ok:
  assumes "buffer_ok l" "buffer_ok r"
  shows "\<exists>b. buffer_plus l r = Some b \<and> buffer_ok b \<and> bytes_of b = bytes_of l @ bytes_of r"
  using assms allocated_more [of "buf_size l + buf_size r"]
  by (auto simp: buffer_plus_def getPtr_def buffer_ok_def bytes_of_def Let_def setSize_def memcpy_at_def
      MaxAlignedBuffer_def min_def)

lemma buffer_plus_default: "buffer_plus MaxAlignedBuffer r = None" "buffer_plus l MaxAlignedBuffer = None"
  by (simp_all add: buffer_plus_def getPtr_def MaxAlignedBuffer_def split: option.splits)

subsection \<open>Headers\<close>

record msg_header =
  msgSize :: u32
  msgType :: u32

definition le32 :: "u32 \<Rightarrow> u8 list" where
  "le32 w = [ucast w, ucast (drop_bit 8 w), ucast (drop_bit 16 w), ucast (drop_bit 24 w)]"

definition un_le32 :: "u8 list \<Rightarrow> u32" where
  "un_le32 bs = ucast (bs ! 0) OR push_bit 8 (ucast (bs ! 1)) OR push_bit 16 (ucast (bs ! 2)) OR
     push_bit 24 (ucast (bs ! 3))"

definition header_bytes :: "msg_header \<Rightarrow> u8 list" where
  "header_bytes h = le32 (msgSize h) @ le32 (msgType h)"

text \<open>The header in the memory of a buffer.\<close>

definition header_in :: "u8 list \<Rightarrow> msg_header" where
  "header_in bs = \<lparr>msgSize = un_le32 (take 4 bs), msgType = un_le32 (take 4 (drop 4 bs))\<rparr>"

definition getBodySize :: "msg_header \<Rightarrow> u32" where
  "getBodySize h = msgSize h"

definition header_size :: nat where
  "header_size = 8"

lemma length_le32 [simp]: "length (le32 w) = 4"
  by (simp add: le32_def)

lemma un_le32_le32: "un_le32 (le32 w) = w"
proof (rule bit_word_eqI)
  fix n assume "n < LENGTH(32)"
  then have "n < 8 \<or> 8 \<le> n \<and> n < 16 \<or> 16 \<le> n \<and> n < 24 \<or> 24 \<le> n \<and> n < 32" by auto
  then show "bit (un_le32 (le32 w)) n = bit w n"
    by (auto simp: un_le32_def le32_def bit_simps)
qed

lemma length_net_header_bytes [simp]: "length (header_bytes h) = header_size"
  by (simp add: header_bytes_def header_size_def)

lemma header_roundtrip: "header_in (header_bytes h @ bs) = h"
  by (simp add: header_in_def header_bytes_def un_le32_le32)

subsection \<open>The pool of event loops\<close>

text \<open>\<open>getIOContext\<close> answers the number of the next event loop; the constructor may throw.\<close>

record io_pool =
  ioContexts :: nat
  nextIOContext :: nat

definition IOContextPool :: "nat \<Rightarrow> io_pool option" where
  "IOContextPool poolSize = (if poolSize = 0 then None else Some \<lparr>ioContexts = poolSize, nextIOContext = 0\<rparr>)"

definition io_pool_set :: "nat \<Rightarrow> io_pool \<Rightarrow> io_pool option" where
  "io_pool_set poolSize p = (if poolSize = 0 then None else Some (p\<lparr>ioContexts := ioContexts p + poolSize\<rparr>))"

definition getIOContext :: "io_pool \<Rightarrow> nat \<times> io_pool" where
  "getIOContext p =
     (let k = Suc (nextIOContext p) in
      (nextIOContext p, p\<lparr>nextIOContext := (if k = ioContexts p then 0 else k)\<rparr>))"

primrec get_many :: "nat \<Rightarrow> io_pool \<Rightarrow> nat list \<times> io_pool" where
  "get_many 0 p = ([], p)"
| "get_many (Suc k) p = (case get_many k p of (xs, q) \<Rightarrow> case getIOContext q of (x, q') \<Rightarrow> (xs @ [x], q'))"

lemma get_many_round:
  assumes "IOContextPool n = Some p"
  shows "get_many k p = (map (\<lambda>i. i mod n) [0..<k], \<lparr>ioContexts = n, nextIOContext = k mod n\<rparr>)"
proof (induction k)
  case 0
  then show ?case using assms by (auto simp: IOContextPool_def split: if_splits)
next
  case (Suc k)
  have "0 < n" using assms by (auto simp: IOContextPool_def split: if_splits)
  then show ?case using Suc by (auto simp: getIOContext_def Let_def mod_Suc)
qed

subsection \<open>Accepting connections\<close>

text \<open>
  The server takes an event loop for the signals, one for the acceptor, and then one for each
  connection it waits for; a failed accept also uses one up.
\<close>

record thrd_server =
  ioContextPool :: io_pool
  newConnection :: nat
  started_on :: "nat list"

definition startAccept :: "thrd_server \<Rightarrow> thrd_server" where
  "startAccept s =
     (case getIOContext (ioContextPool s) of (k, p) \<Rightarrow> s\<lparr>ioContextPool := p, newConnection := k\<rparr>)"

definition ThrdPerCntxtServer :: "nat \<Rightarrow> thrd_server option" where
  "ThrdPerCntxtServer io_threads =
     (case IOContextPool io_threads of
        None \<Rightarrow> None
      | Some p \<Rightarrow>
          Some (startAccept \<lparr>ioContextPool = snd (getIOContext (snd (getIOContext p))), newConnection = 0, started_on = []\<rparr>))"

definition handleAccept :: "bool \<Rightarrow> thrd_server \<Rightarrow> thrd_server" where
  "handleAccept e s =
     startAccept (if \<not> e then s\<lparr>started_on := started_on s @ [newConnection s]\<rparr> else s)"

lemma getIOContext_mod:
  "0 < n \<Longrightarrow> getIOContext \<lparr>ioContexts = n, nextIOContext = k mod n\<rparr> =
     (k mod n, \<lparr>ioContexts = n, nextIOContext = Suc k mod n\<rparr>)"
  by (simp add: getIOContext_def Let_def mod_Suc)

text \<open>The connections of accepts that succeed are spread over the event loops in turn.\<close>

lemma accepts_in_turn:
  assumes "ThrdPerCntxtServer n = Some s"
  shows "(handleAccept False ^^ k) s =
    \<lparr>ioContextPool = \<lparr>ioContexts = n, nextIOContext = Suc (Suc (Suc k)) mod n\<rparr>, newConnection = Suc (Suc k) mod n,
     started_on = map (\<lambda>i. Suc (Suc i) mod n) [0..<k]\<rparr>"
proof (induction k)
  case 0
  have n: "0 < n" using assms by (auto simp: ThrdPerCntxtServer_def IOContextPool_def split: if_splits)
  have "\<lparr>ioContexts = n, nextIOContext = 0\<rparr> = \<lparr>ioContexts = n, nextIOContext = 0 mod n\<rparr>" by simp
  then show ?case using assms n getIOContext_mod [OF n, of 0] getIOContext_mod [OF n, of 1] getIOContext_mod [OF n, of 2]
    by (auto simp: ThrdPerCntxtServer_def IOContextPool_def startAccept_def numeral_eq_Suc)
next
  case (Suc k)
  have n: "0 < n" using assms by (auto simp: ThrdPerCntxtServer_def IOContextPool_def split: if_splits)
  then show ?case using Suc getIOContext_mod [OF n, of "Suc (Suc (Suc k))"]
    by (simp add: handleAccept_def startAccept_def)
qed

end
