(* ===== verification/Net_Server.thy ===== *)
theory Net_Server
  imports Net_Buffers Task_Pool
begin

text \<open>
  A connection of the data provider, \<open>diff2/data_provider/server/connection.cpp\<close>: the server
  reads a header and a body, gives both to the handler, writes the response, and starts again.
  The bytes of the peer and the completions of the asynchronous operations are the steps.
  \<open>async_read\<close> and \<open>async_write\<close> complete with all their bytes or with an error. The handler is
  the application's; the echo handler of \<open>test_server/test_server.cpp\<close> is one.
\<close>

subsection \<open>The connection\<close>

datatype conn_phase =
    Reading_header
  | Reading_body aligned_buffer
  | Posted aligned_buffer aligned_buffer
  | Responding "aligned_buffer option"
  | Writing aligned_buffer
  | Shut
  | Crashed

record connection =
  phase :: conn_phase
  inbox :: "u8 list"
  peer_closed :: bool
  outbox :: "u8 list"
  received :: "u8 list"

record net_env =
  handleRequest :: "aligned_buffer \<Rightarrow> aligned_buffer \<Rightarrow> aligned_buffer option"
  handlerThreadPool :: bool

definition Connection :: connection where
  "Connection = \<lparr>phase = Reading_header, inbox = [], peer_closed = False, outbox = [], received = []\<rparr>"

definition conn_stop :: "connection \<Rightarrow> connection" where
  "conn_stop c = c\<lparr>phase := Shut\<rparr>"

definition readHeader :: "connection \<Rightarrow> connection" where
  "readHeader c = c\<lparr>phase := Reading_header\<rparr>"

definition readBody :: "aligned_buffer \<Rightarrow> connection \<Rightarrow> connection" where
  "readBody header c =
     (if getBodySize (header_in (storage header)) = 0 then conn_stop c else c\<lparr>phase := Reading_body header\<rparr>)"

definition handleReadHeader :: "bool \<Rightarrow> nat \<Rightarrow> aligned_buffer \<Rightarrow> connection \<Rightarrow> connection" where
  "handleReadHeader e bytesTransferred header c =
     (if e then conn_stop c
      else if bytesTransferred \<noteq> buf_size header then conn_stop c
      else readBody header c)"

definition conn_write :: "aligned_buffer \<Rightarrow> connection \<Rightarrow> connection" where
  "conn_write response c = c\<lparr>phase := Writing response\<rparr>"

text \<open>
  The code that is compiled for debugging copies the response without its header; a null response
  or one that is shorter than a header ends the program.
\<close>

definition onRequestHandled :: "aligned_buffer option \<Rightarrow> connection \<Rightarrow> connection" where
  "onRequestHandled response c =
     (case response of
        None \<Rightarrow> c\<lparr>phase := Crashed\<rparr>
      | Some r \<Rightarrow> if buf_size r < header_size then c\<lparr>phase := Crashed\<rparr> else conn_write r c)"

definition handleReadBody ::
  "net_env \<Rightarrow> bool \<Rightarrow> nat \<Rightarrow> aligned_buffer \<Rightarrow> aligned_buffer \<Rightarrow> connection \<Rightarrow> connection" where
  "handleReadBody E e bytesTransferred header body c =
     (if e then conn_stop c
      else if bytesTransferred \<noteq> buf_size body then conn_stop c
      else if \<not> handlerThreadPool E then onRequestHandled (handleRequest E header body) c
      else c\<lparr>phase := Posted header body\<rparr>)"

text \<open>What the callback does in a thread of the pool; the response is posted back.\<close>

definition RequestHandlerCallback :: "net_env \<Rightarrow> aligned_buffer \<Rightarrow> aligned_buffer \<Rightarrow> connection \<Rightarrow> connection" where
  "RequestHandlerCallback E header body c = c\<lparr>phase := Responding (handleRequest E header body)\<rparr>"

definition handleWrite :: "bool \<Rightarrow> nat \<Rightarrow> aligned_buffer \<Rightarrow> connection \<Rightarrow> connection" where
  "handleWrite e bytesTransferred response c =
     (if e then conn_stop c
      else if bytesTransferred \<noteq> buf_size response then conn_stop c
      else readHeader c)"

text \<open>A new buffer of the given size that the socket has filled.\<close>

definition received_into :: "nat \<Rightarrow> u8 list \<Rightarrow> aligned_buffer" where
  "received_into n bs = (let b = setSize n MaxAlignedBuffer in b\<lparr>storage := memcpy_at 0 (take n bs) (storage b)\<rparr>)"

definition body_size :: "aligned_buffer \<Rightarrow> nat" where
  "body_size header = unat (getBodySize (header_in (storage header)))"

inductive server_step :: "bool \<Rightarrow> net_env \<Rightarrow> connection \<Rightarrow> connection \<Rightarrow> bool"
  for errors :: bool and E :: net_env
where
  header_read: "phase c = Reading_header \<Longrightarrow> header_size \<le> length (inbox c) \<Longrightarrow>
    server_step errors E c (handleReadHeader False header_size (received_into header_size (inbox c))
      (c\<lparr>inbox := drop header_size (inbox c)\<rparr>))"
| header_eof: "phase c = Reading_header \<Longrightarrow> length (inbox c) < header_size \<Longrightarrow> peer_closed c \<Longrightarrow>
    server_step errors E c (conn_stop c)"
| body_read: "phase c = Reading_body header \<Longrightarrow> body_size header \<le> length (inbox c) \<Longrightarrow>
    server_step errors E c (handleReadBody E False (body_size header) header
      (received_into (body_size header) (inbox c)) (c\<lparr>inbox := drop (body_size header) (inbox c)\<rparr>))"
| body_eof: "phase c = Reading_body header \<Longrightarrow> length (inbox c) < body_size header \<Longrightarrow> peer_closed c \<Longrightarrow>
    server_step errors E c (conn_stop c)"
| handles: "phase c = Posted header body \<Longrightarrow> server_step errors E c (RequestHandlerCallback E header body c)"
| resumes: "phase c = Responding response \<Longrightarrow> server_step errors E c (onRequestHandled response c)"
| written: "phase c = Writing response \<Longrightarrow> server_step errors E c
    (handleWrite False (buf_size response) response (c\<lparr>outbox := outbox c @ bytes_of response\<rparr>))"
| read_error: "errors \<Longrightarrow> phase c = Reading_header \<or> phase c = Reading_body header \<Longrightarrow>
    server_step errors E c (conn_stop c)"
| write_error: "errors \<Longrightarrow> phase c = Writing response \<Longrightarrow>
    server_step errors E c (conn_stop (c\<lparr>outbox := outbox c @ take k (bytes_of response)\<rparr>))"

inductive peer_step :: "connection \<Rightarrow> connection \<Rightarrow> bool"
where
  sends: "\<not> peer_closed c \<Longrightarrow> peer_step c (c\<lparr>inbox := inbox c @ bs, received := received c @ bs\<rparr>)"
| closes: "peer_step c (c\<lparr>peer_closed := True\<rparr>)"

definition net_step :: "bool \<Rightarrow> net_env \<Rightarrow> connection \<Rightarrow> connection \<Rightarrow> bool" where
  "net_step errors E c c' \<longleftrightarrow> server_step errors E c c' \<or> peer_step c c'"

lemmas [state_simps] = conn_stop_def readHeader_def readBody_def handleReadHeader_def conn_write_def
  onRequestHandled_def handleReadBody_def RequestHandlerCallback_def handleWrite_def

subsection \<open>What the server answers\<close>

text \<open>The responses to the complete requests in a sequence of bytes, up to a request without body.\<close>

function answers_to :: "net_env \<Rightarrow> u8 list \<Rightarrow> u8 list" where
  "answers_to E bs =
     (let header = received_into header_size bs; n = body_size header in
      if length bs < header_size \<or> n = 0 \<or> length bs < header_size + n then []
      else (case handleRequest E header (received_into n (drop header_size bs)) of None \<Rightarrow> [] | Some r \<Rightarrow> bytes_of r) @
        answers_to E (drop (header_size + n) bs))"
  by pat_completeness auto
termination
  by (relation "measure (\<lambda>(E, bs). length bs)") (auto simp: header_size_def)

declare answers_to.simps [simp del]

lemma received_into_append: "n \<le> length bs \<Longrightarrow> received_into n (bs @ x) = received_into n bs"
  by (simp add: received_into_def)

lemma received_into_take: "received_into n (take n bs) = received_into n bs"
  by (simp add: received_into_def)

lemma received_into_ok: "n \<le> length bs \<Longrightarrow> buffer_ok (received_into n bs) \<and> bytes_of (received_into n bs) = take n bs"
  using allocated_more [of n]
  by (auto simp: buffer_ok_def bytes_of_def received_into_def Let_def setSize_def memcpy_at_def min_def
      simp flip: length_greater_0_conv)

lemma buf_size_into [simp]: "buf_size (received_into n bs) = n"
  by (simp add: received_into_def setSize_def Let_def)

lemma answers_short: "length bs < header_size \<Longrightarrow> answers_to E bs = []"
  by (simp add: answers_to.simps Let_def)

lemma answers_no_body:
  "length hb = header_size \<Longrightarrow> body_size (received_into header_size hb) = 0 \<Longrightarrow> answers_to E (hb @ x) = []"
  by (simp add: answers_to.simps Let_def received_into_append)

lemma answers_part:
  "length hb = header_size \<Longrightarrow> length x < body_size (received_into header_size hb) \<Longrightarrow> answers_to E (hb @ x) = []"
  by (simp add: answers_to.simps Let_def received_into_append)

lemma answers_request:
  assumes "length hb = header_size" "body_size (received_into header_size hb) = length bb" "bb \<noteq> []"
    and "handleRequest E (received_into header_size hb) (received_into (length bb) bb) = Some r"
  shows "answers_to E (hb @ bb @ x) = bytes_of r @ answers_to E x"
  using assms by (simp add: answers_to.simps [of E "hb @ bb @ x"] Let_def received_into_append)

subsection \<open>The handler's contract\<close>

text \<open>The handler answers every request with a buffer that has room for a header.\<close>

locale request_handler =
  fixes E :: net_env
  assumes responds: "buffer_ok header \<Longrightarrow> buf_size header = header_size \<Longrightarrow> buffer_ok body \<Longrightarrow>
    \<exists>r. handleRequest E header body = Some r \<and> buffer_ok r \<and> header_size \<le> buf_size r"
begin

definition answered :: "connection \<Rightarrow> u8 list \<Rightarrow> u8 list \<Rightarrow> bool" where
  "answered c pre resp \<longleftrightarrow> (\<forall>x. answers_to E (pre @ x) = outbox c @ resp @ answers_to E x)"

definition conn_ok :: "bool \<Rightarrow> connection \<Rightarrow> bool" where
  "conn_ok errors c \<longleftrightarrow> (case phase c of
     Reading_header \<Rightarrow> \<exists>pre. received c = pre @ inbox c \<and> answered c pre []
   | Reading_body header \<Rightarrow> \<exists>pre hb. received c = pre @ hb @ inbox c \<and> length hb = header_size \<and>
       header = received_into header_size hb \<and> body_size header \<noteq> 0 \<and> answered c pre []
   | Posted header body \<Rightarrow> \<exists>pre hb bb. received c = pre @ hb @ bb @ inbox c \<and> length hb = header_size \<and>
       header = received_into header_size hb \<and> bb \<noteq> [] \<and> body_size header = length bb \<and>
       body = received_into (length bb) bb \<and> answered c pre []
   | Responding response \<Rightarrow> \<exists>pre r. response = Some r \<and> header_size \<le> buf_size r \<and>
       received c = pre @ inbox c \<and> answered c pre (bytes_of r)
   | Writing r \<Rightarrow> \<exists>pre. received c = pre @ inbox c \<and> answered c pre (bytes_of r)
   | Shut \<Rightarrow> (\<forall>x. prefix (outbox c) (answers_to E (received c @ x))) \<and>
       (\<not> errors \<longrightarrow> answers_to E (received c) = outbox c \<and>
         (\<not> peer_closed c \<longrightarrow> (\<forall>x. answers_to E (received c @ x) = outbox c)))
   | Crashed \<Rightarrow> False)"

lemma conn_ok_bodyI:
  "phase c = Reading_body header \<Longrightarrow> received c = pre @ hb @ inbox c \<Longrightarrow> length hb = header_size \<Longrightarrow>
   header = received_into header_size hb \<Longrightarrow> body_size header \<noteq> 0 \<Longrightarrow> answered c pre [] \<Longrightarrow> conn_ok errors c"
  by (auto simp: conn_ok_def)

lemma conn_ok_postedI:
  "phase c = Posted header body \<Longrightarrow> received c = pre @ hb @ bb @ inbox c \<Longrightarrow> length hb = header_size \<Longrightarrow>
   header = received_into header_size hb \<Longrightarrow> bb \<noteq> [] \<Longrightarrow> body_size header = length bb \<Longrightarrow>
   body = received_into (length bb) bb \<Longrightarrow> answered c pre [] \<Longrightarrow> conn_ok errors c"
  by (auto simp: conn_ok_def)

lemma conn_ok_writingI:
  "phase c = Writing r \<Longrightarrow> received c = pre @ inbox c \<Longrightarrow> answered c pre (bytes_of r) \<Longrightarrow> conn_ok errors c"
  by (auto simp: conn_ok_def)

lemma conn_ok_start: "conn_ok errors Connection"
  by (simp add: conn_ok_def Connection_def answered_def)

lemma conn_ok_sends:
  "conn_ok errors c \<Longrightarrow> \<not> peer_closed c \<Longrightarrow> conn_ok errors (c\<lparr>inbox := inbox c @ bs, received := received c @ bs\<rparr>)"
  by (cases "phase c") (fastforce simp: conn_ok_def answered_def)+

lemma conn_ok_closes: "conn_ok errors c \<Longrightarrow> conn_ok errors (c\<lparr>peer_closed := True\<rparr>)"
  by (cases "phase c") (auto simp: conn_ok_def answered_def)

lemma conn_ok_header:
  assumes "conn_ok errors c" "phase c = Reading_header" "header_size \<le> length (inbox c)"
  shows "conn_ok errors (handleReadHeader False header_size (received_into header_size (inbox c))
    (c\<lparr>inbox := drop header_size (inbox c)\<rparr>))"
proof -
  let ?hb = "take header_size (inbox c)"
  obtain pre where pre: "received c = pre @ inbox c" "answered c pre []" using assms(1,2) by (auto simp: conn_ok_def)
  have hb: "received_into header_size (inbox c) = received_into header_size ?hb" "length ?hb = header_size"
    "received c = pre @ ?hb @ drop header_size (inbox c)"
    using assms(3) pre(1) by (simp_all add: received_into_take)
  show ?thesis
  proof (cases "body_size (received_into header_size ?hb) = 0")
    case True
    then have "answers_to E (?hb @ x) = []" for x using answers_no_body [OF hb(2)] by simp
    moreover have "received c @ x = pre @ ?hb @ (drop header_size (inbox c) @ x)" for x using hb(3) by simp
    ultimately have "answers_to E (received c @ x) = outbox c" for x
      using pre(2) by (simp only: answered_def append_Nil append_Nil2)
    from this this [of "[]"] show ?thesis using True hb(1)
      by (simp add: state_simps body_size_def getBodySize_def conn_ok_def unat_eq_zero)
  next
    case False
    have "conn_ok errors (c\<lparr>inbox := drop header_size (inbox c), phase := Reading_body (received_into header_size ?hb)\<rparr>)"
      by (rule conn_ok_bodyI [where pre = pre and hb = ?hb]) (use hb pre(2) False in \<open>simp_all add: answered_def\<close>)
    then show ?thesis using False hb(1) by (auto simp: state_simps body_size_def getBodySize_def)
  qed
qed

lemma handled_ok:
  assumes "received c = pre @ hb @ bb @ inbox c" "length hb = header_size" "bb \<noteq> []"
    and "body_size (received_into header_size hb) = length bb" "answered c pre []"
  shows "\<exists>r. handleRequest E (received_into header_size hb) (received_into (length bb) bb) = Some r \<and>
    header_size \<le> buf_size r \<and> answered c (pre @ hb @ bb) (bytes_of r)"
proof -
  obtain r where r: "handleRequest E (received_into header_size hb) (received_into (length bb) bb) = Some r"
    "header_size \<le> buf_size r"
    using responds [of "received_into header_size hb" "received_into (length bb) bb"] received_into_ok assms(2) by force
  then show ?thesis using answers_request [OF assms(2,4,3) r(1)] assms(5) by (auto simp: answered_def)
qed

lemma conn_ok_body:
  assumes "conn_ok errors c" "phase c = Reading_body header" "body_size header \<le> length (inbox c)"
  shows "conn_ok errors (handleReadBody E False (body_size header) header
    (received_into (body_size header) (inbox c)) (c\<lparr>inbox := drop (body_size header) (inbox c)\<rparr>))"
proof -
  define bb where "bb = take (body_size header) (inbox c)"
  obtain pre hb where pre: "received c = pre @ hb @ inbox c" "length hb = header_size"
    "header = received_into header_size hb" "body_size header \<noteq> 0" "answered c pre []"
    using assms(1,2) by (auto simp: conn_ok_def)
  have n: "body_size header = length bb" using assms(3) by (simp add: bb_def min_def)
  have bb: "received_into (body_size header) (inbox c) = received_into (length bb) bb" "bb \<noteq> []"
    using n pre(4) by (auto simp: bb_def received_into_take)
  define c' where "c' = c\<lparr>inbox := drop (body_size header) (inbox c)\<rparr>"
  have c: "received c' = pre @ hb @ bb @ inbox c'" "answered c' pre []"
    using pre(1,5) by (simp_all add: answered_def c'_def bb_def)
  from handled_ok [OF c(1) pre(2) bb(2)] n pre(3) c(2) obtain r where
    r: "handleRequest E header (received_into (length bb) bb) = Some r" "header_size \<le> buf_size r"
      "answered c' (pre @ hb @ bb) (bytes_of r)" by auto
  have posted: "conn_ok errors (c'\<lparr>phase := Posted header (received_into (length bb) bb)\<rparr>)"
    by (rule conn_ok_postedI [where pre = pre and hb = hb and bb = bb])
      (use bb(2) n pre(2,3) c in \<open>simp_all add: answered_def\<close>)
  have "conn_ok errors (c'\<lparr>phase := Writing r\<rparr>)"
    by (rule conn_ok_writingI [where pre = "pre @ hb @ bb"]) (use r(3) c(1) in \<open>simp_all add: answered_def\<close>)
  with posted r(1,2) show ?thesis by (simp add: state_simps bb(1) [unfolded n] n flip: c'_def [unfolded n])
qed

lemma conn_ok_shutI:
  "phase c = Shut \<Longrightarrow> (\<And>x. prefix (outbox c) (answers_to E (received c @ x))) \<Longrightarrow>
   (\<not> errors \<Longrightarrow> answers_to E (received c) = outbox c) \<Longrightarrow>
   (\<And>x. \<not> errors \<Longrightarrow> \<not> peer_closed c \<Longrightarrow> answers_to E (received c @ x) = outbox c) \<Longrightarrow> conn_ok errors c"
  by (auto simp: conn_ok_def)

text \<open>Stopping before a response is written.\<close>

lemma conn_ok_stop:
  assumes "received c = pre @ rest" "answered c pre []" "errors \<or> peer_closed c \<and> answers_to E rest = []"
  shows "conn_ok errors (conn_stop c)"
  by (rule conn_ok_shutI) (use assms in \<open>auto simp: conn_stop_def answered_def\<close>)

lemma conn_ok_step: "conn_ok errors c \<Longrightarrow> server_step errors E c c' \<Longrightarrow> conn_ok errors c'"
proof (erule server_step.cases, goal_cases)
  case (1 c1)
  then show ?case using conn_ok_header by simp
next
  case (2 c1)
  then obtain pre where "received c1 = pre @ inbox c1" "answered c1 pre []" by (auto simp: conn_ok_def)
  then show ?case using 2 conn_ok_stop [of c1 pre "inbox c1"] answers_short by simp
next
  case (3 c1 header)
  then show ?case using conn_ok_body by simp
next
  case (4 c1 header)
  then obtain pre hb where "received c1 = pre @ hb @ inbox c1" "length hb = header_size"
    "header = received_into header_size hb" "answered c1 pre []" by (auto simp: conn_ok_def)
  then show ?case using 4 conn_ok_stop [of c1 pre "hb @ inbox c1"] answers_part by simp
next
  case (5 c1 header body)
  then obtain pre hb bb where p: "received c1 = pre @ hb @ bb @ inbox c1" "length hb = header_size"
    "header = received_into header_size hb" "bb \<noteq> []" "body_size header = length bb"
    "body = received_into (length bb) bb" "answered c1 pre []" by (auto simp: conn_ok_def)
  from handled_ok [OF p(1,2,4)] p(3,5,7) obtain r where
    "handleRequest E header (received_into (length bb) bb) = Some r" "header_size \<le> buf_size r"
    "answered c1 (pre @ hb @ bb) (bytes_of r)" by auto
  then show ?case using 5 p(1,6) by (auto simp: conn_ok_def RequestHandlerCallback_def answered_def intro!: exI [of _ "pre @ hb @ bb"])
next
  case (6 c1 response)
  then show ?case by (auto simp: conn_ok_def state_simps answered_def)
next
  case (7 c1 response)
  then show ?case by (auto simp: conn_ok_def state_simps answered_def)
next
  case (8 c1 header)
  then obtain pre rest where "received c1 = pre @ rest" "answered c1 pre []" by (auto simp: conn_ok_def)
  then show ?case using 8 conn_ok_stop by simp
next
  case (9 c1 response k)
  then obtain pre where p: "received c1 = pre @ inbox c1" "answered c1 pre (bytes_of response)" by (auto simp: conn_ok_def)
  have "prefix (outbox c1 @ take k (bytes_of response)) (answers_to E (received c1 @ x))" for x
    using p take_is_prefix [of k "bytes_of response"] by (simp add: answered_def prefix_prefix)
  then show ?case using 9 by (auto intro!: conn_ok_shutI simp: conn_stop_def)
qed

lemma conn_ok_net_step: "conn_ok errors c \<Longrightarrow> net_step errors E c c' \<Longrightarrow> conn_ok errors c'"
  unfolding net_step_def by (auto elim!: peer_step.cases intro: conn_ok_step conn_ok_sends conn_ok_closes)

end

sublocale request_handler \<subseteq> net: inductive_invariant "\<lambda>c. c = Connection" "net_step errors E" "conn_ok errors"
  for errors
  by unfold_locales (auto intro: conn_ok_start conn_ok_net_step)

subsection \<open>Every request is answered\<close>

fun phase_work :: "conn_phase \<Rightarrow> nat" where
  "phase_work Reading_header = 1"
| "phase_work (Reading_body header) = 5"
| "phase_work (Posted header body) = 4"
| "phase_work (Responding response) = 3"
| "phase_work (Writing response) = 2"
| "phase_work Shut = 0"
| "phase_work Crashed = 0"

definition conn_work :: "connection \<Rightarrow> nat" where
  "conn_work c = length (inbox c) + phase_work (phase c)"

lemma server_step_work: "server_step False E c c' \<Longrightarrow> conn_work c' < conn_work c"
  by (induction rule: server_step.induct)
    (auto simp: conn_work_def state_simps header_size_def split: option.splits)

context request_handler
begin

lemma quiet_answered:
  assumes "conn_ok False c" "\<And>c'. \<not> server_step False E c c'"
  shows "outbox c = answers_to E (received c)"
proof (cases "phase c")
  case Reading_header
  then have "length (inbox c) < header_size" using assms(2) server_step.header_read by (meson not_less)
  then show ?thesis using assms(1) Reading_header answers_short by (auto simp: conn_ok_def answered_def)
next
  case (Reading_body header)
  then have "length (inbox c) < body_size header" using assms(2) server_step.body_read by (meson not_less)
  then show ?thesis using assms(1) Reading_body answers_part by (auto simp: conn_ok_def answered_def)
next
  case Shut
  then show ?thesis using assms(1) by (simp add: conn_ok_def)
next
  case Crashed
  then show ?thesis using assms(1) by (simp add: conn_ok_def)
qed (use assms(2) in \<open>blast intro: server_step.intros\<close>)+

end

sublocale request_handler \<subseteq> answering: closing_machine "server_step False E" "conn_ok False" "\<lambda>_. True"
    "\<lambda>c. outbox c = answers_to E (received c)" conn_work
proof unfold_locales
  fix c c' :: connection
  show "conn_ok False c \<Longrightarrow> server_step False E c c' \<Longrightarrow> conn_ok False c'" by (rule conn_ok_step)
  show "conn_ok False c \<Longrightarrow> True \<Longrightarrow> server_step False E c c' \<Longrightarrow> True \<and> conn_work c' < conn_work c"
    using server_step_work by blast
  show "conn_ok False c \<Longrightarrow> True \<Longrightarrow> outbox c \<noteq> answers_to E (received c) \<Longrightarrow> \<exists>c'. server_step False E c c'"
    using quiet_answered by blast
qed

context request_handler
begin

lemma reachable_prefix:
  "(net_step errors E)\<^sup>*\<^sup>* Connection c \<Longrightarrow> phase c \<noteq> Crashed \<and> prefix (outbox c) (answers_to E (received c))"
proof -
  assume "(net_step errors E)\<^sup>*\<^sup>* Connection c"
  then have "conn_ok errors c" by (rule net.reachable_inv [OF refl])
  then show ?thesis
    by (cases "phase c") (auto simp: conn_ok_def answered_def dest: spec [of _ "[]"])
qed

lemma reachable_answers:
  assumes "(net_step False E)\<^sup>*\<^sup>* Connection c" "(server_step False E ^^ k) c c'"
  shows "k \<le> conn_work c \<and>
    ((\<forall>u. \<not> server_step False E c' u) \<longrightarrow> outbox c' = answers_to E (received c'))"
proof -
  have "conn_ok False c" using assms(1) by (rule net.reachable_inv [OF refl])
  then show ?thesis using answering.closing_bound [OF assms(2)] answering.stuck_closed [OF assms(2)] by blast
qed

lemma server_quiet:
  assumes "(net_step False E)\<^sup>*\<^sup>* Connection c"
  shows "\<exists>c'. (server_step False E)\<^sup>*\<^sup>* c c' \<and> (\<forall>u. \<not> server_step False E c' u)"
  using answering.closing_stops [of c] net.reachable_inv [OF refl assms] by blast

end

lemma server_steps_net: "(server_step errors E)\<^sup>*\<^sup>* c c' \<Longrightarrow> (net_step errors E)\<^sup>*\<^sup>* c c'"
  by (rule rtranclp_mono [THEN predicate2D]) (auto simp: net_step_def)

lemma server_steps_received: "(server_step errors E)\<^sup>*\<^sup>* c c' \<Longrightarrow> received c' = received c"
proof (induction rule: rtranclp_induct)
  case (step y z)
  from step.hyps(2) have "received z = received y"
    by cases (auto simp: state_simps split: option.splits)
  with step.IH show ?case by simp
qed simp

end
