(* ===== verification/Net_Client.thy ===== *)
theory Net_Client
  imports Net_Server
begin

text \<open>
  The client of the data provider, \<open>diff2/data_provider/client/sync_client.cpp\<close>, the echo
  handler of \<open>test_server/test_server.cpp\<close>, and the service as a whole.
\<close>

subsection \<open>The echo handler\<close>

definition EchoRequestHandler :: "bool \<Rightarrow> net_env" where
  "EchoRequestHandler threads = \<lparr>handleRequest = buffer_plus, handlerThreadPool = threads\<rparr>"

interpretation echo: request_handler "EchoRequestHandler threads"
proof unfold_locales
  fix header body :: aligned_buffer
  assume ok: "buffer_ok header" "buf_size header = header_size" "buffer_ok body"
  then obtain b where b: "buffer_plus header body = Some b" "buffer_ok b" "bytes_of b = bytes_of header @ bytes_of body"
    using buffer_plus_ok by blast
  then have "buf_size b = header_size + buf_size body" using ok bytes_of_length by (metis length_append)
  with b show "\<exists>r. handleRequest (EchoRequestHandler threads) header body = Some r \<and> buffer_ok r \<and> header_size \<le> buf_size r"
    by (simp add: EchoRequestHandler_def)
qed

subsection \<open>Requests\<close>

text \<open>What the client sends: the two buffers of \<open>main\<close> put together.\<close>

definition request_buffer :: "u32 \<Rightarrow> u8 list \<Rightarrow> aligned_buffer option" where
  "request_buffer msg_type body =
     (let header = \<lparr>msgSize = word_of_nat (length body), msgType = msg_type\<rparr> in
      buffer_plus (setBuffer (header_bytes header) MaxAlignedBuffer) (setBuffer body MaxAlignedBuffer))"

definition request_bytes :: "u32 \<Rightarrow> u8 list \<Rightarrow> u8 list" where
  "request_bytes msg_type body = header_bytes \<lparr>msgSize = word_of_nat (length body), msgType = msg_type\<rparr> @ body"

lemma request_buffer_bytes: "\<exists>b. request_buffer msg_type body = Some b \<and> getAsioBuffer b = Some (request_bytes msg_type body)"
proof -
  let ?h = "header_bytes \<lparr>msgSize = word_of_nat (length body), msgType = msg_type\<rparr>"
  obtain b where "buffer_plus (setBuffer ?h MaxAlignedBuffer) (setBuffer body MaxAlignedBuffer) = Some b"
    "buffer_ok b" "bytes_of b = ?h @ body"
    using buffer_plus_ok [of "setBuffer ?h MaxAlignedBuffer" "setBuffer body MaxAlignedBuffer"] setBuffer_ok by auto
  then show ?thesis by (simp add: request_buffer_def request_bytes_def getAsioBuffer_ok)
qed

lemma body_size_header:
  assumes "length body < 2 ^ 32"
  shows "body_size (received_into header_size (header_bytes \<lparr>msgSize = word_of_nat (length body), msgType = ty\<rparr>)) = length body"
proof -
  have "header_in (storage (received_into header_size (header_bytes h))) = h" for h
    using header_roundtrip [of h] by (simp add: received_into_def Let_def memcpy_at_def)
  then show ?thesis using assms by (simp add: body_size_def getBodySize_def unat_of_nat_small)
qed

lemma echo_request:
  assumes "body \<noteq> []" "length body < 2 ^ 32"
  shows "answers_to (EchoRequestHandler threads) (request_bytes ty body @ x) =
    request_bytes ty body @ answers_to (EchoRequestHandler threads) x"
proof -
  let ?h = "header_bytes \<lparr>msgSize = word_of_nat (length body), msgType = ty\<rparr>"
  have "buffer_ok (received_into header_size ?h)" "bytes_of (received_into header_size ?h) = ?h"
    "buffer_ok (received_into (length body) body)" "bytes_of (received_into (length body) body) = body"
    using received_into_ok [of header_size ?h] received_into_ok [of "length body" body] by simp_all
  then obtain b where b: "buffer_plus (received_into header_size ?h) (received_into (length body) body) = Some b"
    "bytes_of b = ?h @ body" using buffer_plus_ok by metis
  then show ?thesis
    using answers_request [of ?h body "EchoRequestHandler threads" b x] body_size_header [OF assms(2)] assms(1)
    by (simp add: request_bytes_def EchoRequestHandler_def)
qed

lemma echo_requests:
  "\<forall>(ty, body) \<in> set reqs. body \<noteq> [] \<and> length body < 2 ^ 32 \<Longrightarrow>
   answers_to (EchoRequestHandler threads) (concat (map (\<lambda>(ty, body). request_bytes ty body) reqs)) =
     concat (map (\<lambda>(ty, body). request_bytes ty body) reqs)"
  by (induction reqs) (auto simp: echo_request answers_short header_size_def)

subsection \<open>The client\<close>

text \<open>
  The socket of the client: the bytes that arrive before the stream ends, those sent, and whether
  it was shut down. Whether bytes can still be read after \<open>shutdown\<close> depends on the system.
\<close>

record client =
  arriving :: "u8 list"
  sent :: "u8 list"
  shut_down :: bool
  retryNum :: u32

definition client_stop :: "client \<Rightarrow> client" where
  "client_stop c = c\<lparr>shut_down := True\<rparr>"

text \<open>\<open>boost::asio::read\<close>: the bytes read and whether there was an error.\<close>

definition asio_read :: "bool \<Rightarrow> nat \<Rightarrow> client \<Rightarrow> u8 list \<times> bool \<times> client" where
  "asio_read after_shutdown n c =
     (let bs = (if shut_down c \<and> \<not> after_shutdown then [] else arriving c) in
      (take n bs, length bs < n, c\<lparr>arriving := drop (length (take n bs)) (arriving c)\<rparr>))"

definition client_write :: "bool \<Rightarrow> aligned_buffer \<Rightarrow> client \<Rightarrow> client option" where
  "client_write ec requestBuffer c =
     (case getAsioBuffer requestBuffer of
        None \<Rightarrow> None
      | Some bs \<Rightarrow> Some (if ec then client_stop c else c\<lparr>sent := sent c @ bs\<rparr>))"

definition client_readHeader :: "bool \<Rightarrow> client \<Rightarrow> aligned_buffer \<times> client" where
  "client_readHeader after_shutdown c =
     (case asio_read after_shutdown header_size c of
        (bs, ec, c1) \<Rightarrow> (received_into header_size bs, if \<not> ec then client_stop c1 else c1))"

definition client_readBody :: "bool \<Rightarrow> nat \<Rightarrow> client \<Rightarrow> aligned_buffer \<times> client" where
  "client_readBody after_shutdown n c =
     (case asio_read after_shutdown n c of
        (bs, ec, c1) \<Rightarrow> (received_into n bs, if \<not> ec then client_stop c1 else c1))"

definition client_read :: "bool \<Rightarrow> client \<Rightarrow> aligned_buffer \<times> aligned_buffer \<times> client" where
  "client_read after_shutdown c =
     (case client_readHeader after_shutdown c of
        (header, c1) \<Rightarrow>
          (case client_readBody after_shutdown (body_size header) c1 of
             (body, c2) \<Rightarrow> (header, body, c2)))"

lemma unat_Suc_less: "(r :: u32) < m \<Longrightarrow> unat (r + 1) = Suc (unat r)"
proof -
  assume "r < m"
  then have "r \<noteq> - 1" by auto
  then have "1 + r \<noteq> 0" by (metis add.commute add_eq_0_iff)
  then show ?thesis using unatSuc [of r] by (simp add: add.commute)
qed

text \<open>\<open>connect\<close>, over the results of the attempts.\<close>

function client_connect :: "(nat \<Rightarrow> bool) \<Rightarrow> nat \<Rightarrow> u32 \<Rightarrow> client \<Rightarrow> nat \<times> client" where
  "client_connect succeeds k maxRetry c =
     (if succeeds k then (Suc k, c)
      else if retryNum c < maxRetry
      then client_connect succeeds (Suc k) maxRetry (c\<lparr>retryNum := retryNum c + 1\<rparr>)
      else (Suc k, client_stop c))"
  by pat_completeness auto
termination
proof (relation "measure (\<lambda>(f, k, m, c). unat m - unat (retryNum c))", simp, goal_cases)
  case (1 f k m c)
  then show ?case using unat_Suc_less [of "retryNum c" m] by (simp add: word_less_nat_alt)
qed

declare client_connect.simps [simp del]

lemma client_connect_attempts:
  "fst (client_connect succeeds k maxRetry c) \<le> k + (unat maxRetry - unat (retryNum c)) + 1"
proof (induction succeeds k maxRetry c rule: client_connect.induct)
  case (1 f k m c)
  show ?case
  proof (cases "\<not> f k \<and> retryNum c < m")
    case True
    then have "unat (retryNum c) < unat m" by (simp add: word_less_nat_alt)
    then show ?thesis using True 1 unat_Suc_less [of "retryNum c" m]
      by (simp add: client_connect.simps [of f k m c])
  qed (auto simp: client_connect.simps [of f k m c])
qed

lemma client_connect_result:
  "shut_down (snd (client_connect succeeds k maxRetry c)) \<Longrightarrow>
   shut_down c \<or> \<not> succeeds (fst (client_connect succeeds k maxRetry c) - 1)"
proof (induction succeeds k maxRetry c rule: client_connect.induct)
  case (1 f k m c)
  then show ?case
    by (cases "f k"; cases "retryNum c < m") (auto simp: client_connect.simps [of f k m c])
qed

lemma received_nothing: "received_into n [] = setSize n MaxAlignedBuffer"
  by (simp add: received_into_def Let_def memcpy_at_def)

lemma bytes_of_zero: "bytes_of (setSize n MaxAlignedBuffer) = replicate n 0"
  using allocated_more [of n] by (simp add: bytes_of_def setSize_def MaxAlignedBuffer_def)

lemma body_size_zero: "body_size (received_into header_size []) = 0"
  by code_simp

lemma header_size_pos: "header_size \<noteq> 0"
  by (simp add: header_size_def)

subsection \<open>Properties\<close>

lemma echo_run:
  "\<exists>c. (net_step False (EchoRequestHandler threads))\<^sup>*\<^sup>* Connection c \<and> received c = bs \<and>
    (\<forall>u. \<not> server_step False (EchoRequestHandler threads) c u)"
proof -
  let ?E = "EchoRequestHandler threads"
  let ?c = "Connection\<lparr>inbox := inbox Connection @ bs, received := received Connection @ bs\<rparr>"
  have start: "(net_step False ?E)\<^sup>*\<^sup>* Connection ?c"
    unfolding net_step_def by (rule r_into_rtranclp, rule disjI2, rule peer_step.sends) (simp add: Connection_def)
  then obtain c where c: "(server_step False ?E)\<^sup>*\<^sup>* ?c c" "\<And>u. \<not> server_step False ?E c u"
    using request_handler.server_quiet [OF echo.request_handler_axioms] by blast
  moreover have "(net_step False ?E)\<^sup>*\<^sup>* Connection c"
    using start c(1) by (meson server_steps_net rtranclp_trans)
  moreover have "received c = bs" using server_steps_received [OF c(1)] by (simp add: Connection_def)
  ultimately show ?thesis by blast
qed

text \<open>
  Property C30: with a handler that keeps its contract the server, whatever arrives and whatever
  fails, has sent a prefix of the responses to the complete requests it has received, in their
  order; and while nothing fails it reaches, within a bounded number of steps of its own, a state
  in which it has sent all of them.
\<close>

theorem net_server_answers:
  assumes "request_handler E" "(net_step errors E)\<^sup>*\<^sup>* Connection c"
  shows "phase c \<noteq> Crashed \<and> prefix (outbox c) (answers_to E (received c)) \<and>
    (\<not> errors \<longrightarrow> (\<forall>k c'. (server_step False E ^^ k) c c' \<longrightarrow> k \<le> conn_work c \<and>
      ((\<forall>u. \<not> server_step False E c' u) \<longrightarrow> outbox c' = answers_to E (received c'))))"
proof -
  have "\<not> errors \<Longrightarrow> (net_step False E)\<^sup>*\<^sup>* Connection c" using assms(2) by simp
  then show ?thesis
    using request_handler.reachable_prefix [OF assms] request_handler.reachable_answers [OF assms(1)] by blast
qed

theorem net_server_answers_witness:
  "\<exists>c :: connection. received c = request_bytes 7 [65, 66] @ [1, 2] \<and> phase c \<noteq> Crashed \<and>
    outbox c = answers_to (EchoRequestHandler True) (request_bytes 7 [65, 66] @ [1, 2])"
proof -
  obtain c where c: "(net_step False (EchoRequestHandler True))\<^sup>*\<^sup>* Connection c"
    "received c = request_bytes 7 [65, 66] @ [1, 2]" "\<forall>u. \<not> server_step False (EchoRequestHandler True) c u"
    using echo_run by blast
  have "(server_step False (EchoRequestHandler True) ^^ 0) c c" by simp
  with net_server_answers [OF echo.request_handler_axioms c(1)] c(2,3) show ?thesis by metis
qed

text \<open>
  Property C31: a client that sends requests with bodies to the echo server gets its own bytes
  back, all of them once the server has nothing left to do.
\<close>

theorem net_echo_roundtrip:
  assumes "\<forall>(ty, body) \<in> set reqs. body \<noteq> [] \<and> length body < 2 ^ 32"
    and "(net_step False (EchoRequestHandler threads))\<^sup>*\<^sup>* Connection c"
    and "received c = concat (map (\<lambda>(ty, body). request_bytes ty body) reqs)"
    and "\<And>c'. \<not> server_step False (EchoRequestHandler threads) c c'"
  shows "outbox c = received c"
proof -
  have "outbox c = answers_to (EchoRequestHandler threads) (received c)"
    using request_handler.reachable_answers [OF echo.request_handler_axioms assms(2), of 0 c] assms(4) by simp
  then show ?thesis using echo_requests [OF assms(1)] assms(3) by simp
qed

theorem net_echo_roundtrip_witness:
  "\<exists>c :: connection. received c = request_bytes 7 [65, 66] \<and> outbox c = request_bytes 7 [65, 66]"
proof -
  obtain c where c: "(net_step False (EchoRequestHandler True))\<^sup>*\<^sup>* Connection c"
    "received c = request_bytes 7 [65, 66]" "\<forall>u. \<not> server_step False (EchoRequestHandler True) c u"
    using echo_run by blast
  then have "outbox c = received c" by (intro net_echo_roundtrip [where reqs = "[(7, [65, 66])]"]) auto
  with c(2) show ?thesis by auto
qed

text \<open>
  The client has the test of the error the wrong way round. After it has read the
  header of a response it shuts the socket down before it reads the body; where nothing can be read
  after that, the body it returns is all zeros. When the connection is broken it does nothing, and
  returns an empty body as if the response had been one.
\<close>

theorem client_read_inverted:
  assumes "\<not> shut_down c"
  shows "(header_size \<le> length (arriving c) \<longrightarrow>
      shut_down (snd (client_readHeader b c)) \<and>
      bytes_of (fst (snd (client_read False c))) =
        replicate (body_size (received_into header_size (arriving c))) 0) \<and>
    (arriving c = [] \<longrightarrow> \<not> shut_down (snd (client_readHeader b c)) \<and>
      bytes_of (fst (snd (client_read b c))) = [])"
proof (intro conjI impI)
  assume *: "header_size \<le> length (arriving c)"
  then show "shut_down (snd (client_readHeader b c))"
    using assms by (simp add: client_readHeader_def asio_read_def client_stop_def Let_def)
  show "bytes_of (fst (snd (client_read False c))) = replicate (body_size (received_into header_size (arriving c))) 0"
    using assms * by (simp add: client_read_def client_readHeader_def client_readBody_def asio_read_def client_stop_def
        Let_def received_nothing bytes_of_zero received_into_take)
next
  assume *: "arriving c = []"
  then show "\<not> shut_down (snd (client_readHeader b c))"
    using assms by (simp add: client_readHeader_def asio_read_def Let_def header_size_def)
  show "bytes_of (fst (snd (client_read b c))) = []"
    using * body_size_zero header_size_pos by (simp add: client_read_def client_readHeader_def client_readBody_def asio_read_def
        Let_def received_nothing bytes_of_zero split: prod.splits)
qed

theorem client_read_inverted_witness:
  "bytes_of (fst (snd (client_read False \<lparr>arriving = request_bytes 7 [65, 66], sent = [], shut_down = False, retryNum = 0\<rparr>))) = [0, 0]"
proof -
  let ?c = "\<lparr>arriving = request_bytes 7 [65, 66], sent = [], shut_down = False, retryNum = 0\<rparr> :: client"
  have "header_size \<le> length (arriving ?c)" "body_size (received_into header_size (arriving ?c)) = 2"
    by code_simp+
  then show ?thesis using client_read_inverted [of ?c] by (simp add: numeral_2_eq_2)
qed

end
