(* ===== verification/Blocking_Queue.thy ===== *)
theory Blocking_Queue
  imports Task_Pool
begin

text \<open>
  The queues that hand data from thread to thread, \<open>diff2/DataTransfer.cpp\<close>: two containers of
  unique pointers, one for a single element and one for many, and a wrapper that makes a
  container safe for threads with a mutex and a condition variable for each end. A section under the
  mutex is one step; a notification wakes one thread of those that wait, if there are any.
  An element is \<open>None\<close> if it is a null pointer.
\<close>

subsection \<open>Containers\<close>

text \<open>What the wrapper calls; \<open>None\<close> is the front of an empty queue.\<close>

record ('c, 'e) container_ops =
  op_moveIn :: "'e \<Rightarrow> 'c \<Rightarrow> 'c"
  op_moveOut :: "'c \<Rightarrow> ('e \<times> 'c) option"
  op_empty :: "'c \<Rightarrow> bool"
  op_full :: "'c \<Rightarrow> bool"

definition single_moveIn :: "'a option \<Rightarrow> 'a option \<Rightarrow> 'a option" where
  "single_moveIn element c = element"

definition single_moveOut :: "'a option \<Rightarrow> 'a option \<times> 'a option" where
  "single_moveOut c = (c, None)"

definition single_empty :: "'a option \<Rightarrow> bool" where
  "single_empty c = (c = None)"

definition single_full :: "'a option \<Rightarrow> bool" where
  "single_full c = (c \<noteq> None)"

definition SingleElementData :: "('a option, 'a option) container_ops" where
  "SingleElementData =
     \<lparr>op_moveIn = single_moveIn, op_moveOut = \<lambda>c. Some (single_moveOut c), op_empty = single_empty, op_full = single_full\<rparr>"

definition MAX_QUEUE_SIZE :: nat where
  "MAX_QUEUE_SIZE = 20"

definition queue_moveIn :: "'a option \<Rightarrow> 'a option list \<Rightarrow> 'a option list" where
  "queue_moveIn element c = c @ [element]"

definition queue_moveOut :: "'a option list \<Rightarrow> ('a option \<times> 'a option list) option" where
  "queue_moveOut c = (case c of [] \<Rightarrow> None | el # c' \<Rightarrow> Some (el, c'))"

definition queue_empty :: "'a option list \<Rightarrow> bool" where
  "queue_empty c = (c = [])"

definition queue_full :: "'a option list \<Rightarrow> bool" where
  "queue_full c = (MAX_QUEUE_SIZE < length c)"

definition QueueElementData :: "('a option list, 'a option) container_ops" where
  "QueueElementData =
     \<lparr>op_moveIn = queue_moveIn, op_moveOut = queue_moveOut, op_empty = queue_empty, op_full = queue_full\<rparr>"

subsection \<open>The wrapper\<close>

datatype 'e call = MoveIn 'e | MoveOut

text \<open>A thread has the calls it still makes, and may wait inside the first of them.\<close>

datatype 'e caller = Ready "'e call list" | On_not_full "'e call list" | On_not_empty "'e call list"

record ('c, 'e) data_queue =
  container :: 'c
  thread :: "nat \<Rightarrow> 'e caller"
  moved_in :: "'e list"
  moved_out :: "'e list"

fun waits_not_full :: "'e caller \<Rightarrow> bool" where
  "waits_not_full (On_not_full cs) = True"
| "waits_not_full (On_not_empty cs) = False"
| "waits_not_full (Ready cs) = False"

fun waits_not_empty :: "'e caller \<Rightarrow> bool" where
  "waits_not_empty (On_not_empty cs) = True"
| "waits_not_empty (On_not_full cs) = False"
| "waits_not_empty (Ready cs) = False"

fun calls :: "'e caller \<Rightarrow> 'e call list" where
  "calls (Ready cs) = cs"
| "calls (On_not_full cs) = cs"
| "calls (On_not_empty cs) = cs"

definition at_thread :: "nat \<Rightarrow> 'e caller \<Rightarrow> ('c, 'e) data_queue \<Rightarrow> ('c, 'e) data_queue" where
  "at_thread t p s = s\<lparr>thread := (thread s)(t := p)\<rparr>"

text \<open>\<open>notify_one\<close>: the thread it wakes tests its condition again.\<close>

definition may_notify :: "nat \<Rightarrow> ('e caller \<Rightarrow> bool) \<Rightarrow> (nat \<Rightarrow> 'e caller) \<Rightarrow> nat option \<Rightarrow> bool" where
  "may_notify n waiting f w =
     (case w of None \<Rightarrow> list_all (\<lambda>u. \<not> waiting (f u)) [0..<n] | Some u \<Rightarrow> u < n \<and> waiting (f u))"

definition notify_one :: "nat option \<Rightarrow> ('c, 'e) data_queue \<Rightarrow> ('c, 'e) data_queue" where
  "notify_one w s = (case w of None \<Rightarrow> s | Some u \<Rightarrow> at_thread u (Ready (calls (thread s u))) s)"

definition dq_moveIn ::
  "('c, 'e) container_ops \<Rightarrow> nat \<Rightarrow> 'e \<Rightarrow> 'e call list \<Rightarrow> nat option \<Rightarrow> ('c, 'e) data_queue \<Rightarrow> ('c, 'e) data_queue" where
  "dq_moveIn C t element cs w s =
     (if op_full C (container s) then at_thread t (On_not_full (MoveIn element # cs)) s
      else notify_one w (at_thread t (Ready cs)
        (s\<lparr>container := op_moveIn C element (container s), moved_in := moved_in s @ [element]\<rparr>)))"

definition dq_moveOut ::
  "('c, 'e) container_ops \<Rightarrow> nat \<Rightarrow> 'e call list \<Rightarrow> nat option \<Rightarrow> ('c, 'e) data_queue \<Rightarrow> ('c, 'e) data_queue" where
  "dq_moveOut C t cs w s =
     (if op_empty C (container s) then at_thread t (On_not_empty (MoveOut # cs)) s
      else case op_moveOut C (container s) of
        None \<Rightarrow> s
      | Some (el, c) \<Rightarrow> notify_one w (at_thread t (Ready cs) (s\<lparr>container := c, moved_out := moved_out s @ [el]\<rparr>)))"

definition dq_empty :: "('c, 'e) container_ops \<Rightarrow> ('c, 'e) data_queue \<Rightarrow> bool" where
  "dq_empty C s = op_empty C (container s)"

definition dq_full :: "('c, 'e) container_ops \<Rightarrow> ('c, 'e) data_queue \<Rightarrow> bool" where
  "dq_full C s = op_full C (container s)"

inductive dq_step :: "('c, 'e) container_ops \<Rightarrow> bool \<Rightarrow> nat \<Rightarrow> ('c, 'e) data_queue \<Rightarrow> ('c, 'e) data_queue \<Rightarrow> bool"
  for C :: "('c, 'e) container_ops" and spurious :: bool and n :: nat
where
  moves_in: "t < n \<Longrightarrow> thread s t = Ready (MoveIn e # cs) \<Longrightarrow> may_notify n waits_not_empty (thread s) w \<Longrightarrow>
    dq_step C spurious n s (dq_moveIn C t e cs w s)"
| moves_out: "t < n \<Longrightarrow> thread s t = Ready (MoveOut # cs) \<Longrightarrow> may_notify n waits_not_full (thread s) w \<Longrightarrow>
    dq_step C spurious n s (dq_moveOut C t cs w s)"
| wakes_spuriously: "t < n \<Longrightarrow> waits_not_full (thread s t) \<or> waits_not_empty (thread s t) \<Longrightarrow> spurious \<Longrightarrow>
    dq_step C spurious n s (notify_one (Some t) s)"

definition dq_start :: "'c \<Rightarrow> (nat \<Rightarrow> 'e call list) \<Rightarrow> ('c, 'e) data_queue" where
  "dq_start c programs = \<lparr>container = c, thread = \<lambda>t. Ready (programs t), moved_in = [], moved_out = []\<rparr>"

lemmas [state_simps] = at_thread_def notify_one_def dq_moveIn_def dq_moveOut_def

subsection \<open>The contract of a container\<close>

text \<open>
  A container has its items in order, at most \<open>cap\<close> of them; \<open>good\<close> are the elements it can hold.
\<close>

locale bounded_container =
  fixes C :: "('c, 'e) container_ops"
    and new :: 'c
    and items :: "'c \<Rightarrow> 'e list"
    and cap :: nat
    and good :: "'e \<Rightarrow> bool"
  assumes new_items: "items new = []"
    and moveIn_items: "good e \<Longrightarrow> \<not> op_full C c \<Longrightarrow> items (op_moveIn C e c) = items c @ [e]"
    and moveOut_items: "\<not> op_empty C c \<Longrightarrow> \<exists>e c'. op_moveOut C c = Some (e, c') \<and> items c = e # items c'"
    and empty_items: "op_empty C c \<longleftrightarrow> items c = []"
    and full_items: "op_full C c \<longleftrightarrow> cap \<le> length (items c)"
    and cap_pos: "0 < cap"

interpretation single: bounded_container SingleElementData None "\<lambda>c. case c of None \<Rightarrow> [] | Some x \<Rightarrow> [c]" 1 "\<lambda>e. e \<noteq> None"
  by unfold_locales
    (auto simp: SingleElementData_def single_moveIn_def single_moveOut_def single_empty_def single_full_def split: option.splits)

interpretation many: bounded_container QueueElementData "[]" "\<lambda>c. c" "Suc MAX_QUEUE_SIZE" "\<lambda>e. True"
  by unfold_locales
    (auto simp: QueueElementData_def queue_moveIn_def queue_moveOut_def queue_empty_def queue_full_def split: list.splits)

subsection \<open>The invariant\<close>

text \<open>Threads that are about to test whether they can move an element out, or in.\<close>

fun reads :: "'e caller \<Rightarrow> nat" where
  "reads (Ready (MoveOut # cs)) = 1"
| "reads p = 0"

fun writes :: "'e caller \<Rightarrow> nat" where
  "writes (Ready (MoveIn e # cs)) = 1"
| "writes p = 0"

fun caller_ok :: "('e \<Rightarrow> bool) \<Rightarrow> 'e caller \<Rightarrow> bool" where
  "caller_ok good (On_not_full (MoveIn e # cs)) = (good e \<and> caller_ok good (Ready cs))"
| "caller_ok good (On_not_empty (MoveOut # cs)) = caller_ok good (Ready cs)"
| "caller_ok good (Ready cs) = (\<forall>e. MoveIn e \<in> set cs \<longrightarrow> good e)"
| "caller_ok good p = False"

lemma waits_not_empty_ok:
  assumes "waits_not_empty p" "caller_ok good p"
  obtains cs where "p = On_not_empty (MoveOut # cs)" "caller_ok good (Ready (MoveOut # cs))"
  using assms by (cases "(good, p)" rule: caller_ok.cases) auto

lemma waits_not_full_ok:
  assumes "waits_not_full p" "caller_ok good p"
  obtains e cs where "p = On_not_full (MoveIn e # cs)" "caller_ok good (Ready (MoveIn e # cs))"
  using assms by (cases "(good, p)" rule: caller_ok.cases) auto

lemma caller_ok_Ready: "caller_ok good (Ready (c # cs)) \<longleftrightarrow> (\<forall>e. c = MoveIn e \<longrightarrow> good e) \<and> caller_ok good (Ready cs)"
  by auto

text \<open>
  While a thread waits for an element, the elements there are at most as many as the threads that
  are about to take one; and likewise for those that wait for space. In the middle of a call
  one of them may be missing.
\<close>

definition dq_slack ::
  "nat \<Rightarrow> nat \<Rightarrow> ('c \<Rightarrow> 'e list) \<Rightarrow> nat \<Rightarrow> ('e \<Rightarrow> bool) \<Rightarrow> nat \<Rightarrow> ('c, 'e) data_queue \<Rightarrow> bool" where
  "dq_slack a b items cap good n s \<longleftrightarrow>
     (\<forall>t<n. caller_ok good (thread s t)) \<and>
     length (items (container s)) \<le> cap \<and>
     moved_in s = moved_out s @ items (container s) \<and>
     ((\<exists>t<n. waits_not_empty (thread s t)) \<longrightarrow> length (items (container s)) \<le> (\<Sum>t<n. reads (thread s t)) + a) \<and>
     ((\<exists>t<n. waits_not_full (thread s t)) \<longrightarrow>
       cap \<le> length (items (container s)) + (\<Sum>t<n. writes (thread s t)) + b)"

abbreviation dq_ok :: "('c \<Rightarrow> 'e list) \<Rightarrow> nat \<Rightarrow> ('e \<Rightarrow> bool) \<Rightarrow> nat \<Rightarrow> ('c, 'e) data_queue \<Rightarrow> bool" where
  "dq_ok \<equiv> dq_slack 0 0"

lemma sum_thread:
  fixes f :: "'a \<Rightarrow> nat" and n :: nat
  shows "t < n \<Longrightarrow> (\<Sum>u<n. f ((g(t := p)) u)) + f (g t) = (\<Sum>u<n. f (g u)) + f p"
  using sum_update [of "{..<n}" t f g p] by simp

lemma woken_sums:
  assumes "u < (n :: nat)" "caller_ok good (g u)"
  shows "waits_not_empty (g u) \<Longrightarrow> (\<Sum>t<n. reads ((g(u := Ready (calls (g u)))) t)) = Suc (\<Sum>t<n. reads (g t)) \<and>
      (\<Sum>t<n. writes ((g(u := Ready (calls (g u)))) t)) = (\<Sum>t<n. writes (g t))"
    and "waits_not_full (g u) \<Longrightarrow> (\<Sum>t<n. writes ((g(u := Ready (calls (g u)))) t)) = Suc (\<Sum>t<n. writes (g t)) \<and>
      (\<Sum>t<n. reads ((g(u := Ready (calls (g u)))) t)) = (\<Sum>t<n. reads (g t))"
  using sum_thread [where t = u and n = n and f = reads and g = g and p = "Ready (calls (g u))"]
    sum_thread [where t = u and n = n and f = writes and g = g and p = "Ready (calls (g u))"] assms
  by (auto elim!: waits_not_empty_ok waits_not_full_ok)

lemma slack_wake:
  assumes ok: "dq_slack a b items cap good n s" and t: "t < n"
  shows "waits_not_empty (thread s t) \<Longrightarrow> dq_slack (a - 1) b items cap good n (notify_one (Some t) s)"
    and "waits_not_full (thread s t) \<Longrightarrow> dq_slack a (b - 1) items cap good n (notify_one (Some t) s)"
proof -
  have c: "caller_ok good (thread s t)" using ok t by (simp add: dq_slack_def)
  have r: "caller_ok good (Ready (calls (thread s t)))" if "waits_not_full (thread s t) \<or> waits_not_empty (thread s t)"
    using that c by (auto elim!: waits_not_empty_ok waits_not_full_ok)
  note sums = woken_sums [where g = "thread s" and u = t and n = n, OF t c]
  have some: "\<exists>t<n. waits_not_empty (thread s t)" if "waits_not_empty (thread s t)" using t that by blast
  have some': "\<exists>t<n. waits_not_full (thread s t)" if "waits_not_full (thread s t)" using t that by blast
  show "dq_slack (a - 1) b items cap good n (notify_one (Some t) s)" if w: "waits_not_empty (thread s t)"
    using ok r sums(1) [OF w] some [OF w] w unfolding dq_slack_def by (auto simp: state_simps split: if_splits)
  show "dq_slack a (b - 1) items cap good n (notify_one (Some t) s)" if w: "waits_not_full (thread s t)"
    using ok r sums(2) [OF w] some' [OF w] w unfolding dq_slack_def by (auto simp: state_simps split: if_splits)
qed

lemma slack_notify:
  assumes ok: "dq_slack a b items cap good n s"
  shows "may_notify n waits_not_empty (thread s) w \<Longrightarrow> a \<le> 1 \<Longrightarrow> dq_slack 0 b items cap good n (notify_one w s)"
    and "may_notify n waits_not_full (thread s) w \<Longrightarrow> b \<le> 1 \<Longrightarrow> dq_slack a 0 items cap good n (notify_one w s)"
proof -
  have none: "dq_slack 0 b items cap good n s" if "\<forall>t<n. \<not> waits_not_empty (thread s t)"
    using ok that unfolding dq_slack_def by auto
  have none': "dq_slack a 0 items cap good n s" if "\<forall>t<n. \<not> waits_not_full (thread s t)"
    using ok that unfolding dq_slack_def by auto
  show "dq_slack 0 b items cap good n (notify_one w s)" if "may_notify n waits_not_empty (thread s) w" "a \<le> 1"
    using none slack_wake(1) [OF ok] that
    by (cases w) (auto simp: may_notify_def list_all_iff notify_one_def)
  show "dq_slack a 0 items cap good n (notify_one w s)" if "may_notify n waits_not_full (thread s) w" "b \<le> 1"
    using none' slack_wake(2) [OF ok] that
    by (cases w) (auto simp: may_notify_def list_all_iff notify_one_def)
qed

lemma waiting_sums:
  "waits_not_empty p \<or> waits_not_full p \<Longrightarrow> reads p = 0 \<and> writes p = 0" "reads (Ready []) = 0 \<and> writes (Ready []) = 0"
  by (cases p; simp)+

lemma may_notify_some: "\<exists>w. may_notify n p f w"
proof (cases "\<exists>u<n. p (f u)")
  case True
  then obtain u where "u < n" "p (f u)" by blast
  then show ?thesis by (intro exI [of _ "Some u"]) (simp add: may_notify_def)
next
  case False
  then show ?thesis by (intro exI [of _ None]) (simp add: may_notify_def list_all_iff)
qed

lemma may_notify_other:
  "may_notify n p f w \<Longrightarrow> \<not> p q \<Longrightarrow> \<not> p (f t) \<Longrightarrow> may_notify n p (f(t := q)) w"
  by (auto simp: may_notify_def list_all_iff split: option.splits)

lemma Ready_sums:
  assumes "t < (n :: nat)" "g t = Ready (c # cs)"
  shows "(\<Sum>u<n. reads (g u)) \<le> (\<Sum>u<n. reads ((g(t := Ready cs)) u)) + (if c = MoveOut then 1 else 0)"
    and "(\<Sum>u<n. writes (g u)) \<le> (\<Sum>u<n. writes ((g(t := Ready cs)) u)) + (if c = MoveOut then 0 else 1)"
  using sum_thread [where f = reads and g = g and p = "Ready cs", OF assms(1)]
    sum_thread [where f = writes and g = g and p = "Ready cs", OF assms(1)] assms(2)
  by (cases c; simp)+

context bounded_container
begin

lemma moveIn_ok:
  assumes ok: "dq_ok items cap good n s" and t: "t < n" "thread s t = Ready (MoveIn e # cs)"
    and w: "may_notify n waits_not_empty (thread s) w"
  shows "dq_ok items cap good n (dq_moveIn C t e cs w s)"
proof -
  have e: "good e" "caller_ok good (Ready cs)" using ok t by (auto simp: dq_slack_def)
  show ?thesis
  proof (cases "op_full C (container s)")
    case True
    then have "cap \<le> length (items (container s))" by (simp add: full_items)
    moreover have "(\<Sum>u<n. reads (thread (at_thread t (On_not_full (MoveIn e # cs)) s) u)) = (\<Sum>u<n. reads (thread s u))"
      using sum_thread [where f = reads and g = "thread s" and p = "On_not_full (MoveIn e # cs)", OF t(1)] t(2)
      by (simp add: at_thread_def)
    ultimately show ?thesis using ok True e t unfolding dq_slack_def dq_moveIn_def
      by (auto simp: at_thread_def split: if_splits)
  next
    case False
    let ?m = "at_thread t (Ready cs)
      (s\<lparr>container := op_moveIn C e (container s), moved_in := moved_in s @ [e]\<rparr>)"
    have "items (container ?m) = items (container s) @ [e]" using moveIn_items [OF e(1) False] by (simp add: at_thread_def)
    moreover have "length (items (container s)) < cap" using False by (simp add: full_items)
    ultimately have m: "dq_slack 1 0 items cap good n ?m"
      using ok e Ready_sums [where g = "thread s", OF t] t unfolding dq_slack_def
      by (fastforce simp: at_thread_def split: if_splits)
    have "may_notify n waits_not_empty (thread ?m) w"
      using may_notify_other [OF w, of "Ready cs" t] t by (simp add: at_thread_def)
    from slack_notify(1) [OF m this] show ?thesis using False by (simp add: dq_moveIn_def)
  qed
qed

lemma moveOut_ok:
  assumes ok: "dq_ok items cap good n s" and t: "t < n" "thread s t = Ready (MoveOut # cs)"
    and w: "may_notify n waits_not_full (thread s) w"
  shows "dq_ok items cap good n (dq_moveOut C t cs w s)"
proof -
  have e: "caller_ok good (Ready cs)" using ok t by (auto simp: dq_slack_def)
  show ?thesis
  proof (cases "op_empty C (container s)")
    case True
    then have "items (container s) = []" by (simp add: empty_items)
    moreover have "(\<Sum>u<n. writes (thread (at_thread t (On_not_empty (MoveOut # cs)) s) u)) = (\<Sum>u<n. writes (thread s u))"
      using sum_thread [where f = writes and g = "thread s" and p = "On_not_empty (MoveOut # cs)", OF t(1)] t(2)
      by (simp add: at_thread_def)
    ultimately show ?thesis using ok True e t unfolding dq_slack_def dq_moveOut_def
      by (auto simp: at_thread_def split: if_splits)
  next
    case False
    then obtain x c where x: "op_moveOut C (container s) = Some (x, c)" "items (container s) = x # items c"
      using moveOut_items by blast
    let ?m = "at_thread t (Ready cs) (s\<lparr>container := c, moved_out := moved_out s @ [x]\<rparr>)"
    have m: "dq_slack 0 1 items cap good n ?m"
      using ok e x(2) Ready_sums [where g = "thread s", OF t] t unfolding dq_slack_def
      by (fastforce simp: at_thread_def split: if_splits)
    have "may_notify n waits_not_full (thread ?m) w"
      using may_notify_other [OF w, of "Ready cs" t] t by (simp add: at_thread_def)
    from slack_notify(2) [OF m this] show ?thesis using False x(1) by (simp add: dq_moveOut_def)
  qed
qed

lemma dq_ok_step: "dq_ok items cap good n s \<Longrightarrow> dq_step C spurious n s s' \<Longrightarrow> dq_ok items cap good n s'"
  by (erule dq_step.cases) (auto intro: moveIn_ok moveOut_ok dest: slack_wake(1,2) [rotated])

lemma dq_ok_start: "(\<And>t e. t < n \<Longrightarrow> MoveIn e \<in> set (programs t) \<Longrightarrow> good e) \<Longrightarrow> dq_ok items cap good n (dq_start new programs)"
  by (auto simp: dq_slack_def dq_start_def new_items)

text \<open>Where no thread can go on, all are done, or those left wait for an element, or for space.\<close>

lemma dq_stuck:
  assumes ok: "dq_ok items cap good n s" and stuck: "\<And>s'. \<not> dq_step C False n s s'"
  shows "(\<forall>t<n. thread s t = Ready []) \<or>
    items (container s) = [] \<and> (\<forall>t<n. thread s t = Ready [] \<or> waits_not_empty (thread s t)) \<or>
    length (items (container s)) = cap \<and> (\<forall>t<n. thread s t = Ready [] \<or> waits_not_full (thread s t))"
proof -
  have asleep: "thread s t = Ready [] \<or> waits_not_empty (thread s t) \<or> waits_not_full (thread s t)" if t: "t < n" for t
  proof (cases "thread s t")
    case (Ready cs)
    show ?thesis
    proof (cases cs)
      case (Cons c cs')
      show ?thesis
      proof (cases c)
        case (MoveIn e)
        with dq_step.moves_in [OF t] Ready Cons may_notify_some stuck show ?thesis by metis
      next
        case MoveOut
        with dq_step.moves_out [OF t] Ready Cons may_notify_some stuck show ?thesis by metis
      qed
    qed (simp add: Ready)
  qed auto
  then have "(\<Sum>t<n. reads (thread s t)) = 0" "(\<Sum>t<n. writes (thread s t)) = 0"
    using waiting_sums by fastforce+
  then have "\<exists>t<n. waits_not_empty (thread s t) \<Longrightarrow> items (container s) = []"
    "\<exists>t<n. waits_not_full (thread s t) \<Longrightarrow> cap = length (items (container s))"
    using ok by (auto simp: dq_slack_def)
  then show ?thesis using asleep cap_pos
    by (cases "\<exists>t<n. waits_not_empty (thread s t)"; cases "\<exists>t<n. waits_not_full (thread s t)") auto
qed

end

subsection \<open>All calls return\<close>

fun caller_work :: "'e caller \<Rightarrow> nat" where
  "caller_work (Ready cs) = Suc (2 * length cs)"
| "caller_work (On_not_full cs) = 2 * length cs"
| "caller_work (On_not_empty cs) = 2 * length cs"

definition dq_work :: "nat \<Rightarrow> ('c, 'e) data_queue \<Rightarrow> nat" where
  "dq_work n s = (\<Sum>t<n. caller_work (thread s t))"

lemma caller_work_wake: "caller_work (Ready (calls p)) \<le> Suc (caller_work p)"
  by (cases p) auto

lemma dq_work_at:
  "t < n \<Longrightarrow> dq_work n (at_thread t p s) + caller_work (thread s t) = dq_work n s + caller_work p"
  using sum_thread [where f = caller_work and g = "thread s" and p = p] by (simp add: dq_work_def at_thread_def)

lemma dq_work_notify: "may_notify n q f w \<Longrightarrow> dq_work n (notify_one w s) \<le> Suc (dq_work n s)"
  using dq_work_at [of "the w" n "Ready (calls (thread s (the w)))" s] caller_work_wake [of "thread s (the w)"]
  by (auto simp: may_notify_def notify_one_def split: option.splits)

lemma dq_work_cong [simp]: "dq_work n (s\<lparr>container := c\<rparr>) = dq_work n s" "dq_work n (s\<lparr>moved_in := x\<rparr>) = dq_work n s"
  "dq_work n (s\<lparr>moved_out := x\<rparr>) = dq_work n s"
  by (simp_all add: dq_work_def)

text \<open>Calls of each kind that have not returned, and all calls of a thread.\<close>

definition unreturned :: "('e call \<Rightarrow> bool) \<Rightarrow> nat \<Rightarrow> (nat \<Rightarrow> 'e call list) \<Rightarrow> nat" where
  "unreturned k n f = (\<Sum>t<n. length (filter k (f t)))"

definition is_out :: "'e call \<Rightarrow> bool" where
  "is_out c \<longleftrightarrow> c = MoveOut"

lemma is_out_simps [simp]: "is_out MoveOut" "\<not> is_out (MoveIn e)"
  by (simp_all add: is_out_def)

lemma calls_notify [simp]: "calls (thread (notify_one w s) t) = calls (thread s t)"
  by (auto simp: state_simps split: option.splits)

lemma unreturned_at:
  assumes "t < n" "calls (thread s t) = c # cs" "calls p = cs"
  shows "unreturned k n (\<lambda>u. calls (thread (at_thread t p s) u)) + (if k c then 1 else 0) =
    unreturned k n (\<lambda>u. calls (thread s u))"
  using sum_thread [where f = "\<lambda>p. length (filter k (calls p))" and g = "thread s" and p = p, OF assms(1)] assms(2,3)
  by (simp add: unreturned_def at_thread_def split: if_splits)

context bounded_container
begin

definition dq_quiet :: "nat \<Rightarrow> ('c, 'e) data_queue \<Rightarrow> bool" where
  "dq_quiet n s \<longleftrightarrow> (\<forall>t<n. thread s t = Ready []) \<or>
    items (container s) = [] \<and> (\<forall>t<n. thread s t = Ready [] \<or> waits_not_empty (thread s t)) \<or>
    length (items (container s)) = cap \<and> (\<forall>t<n. thread s t = Ready [] \<or> waits_not_full (thread s t))"

lemma dq_step_work:
  assumes "dq_step C False n s s'"
  shows "dq_work n s' < dq_work n s"
  using assms
proof cases
  case (moves_in t e cs w)
  note at = dq_work_at [OF moves_in(2)]
  show ?thesis
  proof (cases "op_full C (container s)")
    case True
    then show ?thesis using moves_in at [of "On_not_full (MoveIn e # cs)" s] by (simp add: dq_moveIn_def)
  next
    case False
    let ?m = "at_thread t (Ready cs) (s\<lparr>container := op_moveIn C e (container s), moved_in := moved_in s @ [e]\<rparr>)"
    have "dq_work n ?m + 2 = dq_work n s" using moves_in(3) at [of "Ready cs" s] by (simp add: at_thread_def dq_work_def)
    with dq_work_notify [OF moves_in(4), of ?m] show ?thesis using moves_in(1) False by (simp add: dq_moveIn_def)
  qed
next
  case (moves_out t cs w)
  note at = dq_work_at [OF moves_out(2)]
  show ?thesis
  proof (cases "op_empty C (container s)")
    case True
    then show ?thesis using moves_out at [of "On_not_empty (MoveOut # cs)" s] by (simp add: dq_moveOut_def)
  next
    case False
    then obtain x c where x: "op_moveOut C (container s) = Some (x, c)" using moveOut_items by blast
    let ?m = "at_thread t (Ready cs) (s\<lparr>container := c, moved_out := moved_out s @ [x]\<rparr>)"
    have "dq_work n ?m + 2 = dq_work n s" using moves_out(3) at [of "Ready cs" s] by (simp add: at_thread_def dq_work_def)
    with dq_work_notify [OF moves_out(4), of ?m] show ?thesis using moves_out(1) False x by (simp add: dq_moveOut_def)
  qed
qed simp

end

sublocale bounded_container \<subseteq> run: closing_machine "dq_step C False n" "dq_ok items cap good n" "\<lambda>s. True" "dq_quiet n" "dq_work n"
  for n
proof unfold_locales
  show "\<exists>s'. dq_step C False n s s'" if "dq_ok items cap good n s" "\<not> dq_quiet n s" for s
    using dq_stuck [OF that(1)] that(2) unfolding dq_quiet_def by blast
qed (auto intro: dq_ok_step dest: dq_step_work)

context bounded_container
begin

lemma unreturned_step:
  assumes "dq_step C spurious n s s'"
  shows "unreturned is_out n (\<lambda>t. calls (thread s' t)) + length (moved_out s') =
      unreturned is_out n (\<lambda>t. calls (thread s t)) + length (moved_out s)"
    and "unreturned (\<lambda>c. \<not> is_out c) n (\<lambda>t. calls (thread s' t)) + length (moved_in s') =
      unreturned (\<lambda>c. \<not> is_out c) n (\<lambda>t. calls (thread s t)) + length (moved_in s)"
    and "set (calls (thread s' t)) \<subseteq> set (calls (thread s t))"
proof -
  have frame: "moved_in (notify_one w s) = moved_in s" "moved_out (notify_one w s) = moved_out s"
    "moved_in (at_thread t p s) = moved_in s" "moved_out (at_thread t p s) = moved_out s" for w t p and s :: "('c, 'e) data_queue"
    by (simp_all add: state_simps split: option.splits)
  have wait: "calls (thread (at_thread t p s) u) = calls (thread s u)" if "calls p = calls (thread s t)" for t u p
    using that by (simp add: at_thread_def)
  have "(unreturned is_out n (\<lambda>t. calls (thread s' t)) + length (moved_out s') =
      unreturned is_out n (\<lambda>t. calls (thread s t)) + length (moved_out s)) \<and>
    (unreturned (\<lambda>c. \<not> is_out c) n (\<lambda>t. calls (thread s' t)) + length (moved_in s') =
      unreturned (\<lambda>c. \<not> is_out c) n (\<lambda>t. calls (thread s t)) + length (moved_in s)) \<and>
    set (calls (thread s' t)) \<subseteq> set (calls (thread s t))"
    using assms
  proof cases
    case (moves_in u e cs w)
    show ?thesis
    proof (cases "op_full C (container s)")
      case True
      then show ?thesis using moves_in wait [of "On_not_full (MoveIn e # cs)" u] by (simp add: dq_moveIn_def frame)
    next
      case False
      let ?m = "s\<lparr>container := op_moveIn C e (container s), moved_in := moved_in s @ [e]\<rparr>"
      note at = unreturned_at [where s = ?m and c = "MoveIn e" and cs = cs and p = "Ready cs" and t = u, OF moves_in(2)]
      have "unreturned is_out n (\<lambda>t. calls (thread s' t)) = unreturned is_out n (\<lambda>t. calls (thread s t))"
        "Suc (unreturned (\<lambda>c. \<not> is_out c) n (\<lambda>t. calls (thread s' t))) = unreturned (\<lambda>c. \<not> is_out c) n (\<lambda>t. calls (thread s t))"
        using at [of is_out] at [of "\<lambda>c. \<not> is_out c"] moves_in False by (simp_all add: dq_moveIn_def)
      then show ?thesis using moves_in False by (auto simp: dq_moveIn_def frame at_thread_def)
    qed
  next
    case (moves_out u cs w)
    show ?thesis
    proof (cases "op_empty C (container s)")
      case True
      then show ?thesis using moves_out wait [of "On_not_empty (MoveOut # cs)" u] by (simp add: dq_moveOut_def frame)
    next
      case False
      then obtain x c where x: "op_moveOut C (container s) = Some (x, c)" using moveOut_items by blast
      let ?m = "s\<lparr>container := c, moved_out := moved_out s @ [x]\<rparr>"
      note at = unreturned_at [where s = ?m and c = MoveOut and cs = cs and p = "Ready cs" and t = u, OF moves_out(2)]
      have "Suc (unreturned is_out n (\<lambda>t. calls (thread s' t))) = unreturned is_out n (\<lambda>t. calls (thread s t))"
        "unreturned (\<lambda>c. \<not> is_out c) n (\<lambda>t. calls (thread s' t)) = unreturned (\<lambda>c. \<not> is_out c) n (\<lambda>t. calls (thread s t))"
        using at [of is_out] at [of "\<lambda>c. \<not> is_out c"] moves_out False x by (simp_all add: dq_moveOut_def)
      then show ?thesis using moves_out False x by (auto simp: dq_moveOut_def frame at_thread_def)
    qed
  qed (simp add: frame)
  then show "unreturned is_out n (\<lambda>t. calls (thread s' t)) + length (moved_out s') =
      unreturned is_out n (\<lambda>t. calls (thread s t)) + length (moved_out s)"
    "unreturned (\<lambda>c. \<not> is_out c) n (\<lambda>t. calls (thread s' t)) + length (moved_in s') =
      unreturned (\<lambda>c. \<not> is_out c) n (\<lambda>t. calls (thread s t)) + length (moved_in s)"
    "set (calls (thread s' t)) \<subseteq> set (calls (thread s t))" by blast+
qed

lemma reachable:
  assumes "(dq_step C spurious n)\<^sup>*\<^sup>* (dq_start new programs) s"
    and "\<forall>t<n. \<forall>e. MoveIn e \<in> set (programs t) \<longrightarrow> good e"
  shows "dq_ok items cap good n s"
    and "unreturned is_out n (\<lambda>t. calls (thread s t)) + length (moved_out s) = unreturned is_out n programs"
    and "unreturned (\<lambda>c. \<not> is_out c) n (\<lambda>t. calls (thread s t)) + length (moved_in s) =
      unreturned (\<lambda>c. \<not> is_out c) n programs"
    and "set (calls (thread s t)) \<subseteq> set (programs t)"
  using assms(1)
proof (induction rule: rtranclp_induct)
  case base
  { case 1 show ?case using assms(2) by (intro dq_ok_start) blast }
  { case 2 show ?case by (simp add: dq_start_def) }
  { case 3 show ?case by (simp add: dq_start_def) }
  { case 4 show ?case by (simp add: dq_start_def) }
next
  case (step s s')
  { case 1 show ?case by (rule dq_ok_step [OF step(3,2)]) }
  { case 2 show ?case using unreturned_step(1) [OF step(2)] step(4) by simp }
  { case 3 show ?case using unreturned_step(2) [OF step(2)] step(5) by simp }
  { case 4 show ?case using unreturned_step(3) [OF step(2)] step(6) by blast }
qed

text \<open>
  Threads that only move in or only move out, as many times in all: once none of them can go on, they
  have all returned and the container is empty.
\<close>

lemma balanced_quiet:
  assumes "(dq_step C spurious n)\<^sup>*\<^sup>* (dq_start new programs) s" "dq_quiet n s"
    and "\<forall>t<n. \<forall>e. MoveIn e \<in> set (programs t) \<longrightarrow> good e"
    and one_end: "\<forall>t<n. set (programs t) \<subseteq> {MoveOut} \<or> MoveOut \<notin> set (programs t)"
    and balanced: "unreturned is_out n programs = unreturned (\<lambda>c. \<not> is_out c) n programs"
  shows "(\<forall>t<n. thread s t = Ready []) \<and> items (container s) = [] \<and> moved_out s = moved_in s"
proof -
  note r = reachable [OF assms(1,3)]
  have len: "length (moved_in s) = length (moved_out s) + length (items (container s))" using r(1) by (simp add: dq_slack_def)
  have ok: "caller_ok good (thread s t)" if "t < n" for t using r(1) that by (simp add: dq_slack_def)
  have outs: "\<forall>c \<in> set (calls (thread s t)). is_out c" if "t < n" "waits_not_empty (thread s t)" for t
    using one_end r(4) [of t] that ok [OF that(1)] by (fastforce simp: is_out_def elim!: waits_not_empty_ok)
  have ins: "\<forall>c \<in> set (calls (thread s t)). \<not> is_out c" if "t < n" "waits_not_full (thread s t)" for t
    using one_end r(4) [of t] that ok [OF that(1)] by (fastforce simp: is_out_def elim!: waits_not_full_ok)
  have no_ins: "unreturned (\<lambda>c. \<not> is_out c) n (\<lambda>t. calls (thread s t)) = 0"
    if "\<forall>t<n. thread s t = Ready [] \<or> waits_not_empty (thread s t)"
    using that outs by (auto simp: unreturned_def filter_empty_conv)
  have no_outs: "unreturned is_out n (\<lambda>t. calls (thread s t)) = 0"
    if "\<forall>t<n. thread s t = Ready [] \<or> waits_not_full (thread s t)"
    using that ins by (auto simp: unreturned_def filter_empty_conv)
  have items: "items (container s) = []"
  proof (rule ccontr)
    assume "items (container s) \<noteq> []"
    then have "\<forall>t<n. thread s t = Ready [] \<or> waits_not_full (thread s t)" using assms(2) by (auto simp: dq_quiet_def)
    from no_outs [OF this] r(2,3) balanced len \<open>items (container s) \<noteq> []\<close> show False by simp
  qed
  then have quiet: "\<forall>t<n. thread s t = Ready [] \<or> waits_not_empty (thread s t)"
    using assms(2) cap_pos by (auto simp: dq_quiet_def)
  with no_ins r(2,3) balanced len items have "unreturned is_out n (\<lambda>t. calls (thread s t)) = 0" by simp
  then have none: "filter is_out (calls (thread s t)) = []" if "t < n" for t
    using that by (auto simp: unreturned_def)
  have "thread s t = Ready []" if "t < n" for t
    using quiet none [OF that] that ok [OF that] by (fastforce simp: is_out_def elim!: waits_not_empty_ok)
  then show ?thesis using items r(1) by (simp add: dq_slack_def)
qed

end

subsection \<open>Properties\<close>

lemma dq_spurious_mono: "dq_step C False n s s' \<Longrightarrow> dq_step C True n s s'"
  by (induction rule: dq_step.induct) (auto intro: dq_step.intros)

lemma dq_steps_spurious: "(dq_step C False n ^^ k) s s' \<Longrightarrow> (dq_step C True n)\<^sup>*\<^sup>* s s'"
  using relpowp_imp_rtranclp [of k "dq_step C False n" s s']
  by (rule rtranclp_mono [THEN predicate2D, rotated]) (auto intro: dq_spurious_mono)

context bounded_container
begin

lemma hand_over:
  assumes "(dq_step C True n)\<^sup>*\<^sup>* (dq_start new programs) s"
    and good: "\<forall>t<n. \<forall>e. MoveIn e \<in> set (programs t) \<longrightarrow> good e"
  shows "moved_in s = moved_out s @ items (container s)" "length (items (container s)) \<le> cap"
    and "(dq_step C False n ^^ k) s s' \<Longrightarrow> k \<le> dq_work n s"
    and "(dq_step C False n ^^ k) s s' \<Longrightarrow> (\<And>u. \<not> dq_step C False n s' u) \<Longrightarrow>
      \<forall>t<n. set (programs t) \<subseteq> {MoveOut} \<or> MoveOut \<notin> set (programs t) \<Longrightarrow>
      unreturned is_out n programs = unreturned (\<lambda>c. \<not> is_out c) n programs \<Longrightarrow>
      (\<forall>t<n. thread s' t = Ready []) \<and> moved_out s' = moved_in s'"
proof -
  have ok: "dq_ok items cap good n s" by (rule reachable(1) [OF assms])
  then show "moved_in s = moved_out s @ items (container s)" "length (items (container s)) \<le> cap" by (auto simp: dq_slack_def)
  show "k \<le> dq_work n s" if "(dq_step C False n ^^ k) s s'" using run.closing_bound [OF that ok] by simp
  show "(\<forall>t<n. thread s' t = Ready []) \<and> moved_out s' = moved_in s'"
    if "(dq_step C False n ^^ k) s s'" "\<And>u. \<not> dq_step C False n s' u"
      "\<forall>t<n. set (programs t) \<subseteq> {MoveOut} \<or> MoveOut \<notin> set (programs t)"
      "unreturned is_out n programs = unreturned (\<lambda>c. \<not> is_out c) n programs"
  proof -
    have "dq_quiet n s'" using run.stuck_closed [OF that(1) ok _ that(2)] by simp
    with balanced_quiet [OF rtranclp_trans [OF assms(1) dq_steps_spurious [OF that(1)]] _ good that(3,4)] show ?thesis
      by blast
  qed
qed

end

text \<open>
  Property C32: threads hand elements to each other through the queue in the order they were moved
  in, at most \<open>MAX_QUEUE_SIZE + 1\<close> of them under way; no notification is lost: every execution without
  spurious wake-ups is over within a bound, and if each thread only moves in or only moves out and the
  calls of both kinds are equally many, then all of them have returned and every element has
  arrived.
\<close>

theorem queue_hand_over:
  assumes "(dq_step QueueElementData True n)\<^sup>*\<^sup>* (dq_start [] programs) s"
  shows "moved_in s = moved_out s @ container s \<and> length (container s) \<le> Suc MAX_QUEUE_SIZE \<and>
    (\<forall>k s'. (dq_step QueueElementData False n ^^ k) s s' \<longrightarrow> k \<le> dq_work n s \<and>
      ((\<forall>u. \<not> dq_step QueueElementData False n s' u) \<longrightarrow>
       (\<forall>t<n. set (programs t) \<subseteq> {MoveOut} \<or> MoveOut \<notin> set (programs t)) \<longrightarrow>
       unreturned is_out n programs = unreturned (\<lambda>c. \<not> is_out c) n programs \<longrightarrow>
       (\<forall>t<n. thread s' t = Ready []) \<and> moved_out s' = moved_in s'))"
  using many.hand_over [OF assms] by blast

text \<open>
  The container for one element hands it over in the same way, one at a time, if no thread
  moves a null pointer in.
\<close>

theorem single_hand_over:
  assumes "(dq_step SingleElementData True n)\<^sup>*\<^sup>* (dq_start None programs) s"
    and "\<forall>t<n. MoveIn None \<notin> set (programs t)"
  shows "moved_in s = moved_out s @ (if container s = None then [] else [container s]) \<and>
    (\<forall>k s'. (dq_step SingleElementData False n ^^ k) s s' \<longrightarrow> k \<le> dq_work n s \<and>
      ((\<forall>u. \<not> dq_step SingleElementData False n s' u) \<longrightarrow>
       (\<forall>t<n. set (programs t) \<subseteq> {MoveOut} \<or> MoveOut \<notin> set (programs t)) \<longrightarrow>
       unreturned is_out n programs = unreturned (\<lambda>c. \<not> is_out c) n programs \<longrightarrow>
       (\<forall>t<n. thread s' t = Ready []) \<and> moved_out s' = moved_in s'))"
proof -
  have "\<forall>t<n. \<forall>e. MoveIn e \<in> set (programs t) \<longrightarrow> e \<noteq> None" using assms(2) by metis
  note over = single.hand_over [OF assms(1) this]
  show ?thesis using over(1,3,4) by (auto split: option.splits)
qed

text \<open>The test program: one thread moves in, the other one moves out.\<close>

definition two_programs :: "'a list \<Rightarrow> nat \<Rightarrow> 'a option call list" where
  "two_programs xs t = (if t = 0 then map (\<lambda>x. MoveOut) xs else map (\<lambda>x. MoveIn (Some x)) xs)"

lemma two_programs_ok:
  "\<forall>t<2. set (two_programs xs t) \<subseteq> {MoveOut} \<or> MoveOut \<notin> set (two_programs xs t)"
  "unreturned is_out 2 (two_programs xs) = unreturned (\<lambda>c. \<not> is_out c) 2 (two_programs xs)"
  "\<forall>t<n. MoveIn None \<notin> set (two_programs xs t)"
  by (auto simp: two_programs_def unreturned_def numeral_2_eq_2 o_def)

theorem queue_hand_over_witness:
  "\<exists>s. (dq_step QueueElementData True 2)\<^sup>*\<^sup>* (dq_start [] (two_programs [5 :: nat, 6])) s \<and>
    thread s 0 = Ready [] \<and> thread s 1 = Ready [] \<and> moved_out s = moved_in s"
proof -
  let ?start = "dq_start [] (two_programs [5 :: nat, 6])"
  have "dq_ok (\<lambda>c. c) (Suc MAX_QUEUE_SIZE) (\<lambda>e. True) 2 ?start" by (rule many.dq_ok_start) simp
  from many.run.closing_stops [OF this] obtain s where
    s: "(dq_step QueueElementData False 2)\<^sup>*\<^sup>* ?start s" "\<forall>u. \<not> dq_step QueueElementData False 2 s u" by blast
  then obtain k where "(dq_step QueueElementData False 2 ^^ k) ?start s" by (auto simp: rtranclp_power)
  with queue_hand_over [where n = 2 and programs = "two_programs [5 :: nat, 6]", OF rtranclp.rtrancl_refl] s(2) two_programs_ok(1,2)
  have "(\<forall>t<2. thread s t = Ready []) \<and> moved_out s = moved_in s" by blast
  then show ?thesis using dq_steps_spurious [OF \<open>(dq_step QueueElementData False 2 ^^ k) ?start s\<close>] by auto
qed

theorem single_hand_over_witness:
  "\<exists>s. (dq_step SingleElementData True 2)\<^sup>*\<^sup>* (dq_start None (two_programs [5 :: nat, 6])) s \<and>
    thread s 0 = Ready [] \<and> thread s 1 = Ready [] \<and> moved_out s = moved_in s"
proof -
  let ?start = "dq_start None (two_programs [5 :: nat, 6])"
  have "dq_ok (\<lambda>c. case c of None \<Rightarrow> [] | Some x \<Rightarrow> [c]) 1 (\<lambda>e. e \<noteq> None) 2 ?start"
    by (rule single.dq_ok_start) (use two_programs_ok(3) in metis)
  from single.run.closing_stops [OF this] obtain s where
    s: "(dq_step SingleElementData False 2)\<^sup>*\<^sup>* ?start s" "\<forall>u. \<not> dq_step SingleElementData False 2 s u" by blast
  then obtain k where "(dq_step SingleElementData False 2 ^^ k) ?start s" by (auto simp: rtranclp_power)
  with single_hand_over [where n = 2 and programs = "two_programs [5 :: nat, 6]", OF rtranclp.rtrancl_refl two_programs_ok(3)] s(2) two_programs_ok(1,2)
  have "(\<forall>t<2. thread s t = Ready []) \<and> moved_out s = moved_in s" by blast
  then show ?thesis using dq_steps_spurious [OF \<open>(dq_step SingleElementData False 2 ^^ k) ?start s\<close>] by auto
qed

text \<open>The queue accepts one element more than the constant says, and a single null pointer is lost.\<close>


text \<open>
  The queue takes an element when it has \<open>MAX_QUEUE_SIZE\<close> already. A null pointer moved into the
  container for one element is lost, and the thread that waits for it is never woken.
\<close>

lemma queue_takes_one_more:
  assumes "length (container s) = MAX_QUEUE_SIZE"
  shows "length (container (dq_moveIn QueueElementData t e cs w s)) = Suc MAX_QUEUE_SIZE"
  using assms by (auto simp: state_simps QueueElementData_def queue_full_def queue_moveIn_def split: option.splits)

lemma single_null_lost:
  fixes programs :: "nat \<Rightarrow> 'a option call list"
  assumes "programs = (\<lambda>t. if t = 0 then [MoveOut] else [MoveIn None])"
  shows "\<exists>s. (dq_step SingleElementData False 2)\<^sup>*\<^sup>* (dq_start None programs) s \<and>
    (\<forall>u. \<not> dq_step SingleElementData False 2 s u) \<and> moved_in s = [None] \<and> waits_not_empty (thread s 0)"
proof -
  let ?s0 = "dq_start None programs :: ('a option, 'a option) data_queue"
  let ?s1 = "dq_moveIn SingleElementData 1 None [] None ?s0"
  let ?s2 = "dq_moveOut SingleElementData 0 [] None ?s1"
  note defs = assms dq_start_def state_simps SingleElementData_def single_full_def single_moveIn_def single_empty_def
  have "dq_step SingleElementData False 2 ?s0 ?s1"
    by (rule dq_step.moves_in) (auto simp: defs may_notify_def list_all_iff)
  moreover have "dq_step SingleElementData False 2 ?s1 ?s2"
    by (rule dq_step.moves_out) (auto simp: defs may_notify_def list_all_iff)
  ultimately have "(dq_step SingleElementData False 2)\<^sup>*\<^sup>* ?s0 ?s2" by (meson r_into_rtranclp rtranclp.rtrancl_into_rtrancl)
  moreover have "\<not> dq_step SingleElementData False 2 ?s2 u" for u
    by (auto simp: defs less_2_cases_iff elim!: dq_step.cases split: if_splits)
  moreover have "moved_in ?s2 = [None] \<and> waits_not_empty (thread ?s2 0)" by (simp add: defs)
  ultimately show ?thesis by blast
qed

end
