(* ===== verification/Wait_Locks.thy ===== *)
theory Wait_Locks
  imports Task_Pool
begin

text \<open>
  Three locks whose threads sleep until an atomic variable changes (\<open>std::atomic::wait\<close>): the ticket
  locks \<open>multiThread/wait_ticket_mutex.cpp\<close>, which wakes all threads when it is unlocked, and
  \<open>multiThread/slinlock_fair.cpp\<close>, which wakes one; and the flag of \<open>multiThread/slinlock2.cpp\<close>. Each access to
  a variable is a step. A call of \<open>wait\<close> with an old value blocks only while the variable has that
  value; a thread that is woken compares again. Each of \<open>n\<close> threads locks and unlocks as often as
  \<open>rounds\<close> says. Tickets are of type \<open>int\<close>, which wraps around in atomic operations.
\<close>

subsection \<open>What a lock promises\<close>

locale sleeping_lock = closing_machine step inv closing closed work
  for step :: "'s \<Rightarrow> 's \<Rightarrow> bool" and inv :: "'s \<Rightarrow> bool" and closing :: "'s \<Rightarrow> bool"
    and closed :: "'s \<Rightarrow> bool" and work :: "'s \<Rightarrow> nat" +
  fixes inside :: "'s \<Rightarrow> nat \<Rightarrow> bool"
  assumes one_inside: "inv s \<Longrightarrow> inside s t \<Longrightarrow> inside s u \<Longrightarrow> t = u"
    and always_closing: "closing s"
begin

lemma lock_runs:
  assumes "inv s" "(step ^^ k) s s'"
  shows "k \<le> work s" "(\<And>u. \<not> step s' u) \<Longrightarrow> closed s'" "inside s' t \<Longrightarrow> inside s' u \<Longrightarrow> t = u"
  using closing_bound [OF assms(2,1) always_closing] stuck_closed [OF assms(2,1) always_closing]
    closing_runs [OF assms(2,1) always_closing] one_inside by blast+

end

subsection \<open>Ticket locks\<close>

datatype wait_pc =
  Idle
| Loads u32
| Waits u32 u32
| Blocked u32 u32
| Inside
| Notifies

text \<open>\<open>queue\<close> has the threads that drew a ticket and have not unlocked, in the order they drew.\<close>

record wait_mutex =
  in_next :: u32
  out_now :: u32
  pc :: "nat \<Rightarrow> wait_pc"
  rounds :: "nat \<Rightarrow> nat"
  queue :: "nat list"
  drawn :: "nat list"
  left :: "nat list"

definition wait_mutex_start :: "(nat \<Rightarrow> nat) \<Rightarrow> wait_mutex" where
  "wait_mutex_start r = \<lparr>in_next = 0, out_now = 0, pc = \<lambda>t. Idle, rounds = r, queue = [], drawn = [], left = []\<rparr>"

definition go :: "nat \<Rightarrow> wait_pc \<Rightarrow> wait_mutex \<Rightarrow> wait_mutex" where
  "go t p s = s\<lparr>pc := (pc s)(t := p)\<rparr>"

text \<open>\<open>lock\<close>: draw a ticket; compare it with the one being served; wait for a change.\<close>

definition wl_draw :: "nat \<Rightarrow> wait_mutex \<Rightarrow> wait_mutex" where
  "wl_draw t s = go t (Loads (in_next s))
     (s\<lparr>in_next := in_next s + 1, rounds := (rounds s)(t := rounds s t - 1), queue := queue s @ [t], drawn := drawn s @ [t]\<rparr>)"

definition wl_load :: "nat \<Rightarrow> u32 \<Rightarrow> wait_mutex \<Rightarrow> wait_mutex" where
  "wl_load t my s = go t (if out_now s = my then Inside else Waits my (out_now s)) s"

definition wl_wait :: "nat \<Rightarrow> u32 \<Rightarrow> u32 \<Rightarrow> wait_mutex \<Rightarrow> wait_mutex" where
  "wl_wait t my now s = go t (if out_now s = now then Blocked my now else Loads my) s"

text \<open>\<open>unlock\<close>: serve the next ticket; notify.\<close>

definition wl_serve :: "nat \<Rightarrow> wait_mutex \<Rightarrow> wait_mutex" where
  "wl_serve t s = go t Notifies (s\<lparr>out_now := out_now s + 1, queue := tl (queue s), left := left s @ [t]\<rparr>)"

fun unblock :: "wait_pc \<Rightarrow> wait_pc" where
  "unblock (Blocked my now) = Waits my now"
| "unblock p = p"

fun is_blocked :: "wait_pc \<Rightarrow> bool" where
  "is_blocked (Blocked my now) = True"
| "is_blocked p = False"

definition wl_notify_all :: "nat \<Rightarrow> wait_mutex \<Rightarrow> wait_mutex" where
  "wl_notify_all t s = go t Idle (s\<lparr>pc := \<lambda>u. unblock (pc s u)\<rparr>)"

definition wl_notify_one :: "nat \<Rightarrow> nat option \<Rightarrow> wait_mutex \<Rightarrow> wait_mutex" where
  "wl_notify_one t w s = go t Idle (case w of None \<Rightarrow> s | Some u \<Rightarrow> go u (unblock (pc s u)) s)"

datatype notification = All | One

inductive wl_step :: "notification \<Rightarrow> bool \<Rightarrow> nat \<Rightarrow> wait_mutex \<Rightarrow> wait_mutex \<Rightarrow> bool"
  for v :: notification and spurious :: bool and n :: nat
where
  draws: "t < n \<Longrightarrow> pc s t = Idle \<Longrightarrow> 0 < rounds s t \<Longrightarrow> wl_step v spurious n s (wl_draw t s)"
| loads: "t < n \<Longrightarrow> pc s t = Loads my \<Longrightarrow> wl_step v spurious n s (wl_load t my s)"
| waits: "t < n \<Longrightarrow> pc s t = Waits my now \<Longrightarrow> wl_step v spurious n s (wl_wait t my now s)"
| serves: "t < n \<Longrightarrow> pc s t = Inside \<Longrightarrow> wl_step v spurious n s (wl_serve t s)"
| notifies_all: "t < n \<Longrightarrow> pc s t = Notifies \<Longrightarrow> v = All \<Longrightarrow> wl_step v spurious n s (wl_notify_all t s)"
| notifies_one: "t < n \<Longrightarrow> pc s t = Notifies \<Longrightarrow> v = One \<Longrightarrow> u < n \<Longrightarrow> is_blocked (pc s u) \<Longrightarrow>
    wl_step v spurious n s (wl_notify_one t (Some u) s)"
| notifies_none: "t < n \<Longrightarrow> pc s t = Notifies \<Longrightarrow> v = One \<Longrightarrow> (\<And>u. u < n \<Longrightarrow> \<not> is_blocked (pc s u)) \<Longrightarrow>
    wl_step v spurious n s (wl_notify_one t None s)"
| unblocks_spuriously: "t < n \<Longrightarrow> is_blocked (pc s t) \<Longrightarrow> spurious \<Longrightarrow> wl_step v spurious n s (go t (unblock (pc s t)) s)"

lemmas [state_simps] = wl_draw_def wl_load_def wl_wait_def wl_serve_def wl_notify_all_def wl_notify_one_def go_def

subsection \<open>The invariant of the ticket locks\<close>

fun ticket_of :: "wait_pc \<Rightarrow> u32 option" where
  "ticket_of (Loads my) = Some my"
| "ticket_of (Waits my now) = Some my"
| "ticket_of (Blocked my now) = Some my"
| "ticket_of p = None"

fun holds_ticket :: "wait_pc \<Rightarrow> bool" where
  "holds_ticket Idle = False"
| "holds_ticket Notifies = False"
| "holds_ticket p = True"

text \<open>
  Tickets are given out in the order of the queue. Only its first thread can be inside. A thread
  sleeps on an old value only if a notification of the change is under way.
\<close>

definition wl_queue :: "nat \<Rightarrow> wait_mutex \<Rightarrow> bool" where
  "wl_queue n s \<longleftrightarrow> distinct (queue s) \<and> (\<forall>t. t \<in> set (queue s) \<longleftrightarrow> t < n \<and> holds_ticket (pc s t)) \<and>
     drawn s = left s @ queue s \<and> in_next s = out_now s + word_of_nat (length (queue s))"

definition wl_tickets :: "wait_mutex \<Rightarrow> bool" where
  "wl_tickets s \<longleftrightarrow> (\<forall>i < length (queue s).
     (pc s (queue s ! i) = Inside \<longrightarrow> i = 0) \<and>
     (\<forall>my. ticket_of (pc s (queue s ! i)) = Some my \<longrightarrow> my = out_now s + word_of_nat i))"

fun compares_ok :: "wait_pc \<Rightarrow> bool" where
  "compares_ok (Waits my now) = (now \<noteq> my)"
| "compares_ok (Blocked my now) = (now \<noteq> my)"
| "compares_ok p = True"

fun sleeps_on :: "u32 \<Rightarrow> wait_pc \<Rightarrow> bool" where
  "sleeps_on out (Blocked my now) = (now = out)"
| "sleeps_on out p = True"

definition wl_awake :: "nat \<Rightarrow> wait_mutex \<Rightarrow> bool" where
  "wl_awake n s \<longleftrightarrow> (\<forall>t<n. compares_ok (pc s t)) \<and>
     ((\<exists>t<n. pc s t = Notifies) \<or> (\<forall>t<n. sleeps_on (out_now s) (pc s t)))"

lemma wl_queue_length: "wl_queue n s \<Longrightarrow> length (queue s) \<le> n"
  using card_mono [of "{..<n}" "set (queue s)"] by (auto simp: wl_queue_def distinct_card)

lemma same_tickets:
  assumes "wl_queue n s" "wl_tickets s"
    and "\<And>u. holds_ticket (f u) = holds_ticket (pc s u) \<and> ticket_of (f u) = ticket_of (pc s u) \<and> (f u = Inside \<longrightarrow> pc s u = Inside)"
  shows "wl_queue n (s\<lparr>pc := f\<rparr>) \<and> wl_tickets (s\<lparr>pc := f\<rparr>)"
  using assms by (simp add: wl_queue_def wl_tickets_def)

lemma unblock_tickets: "holds_ticket (unblock p) = holds_ticket p \<and> ticket_of (unblock p) = ticket_of p \<and> (unblock p = Inside \<longrightarrow> p = Inside)"
  by (cases p) auto

lemma go_tickets:
  assumes "wl_queue n s" "wl_tickets s" "holds_ticket p = holds_ticket (pc s t)" "ticket_of p = ticket_of (pc s t)" "p \<noteq> Inside"
  shows "wl_queue n (go t p s) \<and> wl_tickets (go t p s)"
  unfolding go_def by (rule same_tickets [OF assms(1,2)]) (use assms in auto)

lemma inside_first:
  assumes "wl_queue n s" "wl_tickets s" "t < n" "pc s t = Inside"
  obtains q where "queue s = t # q"
proof -
  have "t \<in> set (queue s)" using assms by (simp add: wl_queue_def)
  then obtain i where i: "i < length (queue s)" "queue s ! i = t" by (auto simp: in_set_conv_nth)
  with assms(2,4) have "i = 0" by (auto simp: wl_tickets_def)
  with i that show ?thesis by (cases "queue s") auto
qed

lemma draw_tickets:
  assumes "wl_queue n s" "wl_tickets s" "t < n" "pc s t = Idle"
  shows "wl_queue n (wl_draw t s) \<and> wl_tickets (wl_draw t s)"
proof -
  have "t \<notin> set (queue s)" using assms(1,3,4) by (simp add: wl_queue_def)
  then show ?thesis using assms
    by (auto simp: wl_queue_def wl_tickets_def state_simps nth_append in_set_conv_nth less_Suc_eq split: if_splits)
qed

lemma load_tickets:
  assumes ok: "wl_queue n s" "wl_tickets s" and t: "t < n" "pc s t = Loads my" and n: "n < 2 ^ 32"
  shows "wl_queue n (wl_load t my s) \<and> wl_tickets (wl_load t my s)"
proof (cases "out_now s = my")
  case True
  have "t \<in> set (queue s)" using ok(1) t by (simp add: wl_queue_def)
  then obtain i where i: "i < length (queue s)" "queue s ! i = t" by (auto simp: in_set_conv_nth)
  then have "my = out_now s + word_of_nat i" using ok(2) t(2) by (auto simp: wl_tickets_def)
  with True have "(word_of_nat i :: u32) = 0" by simp
  moreover have "i < 2 ^ 32" using i(1) wl_queue_length [OF ok(1)] n by linarith
  ultimately have "i = 0" using unat_of_nat_small [where 'w = 32, of i] by simp
  then have first: "j = 0" if "queue s ! j = t" "j < length (queue s)" for j
    using nth_eq_iff_index_eq [of "queue s" j i] ok(1) i that by (simp add: wl_queue_def)
  have "wl_queue n (go t Inside s)" using ok(1) t by (simp add: wl_queue_def go_def)
  moreover have "wl_tickets (go t Inside s)" using ok(2) first by (simp add: wl_tickets_def go_def)
  ultimately show ?thesis using True by (simp add: wl_load_def)
next
  case False
  then show ?thesis using go_tickets [OF ok, of "Waits my (out_now s)" t] t(2) by (simp add: wl_load_def)
qed

lemma serve_tickets:
  assumes ok: "wl_queue n s" "wl_tickets s" and t: "t < n" "pc s t = Inside"
  shows "wl_queue n (wl_serve t s) \<and> wl_tickets (wl_serve t s)"
proof -
  obtain q where q: "queue s = t # q" by (rule inside_first [OF ok t])
  then have "t \<notin> set q" "distinct q" using ok(1) by (auto simp: wl_queue_def)
  moreover have "(pc s (q ! i) = Inside \<longrightarrow> False) \<and>
      (\<forall>my. ticket_of (pc s (q ! i)) = Some my \<longrightarrow> my = out_now s + 1 + word_of_nat i)" if "i < length q" for i
    using ok(2) that q unfolding wl_tickets_def by (fastforce dest: spec [of _ "Suc i"])
  moreover have "q ! i \<noteq> t" if "i < length q" for i using that \<open>t \<notin> set q\<close> nth_mem by blast
  ultimately have "wl_tickets (wl_serve t s)" using q by (simp add: wl_tickets_def state_simps)
  moreover have "wl_queue n (wl_serve t s)"
    using ok(1) q t \<open>t \<notin> set q\<close> \<open>distinct q\<close> by (auto simp: wl_queue_def state_simps)
  ultimately show ?thesis by blast
qed

definition wl_ok :: "notification \<Rightarrow> nat \<Rightarrow> wait_mutex \<Rightarrow> bool" where
  "wl_ok v n s \<longleftrightarrow> wl_queue n s \<and> wl_tickets s \<and> (v = All \<longrightarrow> wl_awake n s)"

lemma wl_ok_start: "wl_ok v n (wait_mutex_start r)"
  by (simp add: wl_ok_def wl_queue_def wl_tickets_def wl_awake_def wait_mutex_start_def)

lemma wl_tickets_step:
  assumes "wl_step v spurious n s s'" "wl_queue n s" "wl_tickets s" "n < 2 ^ 32"
  shows "wl_queue n s' \<and> wl_tickets s'"
  using assms(1)
proof cases
  case (notifies_all t)
  have "wl_queue n (s\<lparr>pc := \<lambda>u. unblock (pc s u)\<rparr>) \<and> wl_tickets (s\<lparr>pc := \<lambda>u. unblock (pc s u)\<rparr>)"
    by (rule same_tickets [OF assms(2,3)]) (rule unblock_tickets)
  then show ?thesis using notifies_all go_tickets [of n "s\<lparr>pc := \<lambda>u. unblock (pc s u)\<rparr>" Idle t]
    by (simp add: wl_notify_all_def)
next
  case (notifies_one t u)
  have "wl_queue n (go u (unblock (pc s u)) s) \<and> wl_tickets (go u (unblock (pc s u)) s)"
    using go_tickets [OF assms(2,3), of "unblock (pc s u)" u] unblock_tickets [of "pc s u"] notifies_one(6)
    by (cases "pc s u") auto
  then show ?thesis using notifies_one go_tickets [of n "go u (unblock (pc s u)) s" Idle t]
    by (cases "u = t") (simp_all add: wl_notify_one_def go_def)
next
  case (notifies_none t)
  then show ?thesis using go_tickets [OF assms(2,3), of Idle t] by (simp add: wl_notify_one_def)
next
  case (unblocks_spuriously t)
  then show ?thesis using go_tickets [OF assms(2,3), of "unblock (pc s t)" t] by (cases "pc s t") auto
next
  case (waits t my now)
  then show ?thesis using go_tickets [OF assms(2,3), of "Blocked my now" t] go_tickets [OF assms(2,3), of "Loads my" t]
    by (simp add: wl_wait_def)
qed (use assms draw_tickets load_tickets serve_tickets in blast)+

lemma wl_awake_go:
  assumes "wl_awake n s" "compares_ok p" "pc s t \<noteq> Notifies" "sleeps_on (out_now s) p"
  shows "wl_awake n (go t p s)"
  using assms unfolding wl_awake_def go_def by (simp add: fun_upd_def) metis

lemma unblock_ok: "compares_ok p \<Longrightarrow> compares_ok (unblock p)" "sleeps_on out (unblock p)" "unblock p = Notifies \<longleftrightarrow> p = Notifies"
  by (cases p; simp)+

lemma wl_awake_step:
  assumes step: "wl_step All spurious n s s'" and ok: "wl_awake n s"
  shows "wl_awake n s'"
  using step
proof cases
  case (draws t)
  have "wl_awake n (s\<lparr>in_next := in_next s + 1, rounds := (rounds s)(t := rounds s t - 1), queue := queue s @ [t], drawn := drawn s @ [t]\<rparr>)"
    using ok by (simp add: wl_awake_def)
  from wl_awake_go [OF this, of "Loads (in_next s)" t] draws show ?thesis by (simp add: wl_draw_def)
next
  case (loads t my)
  then show ?thesis using wl_awake_go [OF ok, of "if out_now s = my then Inside else Waits my (out_now s)" t] by (simp add: wl_load_def)
next
  case (waits t my now)
  then have "compares_ok (Waits my now)" using ok unfolding wl_awake_def by metis
  then show ?thesis using waits wl_awake_go [OF ok, of "if out_now s = now then Blocked my now else Loads my" t]
    by (simp add: wl_wait_def)
next
  case (serves t)
  then show ?thesis using ok unfolding wl_awake_def by (auto simp: state_simps)
next
  case (notifies_all t)
  then show ?thesis using ok unblock_ok unfolding wl_awake_def by (auto simp: state_simps)
next
  case (unblocks_spuriously t)
  then have "compares_ok (pc s t)" "pc s t \<noteq> Notifies" using ok by (auto simp: wl_awake_def)
  with unblocks_spuriously show ?thesis using wl_awake_go [OF ok, of "unblock (pc s t)" t] unblock_ok by simp
qed simp_all

lemma wl_ok_step: "n < 2 ^ 32 \<Longrightarrow> wl_ok v n s \<Longrightarrow> wl_step v spurious n s s' \<Longrightarrow> wl_ok v n s'"
  using wl_tickets_step [of v spurious n s s'] wl_awake_step [of spurious n s s'] by (cases v) (auto simp: wl_ok_def)

subsection \<open>The lock that wakes all threads is always given on\<close>

definition wl_through :: "nat \<Rightarrow> wait_mutex \<Rightarrow> bool" where
  "wl_through n s \<longleftrightarrow> (\<forall>t<n. pc s t = Idle \<and> rounds s t = 0)"

lemma wl_stuck:
  assumes ok: "wl_ok All n s" and stuck: "\<And>s'. \<not> wl_step All False n s s'"
  shows "wl_through n s"
proof -
  have asleep: "pc s t = Idle \<and> rounds s t = 0 \<or> is_blocked (pc s t)" if t: "t < n" for t
    using stuck wl_step.draws [OF t] wl_step.loads [OF t] wl_step.waits [OF t] wl_step.serves [OF t]
      wl_step.notifies_all [OF t]
    by (cases "pc s t") (simp_all, blast+)
  have "queue s = []"
  proof (cases "queue s")
    case (Cons t q)
    then have "t < n" "holds_ticket (pc s t)" using ok by (auto simp: wl_ok_def wl_queue_def)
    then obtain my now where t: "pc s t = Blocked my now" using asleep by (cases "pc s t") fastforce+
    moreover have "my = out_now s"
      using ok Cons t by (auto simp: wl_ok_def wl_tickets_def dest: spec [of _ 0])
    moreover have "pc s u \<noteq> Notifies" if "u < n" for u using asleep [OF that] by auto
    moreover have "compares_ok (pc s t)" "(\<exists>u<n. pc s u = Notifies) \<or> sleeps_on (out_now s) (pc s t)"
      using ok \<open>t < n\<close> by (auto simp: wl_ok_def wl_awake_def)
    ultimately show ?thesis by auto
  qed
  then have "\<not> holds_ticket (pc s t)" if "t < n" for t using ok that by (auto simp: wl_ok_def wl_queue_def)
  with asleep show ?thesis unfolding wl_through_def by (metis holds_ticket.simps(5) is_blocked.elims(2))
qed

fun wl_weight :: "nat \<Rightarrow> u32 \<Rightarrow> wait_pc \<Rightarrow> nat" where
  "wl_weight n out Idle = 0"
| "wl_weight n out (Loads my) = 5 * n + 7"
| "wl_weight n out (Waits my now) = (if now = out then 5 * n + 6 else 5 * n + 8)"
| "wl_weight n out (Blocked my now) = 5 * n + 5"
| "wl_weight n out Inside = 5 * n + 6"
| "wl_weight n out Notifies = 3 * n + 1"

definition wl_work :: "nat \<Rightarrow> wait_mutex \<Rightarrow> nat" where
  "wl_work n s = (\<Sum>t<n. (5 * n + 8) * rounds s t + wl_weight n (out_now s) (pc s t))"

lemma wl_step_work:
  assumes "wl_step All False n s s'"
  shows "wl_work n s' < wl_work n s"
  using assms
proof cases
  case (draws t)
  then show ?thesis unfolding wl_work_def
    by (intro sum_shift [where t = t and c = 0]) (auto simp: state_simps gr0_conv_Suc)
next
  case (loads t my)
  then show ?thesis unfolding wl_work_def
    by (intro sum_shift [where t = t and c = 0]) (auto simp: state_simps)
next
  case (waits t my now)
  then show ?thesis unfolding wl_work_def
    by (intro sum_shift [where t = t and c = 0]) (auto simp: state_simps)
next
  case (serves t)
  have "wl_weight n out' p \<le> wl_weight n (out_now s) p + 2" for out' p by (cases p) auto
  with serves show ?thesis unfolding wl_work_def
    by (intro sum_shift [where t = t and c = 2]) (auto simp: state_simps)
next
  case (notifies_all t)
  have "wl_weight n (out_now s) (unblock p) \<le> wl_weight n (out_now s) p + 3" for p by (cases p) auto
  with notifies_all show ?thesis unfolding wl_work_def
    by (intro sum_shift [where t = t and c = 3]) (auto simp: state_simps)
qed simp_all

interpretation wait_all: sleeping_lock "wl_step All False n" "\<lambda>s. n < 2 ^ 32 \<and> wl_ok All n s" "\<lambda>s. True"
  "wl_through n" "wl_work n" "\<lambda>s t. t < n \<and> pc s t = Inside"
proof unfold_locales
  show "\<exists>s'. wl_step All False n s s'" if "n < 2 ^ 32 \<and> wl_ok All n s" "\<not> wl_through n s" for s
    using wl_stuck that by blast
  show "t = u" if "n < 2 ^ 32 \<and> wl_ok All n s" "t < n \<and> pc s t = Inside" "u < n \<and> pc s u = Inside" for s t u
    using inside_first [of n s t] inside_first [of n s u] that unfolding wl_ok_def by (metis list.inject)
qed (auto intro: wl_ok_step dest: wl_step_work)

subsection \<open>A lock that wakes one thread wakes the wrong one\<close>

definition wl_run :: "nat \<Rightarrow> nat option \<Rightarrow> wait_mutex \<Rightarrow> wait_mutex option" where
  "wl_run t w s =
     (case pc s t of
        Idle \<Rightarrow> if 0 < rounds s t then Some (wl_draw t s) else None
      | Loads my \<Rightarrow> Some (wl_load t my s)
      | Waits my now \<Rightarrow> Some (wl_wait t my now s)
      | Blocked my now \<Rightarrow> None
      | Inside \<Rightarrow> Some (wl_serve t s)
      | Notifies \<Rightarrow> (case w of None \<Rightarrow> None | Some u \<Rightarrow> if is_blocked (pc s u) then Some (wl_notify_one t w s) else None))"

lemma wl_run_step: "wl_run t w s = Some s' \<Longrightarrow> t < n \<Longrightarrow> (\<And>u. w = Some u \<Longrightarrow> u < n) \<Longrightarrow> wl_step One spurious n s s'"
  by (auto simp: wl_run_def split: wait_pc.splits option.splits if_splits intro: wl_step.intros)

primrec wl_play :: "(nat \<times> nat option) list \<Rightarrow> wait_mutex \<Rightarrow> wait_mutex option" where
  "wl_play [] s = Some s"
| "wl_play (e # es) s = (case wl_run (fst e) (snd e) s of None \<Rightarrow> None | Some s1 \<Rightarrow> wl_play es s1)"

lemma wl_play_steps:
  "wl_play es s = Some s' \<Longrightarrow> list_all (\<lambda>(t, w). t < n \<and> (\<forall>u. w = Some u \<longrightarrow> u < n)) es \<Longrightarrow>
    (wl_step One spurious n)\<^sup>*\<^sup>* s s'"
proof (induction es arbitrary: s)
  case (Cons e es)
  then obtain s1 where s1: "wl_run (fst e) (snd e) s = Some s1" "wl_play es s1 = Some s'"
    by (auto split: option.splits)
  have "wl_step One spurious n s s1" using wl_run_step [OF s1(1)] Cons.prems(2) by (auto split: prod.splits)
  with Cons.IH [OF s1(2)] Cons.prems(2) show ?case by (auto intro: converse_rtranclp_into_rtranclp)
qed simp

lemma wl_asleep_stuck:
  "(\<And>t. t < n \<Longrightarrow> pc s t = Idle \<and> rounds s t = 0 \<or> is_blocked (pc s t)) \<Longrightarrow> \<not> wl_step v False n s u"
  by (auto elim!: wl_step.cases) fastforce+

text \<open>Thread 0 holds the lock, 1 and 2 sleep; it unlocks, and the notification wakes 2, whose turn it is not.\<close>

definition wrong_wake :: "(nat \<times> nat option) list" where
  "wrong_wake = map (\<lambda>t. (t, None)) [0, 0, 1, 1, 1, 2, 2, 2, 0] @ [(0, Some 2), (2, None), (2, None), (2, None)]"

text \<open>
  Property C33: the ticket lock that notifies all threads lets in one thread at a time, in the order
  in which they drew their tickets, for fewer than \<open>2 ^ 32\<close> threads and any number of wrap-arounds; and
  every execution without spurious wake-ups is over within a bound, with all threads through.
\<close>

theorem wait_ticket_mutex_serves_all:
  assumes "n < 2 ^ 32" "(wl_step All True n)\<^sup>*\<^sup>* (wait_mutex_start r) s"
  shows "(\<forall>t<n. pc s t = Inside \<longrightarrow> (\<exists>q. queue s = t # q)) \<and> drawn s = left s @ queue s \<and>
    (\<forall>k s'. (wl_step All False n ^^ k) s s' \<longrightarrow> k \<le> wl_work n s \<and>
      ((\<forall>u. \<not> wl_step All False n s' u) \<longrightarrow> wl_through n s'))"
proof -
  have "wl_ok All n s" using assms(2)
    by (induction rule: rtranclp_induct) (auto intro: wl_ok_start wl_ok_step [OF assms(1)])
  moreover from this have "\<exists>q. queue s = t # q" if "t < n" "pc s t = Inside" for t
    using inside_first [of n s t] that unfolding wl_ok_def by metis
  ultimately show ?thesis using wait_all.lock_runs(1,2) [of n s] assms(1) by (auto simp: wl_ok_def wl_queue_def)
qed

theorem wait_ticket_mutex_serves_all_witness:
  "\<exists>s. (wl_step All False 2)\<^sup>*\<^sup>* (wait_mutex_start (\<lambda>t. 3)) s \<and> wl_through 2 s"
proof -
  have "2 < (2 :: nat) ^ 32 \<and> wl_ok All 2 (wait_mutex_start (\<lambda>t. 3))" by (simp add: wl_ok_start)
  from wait_all.closing_stops [OF this] obtain s where
    s: "(wl_step All False 2)\<^sup>*\<^sup>* (wait_mutex_start (\<lambda>t. 3)) s" "\<forall>u. \<not> wl_step All False 2 s u" by blast
  then obtain k where "(wl_step All False 2 ^^ k) (wait_mutex_start (\<lambda>t. 3)) s" by (auto simp: rtranclp_power)
  with wait_ticket_mutex_serves_all [where n = 2 and r = "\<lambda>t. 3", OF _ rtranclp.rtrancl_refl] s(2)
  have "wl_through 2 s" by simp
  with s(1) show ?thesis by blast
qed

text \<open>
  The ticket lock that notifies one thread can hang: three threads that lock once reach a
  state in which the first is through and the lock is free; it is the turn of the second, which sleeps,
  as the third does, and nothing can happen any more.
\<close>

theorem fair_spinlock_hangs:
  "\<exists>s. (wl_step One False 3)\<^sup>*\<^sup>* (wait_mutex_start (\<lambda>t. 1)) s \<and> (\<forall>u. \<not> wl_step One False 3 s u) \<and>
    map (pc s) [0..<3] = [Idle, Blocked 1 0, Blocked 2 1] \<and> out_now s = 1"
proof -
  let ?last = "\<lambda>s. map (pc s) [0..<3] = [Idle, Blocked 1 0, Blocked 2 1] \<and> rounds s 0 = 0 \<and> out_now s = 1"
  have "case wl_play wrong_wake (wait_mutex_start (\<lambda>t. 1)) of None \<Rightarrow> False | Some s \<Rightarrow> ?last s" by code_simp
  then obtain s where s: "wl_play wrong_wake (wait_mutex_start (\<lambda>t. 1)) = Some s" "?last s"
    by (cases "wl_play wrong_wake (wait_mutex_start (\<lambda>t. 1))") auto
  have "list_all (\<lambda>(t, w). t < 3 \<and> (\<forall>u. w = Some u \<longrightarrow> u < 3)) wrong_wake" by (simp add: wrong_wake_def)
  from wl_play_steps [OF s(1) this] have run: "(wl_step One False 3)\<^sup>*\<^sup>* (wait_mutex_start (\<lambda>t. 1)) s" .
  have pcs: "pc s 0 = Idle" "pc s 1 = Blocked 1 0" "pc s 2 = Blocked 2 1" using s(2) by (simp_all add: upt_conv_Cons numeral_2_eq_2)
  have stuck: "\<forall>u. \<not> wl_step One False 3 s u"
    by (intro allI wl_asleep_stuck) (use pcs s(2) in \<open>auto simp: less_Suc_eq numeral_3_eq_3 numeral_2_eq_2\<close>)
  show ?thesis by (intro exI [of _ s] conjI run stuck) (rule s(2) [THEN conjunct1] s(2) [THEN conjunct2, THEN conjunct2])+
qed

subsection \<open>The lock with a flag\<close>

datatype spin_pc = Out | Tests | Sleeps | Asleep | Holds | Tells

record spin_mutex =
  flag :: bool
  spin_pc :: "nat \<Rightarrow> spin_pc"
  spin_rounds :: "nat \<Rightarrow> nat"

definition spin_start :: "(nat \<Rightarrow> nat) \<Rightarrow> spin_mutex" where
  "spin_start r = \<lparr>flag = False, spin_pc = \<lambda>t. Out, spin_rounds = r\<rparr>"

definition spin_go :: "nat \<Rightarrow> spin_pc \<Rightarrow> spin_mutex \<Rightarrow> spin_mutex" where
  "spin_go t p s = s\<lparr>spin_pc := (spin_pc s)(t := p)\<rparr>"

definition spin_enter :: "nat \<Rightarrow> spin_mutex \<Rightarrow> spin_mutex" where
  "spin_enter t s = spin_go t Tests (s\<lparr>spin_rounds := (spin_rounds s)(t := spin_rounds s t - 1)\<rparr>)"

definition test_and_set :: "nat \<Rightarrow> spin_mutex \<Rightarrow> spin_mutex" where
  "test_and_set t s = spin_go t (if flag s then Sleeps else Holds) (s\<lparr>flag := True\<rparr>)"

definition spin_wait :: "nat \<Rightarrow> spin_mutex \<Rightarrow> spin_mutex" where
  "spin_wait t s = spin_go t (if flag s then Asleep else Tests) s"

definition spin_clear :: "nat \<Rightarrow> spin_mutex \<Rightarrow> spin_mutex" where
  "spin_clear t s = spin_go t Tells (s\<lparr>flag := False\<rparr>)"

definition spin_notify :: "nat \<Rightarrow> nat option \<Rightarrow> spin_mutex \<Rightarrow> spin_mutex" where
  "spin_notify t w s = spin_go t Out (case w of None \<Rightarrow> s | Some u \<Rightarrow> spin_go u Sleeps s)"

inductive spin_step :: "bool \<Rightarrow> nat \<Rightarrow> spin_mutex \<Rightarrow> spin_mutex \<Rightarrow> bool"
  for spurious :: bool and n :: nat
where
  enters: "t < n \<Longrightarrow> spin_pc s t = Out \<Longrightarrow> 0 < spin_rounds s t \<Longrightarrow> spin_step spurious n s (spin_enter t s)"
| tests: "t < n \<Longrightarrow> spin_pc s t = Tests \<Longrightarrow> spin_step spurious n s (test_and_set t s)"
| sleeps: "t < n \<Longrightarrow> spin_pc s t = Sleeps \<Longrightarrow> spin_step spurious n s (spin_wait t s)"
| clears: "t < n \<Longrightarrow> spin_pc s t = Holds \<Longrightarrow> spin_step spurious n s (spin_clear t s)"
| tells: "t < n \<Longrightarrow> spin_pc s t = Tells \<Longrightarrow> u < n \<Longrightarrow> spin_pc s u = Asleep \<Longrightarrow>
    spin_step spurious n s (spin_notify t (Some u) s)"
| tells_none: "t < n \<Longrightarrow> spin_pc s t = Tells \<Longrightarrow> (\<And>u. u < n \<Longrightarrow> spin_pc s u \<noteq> Asleep) \<Longrightarrow>
    spin_step spurious n s (spin_notify t None s)"
| wakes_spuriously: "t < n \<Longrightarrow> spin_pc s t = Asleep \<Longrightarrow> spurious \<Longrightarrow> spin_step spurious n s (spin_go t Sleeps s)"

lemmas [state_simps] = spin_go_def spin_enter_def test_and_set_def spin_wait_def spin_clear_def spin_notify_def

definition spin_ok :: "nat \<Rightarrow> spin_mutex \<Rightarrow> bool" where
  "spin_ok n s \<longleftrightarrow>
     (\<forall>t<n. \<forall>u<n. spin_pc s t = Holds \<longrightarrow> spin_pc s u = Holds \<longrightarrow> t = u) \<and>
     (flag s \<longleftrightarrow> (\<exists>t<n. spin_pc s t = Holds)) \<and>
     ((\<exists>t<n. spin_pc s t = Asleep) \<longrightarrow> flag s \<or> (\<exists>t<n. spin_pc s t \<in> {Tests, Sleeps, Tells}))"

lemma spin_ok_start: "spin_ok n (spin_start r)"
  by (simp add: spin_ok_def spin_start_def)

lemma spin_okD:
  assumes "spin_ok n s"
  shows "\<And>t u. t < n \<Longrightarrow> u < n \<Longrightarrow> spin_pc s t = Holds \<Longrightarrow> spin_pc s u = Holds \<Longrightarrow> t = u"
    and "flag s \<Longrightarrow> \<exists>t<n. spin_pc s t = Holds"
    and "\<And>t. t < n \<Longrightarrow> spin_pc s t = Holds \<Longrightarrow> flag s"
    and "\<And>t. t < n \<Longrightarrow> spin_pc s t = Asleep \<Longrightarrow> flag s \<or> (\<exists>u<n. spin_pc s u \<in> {Tests, Sleeps, Tells})"
  using assms unfolding spin_ok_def by blast+

lemma spin_okI:
  assumes "\<And>t u. t < n \<Longrightarrow> u < n \<Longrightarrow> spin_pc s t = Holds \<Longrightarrow> spin_pc s u = Holds \<Longrightarrow> t = u"
    and "flag s \<longleftrightarrow> (\<exists>t<n. spin_pc s t = Holds)"
    and "(\<forall>t<n. spin_pc s t \<noteq> Asleep) \<or> flag s \<or> (\<exists>t<n. spin_pc s t \<in> {Tests, Sleeps, Tells})"
  shows "spin_ok n s"
  using assms unfolding spin_ok_def by blast

text \<open>A thread that neither takes nor leaves the lock keeps the first two parts.\<close>

lemma spin_go_ok:
  assumes ok: "spin_ok n s" and t: "t < n" "spin_pc s t \<noteq> Holds" "p \<noteq> Holds"
    and "p \<in> {Tests, Sleeps, Tells} \<or> flag s \<or> (\<exists>u<n. u \<noteq> t \<and> spin_pc s u \<in> {Tests, Sleeps, Tells}) \<or>
      p \<noteq> Asleep \<and> (\<forall>u<n. spin_pc s u \<noteq> Asleep)"
  shows "spin_ok n (spin_go t p s)"
proof (rule spin_okI)
  show "flag (spin_go t p s) \<longleftrightarrow> (\<exists>u<n. spin_pc (spin_go t p s) u = Holds)"
    using spin_okD(2,3) [OF ok] t by (auto simp: spin_go_def)
  show "(\<forall>u<n. spin_pc (spin_go t p s) u \<noteq> Asleep) \<or> flag (spin_go t p s) \<or>
      (\<exists>u<n. spin_pc (spin_go t p s) u \<in> {Tests, Sleeps, Tells})"
    using assms(5)
  proof (elim disjE)
    assume "p \<in> {Tests, Sleeps, Tells}"
    then have "spin_pc (spin_go t p s) t \<in> {Tests, Sleeps, Tells}" by (simp add: spin_go_def)
    with t(1) show ?thesis by blast
  next
    assume "\<exists>u<n. u \<noteq> t \<and> spin_pc s u \<in> {Tests, Sleeps, Tells}"
    then obtain u where "u < n" "spin_pc (spin_go t p s) u \<in> {Tests, Sleeps, Tells}" by (auto simp: spin_go_def)
    then show ?thesis by blast
  qed (simp_all add: spin_go_def)
qed (use spin_okD(1) [OF ok] t in \<open>auto simp: spin_go_def split: if_splits\<close>)

lemma spin_ok_cong: "spin_ok n (s\<lparr>spin_rounds := r\<rparr>) = spin_ok n s"
  by (simp add: spin_ok_def)

lemma spin_ok_step:
  assumes ok: "spin_ok n s" and step: "spin_step spurious n s s'"
  shows "spin_ok n s'"
  using step
proof cases
  case (enters t)
  show ?thesis unfolding enters(1) spin_enter_def
    by (rule spin_go_ok) (use enters ok in \<open>simp_all add: spin_ok_cong\<close>)
next
  case (tests t)
  show ?thesis
  proof (cases "flag s")
    case True
    then have "s\<lparr>flag := True\<rparr> = s" by simp
    with True tests show ?thesis using spin_go_ok [OF ok, of t Sleeps] by (simp add: test_and_set_def)
  next
    case False
    then have "spin_pc s u \<noteq> Holds" if "u < n" for u using spin_okD(3) [OF ok that] by blast
    then show ?thesis using tests False
      by (intro spin_okI) (auto simp: test_and_set_def spin_go_def split: if_splits)
  qed
next
  case (sleeps t)
  then show ?thesis using spin_go_ok [OF ok, of t] by (simp add: spin_wait_def)
next
  case (clears t)
  then have "spin_pc s u \<noteq> Holds" if "u < n" "u \<noteq> t" for u using spin_okD(1) [OF ok, of u t] that by blast
  then show ?thesis using clears by (intro spin_okI) (auto simp: spin_clear_def spin_go_def split: if_splits)
next
  case (tells t u)
  then have ok1: "spin_ok n (spin_go u Sleeps s)" by (intro spin_go_ok [OF ok]) simp_all
  have "u \<noteq> t" using tells by auto
  then have "\<exists>v<n. v \<noteq> t \<and> spin_pc (spin_go u Sleeps s) v \<in> {Tests, Sleeps, Tells}"
    using tells(4) by (intro exI [of _ u]) (simp add: spin_go_def)
  with spin_go_ok [OF ok1, of t Out] tells \<open>u \<noteq> t\<close> show ?thesis by (simp add: spin_notify_def spin_go_def)
next
  case (tells_none t)
  then show ?thesis using spin_go_ok [OF ok, of t Out] by (simp add: spin_notify_def)
next
  case (wakes_spuriously t)
  then show ?thesis using spin_go_ok [OF ok, of t Sleeps] by simp
qed

definition spin_through :: "nat \<Rightarrow> spin_mutex \<Rightarrow> bool" where
  "spin_through n s \<longleftrightarrow> (\<forall>t<n. spin_pc s t = Out \<and> spin_rounds s t = 0)"

lemma spin_stuck:
  assumes ok: "spin_ok n s" and stuck: "\<And>s'. \<not> spin_step False n s s'"
  shows "spin_through n s"
proof -
  have quiet: "spin_pc s t = Out \<and> spin_rounds s t = 0 \<or> spin_pc s t = Asleep" if t: "t < n" for t
  proof (cases "spin_pc s t")
    case Tells
    with stuck spin_step.tells [OF t] spin_step.tells_none [OF t] show ?thesis by blast
  next
    case Out
    with stuck spin_step.enters [OF t] show ?thesis by blast
  qed (use stuck spin_step.tests [OF t] spin_step.sleeps [OF t] spin_step.clears [OF t] in blast)+
  then have "\<not> (\<exists>t<n. spin_pc s t \<in> {Tests, Sleeps, Tells})" "\<not> flag s" using spin_okD(2) [OF ok] by fastforce+
  then have "\<not> (\<exists>t<n. spin_pc s t = Asleep)" using spin_okD(4) [OF ok] by blast
  with quiet show ?thesis by (auto simp: spin_through_def)
qed

fun spin_weight :: "nat \<Rightarrow> bool \<Rightarrow> spin_pc \<Rightarrow> nat" where
  "spin_weight n b Out = 0"
| "spin_weight n b Tests = 5 * n + 7"
| "spin_weight n b Sleeps = (if b then 5 * n + 6 else 5 * n + 8)"
| "spin_weight n b Asleep = 5 * n + 5"
| "spin_weight n b Holds = 5 * n + 6"
| "spin_weight n b Tells = 3 * n + 1"

definition spin_work :: "nat \<Rightarrow> spin_mutex \<Rightarrow> nat" where
  "spin_work n s = (\<Sum>t<n. (5 * n + 8) * spin_rounds s t + spin_weight n (flag s) (spin_pc s t))"

lemma spin_step_work:
  assumes "spin_step False n s s'"
  shows "spin_work n s' < spin_work n s"
  using assms
proof cases
  case (enters t)
  then show ?thesis unfolding spin_work_def
    by (intro sum_shift [where t = t and c = 0]) (auto simp: state_simps gr0_conv_Suc)
next
  case (tests t)
  have "spin_weight n True p \<le> spin_weight n (flag s) p" for p by (cases p) auto
  with tests show ?thesis unfolding spin_work_def
    by (intro sum_shift [where t = t and c = 0]) (auto simp: state_simps)
next
  case (sleeps t)
  then show ?thesis unfolding spin_work_def
    by (intro sum_shift [where t = t and c = 0]) (auto simp: state_simps)
next
  case (clears t)
  have "spin_weight n False p \<le> spin_weight n (flag s) p + 2" for p by (cases p) auto
  with clears show ?thesis unfolding spin_work_def
    by (intro sum_shift [where t = t and c = 2]) (auto simp: state_simps)
next
  case (tells t u)
  then show ?thesis unfolding spin_work_def
    by (intro sum_shift [where t = t and c = 3]) (auto simp: state_simps)
next
  case (tells_none t)
  then show ?thesis unfolding spin_work_def
    by (intro sum_shift [where t = t and c = 3]) (auto simp: state_simps)
qed simp_all

interpretation spin: sleeping_lock "spin_step False n" "spin_ok n" "\<lambda>s. True" "spin_through n" "spin_work n"
  "\<lambda>s t. t < n \<and> spin_pc s t = Holds"
proof unfold_locales
  show "\<exists>s'. spin_step False n s s'" if "spin_ok n s" "\<not> spin_through n s" for s
    using spin_stuck that by blast
  show "t = u" if "spin_ok n s" "t < n \<and> spin_pc s t = Holds" "u < n \<and> spin_pc s u = Holds" for s t u
    using that unfolding spin_ok_def by blast
qed (auto intro: spin_ok_step dest: spin_step_work)

text \<open>
  The lock with a flag lets in one thread at a time, and wakes as many threads as it must: every
  execution is over within a bound, with all threads through.
\<close>

theorem spinlock_serves_all:
  assumes "(spin_step True n)\<^sup>*\<^sup>* (spin_start r) s"
  shows "(\<forall>t<n. \<forall>u<n. spin_pc s t = Holds \<longrightarrow> spin_pc s u = Holds \<longrightarrow> t = u) \<and>
    (\<forall>k s'. (spin_step False n ^^ k) s s' \<longrightarrow> k \<le> spin_work n s \<and>
      ((\<forall>u. \<not> spin_step False n s' u) \<longrightarrow> spin_through n s'))"
proof -
  have ok: "spin_ok n s" using assms
    by (induction rule: rtranclp_induct) (auto intro: spin_ok_start spin_ok_step)
  show ?thesis using spin.one_inside [OF ok] spin.lock_runs(1,2) [OF ok] by blast
qed

end
