(* ===== verification/Short_String.thy ===== *)
theory Short_String
  imports Prelude
begin

text \<open>
  Short strings kept in an integer so that they can be the labels of a \<open>switch\<close>,
  \<open>diff/17/ShortString4.cpp\<close>. The integer type \<open>T\<close> is a word type, its size in bytes the length of the
  array. A label is computed when the program is compiled, by shifts and additions of the
  characters converted to \<open>T\<close>; the value of the \<open>switch\<close> is read from memory, on a little-endian
  machine. \<open>char\<close> is signed, as with gcc on x86.
\<close>

subsection \<open>The class\<close>

definition ss_pad :: "nat \<Rightarrow> u8 list \<Rightarrow> u8 list" where
  "ss_pad n bs = bs @ replicate (n - length bs) 0"

definition ss_char :: "nat \<Rightarrow> u8 \<Rightarrow> u8 list" where
  "ss_char n value = ss_pad n [value]"

text \<open>The constructor from a C string, whose characters after the last one are 0.\<close>

fun ss_c_loop :: "nat \<Rightarrow> u8 list \<Rightarrow> u8 list" where
  "ss_c_loop 0 value = []"
| "ss_c_loop (Suc n) [] = []"
| "ss_c_loop (Suc n) (c # value) = (if c = 0 then [] else c # ss_c_loop n value)"

definition ss_c_str :: "nat \<Rightarrow> u8 list \<Rightarrow> u8 list" where
  "ss_c_str n value = ss_pad n (ss_c_loop n value)"

text \<open>The constructor from a string view ends the program if the view is too long.\<close>

definition ss_view :: "nat \<Rightarrow> u8 list \<Rightarrow> u8 list option" where
  "ss_view n value = (if n < length value then None else Some (ss_pad n value))"

text \<open>The conversion to \<open>T\<close>, when the program is compiled and when it runs.\<close>

primrec ss_const_from :: "nat \<Rightarrow> u8 list \<Rightarrow> 'w::len word" where
  "ss_const_from i [] = 0"
| "ss_const_from i (b # bs) = ss_const_from (Suc i) bs + push_bit (8 * i) (scast b)"

definition ss_const :: "u8 list \<Rightarrow> 'w::len word" where
  "ss_const bs = ss_const_from 0 bs"

primrec ss_value :: "u8 list \<Rightarrow> 'w::len word" where
  "ss_value [] = 0"
| "ss_value (b # bs) = ucast b + push_bit 8 (ss_value bs)"

definition toStringView :: "u8 list \<Rightarrow> u8 list" where
  "toStringView v = v"

definition ss_toString :: "u8 list \<Rightarrow> u8 list" where
  "ss_toString v = (if 0 \<notin> set v then v else takeWhile (\<lambda>b. b \<noteq> 0) v)"

text \<open>\<open>switch\<close> on a string with the labels given; the result is the number of the first that matches.\<close>

fun ss_switch :: "'w::len word \<Rightarrow> u8 list list \<Rightarrow> nat" where
  "ss_switch x [] = 0"
| "ss_switch x (l # ls) = (if x = ss_const l then 1 else case ss_switch x ls of 0 \<Rightarrow> 0 | Suc k \<Rightarrow> Suc (Suc k))"

definition strTest1 :: "u8 list \<Rightarrow> nat" where
  "strTest1 val = ss_switch (ss_value (ss_c_str 4 val) :: u32) 
     [ss_c_str 4 [0x61, 0x78], the (ss_view 4 [0x61, 0x62, 0x63, 0x64])]"

subsection \<open>Values as integers\<close>

primrec uval :: "u8 list \<Rightarrow> int" where
  "uval [] = 0"
| "uval (b # bs) = uint b + 256 * uval bs"

primrec high_val :: "u8 list \<Rightarrow> int" where
  "high_val [] = 0"
| "high_val (b # bs) = (if 128 \<le> b then 1 else 0) + 256 * high_val bs"

lemma uint_u8: "0 \<le> uint (b :: u8)" "uint (b :: u8) < 256"
  using uint_lt2p [of b] by simp_all

lemma uval_bounds: "0 \<le> uval bs" "uval bs < 256 ^ length bs"
proof -
  have "0 \<le> uval bs \<and> uval bs < 256 ^ length bs"
  proof (induction bs)
    case (Cons b bs)
    then show ?case using uint_u8 [of b] by simp
  qed simp
  then show "0 \<le> uval bs" "uval bs < 256 ^ length bs" by simp_all
qed

lemma uval_inject: "length bs = length cs \<Longrightarrow> uval bs = uval cs \<Longrightarrow> bs = cs"
proof (induction bs cs rule: list_induct2)
  case (Cons b bs c cs)
  have "uint b mod 256 = uint b" "uint c mod 256 = uint c" using uint_u8 [of b] uint_u8 [of c] by simp_all
  then have "uint b = uint c" using Cons.prems by (metis mod_mult_self2 uval.simps(2))
  then show ?case using Cons by (simp add: word_uint_eq_iff)
qed simp

lemma ss_value_uval: "ss_value bs = (word_of_int (uval bs) :: 'w::len word)"
proof (induction bs)
  case (Cons b bs)
  have "ucast b = (word_of_int (uint b) :: 'w word)" by (rule ucast_eq)
  then show ?case using Cons by (simp add: push_bit_eq_mult mult.commute)
qed simp

lemma pow256: "(2 :: 'a::comm_ring_1) ^ (8 * i) = 256 ^ i"
  by (simp add: power_mult)

lemma sint_u8: "sint (b :: u8) = uint b - (if 128 \<le> b then 256 else 0)"
proof -
  have "uint b = sint b mod 256" using uint_sint [of b] by (simp add: take_bit_eq_mod)
  moreover have "- 128 \<le> sint b" "sint b < 128" using sint_ge [of b] sint_lt [of b] by simp_all
  moreover have "128 \<le> b \<longleftrightarrow> 128 \<le> uint b" by (simp add: word_le_def)
  ultimately show ?thesis by (cases "128 \<le> b") (simp_all, presburger+)
qed

lemma ss_const_from_uval:
  "ss_const_from i bs = (word_of_int (256 ^ i * (uval bs - 256 * high_val bs)) :: 'w::len word)"
proof (induction bs arbitrary: i)
  case (Cons b bs)
  have "scast b = (word_of_int (sint b) :: 'w word)" by (rule scast_eq)
  then have "push_bit (8 * i) (scast b) = (word_of_int (256 ^ i * sint b) :: 'w word)"
    by (simp add: push_bit_eq_mult pow256 mult.commute [of "scast b"])
  then have "ss_const_from i (b # bs) =
      (word_of_int (256 ^ Suc i * (uval bs - 256 * high_val bs) + 256 ^ i * sint b) :: 'w word)"
    by (simp add: Cons.IH)
  also have "256 ^ Suc i * (uval bs - 256 * high_val bs) + 256 ^ i * sint b =
      256 ^ i * (uval (b # bs) - 256 * high_val (b # bs))"
    by (simp add: sint_u8 algebra_simps)
  finally show ?case .
qed simp

lemma ss_const_uval: "ss_const bs = (word_of_int (uval bs - 256 * high_val bs) :: 'w::len word)"
  using ss_const_from_uval [of 0 bs] by (simp add: ss_const_def)

lemma high_val_bounds: "0 \<le> high_val bs" "high_val bs < 256 ^ length bs"
proof -
  have "0 \<le> high_val bs \<and> high_val bs < 256 ^ length bs" by (induction bs) auto
  then show "0 \<le> high_val bs" "high_val bs < 256 ^ length bs" by simp_all
qed

lemma high_val_append: "high_val (bs @ cs) = high_val bs + 256 ^ length bs * high_val cs"
  by (induction bs) (auto simp: algebra_simps)

lemma high_val_0: "high_val bs = 0 \<longleftrightarrow> (\<forall>b \<in> set bs. b < 128)"
proof (induction bs)
  case (Cons b bs)
  then show ?case using high_val_bounds(1) [of bs] by (auto simp: not_le)
qed simp

text \<open>
  The compiled value of an array that fills the integer is the one in memory exactly if no character
  but the last one has its highest bit set.
\<close>

lemma ss_const_value:
  assumes "8 * length bs = LENGTH('w::len)"
  shows "ss_const bs = (ss_value bs :: 'w word) \<longleftrightarrow> (\<forall>b \<in> set (butlast bs). b < 128)"
proof -
  have "bs \<noteq> []" using assms by auto
  then obtain as b where bs: "bs = as @ [b]" by (cases bs rule: rev_cases) auto
  have pow: "(2 :: int) ^ LENGTH('w) = 256 * 256 ^ length as"
    unfolding assms [symmetric] pow256 bs by simp
  have "ss_const bs = (ss_value bs :: 'w word) \<longleftrightarrow>
      (word_of_int (uval bs - 256 * high_val bs) :: 'w word) = word_of_int (uval bs)"
    by (simp add: ss_const_uval ss_value_uval)
  also have "\<dots> \<longleftrightarrow> (uval bs - 256 * high_val bs) mod 2 ^ LENGTH('w) = uval bs mod 2 ^ LENGTH('w)"
    by (simp only: word_of_int_eq_iff take_bit_eq_mod)
  also have "\<dots> \<longleftrightarrow> 256 * 256 ^ length as dvd 256 * high_val bs" unfolding pow by (simp add: mod_eq_dvd_iff)
  also have "\<dots> \<longleftrightarrow> 256 ^ length as dvd high_val bs" by simp
  also have "\<dots> \<longleftrightarrow> 256 ^ length as dvd high_val as" unfolding bs high_val_append by (metis dvd_add_left_iff dvd_triv_left)
  also have "\<dots> \<longleftrightarrow> high_val as = 0" using high_val_bounds [of as] by (metis dvd_0_right zdvd_not_zless order_le_less)
  finally show ?thesis by (simp add: high_val_0 bs)
qed

lemma ss_value_inject:
  assumes "length bs = length cs" "8 * length bs \<le> LENGTH('w::len)" "ss_value bs = (ss_value cs :: 'w word)"
  shows "bs = cs"
proof -
  have "(256 :: int) ^ length bs = 2 ^ (8 * length bs)" by (simp add: pow256)
  also have "\<dots> \<le> 2 ^ LENGTH('w)" using assms(2) by (intro power_increasing) simp_all
  finally have "uval bs < 2 ^ LENGTH('w)" "uval cs < 2 ^ LENGTH('w)"
    using uval_bounds(2) [of bs] uval_bounds(2) [of cs] unfolding assms(1) [symmetric] by linarith+
  moreover have "uval bs mod 2 ^ LENGTH('w) = uval cs mod 2 ^ LENGTH('w)"
    using assms(3) by (simp add: ss_value_uval word_of_int_eq_iff take_bit_eq_mod)
  ultimately show ?thesis using uval_inject [OF assms(1)] uval_bounds(1) by simp
qed

subsection \<open>Strings\<close>

lemma length_ss_pad: "length bs \<le> n \<Longrightarrow> length (ss_pad n bs) = n"
  by (simp add: ss_pad_def)

lemma ss_c_loop_take: "0 \<notin> set v \<Longrightarrow> ss_c_loop n v = take n v"
  by (induction n v rule: ss_c_loop.induct) auto

lemma ss_toString_pad:
  assumes "0 \<notin> set v" "length v \<le> n"
  shows "ss_toString (ss_pad n v) = v"
proof -
  have "takeWhile (\<lambda>b. b \<noteq> 0) v = v" using assms(1) by (induction v) auto
  moreover have "takeWhile (\<lambda>b. b \<noteq> 0) (v @ replicate k 0) = takeWhile (\<lambda>b. b \<noteq> 0) v" for k
    using assms(1) by (induction v) (auto simp: takeWhile_replicate)
  ultimately show ?thesis using assms by (auto simp: ss_toString_def ss_pad_def)
qed

lemma ss_pad_inject:
  "0 \<notin> set v \<Longrightarrow> 0 \<notin> set u \<Longrightarrow> length v \<le> n \<Longrightarrow> length u \<le> n \<Longrightarrow> ss_pad n v = ss_pad n u \<longleftrightarrow> v = u"
  using ss_toString_pad by metis

lemma ss_switch_value:
  assumes "8 * n = LENGTH('w::len)" "length v = n" "\<forall>l \<in> set ls. length l = n \<and> (\<forall>b \<in> set (butlast l). b < 128)"
  shows "ss_switch (ss_value v :: 'w word) ls = (if v \<in> set ls then Suc (length (takeWhile (\<lambda>l. l \<noteq> v) ls)) else 0)"
  using assms(3)
proof (induction ls)
  case (Cons l ls)
  have l: "ss_const l = (ss_value l :: 'w word)" using ss_const_value [of l, where 'w = 'w] Cons.prems assms(1) by simp
  moreover have "(ss_value v :: 'w word) = ss_value l \<longleftrightarrow> v = l"
    using ss_value_inject [of v l, where 'w = 'w] assms(1,2) Cons.prems by auto
  ultimately show ?case using Cons by (auto split: nat.splits)
qed simp

subsection \<open>Properties\<close>

text \<open>
  Property C34: a \<open>switch\<close> on a C string with labels of plain ASCII that fit goes to the label that equals the
  first characters of the string, as many as fit: for strings that fit it is the comparison of strings, and
  longer ones are cut and can match a label that they are not.
\<close>

theorem short_string_switch:
  assumes "8 * n = LENGTH('w::len)" "0 \<notin> set val"
    and texts: "\<forall>l \<in> set ls. length l \<le> n \<and> 0 \<notin> set l \<and> (\<forall>b \<in> set l. b < 128)"
  shows "ss_switch (ss_value (ss_c_str n val) :: 'w word) (map (ss_pad n) ls) =
    (if take n val \<in> set ls then Suc (length (takeWhile (\<lambda>l. l \<noteq> take n val) ls)) else 0)"
proof -
  let ?v = "take n val"
  have v: "0 \<notin> set ?v" using assms(2) by (meson in_set_takeD)
  have c: "ss_c_str n val = ss_pad n ?v" using ss_c_loop_take [OF assms(2)] by (simp add: ss_c_str_def)
  have eq: "ss_pad n l = ss_pad n ?v \<longleftrightarrow> l = ?v" if "l \<in> set ls" for l
    using ss_pad_inject [OF _ v, of l n] texts that by auto
  have "b < 128" if "l \<in> set ls" "b \<in> set (butlast (ss_pad n l))" for l b
    using texts that in_set_butlastD [of b "ss_pad n l"] by (auto simp: ss_pad_def split: if_splits)
  moreover have "length (ss_pad n l) = n" if "l \<in> set ls" for l using texts that by (simp add: length_ss_pad)
  ultimately have "ss_switch (ss_value (ss_pad n ?v) :: 'w word) (map (ss_pad n) ls) =
      (if ss_pad n ?v \<in> set (map (ss_pad n) ls)
       then Suc (length (takeWhile (\<lambda>l. l \<noteq> ss_pad n ?v) (map (ss_pad n) ls))) else 0)"
    using ss_switch_value [OF assms(1), of "ss_pad n ?v" "map (ss_pad n) ls"] by (simp add: length_ss_pad)
  moreover have "ss_pad n ?v \<in> set (map (ss_pad n) ls) \<longleftrightarrow> ?v \<in> set ls" using eq by force
  moreover have "length (takeWhile (\<lambda>l. l \<noteq> ss_pad n ?v) (map (ss_pad n) ls)) = length (takeWhile (\<lambda>l. l \<noteq> ?v) ls)"
    using eq by (induction ls) auto
  ultimately show ?thesis by (simp add: c)
qed

definition strTest1_labels :: "u8 list list" where
  "strTest1_labels = [[0x61, 0x78], [0x61, 0x62, 0x63, 0x64]]"

lemma strTest1_switch: "strTest1 val = ss_switch (ss_value (ss_c_str 4 val) :: u32) (map (ss_pad 4) strTest1_labels)"
proof -
  have "ss_c_str 4 [0x61, 0x78] = ss_pad 4 [0x61, 0x78]"
    "the (ss_view 4 [0x61, 0x62, 0x63, 0x64]) = ss_pad 4 [0x61, 0x62, 0x63, 0x64]"
    by (simp_all add: ss_c_str_def ss_c_loop_take ss_view_def)
  then show ?thesis by (simp only: strTest1_def strTest1_labels_def list.map)
qed

theorem short_string_switch_witness:
  "strTest1 [0x61, 0x62, 0x63, 0x64] = 2 \<and> strTest1 [0x61, 0x62, 0x63, 0x64, 0x65] = 2"
proof -
  have texts: "\<forall>l \<in> set strTest1_labels. length l \<le> 4 \<and> 0 \<notin> set l \<and> (\<forall>b \<in> set l. b < 128)"
    by (simp add: strTest1_labels_def word_less_def)
  have "strTest1 val = (if take 4 val \<in> set strTest1_labels
      then Suc (length (takeWhile (\<lambda>l. l \<noteq> take 4 val) strTest1_labels)) else 0)" if "0 \<notin> set val" for val
    unfolding strTest1_switch by (rule short_string_switch [OF _ that texts]) simp
  from this [of "[0x61, 0x62, 0x63, 0x64]"] this [of "[0x61, 0x62, 0x63, 0x64, 0x65]"]
  show ?thesis by (simp add: strTest1_labels_def)
qed

text \<open>
  A label with a character outside of ASCII, other than in the last place of the array, is not found by
  the string it was made from.
\<close>

theorem non_ascii_label_lost:
  assumes "8 * n = LENGTH('w::len)" "length l \<le> n" "i < length l" "Suc i < n" "128 \<le> l ! i"
  shows "ss_switch (ss_value (ss_pad n l) :: 'w word) [ss_pad n l] = 0"
proof -
  have "butlast (ss_pad n l) ! i = l ! i" "i < length (butlast (ss_pad n l))"
    using assms(2-4) by (simp_all add: nth_butlast length_ss_pad) (simp add: ss_pad_def nth_append)
  then have "\<not> (\<forall>b \<in> set (butlast (ss_pad n l)). b < 128)" using assms(5) by (metis nth_mem not_le)
  then have "ss_const (ss_pad n l) \<noteq> (ss_value (ss_pad n l) :: 'w word)"
    using ss_const_value [of "ss_pad n l", where 'w = 'w] assms(1,2) by (simp add: length_ss_pad)
  then show ?thesis by simp
qed

theorem non_ascii_label_lost_witness:
  "ss_switch (ss_value (ss_pad 4 [0xC3, 0xA4]) :: u32) [ss_pad 4 [0xC3, 0xA4]] = 0"
  by (rule non_ascii_label_lost [where i = 0]) (simp_all add: word_le_def)

end
