(* ===== verification/Push_Stack.thy ===== *)
theory Push_Stack
  imports Task_Pool
begin

text \<open>
  The stack onto which many threads push without a lock,
  \<open>diff/cpp_play/atomic_compare_exchange.cpp\<close> (\<open>multiThread/MReaderMWriterQueue.cpp\<close> and
  \<open>multiThread/lock_free_stack3.cpp\<close> have the same \<open>push\<close>). Nodes are on the heap; a reference is an
  address or null. A thread allocates a node, links it to the head it has read, and exchanges the head
  with it if the head is still that one; if not, the exchange has linked the node to the new head, and
  the thread tries again. Nothing is ever removed.
\<close>

subsection \<open>The class\<close>

record 'a node =
  m_data :: 'a
  next_node :: "nat option"

datatype 'a pusher = Between | Allocated nat | Linked nat

record 'a push_stack =
  heap :: "nat \<Rightarrow> 'a node option"
  m_head :: "nat option"
  pusher :: "nat \<Rightarrow> 'a pusher"
  todo :: "nat \<Rightarrow> 'a list"
  pushed :: "'a list"

definition stack_start :: "(nat \<Rightarrow> 'a list) \<Rightarrow> 'a push_stack" where
  "stack_start programs = \<lparr>heap = (\<lambda>a. None), m_head = None, pusher = (\<lambda>t. Between), todo = programs, pushed = []\<rparr>"

definition set_pusher :: "nat \<Rightarrow> 'a pusher \<Rightarrow> 'a push_stack \<Rightarrow> 'a push_stack" where
  "set_pusher t p s = s\<lparr>pusher := (pusher s)(t := p)\<rparr>"

text \<open>\<open>new node(data)\<close> at an address that is free.\<close>

definition stack_new :: "nat \<Rightarrow> nat \<Rightarrow> 'a \<Rightarrow> 'a list \<Rightarrow> 'a push_stack \<Rightarrow> 'a push_stack" where
  "stack_new t a x xs s = set_pusher t (Allocated a)
     (s\<lparr>heap := (heap s)(a \<mapsto> \<lparr>m_data = x, next_node = None\<rparr>), todo := (todo s)(t := xs)\<rparr>)"

definition set_next :: "nat \<Rightarrow> nat option \<Rightarrow> 'a push_stack \<Rightarrow> 'a push_stack" where
  "set_next a r s = s\<lparr>heap := (heap s)(a := map_option (next_node_update (\<lambda>_. r)) (heap s a))\<rparr>"

definition stack_link :: "nat \<Rightarrow> nat \<Rightarrow> 'a push_stack \<Rightarrow> 'a push_stack" where
  "stack_link t a s = set_pusher t (Linked a) (set_next a (m_head s) s)"

text \<open>\<open>compare_exchange_weak\<close>, which may fail without a reason.\<close>

definition stack_exchange :: "bool \<Rightarrow> nat \<Rightarrow> nat \<Rightarrow> 'a push_stack \<Rightarrow> 'a push_stack option" where
  "stack_exchange fails t a s =
     (case heap s a of
        None \<Rightarrow> None
      | Some nd \<Rightarrow>
          if m_head s = next_node nd \<and> \<not> fails
          then Some (set_pusher t Between (s\<lparr>m_head := Some a, pushed := pushed s @ [m_data nd]\<rparr>))
          else Some (set_next a (m_head s) s))"

inductive stack_step :: "bool \<Rightarrow> nat \<Rightarrow> 'a push_stack \<Rightarrow> 'a push_stack \<Rightarrow> bool"
  for weak :: bool and n :: nat
where
  allocates: "t < n \<Longrightarrow> pusher s t = Between \<Longrightarrow> todo s t = x # xs \<Longrightarrow> heap s a = None \<Longrightarrow>
    stack_step weak n s (stack_new t a x xs s)"
| links: "t < n \<Longrightarrow> pusher s t = Allocated a \<Longrightarrow> stack_step weak n s (stack_link t a s)"
| exchanges: "t < n \<Longrightarrow> pusher s t = Linked a \<Longrightarrow> fails \<longrightarrow> weak \<Longrightarrow> stack_exchange fails t a s = Some s' \<Longrightarrow>
    stack_step weak n s s'"

text \<open>\<open>print\<close> walks from the head; \<open>None\<close> is the use of a node that is not there, or no end.\<close>

partial_function (option) stack_print :: "(nat \<Rightarrow> 'a node option) \<Rightarrow> nat option \<Rightarrow> 'a list option" where
  "stack_print h pos =
     (case pos of
        None \<Rightarrow> Some []
      | Some a \<Rightarrow>
          (case h a of
             None \<Rightarrow> None
           | Some nd \<Rightarrow> Option.bind (stack_print h (next_node nd)) (\<lambda>xs. Some (m_data nd # xs))))"

text \<open>
  The same loop step by step, while others push: \<open>At pos out\<close> is before the test of \<open>pos\<close> with
  \<open>out\<close> printed, \<open>Shown a out\<close> between the output of a node and \<open>pos = pos->next\<close>. \<open>Crashed\<close> is the
  use of a node that is not there.
\<close>

datatype 'a printer = At "nat option" "'a list" | Shown nat "'a list" | Finished "'a list" | Crashed

definition print_start :: "'a push_stack \<Rightarrow> 'a printer" where
  "print_start s = At (m_head s) []"

fun print_next :: "'a push_stack \<Rightarrow> 'a printer \<Rightarrow> 'a printer" where
  "print_next s (At None out) = Finished out"
| "print_next s (At (Some a) out) =
     (case heap s a of None \<Rightarrow> Crashed | Some nd \<Rightarrow> Shown a (out @ [m_data nd]))"
| "print_next s (Shown a out) =
     (case heap s a of None \<Rightarrow> Crashed | Some nd \<Rightarrow> At (next_node nd) out)"
| "print_next s p = p"

text \<open>
  \<open>printing weak n c k c'\<close>: from \<open>c\<close> the threads that push and the print come to \<open>c'\<close>, with \<open>k\<close>
  steps of the print.
\<close>

inductive printing :: "bool \<Rightarrow> nat \<Rightarrow> 'a push_stack \<times> 'a printer \<Rightarrow> nat \<Rightarrow> 'a push_stack \<times> 'a printer \<Rightarrow> bool"
  for weak :: bool and n :: nat and c :: "'a push_stack \<times> 'a printer"
where
  begins: "printing weak n c 0 c"
| pushes: "printing weak n c k (s, p) \<Longrightarrow> stack_step weak n s s' \<Longrightarrow> printing weak n c k (s', p)"
| prints: "printing weak n c k (s, p) \<Longrightarrow> (\<And>out. p \<noteq> Finished out) \<Longrightarrow>
    printing weak n c (Suc k) (s, print_next s p)"

lemmas [state_simps] = set_pusher_def stack_new_def set_next_def stack_link_def

subsection \<open>The list on the heap\<close>

fun on_heap :: "(nat \<Rightarrow> 'a node option) \<Rightarrow> nat option \<Rightarrow> nat list \<Rightarrow> bool" where
  "on_heap h r [] \<longleftrightarrow> r = None"
| "on_heap h r (a # as) \<longleftrightarrow> r = Some a \<and> (\<exists>nd. h a = Some nd \<and> on_heap h (next_node nd) as)"

lemma on_heap_other: "b \<notin> set as \<Longrightarrow> on_heap (h(b := x)) r as = on_heap h r as"
  by (induction as arbitrary: r) auto

lemma on_heap_print: "on_heap h r as \<Longrightarrow> stack_print h r = Some (map (\<lambda>a. m_data (the (h a))) as)"
proof (induction as arbitrary: r)
  case Nil
  then show ?case by (simp add: stack_print.simps)
next
  case (Cons a as)
  then obtain nd where nd: "r = Some a" "h a = Some nd" "stack_print h (next_node nd) = Some (map (\<lambda>a. m_data (the (h a))) as)"
    by auto
  then show ?case by (subst stack_print.simps) simp
qed

text \<open>
  The nodes under way: each belongs to one thread, is on the heap, and not yet in the list, which has the
  values pushed, the last one first.
\<close>

fun node_of :: "'a pusher \<Rightarrow> nat option" where
  "node_of Between = None"
| "node_of (Allocated a) = Some a"
| "node_of (Linked a) = Some a"

definition stack_list :: "'a push_stack \<Rightarrow> nat list \<Rightarrow> bool" where
  "stack_list s as \<longleftrightarrow> on_heap (heap s) (m_head s) as \<and> map (\<lambda>a. m_data (the (heap s a))) as = rev (pushed s)"

definition stack_ok :: "nat \<Rightarrow> 'a push_stack \<Rightarrow> bool" where
  "stack_ok n s \<longleftrightarrow>
     (\<exists>as. stack_list s as \<and> (\<forall>t<n. \<forall>a. node_of (pusher s t) = Some a \<longrightarrow> a \<notin> set as)) \<and>
     (\<forall>t<n. \<forall>a. node_of (pusher s t) = Some a \<longrightarrow> heap s a \<noteq> None) \<and>
     (\<forall>t<n. \<forall>u<n. \<forall>a. node_of (pusher s t) = Some a \<longrightarrow> node_of (pusher s u) = Some a \<longrightarrow> t = u)"

lemma stack_ok_start: "stack_ok n (stack_start programs)"
  by (auto simp: stack_ok_def stack_list_def stack_start_def intro!: exI [of _ "[]"])

lemma stack_okD:
  assumes "stack_ok n s"
  shows "\<exists>as. stack_list s as \<and> (\<forall>t<n. \<forall>a. node_of (pusher s t) = Some a \<longrightarrow> a \<notin> set as)"
    and "\<And>t a. t < n \<Longrightarrow> node_of (pusher s t) = Some a \<Longrightarrow> heap s a \<noteq> None"
    and "\<And>t u a. t < n \<Longrightarrow> u < n \<Longrightarrow> node_of (pusher s t) = Some a \<Longrightarrow> node_of (pusher s u) = Some a \<Longrightarrow> t = u"
  using assms unfolding stack_ok_def by blast+

lemma on_heap_allocated: "on_heap h r as \<Longrightarrow> a \<in> set as \<Longrightarrow> h a \<noteq> None"
  by (induction as arbitrary: r) auto

lemma map_heap_other: "a \<notin> set as \<Longrightarrow> map (\<lambda>b. m_data (the ((h(a := x)) b))) as = map (\<lambda>b. m_data (the (h b))) as"
  by (rule map_cong [OF refl]) auto

lemma stack_list_new:
  assumes "stack_list s as" "heap s a = None"
  shows "a \<notin> set as" "stack_list (stack_new t a x xs s) as"
proof -
  show a: "a \<notin> set as" using on_heap_allocated [of "heap s" "m_head s" as a] assms by (auto simp: stack_list_def)
  then show "stack_list (stack_new t a x xs s) as"
    using assms(1) by (simp add: stack_list_def state_simps on_heap_other map_heap_other del: fun_upd_apply)
qed

lemma stack_list_next:
  assumes "stack_list s as" "a \<notin> set as"
  shows "stack_list (set_next a r s) as"
  using assms by (simp add: stack_list_def set_next_def on_heap_other map_heap_other del: fun_upd_apply)

lemma stack_list_pusher [simp]: "stack_list (set_pusher t p s) as = stack_list s as"
  by (simp add: stack_list_def set_pusher_def)

lemma next_frame [simp]: "pusher (set_next a r s) = pusher s" "m_head (set_next a r s) = m_head s"
  "pushed (set_next a r s) = pushed s" "todo (set_next a r s) = todo s" "heap (set_next a r s) b = None \<longleftrightarrow> heap s b = None"
  by (simp_all add: set_next_def)

lemma stack_ok_new:
  assumes ok: "stack_ok n s" and t: "t < n" "pusher s t = Between" and a: "heap s a = None"
  shows "stack_ok n (stack_new t a x xs s)"
proof -
  obtain as where as: "stack_list s as" "\<And>u b. u < n \<Longrightarrow> node_of (pusher s u) = Some b \<Longrightarrow> b \<notin> set as"
    using stack_okD(1) [OF ok] by blast
  have other: "b \<noteq> a" if "u < n" "node_of (pusher s u) = Some b" for u b using stack_okD(2) [OF ok that] a by auto
  show ?thesis unfolding stack_ok_def
  proof (intro conjI)
    show "\<exists>as. stack_list (stack_new t a x xs s) as \<and> (\<forall>u<n. \<forall>b. node_of (pusher (stack_new t a x xs s) u) = Some b \<longrightarrow> b \<notin> set as)"
      using stack_list_new [OF as(1) a] as(2) by (intro exI [of _ as]) (auto simp: state_simps split: if_splits)
    show "\<forall>u<n. \<forall>b. node_of (pusher (stack_new t a x xs s) u) = Some b \<longrightarrow> heap (stack_new t a x xs s) b \<noteq> None"
      using stack_okD(2) [OF ok] by (auto simp: state_simps)
    show "\<forall>u<n. \<forall>v<n. \<forall>b. node_of (pusher (stack_new t a x xs s) u) = Some b \<longrightarrow>
        node_of (pusher (stack_new t a x xs s) v) = Some b \<longrightarrow> u = v"
    proof (intro allI impI)
      fix u v b
      assume uv: "u < n" "v < n" "node_of (pusher (stack_new t a x xs s) u) = Some b"
        "node_of (pusher (stack_new t a x xs s) v) = Some b"
      show "u = v"
        using uv other [of u b] other [of v b] stack_okD(3) [OF ok uv(1,2), of b]
        by (cases "u = t"; cases "v = t") (simp_all add: state_simps)
    qed
  qed
qed

lemma stack_ok_next:
  assumes ok: "stack_ok n s" and t: "t < n" "node_of (pusher s t) = Some a"
  shows "stack_ok n (set_next a r s)"
proof -
  obtain as where as: "stack_list s as" "\<And>u b. u < n \<Longrightarrow> node_of (pusher s u) = Some b \<Longrightarrow> b \<notin> set as"
    using stack_okD(1) [OF ok] by blast
  then have "stack_list (set_next a r s) as" using stack_list_next t by blast
  then show ?thesis using as(2) stack_okD(2,3) [OF ok] unfolding stack_ok_def by (intro conjI) (simp_all, blast+)
qed

lemma stack_ok_pusher:
  assumes "stack_ok n s" "node_of p = node_of (pusher s t)"
  shows "stack_ok n (set_pusher t p s)"
proof -
  have "node_of (pusher (set_pusher t p s) u) = node_of (pusher s u)" for u using assms(2) by (simp add: set_pusher_def)
  moreover have "heap (set_pusher t p s) = heap s" by (simp add: set_pusher_def)
  ultimately show ?thesis using assms(1) unfolding stack_ok_def by simp
qed

lemma stack_ok_exchange:
  assumes ok: "stack_ok n s" and t: "t < n" "pusher s t = Linked a" and x: "stack_exchange fails t a s = Some s'"
  shows "stack_ok n s'"
proof -
  obtain nd where nd: "heap s a = Some nd" using x by (auto simp: stack_exchange_def split: option.splits)
  show ?thesis
  proof (cases "m_head s = next_node nd \<and> \<not> fails")
    case False
    with x nd have "s' = set_next a (m_head s) s" by (auto simp: stack_exchange_def)
    then show ?thesis using stack_ok_next [OF ok t(1)] t(2) by simp
  next
    case True
    with x nd have s': "s' = set_pusher t Between (s\<lparr>m_head := Some a, pushed := pushed s @ [m_data nd]\<rparr>)"
      by (auto simp: stack_exchange_def)
    obtain as where as: "stack_list s as" "\<And>u b. u < n \<Longrightarrow> node_of (pusher s u) = Some b \<Longrightarrow> b \<notin> set as"
      using stack_okD(1) [OF ok] by blast
    have "stack_list s' (a # as)" using as(1) nd True by (simp add: s' stack_list_def set_pusher_def)
    moreover have "b \<notin> set (a # as)" if "u < n" "node_of (pusher s' u) = Some b" for u b
      using that as(2) [of u b] stack_okD(3) [OF ok that(1) t(1), of b] t(2) by (auto simp: s' set_pusher_def split: if_splits)
    ultimately have "\<exists>as. stack_list s' as \<and> (\<forall>u<n. \<forall>b. node_of (pusher s' u) = Some b \<longrightarrow> b \<notin> set as)" by blast
    then show ?thesis using stack_okD(2,3) [OF ok] unfolding stack_ok_def
      by (intro conjI) (auto simp: s' set_pusher_def split: if_splits)
  qed
qed

lemma stack_ok_step:
  assumes ok: "stack_ok n s" and step: "stack_step weak n s s'"
  shows "stack_ok n s'"
  using step
proof cases
  case (links t a)
  have "stack_ok n (set_next a (m_head s) s)" by (rule stack_ok_next [OF ok links(2)]) (simp add: links(3))
  then show ?thesis unfolding links(1) stack_link_def by (rule stack_ok_pusher) (simp add: links(3))
next
  case (allocates t x xs a)
  show ?thesis unfolding allocates(1) by (rule stack_ok_new [OF ok allocates(2,3,5)])
next
  case (exchanges t a fails)
  show ?thesis by (rule stack_ok_exchange [OF ok exchanges(1,2,4)])
qed

text \<open>Every value is still to be pushed, in a node under way, or pushed.\<close>

definition in_hand :: "'a push_stack \<Rightarrow> 'a pusher \<Rightarrow> 'a multiset" where
  "in_hand s p = (case node_of p of None \<Rightarrow> {#} | Some a \<Rightarrow> {#m_data (the (heap s a))#})"

definition unpushed :: "nat \<Rightarrow> 'a push_stack \<Rightarrow> 'a multiset" where
  "unpushed n s = (\<Sum>t<n. mset (todo s t) + in_hand s (pusher s t))"

lemma unpushed_at:
  assumes "t < n" "\<And>u. u < n \<Longrightarrow> u \<noteq> t \<Longrightarrow> todo s' u = todo s u \<and> in_hand s' (pusher s' u) = in_hand s (pusher s u)"
  shows "unpushed n s' + (mset (todo s t) + in_hand s (pusher s t)) = unpushed n s + (mset (todo s' t) + in_hand s' (pusher s' t))"
proof -
  let ?f = "\<lambda>s u. mset (todo s u) + in_hand s (pusher s u)"
  have "(\<Sum>u\<in>{..<n} - {t}. ?f s' u) = (\<Sum>u\<in>{..<n} - {t}. ?f s u)" using assms(2) by (intro sum.cong) auto
  then show ?thesis
    using sum.remove [of "{..<n}" t "?f s'"] sum.remove [of "{..<n}" t "?f s"] assms(1)
    by (simp add: unpushed_def ac_simps)
qed

lemma stack_step_values:
  assumes ok: "stack_ok n s" and step: "stack_step weak n s s'"
  shows "mset (pushed s') + unpushed n s' = mset (pushed s) + unpushed n s"
  using step
proof cases
  case (allocates t x xs a)
  have "in_hand s' (pusher s' u) = in_hand s (pusher s u)" if "u < n" "u \<noteq> t" for u
    using stack_okD(2) [OF ok that(1)] that allocates(1,5) by (auto simp: in_hand_def state_simps split: option.splits)
  with allocates have "unpushed n s' + (mset (todo s t) + in_hand s (pusher s t)) =
      unpushed n s + (mset (todo s' t) + in_hand s' (pusher s' t))"
    by (intro unpushed_at) (auto simp: state_simps)
  then show ?thesis using allocates by (simp add: in_hand_def state_simps)
next
  case (links t a)
  have "in_hand s' (pusher s' u) = in_hand s (pusher s u)" if "u < n" for u
    using stack_okD(2) [OF ok that] links(1,2,3) stack_okD(2) [OF ok links(2)]
    by (auto simp: in_hand_def state_simps split: option.splits)
  then show ?thesis using links(1) by (simp add: unpushed_def state_simps)
next
  case (exchanges t a fails)
  obtain nd where nd: "heap s a = Some nd" using exchanges(4) by (auto simp: stack_exchange_def split: option.splits)
  show ?thesis
  proof (cases "m_head s = next_node nd \<and> \<not> fails")
    case False
    with exchanges nd have s': "s' = set_next a (m_head s) s" by (auto simp: stack_exchange_def)
    have "in_hand s' p = in_hand s p" for p
      using nd by (auto simp: s' in_hand_def set_next_def split: option.splits)
    then show ?thesis by (simp add: unpushed_def s')
  next
    case True
    with exchanges nd have s': "s' = set_pusher t Between (s\<lparr>m_head := Some a, pushed := pushed s @ [m_data nd]\<rparr>)"
      by (auto simp: stack_exchange_def)
    have "unpushed n s' + (mset (todo s t) + in_hand s (pusher s t)) =
        unpushed n s + (mset (todo s' t) + in_hand s' (pusher s' t))"
      using exchanges(1) by (intro unpushed_at) (auto simp: s' set_pusher_def in_hand_def split: option.split)
    then show ?thesis using exchanges(2) nd by (simp add: s' in_hand_def set_pusher_def)
  qed
qed

subsection \<open>Pushing ends\<close>

text \<open>A push by one thread can make those of all others fail, but only once each.\<close>

definition push_weight :: "nat \<Rightarrow> 'a push_stack \<Rightarrow> 'a pusher \<Rightarrow> nat" where
  "push_weight n s p =
     (case p of
        Between \<Rightarrow> 0
      | Allocated a \<Rightarrow> n + 2
      | Linked a \<Rightarrow> if map_option next_node (heap s a) = Some (m_head s) then n + 1 else n + 2)"

definition stack_work :: "nat \<Rightarrow> 'a push_stack \<Rightarrow> nat" where
  "stack_work n s = (\<Sum>t<n. (n + 3) * length (todo s t) + push_weight n s (pusher s t))"

definition stack_closed :: "nat \<Rightarrow> 'a push_stack \<Rightarrow> bool" where
  "stack_closed n s \<longleftrightarrow> (\<forall>t<n. pusher s t = Between \<and> todo s t = [])"

abbreviation stack_inv :: "nat \<Rightarrow> 'a push_stack \<Rightarrow> bool" where
  "stack_inv n s \<equiv> stack_ok n s \<and> finite (dom (heap s))"

lemma weight_other:
  assumes "stack_ok n s" "t < n" "u < n" "u \<noteq> t" "node_of (pusher s t) = Some a"
  shows "push_weight n (set_next a r s) (pusher s u) = push_weight n s (pusher s u)"
  using stack_okD(3) [OF assms(1,2,3), of a] assms(4,5)
  by (auto simp: push_weight_def set_next_def split: pusher.split)

lemma weight_bounds: "push_weight n s p \<le> n + 2" "push_weight n s (Linked a) \<ge> n + 1" "push_weight n s Between = 0"
  by (auto simp: push_weight_def split: pusher.split)

lemma weight_pusher: "push_weight n (set_pusher t p s) = push_weight n s"
  by (intro ext) (simp add: push_weight_def set_pusher_def split: pusher.split)

lemma weight_fresh: "heap s a \<noteq> None \<Longrightarrow> push_weight n (set_next a (m_head s) s) (Linked a) = n + 1"
  by (auto simp: push_weight_def set_next_def)

lemma stack_step_work:
  assumes ok: "stack_ok n s" and step: "stack_step False n s s'"
  shows "stack_work n s' < stack_work n s"
  using step
proof cases
  case (allocates t x xs a)
  have "push_weight n s' (pusher s' u) = push_weight n s (pusher s u)" if "u < n" "u \<noteq> t" for u
    using stack_okD(2) [OF ok that(1), of a] that(2) allocates(1,5)
    by (auto simp: push_weight_def state_simps split: pusher.split)
  then show ?thesis unfolding stack_work_def using allocates
    by (intro sum_shift [where t = t and c = 0]) (simp_all add: state_simps push_weight_def)
next
  case (links t a)
  have "push_weight n s' (pusher s' u) = push_weight n s (pusher s u)" if "u < n" "u \<noteq> t" for u
    using weight_other [OF ok links(2) that(1,2), of a "m_head s"] links(1,3) that
    by (simp add: stack_link_def weight_pusher) (simp add: set_pusher_def)
  moreover have "push_weight n s' (pusher s' t) = n + 1"
    using weight_fresh [of s a n] stack_okD(2) [OF ok links(2), of a] links(1,3)
    by (simp add: stack_link_def weight_pusher) (simp add: set_pusher_def)
  ultimately show ?thesis unfolding stack_work_def using links
    by (intro sum_shift [where t = t and c = 0]) (simp_all add: state_simps push_weight_def)
next
  case (exchanges t a fails)
  obtain nd where nd: "heap s a = Some nd" using exchanges(4) by (auto simp: stack_exchange_def split: option.splits)
  show ?thesis
  proof (cases "m_head s = next_node nd")
    case False
    with exchanges nd have s': "s' = set_next a (m_head s) s" by (auto simp: stack_exchange_def)
    have "push_weight n s (Linked a) = n + 2" using nd False by (simp add: push_weight_def)
    with weight_fresh [of s a n] nd weight_other [OF ok exchanges(1), of _ a "m_head s"] exchanges(2)
    show ?thesis unfolding stack_work_def
      by (intro sum_shift [where t = t and c = 0]) (simp_all add: s' exchanges(1))
  next
    case True
    with exchanges nd have s': "s' = set_pusher t Between (s\<lparr>m_head := Some a, pushed := pushed s @ [m_data nd]\<rparr>)"
      by (auto simp: stack_exchange_def)
    have p: "pusher s' u = pusher s u" "todo s' u = todo s u" if "u \<noteq> t" for u using that by (simp_all add: s' set_pusher_def)
    have w: "push_weight n s' p \<le> push_weight n s p + 1" for p
      by (cases p) (auto simp: push_weight_def)
    have t: "push_weight n s' (pusher s' t) = 0" "todo s' t = todo s t" by (simp_all add: s' set_pusher_def push_weight_def)
    show ?thesis unfolding stack_work_def
    proof (rule sum_shift [where t = t and c = 1])
      show "(n + 3) * length (todo s' t) + push_weight n s' (pusher s' t) + 1 * n
          < (n + 3) * length (todo s t) + push_weight n s (pusher s t)"
        using t weight_bounds(2) [of n s a] exchanges(2) by simp
    qed (use exchanges(1) p w in simp_all)
  qed
qed

lemma stack_inv_step:
  assumes "stack_inv n s" "stack_step weak n s s'"
  shows "stack_inv n s'"
proof
  show "stack_ok n s'" using stack_ok_step assms by blast
  show "finite (dom (heap s'))" using assms(2)
  proof cases
    case (exchanges t a fails)
    then have "dom (heap s') \<subseteq> dom (heap s)"
      by (auto simp: stack_exchange_def state_simps split: option.splits if_splits)
    with assms(1) show ?thesis using finite_subset by blast
  next
    case (links t a)
    then have "dom (heap s') \<subseteq> dom (heap s)" by (auto simp: state_simps split: if_splits)
    with assms(1) show ?thesis using finite_subset by blast
  qed (use assms(1) in \<open>auto simp: state_simps\<close>)
qed

lemma stack_not_stuck:
  assumes ok: "stack_inv n s" and "\<not> stack_closed n s"
  shows "\<exists>s'. stack_step False n s s'"
proof -
  obtain t where t: "t < n" "pusher s t = Between \<longrightarrow> todo s t \<noteq> []" using assms(2) by (auto simp: stack_closed_def)
  show ?thesis
  proof (cases "pusher s t")
    case Between
    then obtain x xs where x: "todo s t = x # xs" using t(2) by (cases "todo s t") auto
    obtain a where "a \<notin> dom (heap s)" using ok infinite_UNIV_nat by (metis ex_new_if_finite)
    then show ?thesis using stack_step.allocates [OF t(1) Between x] by blast
  next
    case (Allocated a)
    then show ?thesis using stack_step.links [OF t(1)] by blast
  next
    case (Linked a)
    then obtain nd where "heap s a = Some nd" using stack_okD(2) [OF _ t(1), of s a] ok by auto
    then obtain s' where "stack_exchange False t a s = Some s'" by (cases "m_head s = next_node nd") (auto simp: stack_exchange_def)
    then show ?thesis using stack_step.exchanges [OF t(1) Linked, of False] by blast
  qed
qed

interpretation stack: closing_machine "stack_step False n" "stack_inv n" "\<lambda>s. True" "stack_closed n" "stack_work n"
  by unfold_locales (use stack_inv_step stack_step_work stack_not_stuck in blast)+

lemma stack_reachable:
  assumes "(stack_step weak n)\<^sup>*\<^sup>* (stack_start programs) s"
  shows "stack_inv n s \<and> mset (pushed s) + unpushed n s = (\<Sum>t<n. mset (programs t))"
  using assms
proof (induction rule: rtranclp_induct)
  case base
  have "finite (dom (heap (stack_start programs)))" by (simp add: stack_start_def)
  then show ?case using stack_ok_start by (auto simp: unpushed_def in_hand_def) (simp add: stack_start_def)
next
  case (step s s')
  then show ?case using stack_inv_step stack_step_values by metis
qed

lemma stack_weak_mono: "stack_step False n s s' \<Longrightarrow> stack_step True n s s'"
  by (induction rule: stack_step.induct) (auto intro: stack_step.intros)

lemma stack_all_pushed:
  assumes "(stack_step True n)\<^sup>*\<^sup>* (stack_start programs) s" "(stack_step False n ^^ k) s s'"
    and "\<forall>u. \<not> stack_step False n s' u"
  shows "mset (pushed s') = (\<Sum>t<n. mset (programs t))"
proof -
  have "stack_inv n s" using stack_reachable [OF assms(1)] by blast
  then have "stack_closed n s'" using stack.stuck_closed [OF assms(2)] assms(3) by blast
  then have "unpushed n s' = {#}" by (simp add: stack_closed_def unpushed_def in_hand_def)
  moreover have all: "(stack_step True n)\<^sup>*\<^sup>* s s'"
    using relpowp_imp_rtranclp [OF assms(2)]
    by (rule rtranclp_mono [THEN predicate2D, rotated]) (auto intro: stack_weak_mono)
  ultimately show ?thesis using stack_reachable [OF rtranclp_trans [OF assms(1) all]] by simp
qed

subsection \<open>Printing while others push\<close>

lemma on_heap_unique: "on_heap h r as \<Longrightarrow> on_heap h r bs \<Longrightarrow> as = bs"
  by (induction as arbitrary: r bs) (case_tac bs; auto)+

lemma on_heap_same: "\<forall>a\<in>set as. h' a = h a \<Longrightarrow> on_heap h r as \<Longrightarrow> on_heap h' r as"
  by (induction as arbitrary: r) auto

text \<open>A node of the list is never written again, and stays in the list.\<close>

lemma listed_kept:
  assumes ok: "stack_ok n s" and step: "stack_step weak n s s'" and as: "stack_list s as"
  shows "(\<forall>a\<in>set as. heap s' a = heap s a) \<and> (\<exists>bs. stack_list s' bs \<and> set as \<subseteq> set bs)"
proof -
  have away: "a \<notin> set as" if "t < n" "node_of (pusher s t) = Some a" for t a
    using stack_okD(1) [OF ok] as that on_heap_unique unfolding stack_list_def by blast
  from step show ?thesis
  proof cases
    case (allocates t x xs a)
    then show ?thesis using stack_list_new [OF as allocates(5)]
      by (auto simp: state_simps intro!: exI [of _ as])
  next
    case (links t a)
    then have a: "a \<notin> set as" using away [of t a] by simp
    then have "stack_list s' as" using stack_list_next [OF as a] links(1) by (simp add: stack_link_def)
    then show ?thesis using a links(1) by (auto simp: state_simps intro!: exI [of _ as])
  next
    case (exchanges t a fails)
    then have a: "a \<notin> set as" using away [of t a] by simp
    obtain nd where nd: "heap s a = Some nd" using exchanges(4) by (auto simp: stack_exchange_def split: option.splits)
    show ?thesis
    proof (cases "m_head s = next_node nd \<and> \<not> fails")
      case False
      with exchanges nd have "s' = set_next a (m_head s) s" by (auto simp: stack_exchange_def)
      then show ?thesis using stack_list_next [OF as a] a by (auto simp: set_next_def intro!: exI [of _ as])
    next
      case True
      with exchanges nd have s': "s' = set_pusher t Between (s\<lparr>m_head := Some a, pushed := pushed s @ [m_data nd]\<rparr>)"
        by (auto simp: stack_exchange_def)
      then have "stack_list s' (a # as)" using as nd True by (simp add: stack_list_def set_pusher_def)
      then show ?thesis by (auto simp: s' set_pusher_def intro!: exI [of _ "a # as"])
    qed
  qed
qed

text \<open>What the print still has before it: nodes of the list, with the rest of \<open>vs\<close>.\<close>

definition shows_rest :: "'a push_stack \<Rightarrow> nat option \<Rightarrow> 'a list \<Rightarrow> bool" where
  "shows_rest s pos vs \<longleftrightarrow>
     (\<exists>cs as. on_heap (heap s) pos cs \<and> stack_list s as \<and> set cs \<subseteq> set as \<and>
        map (\<lambda>a. m_data (the (heap s a))) cs = vs)"

fun printer_ok :: "'a list \<Rightarrow> 'a push_stack \<Rightarrow> nat \<Rightarrow> 'a printer \<Rightarrow> bool" where
  "printer_ok vs s k (At pos out) \<longleftrightarrow>
     (\<exists>ws. vs = out @ ws \<and> shows_rest s pos ws) \<and> k = 2 * length out"
| "printer_ok vs s k (Shown a out) \<longleftrightarrow>
     (\<exists>w us ws. out = us @ [w] \<and> vs = out @ ws \<and> shows_rest s (Some a) (w # ws)) \<and> Suc k = 2 * length out"
| "printer_ok vs s k (Finished out) \<longleftrightarrow> out = vs \<and> k = 2 * length vs + 1"
| "printer_ok vs s k Crashed \<longleftrightarrow> False"

lemma shows_rest_step:
  assumes "stack_ok n s" "stack_step weak n s s'" "shows_rest s pos vs"
  shows "shows_rest s' pos vs"
proof -
  obtain cs as where cs: "on_heap (heap s) pos cs" "stack_list s as" "set cs \<subseteq> set as"
    "map (\<lambda>a. m_data (the (heap s a))) cs = vs"
    using assms(3) by (auto simp: shows_rest_def)
  obtain bs where bs: "stack_list s' bs" "set as \<subseteq> set bs" and h: "\<And>a. a \<in> set as \<Longrightarrow> heap s' a = heap s a"
    using listed_kept [OF assms(1,2) cs(2)] by blast
  have "on_heap (heap s') pos cs" using on_heap_same [OF _ cs(1)] h cs(3) by blast
  moreover have "map (\<lambda>a. m_data (the (heap s' a))) cs = vs"
    unfolding cs(4) [symmetric] using h cs(3) by (intro map_cong) auto
  ultimately show ?thesis using bs cs(3) unfolding shows_rest_def by blast
qed

lemma printer_ok_pushes:
  assumes "stack_ok n s" "stack_step weak n s s'" "printer_ok vs s k p"
  shows "printer_ok vs s' k p"
  using assms(3) shows_rest_step [OF assms(1,2)] by (cases p) auto

lemma shows_rest_cases:
  "shows_rest s None vs \<Longrightarrow> vs = []"
  "shows_rest s (Some a) vs \<Longrightarrow>
    \<exists>nd ws. heap s a = Some nd \<and> vs = m_data nd # ws \<and> shows_rest s (next_node nd) ws"
proof -
  show "vs = []" if "shows_rest s None vs"
    using that by (auto simp: shows_rest_def elim: on_heap.elims)
  show "\<exists>nd ws. heap s a = Some nd \<and> vs = m_data nd # ws \<and> shows_rest s (next_node nd) ws"
    if r: "shows_rest s (Some a) vs"
  proof -
    obtain cs as where cs: "on_heap (heap s) (Some a) cs" "stack_list s as" "set cs \<subseteq> set as"
      "map (\<lambda>a. m_data (the (heap s a))) cs = vs"
      using r by (auto simp: shows_rest_def)
    then obtain ds nd where "cs = a # ds" "heap s a = Some nd" "on_heap (heap s) (next_node nd) ds"
      by (cases cs) auto
    with cs show ?thesis unfolding shows_rest_def by auto
  qed
qed

lemma printer_ok_next:
  assumes "printer_ok vs s k p" "\<And>out. p \<noteq> Finished out"
  shows "printer_ok vs s (Suc k) (print_next s p)"
proof (cases p)
  case (At pos out)
  then show ?thesis using assms(1) shows_rest_cases(1) [of s] shows_rest_cases(2) [of s]
    by (cases pos) fastforce+
next
  case (Shown a out)
  then show ?thesis using assms(1) shows_rest_cases(2) [of s a] by fastforce
qed (use assms in auto)

lemma printing_ok:
  assumes "printing weak n (s, print_start s) k c" "stack_ok n s"
  shows "stack_ok n (fst c) \<and> printer_ok (rev (pushed s)) (fst c) k (snd c)"
  using assms(1)
proof (induction rule: printing.induct)
  case begins
  obtain as where "stack_list s as" using stack_okD(1) [OF assms(2)] by blast
  then have "shows_rest s (m_head s) (rev (pushed s))" by (auto simp: shows_rest_def stack_list_def)
  then show ?case using assms(2) by (simp add: print_start_def)
next
  case (pushes k s1 p1 s2)
  then show ?case using stack_ok_step printer_ok_pushes by auto
next
  case (prints k s1 p1)
  then show ?case using printer_ok_next [of "rev (pushed s)" s1 k p1] by simp
qed

lemma printer_ok_bound:
  "printer_ok vs s k (At pos out) \<Longrightarrow> k \<le> 2 * length vs"
  "printer_ok vs s k (Shown a out) \<Longrightarrow> k \<le> 2 * length vs"
proof -
  show "k \<le> 2 * length vs" if at: "printer_ok vs s k (At pos out)"
  proof -
    obtain ws where "vs = out @ ws" "k = 2 * length out" using at by auto
    then show ?thesis by simp
  qed
  show "k \<le> 2 * length vs" if at: "printer_ok vs s k (Shown a out)"
  proof -
    obtain ws where "vs = out @ ws" "Suc k = 2 * length out" using at by auto
    then show ?thesis by simp
  qed
qed

lemma printer_ok_steps:
  assumes ok: "printer_ok vs s k p"
  shows "p \<noteq> Crashed \<and> k \<le> 2 * length vs + 1 \<and>
     (k = 2 * length vs + 1 \<longleftrightarrow> p = Finished vs) \<and> (\<forall>out. p = Finished out \<longrightarrow> out = vs)"
proof (cases p)
  case (At pos out)
  then show ?thesis using printer_ok_bound(1) [of vs s k pos out] ok by simp
next
  case (Shown a out)
  then show ?thesis using printer_ok_bound(2) [of vs s k a out] ok by simp
next
  case (Finished out)
  then show ?thesis using ok by simp
next
  case Crashed
  then show ?thesis using ok by simp
qed

text \<open>
  Property C35: a print of the stack while any number of threads push, step by step interleaved
  with theirs, shows exactly the values whose exchange had succeeded when the print read the head,
  the last one first: it uses no node that is not there and takes two steps for each of them and
  one for the end. (Run without the others, it gives the same.) While exchanges fail only for a
  reason, every execution is over within a bound, and then each value of each thread is in the
  stack exactly as often as it was pushed.
\<close>

theorem stack_keeps_everything:
  assumes "(stack_step True n)\<^sup>*\<^sup>* (stack_start programs) s"
  shows "stack_print (heap s) (m_head s) = Some (rev (pushed s)) \<and>
    (\<forall>k s' p. printing True n (s, print_start s) k (s', p) \<longrightarrow>
      p \<noteq> Crashed \<and> k \<le> 2 * length (pushed s) + 1 \<and>
      (k = 2 * length (pushed s) + 1 \<longleftrightarrow> p = Finished (rev (pushed s))) \<and>
      (\<forall>out. p = Finished out \<longrightarrow> out = rev (pushed s))) \<and>
    (\<forall>k s'. (stack_step False n ^^ k) s s' \<longrightarrow> k \<le> stack_work n s \<and>
      ((\<forall>u. \<not> stack_step False n s' u) \<longrightarrow> mset (pushed s') = (\<Sum>t<n. mset (programs t))))"
proof (intro conjI)
  have inv: "stack_inv n s" using stack_reachable [OF assms] by blast
  then obtain as where "stack_list s as" using stack_okD(1) by blast
  then show "stack_print (heap s) (m_head s) = Some (rev (pushed s))" 
    using on_heap_print [of "heap s" "m_head s" as] by (simp add: stack_list_def)
  show "\<forall>k s' p. printing True n (s, print_start s) k (s', p) \<longrightarrow>
      p \<noteq> Crashed \<and> k \<le> 2 * length (pushed s) + 1 \<and>
      (k = 2 * length (pushed s) + 1 \<longleftrightarrow> p = Finished (rev (pushed s))) \<and>
      (\<forall>out. p = Finished out \<longrightarrow> out = rev (pushed s))"
  proof (intro allI impI)
    fix k s' p assume "printing True n (s, print_start s) k (s', p)"
    from printing_ok [OF this] inv have "printer_ok (rev (pushed s)) s' k p" by simp
    then show "p \<noteq> Crashed \<and> k \<le> 2 * length (pushed s) + 1 \<and>
        (k = 2 * length (pushed s) + 1 \<longleftrightarrow> p = Finished (rev (pushed s))) \<and>
        (\<forall>out. p = Finished out \<longrightarrow> out = rev (pushed s))"
      using printer_ok_steps [of "rev (pushed s)" s' k p] by simp
  qed
  show "\<forall>k s'. (stack_step False n ^^ k) s s' \<longrightarrow> k \<le> stack_work n s \<and>
      ((\<forall>u. \<not> stack_step False n s' u) \<longrightarrow> mset (pushed s') = (\<Sum>t<n. mset (programs t)))"
  proof (intro allI impI)
    fix k s' assume run: "(stack_step False n ^^ k) s s'"
    show "k \<le> stack_work n s \<and>
      ((\<forall>u. \<not> stack_step False n s' u) \<longrightarrow> mset (pushed s') = (\<Sum>t<n. mset (programs t)))"
      using stack.closing_bound [OF run inv] stack_all_pushed [OF assms run] by simp
  qed
qed

text \<open>
  Two threads have pushed 3 and 1; a print begins, shows the 1, thread 0 pushes 2 in the middle,
  and the print ends without it.
\<close>

definition two_pushers :: "nat \<Rightarrow> nat list" where
  "two_pushers t = (if t = 0 then [1, 2] else if t = 1 then [3] else [])"

fun push_whole :: "nat \<Rightarrow> nat \<Rightarrow> nat push_stack \<Rightarrow> nat push_stack" where
  "push_whole t a s = (case todo s t of [] \<Rightarrow> s | x # xs \<Rightarrow>
     (case stack_exchange False t a (stack_link t a (stack_new t a x xs s)) of None \<Rightarrow> s | Some s' \<Rightarrow> s'))"

lemma push_whole_steps:
  assumes "t < n" "pusher s t = Between" "heap s a = None"
  shows "(stack_step True n)\<^sup>*\<^sup>* s (push_whole t a s)"
proof (cases "todo s t")
  case (Cons x xs)
  let ?s1 = "stack_new t a x xs s" and ?s2 = "stack_link t a (stack_new t a x xs s)"
  have "stack_step True n s ?s1" by (rule stack_step.allocates [OF assms(1,2) Cons assms(3)])
  moreover have "stack_step True n ?s1 ?s2" using assms(1) by (intro stack_step.links) (simp_all add: state_simps)
  moreover have "stack_step True n ?s2 (push_whole t a s)"
  proof (rule stack_step.exchanges [OF assms(1), of _ a False])
    show "pusher ?s2 t = Linked a" by (simp add: state_simps)
    show "stack_exchange False t a ?s2 = Some (push_whole t a s)"
      using Cons by (simp add: state_simps stack_exchange_def)
  qed simp
  ultimately show ?thesis
    by (rule rtranclp.rtrancl_into_rtrancl [OF rtranclp.rtrancl_into_rtrancl [OF r_into_rtranclp]])
qed simp

lemma printing_pushes:
  assumes "(stack_step weak n)\<^sup>*\<^sup>* s s'" "printing weak n c k (s, p)"
  shows "printing weak n c k (s', p)"
  using assms by (induction rule: rtranclp_induct) (auto intro: printing.pushes)

definition stack_two :: "nat push_stack" where
  "stack_two = push_whole 0 8 (push_whole 1 5 (stack_start two_pushers))"

lemma stack_two_steps: "(stack_step True 2)\<^sup>*\<^sup>* (stack_start two_pushers) stack_two"
proof -
  have "(stack_step True 2)\<^sup>*\<^sup>* (stack_start two_pushers) (push_whole 1 5 (stack_start two_pushers))"
    by (rule push_whole_steps) (simp_all add: stack_start_def)
  moreover have "(stack_step True 2)\<^sup>*\<^sup>* (push_whole 1 5 (stack_start two_pushers)) stack_two"
    unfolding stack_two_def
    by (rule push_whole_steps) (simp_all add: stack_start_def two_pushers_def state_simps stack_exchange_def)
  ultimately show ?thesis by simp
qed

lemma stack_two_facts: "pushed stack_two = [3, 1]" "pusher stack_two 0 = Between" "heap stack_two 6 = None"
  "print_next stack_two (print_start stack_two) = Shown 8 [1]"
  by (simp_all add: stack_two_def stack_start_def two_pushers_def state_simps stack_exchange_def print_start_def)

theorem stack_keeps_everything_witness:
  "\<exists>s' p. printing True 2 (stack_two, print_start stack_two) 5 (s', p) \<and>
     p = Finished [1, 3] \<and> pushed s' = [3, 1, 2]"
proof -
  let ?c = "(stack_two, print_start stack_two)" and ?s = "push_whole 0 6 stack_two"
  have "printing True 2 ?c 1 (stack_two, Shown 8 [1])"
    using printing.prints [OF printing.begins, of "print_start stack_two" True 2 stack_two] stack_two_facts(4)
    by (simp add: print_start_def)
  then have a: "printing True 2 ?c 1 (?s, Shown 8 [1])"
    by (rule printing_pushes [rotated]) (rule push_whole_steps; simp add: stack_two_facts)
  have n: "print_next ?s (Shown 8 [1]) = At (Some 5) [1]" "print_next ?s (At (Some 5) [1]) = Shown 5 [1, 3]"
    "print_next ?s (Shown 5 [1, 3]) = At None [1, 3]"
    by (simp_all add: stack_two_def stack_start_def two_pushers_def state_simps stack_exchange_def)
  have "printing True 2 ?c 5 (?s, Finished [1, 3])"
    using printing.prints [OF printing.prints [OF printing.prints [OF printing.prints [OF a]]]] unfolding n
    by (simp add: eval_nat_numeral)
  moreover from this have "Finished [1, 3] = Finished (rev (pushed stack_two))"
    using stack_keeps_everything [OF stack_two_steps] stack_two_facts(1) by (metis printer.inject(3))
  moreover have "pushed ?s = [3, 1, 2]"
    by (simp add: stack_two_def stack_start_def two_pushers_def state_simps stack_exchange_def)
  ultimately show ?thesis by blast
qed

end
