(* ===== verification/Mpsc_Queue.thy ===== *)
theory Mpsc_Queue
  imports Prelude
begin

text \<open>
  The queue of many producers and one consumer that is a vector of queues, one for each producer,
  \<open>multiThread/OneReaderMWriter2.cpp\<close> (the same class is in \<open>multiThread/OneReaderOneWriterQueue2.cpp\<close>).
  The consumer collects what is in the queues and hands it to a callback; \<open>stop\<close> is to end all threads once the
  producers have reported that they are done. The queue of one producer is Boost's \<open>spsc_queue\<close>: the relation between
  its states that a \<open>push\<close> of a range and a \<open>pop\<close> into an array have. Every access to the atomic variables
  is a step of its own.
\<close>

subsection \<open>The queue of a producer\<close>

record ('q, 'a) spsc =
  spsc_empty :: 'q
  spsc_pushes :: "'q \<Rightarrow> 'a list \<Rightarrow> nat \<Rightarrow> 'q \<Rightarrow> bool"
  spsc_pops :: "'q \<Rightarrow> nat \<Rightarrow> 'a list \<Rightarrow> 'q \<Rightarrow> bool"

text \<open>
  Its documentation: a queue has contents, to which a \<open>push\<close> adds a prefix of the range and from which a
  \<open>pop\<close> takes as many elements as there are, and as fit.
\<close>

definition spsc_laws :: "('q, 'a) spsc \<Rightarrow> ('q \<Rightarrow> 'a list) \<Rightarrow> bool" where
  "spsc_laws Q contents \<longleftrightarrow>
     contents (spsc_empty Q) = [] \<and>
     (\<forall>q xs k q'. spsc_pushes Q q xs k q' \<longrightarrow> k \<le> length xs \<and> contents q' = contents q @ take k xs) \<and>
     (\<forall>q n ys q'. spsc_pops Q q n ys q' \<longrightarrow> contents q = ys @ contents q' \<and> length ys = min n (length (contents q)))"

definition list_spsc :: "nat \<Rightarrow> ('a list, 'a) spsc" where
  "list_spsc capacity =
     \<lparr>spsc_empty = [],
      spsc_pushes = (\<lambda>q xs k q'. k = min (length xs) (capacity - length q) \<and> q' = q @ take k xs),
      spsc_pops = (\<lambda>q n ys q'. ys = take n q \<and> q' = drop n q)\<rparr>"

lemma spsc_lawsD:
  assumes "spsc_laws Q contents"
  shows "contents (spsc_empty Q) = []"
    and "spsc_pushes Q q xs k q' \<Longrightarrow> contents q' = contents q @ take k xs"
    and "spsc_pops Q q m ys q' \<Longrightarrow> contents q = ys @ contents q'"
  using assms unfolding spsc_laws_def by blast+

lemma list_spsc_laws: "spsc_laws (list_spsc capacity) (\<lambda>q. q)"
  by (auto simp: spsc_laws_def list_spsc_def)

subsection \<open>The class and its threads\<close>

text \<open>
  A producer has ranges to produce, one call of \<open>produce\<close> for each, and stops when a call returns true. In a call it is before the
  condition of the loop, the push, the test after the loop, the increment, or the return.
\<close>

datatype 'a producer = Calls "'a list list" | Tests "'a list" "'a list list" | Pushes "'a list" "'a list list"
  | Checks "'a list list" | Counts "'a list list" | Returns "'a list list" | Stopped

text \<open>The consumer is at a queue, before the callback, at the two parts of the condition, or has returned.\<close>

datatype consumer = At_queue nat | Delivers | Checks_stop | Checks_done | Consumer_returned

record ('q, 'a) mpsc =
  producerQueues :: "nat \<Rightarrow> 'q"
  consumerBuf :: "'a list"
  consumerBufOffset :: nat
  stop_set :: bool
  donePorodicers :: nat
  producer :: "nat \<Rightarrow> 'a producer"
  consumer :: consumer
  handed :: "'a list list"
  accepted :: "nat \<Rightarrow> 'a list"

definition mpsc_start :: "('q, 'a) spsc \<Rightarrow> (nat \<Rightarrow> 'a list list) \<Rightarrow> ('q, 'a) mpsc" where
  "mpsc_start Q programs =
     \<lparr>producerQueues = (\<lambda>i. spsc_empty Q), consumerBuf = [], consumerBufOffset = 0, stop_set = False, donePorodicers = 0,
      producer = (\<lambda>i. Calls (programs i)), consumer = At_queue 0, handed = [], accepted = (\<lambda>i. [])\<rparr>"

definition set_producer :: "nat \<Rightarrow> 'a producer \<Rightarrow> ('q, 'a) mpsc \<Rightarrow> ('q, 'a) mpsc" where
  "set_producer i p s = s\<lparr>producer := (producer s)(i := p)\<rparr>"

text \<open>The steps of \<open>produce\<close> that read or write no queue.\<close>

fun produce_step :: "nat \<Rightarrow> ('q, 'a) mpsc \<Rightarrow> ('q, 'a) mpsc option" where
  "produce_step i s =
     (case producer s i of
        Calls [] \<Rightarrow> None
      | Calls (b # bs) \<Rightarrow> Some (set_producer i (Tests b bs) s)
      | Tests b bs \<Rightarrow> Some (set_producer i (if stop_set s \<or> b = [] then Checks bs else Pushes b bs) s)
      | Pushes b bs \<Rightarrow> None
      | Checks bs \<Rightarrow> Some (set_producer i (if stop_set s then Counts bs else Returns bs) s)
      | Counts bs \<Rightarrow> Some (set_producer i (Returns bs) (s\<lparr>donePorodicers := Suc (donePorodicers s)\<rparr>))
      | Returns bs \<Rightarrow> Some (set_producer i (if stop_set s then Stopped else Calls bs) s)
      | Stopped \<Rightarrow> None)"

declare produce_step.simps [simp del]

definition produce_push :: "nat \<Rightarrow> 'a list \<Rightarrow> 'a list list \<Rightarrow> nat \<Rightarrow> 'q \<Rightarrow> ('q, 'a) mpsc \<Rightarrow> ('q, 'a) mpsc" where
  "produce_push i b bs k q s = set_producer i (Tests (drop k b) bs)
     (s\<lparr>producerQueues := (producerQueues s)(i := q), accepted := (accepted s)(i := accepted s i @ take k b)\<rparr>)"

text \<open>
  The elements popped are inserted at the offset; no element means the next queue. An offset beyond
  the end of the vector is undefined behaviour: \<open>None\<close>.
\<close>

definition consume_queue :: "nat \<Rightarrow> 'a list \<Rightarrow> 'q \<Rightarrow> ('q, 'a) mpsc \<Rightarrow> ('q, 'a) mpsc option" where
  "consume_queue i ys q s =
     (if ys = [] then Some (s\<lparr>producerQueues := (producerQueues s)(i := q), consumer := At_queue (Suc i)\<rparr>)
      else if length (consumerBuf s) < consumerBufOffset s then None
      else Some (s\<lparr>producerQueues := (producerQueues s)(i := q),
             consumerBuf := take (consumerBufOffset s) (consumerBuf s) @ ys @ drop (consumerBufOffset s) (consumerBuf s),
             consumerBufOffset := consumerBufOffset s + length ys\<rparr>))"

text \<open>The callback takes the buffer by value; a vector that was moved from is empty.\<close>

definition consume_deliver :: "('q, 'a) mpsc \<Rightarrow> ('q, 'a) mpsc" where
  "consume_deliver s = s\<lparr>handed := handed s @ [consumerBuf s], consumerBuf := [], consumerBufOffset := 0, consumer := Checks_stop\<rparr>"

definition consume_check :: "nat \<Rightarrow> ('q, 'a) mpsc \<Rightarrow> ('q, 'a) mpsc" where
  "consume_check n s =
     (if consumer s = Checks_stop then s\<lparr>consumer := if stop_set s then Checks_done else At_queue 0\<rparr>
      else s\<lparr>consumer := if donePorodicers s = n then Consumer_returned else At_queue 0\<rparr>)"

definition mpsc_stop :: "('q, 'a) mpsc \<Rightarrow> ('q, 'a) mpsc" where
  "mpsc_stop s = s\<lparr>stop_set := True\<rparr>"

inductive mpsc_step :: "('q, 'a) spsc \<Rightarrow> nat \<Rightarrow> nat \<Rightarrow> ('q, 'a) mpsc \<Rightarrow> ('q, 'a) mpsc \<Rightarrow> bool"
  for Q :: "('q, 'a) spsc" and capacity n :: nat
where
  produces: "i < n \<Longrightarrow> produce_step i s = Some s' \<Longrightarrow> mpsc_step Q capacity n s s'"
| pushes: "i < n \<Longrightarrow> producer s i = Pushes b bs \<Longrightarrow> spsc_pushes Q (producerQueues s i) b k q \<Longrightarrow>
    mpsc_step Q capacity n s (produce_push i b bs k q s)"
| consumes: "consumer s = At_queue i \<Longrightarrow> i < n \<Longrightarrow> spsc_pops Q (producerQueues s i) capacity ys q \<Longrightarrow>
    consume_queue i ys q s = Some s' \<Longrightarrow> mpsc_step Q capacity n s s'"
| delivers: "consumer s = At_queue n \<Longrightarrow> mpsc_step Q capacity n s (consume_deliver s)"
| checks: "consumer s \<in> {Checks_stop, Checks_done} \<Longrightarrow> mpsc_step Q capacity n s (consume_check n s)"
| stops: "mpsc_step Q capacity n s (mpsc_stop s)"

lemmas [state_simps] = set_producer_def produce_push_def consume_queue_def consume_deliver_def consume_check_def mpsc_stop_def

subsection \<open>Nothing is lost while the consumer runs\<close>

text \<open>
  With elements that tell their producer: what a producer's queue has accepted is what the callbacks got from it, then
  what is in the buffer, then what is in the queue; and it is a prefix of what the producer was given, all but what it
  is still to push unless it is about to stop.
\<close>

fun still_to_push :: "'a producer \<Rightarrow> 'a list list" where
  "still_to_push (Calls bs) = bs"
| "still_to_push (Tests b bs) = b # bs"
| "still_to_push (Pushes b bs) = b # bs"
| "still_to_push (Checks bs) = bs"
| "still_to_push (Counts bs) = bs"
| "still_to_push (Returns bs) = bs"
| "still_to_push Stopped = []"

fun winding_up :: "'a producer \<Rightarrow> bool" where
  "winding_up (Checks bs) = True"
| "winding_up (Counts bs) = True"
| "winding_up (Returns bs) = True"
| "winding_up Stopped = True"
| "winding_up _ = False"

definition producer_left :: "(nat \<Rightarrow> 'a list list) \<Rightarrow> bool \<Rightarrow> 'a list \<Rightarrow> nat \<Rightarrow> 'a producer \<Rightarrow> bool" where
  "producer_left programs stopped acc i p \<longleftrightarrow>
     (\<exists>rest. concat (programs i) = acc @ rest \<and> (rest = concat (still_to_push p) \<or> stopped \<and> winding_up p))"

definition mpsc_ok :: "('q \<Rightarrow> 'a list) \<Rightarrow> nat \<Rightarrow> (nat \<Rightarrow> 'a list list) \<Rightarrow> ('a \<Rightarrow> nat) \<Rightarrow> ('q, 'a) mpsc \<Rightarrow> bool" where
  "mpsc_ok contents n programs origin s \<longleftrightarrow>
     consumerBufOffset s = length (consumerBuf s) \<and>
     (\<forall>i<n. producer_left programs (stop_set s) (accepted s i) i (producer s i)) \<and>
     (\<forall>i<n. filter (\<lambda>x. origin x = i) (concat (handed s) @ consumerBuf s) @ contents (producerQueues s i) = accepted s i)"

lemma produce_step_left:
  assumes "produce_step i s = Some s'" "producer_left programs (stop_set s) acc i (producer s i)"
  shows "producer_left programs (stop_set s) acc i (producer s' i)"
  using assms unfolding producer_left_def
  by (cases "producer s i") (auto simp: produce_step.simps set_producer_def split: if_splits list.splits)

lemma produce_step_frame:
  assumes "produce_step i s = Some s'"
  shows "consumerBuf s' = consumerBuf s" "consumerBufOffset s' = consumerBufOffset s" "handed s' = handed s"
    "producerQueues s' = producerQueues s" "accepted s' = accepted s" "consumer s' = consumer s" "stop_set s' = stop_set s"
    "j \<noteq> i \<Longrightarrow> producer s' j = producer s j"
  using assms by (cases "producer s i"; auto simp: produce_step.simps set_producer_def split: if_splits list.splits)+

lemma mpsc_ok_start: "spsc_laws Q contents \<Longrightarrow> mpsc_ok contents n programs origin (mpsc_start Q programs)"
  by (simp add: mpsc_ok_def mpsc_start_def spsc_laws_def producer_left_def)

lemma mpsc_okD:
  assumes "mpsc_ok contents n programs origin s"
  shows "consumerBufOffset s = length (consumerBuf s)"
    and "i < n \<Longrightarrow> producer_left programs (stop_set s) (accepted s i) i (producer s i)"
    and "i < n \<Longrightarrow> filter (\<lambda>x. origin x = i) (concat (handed s) @ consumerBuf s) @ contents (producerQueues s i) = accepted s i"
  using assms unfolding mpsc_ok_def by blast+

lemma mpsc_ok_consume:
  assumes ok: "mpsc_ok contents n programs origin s" and i: "i < n"
    and origin: "\<And>x. x \<in> set (concat (programs i)) \<Longrightarrow> origin x = i"
    and q: "contents (producerQueues s i) = ys @ contents q"
    and s': "consume_queue i ys q s = Some s'"
  shows "mpsc_ok contents n programs origin s'"
proof -
  have "set ys \<subseteq> set (concat (programs i))"
    using mpsc_okD(2,3) [OF ok i] q unfolding producer_left_def by (auto dest!: arg_cong [where f = set])
  then have ys: "filter (\<lambda>x. origin x = j) ys = (if j = i then ys else [])" for j
    using origin by (auto simp: filter_id_conv filter_empty_conv)
  have "filter (\<lambda>x. origin x = j) (concat (handed s) @ consumerBuf s @ ys) @ contents (((producerQueues s)(i := q)) j) = accepted s j"
    if "j < n" for j
    using mpsc_okD(3) [OF ok that] q ys [of j] by (cases "j = i") (simp_all del: concat_append)
  then show ?thesis using mpsc_okD(1,2) [OF ok] q ys s' unfolding mpsc_ok_def
    by (cases "ys = []") (auto simp: consume_queue_def)
qed

lemma mpsc_ok_push:
  assumes ok: "mpsc_ok contents n programs origin s" and i: "i < n" "producer s i = Pushes b bs"
    and q: "contents q = contents (producerQueues s i) @ take k b"
  shows "mpsc_ok contents n programs origin (produce_push i b bs k q s)"
proof -
  have "producer_left programs (stop_set s) (accepted s i @ take k b) i (Tests (drop k b) bs)"
    using mpsc_okD(2) [OF ok i(1)] i(2) by (auto simp: producer_left_def)
  then show ?thesis using mpsc_okD [OF ok] q unfolding mpsc_ok_def
    by (simp add: produce_push_def set_producer_def flip: append_assoc)
qed

lemma mpsc_ok_step:
  assumes laws: "spsc_laws Q contents" and origin: "\<And>i x. i < n \<Longrightarrow> x \<in> set (concat (programs i)) \<Longrightarrow> origin x = i"
    and ok: "mpsc_ok contents n programs origin s" and step: "mpsc_step Q capacity n s s'"
  shows "mpsc_ok contents n programs origin s'"
  using step
proof cases
  case (produces i)
  have "producer_left programs (stop_set s) (accepted s j) j (producer s' j)" if "j < n" for j
    using produce_step_left [OF produces(2)] produce_step_frame(8) [OF produces(2), of j] mpsc_okD(2) [OF ok that]
    by (cases "j = i") auto
  then show ?thesis using mpsc_okD(1,3) [OF ok] produce_step_frame(1-7) [OF produces(2)] by (simp add: mpsc_ok_def)
next
  case (pushes i b bs k q)
  show ?thesis unfolding pushes(1) by (rule mpsc_ok_push [OF ok pushes(2,3) spsc_lawsD(2) [OF laws pushes(4)]])
next
  case (consumes i ys q)
  show ?thesis
    by (rule mpsc_ok_consume [OF ok consumes(2) origin [OF consumes(2)] spsc_lawsD(3) [OF laws consumes(3)] consumes(4)])
next
  case stops
  have "producer_left programs True (accepted s i) i (producer s i)" if "i < n" for i
    using mpsc_okD(2) [OF ok that] by (auto simp: producer_left_def)
  then show ?thesis using mpsc_okD(1,3) [OF ok] stops by (simp add: mpsc_ok_def mpsc_stop_def)
next
  case delivers
  then show ?thesis using mpsc_okD [OF ok] by (simp add: mpsc_ok_def consume_deliver_def)
next
  case checks
  then show ?thesis using mpsc_okD [OF ok] by (simp add: mpsc_ok_def consume_check_def)
qed

lemma mpsc_reachable_ok:
  assumes "spsc_laws Q contents" "\<And>i x. i < n \<Longrightarrow> x \<in> set (concat (programs i)) \<Longrightarrow> origin x = i"
    and "(mpsc_step Q capacity n)\<^sup>*\<^sup>* (mpsc_start Q programs) s"
  shows "mpsc_ok contents n programs origin s"
  using assms(3)
proof (induction rule: rtranclp_induct)
  case base
  show ?case by (rule mpsc_ok_start [OF assms(1)])
next
  case (step s s')
  show ?case by (rule mpsc_ok_step [OF assms(1,2) step.IH step.hyps(2)])
qed

text \<open>
  Property C36: with any number of producers, in every interleaving, what the consumer has handed to the callback, or
  holds in its buffer, from a producer, followed by what is in the queue of this producer, is what the
  queue has accepted from it, in order and without loss or repetition; and this is the beginning of what the producer had to push.
  The consumer never inserts beyond the end of its buffer.
\<close>

theorem mpsc_delivers_in_order:
  assumes "spsc_laws Q contents" "\<And>i x. i < n \<Longrightarrow> x \<in> set (concat (programs i)) \<Longrightarrow> origin x = i"
    and "(mpsc_step Q capacity n)\<^sup>*\<^sup>* (mpsc_start Q programs) s" "i < n"
  shows "filter (\<lambda>x. origin x = i) (concat (handed s) @ consumerBuf s) @ contents (producerQueues s i) = accepted s i \<and>
    (\<exists>rest. concat (programs i) = accepted s i @ rest) \<and> (\<forall>j ys q. consume_queue j ys q s \<noteq> None)"
proof -
  have ok: "mpsc_ok contents n programs origin s" by (rule mpsc_reachable_ok [OF assms(1,2,3)])
  then have "consume_queue j ys q s \<noteq> None" for j ys q
    using mpsc_okD(1) by (fastforce simp: consume_queue_def)
  then show ?thesis using mpsc_okD(2,3) [OF ok assms(4)] unfolding producer_left_def by blast
qed

subsection \<open>Stopping\<close>

text \<open>Executions with the queue that pushes and pops all it can.\<close>

datatype mpsc_move = Producer nat | Consumer | Stop

definition mpsc_move :: "nat \<Rightarrow> nat \<Rightarrow> mpsc_move \<Rightarrow> ('a list, 'a) mpsc \<Rightarrow> ('a list, 'a) mpsc option" where
  "mpsc_move capacity n m s =
     (case m of
        Producer i \<Rightarrow>
          if i < n then
            (case producer s i of
               Pushes b bs \<Rightarrow>
                 (let q = producerQueues s i; k = min (length b) (capacity - length q)
                  in Some (produce_push i b bs k (q @ take k b) s))
             | _ \<Rightarrow> produce_step i s)
          else None
      | Consumer \<Rightarrow>
          (case consumer s of
             At_queue i \<Rightarrow>
               (let q = producerQueues s i in
                if i < n then consume_queue i (take capacity q) (drop capacity q) s
                else if i = n then Some (consume_deliver s) else None)
           | Delivers \<Rightarrow> None
           | Consumer_returned \<Rightarrow> None
           | _ \<Rightarrow> Some (consume_check n s))
      | Stop \<Rightarrow> Some (mpsc_stop s))"

fun mpsc_play :: "nat \<Rightarrow> nat \<Rightarrow> mpsc_move list \<Rightarrow> ('a list, 'a) mpsc \<Rightarrow> ('a list, 'a) mpsc option" where
  "mpsc_play capacity n [] s = Some s"
| "mpsc_play capacity n (m # ms) s = Option.bind (mpsc_move capacity n m s) (mpsc_play capacity n ms)"

lemma mpsc_move_step: "mpsc_move capacity n m s = Some s' \<Longrightarrow> mpsc_step (list_spsc capacity) capacity n s s'"
proof (cases m)
  case (Producer i)
  assume move: "mpsc_move capacity n m s = Some s'"
  then have i: "i < n" using Producer by (auto simp: mpsc_move_def split: if_splits)
  show ?thesis
  proof (cases "\<exists>b bs. producer s i = Pushes b bs")
    case True
    then obtain b bs where p: "producer s i = Pushes b bs" by blast
    have "mpsc_step (list_spsc capacity) capacity n s
      (produce_push i b bs (min (length b) (capacity - length (producerQueues s i)))
        (producerQueues s i @ take (min (length b) (capacity - length (producerQueues s i))) b) s)"
      by (rule mpsc_step.pushes [OF i p]) (simp add: list_spsc_def)
    then show ?thesis using move Producer i p by (simp add: mpsc_move_def Let_def)
  next
    case False
    then have "produce_step i s = Some s'" using move Producer i by (cases "producer s i") (auto simp: mpsc_move_def)
    then show ?thesis by (rule mpsc_step.produces [OF i])
  qed
next
  case Consumer
  assume move: "mpsc_move capacity n m s = Some s'"
  show ?thesis
  proof (cases "consumer s")
    case (At_queue i)
    have "mpsc_step (list_spsc capacity) capacity n s s'" if "i < n"
      "consume_queue i (take capacity (producerQueues s i)) (drop capacity (producerQueues s i)) s = Some s'"
      by (rule mpsc_step.consumes [OF At_queue that(1) _ that(2)]) (simp add: list_spsc_def)
    moreover have "mpsc_step (list_spsc capacity) capacity n s (consume_deliver s)" if "i = n"
      using At_queue that by (intro mpsc_step.delivers) simp
    ultimately show ?thesis using move Consumer At_queue by (auto simp: mpsc_move_def Let_def split: if_splits)
  qed (use move Consumer in \<open>auto simp: mpsc_move_def intro: mpsc_step.checks\<close>)
next
  case Stop
  assume "mpsc_move capacity n m s = Some s'"
  then show ?thesis using Stop by (auto simp: mpsc_move_def intro: mpsc_step.stops)
qed

lemma mpsc_play_steps: "mpsc_play capacity n ms s = Some s' \<Longrightarrow> (mpsc_step (list_spsc capacity) capacity n)\<^sup>*\<^sup>* s s'"
proof (induction ms arbitrary: s)
  case (Cons m ms)
  then obtain u where "mpsc_move capacity n m s = Some u" "mpsc_play capacity n ms u = Some s'" by (auto split: bind_splits)
  then show ?case using Cons.IH mpsc_move_step converse_rtranclp_into_rtranclp by metis
qed simp

text \<open>
  A producer that reads \<open>_stop\<close> false at the test after the loop and true at the return is gone without being counted.
\<close>

lemma uncounted_producer:
  assumes "(mpsc_step Q capacity 1)\<^sup>*\<^sup>* s s'" "producer s 0 = Stopped" "donePorodicers s = 0" "consumer s \<noteq> Consumer_returned"
  shows "producer s' 0 = Stopped \<and> donePorodicers s' = 0 \<and> consumer s' \<noteq> Consumer_returned"
  using assms
proof (induction rule: rtranclp_induct)
  case (step u v)
  then have u: "producer u 0 = Stopped" "donePorodicers u = 0" "consumer u \<noteq> Consumer_returned" by blast+
  from step.hyps(2) show ?case by cases (use u in \<open>auto simp: produce_step.simps state_simps split: if_splits\<close>)
qed simp

definition uncounted :: "mpsc_move list" where
  "uncounted = [Producer 0, Producer 0, Producer 0, Producer 0, Producer 0, Stop, Producer 0]"

definition left_behind :: "mpsc_move list" where
  "left_behind =
    [Consumer, Consumer, Producer 0, Producer 0, Producer 0, Producer 0, Stop, Producer 0, Producer 0, Producer 0, Consumer, Consumer]"

text \<open>
  Property C37: \<open>stop\<close> can fail in two ways, even with one producer that pushes one element. The producer can end without being counted,
  and then the consumer never returns; and the consumer can return while the element that the queue has accepted is
  still in it.
\<close>

theorem mpsc_stop_fails:
  "(\<exists>s. (mpsc_step (list_spsc 1024) 1024 1)\<^sup>*\<^sup>* (mpsc_start (list_spsc 1024) (\<lambda>i. [[x]])) s \<and>
      stop_set s \<and> producer s 0 = Stopped \<and>
      \<not> (\<exists>s'. (mpsc_step (list_spsc 1024) 1024 1)\<^sup>*\<^sup>* s s' \<and> consumer s' = Consumer_returned)) \<and>
   (\<exists>s. (mpsc_step (list_spsc 1024) 1024 1)\<^sup>*\<^sup>* (mpsc_start (list_spsc 1024) (\<lambda>i. [[x]])) s \<and>
      consumer s = Consumer_returned \<and> producerQueues s 0 = [x] \<and> concat (handed s) = [])"
proof
  let ?start = "mpsc_start (list_spsc 1024) (\<lambda>i. [[x]])"
  note eval = uncounted_def left_behind_def mpsc_move_def produce_step.simps state_simps mpsc_start_def list_spsc_def
  obtain s where s: "mpsc_play 1024 1 uncounted ?start = Some s" "stop_set s" "producer s 0 = Stopped" "donePorodicers s = 0"
    "consumer s = At_queue 0"
    by (simp add: eval)
  show "\<exists>s. (mpsc_step (list_spsc 1024) 1024 1)\<^sup>*\<^sup>* ?start s \<and> stop_set s \<and> producer s 0 = Stopped \<and>
      \<not> (\<exists>s'. (mpsc_step (list_spsc 1024) 1024 1)\<^sup>*\<^sup>* s s' \<and> consumer s' = Consumer_returned)"
    using mpsc_play_steps [OF s(1)] s(2-5) uncounted_producer [of _ 1024 s] by (intro exI [of _ s]) auto
  obtain s where s: "mpsc_play 1024 1 left_behind ?start = Some s" "consumer s = Consumer_returned" "producerQueues s 0 = [x]"
    "concat (handed s) = []"
    by (simp add: eval)
  show "\<exists>s. (mpsc_step (list_spsc 1024) 1024 1)\<^sup>*\<^sup>* ?start s \<and> consumer s = Consumer_returned \<and> producerQueues s 0 = [x] \<and>
      concat (handed s) = []"
    using mpsc_play_steps [OF s(1)] s(2-4) by (intro exI [of _ s]) simp
qed

definition two_programs :: "nat \<Rightarrow> nat list list" where
  "two_programs i = (if i = 0 then [[0, 2], [4]] else [[1]])"

definition collects_both :: "mpsc_move list" where
  "collects_both =
    [Producer 0, Producer 0, Producer 0, Producer 1, Producer 1, Producer 1, Consumer, Consumer, Consumer, Consumer, Consumer]"

theorem mpsc_delivers_in_order_witness:
  "\<exists>s. (mpsc_step (list_spsc 1024) 1024 2)\<^sup>*\<^sup>* (mpsc_start (list_spsc 1024) two_programs) s \<and> concat (handed s) = [0, 2, 1] \<and>
     filter (\<lambda>x. x mod 2 = 0) (concat (handed s) @ consumerBuf s) @ producerQueues s 0 = accepted s 0 \<and>
     (\<exists>rest. [0, 2, 4] = accepted s 0 @ rest)"
proof -
  obtain s where s: "mpsc_play 1024 2 collects_both (mpsc_start (list_spsc 1024) two_programs) = Some s" "concat (handed s) = [0, 2, 1]"
    by (simp add: collects_both_def two_programs_def mpsc_move_def produce_step.simps state_simps mpsc_start_def list_spsc_def Let_def)
  note run = mpsc_play_steps [OF s(1)]
  have origin: "x mod 2 = i" if "i < 2" "x \<in> set (concat (two_programs i))" for i x
    using that by (auto simp: two_programs_def less_2_cases_iff)
  have "(0 :: nat) < 2" by simp
  from mpsc_delivers_in_order [where origin = "\<lambda>x. x mod 2", OF list_spsc_laws origin run this] run s(2)
  show ?thesis by (intro exI [of _ s]) (simp add: two_programs_def)
qed

end
