(* ===== verification/Typed_Options.thy ===== *)
theory Typed_Options
  imports Cpp_Text
begin

text \<open>
  Options with types: the class template \<open>Options\<close> of \<open>diff/Options.cpp\<close>, which keeps every option as a
  string, takes the values from a loader, and answers them as values of the option's type; and the options
  of a client that are given to it, \<open>diff2/ClientOptions.h\<close>. An option is described by a trait: its key and its
  default value, whose constructor is the type. \<open>boost::lexical_cast\<close> and the loader are parameters.
\<close>

subsection \<open>The class template\<close>

datatype option_value = Text_value string | Int_value int | Long_value int | Size_value nat | Flag_value bool

datatype option_type = Text_type | Int_type | Long_type | Size_type | Flag_type

fun value_type :: "option_value \<Rightarrow> option_type" where
  "value_type (Text_value x) = Text_type"
| "value_type (Int_value x) = Int_type"
| "value_type (Long_value x) = Long_type"
| "value_type (Size_value x) = Size_type"
| "value_type (Flag_value x) = Flag_type"

datatype LoadPolicy = CAN_LOAD | MUST_LOAD | MUST_NOT_LOAD

record option_trait =
  string_key :: string
  default_value :: option_value
  load_policy :: LoadPolicy

text \<open>\<open>lexical_cast\<close> to a string and from one; \<open>None\<close> is the exception.\<close>

record lexical =
  cast_to_string :: "option_value \<Rightarrow> string option"
  cast_from_string :: "option_type \<Rightarrow> string \<Rightarrow> option_value option"

type_synonym key_values = "(string \<times> string) list"

definition no_key_values :: "option_trait list \<Rightarrow> key_values" where
  "no_key_values traits = replicate (length traits) ([], [])"

text \<open>The recursion of the templates over the positions, from the last one down.\<close>

primrec init_from :: "lexical \<Rightarrow> option_trait list \<Rightarrow> nat \<Rightarrow> key_values \<Rightarrow> bool \<times> key_values" where
  "init_from L traits 0 kv = (True, kv)"
| "init_from L traits (Suc pos) kv =
     (case cast_to_string L (default_value (traits ! pos)) of
        None \<Rightarrow> (False, kv)
      | Some str_value \<Rightarrow> init_from L traits pos (kv[pos := (string_key (traits ! pos), str_value)]))"

definition options_init :: "lexical \<Rightarrow> option_trait list \<Rightarrow> key_values \<Rightarrow> bool \<times> key_values" where
  "options_init L traits kv = init_from L traits (length traits) kv"

definition isValueValid :: "lexical \<Rightarrow> option_trait \<Rightarrow> string \<Rightarrow> bool" where
  "isValueValid L tr str_value \<longleftrightarrow> cast_from_string L (value_type (default_value tr)) str_value \<noteq> None"

text \<open>A loader answers the empty string if it has no value for the key; \<open>None\<close> is an exception.\<close>

type_synonym loader = "string \<Rightarrow> string option"

primrec load_from :: "lexical \<Rightarrow> option_trait list \<Rightarrow> loader \<Rightarrow> nat \<Rightarrow> key_values \<Rightarrow> bool \<times> key_values" where
  "load_from L traits loader 0 kv = (True, kv)"
| "load_from L traits loader (Suc pos) kv =
     (case loader (string_key (traits ! pos)) of
        None \<Rightarrow> (False, kv)
      | Some str_value \<Rightarrow>
          if str_value = [] then load_from L traits loader pos kv
          else if \<not> isValueValid L (traits ! pos) str_value then (False, kv)
          else load_from L traits loader pos (kv[pos := (string_key (traits ! pos), str_value)]))"

definition loadValues :: "lexical \<Rightarrow> option_trait list \<Rightarrow> loader \<Rightarrow> key_values \<Rightarrow> bool \<times> key_values" where
  "loadValues L traits loader kv = load_from L traits loader (length traits) kv"

definition getOption :: "lexical \<Rightarrow> option_trait list \<Rightarrow> key_values \<Rightarrow> nat \<Rightarrow> option_value" where
  "getOption L traits kv pos =
     (let dflt = default_value (traits ! pos) in
      case cast_from_string L (value_type dflt) (snd (kv ! pos)) of None \<Rightarrow> dflt | Some v \<Rightarrow> v)"

definition options_dump :: "string \<Rightarrow> key_values \<Rightarrow> string" where
  "options_dump location kv =
     location @ ''Thrift options dump'' @ [CHR 0x0A] @ concat (map (\<lambda>(k, v). k @ ''->'' @ v @ [CHR 0x0A]) kv)"

text \<open>What the default logger writes.\<close>

datatype severity = DBG | INFO | WRN | ERR

fun log_prefix :: "severity \<Rightarrow> string" where
  "log_prefix DBG = '' DBG-> ''"
| "log_prefix INFO = '' INF-> ''"
| "log_prefix WRN = '' WARN-> ''"
| "log_prefix ERR = '' ERR-> ''"

definition default_log :: "string \<Rightarrow> severity \<Rightarrow> string list" where
  "default_log msg sev = [log_prefix sev @ msg] @ (if sev = ERR then [log_prefix sev @ msg] else [])"

subsection \<open>The options of a client\<close>

datatype OptionKey =
    ZOOKEEPER_SERVER
  | ZOOKEEPER_PATH
  | ZOOKEEPER_LOG_FILE
  | ZOOKEEPER_RELOAD_DELAY
  | ZOOKEEPER_RELOAD_RETRY
  | ZOOKEEPER_RECV_TIMEOUT
  | ZOOKEEPER_LOG_LEVEL
  | THRIFT_SOCKET_TYPE
  | THRIFT_TRANSPORT_TYPE
  | THRIFT_PROTOCOL_TYPE
  | THRIFT_CLIENTS_NUMBER
  | THRIFT_RECONNECT_RETRY
  | THRIFT_RECONNECT_DELAY
  | THRIFT_USE_ZOO
  | THRIFT_HOST
  | THRIFT_PORT
  | THRIFT_CONNECT_TIMEOUT
  | THRIFT_SEND_TIMEOUT
  | THRIFT_RECV_TIMEOUT
  | THRIFT_KEEP_ALIVE
  | THRIFT_LINGER_ON
  | THRIFT_LINGER_VAL
  | THRIFT_NO_DELAY
  | THRIFT_MAX_RECV_RETRIES
  | THRIFT_RETRY_ON_TIMEOUT
  | THRIFT_MAX_RECOVER_RETRIES
  | THRIFT_RESEND_ON_REREGISTER
  | THRIFT_RESEND_ON_RECOVERABLE_EXCEPTION
  | THRIFT_RESEND_ON_RECONNECT
  | THRIFT_REQUEST_FAIL_FAST
  | THRIFT_REQUEST_SKIP_BLOCKING_ON_REMOTES
  | THRIFT_USE_LOAD_BALANCER
  | THRIFT_LOAD_BALANCER_DELAY

definition option_keys :: "OptionKey list" where
  "option_keys =
    [ZOOKEEPER_SERVER,
     ZOOKEEPER_PATH,
     ZOOKEEPER_LOG_FILE,
     ZOOKEEPER_RELOAD_DELAY,
     ZOOKEEPER_RELOAD_RETRY,
     ZOOKEEPER_RECV_TIMEOUT,
     ZOOKEEPER_LOG_LEVEL,
     THRIFT_SOCKET_TYPE,
     THRIFT_TRANSPORT_TYPE,
     THRIFT_PROTOCOL_TYPE,
     THRIFT_CLIENTS_NUMBER,
     THRIFT_RECONNECT_RETRY,
     THRIFT_RECONNECT_DELAY,
     THRIFT_USE_ZOO,
     THRIFT_HOST,
     THRIFT_PORT,
     THRIFT_CONNECT_TIMEOUT,
     THRIFT_SEND_TIMEOUT,
     THRIFT_RECV_TIMEOUT,
     THRIFT_KEEP_ALIVE,
     THRIFT_LINGER_ON,
     THRIFT_LINGER_VAL,
     THRIFT_NO_DELAY,
     THRIFT_MAX_RECV_RETRIES,
     THRIFT_RETRY_ON_TIMEOUT,
     THRIFT_MAX_RECOVER_RETRIES,
     THRIFT_RESEND_ON_REREGISTER,
     THRIFT_RESEND_ON_RECOVERABLE_EXCEPTION,
     THRIFT_RESEND_ON_RECONNECT,
     THRIFT_REQUEST_FAIL_FAST,
     THRIFT_REQUEST_SKIP_BLOCKING_ON_REMOTES,
     THRIFT_USE_LOAD_BALANCER,
     THRIFT_LOAD_BALANCER_DELAY]"

text \<open>The default of \<open>THRIFT_CLIENTS_NUMBER\<close>, which \<open>THRIFT_RECONNECT_RETRY\<close> takes as well.\<close>

definition default_clients_number :: nat where "default_clients_number = 100"

fun client_trait :: "OptionKey \<Rightarrow> option_trait" where
  "client_trait ZOOKEEPER_SERVER =
     \<lparr>string_key = ''ZOOKEEPER_SERVER'', default_value = Text_value [], load_policy = MUST_LOAD\<rparr>"
| "client_trait ZOOKEEPER_PATH =
     \<lparr>string_key = ''ZOOKEEPER_PATH'', default_value = Text_value [], load_policy = MUST_LOAD\<rparr>"
| "client_trait ZOOKEEPER_LOG_FILE =
     \<lparr>string_key = ''ZOOKEEPER_LOG_FILE'', default_value = Text_value [], load_policy = MUST_LOAD\<rparr>"
| "client_trait ZOOKEEPER_RELOAD_DELAY =
     \<lparr>string_key = ''ZOOKEEPER_RELOAD_DELAY'', default_value = Int_value 1000, load_policy = CAN_LOAD\<rparr>"
| "client_trait ZOOKEEPER_RELOAD_RETRY =
     \<lparr>string_key = ''ZOOKEEPER_RELOAD_RETRY'', default_value = Long_value 86400, load_policy = CAN_LOAD\<rparr>"
| "client_trait ZOOKEEPER_RECV_TIMEOUT =
     \<lparr>string_key = ''ZOOKEEPER_RECV_TIMEOUT'', default_value = Int_value 1000, load_policy = CAN_LOAD\<rparr>"
| "client_trait ZOOKEEPER_LOG_LEVEL =
     \<lparr>string_key = ''ZOOKEEPER_LOG_LEVEL'', default_value = Text_value ''ERR'', load_policy = CAN_LOAD\<rparr>"
| "client_trait THRIFT_SOCKET_TYPE =
     \<lparr>string_key = ''THRIFT_SOCKET_TYPE'', default_value = Text_value ''TSocket'', load_policy = MUST_NOT_LOAD\<rparr>"
| "client_trait THRIFT_TRANSPORT_TYPE =
     \<lparr>string_key = ''THRIFT_TRANSPORT_TYPE'', default_value = Text_value ''TFramedTransport'', load_policy = MUST_NOT_LOAD\<rparr>"
| "client_trait THRIFT_PROTOCOL_TYPE =
     \<lparr>string_key = ''THRIFT_PROTOCOL_TYPE'', default_value = Text_value ''TBinaryProtocol'', load_policy = MUST_NOT_LOAD\<rparr>"
| "client_trait THRIFT_CLIENTS_NUMBER =
     \<lparr>string_key = ''THRIFT_CLIENTS_NUMBER'', default_value = Size_value default_clients_number, load_policy = CAN_LOAD\<rparr>"
| "client_trait THRIFT_RECONNECT_RETRY =
     \<lparr>string_key = ''THRIFT_RECONNECT_RETRY'', default_value = Long_value (int default_clients_number), load_policy = CAN_LOAD\<rparr>"
| "client_trait THRIFT_RECONNECT_DELAY =
     \<lparr>string_key = ''THRIFT_RECONNECT_DELAY'', default_value = Long_value 1000, load_policy = CAN_LOAD\<rparr>"
| "client_trait THRIFT_USE_ZOO =
     \<lparr>string_key = ''THRIFT_USE_ZOO'', default_value = Flag_value True, load_policy = CAN_LOAD\<rparr>"
| "client_trait THRIFT_HOST =
     \<lparr>string_key = ''THRIFT_HOST'', default_value = Text_value ''localhost'', load_policy = CAN_LOAD\<rparr>"
| "client_trait THRIFT_PORT =
     \<lparr>string_key = ''THRIFT_PORT'', default_value = Int_value 2181, load_policy = CAN_LOAD\<rparr>"
| "client_trait THRIFT_CONNECT_TIMEOUT =
     \<lparr>string_key = ''THRIFT_CONNECT_TIMEOUT'', default_value = Int_value 10000, load_policy = CAN_LOAD\<rparr>"
| "client_trait THRIFT_SEND_TIMEOUT =
     \<lparr>string_key = ''THRIFT_SEND_TIMEOUT'', default_value = Int_value 1000, load_policy = CAN_LOAD\<rparr>"
| "client_trait THRIFT_RECV_TIMEOUT =
     \<lparr>string_key = ''THRIFT_RECV_TIMEOUT'', default_value = Int_value 1000, load_policy = CAN_LOAD\<rparr>"
| "client_trait THRIFT_KEEP_ALIVE =
     \<lparr>string_key = ''THRIFT_KEEP_ALIVE'', default_value = Flag_value True, load_policy = CAN_LOAD\<rparr>"
| "client_trait THRIFT_LINGER_ON =
     \<lparr>string_key = ''THRIFT_LINGER_ON'', default_value = Flag_value False, load_policy = CAN_LOAD\<rparr>"
| "client_trait THRIFT_LINGER_VAL =
     \<lparr>string_key = ''THRIFT_LINGER_VAL'', default_value = Int_value 1, load_policy = CAN_LOAD\<rparr>"
| "client_trait THRIFT_NO_DELAY =
     \<lparr>string_key = ''THRIFT_NO_DELAY'', default_value = Flag_value True, load_policy = CAN_LOAD\<rparr>"
| "client_trait THRIFT_MAX_RECV_RETRIES =
     \<lparr>string_key = ''THRIFT_MAX_RECV_RETRIES'', default_value = Int_value 5, load_policy = CAN_LOAD\<rparr>"
| "client_trait THRIFT_RETRY_ON_TIMEOUT =
     \<lparr>string_key = ''THRIFT_RETRY_ON_TIMEOUT'', default_value = Long_value 20, load_policy = CAN_LOAD\<rparr>"
| "client_trait THRIFT_MAX_RECOVER_RETRIES =
     \<lparr>string_key = ''THRIFT_MAX_RECOVER_RETRIES'', default_value = Int_value 10, load_policy = CAN_LOAD\<rparr>"
| "client_trait THRIFT_RESEND_ON_REREGISTER =
     \<lparr>string_key = ''THRIFT_RESEND_ON_REREGISTER'', default_value = Flag_value False, load_policy = CAN_LOAD\<rparr>"
| "client_trait THRIFT_RESEND_ON_RECOVERABLE_EXCEPTION =
     \<lparr>string_key = ''THRIFT_RESEND_ON_RECOVERABLE_EXCEPTION'', default_value = Flag_value True, load_policy = CAN_LOAD\<rparr>"
| "client_trait THRIFT_RESEND_ON_RECONNECT =
     \<lparr>string_key = ''THRIFT_RESEND_ON_RECONNECT'', default_value = Flag_value False, load_policy = CAN_LOAD\<rparr>"
| "client_trait THRIFT_REQUEST_FAIL_FAST =
     \<lparr>string_key = ''THRIFT_REQUEST_FAIL_FAST'', default_value = Flag_value True, load_policy = CAN_LOAD\<rparr>"
| "client_trait THRIFT_REQUEST_SKIP_BLOCKING_ON_REMOTES =
     \<lparr>string_key = ''THRIFT_REQUEST_SKIP_BLOCKING_ON_REMOTES'', default_value = Flag_value True, load_policy = CAN_LOAD\<rparr>"
| "client_trait THRIFT_USE_LOAD_BALANCER =
     \<lparr>string_key = ''THRIFT_USE_LOAD_BALANCER'', default_value = Flag_value False, load_policy = CAN_LOAD\<rparr>"
| "client_trait THRIFT_LOAD_BALANCER_DELAY =
     \<lparr>string_key = ''THRIFT_LOAD_BALANCER_DELAY'', default_value = Int_value 60000, load_policy = CAN_LOAD\<rparr>"

definition client_traits :: "option_trait list" where
  "client_traits = map client_trait option_keys"

text \<open>
  \<open>ClientOptions\<close> includes an \<open>Options.h\<close> that is not in the repository: what it uses of it is a record of
  operations, \<open>None\<close> being an exception.
\<close>

record 'o options_impl =
  impl_new :: "loader \<Rightarrow> 'o"
  impl_init :: "'o \<Rightarrow> (bool \<times> 'o) option"
  impl_load :: "'o \<Rightarrow> (bool \<times> 'o) option"

definition client_init :: "'o options_impl \<Rightarrow> 'o \<Rightarrow> bool \<times> 'o" where
  "client_init I opts =
     (case impl_init I opts of
        None \<Rightarrow> (False, opts)
      | Some (False, opts1) \<Rightarrow> (False, opts1)
      | Some (True, opts1) \<Rightarrow>
          (case impl_load I opts1 of
             None \<Rightarrow> (False, opts1)
           | Some (False, opts2) \<Rightarrow> (False, opts2)
           | Some (True, opts2) \<Rightarrow> (True, opts2)))"

definition client_instance :: "'o options_impl \<Rightarrow> loader \<Rightarrow> 'o option" where
  "client_instance I loader =
     (case client_init I (impl_new I loader) of (status, opts) \<Rightarrow> if status then Some opts else None)"

text \<open>The enumerators are the positions.\<close>

definition key_pos :: "OptionKey \<Rightarrow> nat" where
  "key_pos k = length (takeWhile (\<lambda>k'. k' \<noteq> k) option_keys)"

text \<open>The class template above as this record.\<close>

definition cpp_options :: "lexical \<Rightarrow> option_trait list \<Rightarrow> (loader \<times> key_values) options_impl" where
  "cpp_options L traits =
     \<lparr>impl_new = (\<lambda>loader. (loader, no_key_values traits)),
      impl_init = (\<lambda>(loader, kv). case options_init L traits kv of (ok, kv1) \<Rightarrow> Some (ok, (loader, kv1))),
      impl_load = (\<lambda>(loader, kv). case loadValues L traits loader kv of (ok, kv1) \<Rightarrow> Some (ok, (loader, kv1)))\<rparr>"

subsection \<open>What an option answers\<close>

text \<open>
  \<open>lexical_cast\<close> of the defaults to a string and back. The value the loader has for an option, its default if it has none;
  \<open>None\<close> if it throws or the text is not one of the option's type.
\<close>

definition casts_keep :: "lexical \<Rightarrow> option_trait list \<Rightarrow> bool" where
  "casts_keep L traits \<longleftrightarrow> (\<forall>tr\<in>set traits. \<exists>s. cast_to_string L (default_value tr) = Some s \<and>
     cast_from_string L (value_type (default_value tr)) s = Some (default_value tr))"

definition option_source :: "lexical \<Rightarrow> loader \<Rightarrow> option_trait \<Rightarrow> option_value option" where
  "option_source L loader tr =
     (case loader (string_key tr) of
        None \<Rightarrow> None
      | Some s \<Rightarrow> if s = [] then Some (default_value tr) else cast_from_string L (value_type (default_value tr)) s)"

lemma init_from_spec:
  assumes "casts_keep L traits" "length kv = length traits" "n \<le> length traits"
  shows "\<exists>kv'. init_from L traits n kv = (True, kv') \<and> length kv' = length traits \<and> (\<forall>p\<ge>n. kv' ! p = kv ! p) \<and>
    (\<forall>p<n. fst (kv' ! p) = string_key (traits ! p) \<and> getOption L traits kv' p = default_value (traits ! p))"
  using assms(2,3)
proof (induction n arbitrary: kv)
  case (Suc n)
  let ?tr = "traits ! n"
  obtain s where s: "cast_to_string L (default_value ?tr) = Some s"
    "cast_from_string L (value_type (default_value ?tr)) s = Some (default_value ?tr)"
    using assms(1) Suc.prems(2) unfolding casts_keep_def by (meson Suc_le_eq nth_mem)
  let ?kv = "kv[n := (string_key ?tr, s)]"
  obtain kv' where kv': "init_from L traits n ?kv = (True, kv')" "length kv' = length traits" "\<forall>p\<ge>n. kv' ! p = ?kv ! p"
    "\<forall>p<n. fst (kv' ! p) = string_key (traits ! p) \<and> getOption L traits kv' p = default_value (traits ! p)"
    using Suc.IH [of ?kv] Suc.prems by auto
  have "kv' ! n = (string_key ?tr, s)" using kv'(3) Suc.prems by simp
  then have "fst (kv' ! n) = string_key ?tr \<and> getOption L traits kv' n = default_value ?tr" using s(2) by (simp add: getOption_def)
  then show ?case using kv' s(1) by (intro exI [of _ kv']) (auto simp: less_Suc_eq)
qed simp

lemma load_from_spec:
  assumes "length kv = length traits" "n \<le> length traits" "load_from L traits loader n kv = (ok, kv')"
    and "\<forall>p<n. fst (kv ! p) = string_key (traits ! p) \<and> getOption L traits kv p = default_value (traits ! p)"
  shows "length kv' = length traits \<and> (\<forall>p\<ge>n. kv' ! p = kv ! p) \<and> (ok \<longleftrightarrow> (\<forall>p<n. option_source L loader (traits ! p) \<noteq> None)) \<and>
    (\<forall>p<n. fst (kv' ! p) = string_key (traits ! p) \<and>
      getOption L traits kv' p =
        (if \<exists>q. p \<le> q \<and> q < n \<and> option_source L loader (traits ! q) = None then default_value (traits ! p)
         else the (option_source L loader (traits ! p))))"
  using assms
proof (induction n arbitrary: kv)
  case (Suc n)
  let ?tr = "traits ! n" and ?src = "\<lambda>q. option_source L loader (traits ! q)"
  show ?case
  proof (cases "?src n")
    case None
    then have "kv' = kv" "\<not> ok" using Suc.prems(3)
      by (auto simp: option_source_def isValueValid_def split: option.splits if_splits)
    moreover have "\<exists>q. p \<le> q \<and> q < Suc n \<and> ?src q = None" if "p < Suc n" for p
      using None that by (intro exI [of _ n]) simp
    ultimately show ?thesis using None Suc.prems(1,4) by auto
  next
    case (Some v)
    define kv1 where "kv1 = (if loader (string_key ?tr) = Some [] then kv
      else kv[n := (string_key ?tr, the (loader (string_key ?tr)))])"
    have run: "load_from L traits loader n kv1 = (ok, kv')" using Some Suc.prems(3)
      by (auto simp: kv1_def option_source_def isValueValid_def split: option.splits if_splits)
    have other: "kv1 ! p = kv ! p" if "p \<noteq> n" for p using that by (simp add: kv1_def)
    have n: "fst (kv1 ! n) = string_key ?tr" "getOption L traits kv1 n = v"
      using Some Suc.prems(1,2,4) by (auto simp: kv1_def getOption_def option_source_def split: option.splits if_splits)
    have IH: "length kv' = length traits \<and> (\<forall>p\<ge>n. kv' ! p = kv1 ! p) \<and> (ok \<longleftrightarrow> (\<forall>p<n. ?src p \<noteq> None)) \<and>
      (\<forall>p<n. fst (kv' ! p) = string_key (traits ! p) \<and> getOption L traits kv' p =
        (if \<exists>q. p \<le> q \<and> q < n \<and> ?src q = None then default_value (traits ! p) else the (?src p)))"
      using Suc.prems other by (intro Suc.IH [OF _ _ run]) (auto simp: kv1_def getOption_def)
    then have at: "fst (kv' ! n) = string_key ?tr" "getOption L traits kv' n = v"
      using n by (simp_all add: getOption_def)
    have up: "(\<exists>q. p \<le> q \<and> q < Suc n \<and> ?src q = None) \<longleftrightarrow> (\<exists>q. p \<le> q \<and> q < n \<and> ?src q = None)" for p
      using Some by (auto simp: less_Suc_eq)
    show ?thesis unfolding up using IH at Some other by (auto simp: less_Suc_eq)
  qed
qed simp

text \<open>
  Property C38: an option answers its default until values are loaded. Loading succeeds exactly if for every key
  the loader answers without an exception a text that is empty or a value of the option's type, and then
  every option answers the value loaded, or its default if there is none. Otherwise the options from the last one
  down to the first that failed answer their new values, and the rest their defaults.
\<close>

theorem options_answer_loaded_values:
  assumes "casts_keep L traits" "options_init L traits (no_key_values traits) = (i, kv)"
    and "loadValues L traits loader kv = (ok, kv')" "p < length traits"
  shows "i \<and> getOption L traits kv p = default_value (traits ! p) \<and>
    (ok \<longleftrightarrow> (\<forall>q<length traits. option_source L loader (traits ! q) \<noteq> None)) \<and> fst (kv' ! p) = string_key (traits ! p) \<and>
    getOption L traits kv' p =
      (if \<exists>q. p \<le> q \<and> q < length traits \<and> option_source L loader (traits ! q) = None then default_value (traits ! p)
       else the (option_source L loader (traits ! p)))"
proof -
  have i: i "length kv = length traits"
    "\<forall>q<length traits. fst (kv ! q) = string_key (traits ! q) \<and> getOption L traits kv q = default_value (traits ! q)"
    using init_from_spec [OF assms(1), of "no_key_values traits" "length traits"] assms(2)
    by (auto simp: options_init_def no_key_values_def)
  show ?thesis using load_from_spec [OF i(2) order_refl _ i(3)] assms(3,4) i(1,3) by (simp add: loadValues_def)
qed

text \<open>The program at the end of the file, with casts for the types it uses.\<close>

definition test_traits :: "option_trait list" where
  "test_traits =
    [\<lparr>string_key = ''ZOOKEEPER_SERVER'', default_value = Text_value ''server-zookeeper.inw-arp-dev.rfiserve.net:2181'',
       load_policy = CAN_LOAD\<rparr>,
     \<lparr>string_key = ''THRIFT_CLIENTS_NUMBER'', default_value = Int_value 15, load_policy = CAN_LOAD\<rparr>,
     \<lparr>string_key = ''THRIFT_LINGER_ON'', default_value = Flag_value True, load_policy = CAN_LOAD\<rparr>]"

definition test_loader :: loader where
  "test_loader key =
     (if key = ''ZOOKEEPER_SERVER'' then Some ''Server''
      else if key = ''THRIFT_CLIENTS_NUMBER'' then Some ''16''
      else if key = ''THRIFT_LINGER_ON'' then Some ''0''
      else Some [])"

definition plain_casts :: lexical where
  "plain_casts =
     \<lparr>cast_to_string = (\<lambda>v. case v of Text_value s \<Rightarrow> Some s | Int_value i \<Rightarrow> Some (to_string (nat i)) | Long_value i \<Rightarrow> Some (to_string (nat i))
        | Size_value k \<Rightarrow> Some (to_string k) | Flag_value b \<Rightarrow> Some (if b then ''1'' else ''0'')),
      cast_from_string = (\<lambda>ty s.
        if ty = Text_type then Some (Text_value s)
        else if ty = Flag_type then (if s = ''1'' then Some (Flag_value True) else if s = ''0'' then Some (Flag_value False) else None)
        else if s = [] \<or> \<not> list_all is_digit s then None
        else Some (case ty of Int_type \<Rightarrow> Int_value (int (digits_val s)) | Long_type \<Rightarrow> Long_value (int (digits_val s)) | _ \<Rightarrow> Size_value (digits_val s)))\<rparr>"

fun plain_value :: "option_value \<Rightarrow> bool" where
  "plain_value (Int_value i) = (0 \<le> i)"
| "plain_value (Long_value i) = (0 \<le> i)"
| "plain_value v = True"

lemma plain_casts_keep: "list_all (\<lambda>tr. plain_value (default_value tr)) traits \<Longrightarrow> casts_keep plain_casts traits"
  unfolding casts_keep_def list_all_iff
proof (intro ballI)
  fix tr assume "\<forall>tr\<in>set traits. plain_value (default_value tr)" "tr \<in> set traits"
  then have "plain_value (default_value tr)" by blast
  moreover have "list_all is_digit (to_string k)" for k using to_string_digits by (auto simp: list_all_iff)
  ultimately show "\<exists>s. cast_to_string plain_casts (default_value tr) = Some s \<and>
      cast_from_string plain_casts (value_type (default_value tr)) s = Some (default_value tr)"
    by (cases "default_value tr") (auto simp: plain_casts_def to_string_nonempty digits_val_to_string simp del: to_string.simps)
qed

theorem options_answer_loaded_values_witness:
  "case options_init plain_casts test_traits (no_key_values test_traits) of (i, kv) \<Rightarrow>
     (case loadValues plain_casts test_traits test_loader kv of (ok, kv') \<Rightarrow>
        getOption plain_casts test_traits kv 1 = Int_value 15 \<and> getOption plain_casts test_traits kv' 1 = Int_value 16)"
proof -
  obtain i kv where kv: "options_init plain_casts test_traits (no_key_values test_traits) = (i, kv)" by fastforce
  obtain ok kv' where kv': "loadValues plain_casts test_traits test_loader kv = (ok, kv')" by fastforce
  have keep: "casts_keep plain_casts test_traits" by (rule plain_casts_keep) (simp add: test_traits_def)
  have len: "1 < length test_traits" by (simp add: test_traits_def)
  have "list_all (\<lambda>tr. option_source plain_casts test_loader tr \<noteq> None) test_traits" by code_simp
  then have "option_source plain_casts test_loader (test_traits ! q) \<noteq> None" if "q < length test_traits" for q
    using that by (simp add: list_all_length)
  then have src: "\<not> (\<exists>q. 1 \<le> q \<and> q < length test_traits \<and> option_source plain_casts test_loader (test_traits ! q) = None)"
    by blast
  have one: "option_source plain_casts test_loader (test_traits ! 1) = Some (Int_value 16)" by code_simp
  show ?thesis using options_answer_loaded_values [OF keep kv kv' len] kv kv' src one by (simp add: test_traits_def)
qed

text \<open>The table of the client: each enumerator has its own trait at its position, and no key is used twice.\<close>

lemma option_keys_complete: "k \<in> set option_keys"
  by (cases k) (simp_all add: option_keys_def)

lemma key_pos_trait: "key_pos k < length client_traits \<and> client_traits ! key_pos k = client_trait k"
proof -
  have "takeWhile (\<lambda>k'. k' \<noteq> k) option_keys \<noteq> option_keys"
    using option_keys_complete [of k] by (auto simp: takeWhile_eq_all_conv)
  then have "key_pos k < length option_keys"
    using length_takeWhile_le [of "\<lambda>k'. k' \<noteq> k" option_keys] takeWhile_eq_take [of "\<lambda>k'. k' \<noteq> k" option_keys]
    by (metis key_pos_def le_neq_implies_less take_all_iff order_refl)
  moreover from this have "option_keys ! key_pos k = k"
    using nth_length_takeWhile [of "\<lambda>k'. k' \<noteq> k" option_keys] by (auto simp: key_pos_def)
  ultimately show ?thesis by (simp add: client_traits_def)
qed

lemma client_keys_distinct: "distinct (map string_key client_traits)"
  by code_simp

text \<open>
  Hence a client gets its options exactly if the loader has no text that is not a value of its option, and each option then answers what was
  loaded for its own key.
\<close>

lemma client_options_answer:
  assumes "casts_keep L client_traits"
  shows "case client_instance (cpp_options L client_traits) loader of
      None \<Rightarrow> \<exists>k. option_source L loader (client_trait k) = None
    | Some (l, kv) \<Rightarrow> \<forall>k. option_source L loader (client_trait k) = Some (getOption L client_traits kv (key_pos k))"
proof -
  obtain kv where kv: "options_init L client_traits (no_key_values client_traits) = (True, kv)" "length kv = length client_traits"
    "\<forall>p<length client_traits. fst (kv ! p) = string_key (client_traits ! p) \<and>
       getOption L client_traits kv p = default_value (client_traits ! p)"
    using init_from_spec [OF assms, of "no_key_values client_traits" "length client_traits"]
    by (auto simp: options_init_def no_key_values_def)
  obtain ok kv' where kv': "loadValues L client_traits loader kv = (ok, kv')" by fastforce
  have spec: "ok \<longleftrightarrow> (\<forall>p<length client_traits. option_source L loader (client_traits ! p) \<noteq> None)"
    "\<And>p. ok \<Longrightarrow> p < length client_traits \<Longrightarrow> getOption L client_traits kv' p = the (option_source L loader (client_traits ! p))"
    using load_from_spec [OF kv(2) order_refl _ kv(3), of loader ok kv'] kv' by (auto simp: loadValues_def)
  have inst: "client_instance (cpp_options L client_traits) loader = (if ok then Some (loader, kv') else None)"
    using kv(1) kv' by (simp add: client_instance_def client_init_def cpp_options_def)
  show ?thesis
  proof (cases ok)
    case True
    then have "option_source L loader (client_trait k) = Some (getOption L client_traits kv' (key_pos k))" for k
      using spec key_pos_trait [of k] by (metis option.collapse)
    then show ?thesis using True inst by simp
  next
    case False
    then obtain p where "p < length client_traits" "option_source L loader (client_traits ! p) = None" using spec(1) by blast
    then have "\<exists>k. option_source L loader (client_trait k) = None" by (auto simp: client_traits_def)
    then show ?thesis using False inst by simp
  qed
qed

end
