(* ===== verification/Child_Reader.thy ===== *)
theory Child_Reader
  imports Web_Messages
begin

text \<open>
  What a child process writes, read in a thread of its own, \<open>proxygen_ih/tools/cpp_tools/ChildProcessReader.h\<close>, and the body of a
  message made of it (\<open>impl/fb_impl/ProxygenMessage.cpp\<close>). The operating system is a parameter: changing the working directory
  of this process, launching a shell, and, for a given time limit, the bytes of the child up to
  the end of its output and how it ended, by itself or by the signals that \<open>kill\<close> sends after the limit.
\<close>

subsection \<open>The reader\<close>

record child_result =
  child_stdout :: string
  child_exited :: "bool option"

type_synonym child = "int \<Rightarrow> child_result"

text \<open>
  \<open>None\<close>: the directory cannot be entered; the shell cannot be launched. A child launched can be gone before it is looked for.
\<close>

record child_os =
  current_path_throws :: bool
  chdir :: "string \<Rightarrow> string \<Rightarrow> string option"
  launch_shell :: "string \<Rightarrow> string \<Rightarrow> child option"
  found_running :: bool
  thread_throws :: bool

record child_reader =
  m_cwd :: string
  m_childWd :: string
  m_child :: "child option"
  m_content :: string

definition reader_init :: "child_os \<Rightarrow> string \<Rightarrow> string \<Rightarrow> string \<Rightarrow> child_reader \<times> string" where
  "reader_init OS cmd childWd cwd =
     (if current_path_throws OS then (\<lparr>m_cwd = [], m_childWd = [], m_child = None, m_content = []\<rparr>, cwd)
      else
        case (if childWd \<noteq> [] then chdir OS cwd childWd else Some cwd) of
          None \<Rightarrow> (\<lparr>m_cwd = cwd, m_childWd = childWd, m_child = None, m_content = []\<rparr>, cwd)
        | Some cwd1 \<Rightarrow>
            (\<lparr>m_cwd = cwd, m_childWd = (if childWd \<noteq> [] then childWd else cwd),
              m_child = (if found_running OS then launch_shell OS cmd cwd1 else None), m_content = []\<rparr>, cwd1))"

text \<open>\<open>std::getline\<close> until the end; a last line need not have a newline.\<close>

fun getlines :: "string \<Rightarrow> string \<Rightarrow> string list" where
  "getlines line [] = (if line = [] then [] else [line])"
| "getlines line (c # cs) = (if c = CHR 0x0A then line # getlines [] cs else getlines (line @ [c]) cs)"

definition reader_clean :: "child_os \<Rightarrow> int \<Rightarrow> child_reader \<Rightarrow> string \<Rightarrow> child_reader \<times> string" where
  "reader_clean OS maxWait r cwd =
     (let cwd1 = (if m_childWd r \<noteq> m_cwd r then (case chdir OS cwd (m_cwd r) of None \<Rightarrow> cwd | Some c \<Rightarrow> c) else cwd) in
      case m_child r of
        None \<Rightarrow> (r, cwd1)
      | Some child \<Rightarrow> (if child_exited (child maxWait) = Some True then r else r\<lparr>m_content := []\<rparr>, cwd1))"

definition reader_run :: "child_os \<Rightarrow> int \<Rightarrow> child_reader \<Rightarrow> string \<Rightarrow> child_reader \<times> string" where
  "reader_run OS maxWait r cwd =
     (case m_child r of
        None \<Rightarrow> (r, cwd)
      | Some child \<Rightarrow>
          reader_clean OS maxWait
            (r\<lparr>m_content := m_content r @ concat (map (\<lambda>line. line @ [CHR 0x0A]) (getlines [] (child_stdout (child maxWait))))\<rparr>) cwd)"

definition readContent :: "child_os \<Rightarrow> string \<Rightarrow> string \<Rightarrow> int \<Rightarrow> string \<Rightarrow> string \<times> string" where
  "readContent OS cmd childWd maxWait cwd =
     (case reader_init OS cmd childWd cwd of
        (r, cwd1) \<Rightarrow>
          if thread_throws OS then ([], cwd1)
          else (case reader_run OS maxWait r cwd1 of (r1, cwd2) \<Rightarrow> (m_content r1, cwd2)))"

definition appendBodyFromCommand ::
  "('h, 'b) http_ops \<Rightarrow> child_os \<Rightarrow> string \<Rightarrow> string \<Rightarrow> int \<Rightarrow> string \<Rightarrow> ('h, 'b) message \<Rightarrow> ('h, 'b) message \<times> bool \<times> string" where
  "appendBodyFromCommand G OS cmd wd timeout cwd m =
     (case readContent OS cmd wd timeout cwd of
        (content, cwd1) \<Rightarrow> (case appendBodyFromExe G content m of (m1, ok) \<Rightarrow> (m1, ok, cwd1)))"

subsection \<open>Killing the child\<close>

text \<open>
  A round of \<open>kill\<close> asks four times whether the child is running; the answers are the system's. It sends signals, sleeps for some seconds, and
  answers whether the child is gone. The other overload repeats it.
\<close>

datatype child_signal = Terminate | Force

fun kill_round :: "bool \<times> bool \<times> bool \<times> bool \<Rightarrow> child_signal list \<times> nat \<times> bool" where
  "kill_round (runs1, runs2, runs3, runs4) =
     ((if runs1 then [Terminate] else []) @ (if runs3 then [Force] else []),
      (if runs1 then 2 else 0) + (if runs2 then 2 else 0) + (if runs3 then 4 else 0) + 2,
      \<not> runs4)"

fun child_kill :: "nat \<Rightarrow> (nat \<Rightarrow> bool \<times> bool \<times> bool \<times> bool) \<Rightarrow> child_signal list \<times> nat \<times> bool" where
  "child_kill 0 running = ([], 0, False)"
| "child_kill (Suc tryMax) running =
     (case kill_round (running 0) of
        (sent, secs, gone) \<Rightarrow>
          if gone then (sent, secs, True)
          else (case child_kill tryMax (\<lambda>k. running (Suc k)) of (sent1, secs1, gone1) \<Rightarrow> (sent @ sent1, secs + secs1, gone1)))"

text \<open>
  It takes at most ten seconds a round; it fails exactly if the child is running at the end of every round; and a child that is gone is
  sent nothing.
\<close>

lemma child_kill_answers:
  "child_kill tryMax running = (sent, secs, gone) \<Longrightarrow>
     secs \<le> 10 * tryMax \<and> length sent \<le> 2 * tryMax \<and> (gone \<longleftrightarrow> (\<exists>k<tryMax. \<not> snd (snd (snd (running k)))))"
proof (induction tryMax arbitrary: running sent secs gone)
  case (Suc tryMax)
  obtain sent0 secs0 gone0 where r: "kill_round (running 0) = (sent0, secs0, gone0)" by (cases "kill_round (running 0)")
  then have b: "secs0 \<le> 10" "length sent0 \<le> 2" "gone0 \<longleftrightarrow> \<not> snd (snd (snd (running 0)))"
    by (cases "running 0", auto split: if_splits)+
  obtain sent1 secs1 gone1 where c: "child_kill tryMax (\<lambda>k. running (Suc k)) = (sent1, secs1, gone1)"
    by (cases "child_kill tryMax (\<lambda>k. running (Suc k))")
  note IH = Suc.IH [OF c]
  have ex: "(\<exists>k<Suc tryMax. \<not> snd (snd (snd (running k)))) \<longleftrightarrow> gone0 \<or> (\<exists>k<tryMax. \<not> snd (snd (snd (running (Suc k)))))"
    unfolding b(3) by (auto simp: less_Suc_eq_0_disj)
  show ?case unfolding ex using Suc.prems r c b(1,2) IH by (cases gone0) auto
qed simp

lemma child_gone_unharmed: "running 0 = (False, False, False, False) \<Longrightarrow> child_kill (Suc tryMax) running = ([], 2, True)"
  by simp

subsection \<open>What is read\<close>

definition whole_lines :: "string \<Rightarrow> string" where
  "whole_lines out = (if out = [] \<or> last out = CHR 0x0A then out else out @ [CHR 0x0A])"

lemma getlines_concat:
  "concat (map (\<lambda>l. l @ [CHR 0x0A]) (getlines line out)) =
     (if out = [] then (if line = [] then [] else line @ [CHR 0x0A]) else line @ whole_lines out)"
  by (induction out arbitrary: line) (auto simp: whole_lines_def)

text \<open>The directory the child starts in, if it can be entered, and the child, if there is one.\<close>

definition child_dir :: "child_os \<Rightarrow> string \<Rightarrow> string \<Rightarrow> string option" where
  "child_dir OS wd cwd = (if wd \<noteq> [] then chdir OS cwd wd else Some cwd)"

definition started_child :: "child_os \<Rightarrow> string \<Rightarrow> string \<Rightarrow> child option" where
  "started_child OS cmd dir = (if found_running OS \<and> \<not> thread_throws OS then launch_shell OS cmd dir else None)"

lemma readContent_spec:
  assumes "\<not> current_path_throws OS" "\<And>dir. chdir OS dir cwd = Some cwd"
  shows "readContent OS cmd wd maxWait cwd =
    (case child_dir OS wd cwd of
       None \<Rightarrow> ([], cwd)
     | Some dir \<Rightarrow>
         (case started_child OS cmd dir of
            None \<Rightarrow> ([], dir)
          | Some child \<Rightarrow>
              (if child_exited (child maxWait) = Some True then whole_lines (child_stdout (child maxWait)) else [], cwd)))"
proof (cases "child_dir OS wd cwd")
  case None
  then show ?thesis using assms
    by (auto simp: readContent_def reader_init_def reader_run_def child_dir_def split: if_splits)
next
  case (Some dir)
  then have init: "reader_init OS cmd wd cwd =
    (\<lparr>m_cwd = cwd, m_childWd = (if wd \<noteq> [] then wd else cwd),
      m_child = (if found_running OS then launch_shell OS cmd dir else None), m_content = []\<rparr>, dir)"
    using assms(1) by (auto simp: reader_init_def child_dir_def split: if_splits)
  have dir: "dir = cwd" if "wd = [] \<or> wd = cwd" using Some that assms(2) [of cwd] by (auto simp: child_dir_def split: if_splits)
  show ?thesis
  proof (cases "started_child OS cmd dir")
    case None
    then show ?thesis using Some init
      by (auto simp: readContent_def reader_run_def started_child_def split: if_splits)
  next
    case (Some child)
    then have "found_running OS" "\<not> thread_throws OS" "launch_shell OS cmd dir = Some child"
      by (auto simp: started_child_def split: if_splits)
    then show ?thesis using \<open>child_dir OS wd cwd = Some dir\<close> Some init assms(2) dir
      by (auto simp: readContent_def reader_run_def reader_clean_def getlines_concat whole_lines_def Let_def)
  qed
qed

text \<open>
  Property C39: with a working directory that can be entered again, a message gets the output of the child as its body, with a newline at
  its end, exactly if a child could be started in the directory asked for, wrote something and exited by itself; otherwise the message
  is as before and the answer is false. The server is then back in its own working directory, except when the
  directory could be entered but there was no child or no thread to read: then it stays in the directory of the child.
\<close>

theorem command_body:
  assumes "\<not> current_path_throws OS" "\<And>dir. chdir OS dir cwd = Some cwd"
  shows "appendBodyFromCommand G OS cmd wd maxWait cwd m =
    (case child_dir OS wd cwd of
       None \<Rightarrow> (m, False, cwd)
     | Some dir \<Rightarrow>
         (case started_child OS cmd dir of
            None \<Rightarrow> (m, False, dir)
          | Some child \<Rightarrow>
              if child_exited (child maxWait) = Some True \<and> child_stdout (child maxWait) \<noteq> []
              then (appendBody G (Some (buf_copy G (whole_lines (child_stdout (child maxWait))))) m, True, cwd)
              else (m, False, cwd)))"
  using readContent_spec [OF assms, of cmd wd maxWait]
  by (auto simp: appendBodyFromCommand_def appendBodyFromExe_def whole_lines_def split: option.splits)

definition unix :: child_os where
  "unix =
     \<lparr>current_path_throws = False,
      chdir = (\<lambda>cwd dir. if hd dir = CHR ''/'' then Some dir else None),
      launch_shell = (\<lambda>cmd cwd.
        if cmd = ''pwd'' then Some (\<lambda>maxWait. \<lparr>child_stdout = cwd @ [CHR 0x0A], child_exited = Some True\<rparr>)
        else if cmd = ''yes'' then Some (\<lambda>maxWait. \<lparr>child_stdout = ''y'', child_exited = Some False\<rparr>)
        else None),
      found_running = True, thread_throws = False\<rparr>"

theorem command_body_witness:
  "\<forall>G m. appendBodyFromCommand G unix ''pwd'' ''/tmp'' 1000 ''/home'' m = (appendBody G (Some (buf_copy G (''/tmp'' @ [CHR 0x0A]))) m, True, ''/home'') \<and>
   appendBodyFromCommand G unix ''yes'' ''/tmp'' 1000 ''/home'' m = (m, False, ''/home'') \<and>
   appendBodyFromCommand G unix ''ls'' ''/tmp'' 1000 ''/home'' m = (m, False, ''/tmp'') \<and>
   appendBodyFromCommand G unix ''ls'' ''tmp'' 1000 ''/home'' m = (m, False, ''/home'')"
proof -
  have "\<not> current_path_throws unix" "\<And>dir. chdir unix dir ''/home'' = Some ''/home''" by (simp_all add: unix_def)
  note body = command_body [OF this]
  show ?thesis unfolding body by (simp add: unix_def child_dir_def started_child_def whole_lines_def)
qed

end
