(* ===== verification/Turn_Taking.thy ===== *)
theory Turn_Taking
  imports Task_Pool
begin

text \<open>
  Two threads that take turns, \<open>MakeOrder\<close> of \<open>multiThread/serial_executor_cond_var.cpp\<close>: each runs its action a number of
  times, waiting on its condition variable until the other one was last. The mutex is held from the test of the condition to the
  notification, so that this is one step; waiting gives it up. A thread that waits goes on when it is notified, or for no reason.
\<close>

subsection \<open>The class and its threads\<close>

datatype turn = A | B

fun other :: "turn \<Rightarrow> turn" where
  "other A = B"
| "other B = A"

record make_order =
  m_b_last :: bool
  waits :: "turn \<Rightarrow> bool"
  iterations :: "turn \<Rightarrow> nat"
  printed :: "turn list"

definition make_order_start :: "nat \<Rightarrow> make_order" where
  "make_order_start max_iter = \<lparr>m_b_last = True, waits = (\<lambda>t. False), iterations = (\<lambda>t. max_iter), printed = []\<rparr>"

text \<open>\<open>a_can_go\<close> and \<open>b_can_go\<close>.\<close>

definition can_go :: "turn \<Rightarrow> make_order \<Rightarrow> bool" where
  "can_go t s = (case t of A \<Rightarrow> m_b_last s | B \<Rightarrow> \<not> m_b_last s)"

text \<open>\<open>A_once_s\<close> and \<open>B_once_s\<close>: the action, the flag, and the notification of the other's condition variable.\<close>

definition once_s :: "turn \<Rightarrow> make_order \<Rightarrow> make_order" where
  "once_s t s = s\<lparr>printed := printed s @ [t], m_b_last := (t = B), iterations := (iterations s)(t := iterations s t - 1),
     waits := (waits s)(other t := False)\<rparr>"

inductive order_step :: "bool \<Rightarrow> make_order \<Rightarrow> make_order \<Rightarrow> bool"
  for spurious :: bool
where
  runs: "0 < iterations s t \<Longrightarrow> \<not> waits s t \<Longrightarrow> can_go t s \<Longrightarrow> order_step spurious s (once_s t s)"
| sleeps: "0 < iterations s t \<Longrightarrow> \<not> waits s t \<Longrightarrow> \<not> can_go t s \<Longrightarrow>
    order_step spurious s (s\<lparr>waits := (waits s)(t := True)\<rparr>)"
| wakes: "spurious \<Longrightarrow> waits s t \<Longrightarrow> order_step spurious s (s\<lparr>waits := (waits s)(t := False)\<rparr>)"

lemmas [state_simps] = once_s_def can_go_def

subsection \<open>The turns\<close>

fun turns :: "turn \<Rightarrow> nat \<Rightarrow> turn list" where
  "turns t 0 = []"
| "turns t (Suc k) = t # turns (other t) k"

lemma other_other [simp]: "other (other t) = t"
  by (cases t) simp_all

lemma turns_snoc: "turns t (Suc k) = turns t k @ [if even k then t else other t]"
proof (induction k arbitrary: t)
  case (Suc k)
  have "turns t (Suc (Suc k)) = t # turns (other t) (Suc k)" by simp
  also have "\<dots> = turns t (Suc k) @ [if even (Suc k) then t else other t]" unfolding Suc.IH [of "other t"] by simp
  finally show ?case .
qed simp

lemma length_turns [simp]: "length (turns t k) = k"
  by (induction k arbitrary: t) auto

text \<open>
  The invariant: what is printed alternates, the flag says who was last, each thread has run as often as its letter is there, and
  a thread waits only while it is not its turn and the other one has turns left.
\<close>

definition order_ok :: "nat \<Rightarrow> make_order \<Rightarrow> bool" where
  "order_ok n s \<longleftrightarrow>
     printed s = turns A (length (printed s)) \<and> (m_b_last s \<longleftrightarrow> even (length (printed s))) \<and>
     iterations s A + (length (printed s) + 1) div 2 = n \<and> iterations s B + length (printed s) div 2 = n \<and>
     (\<forall>t. waits s t \<longrightarrow> \<not> can_go t s)"

lemma order_ok_start: "order_ok n (make_order_start n)"
  by (simp add: order_ok_def make_order_start_def)

lemma order_ok_runs:
  assumes ok: "order_ok n s" and t: "0 < iterations s t" "can_go t s"
  shows "order_ok n (once_s t s)"
proof -
  let ?k = "length (printed s)"
  have e: "even ?k \<longleftrightarrow> t = A" using ok t(2) by (cases t) (auto simp: order_ok_def can_go_def)
  then have "printed s @ [t] = turns A (Suc ?k)"
    using ok turns_snoc [of A ?k] by (cases t) (auto simp: order_ok_def simp del: turns.simps)
  moreover have "\<not> can_go u (once_s t s)" if "waits (once_s t s) u" for u
    using that by (cases u; cases t) (simp_all add: state_simps)
  moreover have "iterations (once_s t s) A + (Suc ?k + 1) div 2 = n" "iterations (once_s t s) B + Suc ?k div 2 = n"
    using ok t(1) e unfolding order_ok_def by (cases t; simp add: once_s_def; presburger)+
  ultimately show ?thesis using e by (cases t) (simp_all add: order_ok_def once_s_def del: turns.simps)
qed

lemma order_ok_step: "order_step spurious s s' \<Longrightarrow> order_ok n s \<Longrightarrow> order_ok n s'"
proof (induction rule: order_step.induct)
  case (runs s t)
  then show ?case by (intro order_ok_runs)
qed (auto simp: order_ok_def can_go_def split: turn.splits if_splits)

lemma order_counts:
  assumes "order_ok n s"
  shows "even (length (printed s)) \<Longrightarrow> iterations s A = iterations s B"
    and "odd (length (printed s)) \<Longrightarrow> iterations s B = Suc (iterations s A)"
    and "iterations s A = 0 \<Longrightarrow> iterations s B = 0 \<Longrightarrow> length (printed s) = 2 * n"
proof -
  have "iterations s A + (length (printed s) + 1) div 2 = n" "iterations s B + length (printed s) div 2 = n"
    using assms by (simp_all add: order_ok_def)
  then show "even (length (printed s)) \<Longrightarrow> iterations s A = iterations s B"
    "odd (length (printed s)) \<Longrightarrow> iterations s B = Suc (iterations s A)"
    "iterations s A = 0 \<Longrightarrow> iterations s B = 0 \<Longrightarrow> length (printed s) = 2 * n"
    by presburger+
qed

definition order_work :: "make_order \<Rightarrow> nat" where
  "order_work s = (\<Sum>t\<leftarrow>[A, B]. 3 * iterations s t + (if waits s t then 0 else 1))"

definition order_closed :: "make_order \<Rightarrow> bool" where
  "order_closed s \<longleftrightarrow> iterations s A = 0 \<and> iterations s B = 0"

lemma order_step_work:
  assumes "order_step spurious s s'" "\<not> spurious"
  shows "order_work s' < order_work s"
  using assms
proof (induction rule: order_step.induct)
  case (runs s t)
  then show ?case by (cases t) (auto simp: order_work_def state_simps)
next
  case (sleeps s t)
  then show ?case by (cases t) (auto simp: order_work_def)
qed simp

lemma order_not_stuck:
  assumes ok: "order_ok n s" and open_end: "\<not> order_closed s"
  shows "\<exists>s'. order_step False s s'"
proof -
  define t where "t = (if even (length (printed s)) then A else B)"
  have go: "can_go t s" using ok by (auto simp: t_def order_ok_def can_go_def)
  then have "\<not> waits s t" using ok by (auto simp: order_ok_def)
  moreover have "0 < iterations s t"
    using open_end order_counts(1,2) [OF ok] by (cases "even (length (printed s))") (auto simp: order_closed_def t_def)
  ultimately show ?thesis using order_step.runs go by blast
qed

interpretation order: closing_machine "order_step False" "order_ok n" "\<lambda>s. True" order_closed order_work
  by unfold_locales (use order_ok_step order_step_work order_not_stuck in blast)+

lemma order_reachable: "(order_step spurious)\<^sup>*\<^sup>* (make_order_start n) s \<Longrightarrow> order_ok n s"
  by (induction rule: rtranclp_induct) (auto intro: order_ok_start order_ok_step)

text \<open>
  In every execution the letters printed alternate, beginning with A. No notification is lost: without spurious wake-ups every execution
  is over within a bound, and then each letter is printed as often as asked for.
\<close>

theorem turns_alternate:
  assumes "(order_step True)\<^sup>*\<^sup>* (make_order_start n) s"
  shows "printed s = turns A (length (printed s)) \<and>
    (\<forall>k s'. (order_step False ^^ k) s s' \<longrightarrow> k \<le> order_work s \<and>
      ((\<forall>u. \<not> order_step False s' u) \<longrightarrow> printed s' = turns A (2 * n)))"
proof (intro conjI allI impI)
  have ok: "order_ok n s" by (rule order_reachable [OF assms])
  then show "printed s = turns A (length (printed s))" unfolding order_ok_def by blast
  fix k s' assume run: "(order_step False ^^ k) s s'"
  show "k \<le> order_work s" by (rule order.closing_bound [OF run ok]) simp
  assume "\<forall>u. \<not> order_step False s' u"
  then have "order_closed s'" using order.stuck_closed [OF run ok] by blast
  moreover have "order_ok n s'" using order.closing_runs [OF run ok] by simp
  ultimately have "length (printed s') = 2 * n" "printed s' = turns A (length (printed s'))"
    using order_counts(3) unfolding order_closed_def order_ok_def by blast+
  then show "printed s' = turns A (2 * n)" by metis
qed

end
