(* ===== verification/Array_Map.thy ===== *)
theory Array_Map
  imports Prelude
begin

text \<open>
  The map with small numbers as keys that is an array, \<open>templates/ArrayMap.cpp\<close>. A key has an entry if the element at its index is not
  the default value. The elements are given by their bytes, as many as \<open>sizeof(T)\<close> says, because \<open>clear\<close> copies bytes; two are equal
  when their bytes are, as for the integers the program uses it with. Types with padding, floating-point numbers or storage of their
  own, whose \<open>==\<close> is another one, are not modelled. The iterator answered is an index, \<open>End\<close> being the size of the array.
\<close>

subsection \<open>The class template\<close>

type_synonym elem = "u8 list"

record elem_type =
  sizeof_T :: nat
  Default :: elem

definition elem_ok :: "elem_type \<Rightarrow> elem \<Rightarrow> bool" where
  "elem_ok T x \<longleftrightarrow> length x = sizeof_T T"

type_synonym array_map = "elem list"

definition EmptyMap :: "elem_type \<Rightarrow> nat \<Rightarrow> array_map" where
  "EmptyMap T SIZE = replicate SIZE (Default T)"

definition am_find :: "elem_type \<Rightarrow> nat \<Rightarrow> array_map \<Rightarrow> elem option" where
  "am_find T key m = (if length m \<le> key then None else if m ! key = Default T then None else Some (m ! key))"

definition am_try_emplace :: "elem_type \<Rightarrow> nat \<Rightarrow> elem \<Rightarrow> array_map \<Rightarrow> (nat \<times> bool) \<times> array_map" where
  "am_try_emplace T key x m =
     (if length m \<le> key then ((length m, False), m)
      else if m ! key \<noteq> Default T then ((key, False), m)
      else ((key, True), m[key := x]))"

definition am_insert_or_assign :: "nat \<Rightarrow> elem \<Rightarrow> array_map \<Rightarrow> (nat \<times> bool) \<times> array_map" where
  "am_insert_or_assign key x m = (if length m \<le> key then ((length m, False), m) else ((key, True), m[key := x]))"

fun am_find_from :: "elem \<Rightarrow> nat \<Rightarrow> array_map \<Rightarrow> nat" where
  "am_find_from x key [] = key"
| "am_find_from x key (y # ys) = (if x = y then key else am_find_from x (Suc key) ys)"

definition am_findValue :: "elem \<Rightarrow> array_map \<Rightarrow> nat" where
  "am_findValue x m = am_find_from x 0 m"

definition am_empty :: "elem_type \<Rightarrow> array_map \<Rightarrow> bool" where
  "am_empty T m \<longleftrightarrow> m = EmptyMap T (length m)"

text \<open>\<open>memcpy(dest, src, n)\<close> on arrays of elements: the first \<open>n\<close> bytes.\<close>

definition copy_bytes :: "nat \<Rightarrow> elem \<Rightarrow> elem \<Rightarrow> elem" where
  "copy_bytes n src dst = take n src @ drop n dst"

fun am_memcpy :: "array_map \<Rightarrow> array_map \<Rightarrow> nat \<Rightarrow> array_map" where
  "am_memcpy (d # ds) (x # xs) n = copy_bytes n x d # am_memcpy ds xs (n - length x)"
| "am_memcpy ds xs n = ds"

definition am_clear :: "elem_type \<Rightarrow> array_map \<Rightarrow> array_map" where
  "am_clear T m = am_memcpy m (EmptyMap T (length m)) (length m)"

subsection \<open>It is a map\<close>

lemma find_from_spec:
  "am_find_from x k m = (if x \<in> set m then k + length (takeWhile (\<lambda>y. y \<noteq> x) m) else k + length m)"
  by (induction m arbitrary: k) auto

lemma find_from_least:
  "x \<in> set m \<Longrightarrow> am_find_from x 0 m < length m \<and> m ! am_find_from x 0 m = x \<and> (\<forall>j<am_find_from x 0 m. m ! j \<noteq> x)"
proof (induction m)
  case (Cons y ys)
  show ?case
  proof (cases "x = y")
    case False
    then have "x \<in> set ys" using Cons.prems by simp
    note IH = Cons.IH [OF this]
    have "am_find_from x 0 (y # ys) = Suc (am_find_from x 0 ys)" using False by (simp add: find_from_spec)
    then show ?thesis using IH False by (auto simp: less_Suc_eq_0_disj)
  qed simp
qed simp

lemma empty_iff: "am_empty T m \<longleftrightarrow> (\<forall>key<length m. m ! key = Default T)"
  by (auto simp: am_empty_def EmptyMap_def list_eq_iff_nth_eq)

text \<open>\<open>clear\<close>: the first bytes of the array, as many as it has elements, become those of the default.\<close>

lemma memcpy_bytes:
  "am_memcpy ds (replicate (length ds) x) n =
     map (\<lambda>key. copy_bytes (n - key * length x) x (ds ! key)) [0..<length ds]"
proof (induction ds arbitrary: n)
  case (Cons d ds)
  have "map (\<lambda>key. copy_bytes (n - length x - key * length x) x (ds ! key)) [0..<length ds] =
      map (\<lambda>key. copy_bytes (n - Suc key * length x) x ((d # ds) ! Suc key)) [0..<length ds]"
    by simp
  then show ?case using Cons.IH [of "n - length x"]
    by (simp add: map_upt_Suc_shift del: upt_Suc)
qed simp

lemma clear_exact:
  "am_clear T m = map (\<lambda>key. copy_bytes (length m - key * length (Default T)) (Default T) (m ! key)) [0..<length m]"
  by (simp add: am_clear_def EmptyMap_def memcpy_bytes)

text \<open>
  Property C40: five operations of the array are those of a finite map, which \<open>find\<close> looks up: on keys below the size \<open>try_emplace\<close> adds
  an entry if there is none and \<open>insert_or_assign\<close> sets one, other keys are answered \<open>End\<close> and change nothing; \<open>empty\<close> says that there are no
  entries; \<open>findValue\<close> answers the least key whose element is the value, even if that is the default. Adding or assigning the default value
  is reported as an insertion, but leaves no entry. The sixth operation is not that of a map: \<open>clear\<close> sets the first bytes of the array
  to those of default elements, as many bytes as the array has elements, and leaves the others as they are. Elements are equal when their
  bytes are.
\<close>

theorem array_map_refines:
  "(case am_try_emplace T key x m of ((pos, added), m') \<Rightarrow>
      added = (key < length m \<and> am_find T key m = None) \<and> pos = min key (length m) \<and> length m' = length m \<and>
      (\<lambda>k. am_find T k m') =
        (if added then (\<lambda>k. am_find T k m)(key := if x = Default T then None else Some x) else (\<lambda>k. am_find T k m))) \<and>
   (case am_insert_or_assign key x m of ((pos, done), m') \<Rightarrow>
      done = (key < length m) \<and> pos = min key (length m) \<and> length m' = length m \<and>
      (\<lambda>k. am_find T k m') =
        (if done then (\<lambda>k. am_find T k m)(key := if x = Default T then None else Some x) else (\<lambda>k. am_find T k m))) \<and>
   am_empty T m = ((\<lambda>k. am_find T k m) = Map.empty) \<and>
   am_findValue x m = (if x \<in> set m then (LEAST key. key < length m \<and> m ! key = x) else length m) \<and>
   am_clear T m = map (\<lambda>key. let c = length m - key * length (Default T) in
      take c (Default T) @ drop c (m ! key)) [0..<length m]"
proof (intro conjI)
  show "case am_try_emplace T key x m of ((pos, added), m') \<Rightarrow>
      added = (key < length m \<and> am_find T key m = None) \<and> pos = min key (length m) \<and> length m' = length m \<and>
      (\<lambda>k. am_find T k m') =
        (if added then (\<lambda>k. am_find T k m)(key := if x = Default T then None else Some x) else (\<lambda>k. am_find T k m))"
    by (auto simp: am_try_emplace_def am_find_def nth_list_update fun_eq_iff)
  show "case am_insert_or_assign key x m of ((pos, done), m') \<Rightarrow>
      done = (key < length m) \<and> pos = min key (length m) \<and> length m' = length m \<and>
      (\<lambda>k. am_find T k m') =
        (if done then (\<lambda>k. am_find T k m)(key := if x = Default T then None else Some x) else (\<lambda>k. am_find T k m))"
    by (auto simp: am_insert_or_assign_def am_find_def nth_list_update fun_eq_iff)
  show "am_empty T m = ((\<lambda>k. am_find T k m) = Map.empty)"
    unfolding empty_iff am_find_def fun_eq_iff by (auto simp: not_le)
  show "am_findValue x m = (if x \<in> set m then (LEAST key. key < length m \<and> m ! key = x) else length m)"
  proof (cases "x \<in> set m")
    case True
    have "(LEAST key. key < length m \<and> m ! key = x) = am_find_from x 0 m"
      by (rule Least_equality) (use find_from_least [OF True] in \<open>auto simp: not_less [symmetric]\<close>)
    then show ?thesis using True by (simp add: am_findValue_def)
  next
    case False
    then show ?thesis by (simp add: am_findValue_def find_from_spec)
  qed
  show "am_clear T m = map (\<lambda>key. let c = length m - key * length (Default T) in
      take c (Default T) @ drop c (m ! key)) [0..<length m]"
    by (simp add: clear_exact copy_bytes_def Let_def)
qed

text \<open>
  \<open>clear\<close> gives the number of elements where the number of bytes is meant: it is right for elements of one byte, and else it leaves
  elements where they are.
\<close>

lemma memcpy_all: "length ds = length xs \<Longrightarrow> list_all2 (\<lambda>d x. length d = length x) ds xs \<Longrightarrow>
    sum_list (map length xs) \<le> n \<Longrightarrow> am_memcpy ds xs n = xs"
  by (induction ds xs n rule: am_memcpy.induct) (auto simp: copy_bytes_def)

lemma clear_bytes:
  assumes "sizeof_T T = 1" "elem_ok T (Default T)" "list_all (elem_ok T) m"
  shows "am_empty T (am_clear T m)"
proof -
  have "sum_list (map length (replicate k (Default T))) = k" for k
    using assms(1,2) by (induction k) (simp_all add: elem_ok_def)
  then have "am_clear T m = EmptyMap T (length m)" unfolding am_clear_def
    using assms by (intro memcpy_all) (auto simp: EmptyMap_def elem_ok_def list_all2_conv_all_nth list_all_length)
  then show ?thesis by (simp add: am_empty_def EmptyMap_def)
qed

lemma memcpy_beyond: "key < length ds \<Longrightarrow> n \<le> length x * key \<Longrightarrow> am_memcpy ds (replicate l x) n ! key = ds ! key"
proof (induction ds arbitrary: l n key)
  case (Cons d ds)
  show ?case
  proof (cases l)
    case (Suc l')
    then show ?thesis using Cons.prems Cons.IH [of "key - 1" "n - length x" l']
      by (cases key) (auto simp: copy_bytes_def)
  qed simp
qed simp

lemma clear_leaves:
  assumes "2 \<le> sizeof_T T" "elem_ok T (Default T)" "2 \<le> length m"
  shows "am_clear T m ! (length m - 1) = m ! (length m - 1)"
proof -
  have "length m \<le> 2 * (length m - 1)" using assms(3) by simp
  also have "\<dots> \<le> length (Default T) * (length m - 1)" using assms(1,2) by (simp add: elem_ok_def)
  finally show ?thesis using assms(3) unfolding am_clear_def EmptyMap_def by (intro memcpy_beyond) auto
qed

text \<open>
  The test of the program asserts that \<open>clear\<close> leaves an empty map, and passes by luck: its 20 bytes
  are the elements of the keys 0 and 1 and half of the element of key 2, whose other half is zero.
\<close>

definition size_t_type :: elem_type where
  "size_t_type = \<lparr>sizeof_T = 8, Default = replicate 8 0\<rparr>"

definition size_t_elem :: "u8 \<Rightarrow> elem" where
  "size_t_elem b = b # replicate 7 0"

lemma clear_in_test:
  "am_empty size_t_type (am_clear size_t_type ((EmptyMap size_t_type 20)[1 := size_t_elem 10, 2 := size_t_elem 20]))"
  by code_simp

lemma clear_fails:
  "am_find size_t_type 3 (am_clear size_t_type ((EmptyMap size_t_type 20)[3 := size_t_elem 10])) = Some (size_t_elem 10)"
  by code_simp

end
