(* ===== verification/Bit_Tricks.thy ===== *)
theory Bit_Tricks
  imports Prelude
begin

text \<open>
  Operations on bits: \<open>diff/bits.cpp\<close>, whose count of the bits of an \<open>int\<close> adds up the entries of a table
  for its four bytes.
\<close>

unbundle bit_operations_syntax

subsection \<open>Single bits\<close>

definition bits_equal :: "u64 \<Rightarrow> u64 \<Rightarrow> bool" where
  "bits_equal x n \<longleftrightarrow> x XOR n = 0"

definition isBitSet :: "u64 \<Rightarrow> nat \<Rightarrow> bool" where
  "isBitSet x n \<longleftrightarrow> x AND push_bit n 1 \<noteq> 0"

definition isOdd :: "u64 \<Rightarrow> bool" where
  "isOdd x \<longleftrightarrow> x AND 1 \<noteq> 0"

definition setBit :: "u64 \<Rightarrow> nat \<Rightarrow> u64" where
  "setBit x n = x OR push_bit n 1"

definition unsetBit :: "u64 \<Rightarrow> nat \<Rightarrow> u64" where
  "unsetBit x n = x AND NOT (push_bit n 1)"

definition isPowerOf2 :: "u64 \<Rightarrow> bool" where
  "isPowerOf2 n \<longleftrightarrow> n \<noteq> 0 \<and> n AND (n - 1) = 0"

subsection \<open>The table\<close>

text \<open>\<open>setLookup\<close>: for every index the loop over eight bits, which writes its entry each time round.\<close>

fun lookup_entry :: "u64 \<Rightarrow> nat list \<Rightarrow> nat \<Rightarrow> nat" where
  "lookup_entry i [] v = v"
| "lookup_entry i (j # js) v = lookup_entry i js (if isBitSet i j then v + 1 else v)"

definition lookup :: "nat list" where
  "lookup = map (\<lambda>i. lookup_entry (word_of_nat i) [0..<8] 0) [0..<256]"

text \<open>\<open>>>\<close> on \<open>int\<close> keeps the sign.\<close>

definition numOfSetBits :: "u32 \<Rightarrow> nat" where
  "numOfSetBits n =
     lookup ! unat (n AND 0xff) + lookup ! unat (signed_drop_bit 8 n AND 0xff) +
     lookup ! unat (signed_drop_bit 16 n AND 0xff) + lookup ! unat (signed_drop_bit 24 n AND 0xff)"

subsection \<open>What they answer\<close>

lemma isBitSet_bit: "n < 64 \<Longrightarrow> isBitSet x n = bit x n"
  by (simp add: isBitSet_def and_exp_eq_0_iff_not_bit flip: push_bit_eq_mult)

lemma setBit_bit: "n < 64 \<Longrightarrow> bit (setBit x n) k \<longleftrightarrow> k = n \<or> bit x k"
  by (auto simp: setBit_def bit_simps)

lemma unsetBit_bit: "n < 64 \<Longrightarrow> bit (unsetBit x n) k \<longleftrightarrow> k \<noteq> n \<and> bit x k"
  by (auto simp: unsetBit_def bit_simps dest: bit_imp_le_length)

lemma lookup_entry_count: "\<forall>j\<in>set js. j < 64 \<Longrightarrow> lookup_entry i js v = v + (\<Sum>j\<leftarrow>js. of_bool (bit i j))"
  by (induction js arbitrary: v) (auto simp: isBitSet_bit)

lemma lookup_byte:
  assumes "unat (b :: u32) < 256"
  shows "lookup ! unat b = (\<Sum>j<8. of_bool (bit b j))"
proof -
  have "bit (word_of_nat (unat b) :: u64) j = bit b j" if "j < 8" for j
    using that by (simp add: bit_simps possible_bit_word)
  then have "(\<Sum>j<8. of_bool (bit (word_of_nat (unat b) :: u64) j)) = (\<Sum>j<8. of_bool (bit b j) :: nat)"
    by (intro sum.cong) auto
  moreover have "lookup ! unat b = (\<Sum>j<8. of_bool (bit (word_of_nat (unat b) :: u64) j))" using assms
    unfolding lookup_def by (simp add: lookup_entry_count interv_sum_list_conv_sum_set_nat atLeast0LessThan del: sum_of_bool_eq)
  ultimately show ?thesis by simp
qed

lemma byte_of:
  assumes "k + 8 \<le> 32"
  shows "lookup ! unat (signed_drop_bit k (n :: u32) AND 0xff) = (\<Sum>j<8. of_bool (bit n (k + j)))"
proof -
  have m: "(0xff :: u32) = mask 8" by (simp add: mask_eq_exp_minus_1)
  have "unat (signed_drop_bit k n AND mask 8) < 256"
    unfolding take_bit_eq_mask [symmetric] unsigned_take_bit_eq using take_bit_nat_less_exp [of 8] by simp
  then have "lookup ! unat (signed_drop_bit k n AND mask 8) = (\<Sum>j<8. of_bool (bit (signed_drop_bit k n AND mask 8) j))"
    by (rule lookup_byte)
  also have "\<dots> = (\<Sum>j<8. of_bool (bit n (k + j)))"
    using assms by (intro sum.cong) (auto simp: bit_simps ac_simps)
  finally show ?thesis unfolding m .
qed

text \<open>The count is the number of the bits that are set, for negative numbers too.\<close>

theorem numOfSetBits_counts: "numOfSetBits n = card {k. k < 32 \<and> bit n k}"
proof -
  let ?b = "\<lambda>k. of_bool (bit n k) :: nat"
  have "numOfSetBits n = (\<Sum>j<8. ?b j) + (\<Sum>j<8. ?b (8 + j)) + (\<Sum>j<8. ?b (16 + j)) + (\<Sum>j<8. ?b (24 + j))"
    using byte_of [of 0 n] byte_of [of 8 n] byte_of [of 16 n] byte_of [of 24 n] by (simp add: numOfSetBits_def)
  also have "\<dots> = (\<Sum>k<32. ?b k)" by (simp add: numeral_eq_Suc)
  also have "\<dots> = card {k. k < 32 \<and> bit n k}"
    by (simp add: sum_of_bool_eq lessThan_def Collect_conj_eq)
  finally show ?thesis .
qed

lemma and_minus_one: "0 < n \<Longrightarrow> n AND (n - 1) = 0 \<longleftrightarrow> (\<exists>k. n = 2 ^ k)" for n :: nat
proof (induction n rule: less_induct)
  case (less n)
  show ?case
  proof (cases "even n")
    case True
    then obtain m where m: "n = 2 * m" "0 < m" "m < n" using less.prems by (auto elim!: evenE)
    then obtain l where l: "m = Suc l" using gr0_implies_Suc by blast
    have "n AND (n - 1) = 2 * (m AND (m - 1))" unfolding m(1) l by (subst and_rec) simp
    moreover have "(\<exists>k. n = 2 ^ k) \<longleftrightarrow> (\<exists>k. m = 2 ^ k)"
    proof
      assume "\<exists>k. n = 2 ^ k"
      then obtain k where k: "n = 2 ^ k" by blast
      with True obtain k' where "k = Suc k'" by (cases k) auto
      with k m(1) show "\<exists>k. m = 2 ^ k" by auto
    next
      assume "\<exists>k. m = 2 ^ k"
      then show "\<exists>k. n = 2 ^ k" using m(1) power_Suc by metis
    qed
    ultimately show ?thesis using less.IH [OF m(3,2)] by simp
  next
    case False
    then have "n AND (n - 1) = n - 1" by (subst and_rec) (auto elim!: oddE)
    moreover have "(\<exists>k. n = 2 ^ k) \<longleftrightarrow> n = 1"
    proof
      assume "\<exists>k. n = 2 ^ k"
      then show "n = 1" using False by (auto simp: even_power)
    next
      assume "n = 1"
      then have "n = 2 ^ 0" by simp
      then show "\<exists>k. n = 2 ^ k" by blast
    qed
    ultimately show ?thesis using less.prems by auto
  qed
qed

lemma unat_power_u64: "k < 64 \<Longrightarrow> unat (2 ^ k :: u64) = 2 ^ k"
  using unat_of_nat_small [where 'w = 64 and a = "2 ^ k"] power_strict_increasing [of k 64 "2 :: nat"] by simp

text \<open>\<open>isPowerOf2\<close> accepts exactly the powers of two.\<close>

theorem isPowerOf2_iff: "isPowerOf2 n \<longleftrightarrow> (\<exists>k<64. n = 2 ^ k)"
proof (cases "n = 0")
  case True
  then show ?thesis by (auto simp: isPowerOf2_def)
next
  case False
  then have pos: "0 < unat n" by (simp add: unat_gt_0)
  have sub: "unat (n - 1) = unat n - 1" using False by (simp add: unat_minus_one)
  have "n AND (n - 1) = 0 \<longleftrightarrow> unat n AND (unat n - 1) = 0"
    unfolding unat_eq_zero [of "n AND (n - 1)", symmetric] unsigned_and_eq sub ..
  also have "\<dots> \<longleftrightarrow> (\<exists>k. unat n = 2 ^ k)" by (rule and_minus_one [OF pos])
  also have "\<dots> \<longleftrightarrow> (\<exists>k<64. n = 2 ^ k)"
  proof
    assume "\<exists>k. unat n = 2 ^ k"
    then obtain k where k: "unat n = 2 ^ k" by blast
    moreover have "unat n < 2 ^ 64" using unsigned_less [of n, where 'a = nat] by simp
    ultimately have "(2 :: nat) ^ k < 2 ^ 64" by metis
    then have "k < 64" by (rule power_less_imp_less_exp [rotated]) simp
    moreover from this have "n = 2 ^ k" using k unat_power_u64 [of k] by (simp add: word_unat_eq_iff)
    ultimately show "\<exists>k<64. n = 2 ^ k" by blast
  next
    assume "\<exists>k<64. n = 2 ^ k"
    then show "\<exists>k. unat n = 2 ^ k" by (auto simp: unat_power_u64)
  qed
  finally show ?thesis using False by (simp add: isPowerOf2_def)
qed

end
