(* ===== verification/Own_Future.thy ===== *)
theory Own_Future
  imports Task_Pool
begin

text \<open>
  A future with a thread of its own, \<open>multiThread/Future_impl.cpp\<close>: the constructor starts a thread that runs the function with the mutex
  held, stores its value or exception and notifies; \<open>get\<close> waits for this. The destructor destroys the members in the reverse of their order: the condition
  variable and the mutex go before the guard joins the thread.
\<close>

subsection \<open>The class\<close>

text \<open>What a call of the function comes to: \<open>std::variant\<close> of a value and an exception.\<close>

datatype 'a outcome = Held 'a | Thrown string

datatype worker_pc = Locks | Runs | Unlocks | Over

text \<open>The owner is to call \<open>get\<close>, waits, was woken, has its answer, or is in the destructor or past it.\<close>

datatype 'a owner = To_get | Blocked_get | Woken | Answered "'a outcome" | To_destroy | Joins | Destroyed

record 'a future =
  fut_value :: "'a outcome option"
  isSet :: bool
  members_alive :: bool
  worker_pc :: worker_pc
  owner :: "'a owner"
  broken :: bool

definition future_start :: "bool \<Rightarrow> 'a future" where
  "future_start gets =
     \<lparr>fut_value = None, isSet = False, members_alive = True, worker_pc = Locks, owner = (if gets then To_get else To_destroy), broken = False\<rparr>"

text \<open>The mutex is held while the function runs and until the wrapper returns; the owner holds it within single steps only.\<close>

definition mutex_free :: "'a future \<Rightarrow> bool" where
  "mutex_free s \<longleftrightarrow> worker_pc s = Locks \<or> worker_pc s = Over"

text \<open>A step of the thread that uses a member that was destroyed is wrong.\<close>

definition callWrapper :: "'a outcome \<Rightarrow> 'a future \<Rightarrow> 'a future" where
  "callWrapper result s =
     (if \<not> members_alive s then s\<lparr>broken := True\<rparr>
      else case worker_pc s of
        Locks \<Rightarrow> s\<lparr>worker_pc := Runs\<rparr>
      | Runs \<Rightarrow> s\<lparr>fut_value := Some result, isSet := True, worker_pc := Unlocks,
                owner := (if owner s = Blocked_get then Woken else owner s)\<rparr>
      | Unlocks \<Rightarrow> s\<lparr>worker_pc := Over\<rparr>
      | Over \<Rightarrow> s)"

definition future_get :: "'a future \<Rightarrow> 'a future" where
  "future_get s =
     (if \<not> isSet s then s\<lparr>owner := Blocked_get\<rparr>
      else case fut_value s of None \<Rightarrow> s | Some r \<Rightarrow> s\<lparr>owner := Answered r\<rparr>)"

inductive future_step :: "bool \<Rightarrow> 'a outcome \<Rightarrow> 'a future \<Rightarrow> 'a future \<Rightarrow> bool"
  for spurious :: bool and result :: "'a outcome"
where
  works: "\<not> broken s \<Longrightarrow> worker_pc s \<noteq> Over \<Longrightarrow> future_step spurious result s (callWrapper result s)"
| gets: "\<not> broken s \<Longrightarrow> owner s = To_get \<or> owner s = Woken \<Longrightarrow> mutex_free s \<Longrightarrow> future_step spurious result s (future_get s)"
| wakes: "\<not> broken s \<Longrightarrow> spurious \<Longrightarrow> owner s = Blocked_get \<Longrightarrow> future_step spurious result s (s\<lparr>owner := Woken\<rparr>)"
| destroys: "\<not> broken s \<Longrightarrow> owner s = To_destroy \<or> (\<exists>r. owner s = Answered r) \<Longrightarrow>
    future_step spurious result s (s\<lparr>owner := Joins, members_alive := False\<rparr>)"
| joins: "\<not> broken s \<Longrightarrow> owner s = Joins \<Longrightarrow> worker_pc s = Over \<Longrightarrow> future_step spurious result s (s\<lparr>owner := Destroyed\<rparr>)"

lemmas [state_simps] = callWrapper_def future_get_def mutex_free_def

subsection \<open>A future that is asked\<close>

definition future_ok :: "'a outcome \<Rightarrow> 'a future \<Rightarrow> bool" where
  "future_ok result s \<longleftrightarrow>
     \<not> broken s \<and> (isSet s \<longleftrightarrow> worker_pc s = Unlocks \<or> worker_pc s = Over) \<and> (isSet s \<longrightarrow> fut_value s = Some result) \<and>
     (case owner s of
        To_get \<Rightarrow> members_alive s
      | Blocked_get \<Rightarrow> members_alive s \<and> \<not> isSet s
      | Woken \<Rightarrow> members_alive s
      | Answered r \<Rightarrow> members_alive s \<and> worker_pc s = Over \<and> r = result
      | To_destroy \<Rightarrow> False
      | Joins \<Rightarrow> worker_pc s = Over
      | Destroyed \<Rightarrow> worker_pc s = Over)"

lemma future_ok_start: "future_ok result (future_start True)"
  by (simp add: future_ok_def future_start_def)

lemma future_ok_step: "future_step spurious result s s' \<Longrightarrow> future_ok result s \<Longrightarrow> future_ok result s'"
proof (induction rule: future_step.induct)
  case (works s)
  then show ?case by (cases "worker_pc s"; cases "owner s") (auto simp: future_ok_def state_simps)
next
  case (gets s)
  then show ?case by (auto simp: future_ok_def state_simps)
qed (auto simp: future_ok_def split: owner.splits)

definition future_work :: "'a future \<Rightarrow> nat" where
  "future_work s =
     (case worker_pc s of Locks \<Rightarrow> 6 | Runs \<Rightarrow> 4 | Unlocks \<Rightarrow> 1 | Over \<Rightarrow> 0) +
     (case owner s of To_get \<Rightarrow> 4 | Blocked_get \<Rightarrow> 2 | Woken \<Rightarrow> 3 | Answered r \<Rightarrow> 2 | To_destroy \<Rightarrow> 2 | Joins \<Rightarrow> 1 | Destroyed \<Rightarrow> 0)"

lemma future_step_work: "future_step spurious result s s' \<Longrightarrow> future_ok result s \<Longrightarrow> \<not> spurious \<Longrightarrow> future_work s' < future_work s"
proof (induction rule: future_step.induct)
  case (works s)
  then show ?case by (cases "worker_pc s"; cases "owner s") (auto simp: future_ok_def future_work_def state_simps)
next
  case (gets s)
  then show ?case by (cases "isSet s") (auto simp: future_ok_def future_work_def state_simps)
qed (auto simp: future_ok_def future_work_def split: owner.splits)

lemma future_not_stuck:
  assumes "future_ok result s" "owner s \<noteq> Destroyed"
  shows "\<exists>s'. future_step False result s s'"
proof (cases "worker_pc s = Over")
  case False
  then show ?thesis using assms future_step.works [of s False result] by (auto simp: future_ok_def)
next
  case True
  then show ?thesis using assms future_step.gets [of s False result] future_step.destroys [of s False result] future_step.joins [of s False result]
    by (cases "owner s") (auto simp: future_ok_def mutex_free_def)
qed

interpretation future: closing_machine "future_step False result" "future_ok result" "\<lambda>s. True" "\<lambda>s. owner s = Destroyed" future_work
  by unfold_locales (use future_ok_step future_step_work future_not_stuck in blast)+

lemma future_reachable: "(future_step spurious result)\<^sup>*\<^sup>* (future_start True) s \<Longrightarrow> future_ok result s"
  by (induction rule: rtranclp_induct) (auto intro: future_ok_start future_ok_step)

text \<open>
  A future whose \<open>get\<close> is called before it is destroyed uses no destroyed member and answers what the function returned or
  threw; without spurious wake-ups every execution is over within a bound, with the future destroyed.
\<close>

theorem future_answers:
  assumes "(future_step True result)\<^sup>*\<^sup>* (future_start True) s"
  shows "\<not> broken s \<and> owner s \<in> {To_get, Blocked_get, Woken, Answered result, Joins, Destroyed} \<and>
    (\<forall>k s'. (future_step False result ^^ k) s s' \<longrightarrow> k \<le> future_work s \<and>
      ((\<forall>u. \<not> future_step False result s' u) \<longrightarrow> owner s' = Destroyed))"
proof (intro conjI allI impI)
  have ok: "future_ok result s" by (rule future_reachable [OF assms])
  then show "\<not> broken s" by (simp add: future_ok_def)
  show "owner s \<in> {To_get, Blocked_get, Woken, Answered result, Joins, Destroyed}"
    using ok by (cases "owner s") (simp_all add: future_ok_def)
  fix k s' assume run: "(future_step False result ^^ k) s s'"
  show "k \<le> future_work s" by (rule future.closing_bound [OF run ok]) simp
  assume "\<forall>u. \<not> future_step False result s' u"
  then show "owner s' = Destroyed" using future.stuck_closed [OF run ok] by blast
qed

text \<open>A future that is destroyed without \<open>get\<close> takes the mutex from under its thread.\<close>

theorem future_dropped_breaks:
  "\<exists>s. (future_step False result)\<^sup>*\<^sup>* (future_start False) s \<and> broken s"
proof -
  let ?s = "future_start False" and ?s1 = "(future_start False)\<lparr>owner := Joins, members_alive := False\<rparr>"
  have "future_step False result ?s ?s1" by (rule future_step.destroys) (simp_all add: future_start_def)
  moreover have "future_step False result ?s1 (callWrapper result ?s1)" by (rule future_step.works) (simp_all add: future_start_def)
  moreover have "broken (callWrapper result ?s1)" by (simp add: callWrapper_def)
  ultimately show ?thesis by (meson rtranclp.rtrancl_refl rtranclp.rtrancl_into_rtrancl)
qed

end
