(* ===== verification/Thread_Timer.thy ===== *)
theory Thread_Timer
  imports Prelude
begin

text \<open>
  The timer with a thread that counts, \<open>multiThread/ThreadTimer.h\<close>: every so many milliseconds the thread increments a counter if
  one is running, and calls back when it is past its maximum. Each operation of the counter is one critical section; the
  callback is called after it. The destructor joins the thread.
\<close>

subsection \<open>The counter, the timer, its thread\<close>

text \<open>The thread is asleep, about to call the callback, or has left its loop.\<close>

datatype loop_pc = Sleeps | Calls | Left

record thread_timer =
  m_cnt :: int
  loop_pc :: loop_pc
  called :: nat
  joining :: bool
  destructor_done :: bool

definition initCnt :: int where "initCnt = -1"

definition new_timer :: thread_timer where
  "new_timer = \<lparr>m_cnt = initCnt, loop_pc = Sleeps, called = 0, joining = False, destructor_done = False\<rparr>"

definition mc_reset :: "thread_timer \<Rightarrow> thread_timer" where
  "mc_reset s = s\<lparr>m_cnt := initCnt\<rparr>"

definition mc_start :: "thread_timer \<Rightarrow> bool \<times> thread_timer" where
  "mc_start s = (if m_cnt s \<noteq> initCnt then (False, s) else (True, s\<lparr>m_cnt := 0\<rparr>))"

definition mc_increment :: "int \<Rightarrow> thread_timer \<Rightarrow> thread_timer" where
  "mc_increment maxCnt s =
     (if m_cnt s = initCnt then s
      else if m_cnt s < maxCnt then s\<lparr>m_cnt := m_cnt s + 1\<rparr>
      else s\<lparr>m_cnt := initCnt, loop_pc := Calls\<rparr>)"

definition mc_onMaxCnt :: "thread_timer \<Rightarrow> thread_timer" where
  "mc_onMaxCnt s = s\<lparr>loop_pc := Sleeps, called := called s + 1\<rparr>"

inductive timer_step :: "int \<Rightarrow> thread_timer \<Rightarrow> thread_timer \<Rightarrow> bool"
  for maxCnt :: int
where
  ticks: "loop_pc s = Sleeps \<Longrightarrow> timer_step maxCnt s (mc_increment maxCnt s)"
| calls: "loop_pc s = Calls \<Longrightarrow> timer_step maxCnt s (mc_onMaxCnt s)"
| starts: "\<not> joining s \<Longrightarrow> timer_step maxCnt s (snd (mc_start s))"
| ends: "\<not> joining s \<Longrightarrow> timer_step maxCnt s (mc_reset s)"
| destroys: "\<not> joining s \<Longrightarrow> timer_step maxCnt s (s\<lparr>joining := True\<rparr>)"
| joins: "joining s \<Longrightarrow> loop_pc s = Left \<Longrightarrow> timer_step maxCnt s (s\<lparr>destructor_done := True\<rparr>)"

subsection \<open>When it calls back\<close>

text \<open>One round of \<open>threadEnrty\<close>.\<close>

definition timer_round :: "int \<Rightarrow> thread_timer \<Rightarrow> thread_timer" where
  "timer_round maxCnt s = (let s1 = mc_increment maxCnt s in if loop_pc s1 = Calls then mc_onMaxCnt s1 else s1)"

lemma timer_round_steps: "loop_pc s = Sleeps \<Longrightarrow> (timer_step maxCnt)\<^sup>*\<^sup>* s (timer_round maxCnt s) \<and> loop_pc (timer_round maxCnt s) = Sleeps"
  using timer_step.ticks [of s maxCnt] timer_step.calls [of "mc_increment maxCnt s" maxCnt]
  by (auto simp: timer_round_def Let_def mc_increment_def mc_onMaxCnt_def)

text \<open>
  Started once, and left alone, the timer calls back once, at the end of one round more than its maximum, and can be started again
  from then on.
\<close>

theorem timer_calls_once:
  assumes "loop_pc s = Sleeps" "mc_start s = (True, s')" "0 \<le> maxCnt"
  shows "(timer_round maxCnt ^^ k) s' =
    s'\<lparr>m_cnt := if k \<le> nat maxCnt then int k else initCnt, called := called s' + (if k \<le> nat maxCnt then 0 else 1)\<rparr>"
proof (induction k)
  case 0
  have "m_cnt s' = 0" using assms(2) by (auto simp: mc_start_def split: if_splits)
  then show ?case by simp
next
  case (Suc k)
  have "loop_pc s' = Sleeps" using assms(1,2) by (auto simp: mc_start_def split: if_splits)
  then show ?case using Suc assms(3)
    by (auto simp: timer_round_def mc_increment_def mc_onMaxCnt_def initCnt_def Let_def)
qed

text \<open>
  \<open>end\<close> does not take back a callback that is due: it can come after \<open>end\<close> has returned. And the
  destructor never returns, because the thread never leaves its loop.
\<close>

theorem callback_after_end:
  "\<exists>s s'. (timer_step 0)\<^sup>*\<^sup>* new_timer s \<and> (timer_step 0)\<^sup>*\<^sup>* (mc_reset s) s' \<and> timer_step 0 s (mc_reset s) \<and>
     called s = 0 \<and> called s' = 1"
proof -
  let ?s1 = "snd (mc_start new_timer)"
  let ?s = "mc_increment 0 ?s1"
  have "timer_step 0 new_timer ?s1" by (rule timer_step.starts) (simp add: new_timer_def)
  moreover have "timer_step 0 ?s1 ?s" by (rule timer_step.ticks) (simp add: new_timer_def mc_start_def)
  ultimately have run: "(timer_step 0)\<^sup>*\<^sup>* new_timer ?s" by (meson r_into_rtranclp rtranclp.rtrancl_into_rtrancl)
  have "timer_step 0 ?s (mc_reset ?s)"
    by (rule timer_step.ends) (simp add: new_timer_def mc_start_def mc_increment_def initCnt_def)
  moreover have "timer_step 0 (mc_reset ?s) (mc_onMaxCnt (mc_reset ?s))"
    by (rule timer_step.calls) (simp add: new_timer_def mc_start_def mc_increment_def mc_reset_def initCnt_def)
  moreover have "called ?s = 0" "called (mc_onMaxCnt (mc_reset ?s)) = 1"
    by (simp_all add: new_timer_def mc_start_def mc_increment_def mc_reset_def mc_onMaxCnt_def initCnt_def)
  ultimately show ?thesis using run by blast
qed

theorem timer_destructor_hangs: "(timer_step maxCnt)\<^sup>*\<^sup>* new_timer s \<Longrightarrow> loop_pc s \<noteq> Left \<and> \<not> destructor_done s"
proof (induction rule: rtranclp_induct)
  case (step s u)
  from step.hyps(2) show ?case
    by cases (use step.IH in \<open>auto simp: mc_increment_def mc_onMaxCnt_def mc_start_def mc_reset_def\<close>)
qed (simp add: new_timer_def)

end
