(* ===== verification/Text_Utils.thy ===== *)
theory Text_Utils
  imports Cpp_Text
begin

text \<open>
  Conversions between strings and C arrays, and texts of values and collections, \<open>proxygen_ih/tools/cpp_tools/Utils.h\<close>. The arrays
  and the bytes behind a C pointer are lists; \<open>lexical_cast\<close> is a parameter, \<open>None\<close> its exception.
\<close>

subsection \<open>C arrays\<close>

abbreviation NUL :: char where "NUL \<equiv> CHR 0x00"

text \<open>\<open>c_str\<close> up to its first zero; \<open>strncpy\<close> fills up with zeros.\<close>

definition c_chars :: "string \<Rightarrow> string" where
  "c_chars s = takeWhile (\<lambda>c. c \<noteq> NUL) s"

definition c_strncpy :: "string \<Rightarrow> string \<Rightarrow> nat \<Rightarrow> string" where
  "c_strncpy ar s n = (let t = take n (c_chars s) in t @ replicate (n - length t) NUL @ drop n ar)"

text \<open>The answer is null, or the array.\<close>

definition str2Cstr :: "string \<Rightarrow> string \<Rightarrow> bool \<times> string" where
  "str2Cstr ar from_str =
     (if from_str = [] then (False, ar)
      else (True, (c_strncpy ar from_str (length ar - 1))[length ar - 1 := NUL]))"

definition c_strnlen :: "string \<Rightarrow> nat \<Rightarrow> nat" where
  "c_strnlen s maxSize = length (takeWhile (\<lambda>c. c \<noteq> NUL) (take maxSize s))"

definition MakeSafeStdString :: "string option \<Rightarrow> nat \<Rightarrow> string \<Rightarrow> nat \<times> string" where
  "MakeSafeStdString cStr maxSize stdStr =
     (case cStr of
        None \<Rightarrow> (0, stdStr)
      | Some s \<Rightarrow>
          (let size = c_strnlen s maxSize in if size = maxSize then (0, stdStr) else (size, take size s)))"

subsection \<open>Texts of values\<close>

definition ValueToString :: "('v \<Rightarrow> string option) \<Rightarrow> 'v \<Rightarrow> string" where
  "ValueToString cast v = (case cast v of None \<Rightarrow> [] | Some s \<Rightarrow> s)"

definition pointer_to_string :: "('v \<Rightarrow> string option) \<Rightarrow> 'v option \<Rightarrow> string" where
  "pointer_to_string cast p = (case p of None \<Rightarrow> [] | Some v \<Rightarrow> ValueToString cast v)"

definition pair_to_string :: "('v \<Rightarrow> string option) \<Rightarrow> ('w \<Rightarrow> string option) \<Rightarrow> 'v \<times> 'w \<Rightarrow> string" where
  "pair_to_string cast1 cast2 v = ValueToString cast1 (fst v) @ '','' @ ValueToString cast2 (snd v)"

definition VarToString :: "('v \<Rightarrow> string option) \<Rightarrow> string \<Rightarrow> 'v \<Rightarrow> string" where
  "VarToString cast var v = var @ ''='' @ ValueToString cast v @ '';'' @ [CHR 0x0A]"

definition ColToString :: "('v \<Rightarrow> string option) \<Rightarrow> string \<Rightarrow> 'v list \<Rightarrow> string" where
  "ColToString cast var col = fold (\<lambda>v acc. acc @ ValueToString cast v @ '';'') col (var @ ''='') @ [CHR 0x0A]"

subsection \<open>What arrives\<close>

text \<open>A string comes out of an array as it was put in, cut to what fits and at its first zero; an empty one leaves the array as it was.\<close>

theorem c_array_roundtrip:
  assumes "from_str \<noteq> []" "ar \<noteq> []" "str2Cstr ar from_str = (ok, ar')"
  shows "ok \<and> length ar' = length ar \<and>
    MakeSafeStdString (Some ar') (length ar') old = (let t = take (length ar - 1) (c_chars from_str) in (length t, t))"
proof -
  define n where "n = length ar - 1"
  have n: "length ar = Suc n" using assms(2) by (cases ar) (simp_all add: n_def)
  define t where "t = take n (c_chars from_str)"
  have t: "length t \<le> n" "\<forall>c\<in>set t. c \<noteq> NUL"
    by (auto simp: t_def c_chars_def dest!: in_set_takeD set_takeWhileD)
  have ar': "ok" "ar' = (t @ replicate (n - length t) NUL @ drop n ar)[n := NUL]"
    using assms(1,3) by (auto simp: str2Cstr_def c_strncpy_def Let_def t_def n)
  have "drop n ar = [ar ! n]" using n Cons_nth_drop_Suc [of n ar] by simp
  then have "ar' = t @ replicate (n - length t) NUL @ [NUL]"
    using t(1) by (simp add: ar'(2) list_update_append)
  then have a: "ar' = t @ NUL # replicate (n - length t) NUL"
    by (simp only: replicate_append_same)
  then have len: "length ar' = Suc n" using t(1) by simp
  have "takeWhile (\<lambda>c. c \<noteq> NUL) ar' = t" unfolding a using t(2) by (subst takeWhile_append2) auto
  then have "c_strnlen ar' (length ar') = length t" by (simp add: c_strnlen_def)
  then have "MakeSafeStdString (Some ar') (length ar') old = (length t, t)"
    using t(1) len a by (simp add: MakeSafeStdString_def Let_def)
  then show ?thesis using ar'(1) len n t_def by (simp add: Let_def)
qed

lemma col_to_string: "ColToString cast var col = var @ ''='' @ concat (map (\<lambda>v. ValueToString cast v @ '';'') col) @ [CHR 0x0A]"
proof -
  have "fold (\<lambda>v acc. acc @ ValueToString cast v @ '';'') col acc = acc @ concat (map (\<lambda>v. ValueToString cast v @ '';'') col)" for acc
    by (induction col arbitrary: acc) simp_all
  then show ?thesis by (simp add: ColToString_def)
qed

end
