(* ===== verification/State_Flags.thy ===== *)
theory State_Flags
  imports Prelude
begin

text \<open>
  States of a system as sets of flags in atomic integers, \<open>diff/state2.cpp\<close>. Every operation is one atomic access, so that what several
  threads do is a sequence of operations.
\<close>

unbundle bit_operations_syntax

subsection \<open>The classes\<close>

type_synonym state_code = u8

definition state_load :: "state_code \<Rightarrow> u8" where "state_load v = v"

definition state_store :: "u8 \<Rightarrow> state_code \<Rightarrow> state_code" where "state_store s v = s"

definition state_is_set :: "u8 \<Rightarrow> state_code \<Rightarrow> bool" where "state_is_set s v \<longleftrightarrow> state_load v AND s = s"

definition state_set :: "u8 \<Rightarrow> state_code \<Rightarrow> state_code" where "state_set s v = v OR s"

definition state_unset :: "u8 \<Rightarrow> state_code \<Rightarrow> state_code" where "state_unset s v = v AND NOT s"

definition ERROR_FLAG :: u8 where "ERROR_FLAG = push_bit 1 1"

definition NOT_INIT_FLAG :: u8 where "NOT_INIT_FLAG = push_bit 2 1"

definition state_is_ok :: "state_code \<Rightarrow> bool" where "state_is_ok v \<longleftrightarrow> state_load v = 0"

datatype state_id = Config_state | Log_state

record system_state =
  config_state :: state_code
  log_state :: state_code

definition system_start :: system_state where
  "system_start = \<lparr>config_state = NOT_INIT_FLAG, log_state = NOT_INIT_FLAG\<rparr>"

fun system_get :: "state_id \<Rightarrow> system_state \<Rightarrow> state_code" where
  "system_get Config_state S = config_state S"
| "system_get Log_state S = log_state S"

fun system_put :: "state_id \<Rightarrow> (state_code \<Rightarrow> state_code) \<Rightarrow> system_state \<Rightarrow> system_state" where
  "system_put Config_state f S = S\<lparr>config_state := f (config_state S)\<rparr>"
| "system_put Log_state f S = S\<lparr>log_state := f (log_state S)\<rparr>"

datatype flag_op = Set_flag state_id u8 | Unset_flag state_id u8 | Store_flags state_id u8

fun flag_step :: "flag_op \<Rightarrow> system_state \<Rightarrow> system_state" where
  "flag_step (Set_flag i s) S = system_put i (state_set s) S"
| "flag_step (Unset_flag i s) S = system_put i (state_unset s) S"
| "flag_step (Store_flags i s) S = system_put i (state_store s) S"

subsection \<open>The last operation on a flag decides\<close>

text \<open>What an operation does to a flag, if it is about it.\<close>

fun flag_effect :: "state_id \<Rightarrow> nat \<Rightarrow> flag_op \<Rightarrow> bool option" where
  "flag_effect i k (Set_flag j s) = (if i = j \<and> bit s k then Some True else None)"
| "flag_effect i k (Unset_flag j s) = (if i = j \<and> bit s k then Some False else None)"
| "flag_effect i k (Store_flags j s) = (if i = j then Some (bit s k) else None)"

lemma system_get_put: "system_get i (system_put j f S) = (if i = j then f (system_get i S) else system_get i S)"
  by (cases i; cases j) simp_all

lemma flag_step_bit:
  "bit (system_get i (flag_step op S)) k = (case flag_effect i k op of None \<Rightarrow> bit (system_get i S) k | Some b \<Rightarrow> b)"
  by (cases op) (auto simp: system_get_put state_set_def state_unset_def state_store_def bit_simps dest: bit_imp_le_length)

text \<open>
  In every interleaving of operations on the two states, a flag is as the last operation about it left it; operations about other flags, or the other
  state, never show.
\<close>

theorem last_operation_decides:
  "bit (system_get i (fold flag_step ops S)) k =
     (case List.map_filter (flag_effect i k) (rev ops) of [] \<Rightarrow> bit (system_get i S) k | b # bs \<Rightarrow> b)"
  by (induction ops rule: rev_induct) (simp_all add: flag_step_bit List.map_filter_simps split: option.splits)

lemma bit_u8: "bit (v :: u8) k \<Longrightarrow> k < 8"
  using bit_imp_le_length [of v k] by simp

lemma state_is_set_bits: "state_is_set s v \<longleftrightarrow> (\<forall>k. bit s k \<longrightarrow> bit v k)"
  unfolding state_is_set_def state_load_def bit_eq_iff using bit_u8 [of s] by (auto simp: bit_simps)

lemma state_is_ok_bits: "state_is_ok v \<longleftrightarrow> (\<forall>k. \<not> bit v k)"
  unfolding state_is_ok_def state_load_def bit_eq_iff using bit_u8 [of v] by auto

end
