(* ===== verification/Spec2Isabelle.thy ===== *)
theory Spec2Isabelle
  imports Pc_Queue Mpmc_Wrap Mpmc_Pack Fix_Threads_Props Calendar_Props Text_Messages
    Integral_Keys_Props Integral_Keys_Num Ticket_Lock Hierarchical_Mutex
    Web_Props Web_Options Pool_Stop_Token Pool_Flag Pool_Ring Net_Client
    Blocking_Queue Wait_Locks Short_String Push_Stack Mpsc_Queue Typed_Options Child_Reader
    Turn_Taking Array_Map Bit_Tricks Own_Future Thread_Timer Text_Utils State_Flags
begin

text \<open>
  A verification library for the programs of the repository that have logic of their own. The
  repository is a collection: lock-free queues, locks and thread pools (\<open>src/multiThread\<close>), an
  adapter between FIX sessions and a trading system (\<open>src/diff/cpp_play/FixAdapter\<close>), a web
  server on top of proxygen (\<open>src/proxygen_ih\<close>), a request server and its client
  (\<open>src/diff2/data_provider\<close>), and single programs in \<open>src/diff\<close> and \<open>src/templates\<close>. Paths below
  are relative to \<open>src/\<close>.

  \<^bold>\<open>Conventions.\<close> A class is a record, an enumeration a datatype, an integer of \<open>w\<close> bits a
  \<open>w word\<close> (\<open>u8\<close>, \<open>u32\<close>, \<open>u64\<close>) unless its range cannot matter, where it is \<open>nat\<close> or \<open>int\<close>.
  An operation is a function from the state to the state and its result. An exception is the left
  side of a sum or \<open>None\<close>, as is a failed assertion or the use of a null pointer. Threads
  are interleaved: each access to a shared variable, or each section under a mutex, is one step of
  an inductive relation whose rules name the operation and its guard. Memory is sequentially
  consistent. Code outside the repository (the trading system's headers \<open>espdI.h\<close>,
  \<open>endian_wrapper.h\<close> and \<open>buffer.h\<close>, QuickFIX, Boost, proxygen, folly, gflags) is a parameter:
  a record of functions whose documented behaviour is a named predicate, and every property
  that needs it has an instance in which it holds.

  \<^bold>\<open>Shared theories.\<close> \<open>Prelude\<close> has the collections of rewrite rules and the two interfaces of
  stateful code, \<open>inductive_invariant\<close> (an invariant of a step relation) and
  \<open>trace_refinement\<close> (a simulation between two labelled step relations, which carries the traces of
  \<open>run\<close> over). \<open>Atomic_Queue\<close> is the specification of the concurrent queues: a bounded list on which
  each operation takes effect at one moment between its call and its return. \<open>Ring_Buffer\<close> has the arithmetic of ring
  indices, \<open>Cpp_Text\<close> the conversions between strings and numbers, \<open>Task_Pool\<close> the contracts of
  the thread pools (\<open>task_pool\<close>: tasks start once and in order; \<open>closing_machine\<close>: a machine
  that is closing stops within a bound, closed). Every locale is interpreted on the
  definitions of a component.

  \<^bold>\<open>Queues.\<close>
  \<^item> \<open>Spsc_Queue\<close>: \<open>multiThread/OneReaderOneWriterQueue.cpp\<close>. One producer and one consumer
    on a ring with one free slot; first-in first-out order for every interleaving, and
    linearizability: its calls, returns and answers are those of an atomic queue.
  \<^item> \<open>Pc_Queue\<close>: \<open>ProducerConsumerQueue\<close> of \<open>multiThread/OneReaderOneWriterQueue3.cpp\<close>, with
    its stop flag, access in place, size estimate and destructor.
  \<^item> \<open>Mpmc_Queue\<close>, \<open>Mpmc_Safety\<close>, \<open>Mpmc_Traces\<close>, \<open>Mpmc_Theorems\<close>, \<open>Mpmc_Wrap\<close>: \<open>mpmc_queue.h\<close> of
    \<open>multiThread/erez-strauss/lockfree_mpmc_queue\<close>. The slots, indices and each access of \<open>push\<close>
    and \<open>pop\<close> (\<open>Mpmc_Queue\<close>); the invariant of any number of threads (\<open>Mpmc_Safety\<close>); their calls
    and returns, simulated by an atomic queue (\<open>Mpmc_Traces\<close>); first-in first-out order,
    linearizability, exactness of the answers, obstruction freedom and the operations made of push
    and pop (\<open>Mpmc_Theorems\<close>), as long as no sequence number repeats; and how the order is lost as
    soon as one does (\<open>Mpmc_Wrap\<close>).
  \<^item> \<open>Mpmc_Pack\<close>: \<open>mpmc_queue_pack.h\<close> and \<open>pointer_mpmc_queue.h\<close> of the same directory, over the
    interface \<open>pop_source\<close>.
  \<^item> \<open>Mpsc_Queue\<close>: \<open>multiThread/OneReaderMWriter2.cpp\<close>, a queue for each producer and one consumer, over
    Boost's \<open>spsc_queue\<close>; nothing is lost or repeated while it runs, and how stopping fails.
  \<^item> \<open>Blocking_Queue\<close>: \<open>diff2/DataTransfer.cpp\<close>, a container under a mutex with two condition variables, whose
    threads wait for room and for elements; order, bounds, and that balanced threads all return.
  \<^item> \<open>Push_Stack\<close>: \<open>diff/cpp_play/atomic_compare_exchange.cpp\<close>, the nodes on the heap and the exchange of the
    head by any number of threads, and a print step by step among them; the list is what was pushed, a print
    shows it as it was when the print began, and pushing ends.

  \<^bold>\<open>Locks.\<close>
  \<^item> \<open>Ticket_Lock\<close>: \<open>multiThread/spin_ticket_mutex.cpp\<close>; mutual exclusion and service in the
    order of the tickets, for fewer than \<open>2 ^ 64\<close> tickets.
  \<^item> \<open>Hierarchical_Mutex\<close>: \<open>multiThread/hierarchical_mutex.cpp\<close>; threads that unlock in reverse
    order cannot deadlock, others can.

  \<^item> \<open>Wait_Locks\<close>: \<open>multiThread/wait_ticket_mutex.cpp\<close>, \<open>slinlock_fair.cpp\<close>, \<open>slinlock2.cpp\<close>, three locks whose threads
    sleep in \<open>std::atomic::wait\<close>, with the interface \<open>sleeping_lock\<close>; two serve all threads, the one that notifies one
    thread of many can hang.
  \<^item> \<open>Turn_Taking\<close>: \<open>multiThread/serial_executor_cond_var.cpp\<close>, two threads in turns.
  \<^item> \<open>Own_Future\<close>: \<open>multiThread/Future_impl.cpp\<close>, a future whose thread outlives its mutex if nobody asks for
    the value; \<open>Thread_Timer\<close>: \<open>multiThread/ThreadTimer.h\<close>, when the timer calls back.

  \<^bold>\<open>Thread pools.\<close> Workers, queue, wake-ups, permits and the order in which the members are
  destroyed. A task is its identity; what it computes is the caller's.
  \<^item> \<open>Pool_Stop_Token\<close>: \<open>multiThread/ThreadPool_stop_token2.cpp\<close> (which empties the queue before
    it stops) and \<open>ThreadPool4.cpp\<close> (which does not).
  \<^item> \<open>Pool_Flag\<close>: \<open>multiThread/ThreadPool3.cpp\<close>.
  \<^item> \<open>Pool_Semaphore\<close>: \<open>multiThread/Semaphore Thread Pool2.cpp\<close>, with its move-only \<open>Task\<close>.
  \<^item> \<open>Pool_Ring\<close>: \<open>multiThread/ThreadPoollockfree4.cpp\<close>, access by access on its ring.

  \<^bold>\<open>FIX adapter.\<close> A FIX message enters through \<open>application.cpp\<close>, is routed by its session to the
  request manager of a trading system, converted field by field, encoded into a buffer and queued;
  a writer thread sends the queue over a connection. A reader thread receives bytes, cuts them into
  messages, parses them, and the response manager converts them into execution reports for the
  session they belong to.
  \<^item> \<open>Fix_Types\<close>: the field types and identifiers (\<open>protocol/include/msh_field_type.h\<close>,
    \<open>ext_property.h\<close>, \<open>msg_header.h\<close>), and the record \<open>wire\<close> of what \<open>espdI.h\<close> and
    \<open>endian_wrapper.h\<close> define.
  \<^item> \<open>Fix_Codec\<close>, \<open>Fix_Codec_Props\<close>: \<open>msg_encoder.h\<close> and \<open>msg_from_ts_parser.h\<close>; round trip,
    capacity of the encoder, safety of the parser on arbitrary bytes.
  \<^item> \<open>Fix_Values\<close>: \<open>fix_espd_maper.h\<close> and \<open>ext_property.h\<close>, the tables between FIX values and
    codes of the trading system.
  \<^item> \<open>Fix_Sessions\<close>: \<open>fix_utils.h\<close>, \<open>logon_info.h\<close>, \<open>session_settings_wrapper.h/.cpp\<close>,
    \<open>ts_settings.h/.cpp\<close>, \<open>connect_settings.h\<close>; the maps from sessions to users and back.
  \<^item> \<open>Fix_Requests\<close>, \<open>Fix_Requests_Props\<close>: the routers, \<open>msg_to_ts.h\<close>, \<open>ts_request_manager.h\<close>;
    which bytes an order becomes, and which orders are never sent.
  \<^item> \<open>Fix_Responses\<close>, \<open>Fix_Responses_Props\<close>: \<open>msg_buffer_map.h\<close>, \<open>ts_notify_manager.h\<close>,
    \<open>msg_from_ts.h\<close>, \<open>ts_response_manager.h/.cpp\<close>; which report a response becomes and for whom.
  \<^item> \<open>Fix_Threads\<close>, \<open>Fix_Threads_Props\<close>: \<open>ts_connector.h/.cpp\<close>, \<open>ts_writer.h\<close>, \<open>ts_reader.h\<close>,
    \<open>session_manager.cpp\<close>, \<open>application.cpp\<close>; when connecting and sending never end, what one
    round of each thread does, and that sessions of different trading systems do not touch.

  \<^bold>\<open>Web server.\<close> \<open>Web_Counters\<close> (\<open>tools/cpp_tools/ServerCounters.h\<close>, \<open>HTTPServerAcceptor.cpp\<close>)
  has the counters and limits; \<open>Web_Messages\<close> (\<open>shared/Message.h\<close>, \<open>ResponseHandler.h\<close>,
  \<open>ResponseBuilder.h\<close>) the responses; \<open>Web_Requests\<close> (\<open>RequestHandlerAdaptor.cpp\<close>,
  \<open>RejectConnectFilter.h\<close>, \<open>ProxygenRequestHandlerBase.cpp\<close>, \<open>RequestHandlerImpl.cpp\<close>) the life of
  a request between event loop and executor; \<open>Web_Counting\<close> what is counted in every execution;
  \<open>Web_Answers\<close> that orderly executions answer at most once and correctly; \<open>Web_Props\<close> the
  properties; \<open>Web_Options\<close> (\<open>impl/Options.cpp\<close>, \<open>impl/ServerManager.cpp\<close>,
  \<open>fb_impl/ServerWrapper.cpp\<close>) the flags and what a configuration file makes of them; \<open>Child_Reader\<close>
  (\<open>tools/cpp_tools/ChildProcessReader.h\<close>, \<open>fb_impl/ProxygenMessage.cpp\<close>) the body made of the output of a child process, and
  the working directory.

  \<^bold>\<open>Data provider.\<close> \<open>Net_Buffers\<close> (\<open>utils/utils.h\<close>, \<open>common/message.h\<close>,
  \<open>server/io_context_pool.cpp\<close>, \<open>server/thrd_per_cntxt_server.cpp\<close>) has buffers, headers and the
  choice of event loops; \<open>Net_Server\<close> (\<open>server/connection.cpp\<close>) a connection and the interface
  \<open>request_handler\<close>; \<open>Net_Client\<close> (\<open>client/sync_client.cpp\<close>, \<open>test_server/test_server.cpp\<close>) the client,
  the echo handler and the service as a whole.

  \<^bold>\<open>Single programs.\<close> \<open>Calendar\<close>, \<open>Calendar_Dates\<close>, \<open>Calendar_Props\<close>:
  \<open>diff/GregorianCalendar2.cpp\<close>, proved to find the earliest date on a rule over any calendar with
  the contract of Boost.DateTime. \<open>Text_Messages\<close>: \<open>diff/MesageParser.cpp\<close>. \<open>Integral_Keys\<close>,
  \<open>Integral_Keys_Num\<close>, \<open>Integral_Keys_Props\<close>: \<open>diff/hash_map/ConstexprMath.h\<close>,
  \<open>IntegralValue.h\<close> and the hash of \<open>MonotonicIntegralHashMap.h\<close>. \<open>Short_String\<close>: \<open>diff/17/ShortString4.cpp\<close>,
  strings as integers for \<open>switch\<close>. \<open>Typed_Options\<close>: \<open>diff/Options.cpp\<close> and the options of \<open>diff2/ClientOptions.h\<close>,
  over \<open>lexical_cast\<close>. \<open>Array_Map\<close>: \<open>templates/ArrayMap.cpp\<close>, against a finite map, for
  elements that are equal when their bytes are, and what \<open>clear\<close> leaves. \<open>Bit_Tricks\<close>: \<open>diff/bits.cpp\<close>, the count
  of bits by a table and the test for powers of two against their definitions. \<open>State_Flags\<close>: \<open>diff/state2.cpp\<close>, where the last
  atomic operation on a flag decides. \<open>Text_Utils\<close>: the conversions of \<open>proxygen_ih/tools/cpp_tools/Utils.h\<close>.

  \<^bold>\<open>Bounds.\<close> A push or pop of \<open>mpmc_queue\<close> that runs alone returns within seven steps of its own;
  \<open>push_keep_n\<close> has two rounds of fuel, which are proved to be enough. Connecting to a trading system
  may never end (\<open>None\<close> of \<open>partial_function (option)\<close>): it does not while the endpoints refuse, and
  throws when its sleep is interrupted. The loop over the quarters of the calendar has four rounds.
  The indices of \<open>mpmc_queue\<close> have their width \<open>w\<close>, and its properties hold as long as at most
  \<open>2 ^ (w - 1) - 2 * capacity\<close> values are enqueued (the predicate \<open>within\<close>), that is
  \<open>2 ^ 31 - 2 * capacity\<close> for its default \<open>uint32_t\<close>; \<open>Mpmc_Wrap\<close> shows that they fail beyond. The
  tickets of \<open>Ticket_Lock\<close> are fewer than \<open>2 ^ 64\<close>, as are counted requests; those of
  \<open>Wait_Locks\<close> wrap. The vector of actions of the response converter keeps its iterators for messages of
  at most 100 fields, for which it reserves room; years end at 9999, where the calendar of
  Boost does. A pool whose destructor has begun stops within \<open>pool_work\<close> steps, a connection with
  nothing more to receive within \<open>conn_work\<close> steps. These are measures of the state that every
  step decreases, as are \<open>dq_work\<close> (blocking queue), \<open>wl_work\<close> and \<open>spin_work\<close> (waiting locks), \<open>stack_work\<close>,
  \<open>order_work\<close> and \<open>future_work\<close>, which bound every execution of finitely many calls without spurious wake-ups and
  failures.

  \<^bold>\<open>Not modelled.\<close> Weak memory orders. Output, logging, signals and sleeping.
  Code generated by protobuf and CMake; the copies of Boost.Process and of proxygen's
  server apart from the files the repository changes; copies of the modelled files elsewhere in the
  repository (\<open>lockfree_mpmc_queue_origin\<close>, \<open>diff2/hash_map\<close>, \<open>diff2/IntegralString\<close>, most of \<open>diff/cpp_play\<close>); tests and
  benchmarks; programs whose logic is that of a library they call (ordered thread pools and actors over Boost's executors
  and queues, Boost multi-index and Asio demonstrations) or that do not compile (\<open>HybridQueue.cpp\<close>,
  \<open>WatermarkMessageQueue.cpp\<close>); and the hundreds of short programs that show one feature of the language or of a
  library each. The wrapper \<open>MonotonicIntegralHashMap\<close> around \<open>std::unordered_map\<close> adds only
  calls. Of the web server, pausing, upgrades and pushed
  responses; of the session manager and the application of the FIX adapter, the calls
  of QuickFIX that start and stop them.
\<close>

end
